(* ===== verification/Bup_Prelude.thy ===== *)
theory Bup_Prelude
  imports Main "HOL-Library.Char_ord" "HOL-Library.List_Lexorder" "HOL-Library.Sublist"
    "HOL-Library.Word" "HOL-Library.Product_Lexorder"
begin

text \<open>
  Shared vocabulary of the development.  Python \<open>bytes\<close> are lists of \<open>char\<close>, which are
  exactly the 256 byte values; the library's lexicographic order on such lists is the order
  Python uses on \<open>bytes\<close>.  Python's unbounded integers are \<open>int\<close>.  An exception is a value
  of \<open>py_error\<close> in the left summand of a result; the handlers of the code are case
  distinctions on it.  An input port (a \<open>BytesIO\<close>, an open file) is the list of bytes not
  read yet, an output port the bytes written so far.
\<close>

unbundle bit_operations_syntax

named_theorems res_simps \<open>rewriting of results: binding, errors, sequencing\<close>
named_theorems byte_simps \<open>rewriting of byte values and their bits\<close>

section \<open>Bytes\<close>

type_synonym bytes = "char list"

abbreviation bval :: "char \<Rightarrow> int" where
  "bval c \<equiv> of_char c"

abbreviation bchr :: "int \<Rightarrow> char" where
  "bchr n \<equiv> char_of n"

lemma bval_range [simp]: "0 \<le> bval c" "bval c < 256"
proof -
  have "of_char c < (256::nat)" by (rule nat_of_char_less_256)
  then have "int (of_char c) < 256" by simp
  then show "bval c < 256" by (simp add: of_nat_of_char)
  have "0 \<le> int (of_char c)" by simp
  then show "0 \<le> bval c" by (simp add: of_nat_of_char)
qed

lemma bval_bchr [simp]: "0 \<le> n \<Longrightarrow> n < 256 \<Longrightarrow> bval (bchr n) = n"
  by simp

text \<open>The bit masks the encoders use, as remainders and quotients.\<close>

lemma and_mask_int:
  "(x::int) AND 0x7f = x mod 128" "(x::int) AND 0x3f = x mod 64" "(x::int) AND 0x0f = x mod 16"
  using take_bit_eq_mask [of 7 x] take_bit_eq_mask [of 6 x] take_bit_eq_mask [of 4 x]
  by (simp_all add: take_bit_eq_mod mask_eq_exp_minus_1)

lemma drop_bit_int_div:
  "drop_bit 7 (x::int) = x div 128" "drop_bit 6 (x::int) = x div 64" "drop_bit 4 (x::int) = x div 16"
  by (simp_all add: drop_bit_eq_div)

lemma or_disjoint_int:
  fixes x y :: int
  assumes "0 \<le> x" "x < 2 ^ n"
  shows "x OR push_bit n y = x + push_bit n y"
proof -
  have x: "x = take_bit n x"
    using assms by (simp add: take_bit_eq_mod)
  have "take_bit n x AND push_bit n y = 0"
    by (rule bit_eqI) (auto simp: bit_simps)
  then have "x AND push_bit n y = 0"
    using x by simp
  then show ?thesis
    by (simp add: disjunctive_add_eq_or)
qed

text \<open>A single bit, as the code tests it: \<open>b & 0x80\<close>, \<open>b & 0x40\<close>.\<close>

lemma and_bit_int:
  "(x::int) AND 0x80 = (if odd (x div 128) then 128 else 0)"
  "(x::int) AND 0x40 = (if odd (x div 64) then 64 else 0)"
proof -
  have "(x::int) AND 2 ^ n = (if bit x n then 2 ^ n else 0)" for n
    by (rule bit_eqI) (auto simp: bit_simps)
  then have *: "(x::int) AND 2 ^ n = (if odd (x div 2 ^ n) then 2 ^ n else 0)" for n
    by (simp add: bit_iff_odd)
  show "(x::int) AND 0x80 = (if odd (x div 128) then 128 else 0)"
    "(x::int) AND 0x40 = (if odd (x div 64) then 64 else 0)"
    using * [of 7] * [of 6] by simp_all
qed

lemma or_bit_int:
  "0 \<le> (x::int) \<Longrightarrow> x < 128 \<Longrightarrow> x OR 0x80 = x + 128" "0 \<le> (x::int) \<Longrightarrow> x < 128 \<Longrightarrow> 0x80 OR x = x + 128"
  "0 \<le> (x::int) \<Longrightarrow> x < 64 \<Longrightarrow> x OR 0x40 = x + 64"
  using or_disjoint_int [of x 7 1] or_disjoint_int [of x 6 1] by (simp_all add: or.commute)

lemma int_le_div_iff:
  assumes "0 < k"
  shows "b \<le> (a::int) div k \<longleftrightarrow> k * b \<le> a"
proof
  assume "b \<le> a div k"
  then have "k * b \<le> k * (a div k)" using assms by simp
  then show "k * b \<le> a" using minus_mod_eq_mult_div [of a k] pos_mod_sign [of k a] assms by linarith
next
  assume "k * b \<le> a"
  then show "b \<le> a div k" using zdiv_mono1 [of "k * b" a k] assms by simp
qed

lemma int_div_less_iff: "0 < k \<Longrightarrow> (a::int) div k < b \<longleftrightarrow> a < k * b"
  using int_le_div_iff [of k b a] by linarith

text \<open>Tag bits above a small value do not disturb it.\<close>

lemma small_div_mod:
  fixes r d :: int
  assumes "0 \<le> r" "r < d"
  shows "r div d = 0" "r mod d = r" "(r + d) div d = 1" "(r + d) mod d = r"
  using assms by (simp_all add: div_add_self2)

lemma small_shift_div_mod:
  fixes r k d :: int
  assumes "0 \<le> r" "r < d"
  shows "(r + k * d) div d = k" "(r + k * d) mod d = r"
  using assms by simp_all

lemmas bit_arith = and_mask_int and_bit_int or_bit_int drop_bit_int_div

section \<open>Exceptions and results\<close>

text \<open>
  The exceptions the modelled code raises or catches.  \<open>UndefinedBehaviour\<close> is not an
  exception: it marks the inputs on which the C helpers leave the C standard's defined
  behaviour (a write past a buffer, a shift past the width).  \<open>Exc\<close> is a plain
  \<open>Exception\<close> with its message's fixed part.
\<close>

datatype py_error =
    ValueError | EOFError | IOError | AssertionError | OverflowError | IndexError | KeyError
  | TypeError | ZeroDivisionError | UnboundLocalError | SystemError | StructError | StopIteration
  | GitError | BloomInvalid | QuoteError | MissingIdxs "bytes list" | Exc string
  | UndefinedBehaviour | SysExit int

type_synonym 'a res = "py_error + 'a"

definition res_bind :: "'e + 'a \<Rightarrow> ('a \<Rightarrow> 'e + 'b) \<Rightarrow> 'e + 'b" where
  "res_bind m f = (case m of Inl e \<Rightarrow> Inl e | Inr x \<Rightarrow> f x)"

lemma res_bind_simps [simp]:
  "res_bind (Inl e) f = Inl e" "res_bind (Inr x) f = f x"
  by (simp_all add: res_bind_def)

lemma res_bind_Inr_iff [res_simps]: "res_bind m f = Inr y \<longleftrightarrow> (\<exists>x. m = Inr x \<and> f x = Inr y)"
  by (cases m) simp_all

lemma res_bind_Inl_iff [res_simps]:
  "res_bind m f = Inl e \<longleftrightarrow> m = Inl e \<or> (\<exists>x. m = Inr x \<and> f x = Inl e)"
  by (cases m) simp_all

lemma res_bind_assoc [res_simps]: "res_bind (res_bind m f) g = res_bind m (\<lambda>x. res_bind (f x) g)"
  by (cases m) simp_all

lemma res_bind_cong [fundef_cong]:
  "m = m' \<Longrightarrow> (\<And>x. m' = Inr x \<Longrightarrow> f x = g x) \<Longrightarrow> res_bind m f = res_bind m' g"
  by (cases m') simp_all

text \<open>\<open>py_assert\<close> is Python's \<open>assert\<close>; \<open>raise_if\<close> a guarded \<open>raise\<close>.\<close>

definition py_assert :: "bool \<Rightarrow> unit res" where
  "py_assert b = (if b then Inr () else Inl AssertionError)"

definition raise_if :: "bool \<Rightarrow> 'e \<Rightarrow> 'e + unit" where
  "raise_if b e = (if b then Inl e else Inr ())"

lemma py_assert_Inr [simp]: "py_assert b = Inr u \<longleftrightarrow> b" "py_assert b = Inl e \<longleftrightarrow> \<not> b \<and> e = AssertionError"
  by (auto simp: py_assert_def)

lemma py_assert_simps [simp]: "py_assert True = Inr ()" "py_assert False = Inl AssertionError"
  by (simp_all add: py_assert_def)

lemma raise_if_simps [simp]: "raise_if True e = Inl e" "raise_if False e = Inr ()"
  "raise_if b e = Inr u \<longleftrightarrow> \<not> b" "raise_if b e = Inl e' \<longleftrightarrow> b \<and> e' = e"
  by (auto simp: raise_if_def)

text \<open>Mapping a fallible function over a list, stopping at the first error.\<close>

fun res_map :: "('a \<Rightarrow> 'e + 'b) \<Rightarrow> 'a list \<Rightarrow> 'e + 'b list" where
  "res_map f [] = Inr []"
| "res_map f (x # xs) = res_bind (f x) (\<lambda>y. res_bind (res_map f xs) (\<lambda>ys. Inr (y # ys)))"

lemma res_map_Inr_iff: "res_map f xs = Inr ys \<longleftrightarrow> list_all2 (\<lambda>x y. f x = Inr y) xs ys"
  by (induction xs arbitrary: ys) (auto simp: res_simps list_all2_Cons1)

lemma res_map_all_Inr: "(\<And>x. x \<in> set xs \<Longrightarrow> f x = Inr (g x)) \<Longrightarrow> res_map f xs = Inr (map g xs)"
  by (induction xs) auto

end
