(* ===== verification/Vint.thy ===== *)
theory Vint
  imports Bup_Prelude
begin

text \<open>
  The variable length integers of \<open>lib/bup/vint.py\<close> and the C encoders of
  \<open>lib/bup/_helpers.c\<close> they call.  A port being read is the list of its unread bytes; a
  reader returns \<open>None\<close> at the end of the port, as the code does, together with what is left.
\<close>

section \<open>The C encoders\<close>

text \<open>
  \<open>long long\<close> arguments come through the \<open>L\<close> conversion, which raises \<open>OverflowError\<close>
  outside 64 bits.  The encoders fill \<open>char buf[(sizeof(val) + 1) / 7 * 8]\<close>, which is
  \<open>9 div 7 * 8 = 8\<close> bytes; writing a ninth byte is \<open>UndefinedBehaviour\<close>.
\<close>

definition fits_longlong :: "int \<Rightarrow> bool" where
  "fits_longlong x \<longleftrightarrow> - (2 ^ 63) \<le> x \<and> x < 2 ^ 63"

definition c_vint_buflen :: nat where
  "c_vint_buflen = (8 + 1) div 7 * 8"

text \<open>The loop \<open>do { ... } while (val)\<close>, on a value that is not negative.\<close>

function vuint_encode_loop :: "int \<Rightarrow> bytes" where
  "vuint_encode_loop val =
     (let b = val AND 0x7f; val' = drop_bit 7 val
      in if 0 < val' then bchr (b OR 0x80) # vuint_encode_loop val' else [bchr b])"
  by pat_completeness auto
termination
  by (relation "measure nat") (auto simp: drop_bit_int_div)

declare vuint_encode_loop.simps [simp del]

definition vuint_encode :: "int \<Rightarrow> bytes res" where
  "vuint_encode val = (if val < 0 then Inl ValueError else Inr (vuint_encode_loop val))"

text \<open>The loop \<open>while (val)\<close> of \<open>vint_encode\<close>.\<close>

definition vint_encode_tail :: "int \<Rightarrow> bytes" where
  "vint_encode_tail val = (if 0 < val then vuint_encode_loop val else [])"

definition vint_encode :: "int \<Rightarrow> bytes res" where
  "vint_encode val0 =
     (if val0 = - (2 ^ 63) then Inl UndefinedBehaviour \<comment> \<open>\<open>val = -val\<close> overflows\<close>
      else let sign = (if val0 < 0 then 0x40 else 0);
          val = (if val0 < 0 then - val0 else val0);
          b0 = (val AND 0x3f) OR sign;
          val' = drop_bit 6 val
       in Inr (bchr (if 0 < val' then b0 OR 0x80 else b0) # vint_encode_tail val'))"

definition in_buffer :: "bytes \<Rightarrow> bytes res" where
  "in_buffer bs = (if length bs \<le> c_vint_buflen then Inr bs else Inl UndefinedBehaviour)"

definition bup_vuint_encode :: "int \<Rightarrow> bytes res" where
  "bup_vuint_encode x =
     (if fits_longlong x then res_bind (vuint_encode x) in_buffer else Inl OverflowError)"

definition bup_vint_encode :: "int \<Rightarrow> bytes res" where
  "bup_vint_encode x = (if fits_longlong x then res_bind (vint_encode x) in_buffer else Inl OverflowError)"

section \<open>Writing\<close>

text \<open>The \<open>while True\<close> loop of the Python fallback, for values past 64 bits.\<close>

function encode_vuint_loop :: "int \<Rightarrow> bytes \<Rightarrow> bytes" where
  "encode_vuint_loop x ret =
     (let seven_bits = x AND 0x7f; x' = drop_bit 7 x
      in if 0 < x' then encode_vuint_loop x' (ret @ [bchr (0x80 OR seven_bits)])
         else ret @ [bchr seven_bits])"
  by pat_completeness auto
termination
  by (relation "measure (\<lambda>(x, ret). nat x)") (auto simp: drop_bit_int_div)

declare encode_vuint_loop.simps [simp del]

definition encode_vuint :: "int \<Rightarrow> bytes res" where
  "encode_vuint x =
     (case bup_vuint_encode x of
        Inl OverflowError \<Rightarrow>
          if x < 0 then Inl ValueError
          else res_bind (py_assert (x \<noteq> 0)) (\<lambda>_. Inr (encode_vuint_loop x []))
      | r \<Rightarrow> r)"

definition encode_vint :: "int \<Rightarrow> bytes res" where
  "encode_vint x =
     (case bup_vint_encode x of
        Inl OverflowError \<Rightarrow>
          res_bind (py_assert (x \<noteq> 0)) (\<lambda>_.
            let m = (if x < 0 then - x else x);
                sign_and_six_bits = (if x < 0 then (m AND 0x3f) OR 0x40 else m AND 0x3f);
                x' = drop_bit 6 m
            in res_bind (py_assert (x' \<noteq> 0)) (\<lambda>_.
                 res_bind (encode_vuint x') (\<lambda>rest. Inr (bchr (0x80 OR sign_and_six_bits) # rest))))
      | r \<Rightarrow> r)"

definition encode_bvec :: "bytes \<Rightarrow> bytes res" where
  "encode_bvec x = res_bind (bup_vuint_encode (int (length x))) (\<lambda>n. Inr (n @ x))"

text \<open>An output port is the bytes written to it so far.\<close>

definition write_vuint :: "bytes \<Rightarrow> int \<Rightarrow> bytes res" where
  "write_vuint port x = res_bind (encode_vuint x) (\<lambda>b. Inr (port @ b))"

definition write_vint :: "bytes \<Rightarrow> int \<Rightarrow> bytes res" where
  "write_vint port x = res_bind (encode_vint x) (\<lambda>b. Inr (port @ b))"

definition write_bvec :: "bytes \<Rightarrow> bytes \<Rightarrow> bytes res" where
  "write_bvec port x = res_bind (write_vuint port (int (length x))) (\<lambda>port'. Inr (port' @ x))"

section \<open>Reading\<close>

text \<open>
  The reading loop: \<open>b\<close> is the byte just read, \<open>s\<close> what follows.  It is structural in
  what is left of the port.
\<close>

fun read_vuint_loop :: "char \<Rightarrow> int \<Rightarrow> nat \<Rightarrow> bytes \<Rightarrow> (int \<times> bytes) res" where
  "read_vuint_loop c result offset s =
     (if bval c AND 0x80 \<noteq> 0 then
        (let result' = result OR push_bit offset (bval c AND 0x7f)
         in case s of [] \<Rightarrow> Inl EOFError
            | c' # s' \<Rightarrow> read_vuint_loop c' result' (offset + 7) s')
      else Inr (result OR push_bit offset (bval c), s))"

declare read_vuint_loop.simps [simp del]

definition read_vuint :: "bytes \<Rightarrow> (int option \<times> bytes) res" where
  "read_vuint port =
     (case port of
        [] \<Rightarrow> Inr (None, [])
      | c # s \<Rightarrow>
          if bval c = 0 then Inr (Some 0, s)
          else res_bind (read_vuint_loop c 0 0 s) (\<lambda>(r, s'). Inr (Some r, s')))"

definition read_vint :: "bytes \<Rightarrow> (int option \<times> bytes) res" where
  "read_vint port =
     (case port of
        [] \<Rightarrow> Inr (None, [])
      | c # s \<Rightarrow>
          (let b = bval c; negative = (b AND 0x40 \<noteq> 0); result = b AND 0x3f
           in if b AND 0x80 \<noteq> 0 then
                (case s of [] \<Rightarrow> Inl EOFError
                 | c' # s' \<Rightarrow>
                     res_bind (read_vuint_loop c' result 6 s')
                       (\<lambda>(r, s''). Inr (Some (if negative then - r else r), s'')))
              else Inr (Some (if negative then - result else result), s)))"

definition read_bvec :: "bytes \<Rightarrow> (bytes option \<times> bytes) res" where
  "read_bvec port =
     res_bind (read_vuint port) (\<lambda>(n, s).
       case n of None \<Rightarrow> Inr (None, s)
       | Some n \<Rightarrow>
           (let val = take (nat n) s
            in if int (length val) \<noteq> n then Inl EOFError else Inr (Some val, drop (nat n) s)))"

definition skip_bvec :: "bytes \<Rightarrow> bytes res" where
  "skip_bvec port =
     res_bind (read_vuint port) (\<lambda>(n, s).
       case n of None \<Rightarrow> Inl EOFError
       | Some n \<Rightarrow> if take (nat n) s = [] then Inl EOFError else Inr (drop (nat n) s))"

section \<open>Formats: \<open>send\<close>, \<open>recv\<close>, \<open>pack\<close>, \<open>unpack\<close>\<close>

text \<open>The values a format string describes: \<open>V\<close> and \<open>v\<close> integers, \<open>s\<close> byte strings.\<close>

datatype vval = VInt int | VBytes bytes

definition write_item :: "bytes \<Rightarrow> char \<Rightarrow> vval \<Rightarrow> bytes res" where
  "write_item port type value =
     (if type = CHR ''V'' then (case value of VInt x \<Rightarrow> write_vuint port x | VBytes _ \<Rightarrow> Inl TypeError)
      else if type = CHR ''v'' then (case value of VInt x \<Rightarrow> write_vint port x | VBytes _ \<Rightarrow> Inl TypeError)
      else if type = CHR ''s'' then (case value of VBytes b \<Rightarrow> write_bvec port b | VInt _ \<Rightarrow> Inl TypeError)
      else Inl ValueError)"

text \<open>\<open>send\<close> returns the port with whatever was written before an exception.\<close>

fun send_loop :: "bytes \<Rightarrow> (char \<times> vval) list \<Rightarrow> bytes \<times> unit res" where
  "send_loop port [] = (port, Inr ())"
| "send_loop port ((type, value) # r) =
     (case write_item port type value of Inl e \<Rightarrow> (port, Inl e) | Inr port' \<Rightarrow> send_loop port' r)"

definition send :: "bytes \<Rightarrow> string \<Rightarrow> vval list \<Rightarrow> bytes \<times> unit res" where
  "send port types args =
     (if length types \<noteq> length args then (port, Inl ValueError) else send_loop port (zip types args))"

definition read_item :: "char \<Rightarrow> bytes \<Rightarrow> (vval option \<times> bytes) res" where
  "read_item type port =
     (if type = CHR ''V'' then res_bind (read_vuint port) (\<lambda>(x, s). Inr (map_option VInt x, s))
      else if type = CHR ''v'' then res_bind (read_vint port) (\<lambda>(x, s). Inr (map_option VInt x, s))
      else if type = CHR ''s'' then res_bind (read_bvec port) (\<lambda>(x, s). Inr (map_option VBytes x, s))
      else Inl ValueError)"

fun recv :: "string \<Rightarrow> bytes \<Rightarrow> (vval list \<times> bytes) res" where
  "recv [] port = Inr ([], port)"
| "recv (type # types) port =
     res_bind (read_item type port) (\<lambda>(x, s).
       case x of None \<Rightarrow> Inl EOFError
       | Some v \<Rightarrow> res_bind (recv types s) (\<lambda>(vs, s'). Inr (v # vs, s')))"

text \<open>
  The loop of \<open>bup_limited_vint_pack\<close>: \<open>buf\<close> is what lies before \<open>pos\<close>, \<open>cap\<close> the
  buffer's size.  \<open>vuint_encode\<close> answers a negative value by setting \<open>ValueError\<close> and
  returning 0; the loop goes on, so \<open>pend\<close> records an exception that is already set (the
  interpreter turns a result returned with one into \<open>SystemError\<close>).
\<close>

fun limited_vint_pack_loop :: "nat \<Rightarrow> bool \<Rightarrow> bytes \<Rightarrow> (char \<times> vval) list \<Rightarrow> bytes res" where
  "limited_vint_pack_loop cap pend buf [] = (if pend then Inl SystemError else Inr buf)"
| "limited_vint_pack_loop cap pend buf ((f, item) # r) =
     (if f = CHR ''V'' \<or> f = CHR ''v'' then
        (case item of VBytes _ \<Rightarrow> Inl OverflowError
         | VInt val \<Rightarrow>
             if \<not> fits_longlong val \<or> (val = -1 \<and> pend) then Inl OverflowError
             else if cap < length buf + 10 then Inl OverflowError
             else if f = CHR ''V'' then
               (case vuint_encode val of Inl e \<Rightarrow> limited_vint_pack_loop cap True buf r
                | Inr b \<Rightarrow> limited_vint_pack_loop cap pend (buf @ b) r)
             else res_bind (vint_encode val) (\<lambda>b. limited_vint_pack_loop cap pend (buf @ b) r))
      else if f = CHR ''s'' then
        (case item of VInt _ \<Rightarrow> Inl TypeError
         | VBytes bs \<Rightarrow>
             if cap < length buf + 10 then Inl OverflowError
             else (let buf' = buf @ vuint_encode_loop (int (length bs))
                   in if cap < length buf' + length bs then Inl OverflowError
                      else limited_vint_pack_loop cap pend (buf' @ bs) r))
      else Inl ValueError)"

definition bup_limited_vint_pack :: "string \<Rightarrow> vval list \<Rightarrow> bytes res" where
  "bup_limited_vint_pack fmt packargs =
     (let sz = length packargs
      in if sz \<noteq> length fmt then Inl (Exc ''number of arguments does not match format string'')
         else if (2 ^ 31 - 1) div 20 < sz then Inl (Exc ''format is far too long'')
         else limited_vint_pack_loop (sz * 20) False [] (zip fmt packargs))"

definition pack_item :: "char \<Rightarrow> vval \<Rightarrow> bytes res" where
  "pack_item typ value =
     (if typ = CHR ''V'' then (case value of VInt x \<Rightarrow> encode_vuint x | VBytes _ \<Rightarrow> Inl TypeError)
      else if typ = CHR ''v'' then (case value of VInt x \<Rightarrow> encode_vint x | VBytes _ \<Rightarrow> Inl TypeError)
      else if typ = CHR ''s'' then (case value of VBytes b \<Rightarrow> encode_bvec b | VInt _ \<Rightarrow> Inl TypeError)
      else Inl ValueError)"

definition pack :: "string \<Rightarrow> vval list \<Rightarrow> bytes res" where
  "pack types args =
     (case bup_limited_vint_pack types args of
        Inl OverflowError \<Rightarrow>
          res_bind (py_assert (length types = length args)) (\<lambda>_.
            res_bind (res_map (\<lambda>(typ, value). pack_item typ value) (zip types args))
              (\<lambda>ret. Inr (concat ret)))
      | r \<Rightarrow> r)"

definition unpack :: "string \<Rightarrow> bytes \<Rightarrow> vval list res" where
  "unpack types data = res_bind (recv types data) (\<lambda>(result, _). Inr result)"

section \<open>Round trips\<close>

lemma encode_vuint_loop_append: "encode_vuint_loop x ret = ret @ vuint_encode_loop x"
proof (induction x ret rule: encode_vuint_loop.induct)
  case (1 x ret)
  then show ?case
    by (simp add: encode_vuint_loop.simps [of x ret] vuint_encode_loop.simps [of x] Let_def or.commute)
qed

lemma vuint_encode_loop_not_Nil [simp]: "vuint_encode_loop x \<noteq> []"
  by (simp add: vuint_encode_loop.simps [of x] Let_def)

lemma vuint_encode_loop_length:
  assumes "0 \<le> x"
  shows "length (vuint_encode_loop x) \<le> Suc n \<longleftrightarrow> x < 128 ^ Suc n"
  using assms
proof (induction x arbitrary: n rule: vuint_encode_loop.induct)
  case (1 val)
  show ?case
  proof (cases "0 < val div 128")
    case False
    then have "val < 128" by presburger
    moreover have "(128::int) \<le> 128 ^ Suc n"
      using one_le_power [of "128::int" n] by simp
    ultimately have "val < 128 ^ Suc n" by linarith
    then show ?thesis
      using False by (simp add: vuint_encode_loop.simps [of val] drop_bit_int_div)
  next
    case True
    then have "128 \<le> val" by presburger
    show ?thesis
    proof (cases n)
      case 0
      then show ?thesis
        using True \<open>128 \<le> val\<close> by (simp add: vuint_encode_loop.simps [of val] drop_bit_int_div)
    next
      case (Suc m)
      have "length (vuint_encode_loop (val div 128)) \<le> Suc m \<longleftrightarrow> val div 128 < 128 ^ Suc m"
        using "1.IH" [of "val AND 0x7f" "drop_bit 7 val"] True by (simp add: drop_bit_int_div)
      also have "\<dots> \<longleftrightarrow> val < 128 ^ Suc n"
        using Suc by (simp add: int_div_less_iff)
      finally show ?thesis
        using True Suc by (simp add: vuint_encode_loop.simps [of val] drop_bit_int_div)
    qed
  qed
qed

lemma read_vuint_loop_encode:
  assumes "0 \<le> x" "0 \<le> result" "result < 2 ^ offset"
  shows "read_vuint_loop (hd (vuint_encode_loop x)) result offset (tl (vuint_encode_loop x) @ rest)
    = Inr (result + push_bit offset x, rest)"
  using assms
proof (induction x arbitrary: result offset rule: vuint_encode_loop.induct)
  case (1 val)
  define b where "b = val mod 128"
  have b: "0 \<le> b" "b < 128" "b div 128 = 0" "(b + 128) div 128 = 1" "(b + 128) mod 128 = b"
    by (auto simp: b_def)
  have or: "result OR push_bit offset y = result + push_bit offset y" for y
    using "1.prems" by (simp add: or_disjoint_int)
  show ?case
  proof (cases "0 < val div 128")
    case False
    then have "val < 128" by presburger
    then have "b = val" using "1.prems" by (simp add: b_def)
    then show ?thesis
      using False b or by (simp add: vuint_encode_loop.simps [of val] bit_arith read_vuint_loop.simps Let_def flip: b_def)
  next
    case True
    define r' where "r' = result + push_bit offset b"
    have r': "0 \<le> r'" "r' < 2 ^ (offset + 7)"
    proof -
      have "b * 2 ^ offset \<le> 127 * 2 ^ offset"
        using b mult_right_mono [of b 127 "2 ^ offset"] by simp
      then have "result + b * 2 ^ offset < 2 ^ offset + 127 * 2 ^ offset"
        using "1.prems" by linarith
      then show "r' < 2 ^ (offset + 7)"
        by (simp add: r'_def push_bit_eq_mult power_add algebra_simps)
      show "0 \<le> r'" using "1.prems" b by (simp add: r'_def push_bit_eq_mult)
    qed
    have "read_vuint_loop (hd (vuint_encode_loop (val div 128))) r' (offset + 7)
        (tl (vuint_encode_loop (val div 128)) @ rest) = Inr (r' + push_bit (offset + 7) (val div 128), rest)"
      using "1.IH" [of "val AND 0x7f" "drop_bit 7 val" r' "offset + 7"] True r' by (simp add: drop_bit_int_div)
    moreover have "r' + push_bit (offset + 7) (val div 128) = result + push_bit offset val"
    proof -
      have val: "val = b + push_bit 7 (val div 128)" by (simp add: b_def push_bit_eq_mult)
      have "push_bit offset val = push_bit offset b + push_bit (offset + 7) (val div 128)"
        by (subst val) (simp add: push_bit_add add.commute)
      then show ?thesis by (simp add: r'_def)
    qed
    ultimately show ?thesis
      using True b or
      by (cases "vuint_encode_loop (val div 128)")
        (simp_all add: vuint_encode_loop.simps [of val] bit_arith read_vuint_loop.simps Let_def r'_def flip: b_def)
  qed
qed

lemma read_vuint_encode_loop:
  assumes "0 \<le> x"
  shows "read_vuint (vuint_encode_loop x @ rest) = Inr (Some x, rest)"
proof (cases "x = 0")
  case True
  then show ?thesis
    by (simp add: vuint_encode_loop.simps [of 0] read_vuint_def Let_def)
next
  case False
  obtain c s where e: "vuint_encode_loop x = c # s"
    by (cases "vuint_encode_loop x") auto
  have "bval c \<noteq> 0"
  proof (cases "0 < x div 128")
    case True
    then show ?thesis
      using e by (auto simp: vuint_encode_loop.simps [of x] bit_arith Let_def)
  next
    case False': False
    then have "x < 128" by presburger
    then show ?thesis
      using e False' assms False by (auto simp: vuint_encode_loop.simps [of x] bit_arith Let_def)
  qed
  then show ?thesis
    using read_vuint_loop_encode [of x 0 0 rest] assms e by (simp add: read_vuint_def)
qed

lemma encode_vuint_cases:
  "encode_vuint x =
     (if x < 0 then Inl ValueError
      else if x < 2 ^ 56 \<or> 2 ^ 63 \<le> x then Inr (vuint_encode_loop x) else Inl UndefinedBehaviour)"
  using vuint_encode_loop_length [of x 7]
  by (auto simp: encode_vuint_def bup_vuint_encode_def vuint_encode_def in_buffer_def c_vint_buflen_def
      fits_longlong_def encode_vuint_loop_append)

lemma read_vuint_encode_vuint:
  "encode_vuint x = Inr b \<Longrightarrow> read_vuint (b @ rest) = Inr (Some x, rest)"
  by (auto simp: encode_vuint_cases read_vuint_encode_loop split: if_splits)

lemma read_vint_first:
  fixes m :: int
  assumes m: "0 \<le> m" and b: "b0 = (if neg then (m AND 0x3f) OR 0x40 else m AND 0x3f)"
  shows "m div 64 = 0 \<Longrightarrow> read_vint (bchr b0 # rest) = Inr (Some (if neg then - m else m), rest)"
    and "0 < m div 64 \<Longrightarrow> read_vint (bchr (0x80 OR b0) # vuint_encode_loop (m div 64) @ rest)
      = Inr (Some (if neg then - m else m), rest)"
proof -
  define r where "r = m mod 64"
  have r: "0 \<le> r" "r < 64"
    unfolding r_def by simp_all
  then have divs: "r div 64 = 0" "(r + 64) div 64 = 1" "r div 128 = 0" "(r + 64) div 128 = 0"
    "(r + 128) div 64 = 2" "(r + 192) div 64 = 3" "(r + 128) div 128 = 1" "(r + 192) div 128 = 1"
    by linarith+
  have mods: "r mod 64 = r" "(r + 64) mod 64 = r" "(r + 128) mod 64 = r" "(r + 192) mod 64 = r"
    using small_shift_div_mod(2) [OF r, of 0] small_shift_div_mod(2) [OF r, of 1]
      small_shift_div_mod(2) [OF r, of 2] small_shift_div_mod(2) [OF r, of 3] by simp_all
  have mods256: "r mod 256 = r" "(r + 64) mod 256 = r + 64" "(r + 128) mod 256 = r + 128" "(r + 192) mod 256 = r + 192"
    using r by simp_all
  note r = r divs mods mods256
  have b0: "b0 = (if neg then r + 64 else r)"
    unfolding b by (simp add: bit_arith r(1,2) flip: r_def)
  have tagged: "0x80 OR b0 = (if neg then r + 192 else r + 128)"
    unfolding b0 using or_bit_int(2) [of r] or_bit_int(2) [of "r + 64"] r(1,2) by simp
  show "read_vint (bchr b0 # rest) = Inr (Some (if neg then - m else m), rest)" if "m div 64 = 0"
  proof -
    have "m = r" using that by (simp add: r_def)
    then show ?thesis by (simp add: read_vint_def bit_arith Let_def r b0)
  qed
  assume m64: "0 < m div 64"
  obtain c s where e: "vuint_encode_loop (m div 64) = c # s"
    by (cases "vuint_encode_loop (m div 64)") auto
  have "read_vuint_loop c r 6 (s @ rest) = Inr (r + push_bit 6 (m div 64), rest)"
    using read_vuint_loop_encode [of "m div 64" r 6 rest] m64 r(1,2) e by simp
  moreover have "r + push_bit 6 (m div 64) = m" by (simp add: r_def push_bit_eq_mult)
  ultimately show "read_vint (bchr (0x80 OR b0) # vuint_encode_loop (m div 64) @ rest)
      = Inr (Some (if neg then - m else m), rest)"
    by (simp add: read_vint_def and_mask_int and_bit_int Let_def r tagged e)
qed

lemma vint_encode_tail_length:
  assumes "0 \<le> y"
  shows "length (vint_encode_tail y) \<le> Suc n \<longleftrightarrow> y < 128 ^ Suc n"
  using assms vuint_encode_loop_length [of y n] by (auto simp: vint_encode_tail_def)

lemma vint_encode_eq:
  assumes "x \<noteq> - (2 ^ 63)" and "m = \<bar>x\<bar>" and "b0 = (if x < 0 then (m AND 0x3f) OR 0x40 else m AND 0x3f)"
  shows "vint_encode x = Inr (if m div 64 = 0 then [bchr b0]
    else bchr (0x80 OR b0) # vuint_encode_loop (m div 64))"
proof -
  have "0 \<le> m div 64" using assms by simp
  moreover have "(m AND 0x3f) OR 0 = m AND 0x3f" by simp
  ultimately show ?thesis
    using assms
    by (auto simp: vint_encode_def vint_encode_tail_def Let_def drop_bit_int_div or.commute)
qed

lemma read_vint_vint_encode:
  assumes "vint_encode x = Inr b"
  shows "read_vint (b @ rest) = Inr (Some x, rest)"
proof -
  define m where "m = \<bar>x\<bar>"
  define b0 where "b0 = (if x < 0 then (m AND 0x3f) OR 0x40 else m AND 0x3f)"
  have x: "(if x < 0 then - m else m) = x" by (simp add: m_def)
  have m: "0 \<le> m" "0 \<le> m div 64" by (simp_all add: m_def)
  have "x \<noteq> - (2 ^ 63)" using assms by (auto simp: vint_encode_def)
  then have "b = (if m div 64 = 0 then [bchr b0] else bchr (0x80 OR b0) # vuint_encode_loop (m div 64))"
    using vint_encode_eq [OF _ m_def b0_def] assms by simp
  then show ?thesis
    using read_vint_first [OF m(1), of b0 "x < 0" rest] b0_def m x
    by (cases "m div 64 = 0") simp_all
qed

lemma encode_vint_cases:
  defines "m x \<equiv> \<bar>x\<bar>"
  shows "encode_vint x =
    (if m x < 2 ^ 55 then vint_encode x
     else if 2 ^ 69 \<le> m x then
       Inr (bchr (0x80 OR (if x < 0 then (m x AND 0x3f) OR 0x40 else m x AND 0x3f))
         # vuint_encode_loop (m x div 64))
     else Inl UndefinedBehaviour)"
proof -
  define b0 where "b0 = (if x < 0 then (m x AND 0x3f) OR 0x40 else m x AND 0x3f)"
  have m: "m x = (if x < 0 then - x else x)" "0 \<le> m x" by (auto simp: m_def)
  show ?thesis
  proof (cases "fits_longlong x")
    case True
    show ?thesis
    proof (cases "x = - (2 ^ 63)")
      case True
      then show ?thesis
        by (simp add: encode_vint_def bup_vint_encode_def fits_longlong_def vint_encode_def m_def)
    next
      case False
      have "m x < 2 ^ 63" using \<open>fits_longlong x\<close> False m by (auto simp: fits_longlong_def split: if_splits)
      moreover have "m x div 64 < 2 ^ 49 \<longleftrightarrow> m x < 2 ^ 55" by (simp add: int_div_less_iff)
      moreover have "vint_encode x = Inr (if m x div 64 = 0 then [bchr b0]
          else bchr (0x80 OR b0) # vuint_encode_loop (m x div 64))"
        using False by (intro vint_encode_eq) (simp_all add: m_def b0_def)
      ultimately show ?thesis
        using \<open>fits_longlong x\<close> m vuint_encode_loop_length [of "m x div 64" 6]
        by (auto simp: encode_vint_def bup_vint_encode_def in_buffer_def c_vint_buflen_def)
    qed
  next
    case False
    then have big: "2 ^ 63 \<le> m x" using m by (auto simp: fits_longlong_def split: if_splits)
    then have x': "2 ^ 57 \<le> m x div 64" by (simp add: int_le_div_iff)
    have big': "2 ^ 63 \<le> m x div 64 \<longleftrightarrow> 2 ^ 69 \<le> m x" by (simp add: int_le_div_iff)
    have "encode_vint x = res_bind (encode_vuint (m x div 64)) (\<lambda>rest. Inr (bchr (0x80 OR b0) # rest))"
      using False big x' unfolding encode_vint_def bup_vint_encode_def drop_bit_int_div b0_def m(1) [symmetric]
      by (auto simp: Let_def m(1))
    also have "\<dots> = (if 2 ^ 69 \<le> m x then Inr (bchr (0x80 OR b0) # vuint_encode_loop (m x div 64))
        else Inl UndefinedBehaviour)"
      using x' big' by (simp add: encode_vuint_cases)
    finally show ?thesis
      using big by (simp add: b0_def)
  qed
qed

lemma read_vint_encode_vint:
  assumes "encode_vint x = Inr b"
  shows "read_vint (b @ rest) = Inr (Some x, rest)"
proof (cases "\<bar>x\<bar> < 2 ^ 55")
  case True
  then show ?thesis using assms by (simp add: encode_vint_cases read_vint_vint_encode)
next
  case False
  define b0 where "b0 = (if x < 0 then (\<bar>x\<bar> AND 0x3f) OR 0x40 else \<bar>x\<bar> AND 0x3f)"
  have "2 ^ 69 \<le> \<bar>x\<bar>" and "b = bchr (0x80 OR b0) # vuint_encode_loop (\<bar>x\<bar> div 64)"
    using False assms by (auto simp: encode_vint_cases b0_def split: if_splits)
  then show ?thesis
    using read_vint_first(2) [of "\<bar>x\<bar>" b0 "x < 0" rest] b0_def by simp
qed

lemma read_bvec_encode:
  assumes "int (length x) = n" and "read_vuint (b @ x @ rest) = Inr (Some n, x @ rest)"
  shows "read_bvec (b @ x @ rest) = Inr (Some x, rest)"
proof -
  have "nat n = length x" using assms(1) by simp
  then show ?thesis using assms by (simp add: read_bvec_def)
qed

lemma read_item_encoded:
  "encode_vuint x = Inr b \<Longrightarrow> read_item CHR ''V'' (b @ rest) = Inr (Some (VInt x), rest)"
  "encode_vint x = Inr b \<Longrightarrow> read_item CHR ''v'' (b @ rest) = Inr (Some (VInt x), rest)"
  "encode_bvec y = Inr b \<Longrightarrow> read_item CHR ''s'' (b @ rest) = Inr (Some (VBytes y), rest)"
  by (auto simp: read_item_def read_vuint_encode_vuint read_vint_encode_vint encode_bvec_def
      bup_vuint_encode_def vuint_encode_def in_buffer_def res_simps read_vuint_encode_loop
      read_bvec_encode [OF refl] split: if_splits)

lemma read_item_c_encoded:
  "vuint_encode x = Inr b \<Longrightarrow> read_item CHR ''V'' (b @ rest) = Inr (Some (VInt x), rest)"
  "vint_encode x = Inr b \<Longrightarrow> read_item CHR ''v'' (b @ rest) = Inr (Some (VInt x), rest)"
  "read_item CHR ''s'' (vuint_encode_loop (int (length y)) @ y @ rest) = Inr (Some (VBytes y), rest)"
  by (auto simp: read_item_def vuint_encode_def read_vuint_encode_loop read_vint_vint_encode
      read_bvec_encode [OF refl] split: if_splits)

lemma limited_vint_pack_loop_recv:
  assumes "length types = length args"
    and "limited_vint_pack_loop cap pend buf (zip types args) = Inr b"
  shows "\<not> pend \<and> (\<exists>t. b = buf @ t \<and> (\<forall>rest. recv types (t @ rest) = Inr (args, rest)))"
  using assms
proof (induction types args arbitrary: pend buf rule: list_induct2)
  case Nil
  then show ?case by (simp split: if_splits)
next
  case (Cons f types item args)
  have step: ?case
    if "limited_vint_pack_loop cap pend (buf @ e) (zip types args) = Inr b"
      and "\<And>rest. read_item f (e @ rest) = Inr (Some item, rest)" for e
    using Cons.IH [OF that(1)] that(2) by auto
  show ?case
  proof (cases "f = CHR ''s''")
    case True
    then obtain y where y: "item = VBytes y"
      using Cons.prems by (auto split: vval.splits)
    show ?thesis
      using Cons.prems True y read_item_c_encoded(3)
      by (intro step [of "vuint_encode_loop (int (length y)) @ y"])
        (auto simp: Let_def split: if_splits)
  next
    case False
    then obtain x where x: "item = VInt x" and f: "f = CHR ''V'' \<or> f = CHR ''v''"
      using Cons.prems by (auto split: vval.splits if_splits)
    show ?thesis
    proof (cases "f = CHR ''V''")
      case True
      then obtain e where "vuint_encode x = Inr e"
        using Cons.prems x Cons.IH [of True buf] by (auto split: if_splits sum.splits)
      then show ?thesis
        using Cons.prems True x read_item_c_encoded(1) by (intro step [of e]) (auto split: if_splits)
    next
      case False
      then obtain e where "vint_encode x = Inr e"
        and "limited_vint_pack_loop cap pend (buf @ e) (zip types args) = Inr b"
        using Cons.prems x f by (auto simp: res_simps split: if_splits)
      then show ?thesis
        using False f x read_item_c_encoded(2) by (intro step [of e]) auto
    qed
  qed
qed

lemma res_map_pack_item_recv:
  assumes "length types = length args"
    and "res_map (\<lambda>(typ, value). pack_item typ value) (zip types args) = Inr ret"
  shows "recv types (concat ret @ rest) = Inr (args, rest)"
  using assms
proof (induction types args arbitrary: ret rule: list_induct2)
  case Nil
  then show ?case by simp
next
  case (Cons f types item args)
  then obtain e ret' where ret: "ret = e # ret'" and e: "pack_item f item = Inr e"
    and r: "res_map (\<lambda>(typ, value). pack_item typ value) (zip types args) = Inr ret'"
    by (auto simp: res_simps)
  have "read_item f (e @ rest) = Inr (Some item, rest)" for rest
    using e read_item_encoded by (auto simp: pack_item_def split: if_splits vval.splits)
  then show ?case
    using Cons.IH [OF r] ret by simp
qed

section \<open>Properties\<close>

text \<open>whatever integer \<open>encode_vuint\<close> (hence \<open>write_vuint\<close>) encodes, \<open>read_vuint\<close> reads
  back, and it leaves exactly the bytes that follow on the port.\<close>

theorem vuint_roundtrip:
  assumes "write_vuint [] x = Inr b"
  shows "read_vuint (b @ rest) = Inr (Some x, rest)"
  using assms by (auto simp: write_vuint_def res_simps read_vuint_encode_vuint)

theorem vuint_roundtrip_witness:
  "write_vuint [] 300 = Inr [CHR 0xAC, CHR 0x02] \<and>
   read_vuint ([CHR 0xAC, CHR 0x02] @ ''tail'') = Inr (Some 300, ''tail'')"
proof -
  have w: "write_vuint [] 300 = Inr [CHR 0xAC, CHR 0x02]" by code_simp
  show ?thesis using w vuint_roundtrip [OF w, of "''tail''"] by simp
qed

text \<open>C33: signed integers round trip the same way; the sign travels in the second bit of the
  first byte.\<close>

theorem vint_roundtrip:
  assumes "write_vint [] x = Inr b"
  shows "read_vint (b @ rest) = Inr (Some x, rest)"
  using assms by (auto simp: write_vint_def res_simps read_vint_encode_vint)

theorem vint_roundtrip_witness:
  "write_vint [] (-300) = Inr [CHR 0xEC, CHR 0x04] \<and>
   read_vint ([CHR 0xEC, CHR 0x04] @ ''tail'') = Inr (Some (-300), ''tail'')"
proof -
  have w: "write_vint [] (-300) = Inr [CHR 0xEC, CHR 0x04]" by code_simp
  show ?thesis using w vint_roundtrip [OF w, of "''tail''"] by simp
qed

text \<open>the encoders return on every integer, and exactly where: negative values are a
  \<open>ValueError\<close> of \<open>encode_vuint\<close>; from \<open>2 ^ 56\<close> (\<open>2 ^ 55\<close> for the signed form) up to the point where
  the Python fallback takes over, the C helper writes past its eight byte buffer.\<close>

theorem vint_encoders_outcome:
  "((\<exists>b. encode_vuint x = Inr b) \<longleftrightarrow> 0 \<le> x \<and> (x < 2 ^ 56 \<or> 2 ^ 63 \<le> x)) \<and>
   (encode_vuint x = Inl ValueError \<longleftrightarrow> x < 0) \<and>
   (encode_vuint x = Inl UndefinedBehaviour \<longleftrightarrow> 2 ^ 56 \<le> x \<and> x < 2 ^ 63) \<and>
   ((\<exists>b. encode_vint x = Inr b) \<longleftrightarrow> \<bar>x\<bar> < 2 ^ 55 \<or> 2 ^ 69 \<le> \<bar>x\<bar>) \<and>
   (encode_vint x = Inl UndefinedBehaviour \<longleftrightarrow> 2 ^ 55 \<le> \<bar>x\<bar> \<and> \<bar>x\<bar> < 2 ^ 69)"
  by (auto simp: encode_vuint_cases encode_vint_cases vint_encode_eq [OF _ refl refl])

text \<open>C34: \<open>unpack\<close> inverts \<open>pack\<close> for every format and argument list \<open>pack\<close> accepts, whether
  the C fast path or the Python fallback produced the bytes.\<close>

theorem pack_unpack_roundtrip:
  assumes "pack types args = Inr b"
  shows "unpack types b = Inr args"
proof (cases "bup_limited_vint_pack types args")
  case (Inl e)
  then have len: "length types = length args"
    and "\<exists>ret. res_map (\<lambda>(typ, value). pack_item typ value) (zip types args) = Inr ret \<and> b = concat ret"
    using assms by (auto simp: pack_def res_simps split: py_error.splits)
  then obtain ret where "res_map (\<lambda>(typ, value). pack_item typ value) (zip types args) = Inr ret"
    and "b = concat ret" by blast
  then show ?thesis
    using res_map_pack_item_recv [OF len, of ret "[]"] by (simp add: unpack_def)
next
  case (Inr b')
  then have "length types = length args" and "b' = b"
    and "limited_vint_pack_loop (length args * 20) False [] (zip types args) = Inr b"
    using assms by (auto simp: pack_def bup_limited_vint_pack_def Let_def split: if_splits)
  then have "\<forall>rest. recv types (b @ rest) = Inr (args, rest)"
    using limited_vint_pack_loop_recv [of types args "length args * 20" False "[]" b] by auto
  then have "recv types (b @ []) = Inr (args, [])" by blast
  then show ?thesis by (simp add: unpack_def)
qed

theorem pack_unpack_roundtrip_witness:
  "\<exists>b. pack ''Vvs'' [VInt 5, VInt (-7), VBytes ''ab''] = Inr b \<and>
       unpack ''Vvs'' b = Inr [VInt 5, VInt (-7), VBytes ''ab'']"
proof -
  have p: "pack ''Vvs'' [VInt 5, VInt (-7), VBytes ''ab''] = Inr [CHR 0x05, CHR 0x47, CHR 0x02, CHR ''a'', CHR ''b'']"
    by (simp add: pack_def bup_limited_vint_pack_def fits_longlong_def vuint_encode_def vint_encode_def
        vint_encode_tail_def vuint_encode_loop.simps Let_def char_of_def)
  show ?thesis using p pack_unpack_roundtrip [OF p] by blast
qed

text \<open>\<open>skip_bvec\<close> moves past any nonempty byte vector that \<open>encode_bvec\<close> wrote, exactly as
  \<open>read_bvec\<close> does, but it answers the end of the port on the valid encoding of the empty one.\<close>

theorem skip_bvec_encoded:
  assumes "encode_bvec x = Inr b"
  shows "read_bvec (b @ rest) = Inr (Some x, rest) \<and>
    skip_bvec (b @ rest) = (if x = [] then Inl EOFError else Inr rest)"
proof -
  obtain n where n: "b = n @ x" and enc: "n = vuint_encode_loop (int (length x))"
    using assms by (auto simp: encode_bvec_def bup_vuint_encode_def vuint_encode_def in_buffer_def
        res_simps split: if_splits)
  have "read_bvec (b @ rest) = Inr (Some x, rest)"
    using n enc read_bvec_encode [OF refl] by (simp add: read_vuint_encode_loop)
  moreover have "skip_bvec (b @ rest) = (if x = [] then Inl EOFError else Inr rest)"
    using n enc by (simp add: skip_bvec_def read_vuint_encode_loop)
  ultimately show ?thesis by blast
qed

theorem skip_bvec_encoded_witness:
  "skip_bvec ([CHR 0x00] @ ''rest'') = Inl EOFError \<and> skip_bvec ([CHR 0x01, CHR ''a''] @ ''rest'') = Inr ''rest''"
proof -
  have "encode_bvec [] = Inr [CHR 0x00]" "encode_bvec ''a'' = Inr [CHR 0x01, CHR ''a'']" by code_simp+
  then show ?thesis
    using skip_bvec_encoded [of "[]" "[CHR 0x00]" "''rest''"]
      skip_bvec_encoded [of "''a''" "[CHR 0x01, CHR ''a'']" "''rest''"] by simp
qed

end
