(* ===== verification/Py_Bytes.thy ===== *)
theory Py_Bytes
  imports Bup_Prelude
begin

text \<open>
  The operations of Python's \<open>bytes\<close> that the modelled code calls: \<open>find\<close>, \<open>split\<close>,
  \<open>join\<close>, \<open>replace\<close> with a one byte pattern, slices, \<open>strip\<close>, number formatting
  and \<open>int\<close>.  \<open>startswith\<close> and \<open>endswith\<close> are the library's \<open>prefix\<close> and \<open>suffix\<close>.
\<close>

section \<open>Searching and slicing\<close>

text \<open>\<open>s[i:j]\<close> with \<open>0 <= i <= j\<close>; both ends are cut to the length, as Python does.\<close>

definition slice :: "nat \<Rightarrow> nat \<Rightarrow> 'a list \<Rightarrow> 'a list" where
  "slice i j s = take (j - i) (drop i s)"

text \<open>\<open>s[i:j]\<close> in general: a negative index counts from the end.\<close>

definition py_index :: "'a list \<Rightarrow> int \<Rightarrow> nat" where
  "py_index s i = (if i < 0 then nat (int (length s) + i) else nat i)"

definition py_slice :: "'a list \<Rightarrow> int \<Rightarrow> int \<Rightarrow> 'a list" where
  "py_slice s i j = slice (py_index s i) (py_index s j) s"

lemma py_slice_nonneg: "0 \<le> i \<Longrightarrow> 0 \<le> j \<Longrightarrow> py_slice s i j = slice (nat i) (nat j) s"
  by (simp add: py_slice_def py_index_def)

text \<open>\<open>s.find(c, ofs)\<close> of a single byte; \<open>None\<close> stands for \<open>-1\<close>.\<close>

fun index_of :: "'a \<Rightarrow> 'a list \<Rightarrow> nat option" where
  "index_of c [] = None"
| "index_of c (x # xs) = (if x = c then Some 0 else map_option Suc (index_of c xs))"

definition find_from :: "'a \<Rightarrow> 'a list \<Rightarrow> nat \<Rightarrow> nat option" where
  "find_from c s ofs = map_option (\<lambda>i. ofs + i) (index_of c (drop ofs s))"

lemma index_of_append: "c \<notin> set xs \<Longrightarrow> index_of c (xs @ c # ys) = Some (length xs)"
  by (induction xs) auto

lemma index_of_None: "index_of c xs = None \<longleftrightarrow> c \<notin> set xs"
  by (induction xs) auto

lemma index_of_Some:
  "index_of c xs = Some i \<longleftrightarrow> i < length xs \<and> xs ! i = c \<and> c \<notin> set (take i xs)"
proof (induction xs arbitrary: i)
  case Nil
  then show ?case by simp
next
  case (Cons x xs)
  then show ?case by (cases i) auto
qed

lemma find_from_append:
  "c \<notin> set xs \<Longrightarrow> length pre = ofs \<Longrightarrow> find_from c (pre @ xs @ c # ys) ofs = Some (ofs + length xs)"
  by (simp add: find_from_def index_of_append)

lemma slice_append: "length pre = i \<Longrightarrow> j = i + length xs \<Longrightarrow> slice i j (pre @ xs @ ys) = xs"
  by (simp add: slice_def)

section \<open>Splitting, joining, replacing, stripping\<close>

text \<open>\<open>s.split(c)\<close>: always at least one part.\<close>

fun split_on :: "'a \<Rightarrow> 'a list \<Rightarrow> 'a list list" where
  "split_on c [] = [[]]"
| "split_on c (x # xs) =
     (if x = c then [] # split_on c xs
      else (case split_on c xs of [] \<Rightarrow> [[x]] | p # ps \<Rightarrow> (x # p) # ps))"

fun join :: "'a list \<Rightarrow> 'a list list \<Rightarrow> 'a list" where
  "join sep [] = []"
| "join sep [p] = p"
| "join sep (p # q # ps) = p @ sep @ join sep (q # ps)"

lemma split_on_not_Nil [simp]: "split_on c s \<noteq> []"
  by (induction s) (auto split: list.splits)

lemma join_split_on: "join [c] (split_on c s) = s"
proof (induction s)
  case Nil
  then show ?case by simp
next
  case (Cons x xs)
  then show ?case
    by (cases "split_on c xs"; cases "tl (split_on c xs)") auto
qed

lemma split_on_no_sep: "p \<in> set (split_on c s) \<Longrightarrow> c \<notin> set p"
proof (induction s arbitrary: p)
  case Nil
  then show ?case by simp
next
  case (Cons x xs)
  then show ?case
    by (cases "split_on c xs") (auto split: if_splits)
qed

lemma split_on_append: "c \<notin> set p \<Longrightarrow> split_on c (p @ c # s) = p # split_on c s"
  by (induction p) auto

lemma split_on_id: "c \<notin> set p \<Longrightarrow> split_on c p = [p]"
  by (induction p) auto

lemma split_on_join:
  "ps \<noteq> [] \<Longrightarrow> \<forall>p\<in>set ps. c \<notin> set p \<Longrightarrow> split_on c (join [c] ps) = ps"
proof (induction ps)
  case Nil
  then show ?case by simp
next
  case (Cons p ps)
  then show ?case by (cases ps) (auto simp: split_on_id split_on_append)
qed

text \<open>\<open>s.replace(c, r)\<close> for a one byte pattern.\<close>

definition replace1 :: "'a \<Rightarrow> 'a list \<Rightarrow> 'a list \<Rightarrow> 'a list" where
  "replace1 c r s = concat (map (\<lambda>x. if x = c then r else [x]) s)"

lemma replace1_simps [simp]:
  "replace1 c r [] = []" "replace1 c r (x # s) = (if x = c then r else [x]) @ replace1 c r s"
  "replace1 c r (s @ t) = replace1 c r s @ replace1 c r t"
  by (simp_all add: replace1_def)

definition lstrip_chars :: "'a list \<Rightarrow> 'a list \<Rightarrow> 'a list" where
  "lstrip_chars cs s = dropWhile (\<lambda>x. x \<in> set cs) s"

definition rstrip_chars :: "'a list \<Rightarrow> 'a list \<Rightarrow> 'a list" where
  "rstrip_chars cs s = rev (dropWhile (\<lambda>x. x \<in> set cs) (rev s))"

text \<open>The ASCII white space of \<open>strip()\<close> and of \<open>\s\<close> in a \<open>bytes\<close> pattern.\<close>

definition whitespace :: bytes where
  "whitespace = [CHR '' '', CHR 0x09, CHR 0x0A, CHR 0x0D, CHR 0x0C, CHR 0x0B]"

definition strip :: "bytes \<Rightarrow> bytes" where
  "strip s = rstrip_chars whitespace (lstrip_chars whitespace s)"

section \<open>Numbers as text\<close>

definition digit_char :: "nat \<Rightarrow> char" where
  "digit_char d = (if d < 10 then char_of (48 + d) else char_of (87 + d))"

text \<open>\<open>%d\<close>, \<open>%o\<close> and \<open>%x\<close> of a number that is not negative: base 10, 8, 16.\<close>

function show_base :: "nat \<Rightarrow> nat \<Rightarrow> bytes" where
  "show_base b n =
     (if b < 2 \<or> n < b then [digit_char n] else show_base b (n div b) @ [digit_char (n mod b)])"
  by pat_completeness auto
termination
  by (relation "measure snd") auto

declare show_base.simps [simp del]

definition show_int_base :: "nat \<Rightarrow> int \<Rightarrow> bytes" where
  "show_int_base b i = (if i < 0 then CHR ''-'' # show_base b (nat (- i)) else show_base b (nat i))"

abbreviation show_int :: "int \<Rightarrow> bytes" where
  "show_int \<equiv> show_int_base 10"

text \<open>\<open>%0*x\<close>: padded with zeros to a width.\<close>

definition zero_pad :: "nat \<Rightarrow> bytes \<Rightarrow> bytes" where
  "zero_pad w s = replicate (w - length s) CHR ''0'' @ s"

definition char_digit :: "char \<Rightarrow> nat option" where
  "char_digit c =
     (let n = of_char c :: nat
      in if 48 \<le> n \<and> n \<le> 57 then Some (n - 48)
         else if 97 \<le> n \<and> n \<le> 122 then Some (n - 87)
         else if 65 \<le> n \<and> n \<le> 90 then Some (n - 55) else None)"

text \<open>
  Python's \<open>int(s, base)\<close>: white space around it, a sign, digits with single underscores
  between them; for base 8 also a \<open>0o\<close> prefix, for 16 a \<open>0x\<close>.  Anything else is a \<open>ValueError\<close>.
  \<open>int_digits b last acc s\<close> has \<open>last\<close> true after a digit.
\<close>

fun int_digits :: "nat \<Rightarrow> bool \<Rightarrow> nat \<Rightarrow> bytes \<Rightarrow> nat option" where
  "int_digits b lst acc [] = (if lst then Some acc else None)"
| "int_digits b lst acc (c # cs) =
     (if c = CHR ''_'' then (if lst then int_digits b False acc cs else None)
      else (case char_digit c of None \<Rightarrow> None
            | Some d \<Rightarrow> if d < b then int_digits b True (b * acc + d) cs else None))"

definition int_prefix :: "nat \<Rightarrow> bytes \<Rightarrow> bytes" where
  "int_prefix b s =
     (if b = 8 \<and> (prefix ''0o'' s \<or> prefix ''0O'' s) \<or> b = 16 \<and> (prefix ''0x'' s \<or> prefix ''0X'' s)
      then (let r = drop 2 s in if prefix ''_'' r then drop 1 r else r) else s)"

definition py_int :: "nat \<Rightarrow> bytes \<Rightarrow> int res" where
  "py_int b s0 =
     (let s = strip s0;
          neg = prefix ''-'' s;
          s' = (if neg \<or> prefix ''+'' s then drop 1 s else s)
      in case int_digits b False 0 (int_prefix b s') of
           None \<Rightarrow> Inl ValueError
         | Some n \<Rightarrow> Inr (if neg then - int n else int n))"

text \<open>Formatting and parsing agree.\<close>

lemma of_char_digit_char:
  "d < 36 \<Longrightarrow> of_char (digit_char d) = (if d < 10 then 48 + d else 87 + d)"
  by (simp add: digit_char_def)

lemma char_digit_digit_char: "d < 36 \<Longrightarrow> char_digit (digit_char d) = Some d"
  by (simp add: char_digit_def of_char_digit_char Let_def)

lemma digit_char_neq: "d < 36 \<Longrightarrow> of_char c < (48::nat) \<Longrightarrow> digit_char d \<noteq> c"
  "d < 10 \<Longrightarrow> (58::nat) \<le> of_char c \<Longrightarrow> digit_char d \<noteq> c"
  using of_char_digit_char [of d] by (auto split: if_splits)

lemma show_base_not_Nil [simp]: "show_base b n \<noteq> []"
  by (simp add: show_base.simps [of b n])

lemma show_base_digits:
  assumes "2 \<le> b"
  shows "\<exists>ds. show_base b n = map digit_char ds \<and> (\<forall>d\<in>set ds. d < b) \<and> foldl (\<lambda>a d. b * a + d) 0 ds = n"
  using assms
proof (induction b n rule: show_base.induct)
  case (1 b n)
  show ?case
  proof (cases "n < b")
    case True
    then show ?thesis
      using "1.prems" by (intro exI [of _ "[n]"]) (simp add: show_base.simps [of b n])
  next
    case False
    with 1 obtain ds where "show_base b (n div b) = map digit_char ds" "\<forall>d\<in>set ds. d < b"
      "foldl (\<lambda>a d. b * a + d) 0 ds = n div b" by auto
    then show ?thesis
      using False "1.prems"
      by (intro exI [of _ "ds @ [n mod b]"]) (auto simp: show_base.simps [of b n])
  qed
qed

lemma int_digits_map:
  assumes "b \<le> 36" "\<forall>d\<in>set ds. d < b" "ds \<noteq> [] \<or> lst"
  shows "int_digits b lst acc (map digit_char ds) = Some (foldl (\<lambda>a d. b * a + d) acc ds)"
  using assms
proof (induction ds arbitrary: lst acc)
  case Nil
  then show ?case by simp
next
  case (Cons d ds)
  have "digit_char d \<noteq> CHR ''_''"
    using of_char_digit_char [of d] Cons.prems by (auto split: if_splits)
  then show ?case
    using Cons by (simp add: char_digit_digit_char)
qed

lemma int_digits_show_base: "2 \<le> b \<Longrightarrow> b \<le> 36 \<Longrightarrow> int_digits b False 0 (show_base b n) = Some n"
  using show_base_digits [of b n] int_digits_map [of b _ False 0] show_base_not_Nil [of b n]
  by (metis map_is_Nil_conv)

lemma show_base_hd_last:
  assumes "2 \<le> b" "b \<le> 36"
  shows "\<exists>d<b. hd (show_base b n) = digit_char d" "\<exists>d<b. last (show_base b n) = digit_char d"
proof -
  obtain ds where ds: "show_base b n = map digit_char ds" "\<forall>d\<in>set ds. d < b"
    using show_base_digits assms by blast
  moreover have "ds \<noteq> []" using ds(1) show_base_not_Nil [of b n] by auto
  ultimately show "\<exists>d<b. hd (show_base b n) = digit_char d" "\<exists>d<b. last (show_base b n) = digit_char d"
    by (auto simp: hd_map last_map)
qed

lemma dropWhile_hd: "xs \<noteq> [] \<Longrightarrow> \<not> P (hd xs) \<Longrightarrow> dropWhile P xs = xs"
  by (cases xs) auto

lemma digit_char_not_special:
  assumes "d < 36"
  shows "digit_char d \<notin> set whitespace" "digit_char d \<noteq> CHR ''-''" "digit_char d \<noteq> CHR ''+''"
    "digit_char d \<noteq> CHR 0x00" "digit_char d \<noteq> CHR '' ''"
  using digit_char_neq(1) [OF assms] by (auto simp: whitespace_def)

lemma strip_id:
  assumes "s \<noteq> []" "hd s \<notin> set whitespace" "last s \<notin> set whitespace"
  shows "strip s = s"
  using assms by (simp add: strip_def lstrip_chars_def rstrip_chars_def dropWhile_hd hd_rev)

lemma show_base_chars: "2 \<le> b \<Longrightarrow> b \<le> 36 \<Longrightarrow> c \<in> set (show_base b n) \<Longrightarrow> \<exists>d<b. c = digit_char d"
  using show_base_digits [of b n] by fastforce

lemma py_int_digits:
  assumes "2 \<le> b" "b \<le> 16" "ds \<noteq> []" "\<forall>d\<in>set ds. d < b"
  shows "py_int b (map digit_char ds) = Inr (int (foldl (\<lambda>a d. b * a + d) 0 ds))"
proof -
  let ?s = "map digit_char ds"
  have nice: "c \<notin> set whitespace \<and> c \<noteq> CHR ''-'' \<and> c \<noteq> CHR ''+'' \<and> c \<noteq> CHR ''o'' \<and> c \<noteq> CHR ''O'' \<and>
      c \<noteq> CHR ''x'' \<and> c \<noteq> CHR ''X''"
    if c: "c \<in> set ?s" for c
  proof -
    obtain d where d: "d \<in> set ds" "c = digit_char d" using c by auto
    have "d < 16" using assms(2,4) d(1) by fastforce
    then show ?thesis
      using digit_char_not_special [of d] of_char_digit_char [of d] d(2) by (auto split: if_splits)
  qed
  obtain x xs where s: "?s = x # xs" using assms(3) by (cases ?s) auto
  have ne: "?s \<noteq> []" using assms(3) by simp
  have strip: "strip ?s = ?s"
    using nice [OF hd_in_set [OF ne]] nice [OF last_in_set [OF ne]] ne by (intro strip_id) blast+
  have sign: "\<not> prefix ''-'' ?s" "\<not> prefix ''+'' ?s"
    using nice [of x] s by (auto simp del: map_eq_Cons_conv)
  have "\<forall>c\<in>set ?s. c \<noteq> CHR ''o'' \<and> c \<noteq> CHR ''O'' \<and> c \<noteq> CHR ''x'' \<and> c \<noteq> CHR ''X''" using nice by blast
  then have "int_prefix b ?s = ?s"
    unfolding s by (cases xs) (auto simp: int_prefix_def)
  then show ?thesis
    using strip sign int_digits_map [of b ds False 0] assms by (simp add: py_int_def Let_def)
qed

lemma py_int_show_base:
  assumes "2 \<le> b" "b \<le> 16"
  shows "py_int b (show_base b n) = Inr (int n)"
proof -
  obtain ds where ds: "show_base b n = map digit_char ds" "\<forall>d\<in>set ds. d < b" "foldl (\<lambda>a d. b * a + d) 0 ds = n"
    using show_base_digits [OF assms(1)] by blast
  moreover have "ds \<noteq> []" using ds(1) show_base_not_Nil [of b n] by auto
  ultimately show ?thesis using py_int_digits [OF assms] by metis
qed

lemma zero_pad_digits:
  assumes "2 \<le> b" "b \<le> 16"
  shows "\<exists>ds. zero_pad w (show_base b n) = map digit_char ds \<and> ds \<noteq> [] \<and> (\<forall>d\<in>set ds. d < b) \<and>
    foldl (\<lambda>a d. b * a + d) 0 ds = n"
proof -
  obtain ds where ds: "show_base b n = map digit_char ds" "\<forall>d\<in>set ds. d < b" "foldl (\<lambda>a d. b * a + d) 0 ds = n"
    using show_base_digits [OF assms(1)] by blast
  have "foldl (\<lambda>a d. b * a + d) 0 (replicate k 0) = 0" for k by (induction k) auto
  moreover have "CHR ''0'' = digit_char 0" by code_simp
  then have "zero_pad w (show_base b n) = map digit_char (replicate (w - length ds) 0 @ ds)"
    by (simp add: zero_pad_def ds(1))
  moreover have "ds \<noteq> []" using ds(1) show_base_not_Nil [of b n] by auto
  ultimately show ?thesis
    using ds assms by (intro exI [of _ "replicate (w - length ds) 0 @ ds"]) auto
qed

lemma py_int_zero_pad:
  assumes "2 \<le> b" "b \<le> 16"
  shows "py_int b (zero_pad w (show_base b n)) = Inr (int n)"
  using zero_pad_digits [OF assms, of w n] py_int_digits [OF assms] by auto

end
