(* ===== verification/Shquote.thy ===== *)
theory Shquote
  imports Py_Bytes
begin

text \<open>
  Word splitting and quoting for command lines (\<open>lib/bup/shquote.py\<close>), used by the
  interactive \<open>bup ftp\<close>.  The generator \<open>_quotesplit\<close> is the list of the pairs it yields
  together with whether it then raises \<open>QuoteError\<close>.
\<close>

section \<open>Splitting\<close>

definition q :: char where "q = CHR 0x27"
definition qq :: char where "qq = CHR 0x22"
definition backslash :: char where "backslash = CHR 0x5C"

definition split_space :: "char list" where
  "split_space = [CHR '' '', CHR 0x0A, CHR 0x0D, CHR 0x09]"

definition yielding :: "'a \<Rightarrow> 'a list \<times> bool \<Rightarrow> 'a list \<times> bool" where
  "yielding x r = (x # fst r, snd r)"

text \<open>
  The loop's variables are \<open>inquote\<close>, \<open>inescape\<close>, \<open>wordstart\<close>, \<open>word\<close> and the
  position \<open>i\<close>; the branches are the code's, in its order.
\<close>

fun quotesplit_loop ::
  "char option \<Rightarrow> bool \<Rightarrow> nat \<Rightarrow> bytes \<Rightarrow> nat \<Rightarrow> bytes \<Rightarrow> (nat \<times> bytes) list \<times> bool" where
  "quotesplit_loop inquote inescape wordstart word i [] =
     ((if word \<noteq> [] then [(wordstart, word)] else []), inquote \<noteq> None \<or> inescape \<or> word \<noteq> [])"
| "quotesplit_loop inquote inescape wordstart word i (c # cs) =
     (if inescape then
        quotesplit_loop inquote False wordstart
          ((if inquote = Some q \<and> c \<noteq> q then word @ [backslash] else word) @ [c]) (Suc i) cs
      else if c = backslash then quotesplit_loop inquote True wordstart word (Suc i) cs
      else if inquote = Some c then
        yielding (wordstart, word) (quotesplit_loop None False (Suc i) [] (Suc i) cs)
      else if inquote = None \<and> word = [] \<and> c \<in> {q, qq} then
        quotesplit_loop (Some c) False i word (Suc i) cs
      else if inquote = None \<and> c \<in> set split_space then
        (if word \<noteq> [] then yielding (wordstart, word) else id)
          (quotesplit_loop None False (Suc i) [] (Suc i) cs)
      else quotesplit_loop inquote False wordstart (word @ [c]) (Suc i) cs)"

definition quotesplit_gen :: "bytes \<Rightarrow> (nat \<times> bytes) list \<times> bool" where
  "quotesplit_gen line = quotesplit_loop None False 0 [] 0 line"

definition quotesplit :: "bytes \<Rightarrow> (nat \<times> bytes) list" where
  "quotesplit line = fst (quotesplit_gen line)"

text \<open>
  \<open>unfinished_word\<close> reads the loop variables \<open>wordstart\<close> and \<open>word\<close> in its handler; when
  the generator raised before it yielded anything they are unbound.
\<close>

definition unfinished_word :: "bytes \<Rightarrow> (char option \<times> bytes) res" where
  "unfinished_word line =
     (case quotesplit_gen line of
        (items, False) \<Rightarrow> Inr (None, [])
      | (items, True) \<Rightarrow>
          if items = [] then Inl UnboundLocalError
          else (let (wordstart, word) = last items;
                    firstchar = slice wordstart (wordstart + 1) line
                in if firstchar = [q] \<or> firstchar = [qq] then Inr (Some (hd firstchar), word)
                   else Inr (None, word)))"

section \<open>Quoting\<close>

text \<open>\<open>qtype\<close> is the empty byte string, \<open>qq\<close> or \<open>q\<close>.\<close>

definition bare_escape :: "bytes \<Rightarrow> bytes" where
  "bare_escape word =
     concat (map (\<lambda>c. if c \<in> {qq, q} \<union> set split_space then [backslash, c] else [c]) word)"

definition quotify :: "bytes \<Rightarrow> bytes \<Rightarrow> bool \<Rightarrow> bytes" where
  "quotify qtype word terminate =
     (if qtype = [qq] then [qq] @ replace1 qq [backslash, qq] word @ (if terminate then [qq] else [])
      else if qtype = [q] then [q] @ replace1 q [backslash, q] word @ (if terminate then [q] else [])
      else bare_escape word)"

definition list_qtype :: "bytes \<Rightarrow> bytes" where
  "list_qtype word =
     (if word \<noteq> [] \<and> \<not> (\<exists>c\<in>set word. c \<in> set whitespace \<union> {q, qq}) then []
      else if q \<in> set word \<and> qq \<notin> set word then [qq]
      else [q])"

definition quotify_list :: "bytes list \<Rightarrow> bytes" where
  "quotify_list words = join '' '' (map (\<lambda>word. quotify (list_qtype word) word True) words)"

definition what_to_add :: "bytes \<Rightarrow> bytes \<Rightarrow> bytes \<Rightarrow> bool \<Rightarrow> bytes" where
  "what_to_add qtype origword newword terminate =
     (if \<not> prefix origword newword then []
      else (let qold = quotify qtype origword False
            in drop (length qold) (quotify qtype newword terminate)))"

section \<open>Splitting what was quoted\<close>

lemmas quote_chars = q_def qq_def backslash_def

lemma quote_chars_distinct [simp]:
  "q \<noteq> qq" "qq \<noteq> q" "q \<noteq> backslash" "backslash \<noteq> q" "qq \<noteq> backslash" "backslash \<noteq> qq"
  "q \<notin> set split_space" "qq \<notin> set split_space" "backslash \<notin> set split_space"
  "CHR '' '' \<in> set split_space" "CHR '' '' \<noteq> q" "CHR '' '' \<noteq> qq" "CHR '' '' \<noteq> backslash"
  by (simp_all add: quote_chars split_space_def)

lemma fst_yielding [simp]: "fst (yielding x r) = x # fst r" "snd (yielding x r) = snd r"
  by (simp_all add: yielding_def)

text \<open>Inside quotes the escaped word is collected as it was.\<close>

lemma quotesplit_loop_quoted:
  assumes "backslash \<notin> set word" "qc = q \<or> qc = qq"
  shows "quotesplit_loop (Some qc) False ws acc i (replace1 qc [backslash, qc] word @ rest)
    = quotesplit_loop (Some qc) False ws (acc @ word) (i + length (replace1 qc [backslash, qc] word)) rest"
  using assms by (induction word arbitrary: acc i) auto

lemma quotesplit_loop_bare:
  assumes "\<forall>c\<in>set word. c \<noteq> backslash \<and> c \<noteq> q \<and> c \<noteq> qq \<and> c \<notin> set split_space"
  shows "quotesplit_loop None False ws acc i (word @ rest)
    = quotesplit_loop None False ws (acc @ word) (i + length word) rest"
  using assms by (induction word arbitrary: acc i) auto

lemma bare_escape_id:
  assumes "\<forall>c\<in>set word. c \<notin> set whitespace \<union> {q, qq}"
  shows "bare_escape word = word"
  using assms by (induction word) (auto simp: bare_escape_def whitespace_def split_space_def)

text \<open>One quoted word, at the start of a word, followed by a space or the end of the line.\<close>

lemma quotesplit_loop_word:
  assumes "backslash \<notin> set word" "rest = [] \<or> (\<exists>r. rest = CHR '' '' # r)"
  shows "map snd (fst (quotesplit_loop None False ws [] i (quotify (list_qtype word) word True @ rest)))
    = word # (case rest of [] \<Rightarrow> [] | _ # r \<Rightarrow>
        map snd (fst (quotesplit_loop None False (Suc (i + length (quotify (list_qtype word) word True))) []
          (Suc (i + length (quotify (list_qtype word) word True))) r)))"
proof (cases "list_qtype word = []")
  case True
  then have w: "word \<noteq> []" "\<forall>c\<in>set word. c \<notin> set whitespace \<union> {q, qq}"
    by (auto simp: list_qtype_def split: if_splits)
  then have w': "\<forall>c\<in>set word. c \<noteq> backslash \<and> c \<noteq> q \<and> c \<noteq> qq \<and> c \<notin> set split_space"
    using assms(1) by (auto simp: whitespace_def split_space_def)
  have "quotify (list_qtype word) word True = word"
    using True bare_escape_id [OF w(2)] by (simp add: quotify_def)
  then show ?thesis
    using assms(2) w(1) quotesplit_loop_bare [OF w', of ws "[]" i rest] by (auto split: if_splits)
next
  case False
  then obtain qc where qc: "list_qtype word = [qc]" "qc = q \<or> qc = qq"
    by (auto simp: list_qtype_def split: if_splits)
  show ?thesis
    using assms(2) qc quotesplit_loop_quoted [OF assms(1) qc(2), of i "[]" "Suc i" "qc # rest"]
    by (auto simp: quotify_def)
qed

lemma quotesplit_loop_words:
  assumes "\<forall>w\<in>set words. backslash \<notin> set w"
  shows "map snd (fst (quotesplit_loop None False i [] i (quotify_list words))) = words"
  using assms
proof (induction words arbitrary: i)
  case Nil
  then show ?case by (simp add: quotify_list_def)
next
  case (Cons w words)
  show ?case
  proof (cases words)
    case Nil
    then show ?thesis
      using Cons.prems quotesplit_loop_word [of w "[]" i i] by (simp add: quotify_list_def)
  next
    case (Cons v vs)
    then have "quotify_list (w # words) = quotify (list_qtype w) w True @ CHR '' '' # quotify_list words"
      by (simp add: quotify_list_def)
    then show ?thesis
      using Cons.IH Cons.prems quotesplit_loop_word [of w "CHR '' '' # quotify_list words" i i] by simp
  qed
qed

section \<open>Properties\<close>

text \<open>splitting what \<open>quotify_list\<close> produced gives the words back, for every list of words
  (empty words, words with spaces, quotes of either kind or both included) without a backslash.\<close>

theorem quotesplit_quotify_list:
  assumes "\<forall>w\<in>set words. CHR 0x5C \<notin> set w"
  shows "map snd (quotesplit (quotify_list words)) = words"
  using quotesplit_loop_words [of words 0] assms
  by (simp add: quotesplit_def quotesplit_gen_def backslash_def)

theorem quotesplit_quotify_list_witness:
  "map snd (quotesplit (quotify_list [''a b'', [], [CHR 0x22, CHR 0x27], ''c''])) =
     [''a b'', [], [CHR 0x22, CHR 0x27], ''c'']"
  by (rule quotesplit_quotify_list) simp

text \<open>a backslash breaks it in every quoting style, although \<open>quotify\<close>'s documentation allows
  arbitrary characters: the word \<open>a\b\<close> comes back as \<open>ab\<close> from the double quoted and the bare
  form, and the single quoted word \<open>a\\<close> swallows its closing quote.\<close>

theorem quotify_backslash_lost:
  "map snd (quotesplit (quotify [qq] [CHR ''a'', backslash, CHR ''b''] True)) = [''ab''] \<and>
   map snd (quotesplit (quotify [] [CHR ''a'', backslash, CHR ''b''] True)) = [''ab''] \<and>
   map snd (quotesplit (quotify [q] [CHR ''a'', backslash] True)) = [[CHR ''a'', q]] \<and>
   map snd (quotesplit (quotify_list [[CHR ''a'', backslash], ''b''])) = [''a b'']"
  by (simp add: quotesplit_def quotesplit_gen_def quotify_def bare_escape_def quotify_list_def
      list_qtype_def whitespace_def split_space_def quote_chars)

text \<open>completing a word: appending what \<open>what_to_add\<close> returns to the quoted prefix gives the
  quoted new word, for every quoting style.\<close>

theorem what_to_add_completes:
  assumes "prefix origword newword"
  shows "quotify qtype origword False @ what_to_add qtype origword newword terminate
    = quotify qtype newword terminate"
proof -
  obtain s where "newword = origword @ s"
    using assms by (auto simp: prefix_def)
  then show ?thesis
    by (auto simp: what_to_add_def quotify_def bare_escape_def)
qed

theorem what_to_add_completes_witness:
  "quotify [qq] ''frog'' False @ what_to_add [qq] ''frog'' ''frogston'' True = qq # ''frogston'' @ [qq]"
  using what_to_add_completes [of "''frog''" "''frogston''" "[qq]" True]
  by (simp add: quotify_def quote_chars)

text \<open>for a line that opens a quote and stops, \<open>unfinished_word\<close> reports the quote and the word
  read so far when there is one, and fails with an unbound variable when there is none.\<close>

theorem unfinished_word_open_quote:
  assumes "qc \<in> {CHR 0x22, CHR 0x27}" "CHR 0x5C \<notin> set word" "qc \<notin> set word"
  shows "unfinished_word (qc # word) =
    (if word = [] then Inl UnboundLocalError else Inr (Some qc, word))"
proof -
  have qc: "qc = q \<or> qc = qq" "backslash \<notin> set word"
    using assms by (auto simp: quote_chars)
  moreover have "replace1 qc [backslash, qc] word = word"
    using assms(3) by (induction word) auto
  ultimately have "quotesplit_gen (qc # word) = ((if word \<noteq> [] then [(0, word)] else []), True)"
    using quotesplit_loop_quoted [OF qc(2,1), of 0 "[]" 1 "[]"] by (auto simp: quotesplit_gen_def)
  then show ?thesis
    using qc(1) by (auto simp: unfinished_word_def slice_def)
qed

theorem unfinished_word_open_quote_witness:
  "unfinished_word [CHR 0x22] = Inl UnboundLocalError \<and>
   unfinished_word (CHR 0x22 # ''fro'') = Inr (Some CHR 0x22, ''fro'')"
  using unfinished_word_open_quote [of "CHR 0x22" "[]"] unfinished_word_open_quote [of "CHR 0x22" "''fro''"]
  by simp

end
