(* ===== verification/Git_Format.thy ===== *)
theory Git_Format
  imports Py_Bytes Vint
begin

text \<open>
  The object formats of \<open>lib/bup/git.py\<close>: name mangling for segmented files, git tree objects
  and their scanners, object ids and the pack entry encoding.  SHA-1 and zlib are not under
  \<open>src/\<close>: they are parameters of the definitions that use them.
\<close>

section \<open>File modes\<close>

definition s_ifmt :: "int \<Rightarrow> int" where "s_ifmt mode = mode AND 0xF000"
definition S_ISDIR :: "int \<Rightarrow> bool" where "S_ISDIR mode \<longleftrightarrow> s_ifmt mode = 0x4000"
definition S_ISREG :: "int \<Rightarrow> bool" where "S_ISREG mode \<longleftrightarrow> s_ifmt mode = 0x8000"
definition S_ISLNK :: "int \<Rightarrow> bool" where "S_ISLNK mode \<longleftrightarrow> s_ifmt mode = 0xA000"

definition GIT_MODE_FILE :: int where "GIT_MODE_FILE = 0x81A4" \<comment> \<open>\<open>0o100644\<close>\<close>
definition GIT_MODE_EXEC :: int where "GIT_MODE_EXEC = 0x81ED" \<comment> \<open>\<open>0o100755\<close>\<close>
definition GIT_MODE_TREE :: int where "GIT_MODE_TREE = 0x4000" \<comment> \<open>\<open>0o40000\<close>\<close>
definition GIT_MODE_SYMLINK :: int where "GIT_MODE_SYMLINK = 0xA000" \<comment> \<open>\<open>0o120000\<close>\<close>

lemmas mode_defs = s_ifmt_def S_ISDIR_def S_ISREG_def S_ISLNK_def
  GIT_MODE_FILE_def GIT_MODE_EXEC_def GIT_MODE_TREE_def GIT_MODE_SYMLINK_def

section \<open>Name mangling\<close>

datatype bup_kind = BUP_NORMAL | BUP_CHUNKED

definition mangle_name :: "bytes \<Rightarrow> int \<Rightarrow> int \<Rightarrow> bytes res" where
  "mangle_name name mode gitmode =
     (if S_ISREG mode \<and> \<not> S_ISREG gitmode then
        res_bind (py_assert (S_ISDIR gitmode)) (\<lambda>_. Inr (name @ ''.bup''))
      else if suffix ''.bup'' name \<or> suffix ''.bup'' (butlast name) then Inr (name @ ''.bupl'')
      else Inr name)"

definition demangle_name :: "bytes \<Rightarrow> int \<Rightarrow> (bytes \<times> bup_kind) res" where
  "demangle_name name mode =
     (if suffix ''.bupl'' name then Inr (take (length name - 5) name, BUP_NORMAL)
      else if suffix ''.bup'' name then Inr (take (length name - 4) name, BUP_CHUNKED)
      else if suffix ''.bupm'' name then
        Inr (take (length name - 5) name, if S_ISDIR mode then BUP_CHUNKED else BUP_NORMAL)
      else if suffix ''.bupd'' name then Inl ValueError
      else Inr (name, BUP_NORMAL))"

lemma suffix_bup_ext:
  assumes "suffix [CHR ''.'', CHR ''b'', CHR ''u'', CHR ''p'', c] name"
  shows "suffix ''.bup'' (butlast name)"
  using assms by (auto simp: suffix_def butlast_append)

section \<open>Git trees\<close>

type_synonym oid = bytes
type_synonym tree_ent = "int \<times> bytes \<times> oid" \<comment> \<open>mode, name, hash\<close>

definition shalist_item_sort_key :: "int \<times> bytes \<times> 'a \<Rightarrow> bytes" where
  "shalist_item_sort_key ent =
     (if S_ISDIR (fst ent) then fst (snd ent) @ ''/'' else fst (snd ent))"

definition tree_ent_encode :: "tree_ent \<Rightarrow> bytes res" where
  "tree_ent_encode ent =
     (case ent of (mode, name, bin) \<Rightarrow>
        res_bind (py_assert (mode \<noteq> 0)) (\<lambda>_.
        res_bind (py_assert (name \<noteq> [])) (\<lambda>_.
        res_bind (py_assert (length bin = 20)) (\<lambda>_.
        let s = show_int_base 8 mode @ CHR '' '' # name @ CHR 0x00 # bin
        in res_bind (py_assert (\<not> prefix ''0'' s)) (\<lambda>_. Inr s)))))"

definition tree_encode :: "tree_ent list \<Rightarrow> bytes res" where
  "tree_encode shalist =
     res_bind (res_map tree_ent_encode (sort_key shalist_item_sort_key shalist)) (\<lambda>l. Inr (concat l))"

text \<open>
  The body of the scanning loops: the entry at \<open>ofs\<close> and the offset of the next one.  A
  \<open>find\<close> of the space that fails is \<open>-1\<close>, and the slices are then Python's for \<open>-1\<close>.
\<close>

definition tree_scan :: "bytes \<Rightarrow> nat \<Rightarrow> (bytes \<times> bytes \<times> nat) res" where
  "tree_scan tree_data ofs =
     (case find_from CHR 0x00 tree_data ofs of
        None \<Rightarrow> Inl AssertionError
      | Some z \<Rightarrow>
          res_bind (py_assert (ofs < z)) (\<lambda>_.
          let mode_end = (case find_from CHR '' '' tree_data ofs of None \<Rightarrow> -1 | Some i \<Rightarrow> int i);
              name = py_slice tree_data (mode_end + 1) (int z);
              mode = py_slice tree_data (int ofs) mode_end
          in Inr (mode, name, z)))"

lemma tree_scan_progress: "tree_scan tree_data ofs = Inr (mode, name, z) \<Longrightarrow> ofs < z"
  by (auto simp: tree_scan_def res_simps Let_def split: option.splits)

definition tree_ent_at :: "bytes \<Rightarrow> nat \<Rightarrow> (tree_ent \<times> nat) res" where
  "tree_ent_at tree_data ofs =
     res_bind (tree_scan tree_data ofs) (\<lambda>(mode, name, z).
     res_bind (py_int 8 mode) (\<lambda>m. Inr ((m, name, slice (z + 1) (z + 1 + 20) tree_data), z + 21)))"

lemma tree_ent_at_progress: "tree_ent_at tree_data ofs = Inr (ent, ofs') \<Longrightarrow> ofs < ofs'"
  by (auto simp: tree_ent_at_def res_simps dest: tree_scan_progress)

text \<open>The generator \<open>tree_iter\<close>: what it yields, and the exception that ends it, if any.\<close>

function tree_iter_loop :: "bytes \<Rightarrow> nat \<Rightarrow> tree_ent list \<times> py_error option" where
  "tree_iter_loop tree_data ofs =
     (if ofs < length tree_data then
        (case tree_ent_at tree_data ofs of
           Inl e \<Rightarrow> ([], Some e)
         | Inr (ent, ofs') \<Rightarrow> (let r = tree_iter_loop tree_data ofs' in (ent # fst r, snd r)))
      else ([], None))"
  by pat_completeness auto
termination
  by (relation "measure (\<lambda>(d, ofs). length d - ofs)") (auto dest!: tree_ent_at_progress)

definition tree_iter :: "bytes \<Rightarrow> tree_ent list \<times> py_error option" where
  "tree_iter tree_data = tree_iter_loop tree_data 0"

function tree_entries_loop :: "bytes \<Rightarrow> nat \<Rightarrow> tree_ent list \<Rightarrow> tree_ent list res" where
  "tree_entries_loop tree_data ofs result =
     (if ofs < length tree_data then
        res_bind (tree_ent_at tree_data ofs) (\<lambda>(ent, ofs'). tree_entries_loop tree_data ofs' (result @ [ent]))
      else Inr result)"
  by pat_completeness auto
termination
  by (relation "measure (\<lambda>(d, ofs, r). length d - ofs)") (auto dest!: tree_ent_at_progress)

definition tree_entries :: "bytes \<Rightarrow> tree_ent list res" where
  "tree_entries tree_data = tree_entries_loop tree_data 0 []"

function find_tree_entry_loop :: "bytes \<Rightarrow> bytes \<Rightarrow> nat \<Rightarrow> tree_ent option res" where
  "find_tree_entry_loop named tree_data ofs =
     (if ofs < length tree_data then
        res_bind (tree_scan tree_data ofs) (\<lambda>(mode, name, z).
          if name = named \<or> name = named @ ''/'' then
            res_bind (py_int 8 mode) (\<lambda>m. Inr (Some (m, name, slice (z + 1) (z + 1 + 20) tree_data)))
          else if named @ ''/'' < name then Inr None
          else find_tree_entry_loop named tree_data (z + 21))
      else Inr None)"
  by pat_completeness auto
termination
  by (relation "measure (\<lambda>(n, d, ofs). length d - ofs)") (auto dest!: tree_scan_progress)

definition find_tree_entry :: "bytes \<Rightarrow> bytes \<Rightarrow> tree_ent option res" where
  "find_tree_entry named tree_data =
     res_bind (py_assert (\<not> suffix ''/'' named)) (\<lambda>_. find_tree_entry_loop named tree_data 0)"

declare tree_iter_loop.simps [simp del] tree_entries_loop.simps [simp del] find_tree_entry_loop.simps [simp del]

text \<open>\<open>last_tree_entry\<close> hops from hash to hash to find where the last entry starts.\<close>

lemma find_from_ge: "find_from c s ofs = Some z \<Longrightarrow> ofs \<le> z \<and> z < length s"
  by (auto simp: find_from_def index_of_Some)

function last_ent_loop :: "bytes \<Rightarrow> nat \<Rightarrow> nat \<Rightarrow> nat" where
  "last_ent_loop tree_data z last_ent =
     (case find_from CHR 0x00 tree_data z of
        None \<Rightarrow> last_ent
      | Some z0 \<Rightarrow>
          (let z' = z0 + 21
           in last_ent_loop tree_data z' (if z' < length tree_data then z' else last_ent)))"
  by pat_completeness auto
termination
  by (relation "measure (\<lambda>(d, z, l). length d - z)") (auto dest!: find_from_ge)

declare last_ent_loop.simps [simp del]

definition last_tree_entry :: "bytes \<Rightarrow> tree_ent res" where
  "last_tree_entry tree_data =
     (let oid_start = int (length tree_data) - 20;
          oid = py_slice tree_data oid_start (int (length tree_data));
          last_ent = last_ent_loop tree_data 0 0
      in case find_from CHR '' '' tree_data last_ent of
           None \<Rightarrow> Inl AssertionError
         | Some mode_end \<Rightarrow>
             res_bind (py_assert (0 < mode_end)) (\<lambda>_.
             let mode = slice last_ent mode_end tree_data;
                 name = py_slice tree_data (int mode_end + 1) (oid_start - 1)
             in res_bind (py_int 8 mode) (\<lambda>m. Inr (m, name, oid))))"

section \<open>Object ids and pack entries\<close>

text \<open>A running \<open>Sha1\<close> is the bytes it was fed; \<open>digest\<close> hashes them.\<close>

definition start_sha1 :: "bytes \<Rightarrow> nat \<Rightarrow> bytes res" where
  "start_sha1 kind sz =
     res_bind (py_assert (kind \<in> {''tree'', ''commit'', ''blob'', ''tag''}))
       (\<lambda>_. Inr (kind @ '' '' @ show_int (int sz) @ [CHR 0x00]))"

definition calc_hash :: "(bytes \<Rightarrow> bytes) \<Rightarrow> bytes \<Rightarrow> bytes \<Rightarrow> oid res" where
  "calc_hash sha1 type content =
     res_bind (start_sha1 type (length content)) (\<lambda>sum. Inr (sha1 (sum @ content)))"

definition typemap :: "bytes \<Rightarrow> int option" where
  "typemap type =
     (if type = ''blob'' then Some 3 else if type = ''tree'' then Some 2
      else if type = ''commit'' then Some 1 else if type = ''tag'' then Some 4 else None)"

definition typermap :: "int \<Rightarrow> bytes option" where
  "typermap n =
     (if n = 3 then Some ''blob'' else if n = 2 then Some ''tree''
      else if n = 1 then Some ''commit'' else if n = 4 then Some ''tag'' else None)"

text \<open>The size header's loop: \<open>szbits\<close> is the byte being built, \<open>sz\<close> the bits left.\<close>

function encode_sz_loop :: "int \<Rightarrow> int \<Rightarrow> bytes" where
  "encode_sz_loop szbits sz =
     (if 0 < sz then bchr (szbits OR 0x80) # encode_sz_loop (sz AND 0x7f) (drop_bit 7 sz)
      else [bchr szbits])"
  by pat_completeness auto
termination
  by (relation "measure (\<lambda>(b, s). nat s)") (auto simp: drop_bit_int_div)

declare encode_sz_loop.simps [simp del]

text \<open>\<open>compress lvl content\<close> is the pair \<open>z.compress(content), z.flush()\<close>.\<close>

definition encode_packobj ::
  "(int \<Rightarrow> bytes \<Rightarrow> bytes \<times> bytes) \<Rightarrow> bytes \<Rightarrow> bytes \<Rightarrow> int \<Rightarrow> bytes list res" where
  "encode_packobj compress type content compression_level =
     (if \<not> (- 1 \<le> compression_level \<and> compression_level < 10) then Inl ValueError
      else case typemap type of
        None \<Rightarrow> Inl KeyError
      | Some t \<Rightarrow>
          (let sz = int (length content);
               szbits = (sz AND 0x0f) OR push_bit 4 t;
               szout = encode_sz_loop szbits (drop_bit 4 sz);
               (z1, z2) = compress compression_level content
           in Inr [szout, z1, z2]))"

text \<open>The header's loop on the way back: \<open>c\<close> is \<open>buf[i]\<close>; the result is the last \<open>i\<close>, \<open>sz\<close>.\<close>

fun decode_sz_loop :: "bytes \<Rightarrow> char \<Rightarrow> nat \<Rightarrow> int \<Rightarrow> nat \<Rightarrow> (nat \<times> int) res" where
  "decode_sz_loop rest c i sz shift =
     (if bval c AND 0x80 \<noteq> 0 then
        (case rest of
           [] \<Rightarrow> Inl IndexError
         | c' # rest' \<Rightarrow>
             decode_sz_loop rest' c' (Suc i) (sz OR push_bit shift (bval c' AND 0x7f)) (shift + 7))
      else Inr (i, sz))"

declare decode_sz_loop.simps [simp del]

definition decode_packobj :: "(bytes \<Rightarrow> bytes res) \<Rightarrow> bytes \<Rightarrow> (bytes \<times> bytes) res" where
  "decode_packobj decompress buf =
     (case buf of
        [] \<Rightarrow> Inl AssertionError
      | c # rest \<Rightarrow>
          (case typermap (drop_bit 4 (bval c AND 0x70)) of
             None \<Rightarrow> Inl KeyError
           | Some type \<Rightarrow>
               res_bind (decode_sz_loop rest c 0 (bval c AND 0x0f) 4) (\<lambda>(i, sz).
               res_bind (decompress (drop (i + 1) buf)) (\<lambda>content. Inr (type, content)))))"

section \<open>Lemmas\<close>

definition valid_ent :: "tree_ent \<Rightarrow> bool" where
  "valid_ent ent = (case ent of (mode, name, bin) \<Rightarrow>
     0 < mode \<and> name \<noteq> [] \<and> CHR 0x00 \<notin> set name \<and> length bin = 20)"

definition ent_bytes :: "tree_ent \<Rightarrow> bytes" where
  "ent_bytes ent = (case ent of (mode, name, bin) \<Rightarrow>
     show_base 8 (nat mode) @ CHR '' '' # name @ CHR 0x00 # bin)"

lemma hd_show_base:
  assumes "0 < n" "2 \<le> b" "b \<le> 10"
  shows "hd (show_base b n) \<noteq> CHR ''0''"
  using assms
proof (induction b n rule: show_base.induct)
  case (1 b n)
  show ?case
  proof (cases "n < b")
    case True
    then have "(of_char (digit_char n) :: nat) \<noteq> of_char CHR ''0''"
      using "1.prems" by (simp add: of_char_digit_char)
    then show ?thesis
      using True by (auto simp: show_base.simps [of b n])
  next
    case False
    then have "0 < n div b" using "1.prems" by (simp add: div_greater_zero_iff)
    then show ?thesis
      using 1 False by (simp add: show_base.simps [of b n])
  qed
qed

lemma tree_ent_encode_valid: "valid_ent e \<Longrightarrow> tree_ent_encode e = Inr (ent_bytes e)"
  using hd_show_base [of "nat (fst e)" 8]
  by (cases e, cases "show_base 8 (nat (fst e))")
    (auto simp: valid_ent_def tree_ent_encode_def ent_bytes_def show_int_base_def)

lemma ent_bytes_not_Nil [simp]: "ent_bytes e \<noteq> []"
  by (cases e) (simp add: ent_bytes_def)

lemma show_base_no_special:
  "CHR 0x00 \<notin> set (show_base 8 n)" "CHR '' '' \<notin> set (show_base 8 n)"
proof -
  have "c \<noteq> CHR 0x00 \<and> c \<noteq> CHR '' ''" if c: "c \<in> set (show_base 8 n)" for c
  proof -
    obtain d where "d < 8" "c = digit_char d" using show_base_chars [of 8 c n] c by auto
    then show ?thesis using digit_char_not_special(4,5) [of d] by simp
  qed
  then show "CHR 0x00 \<notin> set (show_base 8 n)" "CHR '' '' \<notin> set (show_base 8 n)" by blast+
qed

lemma prefix_order_le: "(xs :: bytes) \<le> xs @ ys"
  by (induction xs) auto

text \<open>What the scanner does at the start of an entry.\<close>

lemma tree_scan_ent:
  assumes "valid_ent e" "data = pre @ ent_bytes e @ post" "length pre = ofs"
  shows "\<exists>z. tree_scan data ofs = Inr (show_base 8 (nat (fst e)), fst (snd e), z) \<and>
    z + 21 = ofs + length (ent_bytes e) \<and> slice (z + 1) (z + 1 + 20) data = snd (snd e)"
proof -
  obtain m n b where e: "e = (m, n, b)" by (cases e)
  let ?o = "show_base 8 (nat m)"
  let ?z = "ofs + length ?o + 1 + length n"
  have v: "CHR 0x00 \<notin> set n" "length b = 20" using assms(1) by (auto simp: e valid_ent_def)
  have data: "data = pre @ ?o @ CHR '' '' # (n @ CHR 0x00 # b @ post)"
    "data = pre @ (?o @ CHR '' '' # n) @ CHR 0x00 # (b @ post)"
    using assms(2) by (simp_all add: e ent_bytes_def)
  have z: "find_from CHR 0x00 data ofs = Some ?z"
    unfolding data(2) using assms(3) v show_base_no_special
    by (subst find_from_append) auto
  have sp: "find_from CHR '' '' data ofs = Some (ofs + length ?o)"
    unfolding data(1) using assms(3) show_base_no_special by (subst find_from_append) auto
  have "py_slice data (int ofs) (int (ofs + length ?o)) = ?o"
    using assms(3) by (simp add: py_slice_nonneg slice_def data(1))
  moreover have "py_slice data (int (ofs + length ?o) + 1) (int ?z) = n"
    using assms(3) by (simp add: py_slice_nonneg slice_def data(1) nat_add_distrib)
  ultimately have "tree_scan data ofs = Inr (?o, n, ?z)"
    by (simp add: tree_scan_def z sp Let_def)
  moreover have "slice (?z + 1) (?z + 1 + 20) data = b"
    using assms(3) v by (simp add: slice_def data(1))
  ultimately show ?thesis
    using v by (intro exI [of _ ?z]) (simp add: e ent_bytes_def)
qed

lemma tree_ent_at_ent:
  assumes "valid_ent e" "length pre = ofs"
  shows "tree_ent_at (pre @ ent_bytes e @ post) ofs = Inr (e, ofs + length (ent_bytes e))"
  using tree_scan_ent [OF assms(1) refl assms(2), of post] assms(1) py_int_show_base [of 8]
  by (cases e) (auto simp: tree_ent_at_def valid_ent_def)

lemma tree_iter_loop_ents:
  assumes "\<forall>e\<in>set es. valid_ent e"
  shows "tree_iter_loop (pre @ concat (map ent_bytes es)) (length pre) = (es, None)"
  using assms
proof (induction es arbitrary: pre)
  case Nil
  then show ?case by (simp add: tree_iter_loop.simps)
next
  case (Cons e es)
  have "tree_iter_loop ((pre @ ent_bytes e) @ concat (map ent_bytes es)) (length (pre @ ent_bytes e)) = (es, None)"
    using Cons by (intro Cons.IH) simp
  then show ?case
    using Cons.prems tree_ent_at_ent [of e pre "length pre" "concat (map ent_bytes es)"]
    by (subst tree_iter_loop.simps) simp
qed

lemma tree_entries_loop_iter:
  "tree_entries_loop d ofs result =
     (case tree_iter_loop d ofs of (es, None) \<Rightarrow> Inr (result @ es) | (es, Some e) \<Rightarrow> Inl e)"
proof (induction d ofs arbitrary: result rule: tree_iter_loop.induct)
  case (1 d ofs)
  show ?case
  proof (cases "ofs < length d")
    case False
    then show ?thesis by (simp add: tree_entries_loop.simps [of d ofs] tree_iter_loop.simps [of d ofs])
  next
    case True
    show ?thesis
    proof (cases "tree_ent_at d ofs")
      case (Inl e)
      then show ?thesis using True
        by (simp add: tree_entries_loop.simps [of d ofs] tree_iter_loop.simps [of d ofs])
    next
      case (Inr r)
      then obtain ent ofs' where r: "tree_ent_at d ofs = Inr (ent, ofs')" by (cases r) auto
      then show ?thesis
        using True "1.IH" [OF True r refl, of "result @ [ent]"]
        by (simp add: tree_entries_loop.simps [of d ofs] tree_iter_loop.simps [of d ofs] Let_def
            split: prod.splits option.splits)
    qed
  qed
qed

lemma tree_scan_find: "tree_scan d ofs = Inr (mode, name, z) \<Longrightarrow> find_from CHR 0x00 d ofs = Some z"
  by (auto simp: tree_scan_def res_simps Let_def split: option.splits)

lemma last_ent_loop_ents:
  assumes "\<forall>x\<in>set (e # es). valid_ent x"
  shows "last_ent_loop (pre @ concat (map ent_bytes (e # es))) (length pre) (length pre)
    = length pre + length (concat (map ent_bytes (butlast (e # es))))"
  using assms
proof (induction es arbitrary: e pre)
  case Nil
  obtain z where z: "find_from CHR 0x00 (pre @ ent_bytes e) (length pre) = Some z"
    "z + 21 = length pre + length (ent_bytes e)"
    using tree_scan_ent [of e "pre @ ent_bytes e" pre "[]"] Nil by (auto dest: tree_scan_find)
  have "find_from CHR 0x00 (pre @ ent_bytes e) (z + 21) = None"
    by (simp add: z(2) find_from_def)
  then have "last_ent_loop (pre @ ent_bytes e) (z + 21) (length pre) = length pre"
    by (subst last_ent_loop.simps) simp
  then show ?case
    using z by (subst last_ent_loop.simps) (simp add: Let_def)
next
  case (Cons e' es)
  let ?d = "pre @ ent_bytes e @ concat (map ent_bytes (e' # es))"
  obtain z where z: "find_from CHR 0x00 ?d (length pre) = Some z"
    "z + 21 = length pre + length (ent_bytes e)"
    using tree_scan_ent [of e ?d pre "concat (map ent_bytes (e' # es))"] Cons.prems
    by (auto dest: tree_scan_find)
  have "last_ent_loop ?d (length pre) (length pre) = last_ent_loop ?d (z + 21) (z + 21)"
    using z by (subst last_ent_loop.simps) (simp add: Let_def)
  also have "\<dots> = length (pre @ ent_bytes e) + length (concat (map ent_bytes (butlast (e' # es))))"
    using Cons.IH [of e' "pre @ ent_bytes e"] Cons.prems z(2) by simp
  finally show ?case by simp
qed

lemma last_tree_entry_ents:
  assumes "es \<noteq> []" "\<forall>x\<in>set es. valid_ent x"
  shows "last_tree_entry (concat (map ent_bytes es)) = Inr (last es)"
proof -
  obtain m n b where l: "last es = (m, n, b)" by (cases "last es")
  let ?pre = "concat (map ent_bytes (butlast es))" and ?o = "show_base 8 (nat m)"
  let ?d = "concat (map ent_bytes es)"
  have "?d = concat (map ent_bytes (butlast es @ [last es]))" using assms(1) by simp
  then have d: "?d = ?pre @ ent_bytes (last es)" by (simp del: append_butlast_last_id)
  have v: "valid_ent (m, n, b)" using assms l last_in_set [of es] by force
  then have v': "0 < m" "length b = 20" by (auto simp: valid_ent_def)
  have "last_ent_loop ?d 0 0 = length ?pre"
    using last_ent_loop_ents [of "hd es" "tl es" "[]"] assms by simp
  moreover have d': "?d = ?pre @ ?o @ CHR '' '' # (n @ CHR 0x00 # b)"
    by (simp add: d l ent_bytes_def)
  moreover have "find_from CHR '' '' ?d (length ?pre) = Some (length ?pre + length ?o)"
    unfolding d' using show_base_no_special by (subst find_from_append) auto
  moreover have "slice (length ?pre) (length ?pre + length ?o) ?d = ?o"
    by (simp add: slice_def d')
  moreover have "py_slice ?d (int (length ?pre + length ?o) + 1) (int (length ?d) - 20 - 1) = n"
    using v' by (simp add: py_slice_nonneg slice_def d' nat_add_distrib)
  moreover have "py_slice ?d (int (length ?d) - 20) (int (length ?d)) = b"
    using v' by (simp add: py_slice_nonneg slice_def d' nat_add_distrib)
  ultimately show ?thesis
    using v' l by (simp add: last_tree_entry_def Let_def py_int_show_base)
qed

lemma sort_key_valid: "(\<forall>e\<in>set es. valid_ent e) \<Longrightarrow> \<forall>e\<in>set (sort_key f es). valid_ent e"
  by simp

lemma tree_encode_valid:
  "\<forall>e\<in>set es. valid_ent e \<Longrightarrow>
    tree_encode es = Inr (concat (map ent_bytes (sort_key shalist_item_sort_key es)))"
  using res_map_all_Inr [of "sort_key shalist_item_sort_key es" tree_ent_encode ent_bytes]
  by (simp add: tree_encode_def tree_ent_encode_valid)

lemma find_tree_entry_loop_ents:
  assumes "\<forall>e\<in>set es. valid_ent e \<and> CHR ''/'' \<notin> set (fst (snd e))"
    and "sorted (map shalist_item_sort_key es)"
  shows "find_tree_entry_loop named (pre @ concat (map ent_bytes es)) (length pre)
    = Inr (List.find (\<lambda>e. fst (snd e) = named) es)"
  using assms
proof (induction es arbitrary: pre)
  case Nil
  then show ?case by (simp add: find_tree_entry_loop.simps)
next
  case (Cons e es)
  let ?d = "pre @ ent_bytes e @ concat (map ent_bytes es)"
  obtain m n b where e: "e = (m, n, b)" by (cases e)
  obtain z where scan: "tree_scan ?d (length pre) = Inr (show_base 8 (nat m), n, z)"
    and z: "z + 21 = length pre + length (ent_bytes e)" "slice (z + 1) (z + 1 + 20) ?d = b"
    using tree_scan_ent [of e ?d pre "concat (map ent_bytes es)"] Cons.prems e by auto
  have m: "py_int 8 (show_base 8 (nat m)) = Inr m"
    using Cons.prems(1) e py_int_show_base [of 8] by (auto simp: valid_ent_def)
  have "n \<noteq> named @ ''/''" using Cons.prems(1) e by auto
  have unfold: "find_tree_entry_loop named ?d (length pre) =
     (if n = named then Inr (Some e) else if named @ ''/'' < n then Inr None
      else find_tree_entry_loop named ?d (z + 21))"
    using scan z m \<open>n \<noteq> named @ ''/''\<close> e
    by (subst find_tree_entry_loop.simps) auto
  have IH: "find_tree_entry_loop named ?d (z + 21) = Inr (List.find (\<lambda>e. fst (snd e) = named) es)"
    using Cons.IH [of "pre @ ent_bytes e"] Cons.prems z(1) by simp
  have "List.find (\<lambda>e. fst (snd e) = named) es = None" if late: "named @ ''/'' < n"
  proof -
    have "fst (snd e') \<noteq> named" if "e' \<in> set es" for e'
    proof
      assume "fst (snd e') = named"
      then have "shalist_item_sort_key e' \<le> named @ ''/''"
        by (auto simp: shalist_item_sort_key_def prefix_order_le)
      moreover have "n \<le> shalist_item_sort_key e"
        by (auto simp: e shalist_item_sort_key_def prefix_order_le)
      moreover have "shalist_item_sort_key e \<le> shalist_item_sort_key e'"
        using Cons.prems(2) that by auto
      ultimately show False using late by order
    qed
    then show ?thesis unfolding find_None_iff by blast
  qed
  then show ?case
    using unfold IH e by auto
qed

text \<open>The size header: \<open>decode_sz_loop\<close> reads back what \<open>encode_sz_loop\<close> wrote.\<close>

lemma encode_sz_loop_vuint:
  assumes "0 \<le> sz" "0 \<le> szbits" "szbits < 128"
  shows "encode_sz_loop szbits sz =
    (if 0 < sz then bchr (szbits OR 0x80) # vuint_encode_loop sz else [bchr szbits])"
  using assms
proof (induction szbits sz rule: encode_sz_loop.induct)
  case (1 szbits sz)
  have m: "0 \<le> sz AND 0x7f" "sz AND 0x7f < 128" by (simp_all add: and_mask_int)
  show ?case
  proof (cases "0 < sz")
    case True
    then have "encode_sz_loop (sz AND 0x7f) (drop_bit 7 sz) =
      (if 0 < drop_bit 7 sz then bchr ((sz AND 0x7f) OR 0x80) # vuint_encode_loop (drop_bit 7 sz)
       else [bchr (sz AND 0x7f)])"
      using "1.IH" m by simp
    then show ?thesis
      using True by (simp add: encode_sz_loop.simps [of szbits sz] vuint_encode_loop.simps [of sz] Let_def)
  next
    case False
    then show ?thesis by (simp add: encode_sz_loop.simps [of szbits sz])
  qed
qed

lemma decode_sz_loop_vuint:
  assumes "0 \<le> x" "bval c AND 0x80 \<noteq> 0"
  shows "\<exists>sz'. decode_sz_loop (vuint_encode_loop x @ rest) c i sz shift = Inr (i + length (vuint_encode_loop x), sz')"
  using assms
proof (induction x arbitrary: c i sz shift rule: vuint_encode_loop.induct)
  case (1 x)
  define b where "b = x mod 128"
  have b: "0 \<le> b" "b < 128" by (simp_all add: b_def)
  show ?case
  proof (cases "0 < x div 128")
    case True
    have "bval (bchr (b + 128)) AND 0x80 \<noteq> 0"
      using b small_div_mod [of b 128] by (simp add: and_bit_int)
    then obtain sz' where "decode_sz_loop (vuint_encode_loop (x div 128) @ rest) (bchr (b + 128)) (Suc i)
        (sz OR push_bit shift (bval (bchr (b + 128)) AND 0x7f)) (shift + 7)
      = Inr (Suc i + length (vuint_encode_loop (x div 128)), sz')"
      using "1.IH" [of "x AND 0x7f" "drop_bit 7 x" "bchr (b + 128)"] True
      unfolding drop_bit_int_div by (metis less_le)
    moreover have "vuint_encode_loop x = bchr (b + 128) # vuint_encode_loop (x div 128)"
      using True b by (simp add: vuint_encode_loop.simps [of x] bit_arith Let_def flip: b_def)
    ultimately show ?thesis
      using "1.prems"(2) by (simp add: decode_sz_loop.simps [of _ c] del: of_char_of)
  next
    case False
    have "decode_sz_loop rest' (bchr b) j s t = Inr (j, s)" for rest' j s t
      using b small_div_mod [of b 128] by (subst decode_sz_loop.simps) (simp add: and_bit_int)
    then show ?thesis
      using False "1.prems"(2)
      by (simp add: vuint_encode_loop.simps [of x] decode_sz_loop.simps [of _ c] bit_arith Let_def flip: b_def)
  qed
qed

text \<open>The first header byte: the type in three bits above the four low bits of the size.\<close>

lemma header_byte:
  fixes t lo :: int
  assumes "0 \<le> lo" "lo < 16" "0 \<le> t" "t < 8"
  shows "lo OR push_bit 4 t = lo + 16 * t" "lo + 16 * t < 128"
    "drop_bit 4 (bval (bchr (lo + 16 * t)) AND 0x70) = t" "bval (bchr (lo + 16 * t)) AND 0x80 = 0"
    "drop_bit 4 (bval (bchr (lo + 16 * t + 128)) AND 0x70) = t" "bval (bchr (lo + 16 * t + 128)) AND 0x80 \<noteq> 0"
proof -
  have and70: "drop_bit 4 (x AND 0x70) = (x div 16) mod 8" for x :: int
  proof -
    have "drop_bit 4 (x AND 0x70) = drop_bit 4 x AND 7"
      by (simp add: drop_bit_and)
    also have "\<dots> = (x div 16) mod 8"
      using take_bit_eq_mask [of 3 "drop_bit 4 x"]
      by (simp add: take_bit_eq_mod mask_eq_exp_minus_1 drop_bit_int_div)
    finally show ?thesis .
  qed
  show "lo OR push_bit 4 t = lo + 16 * t"
    using or_disjoint_int [of lo 4 t] assms by (simp add: push_bit_eq_mult)
  show lt: "lo + 16 * t < 128" using assms by linarith
  have d: "(lo + 16 * t) div 16 = t" "(lo + 16 * t + 128) div 16 = t + 8"
    using assms by linarith+
  have v: "bval (bchr (lo + 16 * t)) = lo + 16 * t" "bval (bchr (lo + 16 * t + 128)) = lo + 16 * t + 128"
    using assms lt by simp_all
  show "drop_bit 4 (bval (bchr (lo + 16 * t)) AND 0x70) = t"
    "drop_bit 4 (bval (bchr (lo + 16 * t + 128)) AND 0x70) = t"
    unfolding v and70 d using assms by simp_all
  show "bval (bchr (lo + 16 * t)) AND 0x80 = 0" "bval (bchr (lo + 16 * t + 128)) AND 0x80 \<noteq> 0"
    unfolding v using assms lt small_div_mod [of "lo + 16 * t" 128] by (simp_all add: and_bit_int)
qed

lemma decode_packobj_long:
  assumes "bval c AND 0x80 \<noteq> 0" "typermap (drop_bit 4 (bval c AND 0x70)) = Some type" "0 \<le> hi"
  shows "decode_packobj decompress (c # vuint_encode_loop hi @ z) = res_bind (decompress z) (\<lambda>x. Inr (type, x))"
  using decode_sz_loop_vuint [OF assms(3,1), of z 0 "bval c AND 0x0f" 4] assms(2)
  by (auto simp: decode_packobj_def)

lemma typermap_typemap: "typemap type = Some t \<Longrightarrow> typermap t = Some type \<and> 0 \<le> t \<and> t < 8"
  by (auto simp: typemap_def typermap_def split: if_splits)

section \<open>Properties\<close>

text \<open>a file's name survives mangling: for every name, \<open>demangle_name\<close> gives back the name and
  whether the file was stored in chunks, whatever suffixes the name itself carries.\<close>

theorem demangle_mangle:
  assumes "mangle_name name mode gitmode = Inr m"
  shows "demangle_name m gitmode =
    Inr (name, if S_ISREG mode \<and> \<not> S_ISREG gitmode then BUP_CHUNKED else BUP_NORMAL)"
proof (cases "S_ISREG mode \<and> \<not> S_ISREG gitmode")
  case True
  then show ?thesis
    using assms by (auto simp: mangle_name_def demangle_name_def res_simps suffix_def)
next
  case plain: False
  show ?thesis
  proof (cases "suffix ''.bup'' name \<or> suffix ''.bup'' (butlast name)")
    case True
    then show ?thesis
      using assms plain by (auto simp: mangle_name_def demangle_name_def suffix_def)
  next
    case False
    then show ?thesis
      using assms plain suffix_bup_ext [of _ name]
      by (auto simp: mangle_name_def demangle_name_def)
  qed
qed

theorem demangle_mangle_witness:
  "demangle_name ''x.bupd.bupl'' GIT_MODE_FILE = Inr (''x.bupd'', BUP_NORMAL)"
proof -
  have "mangle_name ''x.bupd'' GIT_MODE_FILE GIT_MODE_FILE = Inr ''x.bupd.bupl''" by code_simp
  from demangle_mangle [OF this] show ?thesis by (simp add: mode_defs)
qed

text \<open>C26: reading a git tree that \<open>tree_encode\<close> wrote gives the entries back, sorted in git's order
  (directories compared as if their names ended in a slash); the eager and the lazy reader agree
  on it, and on every other input up to the exception that ends the lazy one.\<close>

theorem tree_encode_roundtrip:
  assumes "\<forall>e\<in>set es. valid_ent e"
  shows "\<exists>b. tree_encode es = Inr b \<and> tree_entries b = Inr (sort_key shalist_item_sort_key es) \<and>
    tree_iter b = (sort_key shalist_item_sort_key es, None)"
proof -
  have "tree_iter (concat (map ent_bytes (sort_key shalist_item_sort_key es)))
    = (sort_key shalist_item_sort_key es, None)"
    using tree_iter_loop_ents [of "sort_key shalist_item_sort_key es" "[]"] assms by (simp add: tree_iter_def)
  then show ?thesis
    using tree_encode_valid [OF assms] by (simp add: tree_entries_def tree_entries_loop_iter tree_iter_def)
qed

theorem tree_encode_roundtrip_witness:
  "\<exists>b. tree_encode [(0x4000, ''foo'', replicate 20 CHR ''x''), (0x81A4, ''foo.a'', replicate 20 CHR 0x00)] = Inr b \<and>
    tree_entries b = Inr [(0x81A4, ''foo.a'', replicate 20 CHR 0x00), (0x4000, ''foo'', replicate 20 CHR ''x'')]"
  using tree_encode_roundtrip [of "[(0x4000, ''foo'', replicate 20 CHR ''x''), (0x81A4, ''foo.a'', replicate 20 CHR 0x00)]"]
  by (auto simp: valid_ent_def shalist_item_sort_key_def S_ISDIR_def s_ifmt_def)

text \<open>the early exit of \<open>find_tree_entry\<close> is sound: on the encoding of entries whose names hold
  no slash it finds exactly the first entry of that name in tree order, or \<open>None\<close> when there is none.\<close>

theorem find_tree_entry_correct:
  assumes "\<forall>e\<in>set es. valid_ent e \<and> CHR ''/'' \<notin> set (fst (snd e))"
    and "tree_encode es = Inr b" and "\<not> suffix ''/'' named"
  shows "find_tree_entry named b =
    Inr (List.find (\<lambda>e. fst (snd e) = named) (sort_key shalist_item_sort_key es))"
  using assms find_tree_entry_loop_ents [of "sort_key shalist_item_sort_key es" named "[]"]
    tree_encode_valid [of es]
  by (simp add: find_tree_entry_def)

theorem find_tree_entry_correct_witness:
  "\<exists>b. tree_encode [(0x4000, ''foo'', replicate 20 CHR ''x''), (0x81A4, ''a'', replicate 20 CHR 0x00)] = Inr b \<and>
    find_tree_entry ''foo'' b = Inr (Some (0x4000, ''foo'', replicate 20 CHR ''x''))"
proof -
  let ?es = "[(0x4000, ''foo'', replicate 20 CHR ''x''), (0x81A4, ''a'', replicate 20 CHR 0x00)]"
  have v: "\<forall>e\<in>set ?es. valid_ent e \<and> CHR ''/'' \<notin> set (fst (snd e))" by (simp add: valid_ent_def)
  then obtain b where b: "tree_encode ?es = Inr b" using tree_encode_valid [of ?es] by blast
  have "\<not> suffix ''/'' ''foo''" by code_simp
  then show ?thesis
    using find_tree_entry_correct [OF v b, of "''foo''"] b
    by (auto simp: shalist_item_sort_key_def S_ISDIR_def s_ifmt_def)
qed

text \<open>\<open>last_tree_entry\<close>, which hops over the hashes without decoding the entries, returns the last
  entry of any nonempty tree that \<open>tree_encode\<close> wrote.\<close>

theorem last_tree_entry_correct:
  assumes "es \<noteq> []" "\<forall>e\<in>set es. valid_ent e" "tree_encode es = Inr b"
  shows "last_tree_entry b = Inr (last (sort_key shalist_item_sort_key es))"
proof -
  have "sort_key shalist_item_sort_key es \<noteq> []"
    using assms(1) by (metis length_0_conv length_sort)
  then show ?thesis
    using assms last_tree_entry_ents [of "sort_key shalist_item_sort_key es"] tree_encode_valid [of es] by simp
qed

theorem last_tree_entry_correct_witness:
  "\<exists>b. tree_encode [(0x4000, ''foo'', replicate 20 CHR 0x00), (0x81A4, ''a'', replicate 20 CHR '' '')] = Inr b \<and>
    last_tree_entry b = Inr (0x4000, ''foo'', replicate 20 CHR 0x00)"
proof -
  let ?es = "[(0x4000, ''foo'', replicate 20 CHR 0x00), (0x81A4, ''a'', replicate 20 CHR '' '')]"
  have v: "\<forall>e\<in>set ?es. valid_ent e" by (simp add: valid_ent_def)
  then obtain b where b: "tree_encode ?es = Inr b" using tree_encode_valid [of ?es] by blast
  show ?thesis
    using last_tree_entry_correct [OF _ v b] b
    by (auto simp: shalist_item_sort_key_def S_ISDIR_def s_ifmt_def)
qed

lemma packobj_decodes:
  assumes "\<And>lvl x. decompress (fst (compress lvl x) @ snd (compress lvl x)) = Inr x"
    and "encode_packobj compress type content lvl = Inr parts"
  shows "decode_packobj decompress (concat parts) = Inr (type, content)"
proof -
  obtain t where t: "typemap type = Some t" using assms(2) by (auto simp: encode_packobj_def split: if_splits option.splits)
  note tt = typermap_typemap [OF t]
  obtain z1 z2 where z: "compress lvl content = (z1, z2)" by (cases "compress lvl content")
  then have inv: "decompress (z1 @ z2) = Inr content" using assms(1) [of lvl content] by simp
  define lo where "lo = int (length content) mod 16"
  define hi where "hi = int (length content) div 16"
  have lo: "0 \<le> lo" "lo < 16" "0 \<le> hi" by (simp_all add: lo_def hi_def)
  note hb = header_byte [OF lo(1,2), of t]
  have "parts = [encode_sz_loop (lo + 16 * t) hi, z1, z2]"
    using assms(2) t z tt hb(1)
    by (auto simp: encode_packobj_def Let_def and_mask_int drop_bit_int_div lo_def hi_def split: if_splits)
  moreover have "encode_sz_loop (lo + 16 * t) hi =
      (if 0 < hi then bchr (lo + 16 * t + 128) # vuint_encode_loop hi else [bchr (lo + 16 * t)])"
    using encode_sz_loop_vuint [of hi "lo + 16 * t"] or_bit_int(1) [of "lo + 16 * t"] lo tt hb(2) by simp
  moreover have "decode_packobj decompress (bchr (lo + 16 * t) # z1 @ z2) = Inr (type, content)"
    using hb(3,4) tt inv by (simp add: decode_packobj_def decode_sz_loop.simps)
  moreover have "decode_packobj decompress (bchr (lo + 16 * t + 128) # vuint_encode_loop hi @ z1 @ z2) = Inr (type, content)"
    using decode_packobj_long [OF hb(6) _ lo(3), of type decompress "z1 @ z2"] hb(5) tt inv by simp
  ultimately show ?thesis by simp
qed

text \<open>C27: decoding a pack entry gives back the object's type and content, for every type, content and
  compression level \<open>encode_packobj\<close> accepts, when the decompressor inverts the compressor.\<close>

theorem packobj_roundtrip:
  assumes "\<And>lvl x. decompress (fst (compress lvl x) @ snd (compress lvl x)) = Inr x"
    and "encode_packobj compress type content lvl = Inr parts"
  shows "decode_packobj decompress (concat parts) = Inr (type, content)"
  using assms by (rule packobj_decodes)

theorem packobj_roundtrip_witness:
  "decode_packobj Inr (concat [[bchr 53], ''hello'', []]) = Inr (''blob'', ''hello'')"
proof -
  have "encode_packobj (\<lambda>_ x. (x, [])) ''blob'' ''hello'' 1 = Inr [[bchr 53], ''hello'', []]"
    by (simp add: encode_packobj_def typemap_def encode_sz_loop.simps Let_def)
  then show ?thesis by (intro packobj_roundtrip [where compress = "\<lambda>_ x. (x, [])" and lvl = 1]) simp_all
qed

end
