(* ===== verification/Hash_Split.thy ===== *)
theory Hash_Split
  imports Git_Format
begin

text \<open>
  \<open>lib/bup/hashsplit.py\<close>: from the blobs a hash splitter yields to one blob or a tree of blobs.
  Object ids are opaque here (the type \<open>'i\<close>); the callbacks \<open>makeblob\<close> and \<open>maketree\<close> are the
  id functions \<open>blob_id\<close> and \<open>tree_id\<close> together with the trace of the objects handed to them,
  in the order of the calls.
\<close>

section \<open>Configuration\<close>

definition BUP_BLOBBITS :: nat where "BUP_BLOBBITS = 13"
definition BUP_TREE_BLOBBITS :: nat where "BUP_TREE_BLOBBITS = 13"
definition MAX_PER_TREE :: nat where "MAX_PER_TREE = 256"
definition fanout :: nat where "fanout = 16"

text \<open>The largest power of two below \<open>fanout or 128\<close>, as \<open>int(math.log(..., 2))\<close>.\<close>

fun log2_floor :: "nat \<Rightarrow> nat" where
  "log2_floor n = (if n < 2 then 0 else Suc (log2_floor (n div 2)))"

definition fanbits :: nat where
  "fanbits = log2_floor (if fanout = 0 then 128 else fanout)"

record split_config =
  cfg_trees :: "bool option"
  cfg_blobbits :: "nat option"

definition legacy_methods :: "(bytes \<times> nat) list" where
  "legacy_methods = map (\<lambda>n. (''legacy:'' @ show_int (int n), n)) [13..<22]"

text \<open>\<open>trees\<close> and \<open>method\<close> are what \<open>config_get\<close> answers for the two settings.\<close>

definition configuration :: "bool option \<Rightarrow> bytes option \<Rightarrow> split_config res" where
  "configuration trees method =
     (let cfg = \<lparr>cfg_trees = trees, cfg_blobbits = None\<rparr>
      in case method of
           None \<Rightarrow> Inr cfg
         | Some mth \<Rightarrow>
             (case map_of legacy_methods mth of
                None \<Rightarrow> Inl (Exc ''ConfigError'')
              | Some n \<Rightarrow> Inr (cfg\<lparr>cfg_blobbits := Some n\<rparr>)))"

text \<open>The arguments \<open>from_config\<close> hands to the C splitter.\<close>

record splitter_args =
  sp_bits :: nat
  sp_fanbits :: nat
  sp_keep_boundaries :: bool

definition from_config :: "split_config \<Rightarrow> splitter_args" where
  "from_config cfg =
     \<lparr>sp_bits = (case cfg_blobbits cfg of None \<Rightarrow> BUP_BLOBBITS
                 | Some b \<Rightarrow> if b = 0 then BUP_BLOBBITS else b),
      sp_fanbits = fanbits, sp_keep_boundaries = False\<rparr>"

section \<open>Stacks of chunks\<close>

datatype 'i obj = Blob bytes | TreeObj "(int \<times> bytes \<times> 'i) list"

text \<open>A chunk on a stack: mode, id, size.\<close>

type_synonym 'i chunk = "int \<times> 'i \<times> nat"

definition hex_name :: "nat \<Rightarrow> nat \<Rightarrow> bytes" where
  "hex_name vlen ofs = zero_pad vlen (show_base 16 ofs)"

fun make_shalist_loop :: "nat \<Rightarrow> nat \<Rightarrow> 'i chunk list \<Rightarrow> (int \<times> bytes \<times> 'i) list" where
  "make_shalist_loop vlen ofs [] = []"
| "make_shalist_loop vlen ofs ((mode, sha, sz) # l) =
     (mode, hex_name vlen ofs, sha) # make_shalist_loop vlen (ofs + sz) l"

definition chunks_size :: "'i chunk list \<Rightarrow> nat" where
  "chunks_size l = sum_list (map (snd \<circ> snd) l)"

definition make_shalist :: "'i chunk list \<Rightarrow> (int \<times> bytes \<times> 'i) list \<times> nat" where
  "make_shalist l =
     (let total = chunks_size l; vlen = length (show_base 16 total)
      in (make_shalist_loop vlen 0 l, total))"

text \<open>
  \<open>squish n stacks\<close> is the loop of \<open>_squish\<close> on \<open>stacks[i:]\<close>, with \<open>n\<close> counting down from
  the \<open>n\<close> of the code; each round empties the stack at hand into the next one up.
\<close>

fun total_length :: "'a list list \<Rightarrow> nat" where
  "total_length [] = 0"
| "total_length (s # ss) = length s + total_length ss"

definition squish_up ::
  "((int \<times> bytes \<times> 'i) list \<Rightarrow> 'i) \<Rightarrow> 'i chunk list \<Rightarrow> 'i chunk list \<Rightarrow> 'i chunk list \<times> 'i obj list" where
  "squish_up tree_id s nxt =
     (if length s = 1 then (nxt @ s, [])
      else if s \<noteq> [] then
        (let (shalist, sz) = make_shalist s
         in (nxt @ [(GIT_MODE_TREE, tree_id shalist, sz)], [TreeObj shalist]))
      else (nxt, []))"

lemma squish_up_length:
  "length (fst (squish_up tree_id s nxt)) \<le> length nxt + 1"
  by (auto simp: squish_up_def Let_def split: prod.splits)

function squish ::
  "((int \<times> bytes \<times> 'i) list \<Rightarrow> 'i) \<Rightarrow> nat \<Rightarrow> 'i chunk list list \<Rightarrow> 'i chunk list list \<times> 'i obj list" where
  "squish tree_id n [] = ([], [])"
| "squish tree_id n (s # rest) =
     (if 0 < n \<or> MAX_PER_TREE \<le> length s then
        (let rest1 = (if rest = [] then [[]] else rest);
             (nxt, w) = squish_up tree_id s (hd rest1);
             (r, w') = squish tree_id (n - 1) (nxt # tl rest1)
         in ([] # r, w @ w'))
      else (s # rest, []))"
  by pat_completeness auto
termination
proof (relation "measures [\<lambda>(t, n, ss). n, \<lambda>(t, n, ss). total_length ss]", goal_cases)
  case 1
  then show ?case by simp
next
  case (2 t n s rest rest1 p nxt w)
  have "nxt = fst (squish_up t s (hd rest1))" using 2 by (metis fst_conv)
  then have "length nxt \<le> length (hd rest1) + 1"
    using squish_up_length [of t s "hd rest1"] by simp
  then have "n = 0 \<Longrightarrow> total_length (nxt # tl rest1) < total_length (s # rest)"
    using 2 by (cases rest) (auto simp: MAX_PER_TREE_def)
  then show ?case by (cases "n = 0") auto
qed

declare squish.simps(2) [simp del]

section \<open>Splitting\<close>

text \<open>
  \<open>split_to_blobs\<close> is a generator, so each blob is written just before its chunk is stacked;
  \<open>tot\<close> is the module's \<open>total_split\<close>.
\<close>

fun split_loop ::
  "(bytes \<Rightarrow> 'i) \<Rightarrow> ((int \<times> bytes \<times> 'i) list \<Rightarrow> 'i) \<Rightarrow> nat \<Rightarrow> 'i chunk list list \<Rightarrow>
   (bytes \<times> nat) list \<Rightarrow> 'i chunk list list \<times> 'i obj list \<times> nat" where
  "split_loop blob_id tree_id tot stacks [] = (stacks, [], tot)"
| "split_loop blob_id tree_id tot stacks ((blob, level) # sl) =
     (let stacks1 = (hd stacks @ [(GIT_MODE_FILE, blob_id blob, length blob)]) # tl stacks;
          (stacks2, w) = squish tree_id level stacks1;
          (stacks3, w', tot') = split_loop blob_id tree_id (tot + length blob) stacks2 sl
      in (stacks3, Blob blob # w @ w', tot'))"

definition split_to_shalist ::
  "(bytes \<Rightarrow> 'i) \<Rightarrow> ((int \<times> bytes \<times> 'i) list \<Rightarrow> 'i) \<Rightarrow> nat \<Rightarrow> (bytes \<times> nat) list \<Rightarrow>
   (int \<times> bytes \<times> 'i) list \<times> 'i obj list \<times> nat" where
  "split_to_shalist blob_id tree_id tot splitter =
     (if fanout = 0 then \<comment> \<open>never: \<open>assert(fanout != 0)\<close>\<close>
        (fst (make_shalist (map (\<lambda>(blob, level). (GIT_MODE_FILE, blob_id blob, length blob)) splitter)),
         map (Blob \<circ> fst) splitter, tot + sum_list (map (length \<circ> fst) splitter))
      else
      let (stacks, w, tot') = split_loop blob_id tree_id tot [[]] splitter;
          (stacks', w') = squish tree_id (length stacks - 1) stacks
      in (fst (make_shalist (last stacks')), w @ w', tot'))"

definition split_to_blob_or_tree ::
  "(bytes \<Rightarrow> 'i) \<Rightarrow> ((int \<times> bytes \<times> 'i) list \<Rightarrow> 'i) \<Rightarrow> nat \<Rightarrow> (bytes \<times> nat) list \<Rightarrow>
   (int \<times> 'i) \<times> 'i obj list \<times> nat" where
  "split_to_blob_or_tree blob_id tree_id tot splitter =
     (let (shalist, w, tot') = split_to_shalist blob_id tree_id tot splitter
      in case shalist of
           [] \<Rightarrow> ((GIT_MODE_FILE, blob_id []), w @ [Blob []], tot')
         | [(mode, name, sha)] \<Rightarrow> ((mode, sha), w, tot')
         | _ \<Rightarrow> ((GIT_MODE_TREE, tree_id shalist), w @ [TreeObj shalist], tot'))"

section \<open>Names sort as offsets\<close>

lemma less_append:
  fixes xs ys :: bytes
  shows "length xs = length ys \<Longrightarrow> xs < ys \<Longrightarrow> xs @ s < ys @ t"
  by (induction xs ys rule: list_induct2) auto

lemma less_snoc:
  fixes xs ys :: bytes
  assumes "length xs = length ys"
  shows "xs @ [c] < ys @ [d] \<longleftrightarrow> xs < ys \<or> xs = ys \<and> c < d"
  using assms by (induction xs ys rule: list_induct2) auto

lemma digit_char_less: "d < e \<Longrightarrow> e < 36 \<Longrightarrow> digit_char d < digit_char e"
  using of_char_digit_char [of d] of_char_digit_char [of e] by (simp add: less_char_def)

lemma show_base_length:
  assumes "2 \<le> b" "0 < w"
  shows "length (show_base b n) \<le> w \<longleftrightarrow> n < b ^ w"
  using assms
proof (induction b n arbitrary: w rule: show_base.induct)
  case (1 b n)
  obtain v where w: "w = Suc v" using "1.prems" by (cases w) auto
  have b: "b \<le> b ^ w" using "1.prems" by (simp add: w)
  show ?case
  proof (cases "n < b")
    case True
    then show ?thesis
      using "1.prems" b by (simp add: show_base.simps [of b n])
  next
    case False
    show ?thesis
    proof (cases v)
      case 0
      then show ?thesis using False "1.prems" w by (simp add: show_base.simps [of b n])
    next
      case (Suc u)
      have "length (show_base b (n div b)) \<le> v \<longleftrightarrow> n div b < b ^ v"
        using "1.IH" [of v] False "1.prems" Suc by simp
      also have "\<dots> \<longleftrightarrow> n < b ^ w"
        using "1.prems" w by (simp add: div_less_iff_less_mult mult.commute)
      finally show ?thesis using False "1.prems" w by (simp add: show_base.simps [of b n])
    qed
  qed
qed

lemma hex_name_Suc:
  assumes "0 < w"
  shows "hex_name (Suc w) n = hex_name w (n div 16) @ [digit_char (n mod 16)]"
proof (cases "n < 16")
  case True
  have "digit_char 0 = CHR ''0''" by code_simp
  moreover obtain v where "w = Suc v" using assms by (cases w) auto
  ultimately show ?thesis
    using True by (simp add: hex_name_def zero_pad_def show_base.simps [of 16 n] show_base.simps [of 16 0]
        replicate_append_same)
next
  case False
  then show ?thesis by (simp add: hex_name_def zero_pad_def show_base.simps [of 16 n])
qed

lemma hex_name_length: "n < 16 ^ w \<Longrightarrow> 0 < w \<Longrightarrow> length (hex_name w n) = w"
  using show_base_length [of 16 w n] by (simp add: hex_name_def zero_pad_def)

lemma hex_name_less:
  assumes "0 < w" "a < b" "b < 16 ^ w"
  shows "hex_name w a < hex_name w b"
  using assms
proof (induction w arbitrary: a b)
  case 0
  then show ?case by simp
next
  case (Suc w)
  show ?case
  proof (cases "w = 0")
    case True
    then show ?thesis
      using Suc.prems digit_char_less [of a b]
      by (simp add: hex_name_def zero_pad_def show_base.simps [of 16 a] show_base.simps [of 16 b])
  next
    case False
    have bd: "a div 16 \<le> b div 16" using Suc.prems by (simp add: div_le_mono)
    have lt: "b div 16 < 16 ^ w" using Suc.prems by (simp add: div_less_iff_less_mult mult.commute)
    have len: "length (hex_name w (a div 16)) = length (hex_name w (b div 16))"
      using False lt bd by (simp add: hex_name_length)
    show ?thesis
    proof (cases "a div 16 = b div 16")
      case True
      then have "a mod 16 < b mod 16"
        using Suc.prems by (metis add_less_cancel_left div_mult_mod_eq)
      then show ?thesis
        using True False digit_char_less [of "a mod 16" "b mod 16"] by (simp add: hex_name_Suc less_snoc)
    next
      case False': False
      then have "hex_name w (a div 16) < hex_name w (b div 16)"
        using Suc.IH [of "a div 16" "b div 16"] bd lt False by simp
      then show ?thesis using False len by (simp add: hex_name_Suc less_snoc)
    qed
  qed
qed

lemma key_hex_name:
  "shalist_item_sort_key (m, hex_name w a, i) = hex_name w a @ (if S_ISDIR m then ''/'' else [])"
  by (simp add: shalist_item_sort_key_def)

lemma hex_key_less:
  assumes "0 < w" "a < b" "b < 16 ^ w"
  shows "shalist_item_sort_key (m, hex_name w a, i) < shalist_item_sort_key (m', hex_name w b, j)"
  unfolding key_hex_name using assms hex_name_less [OF assms] by (intro less_append) (simp_all add: hex_name_length)

lemma make_shalist_loop_sorted:
  assumes "0 < w" "\<forall>(m, i, sz)\<in>set l. 0 < sz" "ofs + chunks_size l < 16 ^ w"
  shows "sorted (map shalist_item_sort_key (make_shalist_loop w ofs l)) \<and>
    (\<forall>x\<in>set (make_shalist_loop w ofs l). \<exists>m b i. x = (m, hex_name w b, i) \<and> ofs \<le> b \<and> b < 16 ^ w)"
  using assms
proof (induction l arbitrary: ofs)
  case Nil
  then show ?case by simp
next
  case (Cons c l)
  obtain m i sz where c: "c = (m, i, sz)" by (cases c)
  let ?r = "make_shalist_loop w (ofs + sz) l"
  have r: "sorted (map shalist_item_sort_key ?r)"
    "\<forall>x\<in>set ?r. \<exists>m b i. x = (m, hex_name w b, i) \<and> ofs + sz \<le> b \<and> b < 16 ^ w"
    using Cons.IH [of "ofs + sz"] Cons.prems c by (auto simp: chunks_size_def)
  have "shalist_item_sort_key (m, hex_name w ofs, i) \<le> shalist_item_sort_key x" if x: "x \<in> set ?r" for x
  proof -
    obtain m' b j where "x = (m', hex_name w b, j)" "ofs + sz \<le> b" "b < 16 ^ w" using r(2) x by blast
    then show ?thesis
      using hex_key_less [of w ofs b m i m' j] Cons.prems c by simp
  qed
  moreover have "ofs < 16 ^ w" using Cons.prems by simp
  ultimately show ?case
    using r c by fastforce
qed

lemma make_shalist_sorted:
  assumes "\<forall>(m, i, sz)\<in>set l. 0 < sz" "make_shalist l = (sl, n)"
  shows "sorted (map shalist_item_sort_key sl)"
proof -
  have "chunks_size l < 16 ^ length (show_base 16 (chunks_size l))"
    using show_base_length [of 16 "length (show_base 16 (chunks_size l))" "chunks_size l"] by simp
  then show ?thesis
    using make_shalist_loop_sorted [of _ l 0] assms by (auto simp: make_shalist_def Let_def)
qed

section \<open>What a stored object holds\<close>

text \<open>
  The bytes a blob or a tree of blobs stands for, in a store where \<open>has i ob\<close> says that the id \<open>i\<close>
  names the object \<open>ob\<close>: a directory mode is read as
  the concatenation of its entries in git's tree order.  In a tree no piece is empty, and the name of
  an entry is the offset of its piece in hexadecimal digits.
\<close>

fun offsets :: "nat \<Rightarrow> bytes list \<Rightarrow> nat list" where
  "offsets n [] = []"
| "offsets n (c # cs) = n # offsets (n + length c) cs"

definition names_offset :: "int \<times> bytes \<times> 'i \<Rightarrow> nat \<Rightarrow> bool" where
  "names_offset e n \<longleftrightarrow> fst e \<in> {GIT_MODE_FILE, GIT_MODE_TREE} \<and> fst (snd e) \<noteq> [] \<and>
     CHR 0x00 \<notin> set (fst (snd e)) \<and> py_int 16 (fst (snd e)) = Inr (int n)"

definition pieces_ok :: "(int \<times> bytes \<times> 'i) list \<Rightarrow> bytes list \<Rightarrow> bool" where
  "pieces_ok es cs \<longleftrightarrow> es \<noteq> [] \<and> [] \<notin> set cs \<and> list_all2 names_offset es (offsets 0 cs)"

inductive content :: "('i \<Rightarrow> 'i obj \<Rightarrow> bool) \<Rightarrow> int \<Rightarrow> 'i \<Rightarrow> bytes \<Rightarrow> bool" for has where
  content_blob: "\<not> S_ISDIR mode \<Longrightarrow> has i (Blob b) \<Longrightarrow> content has mode i b"
| content_tree: "S_ISDIR mode \<Longrightarrow> has i (TreeObj es) \<Longrightarrow>
    list_all2 (\<lambda>e c. content has (fst e) (snd (snd e)) c) (sort_key shalist_item_sort_key es) cs \<Longrightarrow>
    pieces_ok (sort_key shalist_item_sort_key es) cs \<Longrightarrow>
    content has mode i (concat cs)"

inductive_cases content_blobE: "content has GIT_MODE_FILE i c"

lemma GIT_MODE_FILE_not_dir [simp]: "\<not> S_ISDIR GIT_MODE_FILE" "S_ISDIR GIT_MODE_TREE"
  by (simp_all add: mode_defs)

definition chunk_ok :: "('i \<Rightarrow> 'i obj \<Rightarrow> bool) \<Rightarrow> 'i chunk \<Rightarrow> bytes \<Rightarrow> bool" where
  "chunk_ok has ch c \<longleftrightarrow> fst ch \<in> {GIT_MODE_FILE, GIT_MODE_TREE} \<and>
     content has (fst ch) (fst (snd ch)) c \<and> snd (snd ch) = length c \<and> 0 < length c"

text \<open>The store holds every object of a trace.\<close>

definition holds ::
  "('i \<Rightarrow> 'i obj \<Rightarrow> bool) \<Rightarrow> (bytes \<Rightarrow> 'i) \<Rightarrow> ((int \<times> bytes \<times> 'i) list \<Rightarrow> 'i) \<Rightarrow> 'i obj list \<Rightarrow> bool" where
  "holds has blob_id tree_id w \<longleftrightarrow>
     (\<forall>b. Blob b \<in> set w \<longrightarrow> has (blob_id b) (Blob b)) \<and>
     (\<forall>es. TreeObj es \<in> set w \<longrightarrow> has (tree_id es) (TreeObj es))"

text \<open>A store as a map.\<close>

abbreviation in_store :: "('i \<Rightarrow> 'i obj option) \<Rightarrow> 'i \<Rightarrow> 'i obj \<Rightarrow> bool" where
  "in_store get \<equiv> (\<lambda>i ob. get i = Some ob)"

lemma holds_append [simp]:
  "holds has blob_id tree_id (w @ w') \<longleftrightarrow> holds has blob_id tree_id w \<and> holds has blob_id tree_id w'"
  "holds has blob_id tree_id (Blob b # w) \<longleftrightarrow> has (blob_id b) (Blob b) \<and> holds has blob_id tree_id w"
  "holds has blob_id tree_id (TreeObj es # w) \<longleftrightarrow> has (tree_id es) (TreeObj es) \<and> holds has blob_id tree_id w"
  "holds has blob_id tree_id []"
  by (auto simp: holds_def)

lemma chunk_ok_pos: "list_all2 (chunk_ok has) l cs \<Longrightarrow> \<forall>(m, i, sz)\<in>set l. 0 < sz"
  by (induction rule: list_all2_induct) (auto simp: chunk_ok_def)

lemma chunk_ok_size: "list_all2 (chunk_ok has) l cs \<Longrightarrow> chunks_size l = length (concat cs)"
  by (induction rule: list_all2_induct) (auto simp: chunk_ok_def chunks_size_def)

lemma make_shalist_loop_content:
  "list_all2 (chunk_ok has) l cs \<Longrightarrow>
    list_all2 (\<lambda>e c. content has (fst e) (snd (snd e)) c) (make_shalist_loop w ofs l) cs"
  by (induction arbitrary: ofs rule: list_all2_induct) (auto simp: chunk_ok_def)

lemma hex_name_offset:
  assumes "m \<in> {GIT_MODE_FILE, GIT_MODE_TREE}"
  shows "names_offset (m, hex_name vlen n, i) n"
proof -
  obtain ds where ds: "hex_name vlen n = map digit_char ds" "ds \<noteq> []" "\<forall>d\<in>set ds. d < 16"
    using zero_pad_digits [of 16 vlen n] by (auto simp: hex_name_def)
  have "CHR 0x00 \<notin> set (hex_name vlen n)"
  proof
    assume "CHR 0x00 \<in> set (hex_name vlen n)"
    then obtain d where "d \<in> set ds" "CHR 0x00 = digit_char d" using ds(1) by auto
    then show False using ds(3) digit_char_not_special(4) [of d] by fastforce
  qed
  then show ?thesis
    using assms py_int_zero_pad [of 16 vlen n] ds by (simp add: names_offset_def hex_name_def)
qed

lemma make_shalist_loop_offsets:
  "list_all2 (chunk_ok has) l cs \<Longrightarrow> list_all2 names_offset (make_shalist_loop w ofs l) (offsets ofs cs)"
  by (induction arbitrary: ofs rule: list_all2_induct) (auto simp: chunk_ok_def intro: hex_name_offset)

lemma make_shalist_content:
  assumes "list_all2 (chunk_ok has) l cs" "make_shalist l = (sl, n)"
  shows "list_all2 (\<lambda>e c. content has (fst e) (snd (snd e)) c) (sort_key shalist_item_sort_key sl) cs \<and>
    n = length (concat cs) \<and> sort_key shalist_item_sort_key sl = sl \<and> (l \<noteq> [] \<longrightarrow> pieces_ok sl cs)"
proof -
  have "sort_key shalist_item_sort_key sl = sl"
    using make_shalist_sorted [OF chunk_ok_pos [OF assms(1)] assms(2)] by (rule sort_key_id_if_sorted)
  moreover have "[] \<notin> set cs"
    using assms(1) by (induction rule: list_all2_induct) (auto simp: chunk_ok_def)
  moreover have "l \<noteq> [] \<Longrightarrow> sl \<noteq> []"
    using assms(2) by (cases l) (auto simp: make_shalist_def Let_def)
  ultimately show ?thesis
    using assms make_shalist_loop_content [OF assms(1)] chunk_ok_size [OF assms(1)]
      make_shalist_loop_offsets [OF assms(1)]
    by (auto simp: make_shalist_def Let_def pieces_ok_def)
qed

text \<open>
  The stacks hold the data so far: read from the top stack down, the contents of the chunks
  follow one another.
\<close>

definition stacks_ok :: "('i \<Rightarrow> 'i obj \<Rightarrow> bool) \<Rightarrow> 'i chunk list list \<Rightarrow> bytes \<Rightarrow> bool" where
  "stacks_ok has stacks d \<longleftrightarrow> (\<exists>cs. list_all2 (chunk_ok has) (concat (rev stacks)) cs \<and> concat cs = d)"

lemma squish_up_ok:
  assumes "list_all2 (chunk_ok has) s cs" "list_all2 (chunk_ok has) nxt ns"
    and "squish_up tree_id s nxt = (nxt', w)" "holds has blob_id tree_id w"
  shows "\<exists>ns'. list_all2 (chunk_ok has) nxt' ns' \<and> concat ns' = concat ns @ concat cs"
proof (cases "s = [] \<or> length s = 1")
  case True
  then show ?thesis
    using assms by (intro exI [of _ "ns @ cs"]) (auto simp: squish_up_def list_all2_appendI)
next
  case False
  obtain sl n where sl: "make_shalist s = (sl, n)" by (cases "make_shalist s")
  have has: "has (tree_id sl) (TreeObj sl)" and nxt': "nxt' = nxt @ [(GIT_MODE_TREE, tree_id sl, n)]"
    using assms(3,4) False sl by (auto simp: squish_up_def)
  have "content has GIT_MODE_TREE (tree_id sl) (concat cs)"
    using make_shalist_content [OF assms(1) sl] has False by (intro content_tree) auto
  moreover have "concat cs \<noteq> []"
    using assms(1) False by (cases s; cases cs) (auto simp: chunk_ok_def)
  ultimately show ?thesis
    using assms(2) make_shalist_content [OF assms(1) sl]
    by (intro exI [of _ "ns @ [concat cs]"]) (auto simp: nxt' chunk_ok_def list_all2_appendI)
qed

lemma squish_ok:
  assumes "squish tree_id n stacks = (stacks', w)" "stacks_ok has stacks d" "holds has blob_id tree_id w"
  shows "stacks_ok has stacks' d"
  using assms
proof (induction tree_id n stacks arbitrary: stacks' w d rule: squish.induct)
  case (1 tree_id n)
  then show ?case by simp
next
  case (2 tree_id n s rest)
  show ?case
  proof (cases "0 < n \<or> MAX_PER_TREE \<le> length s")
    case False
    then show ?thesis using "2.prems" by (simp add: squish.simps(2))
  next
    case True
    define rest1 where "rest1 = (if rest = [] then [[]] else rest)"
    obtain nxt w1 where up: "squish_up tree_id s (hd rest1) = (nxt, w1)" by (cases "squish_up tree_id s (hd rest1)")
    obtain r w2 where sq: "squish tree_id (n - 1) (nxt # tl rest1) = (r, w2)"
      by (cases "squish tree_id (n - 1) (nxt # tl rest1)")
    have res: "stacks' = [] # r" "w = w1 @ w2"
      using "2.prems"(1) True up sq by (auto simp: squish.simps(2) Let_def rest1_def)
    have rest1: "concat (rev rest) = concat (rev (tl rest1)) @ hd rest1"
      by (cases rest) (auto simp: rest1_def)
    obtain as ns cs where "list_all2 (chunk_ok has) (concat (rev (tl rest1))) as"
      "list_all2 (chunk_ok has) (hd rest1) ns" "list_all2 (chunk_ok has) s cs"
      "d = concat as @ concat ns @ concat cs"
      using "2.prems"(2) by (auto simp: stacks_ok_def rest1 list_all2_append1)
    moreover then obtain ns' where "list_all2 (chunk_ok has) nxt ns'" "concat ns' = concat ns @ concat cs"
      using squish_up_ok [OF _ _ up] "2.prems"(3) res by fastforce
    ultimately have "stacks_ok has (nxt # tl rest1) d"
      unfolding stacks_ok_def by (intro exI [of _ "as @ ns'"]) (auto intro: list_all2_appendI)
    then have "stacks_ok has r d"
      using "2.IH" [OF True rest1_def up [symmetric] refl sq] "2.prems"(3) res by simp
    then show ?thesis using res by (simp add: stacks_ok_def)
  qed
qed

text \<open>Squishing all the way leaves everything on the last stack.\<close>

lemma squish_all:
  assumes "squish tree_id n stacks = (stacks', w)" "stacks \<noteq> []" "length stacks \<le> Suc n"
  shows "stacks' \<noteq> [] \<and> (\<forall>s\<in>set (butlast stacks'). s = [])"
  using assms
proof (induction tree_id n stacks arbitrary: stacks' w rule: squish.induct)
  case (1 tree_id n)
  then show ?case by simp
next
  case (2 tree_id n s rest)
  show ?case
  proof (cases "0 < n \<or> MAX_PER_TREE \<le> length s")
    case False
    then show ?thesis using "2.prems" by (auto simp: squish.simps(2))
  next
    case True
    define rest1 where "rest1 = (if rest = [] then [[]] else rest)"
    obtain nxt w1 where up: "squish_up tree_id s (hd rest1) = (nxt, w1)" by (cases "squish_up tree_id s (hd rest1)")
    obtain r w2 where sq: "squish tree_id (n - 1) (nxt # tl rest1) = (r, w2)"
      by (cases "squish tree_id (n - 1) (nxt # tl rest1)")
    have res: "stacks' = [] # r" "w = w1 @ w2"
      using "2.prems"(1) True up sq by (auto simp: squish.simps(2) Let_def rest1_def)
    have "length (nxt # tl rest1) \<le> Suc (n - 1)"
      using "2.prems"(3) by (cases rest) (auto simp: rest1_def)
    then show ?thesis
      using "2.IH" [OF True rest1_def up [symmetric] refl sq] res by simp
  qed
qed

lemma squish_not_Nil:
  assumes "squish tree_id n stacks = (stacks', w)" "stacks \<noteq> []"
  shows "stacks' \<noteq> []"
proof -
  obtain s rest where "stacks = s # rest" using assms(2) by (cases stacks) auto
  then have "squish tree_id n (s # rest) = (stacks', w)" using assms(1) by simp
  then show ?thesis
    by (subst (asm) squish.simps(2)) (auto simp: Let_def split: if_splits prod.splits)
qed

lemma split_loop_ok:
  assumes "split_loop blob_id tree_id tot stacks sl = (stacks', w, tot')"
    and "stacks_ok has stacks d" "stacks \<noteq> []" "holds has blob_id tree_id w" "\<forall>(b, l)\<in>set sl. b \<noteq> []"
  shows "stacks_ok has stacks' (d @ concat (map fst sl)) \<and> stacks' \<noteq> [] \<and> tot' = tot + length (concat (map fst sl))"
  using assms
proof (induction sl arbitrary: tot stacks d w)
  case Nil
  then show ?case by simp
next
  case (Cons bl sl)
  obtain blob level where bl: "bl = (blob, level)" by (cases bl)
  let ?s1 = "(hd stacks @ [(GIT_MODE_FILE, blob_id blob, length blob)]) # tl stacks"
  obtain stacks2 w1 where sq: "squish tree_id level ?s1 = (stacks2, w1)" by (cases "squish tree_id level ?s1")
  obtain w2 where r: "split_loop blob_id tree_id (tot + length blob) stacks2 sl = (stacks', w2, tot')"
    and w: "w = Blob blob # w1 @ w2"
    using Cons.prems(1) bl sq by (auto split: prod.splits)
  have h: "has (blob_id blob) (Blob blob)" "holds has blob_id tree_id w1" "holds has blob_id tree_id w2"
    using Cons.prems(4) w by auto
  have b: "blob \<noteq> []" using Cons.prems(5) bl by auto
  have st: "concat (rev stacks) = concat (rev (tl stacks)) @ hd stacks"
    using Cons.prems(3) by (cases stacks) auto
  obtain cs where cs: "list_all2 (chunk_ok has) (concat (rev stacks)) cs" "concat cs = d"
    using Cons.prems(2) by (auto simp: stacks_ok_def)
  have "content has GIT_MODE_FILE (blob_id blob) blob"
    using h(1) by (intro content_blob) simp_all
  then have "list_all2 (chunk_ok has) (concat (rev stacks) @ [(GIT_MODE_FILE, blob_id blob, length blob)]) (cs @ [blob])"
    using cs b by (intro list_all2_appendI) (auto simp: chunk_ok_def)
  then have "stacks_ok has ?s1 (d @ blob)"
    unfolding stacks_ok_def using cs st by (intro exI [of _ "cs @ [blob]"]) simp
  then have "stacks_ok has stacks2 (d @ blob)"
    using squish_ok [OF sq] h by blast
  moreover have "stacks2 \<noteq> []" using squish_not_Nil [OF sq] by simp
  ultimately show ?case
    using Cons.IH [OF r, of "d @ blob"] h Cons.prems(5) bl by auto
qed

lemma split_to_shalist_ok:
  assumes "split_to_shalist blob_id tree_id tot sp = (shalist, w, tot')"
    and "holds has blob_id tree_id w" "\<forall>(b, l)\<in>set sp. b \<noteq> []"
  shows "\<exists>cs. list_all2 (\<lambda>e c. content has (fst e) (snd (snd e)) c) (sort_key shalist_item_sort_key shalist) cs \<and>
    list_all2 (\<lambda>e c. content has (fst e) (snd (snd e)) c) shalist cs \<and>
    concat cs = concat (map fst sp) \<and> (shalist \<noteq> [] \<longrightarrow> pieces_ok (sort_key shalist_item_sort_key shalist) cs) \<and>
    tot' = tot + length (concat (map fst sp))"
proof -
  obtain stacks w1 where sp: "split_loop blob_id tree_id tot [[]] sp = (stacks, w1, tot')"
    and w1: "\<exists>w2 stacks'. squish tree_id (length stacks - 1) stacks = (stacks', w2) \<and> w = w1 @ w2 \<and>
      shalist = fst (make_shalist (last stacks'))"
    using assms(1) by (auto simp: split_to_shalist_def fanout_def split: prod.splits)
  then obtain w2 stacks' where sq: "squish tree_id (length stacks - 1) stacks = (stacks', w2)"
    and w: "w = w1 @ w2" and sh: "shalist = fst (make_shalist (last stacks'))" by blast
  have h: "holds has blob_id tree_id w1" "holds has blob_id tree_id w2" using assms(2) w by auto
  have ok: "stacks_ok has stacks (concat (map fst sp))" "stacks \<noteq> []" "tot' = tot + length (concat (map fst sp))"
    using split_loop_ok [OF sp, of has "[]"] h assms(3) by (auto simp: stacks_ok_def)
  then have "stacks_ok has stacks' (concat (map fst sp))"
    using squish_ok [OF sq] h by blast
  moreover have e: "stacks' \<noteq> []" "\<forall>s\<in>set (butlast stacks'). s = []"
    using squish_all [OF sq ok(2)] by auto
  moreover have "concat (rev stacks') = last stacks'"
    using e by (cases stacks' rule: rev_cases) auto
  ultimately obtain cs where cs: "list_all2 (chunk_ok has) (last stacks') cs" "concat cs = concat (map fst sp)"
    by (auto simp: stacks_ok_def)
  obtain n where ms: "make_shalist (last stacks') = (shalist, n)"
    using sh by (cases "make_shalist (last stacks')") auto
  have "last stacks' = [] \<Longrightarrow> shalist = []"
    using ms by (simp add: make_shalist_def Let_def)
  then show ?thesis
    using make_shalist_content [OF cs(1) ms] cs(2) ok(3) by (intro exI [of _ cs]) auto
qed

lemma split_content:
  assumes "split_to_blob_or_tree blob_id tree_id tot sp = ((mode, i), w, tot')"
    and "holds has blob_id tree_id w" and "\<forall>(b, l)\<in>set sp. b \<noteq> []"
  shows "content has mode i (concat (map fst sp)) \<and> tot' = tot + length (concat (map fst sp))"
proof -
  obtain shalist w1 where sp: "split_to_shalist blob_id tree_id tot sp = (shalist, w1, tot')"
    using assms(1) by (auto simp: split_to_blob_or_tree_def split: prod.splits list.splits)
  have h: "holds has blob_id tree_id w1"
    using assms(1,2) sp by (auto simp: split_to_blob_or_tree_def split: list.splits)
  obtain cs where cs: "list_all2 (\<lambda>e c. content has (fst e) (snd (snd e)) c) (sort_key shalist_item_sort_key shalist) cs"
    "list_all2 (\<lambda>e c. content has (fst e) (snd (snd e)) c) shalist cs"
    "concat cs = concat (map fst sp)" "shalist \<noteq> [] \<longrightarrow> pieces_ok (sort_key shalist_item_sort_key shalist) cs" "tot' = tot + length (concat (map fst sp))"
    using split_to_shalist_ok [OF sp h assms(3)] by blast
  show ?thesis
  proof (cases shalist)
    case Nil
    then have "i = blob_id []" "mode = GIT_MODE_FILE" "has (blob_id []) (Blob [])" "cs = []"
      using assms(1,2) sp cs(2) by (auto simp: split_to_blob_or_tree_def)
    moreover have "content has GIT_MODE_FILE (blob_id []) []" if "has (blob_id []) (Blob [])"
      using that by (rule content_blob [rotated]) simp
    ultimately show ?thesis using cs(3,5) by (metis concat.simps(1))
  next
    case (Cons e es)
    show ?thesis
    proof (cases es)
      case Nil
      then show ?thesis
        using assms(1) sp Cons cs(2,3,5) by (cases e) (auto simp: split_to_blob_or_tree_def list_all2_Cons1)
    next
      case (Cons e' es')
      with \<open>shalist = e # es\<close> have "mode = GIT_MODE_TREE" "i = tree_id shalist"
        "has (tree_id shalist) (TreeObj shalist)"
        using assms(1,2) sp by (cases e; auto simp: split_to_blob_or_tree_def)+
      then show ?thesis using cs content_tree [of mode has i shalist cs] \<open>shalist = e # es\<close> by simp
    qed
  qed
qed

section \<open>Properties\<close>

text \<open>C8: splitting loses nothing: in any store that has the objects written on the way, the blob
  or tree \<open>split_to_blob_or_tree\<close> returns reads back as the concatenation of the splitter's blobs,
  in order, whatever levels the splitter chose.\<close>

theorem split_to_blob_or_tree_content:
  assumes "split_to_blob_or_tree blob_id tree_id tot sp = ((mode, i), w, tot')"
    and "holds has blob_id tree_id w" and "\<forall>(b, l)\<in>set sp. b \<noteq> []"
  shows "content has mode i (concat (map fst sp)) \<and> tot' = tot + length (concat (map fst sp))"
  using assms by (rule split_content)

definition witness_split :: "((int \<times> bytes) \<times> bytes obj list \<times> nat)" where
  "witness_split = split_to_blob_or_tree id (\<lambda>es. ''T'') 5 [(''a'', 1), (''b'', 0)]"

definition witness_has :: "bytes \<Rightarrow> bytes obj \<Rightarrow> bool" where
  "witness_has i ob \<longleftrightarrow> (i, ob) \<in> {(''a'', Blob ''a''), (''b'', Blob ''b''),
     (''T'', TreeObj [(GIT_MODE_FILE, ''0'', ''a''), (GIT_MODE_FILE, ''1'', ''b'')])}"

lemma witness_split_value:
  "witness_split = ((GIT_MODE_TREE, ''T''),
     [Blob ''a'', Blob ''b'', TreeObj [(GIT_MODE_FILE, ''0'', ''a''), (GIT_MODE_FILE, ''1'', ''b'')]], 7)"
  by code_simp

theorem split_to_blob_or_tree_content_witness:
  "content witness_has GIT_MODE_TREE ''T'' ''ab'' \<and> (7::nat) = 5 + 2"
  using split_to_blob_or_tree_content [OF witness_split_value [unfolded witness_split_def], of witness_has]
  by (simp add: holds_def witness_has_def)

text \<open>the trees it writes are already in git's order, so a reader that goes through them meets
  the chunks in file order: the names are the chunks' offsets, zero padded to one width.\<close>

theorem make_shalist_in_tree_order:
  assumes "\<forall>(m, i, sz)\<in>set l. 0 < sz" "make_shalist l = (shalist, n)"
  shows "sort_key shalist_item_sort_key shalist = shalist \<and> length shalist = length l \<and> n = chunks_size l"
proof -
  have "length (make_shalist_loop w ofs l) = length l" for w ofs
    by (induction l arbitrary: ofs) auto
  then show ?thesis
    using make_shalist_sorted [OF assms] assms(2)
    by (auto simp: sort_key_id_if_sorted make_shalist_def Let_def)
qed

theorem make_shalist_in_tree_order_witness:
  "sort_key shalist_item_sort_key [(GIT_MODE_FILE, ''00'', ()), (GIT_MODE_TREE, ''03'', ()), (GIT_MODE_FILE, ''0c'', ())] =
     [(GIT_MODE_FILE, ''00'', ()), (GIT_MODE_TREE, ''03'', ()), (GIT_MODE_FILE, ''0c'', ())]"
proof -
  have "make_shalist [(GIT_MODE_FILE, (), 3), (GIT_MODE_TREE, (), 9), (GIT_MODE_FILE, (), 4)] =
    ([(GIT_MODE_FILE, ''00'', ()), (GIT_MODE_TREE, ''03'', ()), (GIT_MODE_FILE, ''0c'', ())], 16)"
    by code_simp
  from make_shalist_in_tree_order [OF _ this] show ?thesis by simp
qed

end
