(* ===== verification/Tree_Stack.thy ===== *)
theory Tree_Stack
  imports Hash_Split "HOL-Library.AList"
begin

text \<open>
  \<open>lib/bup/tree.py\<close>: the stack of directories a save writes, with their metadata, and the
  splitting of large directories into trees of \<open>..N.bupd\<close> subtrees.  Object ids are opaque
  (\<open>'i\<close>), so is the metadata (\<open>'m\<close>); what the code calls outside this file is a field of
  \<open>tree_env\<close>.
\<close>

section \<open>Items\<close>

text \<open>What \<open>isinstance\<close> tells apart: a git mode, nothing, a \<open>LostMetadata\<close>, any other \<open>Metadata\<close>.\<close>

datatype 'm item_meta = MInt int | MNone | MLost 'm | MMeta 'm

text \<open>The class of an item; a \<open>SplitTreeItem\<close> carries its first and last full name.\<close>

datatype item_class = TreeItem | RawTreeItem | SplitTreeItem bytes bytes

record ('m, 'i) tree_item =
  ti_name :: bytes
  ti_mode :: int
  ti_gitmode :: int
  ti_oid :: 'i
  ti_meta :: "'m item_meta"
  ti_class :: item_class

record ('m, 'i) stack_dir =
  sd_name :: bytes
  sd_items :: "('m, 'i) tree_item list"
  sd_meta :: "'m item_meta"

text \<open>
  The repository's id functions, \<open>Metadata.encode\<close>, \<open>empty_metadata\<close>, the file splitter
  (\<open>from_config\<close>) and the record splitter (\<open>RecordHashSplitter\<close>, a state and its \<open>feed\<close>).
\<close>

record ('m, 'i, 's) tree_env =
  env_blob_id :: "bytes \<Rightarrow> 'i"
  env_tree_id :: "(int \<times> bytes \<times> 'i) list \<Rightarrow> 'i"
  env_encode :: "'m \<Rightarrow> bytes"
  env_empty :: 'm
  env_split :: "bytes \<Rightarrow> (bytes \<times> nat) list"
  env_feed :: "'s \<Rightarrow> bytes \<Rightarrow> bool \<times> 's"
  env_feed0 :: 's

definition meta_or_empty :: "'m \<Rightarrow> 'm item_meta \<Rightarrow> 'm item_meta" where
  "meta_or_empty e md = (case md of MNone \<Rightarrow> MMeta e | MInt n \<Rightarrow> if n = 0 then MMeta e else MInt n | _ \<Rightarrow> md)"

definition new_item ::
  "'m \<Rightarrow> item_class \<Rightarrow> bytes \<Rightarrow> int \<Rightarrow> int \<Rightarrow> 'i \<Rightarrow> 'm item_meta \<Rightarrow> ('m, 'i) tree_item" where
  "new_item e cls name mode gitmode i md =
     \<lparr>ti_name = name, ti_mode = mode, ti_gitmode = gitmode, ti_oid = i,
      ti_meta = meta_or_empty e md, ti_class = cls\<rparr>"

definition new_split_item :: "'m \<Rightarrow> bytes \<Rightarrow> 'i \<Rightarrow> bytes \<Rightarrow> bytes \<Rightarrow> ('m, 'i) tree_item" where
  "new_split_item e name treeid f l =
     new_item e (SplitTreeItem f l) name GIT_MODE_TREE GIT_MODE_TREE treeid MNone"

definition mangled_name :: "('m, 'i) tree_item \<Rightarrow> bytes res" where
  "mangled_name it =
     (case ti_class it of
        TreeItem \<Rightarrow> mangle_name (ti_name it) (ti_mode it) (ti_gitmode it)
      | _ \<Rightarrow> Inr (ti_name it))"

section \<open>Abbreviated names\<close>

text \<open>
  The trie of dicts; the back pointer under the key \<open>None\<close> is not stored, \<open>trie_size\<close> counts it
  (every level but the top one has it) and the loop goes back up along the name.
\<close>

datatype trie = Trie "(char \<times> trie) list"

fun trie_add :: "trie \<Rightarrow> bytes \<Rightarrow> trie" where
  "trie_add t [] = t"
| "trie_add (Trie d) (c # cs) =
     Trie (AList.update c (trie_add (case map_of d c of None \<Rightarrow> Trie [] | Some t \<Rightarrow> t) cs) d)"

fun trie_level :: "trie \<Rightarrow> bytes \<Rightarrow> trie option" where
  "trie_level t [] = Some t"
| "trie_level (Trie d) (c # cs) = (case map_of d c of None \<Rightarrow> None | Some t \<Rightarrow> trie_level t cs)"

definition trie_size :: "trie \<Rightarrow> bytes \<Rightarrow> nat" where
  "trie_size root p =
     (case trie_level root p of None \<Rightarrow> 0
      | Some (Trie d) \<Rightarrow> length d + (if p = [] then 0 else 1))"

function abbreviate_loop :: "trie \<Rightarrow> bytes \<Rightarrow> bytes res" where
  "abbreviate_loop root out =
     (if out = [] then Inl KeyError
      else
        let candidate = butlast out
        in if 2 < trie_size root candidate then Inr out
           else if candidate \<in> {[], ''.'', ''..''} then Inr out
           else abbreviate_loop root candidate)"
  by pat_completeness auto
termination by (relation "measure (length \<circ> snd)") auto

declare abbreviate_loop.simps [simp del]

definition abbreviate_tree_names :: "bytes list \<Rightarrow> bytes list res" where
  "abbreviate_tree_names names =
     (let abbrev = fold (\<lambda>n t. trie_add t n) names (Trie [])
      in res_map (abbreviate_loop abbrev) names)"

text \<open>Only split items have the full names; an item of another class is an \<open>AttributeError\<close>.\<close>

definition full_names :: "('m, 'i) tree_item \<Rightarrow> (bytes \<times> bytes) res" where
  "full_names it = (case ti_class it of SplitTreeItem f l \<Rightarrow> Inr (f, l) | _ \<Rightarrow> Inl TypeError)"

definition level_suffix :: "nat \<Rightarrow> bytes" where
  "level_suffix level = ''..'' @ show_int (int level) @ ''.bupd''"

definition abbreviate_item_names ::
  "('m, 'i) tree_item list \<Rightarrow> nat \<Rightarrow> ('m, 'i) tree_item list res" where
  "abbreviate_item_names items level =
     res_bind (res_map full_names items) (\<lambda>fl.
     res_bind (abbreviate_tree_names (map fst fl @ map snd (butlast fl))) (\<lambda>abbrevs.
     Inr (map2 (\<lambda>a it. it\<lparr>ti_name := a @ level_suffix level\<rparr>) (take (length items) abbrevs) items)))"

section \<open>Directory metadata\<close>

definition dir_meta_ent ::
  "'m \<Rightarrow> bool \<Rightarrow> bytes \<Rightarrow> 'm item_meta \<Rightarrow> ((bytes \<times> 'm) \<times> bool) res" where
  "dir_meta_ent e repair key md =
     (case md of
        MInt _ \<Rightarrow> Inr ((key, e), False)
      | MNone \<Rightarrow> Inr ((key, e), False)
      | MLost _ \<Rightarrow> if \<not> repair then Inl (Exc ''LostMetadata, but not repairing'') else Inr ((key, e), False)
      | MMeta d \<Rightarrow> Inr ((key, d), True))"

definition dir_metadata ::
  "'m \<Rightarrow> 'm item_meta \<Rightarrow> ('m, 'i) tree_item list \<Rightarrow> bool \<Rightarrow> (bytes \<times> 'm) list option res" where
  "dir_metadata e dir_meta items repair =
     res_bind (dir_meta_ent e repair [] dir_meta) (\<lambda>dot.
     res_bind (res_map (\<lambda>it. dir_meta_ent e repair
                  (shalist_item_sort_key (ti_mode it, ti_name it, ())) (ti_meta it))
                (filter (\<lambda>it. \<not> S_ISDIR (ti_mode it)) items)) (\<lambda>ents.
     Inr (if snd dot \<or> (\<exists>x\<in>set ents. snd x) then Some (map fst (dot # ents)) else None)))"

section \<open>Writing trees\<close>

definition item_entry :: "('m, 'i) tree_item \<Rightarrow> (int \<times> bytes \<times> 'i) res" where
  "item_entry it = res_bind (mangled_name it) (\<lambda>n. Inr (ti_gitmode it, n, ti_oid it))"

definition write_plain_tree ::
  "('m, 'i, 's) tree_env \<Rightarrow> ('m, 'i) tree_item list \<Rightarrow> ('i \<times> 'i obj list) res" where
  "write_plain_tree env items =
     res_bind (res_map item_entry items) (\<lambda>es. Inr (env_tree_id env es, [TreeObj es]))"

definition write_bupm_tree ::
  "('m, 'i, 's) tree_env \<Rightarrow> (bytes \<times> 'm) list \<Rightarrow> ('m, 'i) tree_item list \<Rightarrow> ('i \<times> 'i obj list) res" where
  "write_bupm_tree env metalist items =
     (let metadata = concat (map (env_encode env \<circ> snd) (sort_key fst metalist));
          ((mode, i), w, _) = split_to_blob_or_tree (env_blob_id env) (env_tree_id env) 0
                                (env_split env metadata)
      in res_bind (res_map item_entry items) (\<lambda>es.
           let shalist = (mode, ''.bupm'', i) # es
           in Inr (env_tree_id env shalist, w @ [TreeObj shalist])))"

definition write_tree ::
  "('m, 'i, 's) tree_env \<Rightarrow> bool \<Rightarrow> 'm item_meta \<Rightarrow> ('m, 'i) tree_item list \<Rightarrow> bool \<Rightarrow>
   ('i \<times> 'i obj list) res" where
  "write_tree env repair dir_meta items add_meta =
     (if \<not> add_meta then write_plain_tree env items
      else res_bind (dir_metadata (env_empty env) dir_meta items repair) (\<lambda>ml.
        case ml of
          None \<Rightarrow> write_plain_tree env items
        | Some metalist \<Rightarrow>
            if metalist = [] then write_plain_tree env items
            else write_bupm_tree env metalist items))"

text \<open>
  The grouping of \<open>_write_split_tree\<close>: the record splitter may end a group, but not after a
  single item; the last item ends the last group.
\<close>

fun group_items ::
  "('s \<Rightarrow> bytes \<Rightarrow> bool \<times> 's) \<Rightarrow> 's \<Rightarrow> ('m, 'i) tree_item list \<Rightarrow> ('m, 'i) tree_item list \<Rightarrow>
   ('m, 'i) tree_item list list" where
  "group_items feed h pending [] = []"
| "group_items feed h pending (item # items) =
     (let pending' = pending @ [item];
          (split, h') = feed h (ti_name item)
      in if split \<and> 1 < length pending' \<or> items = []
         then pending' # group_items feed h' [] items
         else group_items feed h' pending' items)"

definition split_groups :: "('m, 'i, 's) tree_env \<Rightarrow> ('m, 'i) tree_item list \<Rightarrow> ('m, 'i) tree_item list list" where
  "split_groups env items = group_items (env_feed env) (env_feed0 env) [] items"

text \<open>One subtree of a level, as the item of the next level up.\<close>

definition write_leaf ::
  "('m, 'i, 's) tree_env \<Rightarrow> bool \<Rightarrow> ('m, 'i) tree_item list \<Rightarrow> (('m, 'i) tree_item \<times> 'i obj list) res" where
  "write_leaf env repair g =
     res_bind (write_tree env repair MNone g True) (\<lambda>(i, w).
     Inr (new_split_item (env_empty env) (ti_name (hd g)) i (ti_name (hd g)) (ti_name (last g)), w))"

definition write_inner ::
  "('m, 'i, 's) tree_env \<Rightarrow> bool \<Rightarrow> nat \<Rightarrow> ('m, 'i) tree_item list \<Rightarrow> (('m, 'i) tree_item \<times> 'i obj list) res" where
  "write_inner env repair level g =
     res_bind (abbreviate_item_names g level) (\<lambda>g'.
     res_bind (write_tree env repair MNone g' False) (\<lambda>(i, w).
     res_bind (full_names (hd g')) (\<lambda>(f, _).
     res_bind (full_names (last g')) (\<lambda>(_, l).
     Inr (new_split_item (env_empty env) (ti_name (hd g')) i f l, w)))))"

lemma group_items_length:
  "group_items feed h pending items = gs \<Longrightarrow> items \<noteq> [] \<Longrightarrow>
    2 * length gs \<le> length pending + length items + 1"
proof (induction items arbitrary: h pending gs)
  case Nil
  then show ?case by simp
next
  case (Cons item items)
  obtain split h' where f: "feed h (ti_name item) = (split, h')" by (cases "feed h (ti_name item)")
  show ?case
  proof (cases "items = []")
    case True
    then have "gs = [pending @ [item]]" using Cons.prems(1) f by simp
    then show ?thesis using True by simp
  next
    case False
    show ?thesis
    proof (cases "split \<and> 1 < length (pending @ [item])")
      case True
      then obtain gs' where "gs = (pending @ [item]) # gs'" "group_items feed h' [] items = gs'"
        using Cons.prems(1) f by (auto simp: Let_def)
      then show ?thesis using Cons.IH [of h' "[]" gs'] True False by (cases pending) auto
    next
      case nsplit: False
      then have "group_items feed h' (pending @ [item]) items = gs"
        using Cons.prems(1) f False by (auto simp: Let_def split: if_splits)
      then show ?thesis using Cons.IH [of h' "pending @ [item]" gs] False by simp
    qed
  qed
qed

lemma split_groups_length: "items \<noteq> [] \<Longrightarrow> 2 * length (split_groups env items) \<le> length items + 1"
  using group_items_length [of "env_feed env" "env_feed0 env" "[]" items] by (simp add: split_groups_def)

lemma res_map_length: "res_map f xs = Inr ys \<Longrightarrow> length ys = length xs"
  by (auto simp: res_map_Inr_iff list_all2_lengthD)

function write_split_tree ::
  "('m, 'i, 's) tree_env \<Rightarrow> bool \<Rightarrow> 'm item_meta \<Rightarrow> ('m, 'i) tree_item list \<Rightarrow> nat \<Rightarrow>
   ('i \<times> 'i obj list \<times> nat) res" where
  "write_split_tree env repair dir_meta items level =
     (if items = [] then
        res_bind (write_tree env repair dir_meta items True) (\<lambda>(i, w). Inr (i, w, level))
      else
        let splits = split_groups env items
        in if length splits = 1 then
             res_bind (if 0 < level then abbreviate_item_names items level else Inr items) (\<lambda>items'.
             res_bind (write_tree env repair dir_meta items' True) (\<lambda>(i, w). Inr (i, w, level)))
           else
             res_bind (res_map (if level = 0 then write_leaf env repair else write_inner env repair level)
                        splits) (\<lambda>newtree.
             res_bind (py_assert (newtree \<noteq> [])) (\<lambda>_.
             res_bind (write_split_tree env repair dir_meta (map fst newtree) (level + 1)) (\<lambda>(i, w, lv).
             Inr (i, concat (map snd newtree) @ w, lv)))))"
  by pat_completeness auto
termination
proof (relation "measure (\<lambda>(env, repair, dm, items, level). length items)", goal_cases)
  case 1
  then show ?case by simp
next
  case (2 env repair dm items level splits newtree x)
  then have "length newtree = length splits" by (simp add: res_map_length)
  moreover have "0 < length items" using 2 by simp
  moreover have "length splits \<noteq> 1" using 2 by simp
  moreover have "2 * length splits \<le> length items + 1" using 2 split_groups_length [of items env] by simp
  ultimately have "length newtree < length items" by linarith
  then show ?case by simp
qed

declare write_split_tree.simps [simp del]

section \<open>The stack\<close>

text \<open>
  A \<open>Stack\<close>: the top is the last element.  \<open>stk_errors\<close> counts the calls of \<open>add_error\<close>,
  \<open>stk_written\<close> is the trace of the objects written.
\<close>

record ('m, 'i) tree_stack =
  stk_dirs :: "('m, 'i) stack_dir list"
  stk_trees :: bool
  stk_repair :: bool
  stk_errors :: nat
  stk_written :: "'i obj list"

definition stack_path :: "('m, 'i) tree_stack \<Rightarrow> bytes list" where
  "stack_path st = map sd_name (stk_dirs st)"

definition stack_push :: "bytes \<Rightarrow> 'm item_meta \<Rightarrow> ('m, 'i) tree_stack \<Rightarrow> ('m, 'i) tree_stack" where
  "stack_push name md st = st\<lparr>stk_dirs := stk_dirs st @ [\<lparr>sd_name = name, sd_items = [], sd_meta = md\<rparr>]\<rparr>"

fun clean_loop :: "bytes set \<Rightarrow> ('m, 'i) tree_item list \<Rightarrow> ('m, 'i) tree_item list \<times> nat" where
  "clean_loop seen [] = ([], 0)"
| "clean_loop seen (it # its) =
     (if ti_name it \<in> seen then (let (r, n) = clean_loop seen its in (r, Suc n))
      else (let (r, n) = clean_loop (insert (ti_name it) seen) its in (it # r, n)))"

definition stack_write ::
  "('m, 'i, 's) tree_env \<Rightarrow> ('m, 'i) stack_dir \<Rightarrow> ('m, 'i) tree_stack \<Rightarrow> ('i \<times> ('m, 'i) tree_stack) res" where
  "stack_write env d st =
     (let (items, n) = clean_loop {} (sd_items d);
          st' = st\<lparr>stk_errors := stk_errors st + n\<rparr>
      in if \<not> stk_trees st then
           res_bind (write_tree env (stk_repair st) (sd_meta d) items True) (\<lambda>(i, w).
           Inr (i, st'\<lparr>stk_written := stk_written st @ w\<rparr>))
         else
           res_bind (write_split_tree env (stk_repair st) (sd_meta d) (sort_key ti_name items) 0)
             (\<lambda>(i, w, _). Inr (i, st'\<lparr>stk_written := stk_written st @ w\<rparr>)))"

definition append_to_current ::
  "('m, 'i, 's) tree_env \<Rightarrow> bytes \<Rightarrow> int \<Rightarrow> int \<Rightarrow> 'i \<Rightarrow> 'm item_meta \<Rightarrow> ('m, 'i) tree_stack \<Rightarrow>
   ('m, 'i) tree_stack res" where
  "append_to_current env name mode gitmode i md st =
     (if stk_dirs st = [] then Inl IndexError
      else
        let d = last (stk_dirs st);
            d' = d\<lparr>sd_items := sd_items d @ [new_item (env_empty env) TreeItem name mode gitmode i md]\<rparr>
        in Inr (st\<lparr>stk_dirs := butlast (stk_dirs st) @ [d']\<rparr>))"

definition stack_pop ::
  "('m, 'i, 's) tree_env \<Rightarrow> 'i option \<Rightarrow> 'm item_meta option \<Rightarrow> ('m, 'i) tree_stack \<Rightarrow>
   ('i \<times> ('m, 'i) tree_stack) res" where
  "stack_pop env override_tree override_meta st =
     (if stk_dirs st = [] then Inl IndexError
      else
        let d0 = last (stk_dirs st);
            st1 = st\<lparr>stk_dirs := butlast (stk_dirs st)\<rparr>;
            d = (case override_meta of None \<Rightarrow> d0 | Some md \<Rightarrow> d0\<lparr>sd_meta := md\<rparr>)
        in res_bind (case override_tree of None \<Rightarrow> stack_write env d st1 | Some i \<Rightarrow> Inr (i, st1))
             (\<lambda>(i, st2).
               if stk_dirs st2 \<noteq> [] then
                 res_bind (append_to_current env (sd_name d) GIT_MODE_TREE GIT_MODE_TREE i MNone st2)
                   (\<lambda>st3. Inr (i, st3))
               else Inr (i, st2)))"

section \<open>Abbreviations stay apart\<close>

definition trie_has :: "trie \<Rightarrow> bytes \<Rightarrow> bool" where
  "trie_has t p \<longleftrightarrow> trie_level t p \<noteq> None"

lemma trie_has_simps [simp]:
  "trie_has t []" "trie_has (Trie d) (c # p) \<longleftrightarrow> (\<exists>t. map_of d c = Some t \<and> trie_has t p)"
  by (auto simp: trie_has_def split: option.splits)

lemma trie_has_add: "trie_has t q \<or> prefix q n \<Longrightarrow> trie_has (trie_add t n) q"
proof (induction t n arbitrary: q rule: trie_add.induct)
  case (1 t)
  then show ?case by auto
next
  case (2 d c cs)
  show ?case
  proof (cases q)
    case Nil
    then show ?thesis by simp
  next
    case (Cons e q')
    show ?thesis
      using "2.prems" "2.IH" [of q'] Cons
      by (cases "map_of d c") (auto simp: update_conv' simp del: update_Some_unfold)
  qed
qed

lemma trie_has_build:
  "trie_has t q \<or> (\<exists>n\<in>set names. prefix q n) \<Longrightarrow> trie_has (fold (\<lambda>n t. trie_add t n) names t) q"
  by (induction names arbitrary: t) (auto intro: trie_has_add)

lemma trie_has_snoc:
  "trie_has t (p @ [c]) \<Longrightarrow> \<exists>d. trie_level t p = Some (Trie d) \<and> c \<in> fst ` set d"
proof (induction t p rule: trie_level.induct)
  case (1 t)
  then show ?case by (cases t) (force dest: map_of_SomeD)
next
  case (2 d e cs)
  then show ?case by (auto split: option.splits)
qed

lemma trie_size_branch:
  assumes "trie_has t (p @ [c])" "trie_has t (p @ [d])" "c \<noteq> d" "p \<noteq> []"
  shows "2 < trie_size t p"
proof -
  obtain m where m: "trie_level t p = Some (Trie m)" "c \<in> fst ` set m"
    using trie_has_snoc [OF assms(1)] by blast
  moreover have "d \<in> fst ` set m" using trie_has_snoc [OF assms(2)] m(1) by auto
  ultimately have "card {c, d} \<le> card (fst ` set m)" by (intro card_mono) auto
  also have "\<dots> \<le> length m" using card_image_le [of "set m" fst] card_length [of m] by simp
  finally show ?thesis using assms m by (simp add: trie_size_def)
qed

lemma abbreviate_loop_ok:
  "out \<noteq> [] \<Longrightarrow> \<exists>a. abbreviate_loop root out = Inr a \<and> prefix a out \<and> a \<noteq> [] \<and>
    (a = out \<or> a \<noteq> ''.'' \<and> a \<noteq> ''..'') \<and>
    (\<forall>p c. prefix (p @ [c]) out \<and> (p = [] \<or> 2 < trie_size root p) \<longrightarrow> prefix (p @ [c]) a)"
proof (induction root out rule: abbreviate_loop.induct)
  case (1 root out)
  show ?case
  proof (cases "2 < trie_size root (butlast out) \<or> butlast out \<in> {[], ''.'', ''..''}")
    case True
    then have "abbreviate_loop root out = Inr out"
      using "1.prems" by (subst abbreviate_loop.simps) (auto simp: Let_def)
    then show ?thesis using "1.prems" by auto
  next
    case False
    then have eq: "abbreviate_loop root out = abbreviate_loop root (butlast out)"
      using "1.prems" by (subst abbreviate_loop.simps) auto
    obtain a where a: "abbreviate_loop root (butlast out) = Inr a" "prefix a (butlast out)" "a \<noteq> []"
      "a = butlast out \<or> a \<noteq> ''.'' \<and> a \<noteq> ''..''"
      "\<forall>p c. prefix (p @ [c]) (butlast out) \<and> (p = [] \<or> 2 < trie_size root p) \<longrightarrow> prefix (p @ [c]) a"
      using "1.IH" "1.prems" False by blast
    have "prefix (p @ [c]) (butlast out)"
      if "prefix (p @ [c]) out" "p = [] \<or> 2 < trie_size root p" for p c
    proof -
      have "p \<noteq> butlast out" using that(2) False by auto
      moreover have "out = butlast out @ [last out]" using "1.prems" by simp
      ultimately show ?thesis using that(1) by (metis butlast_snoc prefix_snoc)
    qed
    moreover have "prefix (butlast out) out" by (simp add: prefixeq_butlast)
    ultimately show ?thesis using eq a False by (auto intro: prefix_order.trans)
  qed
qed

lemma longest_common_split:
  assumes "\<not> prefix xs ys" "\<not> prefix ys xs"
  shows "\<exists>p c d xs' ys'. xs = p @ c # xs' \<and> ys = p @ d # ys' \<and> c \<noteq> d"
  using parallel_decomp [of xs ys] assms by auto

text \<open>the abbreviations of distinct names none of which starts another one are distinct,
  non-empty prefixes of the names (so the subtrees of a split directory get different names).\<close>

theorem abbreviate_tree_names_unique:
  assumes "[] \<notin> set names" "distinct names" "\<forall>m\<in>set names. \<forall>n\<in>set names. prefix m n \<longrightarrow> m = n"
  shows "\<exists>outs. abbreviate_tree_names names = Inr outs \<and> distinct outs \<and>
    list_all2 (\<lambda>a n. prefix a n \<and> a \<noteq> [] \<and> (a = n \<or> a \<noteq> ''.'' \<and> a \<noteq> ''..'')) outs names"
proof -
  define root where "root = fold (\<lambda>n t. trie_add t n) names (Trie [])"
  define abbr where "abbr n = (case abbreviate_loop root n of Inr a \<Rightarrow> a | Inl _ \<Rightarrow> [])" for n
  have ok: "abbreviate_loop root n = Inr (abbr n) \<and> prefix (abbr n) n \<and> abbr n \<noteq> [] \<and>
    (abbr n = n \<or> abbr n \<noteq> ''.'' \<and> abbr n \<noteq> ''..'') \<and>
    (\<forall>p c. prefix (p @ [c]) n \<and> (p = [] \<or> 2 < trie_size root p) \<longrightarrow> prefix (p @ [c]) (abbr n))"
    if n: "n \<in> set names" for n
  proof -
    have "n \<noteq> []" using assms(1) n by auto
    from abbreviate_loop_ok [OF this, of root] show ?thesis by (elim exE conjE) (simp add: abbr_def)
  qed
  have "abbr m \<noteq> abbr n" if mn: "m \<in> set names" "n \<in> set names" "m \<noteq> n" for m n
  proof -
    obtain p c d m' n' where pc: "m = p @ c # m'" "n = p @ d # n'" "c \<noteq> d"
      using longest_common_split [of m n] assms(3) mn by metis
    have pre: "prefix (p @ [c]) m" "prefix (p @ [d]) n" using pc by (simp_all add: prefix_def)
    have has: "trie_has root (p @ [c])" "trie_has root (p @ [d])"
      unfolding root_def using pre mn by (auto intro!: trie_has_build)
    have "p = [] \<or> 2 < trie_size root p" using trie_size_branch [OF has pc(3)] by blast
    then have "prefix (p @ [c]) (abbr m)" "prefix (p @ [d]) (abbr n)" using ok mn pre by blast+
    then show ?thesis using pc(3) by (auto simp: prefix_def)
  qed
  then have "inj_on abbr (set names)" by (auto simp: inj_on_def)
  moreover have "abbreviate_tree_names names = Inr (map abbr names)"
    using ok by (simp add: abbreviate_tree_names_def Let_def root_def [symmetric] res_map_all_Inr)
  ultimately show ?thesis
    using ok assms(2) by (auto simp: distinct_map list_all2_map1 intro!: list.rel_refl_strong)
qed

theorem abbreviate_tree_names_unique_witness:
  "\<exists>outs. abbreviate_tree_names [''.bab'', ''jj'', ''jk'', ''..x''] = Inr outs \<and> distinct outs"
proof -
  have "[] \<notin> set [''.bab'', ''jj'', ''jk'', ''..x'']" "distinct [''.bab'', ''jj'', ''jk'', ''..x'']"
    "\<forall>m\<in>set [''.bab'', ''jj'', ''jk'', ''..x'']. \<forall>n\<in>set [''.bab'', ''jj'', ''jk'', ''..x'']. prefix m n \<longrightarrow> m = n"
    by simp_all
  from abbreviate_tree_names_unique [OF this] show ?thesis by blast
qed

section \<open>Reading a split tree back\<close>

text \<open>Without its \<open>.bupm\<close>, which is always the first entry handed to \<open>write_tree\<close>.\<close>

definition drop_bupm :: "(int \<times> bytes \<times> 'i) list \<Rightarrow> (int \<times> bytes \<times> 'i) list" where
  "drop_bupm es = (case es of [] \<Rightarrow> [] | e # r \<Rightarrow> if fst (snd e) = ''.bupm'' then r else es)"

text \<open>The entries at the leaves of a tree split \<open>n\<close> times, in order.\<close>

fun split_read :: "('i \<Rightarrow> 'i obj option) \<Rightarrow> nat \<Rightarrow> 'i \<Rightarrow> (int \<times> bytes \<times> 'i) list option" where
  "split_read get 0 i = (case get i of Some (TreeObj es) \<Rightarrow> Some (drop_bupm es) | _ \<Rightarrow> None)"
| "split_read get (Suc n) i =
     (case get i of
        Some (TreeObj es) \<Rightarrow>
          map_option concat (those (map (\<lambda>e. split_read get n (snd (snd e))) (drop_bupm es)))
      | _ \<Rightarrow> None)"

lemma concat_map_concat: "concat (map r (concat gs)) = concat (map (\<lambda>g. concat (map r g)) gs)"
  by (induction gs) auto

lemma those_map_Some: "(\<And>x. x \<in> set xs \<Longrightarrow> f x = Some (r x)) \<Longrightarrow> those (map f xs) = Some (map r xs)"
  by (induction xs) auto

lemma item_entry_Inr:
  "item_entry it = Inr e \<longleftrightarrow> (\<exists>n. mangled_name it = Inr n \<and> e = (ti_gitmode it, n, ti_oid it))"
  by (auto simp: item_entry_def res_simps)

lemma bup_suffix_not_bupm: "name @ ''.bup'' \<noteq> ''.bupm''" "name @ ''.bupl'' \<noteq> ''.bupm''"
proof -
  have "last (name @ ''.bup'') \<noteq> last ''.bupm''" "last (name @ ''.bupl'') \<noteq> last ''.bupm''" by simp_all
  then show "name @ ''.bup'' \<noteq> ''.bupm''" "name @ ''.bupl'' \<noteq> ''.bupm''" by metis+
qed

lemma mangle_not_bupm:
  assumes "mangle_name name mode gm = Inr n"
  shows "n \<noteq> ''.bupm''"
proof
  assume n: "n = ''.bupm''"
  have "n = name @ ''.bup'' \<or> n = name @ ''.bupl'' \<or> n = name \<and> \<not> suffix ''.bup'' (butlast name)"
    using assms by (auto simp: mangle_name_def res_simps split: if_splits)
  moreover have "suffix ''.bup'' (butlast ''.bupm'')" by simp
  ultimately show False using n bup_suffix_not_bupm by metis
qed

definition bupm_free :: "('m, 'i) tree_item list \<Rightarrow> bool" where
  "bupm_free items \<longleftrightarrow> (\<forall>it\<in>set items. mangled_name it \<noteq> Inr ''.bupm'')"

lemma drop_bupm_entries:
  assumes "res_map item_entry items = Inr es" "bupm_free items"
  shows "drop_bupm es = es"
  using assms
  by (auto simp: drop_bupm_def bupm_free_def res_map_Inr_iff list_all2_Cons2 item_entry_Inr split: list.splits)

lemma write_plain_tree_ok:
  assumes "write_plain_tree env items = Inr (i, w)" "holds (in_store get) (env_blob_id env) (env_tree_id env) w" "bupm_free items"
  shows "\<exists>es tl. res_map item_entry items = Inr es \<and> get i = Some (TreeObj tl) \<and> drop_bupm tl = es"
  using assms drop_bupm_entries by (auto simp: write_plain_tree_def res_simps)

lemma write_bupm_tree_ok:
  assumes "write_bupm_tree env ml items = Inr (i, w)" "holds (in_store get) (env_blob_id env) (env_tree_id env) w"
  shows "\<exists>es tl. res_map item_entry items = Inr es \<and> get i = Some (TreeObj tl) \<and> drop_bupm tl = es"
proof -
  define sp where "sp = split_to_blob_or_tree (env_blob_id env) (env_tree_id env) 0
    (env_split env (concat (map (env_encode env \<circ> snd) (sort_key fst ml))))"
  obtain mode j w1 n where sp: "sp = ((mode, j), w1, n)" by (cases sp) auto
  have "res_bind (res_map item_entry items)
      (\<lambda>es. Inr (env_tree_id env ((mode, ''.bupm'', j) # es), w1 @ [TreeObj ((mode, ''.bupm'', j) # es)])) = Inr (i, w)"
    using assms(1) by (simp add: write_bupm_tree_def Let_def sp_def [symmetric] sp)
  then show ?thesis using assms(2) by (auto simp: drop_bupm_def res_bind_Inr_iff)
qed

lemma write_tree_cases:
  assumes "write_tree env repair md items am = Inr (i, w)"
  shows "write_plain_tree env items = Inr (i, w) \<or> (\<exists>ml. write_bupm_tree env ml items = Inr (i, w))"
proof (cases am)
  case False
  then show ?thesis using assms by (simp add: write_tree_def)
next
  case True
  then obtain ml where ml: "dir_metadata (env_empty env) md items repair = Inr ml"
    using assms by (cases "dir_metadata (env_empty env) md items repair") (simp_all add: write_tree_def)
  show ?thesis
  proof (cases "ml = None \<or> ml = Some []")
    case True
    then show ?thesis using assms ml \<open>am\<close> by (auto simp: write_tree_def)
  next
    case False
    then obtain m where "ml = Some m" "m \<noteq> []" by auto
    then show ?thesis using assms ml \<open>am\<close> by (intro disjI2 exI [of _ m]) (simp add: write_tree_def)
  qed
qed

lemma write_tree_ok:
  assumes "write_tree env repair md items am = Inr (i, w)"
    "holds (in_store get) (env_blob_id env) (env_tree_id env) w" "bupm_free items"
  shows "\<exists>es tl. res_map item_entry items = Inr es \<and> get i = Some (TreeObj tl) \<and> drop_bupm tl = es"
  using write_tree_cases [OF assms(1)]
proof (elim disjE exE)
  assume "write_plain_tree env items = Inr (i, w)"
  then show ?thesis using assms(2,3) by (rule write_plain_tree_ok)
next
  fix ml assume "write_bupm_tree env ml items = Inr (i, w)"
  then show ?thesis using assms(2) by (rule write_bupm_tree_ok)
qed

text \<open>What an item stands for: itself at level 0, the leaves of its subtree above.\<close>

definition item_read ::
  "('i \<Rightarrow> 'i obj option) \<Rightarrow> nat \<Rightarrow> ('m, 'i) tree_item \<Rightarrow> (int \<times> bytes \<times> 'i) list option" where
  "item_read get level it =
     (case level of
        0 \<Rightarrow> (case item_entry it of Inr e \<Rightarrow> Some [e] | Inl _ \<Rightarrow> None)
      | Suc n \<Rightarrow> split_read get n (ti_oid it))"

lemma item_entry_map:
  "res_map item_entry items = Inr es \<Longrightarrow> it \<in> set items \<Longrightarrow>
    \<exists>n. item_entry it = Inr (ti_gitmode it, n, ti_oid it)"
  by (force simp: res_map_Inr_iff list_all2_conv_all_nth in_set_conv_nth item_entry_Inr)

text \<open>A tree of items reads as what the items stand for.\<close>

lemma split_read_tree:
  assumes "res_map item_entry items = Inr es" "get i = Some (TreeObj tr)" "drop_bupm tr = es"
    and "\<And>it. it \<in> set items \<Longrightarrow> item_read get level it = Some (r it)"
  shows "split_read get level i = Some (concat (map r items))"
proof (cases level)
  case 0
  have *: "r it = [e]" if "it \<in> set items" "item_entry it = Inr e" for it e
    using assms(4) [OF that(1)] that(2) 0 by (simp add: item_read_def)
  have "list_all2 (\<lambda>it e. item_entry it = Inr e) items es" using assms(1) by (simp add: res_map_Inr_iff)
  then have "list_all2 (\<lambda>it e. r it = [e]) items es" by (rule list.rel_mono_strong) (auto intro: *)
  then have "concat (map r items) = es" by (induction rule: list_all2_induct) auto
  then show ?thesis using assms(2,3) 0 by simp
next
  case (Suc n)
  have "map (\<lambda>e. snd (snd e)) es = map ti_oid items"
    using assms(1) by (induction items arbitrary: es) (auto simp: res_simps item_entry_Inr)
  then have "map (\<lambda>e. split_read get n (snd (snd e))) es = map (\<lambda>it. split_read get n (ti_oid it)) items"
    by (metis (no_types, lifting) list.map_comp comp_def map_eq_conv)
  moreover have "those (map (\<lambda>it. split_read get n (ti_oid it)) items) = Some (map r items)"
    using assms(4) Suc by (intro those_map_Some) (auto simp: item_read_def)
  ultimately show ?thesis using assms(2,3) Suc by simp
qed

lemma concat_group_items:
  "items \<noteq> [] \<Longrightarrow> concat (group_items feed h pending items) = pending @ items"
proof (induction items arbitrary: h pending)
  case (Cons item items)
  obtain split h' where f: "feed h (ti_name item) = (split, h')" by (cases "feed h (ti_name item)")
  show ?case
    using Cons.IH [of h' "[]"] Cons.IH [of h' "pending @ [item]"]
    by (cases "items = []") (auto simp: f Let_def)
qed simp

lemma group_items_not_Nil: "g \<in> set (group_items feed h pending items) \<Longrightarrow> g \<noteq> []"
proof (induction items arbitrary: h pending)
  case (Cons item items)
  obtain split h' where f: "feed h (ti_name item) = (split, h')" by (cases "feed h (ti_name item)")
  show ?case
    using Cons.IH [of h' "[]"] Cons.IH [of h' "pending @ [item]"] Cons.prems
    by (auto simp: f Let_def split: if_splits)
qed simp

lemma split_groups_concat: "items \<noteq> [] \<Longrightarrow> concat (split_groups env items) = items"
  by (simp add: split_groups_def concat_group_items)

lemma split_groups_not_Nil: "g \<in> set (split_groups env items) \<Longrightarrow> g \<noteq> []"
  by (auto simp: split_groups_def dest: group_items_not_Nil)

lemma holds_concat: "holds get bi ti (concat ws) \<longleftrightarrow> (\<forall>w\<in>set ws. holds get bi ti w)"
  by (induction ws) auto

lemma full_names_Inr: "full_names it = Inr x \<longleftrightarrow> (\<exists>f l. ti_class it = SplitTreeItem f l \<and> x = (f, l))"
  by (auto simp: full_names_def split: item_class.splits)

definition renamed :: "nat \<Rightarrow> ('m, 'i) tree_item \<Rightarrow> ('m, 'i) tree_item \<Rightarrow> bool" where
  "renamed level a b \<longleftrightarrow> (\<exists>p f l. b = a\<lparr>ti_name := p @ level_suffix level\<rparr> \<and> ti_class a = SplitTreeItem f l)"

lemma abbreviate_item_names_renamed:
  assumes "abbreviate_item_names items level = Inr items'"
  shows "list_all2 (renamed level) items items'"
proof -
  obtain fl ab where fl: "res_map full_names items = Inr fl"
    and ab: "abbreviate_tree_names (map fst fl @ map snd (butlast fl)) = Inr ab"
    and items': "items' = map2 (\<lambda>a it. it\<lparr>ti_name := a @ level_suffix level\<rparr>) (take (length items) ab) items"
    using assms by (auto simp: abbreviate_item_names_def res_simps)
  have "length ab = length (map fst fl @ map snd (butlast fl))"
    using ab by (auto simp: abbreviate_tree_names_def Let_def dest: res_map_length)
  then have "length (take (length items) ab) = length items"
    using res_map_length [OF fl] by simp
  moreover have "\<exists>f l. ti_class it = SplitTreeItem f l" if "it \<in> set items" for it
    using fl that unfolding res_map_Inr_iff list_all2_conv_all_nth in_set_conv_nth
    by (metis full_names_Inr)
  ultimately show ?thesis
    unfolding items' list_all2_conv_all_nth by (auto simp: renamed_def)
qed

lemma renamed_read: "renamed level a b \<Longrightarrow> 0 < level \<Longrightarrow> item_read get level b = item_read get level a"
  by (auto simp: renamed_def item_read_def split: nat.splits)

lemma renamed_not_bupm:
  assumes "renamed level a b"
  shows "mangled_name b \<noteq> Inr ''.bupm''"
proof -
  obtain p f l where "b = a\<lparr>ti_name := p @ level_suffix level\<rparr>" "ti_class a = SplitTreeItem f l"
    using assms by (auto simp: renamed_def)
  then have "mangled_name b = Inr (p @ level_suffix level)" by (simp add: mangled_name_def)
  moreover have "last (p @ level_suffix level) \<noteq> last ''.bupm''" by (simp add: level_suffix_def)
  ultimately show ?thesis by (metis sum.inject(2))
qed

lemma renamed_bupm_free: "list_all2 (renamed level) items items' \<Longrightarrow> bupm_free items'"
  unfolding bupm_free_def by (induction rule: list_all2_induct) (auto dest: renamed_not_bupm)

lemma renamed_map_read:
  "list_all2 (renamed level) items items' \<Longrightarrow> 0 < level \<Longrightarrow>
    map (item_read get level) items' = map (item_read get level) items"
  by (induction rule: list_all2_induct) (auto simp: renamed_read)

lemma plain_bupm_free: "\<forall>it\<in>set items. ti_class it = TreeItem \<Longrightarrow> bupm_free items"
  unfolding bupm_free_def mangled_name_def by (auto dest: mangle_not_bupm)

text \<open>A group of items, written as one tree, reads as the items do.\<close>

lemma write_group_ok:
  fixes items items' :: "('m, 'i) tree_item list"
  assumes "write_tree env repair md items' am = Inr (i, w)" "holds (in_store get) (env_blob_id env) (env_tree_id env) w"
    and "map (item_read get level) items' = map (Some \<circ> r) items" "bupm_free items'"
  shows "split_read get level i = Some (concat (map r items))"
proof -
  define r' where "r' it = the (item_read get level it)" for it :: "('m, 'i) tree_item"
  have r': "map r' items' = map r items"
    using arg_cong [OF assms(3), of "map the"] by (simp add: r'_def [abs_def] comp_def)
  have "item_read get level it = Some (r' it)" if "it \<in> set items'" for it
  proof -
    have "item_read get level it \<in> set (map (Some \<circ> r) items)" using assms(3) that by (metis image_eqI set_map)
    then show ?thesis by (auto simp: r'_def)
  qed
  moreover obtain es tr where "res_map item_entry items' = Inr es" "get i = Some (TreeObj tr)" "drop_bupm tr = es"
    using write_tree_ok [OF assms(1,2,4)] by blast
  ultimately show ?thesis using split_read_tree [of items' es get i tr level r'] r' by simp
qed

lemma write_leaf_ok:
  assumes "write_leaf env repair g = Inr (it, w)" "holds (in_store get) (env_blob_id env) (env_tree_id env) w"
    and "\<forall>x\<in>set g. ti_class x = TreeItem" "\<forall>x\<in>set g. item_read get 0 x = Some (r x)"
  shows "item_read get 1 it = Some (concat (map r g))"
proof -
  obtain i where w: "write_tree env repair MNone g True = Inr (i, w)" and it: "ti_oid it = i"
    using assms(1) by (auto simp: write_leaf_def res_simps new_split_item_def new_item_def)
  have m: "map (item_read get 0) g = map (Some \<circ> r) g" using assms(4) by simp
  have "split_read get 0 i = Some (concat (map r g))"
    by (rule write_group_ok [OF w assms(2) m plain_bupm_free [OF assms(3)]])
  then show ?thesis using it by (simp add: item_read_def)
qed

lemma write_inner_ok:
  assumes "write_inner env repair level g = Inr (it, w)" "holds (in_store get) (env_blob_id env) (env_tree_id env) w"
    and "0 < level" "\<forall>x\<in>set g. item_read get level x = Some (r x)"
  shows "item_read get (Suc level) it = Some (concat (map r g))"
proof -
  obtain g' i where g': "abbreviate_item_names g level = Inr g'"
    and w: "write_tree env repair MNone g' False = Inr (i, w)" and it: "ti_oid it = i"
  proof -
    obtain g' where g': "abbreviate_item_names g level = Inr g'"
      using assms(1) by (cases "abbreviate_item_names g level") (simp_all add: write_inner_def)
    obtain i w' where w: "write_tree env repair MNone g' False = Inr (i, w')"
      using assms(1) g' by (cases "write_tree env repair MNone g' False") (auto simp: write_inner_def)
    obtain f1 l1 where f1: "full_names (hd g') = Inr (f1, l1)"
      using assms(1) g' w by (cases "full_names (hd g')") (auto simp: write_inner_def)
    obtain f2 l2 where f2: "full_names (last g') = Inr (f2, l2)"
      using assms(1) g' w f1 by (cases "full_names (last g')") (auto simp: write_inner_def)
    have "w' = w" "ti_oid it = i"
      using assms(1) g' w f1 f2 by (auto simp: write_inner_def new_split_item_def new_item_def)
    with g' w show thesis using that by simp
  qed
  note ren = abbreviate_item_names_renamed [OF g']
  have "map (item_read get level) g' = map (Some \<circ> r) g"
    using renamed_map_read [OF ren assms(3)] assms(4) by simp
  then have "split_read get level i = Some (concat (map r g))"
    using write_group_ok [OF w assms(2)] renamed_bupm_free [OF ren] by blast
  then show ?thesis using it by (simp add: item_read_def)
qed

lemma split_trees_ok:
  assumes "res_map (if level = 0 then write_leaf env repair else write_inner env repair level) gs = Inr newtree"
    and "holds (in_store get) (env_blob_id env) (env_tree_id env) (concat (map snd newtree))"
    and "level = 0 \<longrightarrow> (\<forall>it\<in>set (concat gs). ti_class it = TreeItem)"
    and "\<forall>it\<in>set (concat gs). item_read get level it = Some (r it)"
  shows "map (item_read get (Suc level)) (map fst newtree) = map (\<lambda>g. Some (concat (map r g))) gs"
proof -
  have "list_all2 (\<lambda>g n. (if level = 0 then write_leaf env repair else write_inner env repair level) g = Inr n) gs newtree"
    using assms(1) by (simp add: res_map_Inr_iff)
  then show ?thesis
    using assms(2,3,4)
  proof (induction rule: list_all2_induct)
    case Nil
    then show ?case by simp
  next
    case (Cons g gs n ns)
    have "item_read get (Suc level) (fst n) = Some (concat (map r g))"
    proof (cases "level = 0")
      case True
      then show ?thesis using write_leaf_ok [of env repair g "fst n" "snd n" get r] Cons by auto
    next
      case False
      then show ?thesis using write_inner_ok [of env repair level g "fst n" "snd n" get r] Cons by auto
    qed
    then show ?case using Cons by simp
  qed
qed

lemma write_split_tree_unfold:
  "write_split_tree env repair md [] level =
    res_bind (write_tree env repair md [] True) (\<lambda>(i, w). Inr (i, w, level))"
  "items \<noteq> [] \<Longrightarrow> length (split_groups env items) = 1 \<Longrightarrow>
    write_split_tree env repair md items level =
      res_bind (if 0 < level then abbreviate_item_names items level else Inr items) (\<lambda>items'.
      res_bind (write_tree env repair md items' True) (\<lambda>(i, w). Inr (i, w, level)))"
  "items \<noteq> [] \<Longrightarrow> length (split_groups env items) \<noteq> 1 \<Longrightarrow>
    write_split_tree env repair md items level =
      res_bind (res_map (if level = 0 then write_leaf env repair else write_inner env repair level)
                 (split_groups env items)) (\<lambda>newtree.
      res_bind (py_assert (newtree \<noteq> [])) (\<lambda>_.
      res_bind (write_split_tree env repair md (map fst newtree) (level + 1)) (\<lambda>(i, w, lv).
      Inr (i, concat (map snd newtree) @ w, lv))))"
  by (subst write_split_tree.simps, simp)+

lemma write_split_tree_ok:
  fixes env :: "('m, 'i, 's) tree_env" and items :: "('m, 'i) tree_item list"
  assumes "write_split_tree env repair md items level = Inr (i, w, lv)"
    "holds (in_store get) (env_blob_id env) (env_tree_id env) w"
    "level = 0 \<longrightarrow> (\<forall>it\<in>set items. ti_class it = TreeItem)"
    "map (item_read get level) items = map (Some \<circ> r) items"
  shows "split_read get lv i = Some (concat (map r items))"
  using assms
proof (induction env repair md items level arbitrary: i w lv r rule: write_split_tree.induct)
  case (1 env repair md items level)
  consider (empty) "items = []" | (one) "items \<noteq> []" "length (split_groups env items) = 1"
    | (more) "items \<noteq> []" "length (split_groups env items) \<noteq> 1" by blast
  then show ?case
  proof cases
    case empty
    then have w: "write_tree env repair md items True = Inr (i, w)" "lv = level"
      using "1.prems"(1) unfolding empty write_split_tree_unfold(1) res_bind_Inr_iff by auto
    then show ?thesis using write_group_ok [OF w(1) "1.prems"(2,4)] empty by (simp add: bupm_free_def)
  next
    case one
    then obtain items' where ab: "(if 0 < level then abbreviate_item_names items level else Inr items) = Inr items'"
      and w: "write_tree env repair md items' True = Inr (i, w)" "lv = level"
      using "1.prems"(1) unfolding write_split_tree_unfold(2) [OF one] res_bind_Inr_iff by auto
    have "bupm_free items' \<and> map (item_read get level) items' = map (Some \<circ> r) items"
    proof (cases "level = 0")
      case True
      then show ?thesis using ab plain_bupm_free "1.prems"(3,4) by auto
    next
      case False
      then have "list_all2 (renamed level) items items'" using ab abbreviate_item_names_renamed by auto
      from renamed_bupm_free [OF this] renamed_map_read [OF this] show ?thesis using False "1.prems"(4) by auto
    qed
    then show ?thesis using write_group_ok [OF w(1) "1.prems"(2)] w(2) by blast
  next
    case more
    let ?gs = "split_groups env items"
    obtain newtree w2 where nt:
      "res_map (if level = 0 then write_leaf env repair else write_inner env repair level) ?gs = Inr newtree"
      "newtree \<noteq> []"
      and rec: "write_split_tree env repair md (map fst newtree) (level + 1) = Inr (i, w2, lv)"
      and w: "w = concat (map snd newtree) @ w2"
      using "1.prems"(1) unfolding write_split_tree_unfold(3) [OF more] res_bind_Inr_iff py_assert_Inr by auto
    have h: "holds (in_store get) (env_blob_id env) (env_tree_id env) (concat (map snd newtree))"
      "holds (in_store get) (env_blob_id env) (env_tree_id env) w2" using "1.prems"(2) w by simp_all
    have cc: "concat ?gs = items" using more by (simp add: split_groups_concat)
    have read: "\<forall>it\<in>set items. item_read get level it = Some (r it)"
      using "1.prems"(4) by (auto simp: map_eq_conv)
    define r' where "r' it = the (item_read get (Suc level) it)" for it :: "('m, 'i) tree_item"
    have mp: "map (item_read get (Suc level)) (map fst newtree) = map (\<lambda>g. Some (concat (map r g))) ?gs"
      using split_trees_ok [OF nt(1) h(1)] "1.prems"(3) read cc by simp
    then have r': "map r' (map fst newtree) = map (\<lambda>g. concat (map r g)) ?gs"
      by (metis (no_types, lifting) r'_def [abs_def] list.map_comp comp_def option.sel map_eq_conv)
    have "map (item_read get (level + 1)) (map fst newtree) = map (Some \<circ> r') (map fst newtree)"
      using mp r' by (metis (no_types, lifting) Suc_eq_plus1 comp_def list.map_comp map_eq_conv)
    then have "split_read get lv i = Some (concat (map r' (map fst newtree)))"
      using "1.IH" [OF more(1) refl more(2) nt(1) _ rec h(2), of "()" r'] nt(2) by simp
    also have "concat (map r' (map fst newtree)) = concat (map r items)"
      unfolding r' by (simp add: concat_map_concat [symmetric] cc)
    finally show ?thesis .
  qed
qed

section \<open>Depth, and no failures\<close>

lemma write_split_tree_depth:
  "write_split_tree env repair md items level = Inr (i, w, lv) \<Longrightarrow> length items \<le> 2 ^ d \<Longrightarrow> lv \<le> level + d"
proof (induction env repair md items level arbitrary: i w lv d rule: write_split_tree.induct)
  case (1 env repair md items level)
  consider (empty) "items = []" | (one) "items \<noteq> []" "length (split_groups env items) = 1"
    | (more) "items \<noteq> []" "length (split_groups env items) \<noteq> 1" by blast
  then show ?case
  proof cases
    case empty
    then show ?thesis
      using "1.prems"(1) unfolding empty write_split_tree_unfold(1) res_bind_Inr_iff by auto
  next
    case one
    then show ?thesis
      using "1.prems"(1) unfolding write_split_tree_unfold(2) [OF one] res_bind_Inr_iff by auto
  next
    case more
    let ?gs = "split_groups env items"
    obtain newtree w2 where nt:
      "res_map (if level = 0 then write_leaf env repair else write_inner env repair level) ?gs = Inr newtree"
      "newtree \<noteq> []"
      and rec: "write_split_tree env repair md (map fst newtree) (level + 1) = Inr (i, w2, lv)"
      using "1.prems"(1) unfolding write_split_tree_unfold(3) [OF more] res_bind_Inr_iff py_assert_Inr by auto
    have "length newtree \<noteq> 0" using nt(2) by simp
    then have k: "2 * length newtree \<le> 2 ^ d + 1" "1 < length newtree"
      using split_groups_length [OF more(1), of env] res_map_length [OF nt(1)] more(2) "1.prems"(2)
      by linarith+
    then obtain e where d: "d = Suc e" by (cases d) auto
    then have "length (map fst newtree) \<le> 2 ^ e" using k(1) by simp
    from "1.IH" [OF more(1) refl more(2) nt(1) _ rec this, of "()"] nt(2) d show ?thesis by simp
  qed
qed

definition meta_ok :: "bool \<Rightarrow> 'm item_meta \<Rightarrow> bool" where
  "meta_ok repair md \<longleftrightarrow> (case md of MLost _ \<Rightarrow> repair | _ \<Rightarrow> True)"

lemma dir_meta_ent_total: "meta_ok repair md \<Longrightarrow> \<exists>x. dir_meta_ent e repair key md = Inr x"
  by (auto simp: meta_ok_def dir_meta_ent_def split: item_meta.splits)

lemma res_map_total: "(\<And>x. x \<in> set xs \<Longrightarrow> \<exists>y. f x = Inr y) \<Longrightarrow> \<exists>ys. res_map f xs = Inr ys"
  by (induction xs) fastforce+

lemma dir_metadata_total:
  assumes "meta_ok repair md" "\<forall>it\<in>set items. meta_ok repair (ti_meta it)"
  shows "\<exists>ml. dir_metadata e md items repair = Inr ml"
proof -
  obtain x where x: "dir_meta_ent e repair [] md = Inr x" using dir_meta_ent_total [OF assms(1), of e "[]"] by blast
  obtain ys where "res_map (\<lambda>it. dir_meta_ent e repair
      (shalist_item_sort_key (ti_mode it, ti_name it, ())) (ti_meta it))
    (filter (\<lambda>it. \<not> S_ISDIR (ti_mode it)) items) = Inr ys"
    using res_map_total [of "filter (\<lambda>it. \<not> S_ISDIR (ti_mode it)) items"] dir_meta_ent_total assms(2)
    by (metis (no_types, lifting) filter_is_subset subsetD)
  then show ?thesis using x by (simp add: dir_metadata_def)
qed

lemma write_tree_total:
  assumes "meta_ok repair md" "\<forall>it\<in>set items. meta_ok repair (ti_meta it) \<and> (\<exists>n. mangled_name it = Inr n)"
  shows "\<exists>i w. write_tree env repair md items am = Inr (i, w)"
proof -
  obtain es where es: "res_map item_entry items = Inr es"
    using res_map_total [of items item_entry] assms(2) by (metis item_entry_Inr)
  obtain ml where ml: "dir_metadata (env_empty env) md items repair = Inr ml"
    using dir_metadata_total assms by metis
  show ?thesis
    using es ml
    by (cases ml) (auto simp: write_tree_def write_plain_tree_def write_bupm_tree_def Let_def split: prod.splits)
qed

text \<open>What a split item has by construction.\<close>

definition split_item_ok :: "('m, 'i) tree_item \<Rightarrow> bool" where
  "split_item_ok it \<longleftrightarrow> (\<exists>f l. ti_class it = SplitTreeItem f l \<and> f \<noteq> [] \<and> l \<noteq> []) \<and> (\<exists>d. ti_meta it = MMeta d)"

lemma split_item_okD:
  "split_item_ok it \<Longrightarrow> meta_ok repair (ti_meta it) \<and> mangled_name it = Inr (ti_name it)"
  by (auto simp: split_item_ok_def meta_ok_def mangled_name_def)

lemma abbreviate_item_names_total:
  assumes "\<forall>it\<in>set items. split_item_ok it"
  shows "\<exists>items'. abbreviate_item_names items level = Inr items' \<and> length items' = length items \<and>
    (\<forall>it\<in>set items'. split_item_ok it)"
proof -
  obtain fl where fl: "res_map full_names items = Inr fl"
    using res_map_total [of items full_names] assms by (metis full_names_Inr split_item_ok_def)
  have "list_all2 (\<lambda>it x. full_names it = Inr x) items fl" using fl by (simp add: res_map_Inr_iff)
  then have "\<forall>x\<in>set fl. fst x \<noteq> [] \<and> snd x \<noteq> []"
    using assms by (induction rule: list_all2_induct) (auto simp: full_names_Inr split_item_ok_def)
  then have ne: "n \<noteq> []" if "n \<in> set (map fst fl @ map snd (butlast fl))" for n
    using that by (fastforce dest: in_set_butlastD)
  have "\<exists>ys. res_map (abbreviate_loop root) (map fst fl @ map snd (butlast fl)) = Inr ys" for root
  proof (rule res_map_total)
    fix n assume "n \<in> set (map fst fl @ map snd (butlast fl))"
    from abbreviate_loop_ok [OF ne [OF this], of root] show "\<exists>y. abbreviate_loop root n = Inr y" by blast
  qed
  then obtain ab where "abbreviate_tree_names (map fst fl @ map snd (butlast fl)) = Inr ab"
    unfolding abbreviate_tree_names_def Let_def by blast
  then obtain items' where items': "abbreviate_item_names items level = Inr items'"
    using fl by (simp add: abbreviate_item_names_def)
  then have "list_all2 (renamed level) items items'" by (rule abbreviate_item_names_renamed)
  then have "length items' = length items \<and> (\<forall>it\<in>set items'. split_item_ok it)"
    using assms by (induction rule: list_all2_induct) (simp_all, auto simp: renamed_def split_item_ok_def)
  then show ?thesis using items' by blast
qed

lemma write_leaf_total:
  assumes "g \<noteq> []" "\<forall>it\<in>set g. meta_ok repair (ti_meta it) \<and> (\<exists>n. mangled_name it = Inr n) \<and> ti_name it \<noteq> []"
  shows "\<exists>x. write_leaf env repair g = Inr x \<and> split_item_ok (fst x)"
proof -
  have "meta_ok repair MNone" by (simp add: meta_ok_def)
  then obtain i w where "write_tree env repair MNone g True = Inr (i, w)"
    using write_tree_total [of repair MNone g env True] assms(2) by blast
  then show ?thesis
    using assms by (simp add: write_leaf_def split_item_ok_def new_split_item_def new_item_def meta_or_empty_def)
qed

lemma write_inner_total:
  assumes "g \<noteq> []" "\<forall>it\<in>set g. split_item_ok it"
  shows "\<exists>x. write_inner env repair level g = Inr x \<and> split_item_ok (fst x)"
proof -
  obtain g' where g': "abbreviate_item_names g level = Inr g'" "length g' = length g" "\<forall>it\<in>set g'. split_item_ok it"
    using abbreviate_item_names_total [OF assms(2), of level] by blast
  then have ne: "g' \<noteq> []" using assms(1) by auto
  have "meta_ok repair MNone" by (simp add: meta_ok_def)
  then obtain i w where w: "write_tree env repair MNone g' False = Inr (i, w)"
    using write_tree_total [of repair MNone g' env False] g'(3) split_item_okD by blast
  obtain f l f' l' where "ti_class (hd g') = SplitTreeItem f l" "f \<noteq> []" "ti_class (last g') = SplitTreeItem f' l'" "l' \<noteq> []"
    using g'(3) ne by (metis hd_in_set last_in_set split_item_ok_def)
  then show ?thesis
    using g' w ne
    by (simp add: write_inner_def full_names_def split_item_ok_def new_split_item_def new_item_def meta_or_empty_def)
qed

lemma write_split_tree_total:
  fixes env :: "('m, 'i, 's) tree_env" and items :: "('m, 'i) tree_item list"
  assumes "meta_ok repair md"
    "level = 0 \<longrightarrow> (\<forall>it\<in>set items. meta_ok repair (ti_meta it) \<and> (\<exists>n. mangled_name it = Inr n) \<and> ti_name it \<noteq> [])"
    "0 < level \<longrightarrow> (\<forall>it\<in>set items. split_item_ok it)"
  shows "\<exists>i w lv. write_split_tree env repair md items level = Inr (i, w, lv)"
  using assms
proof (induction env repair md items level rule: write_split_tree.induct)
  case (1 env repair md items level)
  have mk: "\<forall>it\<in>set items. meta_ok repair (ti_meta it) \<and> (\<exists>n. mangled_name it = Inr n)"
    using "1.prems"(2,3) split_item_okD by (cases "level = 0") auto
  consider (empty) "items = []" | (one) "items \<noteq> []" "length (split_groups env items) = 1"
    | (more) "items \<noteq> []" "length (split_groups env items) \<noteq> 1" by blast
  then show ?case
  proof cases
    case empty
    then show ?thesis
      using write_tree_total [OF "1.prems"(1), of items env True]
      unfolding empty write_split_tree_unfold(1) by auto
  next
    case one
    obtain items' where ab: "(if 0 < level then abbreviate_item_names items level else Inr items) = Inr items'"
      "\<forall>it\<in>set items'. meta_ok repair (ti_meta it) \<and> (\<exists>n. mangled_name it = Inr n)"
    proof (cases "0 < level")
      case True
      then obtain items' where "abbreviate_item_names items level = Inr items'" "\<forall>it\<in>set items'. split_item_ok it"
        using abbreviate_item_names_total [of items level] "1.prems"(3) by blast
      then show thesis using that [of items'] True split_item_okD by fastforce
    qed (use mk in auto)
    then show ?thesis
      using write_tree_total [OF "1.prems"(1) ab(2), of env True] unfolding write_split_tree_unfold(2) [OF one] by auto
  next
    case more
    let ?gs = "split_groups env items"
    let ?f = "if level = 0 then write_leaf env repair else write_inner env repair level"
    have "set items = \<Union> (set ` set ?gs)" by (metis set_concat split_groups_concat [OF more(1)])
    then have gs: "g \<noteq> []" "set g \<subseteq> set items" if "g \<in> set ?gs" for g
      using split_groups_not_Nil [OF that] that by auto
    have *: "\<exists>x. ?f g = Inr x \<and> split_item_ok (fst x)" if "g \<in> set ?gs" for g
    proof (cases "level = 0")
      case True
      then have "\<forall>it\<in>set g. meta_ok repair (ti_meta it) \<and> (\<exists>n. mangled_name it = Inr n) \<and> ti_name it \<noteq> []"
        using gs [OF that] "1.prems"(2) by blast
      from write_leaf_total [OF gs(1) [OF that] this, of env] show ?thesis using True by simp
    next
      case False
      then have "\<forall>it\<in>set g. split_item_ok it" using gs [OF that] "1.prems"(3) by blast
      from write_inner_total [OF gs(1) [OF that] this, of env repair level] show ?thesis using False by simp
    qed
    then obtain newtree where nt: "res_map ?f ?gs = Inr newtree" using res_map_total [of ?gs ?f] by blast
    then have "list_all2 (\<lambda>g x. ?f g = Inr x) ?gs newtree" by (simp add: res_map_Inr_iff)
    then have "\<forall>x\<in>set newtree. split_item_ok (fst x)"
      using * by (induction rule: list_all2_induct) fastforce+
    moreover have ne: "newtree \<noteq> []"
      using res_map_length [OF nt] split_groups_concat [OF more(1), of env] more(1) by auto
    ultimately have "\<exists>i w lv. write_split_tree env repair md (map fst newtree) (level + 1) = Inr (i, w, lv)"
      using "1.IH" [OF more(1) refl more(2) nt, of "()"] "1.prems"(1) by simp
    then show ?thesis
      unfolding write_split_tree_unfold(3) [OF more] nt using ne by auto
  qed
qed

section \<open>Properties\<close>

text \<open>Items as \<open>append_to_current\<close> makes them.\<close>

definition plain_item_ok :: "bool \<Rightarrow> ('m, 'i) tree_item \<Rightarrow> bool" where
  "plain_item_ok repair it \<longleftrightarrow>
     ti_class it = TreeItem \<and> ti_name it \<noteq> [] \<and> meta_ok repair (ti_meta it) \<and> (\<exists>n. mangled_name it = Inr n)"

lemma concat_item_entries:
  assumes "res_map item_entry items = Inr es"
  shows "\<exists>r. map (item_read get 0) items = map (Some \<circ> r) items \<and> concat (map r items) = es"
proof -
  define r where "r it = the (item_read get 0 it)" for it :: "('b, 'a) tree_item"
  have "list_all2 (\<lambda>it e. item_entry it = Inr e) items es" using assms by (simp add: res_map_Inr_iff)
  then have "map (item_read get 0) items = map (Some \<circ> r) items \<and> concat (map r items) = es"
    by (induction rule: list_all2_induct) (auto simp: r_def item_read_def)
  then show ?thesis by blast
qed

lemma write_split_tree_roundtrip_aux:
  assumes "\<forall>it\<in>set items. plain_item_ok repair it" "meta_ok repair md" "length items \<le> 2 ^ d"
  shows "\<exists>i w lv es. write_split_tree env repair md items 0 = Inr (i, w, lv) \<and>
    res_map item_entry items = Inr es \<and> lv \<le> d \<and>
    (\<forall>get. holds (in_store get) (env_blob_id env) (env_tree_id env) w \<longrightarrow> split_read get lv i = Some es)"
proof -
  obtain i w lv where w: "write_split_tree env repair md items 0 = Inr (i, w, lv)"
    using write_split_tree_total [OF assms(2), of 0 items env] assms(1) by (auto simp: plain_item_ok_def)
  have "\<exists>y. item_entry it = Inr y" if "it \<in> set items" for it
    using assms(1) that by (auto simp: plain_item_ok_def item_entry_def)
  then obtain es where es: "res_map item_entry items = Inr es" using res_map_total [of items item_entry] by blast
  have "split_read get lv i = Some es" if h: "holds (in_store get) (env_blob_id env) (env_tree_id env) w" for get
  proof -
    obtain r where r: "map (item_read get 0) items = map (Some \<circ> r) items" "concat (map r items) = es"
      using concat_item_entries [OF es] by blast
    show ?thesis using write_split_tree_ok [OF w h _ r(1)] assms(1) r(2) by (simp add: plain_item_ok_def)
  qed
  then show ?thesis using w es write_split_tree_depth [OF w assms(3)] by auto
qed


definition witness_env :: "(unit, bytes, nat) tree_env" where
  "witness_env = \<lparr>env_blob_id = id, env_tree_id = (\<lambda>es. concat (map (fst \<circ> snd) es)), env_encode = (\<lambda>_. ''m''),
     env_empty = (), env_split = (\<lambda>d. [(d, 0)]), env_feed = (\<lambda>n name. (odd n, n + 1)), env_feed0 = 0\<rparr>"

definition witness_items :: "(unit, bytes) tree_item list" where
  "witness_items = map (\<lambda>n. new_item () TreeItem n GIT_MODE_FILE GIT_MODE_FILE n MNone) [''aa'', ''bb'', ''cc'', ''dd'']"


text \<open>abbreviations collide when one subtree's names start the next one's: after a split between
  \<open>ab\<close> and \<open>abc\<close>, the subtrees \<open>a\<close> to \<open>ab\<close> and \<open>abc\<close> onwards both are called \<open>a..N.bupd\<close>.\<close>

theorem abbreviate_item_names_collide:
  "res_bind (abbreviate_item_names [new_split_item e ''a'' i ''a'' ''ab'', new_split_item e ''abc'' j ''abc'' z] level)
     (\<lambda>items. Inr (map ti_name items)) =
   (Inr [''a'' @ level_suffix level, ''a'' @ level_suffix level] :: bytes list res)"
proof -
  have "abbreviate_tree_names [''a'', ''abc'', ''ab''] = Inr [''a'', ''a'', ''a'']" by code_simp
  then show ?thesis
    by (simp add: abbreviate_item_names_def full_names_def new_split_item_def new_item_def)
qed

section \<open>Popping a directory\<close>

lemma clean_loop_ok:
  assumes "clean_loop seen items = (its, n)"
  shows "subseq its items \<and> distinct (map ti_name its) \<and> ti_name ` set its = ti_name ` set items - seen \<and>
    length its + n = length items"
  using assms
proof (induction items arbitrary: seen its n)
  case Nil
  then show ?case by simp
next
  case (Cons it items)
  show ?case
  proof (cases "ti_name it \<in> seen")
    case True
    then obtain n' where "clean_loop seen items = (its, n')" "n = Suc n'"
      using Cons.prems by (auto split: prod.splits)
    then show ?thesis using Cons.IH [of seen its n'] True by auto
  next
    case False
    then obtain r where "clean_loop (insert (ti_name it) seen) items = (r, n)" "its = it # r"
      using Cons.prems by (auto split: prod.splits)
    then show ?thesis using Cons.IH [of "insert (ti_name it) seen" r n] False by auto
  qed
qed

text \<open>The entry a popped directory leaves in its parent.\<close>

definition add_dir_entry :: "'m \<Rightarrow> bytes \<Rightarrow> 'i \<Rightarrow> ('m, 'i) stack_dir list \<Rightarrow> ('m, 'i) stack_dir list" where
  "add_dir_entry e name i ds =
     (if ds = [] then []
      else butlast ds @ [last ds\<lparr>sd_items := sd_items (last ds) @
             [\<lparr>ti_name = name, ti_mode = GIT_MODE_TREE, ti_gitmode = GIT_MODE_TREE, ti_oid = i,
               ti_meta = MMeta e, ti_class = TreeItem\<rparr>]\<rparr>])"

lemma write_tree_plain_read:
  assumes "write_tree env repair md items True = Inr (i, w)" "holds (in_store get) (env_blob_id env) (env_tree_id env) w"
    "\<forall>it\<in>set items. ti_class it = TreeItem" "res_map item_entry items = Inr es"
  shows "split_read get 0 i = Some es"
proof -
  obtain tr where "get i = Some (TreeObj tr)" "drop_bupm tr = es"
    using write_tree_ok [OF assms(1,2) plain_bupm_free [OF assms(3)]] assms(4) by auto
  then show ?thesis by simp
qed

lemma stack_write_ok:
  fixes env :: "('m, 'i, 's) tree_env"
  assumes "\<forall>it\<in>set (sd_items d). plain_item_ok (stk_repair st) it" "meta_ok (stk_repair st) (sd_meta d)"
    and "clean_loop {} (sd_items d) = (its, n)"
  shows "\<exists>i w lv es. stack_write env d st =
      Inr (i, st\<lparr>stk_errors := stk_errors st + n, stk_written := stk_written st @ w\<rparr>) \<and>
    res_map item_entry (if stk_trees st then sort_key ti_name its else its) = Inr es \<and>
    (\<forall>get. holds (in_store get) (env_blob_id env) (env_tree_id env) w \<longrightarrow> split_read get lv i = Some es)"
proof -
  have sub: "set its \<subseteq> set (sd_items d)"
    using clean_loop_ok [OF assms(3)] by (auto elim: list_emb_set)
  then have ok: "\<forall>it\<in>set its. plain_item_ok (stk_repair st) it" using assms(1) by blast
  have tot: "\<exists>es. res_map item_entry xs = Inr es" if xs: "set xs \<subseteq> set its" for xs
  proof (rule res_map_total)
    fix x assume "x \<in> set xs"
    then have "plain_item_ok (stk_repair st) x" using ok xs by blast
    then show "\<exists>y. item_entry x = Inr y" by (auto simp: plain_item_ok_def item_entry_def)
  qed
  show ?thesis
  proof (cases "stk_trees st")
    case True
    let ?its = "sort_key ti_name its"
    have ok': "\<forall>it\<in>set ?its. plain_item_ok (stk_repair st) it" using ok by simp
    have "length ?its \<le> 2 ^ length its" by (simp add: less_imp_le)
    from write_split_tree_roundtrip_aux [OF ok' assms(2) this, of env]
    obtain i w lv es where w: "write_split_tree env (stk_repair st) (sd_meta d) ?its 0 = Inr (i, w, lv)"
      and es: "res_map item_entry ?its = Inr es"
      "\<forall>get. holds (in_store get) (env_blob_id env) (env_tree_id env) w \<longrightarrow> split_read get lv i = Some es" by blast
    have "stack_write env d st = Inr (i, st\<lparr>stk_errors := stk_errors st + n, stk_written := stk_written st @ w\<rparr>)"
      using w True assms(3) by (simp add: stack_write_def)
    then show ?thesis using es True by auto
  next
    case False
    obtain i w where w: "write_tree env (stk_repair st) (sd_meta d) its True = Inr (i, w)"
      using write_tree_total [OF assms(2), of its env True] ok by (auto simp: plain_item_ok_def)
    obtain es where es: "res_map item_entry its = Inr es" using tot by blast
    have cls: "\<forall>it\<in>set its. ti_class it = TreeItem" using ok by (simp add: plain_item_ok_def)
    have "\<forall>get. holds (in_store get) (env_blob_id env) (env_tree_id env) w \<longrightarrow> split_read get 0 i = Some es"
      using write_tree_plain_read [OF w _ cls es] by blast
    moreover have "stack_write env d st = Inr (i, st\<lparr>stk_errors := stk_errors st + n, stk_written := stk_written st @ w\<rparr>)"
      using w False assms(3) by (simp add: stack_write_def)
    ultimately show ?thesis
      using es False by (intro exI [of _ i] exI [of _ w] exI [of _ "0 :: nat"] exI [of _ es]) simp
  qed
qed

text \<open>popping a directory writes it, whatever the configuration: the new tree, read through its
  split levels, has the directory's entries less the later duplicates of a name (each one counted as
  an error), and the parent directory gains one entry with the directory's name and the tree's id.\<close>

theorem stack_pop_writes_directory:
  assumes "stk_dirs st = ds @ [d]" "clean_loop {} (sd_items d) = (its, n)"
    and "\<forall>it\<in>set (sd_items d). plain_item_ok (stk_repair st) it" "meta_ok (stk_repair st) (sd_meta d)"
  shows "\<exists>i w lv es.
    stack_pop env None None st =
      Inr (i, st\<lparr>stk_dirs := add_dir_entry (env_empty env) (sd_name d) i ds,
                 stk_errors := stk_errors st + n, stk_written := stk_written st @ w\<rparr>) \<and>
    res_map item_entry (if stk_trees st then sort_key ti_name its else its) = Inr es \<and>
    (\<forall>get. holds (in_store get) (env_blob_id env) (env_tree_id env) w \<longrightarrow> split_read get lv i = Some es) \<and>
    distinct (map ti_name its) \<and> ti_name ` set its = ti_name ` set (sd_items d) \<and>
    length its + n = length (sd_items d)"
proof -
  let ?st = "st\<lparr>stk_dirs := ds\<rparr>"
  have r: "stk_repair ?st = stk_repair st" "stk_trees ?st = stk_trees st" by simp_all
  obtain i w lv es where w: "stack_write env d ?st =
      Inr (i, ?st\<lparr>stk_errors := stk_errors ?st + n, stk_written := stk_written ?st @ w\<rparr>)"
    and es: "res_map item_entry (if stk_trees st then sort_key ti_name its else its) = Inr es"
    "\<forall>get. holds (in_store get) (env_blob_id env) (env_tree_id env) w \<longrightarrow> split_read get lv i = Some es"
    using stack_write_ok [of d ?st its n env] assms(2,3,4) unfolding r by blast
  have "stack_pop env None None st =
      Inr (i, st\<lparr>stk_dirs := add_dir_entry (env_empty env) (sd_name d) i ds,
                 stk_errors := stk_errors st + n, stk_written := stk_written st @ w\<rparr>)"
    using w assms(1)
    by (cases st) (simp add: stack_pop_def add_dir_entry_def append_to_current_def new_item_def meta_or_empty_def Let_def)
  then show ?thesis using es clean_loop_ok [OF assms(2)] by auto
qed

definition witness_stack :: "(unit, bytes) tree_stack" where
  "witness_stack = \<lparr>stk_dirs = [\<lparr>sd_name = [], sd_items = [], sd_meta = MNone\<rparr>,
      \<lparr>sd_name = ''etc'', sd_items = witness_items @ [hd witness_items], sd_meta = MNone\<rparr>],
    stk_trees = True, stk_repair = False, stk_errors = 0, stk_written = []\<rparr>"

theorem stack_pop_writes_directory_witness:
  "\<exists>i w. stack_pop witness_env None None witness_stack =
    Inr (i, witness_stack\<lparr>stk_dirs := add_dir_entry () ''etc'' i [\<lparr>sd_name = [], sd_items = [], sd_meta = MNone\<rparr>],
      stk_errors := 1, stk_written := w\<rparr>)"
proof -
  let ?d = "\<lparr>sd_name = ''etc'', sd_items = witness_items @ [hd witness_items], sd_meta = MNone\<rparr> :: (unit, bytes) stack_dir"
  have "stk_dirs witness_stack = [\<lparr>sd_name = [], sd_items = [], sd_meta = MNone\<rparr>] @ [?d]"
    "clean_loop {} (sd_items ?d) = (witness_items, 1)"
    "\<forall>it\<in>set (sd_items ?d). plain_item_ok (stk_repair witness_stack) it"
    "meta_ok (stk_repair witness_stack) (sd_meta ?d)"
    by (simp_all add: witness_stack_def witness_items_def plain_item_ok_def new_item_def meta_or_empty_def
        meta_ok_def mangled_name_def mangle_name_def mode_defs)
  from stack_pop_writes_directory [OF this, of witness_env] show ?thesis
    by (auto simp: witness_stack_def witness_env_def)
qed

end
