(* ===== verification/Py_Struct.thy ===== *)
theory Py_Struct
  imports Py_Bytes
begin

text \<open>
  Python's \<open>struct\<close> for the formats the index files use: unsigned big endian fields of a fixed
  width (\<open>!I\<close>, \<open>!Q\<close>), read at an offset of a buffer.  \<open>be_bytes\<close> is also what \<open>htonl\<close> and
  \<open>htonll\<close> leave in memory.
\<close>

definition be_val :: "bytes \<Rightarrow> nat" where
  "be_val bs = foldl (\<lambda>a c. a * 256 + of_char c) 0 bs"

fun be_bytes :: "nat \<Rightarrow> nat \<Rightarrow> bytes" where
  "be_bytes 0 n = []"
| "be_bytes (Suc k) n = be_bytes k (n div 256) @ [char_of (n mod 256)]"

lemma length_be_bytes [simp]: "length (be_bytes k n) = k"
  by (induction k arbitrary: n) simp_all

lemma be_val_snoc [simp]: "be_val (bs @ [c]) = be_val bs * 256 + of_char c"
  by (simp add: be_val_def)

lemma be_val_Nil [simp]: "be_val [] = 0"
  by (simp add: be_val_def)

lemma be_val_be_bytes: "be_val (be_bytes k n) = n mod 256 ^ k"
proof (induction k arbitrary: n)
  case 0
  then show ?case by simp
next
  case (Suc k)
  have "n mod 256 ^ Suc k = 256 * (n div 256 mod 256 ^ k) + n mod 256"
    by (simp add: mod_mult2_eq)
  then show ?case using Suc by (simp add: mult.commute)
qed

lemma be_val_be_bytes_id [simp]: "n < 256 ^ k \<Longrightarrow> be_val (be_bytes k n) = n"
  by (simp add: be_val_be_bytes)

lemma be_val_less: "be_val bs < 256 ^ length bs"
proof (induction bs rule: rev_induct)
  case Nil
  then show ?case by simp
next
  case (snoc c bs)
  have "of_char c < (256 :: nat)" by (rule nat_of_char_less_256)
  moreover have "(be_val bs + 1) * 256 \<le> 256 ^ length bs * 256"
    using snoc by (intro mult_le_mono1) simp
  then have "be_val bs * 256 + 256 \<le> 256 ^ length bs * 256" by simp
  ultimately have "be_val bs * 256 + of_char c < 256 ^ length bs * 256" by linarith
  then show ?case by (simp add: mult.commute)
qed

text \<open>\<open>struct.unpack_from\<close> of one field of \<open>k\<close> bytes.\<close>

definition unpack_from :: "nat \<Rightarrow> bytes \<Rightarrow> nat \<Rightarrow> nat res" where
  "unpack_from k buf ofs =
     (if ofs + k \<le> length buf then Inr (be_val (take k (drop ofs buf))) else Inl StructError)"

text \<open>\<open>struct.unpack_from('!nI', buf, ofs)\<close>.\<close>

definition unpack_array :: "nat \<Rightarrow> nat \<Rightarrow> bytes \<Rightarrow> nat \<Rightarrow> nat list res" where
  "unpack_array k n buf ofs =
     (if ofs + k * n \<le> length buf
      then Inr (map (\<lambda>i. be_val (take k (drop (ofs + k * i) buf))) [0..<n])
      else Inl StructError)"

text \<open>Tables of fields of one width.\<close>

lemma concat_take_drop:
  assumes "i < length xs" "\<forall>x\<in>set xs. length x = k"
  shows "take k (drop (k * i) (concat xs @ ys)) = xs ! i"
  using assms
proof (induction xs arbitrary: i)
  case Nil
  then show ?case by simp
next
  case (Cons x xs)
  then show ?case by (cases i) auto
qed

lemma length_concat_same: "\<forall>x\<in>set xs. length x = k \<Longrightarrow> length (concat xs) = k * length xs"
  by (induction xs) auto

lemma table_field:
  assumes "i < length xs" "\<forall>x\<in>set xs. length x = k" "buf = pre @ concat xs @ post" "ofs = length pre + k * i"
  shows "take k (drop ofs buf) = xs ! i" "ofs + k \<le> length buf"
proof -
  show "take k (drop ofs buf) = xs ! i"
    using concat_take_drop [OF assms(1,2), of post] assms(3,4) by simp
  have "k * i + k \<le> k * length xs" using assms(1) by (metis Suc_leI mult_Suc_right mult_le_mono2 add.commute)
  then show "ofs + k \<le> length buf"
    using assms(3,4) length_concat_same [OF assms(2)] by simp
qed

lemma unpack_from_table:
  assumes "i < length ns" "\<forall>n\<in>set ns. n < 256 ^ k"
    "buf = pre @ concat (map (be_bytes k) ns) @ post" "ofs = length pre + k * i"
  shows "unpack_from k buf ofs = Inr (ns ! i)"
proof -
  have *: "i < length (map (be_bytes k) ns)" "\<forall>x\<in>set (map (be_bytes k) ns). length x = k"
    using assms by auto
  have "ns ! i < 256 ^ k" using assms(1,2) by simp
  then show ?thesis
    using table_field [OF * assms(3,4)] assms(1) by (simp add: unpack_from_def)
qed

lemma unpack_array_table:
  assumes "\<forall>n\<in>set ns. n < 256 ^ k" "buf = pre @ concat (map (be_bytes k) ns) @ post" "length pre = ofs"
  shows "unpack_array k (length ns) buf ofs = Inr ns"
proof -
  have *: "\<forall>x\<in>set (map (be_bytes k) ns). length x = k" by auto
  have "be_val (take k (drop (ofs + k * i) buf)) = ns ! i" if "i < length ns" for i
    using table_field(1) [of i "map (be_bytes k) ns", OF _ * assms(2), of "ofs + k * i"] that assms(1,3) by simp
  then have "map (\<lambda>i. be_val (take k (drop (ofs + k * i) buf))) [0..<length ns] = ns"
    by (intro nth_equalityI) simp_all
  moreover have "ofs + k * length ns \<le> length buf"
    using assms(2,3) length_concat_same [OF *] by simp
  ultimately show ?thesis by (simp add: unpack_array_def)
qed

end
