(* ===== verification/Py_Path.thy ===== *)
theory Py_Path
  imports Py_Bytes
begin

text \<open>The POSIX path functions of Python's \<open>os.path\<close> the code uses, on \<open>bytes\<close>.\<close>

abbreviation slash :: char where "slash \<equiv> CHR ''/''"

text \<open>The part up to and with the last slash, and the part after it.\<close>

definition path_head :: "bytes \<Rightarrow> bytes" where
  "path_head p = rev (dropWhile (\<lambda>c. c \<noteq> slash) (rev p))"

definition basename :: "bytes \<Rightarrow> bytes" where
  "basename p = rev (takeWhile (\<lambda>c. c \<noteq> slash) (rev p))"

definition dirname :: "bytes \<Rightarrow> bytes" where
  "dirname p =
     (let head = path_head p
      in if head \<noteq> [] \<and> head \<noteq> replicate (length head) slash then rstrip_chars [slash] head else head)"

definition path_join :: "bytes \<Rightarrow> bytes \<Rightarrow> bytes" where
  "path_join a b =
     (if b \<noteq> [] \<and> hd b = slash then b
      else if a = [] \<or> last a = slash then a @ b
      else a @ slash # b)"

lemma path_head_basename: "path_head p @ basename p = p"
proof -
  have "rev (takeWhile (\<lambda>c. c \<noteq> slash) (rev p) @ dropWhile (\<lambda>c. c \<noteq> slash) (rev p)) = p"
    by (simp only: takeWhile_dropWhile_id rev_rev_ident)
  then show ?thesis by (simp only: path_head_def basename_def rev_append)
qed

lemma basename_no_slash [simp]: "slash \<notin> set (basename p)"
  by (auto simp: basename_def dest: set_takeWhileD)

lemma takeWhile_no: "c \<notin> set xs \<Longrightarrow> takeWhile (\<lambda>x. x \<noteq> c) (xs @ c # ys) = xs"
  by (induction xs) auto

lemma takeWhile_none: "c \<notin> set xs \<Longrightarrow> takeWhile (\<lambda>x. x \<noteq> c) xs = xs"
  by (induction xs) auto

lemma basename_join:
  assumes "slash \<notin> set b" "b \<noteq> []"
  shows "basename (path_join a b) = b"
proof -
  have *: "basename (x @ slash # b) = b" "basename b = b" for x
  proof -
    have b: "slash \<notin> set (rev b)" using assms(1) by simp
    show "basename (x @ slash # b) = b" using takeWhile_no [OF b, of "rev x"] by (simp add: basename_def)
    show "basename b = b" unfolding basename_def takeWhile_none [OF b] by simp
  qed
  have "hd b \<noteq> slash" using assms by (metis hd_in_set)
  moreover have "basename (a @ b) = b" if "a = [] \<or> last a = slash"
    using that * by (cases a rule: rev_cases) auto
  ultimately show ?thesis using * by (simp add: path_join_def)
qed

end
