(* ===== verification/Pack_Idx.thy ===== *)
theory Pack_Idx
  imports Py_Struct Py_Path "HOL-Library.Multiset"
begin

text \<open>
  Git pack indexes, from \<open>lib/bup/git.py\<close>: the classes \<open>PackIdx\<close>, \<open>PackIdxV1\<close>, \<open>PackIdxV2\<close>,
  \<open>open_idx\<close>, and \<open>PackIdxV2Writer\<close> with the C \<open>write_idx\<close>.  An index file is its bytes.
\<close>

section \<open>Looking up a hash\<close>

text \<open>What a search reports: the pack's base name and the offset, if asked for.\<close>

record object_location =
  ol_pack :: "bytes option"
  ol_offset :: "nat option"

definition OBJECT_EXISTS :: object_location where
  "OBJECT_EXISTS = \<lparr>ol_pack = None, ol_offset = None\<rparr>"

datatype idx_version = V1 | V2

record pack_idx =
  px_version :: idx_version
  px_name :: bytes
  px_map :: bytes
  px_fanout :: "nat list"
  px_nsha :: nat

definition sha_ofs :: "pack_idx \<Rightarrow> nat" where
  "sha_ofs px = (case px_version px of V1 \<Rightarrow> 256 * 4 | V2 \<Rightarrow> 8 + 256 * 4)"

definition ofstable_ofs :: "pack_idx \<Rightarrow> nat" where
  "ofstable_ofs px = sha_ofs px + px_nsha px * 20 + px_nsha px * 4"

definition ofs64table_ofs :: "pack_idx \<Rightarrow> nat" where
  "ofs64table_ofs px = ofstable_ofs px + px_nsha px * 4"

definition idx_to_hash :: "pack_idx \<Rightarrow> nat \<Rightarrow> bytes res" where
  "idx_to_hash px idx =
     (if px_nsha px \<le> idx then Inl IndexError
      else case px_version px of
        V1 \<Rightarrow> (let ofs = sha_ofs px + idx * 24 + 4 in Inr (slice ofs (ofs + 20) (px_map px)))
      | V2 \<Rightarrow> (let ofs = sha_ofs px + idx * 20 in Inr (slice ofs (ofs + 20) (px_map px))))"

definition oid_ofs_from_ofs32_ofs :: "pack_idx \<Rightarrow> nat \<Rightarrow> nat res" where
  "oid_ofs_from_ofs32_ofs px ofs32_ofs =
     res_bind (unpack_from 4 (px_map px) ofs32_ofs) (\<lambda>ofs32.
       if ofs32 AND 0x80000000 \<noteq> 0 then
         let ofs64_i = ofs32 AND 0x7fffffff
         in unpack_from 8 (px_map px) (ofs64table_ofs px + ofs64_i * 8)
       else Inr ofs32)"

definition ofs_from_idx :: "pack_idx \<Rightarrow> nat \<Rightarrow> nat res" where
  "ofs_from_idx px idx =
     (if px_nsha px \<le> idx then Inl IndexError
      else case px_version px of
        V1 \<Rightarrow> unpack_from 4 (px_map px) (sha_ofs px + idx * 24)
      | V2 \<Rightarrow> oid_ofs_from_ofs32_ofs px (ofstable_ofs px + idx * 4))"

text \<open>The binary search of \<open>_idx_from_hash\<close>.\<close>

function idx_search :: "(nat \<Rightarrow> bytes res) \<Rightarrow> bytes \<Rightarrow> nat \<Rightarrow> nat \<Rightarrow> nat option res" where
  "idx_search to_hash want s e =
     (if s < e then
        let mid = s + (e - s) div 2
        in res_bind (to_hash mid) (\<lambda>v.
             if v < want then idx_search to_hash want (mid + 1) e
             else if v > want then idx_search to_hash want s mid
             else Inr (Some mid))
      else Inr None)"
  by pat_completeness auto
termination by (relation "measure (\<lambda>(t, w, s, e). e - s)") auto

declare idx_search.simps [simp del]

text \<open>\<open>fanout[b1-1]\<close> is Python's: for \<open>b1 = 0\<close> it is the last entry, the appended 0.\<close>

definition idx_from_hash :: "pack_idx \<Rightarrow> bytes \<Rightarrow> nat option res" where
  "idx_from_hash px hash =
     res_bind (py_assert (length hash = 20)) (\<lambda>_.
       let b1 = of_char (hd hash);
           s = (if b1 = 0 then last (px_fanout px) else px_fanout px ! (b1 - 1));
           e = px_fanout px ! b1
       in idx_search (idx_to_hash px) hash s e)"

definition find_offset :: "pack_idx \<Rightarrow> bytes \<Rightarrow> nat option res" where
  "find_offset px hash =
     res_bind (idx_from_hash px hash) (\<lambda>idx.
       case idx of None \<Rightarrow> Inr None | Some i \<Rightarrow> res_bind (ofs_from_idx px i) (\<lambda>ofs. Inr (Some ofs)))"

definition idx_exists :: "pack_idx \<Rightarrow> bytes \<Rightarrow> bool \<Rightarrow> bool \<Rightarrow> object_location option res" where
  "idx_exists px hash want_source want_offset =
     (if hash = [] then Inr None
      else res_bind (idx_from_hash px hash) (\<lambda>idx.
        case idx of
          None \<Rightarrow> Inr None
        | Some i \<Rightarrow>
            if want_source \<or> want_offset then
              res_bind (if want_offset then res_map (ofs_from_idx px) [i] else Inr []) (\<lambda>ofs.
              Inr (Some \<lparr>ol_pack = (if want_source then Some (basename (px_name px)) else None),
                         ol_offset = (case ofs of [] \<Rightarrow> None | o1 # _ \<Rightarrow> Some o1)\<rparr>))
            else Inr (Some OBJECT_EXISTS)))"

text \<open>\<open>__iter__\<close> and \<open>oid_offsets_and_idxs\<close>.\<close>

definition idx_iter :: "pack_idx \<Rightarrow> bytes list" where
  "idx_iter px =
     (case px_version px of
        V1 \<Rightarrow> map (\<lambda>i. slice (sha_ofs px + 4 + 24 * i) (sha_ofs px + 4 + 24 * i + 20) (px_map px)) [0..<px_nsha px]
      | V2 \<Rightarrow> map (\<lambda>i. slice (sha_ofs px + 20 * i) (sha_ofs px + 20 * i + 20) (px_map px)) [0..<px_nsha px])"

definition oid_offsets_and_idxs :: "pack_idx \<Rightarrow> (nat \<times> nat) list res" where
  "oid_offsets_and_idxs px =
     res_map (\<lambda>i. res_bind
         (case px_version px of
            V1 \<Rightarrow> unpack_from 4 (px_map px) (sha_ofs px + 24 * i)
          | V2 \<Rightarrow> oid_ofs_from_ofs32_ofs px (ofstable_ofs px + 4 * i))
         (\<lambda>ofs. Inr (ofs, i))) [0..<px_nsha px]"

section \<open>Opening\<close>

definition idx_magic :: bytes where
  "idx_magic = [char_of (255 :: nat), CHR ''t'', CHR ''O'', CHR ''c'']"

text \<open>
  \<open>struct.unpack\<close> wants a buffer of exactly the format's size.  The \<open>assert self.nsha\<close> comes after
  the tables are located.
\<close>

definition open_v1 :: "bytes \<Rightarrow> bytes \<Rightarrow> pack_idx res" where
  "open_v1 filename data =
     (if length data \<noteq> 256 * 4 then Inl StructError
      else res_bind (unpack_array 4 256 data 0) (\<lambda>fan.
        let nsha = fan ! 255
        in res_bind (py_assert (nsha \<noteq> 0)) (\<lambda>_.
           Inr \<lparr>px_version = V1, px_name = filename, px_map = data, px_fanout = fan @ [0], px_nsha = nsha\<rparr>)))"

definition open_v2 :: "bytes \<Rightarrow> bytes \<Rightarrow> pack_idx res" where
  "open_v2 filename data =
     res_bind (py_assert (take 8 data = idx_magic @ be_bytes 4 2)) (\<lambda>_.
     res_bind (unpack_array 4 256 data 8) (\<lambda>fan.
       let nsha = fan ! 255
       in res_bind (py_assert (nsha \<noteq> 0)) (\<lambda>_.
          Inr \<lparr>px_version = V2, px_name = filename, px_map = data, px_fanout = fan @ [0], px_nsha = nsha\<rparr>)))"

definition open_idx :: "bytes \<Rightarrow> bytes \<Rightarrow> pack_idx res" where
  "open_idx filename data =
     (if \<not> suffix ''.idx'' filename then Inl GitError
      else
        let header = take 8 data
        in if take 4 header = idx_magic then
             res_bind (if length header = 8 then Inr (be_val (drop 4 header)) else Inl StructError) (\<lambda>version.
               if version = 2 then open_v2 filename data else Inl GitError)
           else if length header = 8 \<and> take 4 header < idx_magic then open_v1 filename data
           else Inl GitError)"

section \<open>Writing\<close>

type_synonym idx_entry = "bytes \<times> nat \<times> nat"

record idx_writer =
  iw_idx :: "idx_entry list list"
  iw_count :: nat

definition idx_writer0 :: idx_writer where
  "idx_writer0 = \<lparr>iw_idx = replicate 256 [], iw_count = 0\<rparr>"

definition idx_add :: "bytes \<Rightarrow> nat \<Rightarrow> nat \<Rightarrow> idx_writer \<Rightarrow> idx_writer res" where
  "idx_add sha crc offs w =
     res_bind (py_assert (sha \<noteq> [])) (\<lambda>_.
       let b = of_char (hd sha)
       in Inr (w\<lparr>iw_count := iw_count w + 1, iw_idx := (iw_idx w)[b := iw_idx w ! b @ [(sha, crc, offs)]]\<rparr>))"

text \<open>
  The C loop of \<open>write_idx\<close>: the tables filled so far, the running \<open>count\<close> and \<open>ofs64_count\<close>.  A
  \<open>sha\<close> of another length makes it return NULL with no exception set, a \<open>SystemError\<close>.
\<close>

record idx_tables =
  it_fan :: "nat list"
  it_sha :: "bytes list"
  it_crc :: "nat list"
  it_ofs :: "nat list"
  it_ofs64 :: "nat list"
  it_count :: nat

definition write_entry :: "idx_entry \<Rightarrow> idx_tables \<Rightarrow> idx_tables res" where
  "write_entry e t =
     (case e of (sha, crc, ofs) \<Rightarrow>
        if \<not> crc < 2 ^ 32 \<or> \<not> ofs < 2 ^ 64 then Inl OverflowError
        else if length sha \<noteq> 20 then Inl SystemError
        else if 0x7fffffff < ofs then
          Inr (t\<lparr>it_sha := it_sha t @ [sha], it_crc := it_crc t @ [crc],
                 it_ofs := it_ofs t @ [0x80000000 OR (length (it_ofs64 t) mod 2 ^ 32)],
                 it_ofs64 := it_ofs64 t @ [ofs]\<rparr>)
        else
          Inr (t\<lparr>it_sha := it_sha t @ [sha], it_crc := it_crc t @ [crc], it_ofs := it_ofs t @ [ofs]\<rparr>))"

fun write_entries :: "idx_entry list \<Rightarrow> idx_tables \<Rightarrow> idx_tables res" where
  "write_entries [] t = Inr t"
| "write_entries (e # es) t = res_bind (write_entry e t) (write_entries es)"

fun write_parts :: "idx_entry list list \<Rightarrow> idx_tables \<Rightarrow> idx_tables res" where
  "write_parts [] t = Inr t"
| "write_parts (part # parts) t =
     (let count = it_count t + length part
      in if \<not> count < 2 ^ 32 then Inl OverflowError
         else res_bind (write_entries (sort part) (t\<lparr>it_fan := it_fan t @ [count], it_count := count\<rparr>))
                (write_parts parts))"

text \<open>
  The tables lie one after another in the mapped file, each with room for \<open>total\<close> entries; what
  does not fit overruns the next table or the map.
\<close>

definition room :: "nat \<Rightarrow> bytes \<Rightarrow> bytes" where
  "room n table = table @ replicate (n - length table) (char_of (0 :: nat))"

definition write_idx :: "nat \<Rightarrow> idx_entry list list \<Rightarrow> nat \<Rightarrow> (bytes \<times> nat) res" where
  "write_idx map_len idx n_total =
     (if \<not> n_total < 2 ^ 32 then Inl OverflowError
      else if length idx \<noteq> 256 then Inl TypeError
      else res_bind (write_parts idx \<lparr>it_fan = [], it_sha = [], it_crc = [], it_ofs = [], it_ofs64 = [], it_count = 0\<rparr>) (\<lambda>t.
        let body = idx_magic @ be_bytes 4 2 @ concat (map (be_bytes 4) (it_fan t)) @
                   room (20 * n_total) (concat (it_sha t)) @
                   room (4 * n_total) (concat (map (be_bytes 4) (it_crc t))) @
                   room (4 * n_total) (concat (map (be_bytes 4) (it_ofs t))) @
                   concat (map (be_bytes 8) (it_ofs64 t))
        in if n_total < it_count t \<or> map_len < length body then Inl UndefinedBehaviour
           else Inr (room map_len body, it_count t)))"

text \<open>\<open>PackIdxV2Writer.write\<close>: the file's bytes; \<open>sha1\<close> is the hash function.\<close>

definition idx_write :: "(bytes \<Rightarrow> bytes) \<Rightarrow> idx_writer \<Rightarrow> bytes \<Rightarrow> bytes res" where
  "idx_write sha1 w packbin =
     (let ofs64_count = length (filter (\<lambda>e. 2 ^ 31 \<le> snd (snd e)) (concat (iw_idx w)));
          index_len = 8 + 4 * 256 + 28 * iw_count w + 8 * ofs64_count
      in res_bind (write_idx index_len (iw_idx w) (iw_count w)) (\<lambda>(body, count).
         res_bind (py_assert (count = iw_count w)) (\<lambda>_.
         let f = body @ packbin in Inr (f @ sha1 f))))"

section \<open>The search is right\<close>

lemma idx_search_ok:
  assumes "\<forall>i<length hs. to_hash i = Inr (hs ! i)" "sorted hs" "e \<le> length hs"
  shows "\<exists>r. idx_search to_hash want s e = Inr r \<and>
    (case r of Some m \<Rightarrow> s \<le> m \<and> m < e \<and> hs ! m = want
     | None \<Rightarrow> \<forall>i. s \<le> i \<and> i < e \<longrightarrow> hs ! i \<noteq> want)"
  using assms
proof (induction to_hash want s e rule: idx_search.induct)
  case (1 to_hash want s e)
  show ?case
  proof (cases "s < e")
    case False
    then have "idx_search to_hash want s e = Inr None" by (simp add: idx_search.simps [of to_hash want s e])
    then show ?thesis using False by auto
  next
    case True
    define mid where "mid = s + (e - s) div 2"
    have mid: "s \<le> mid" "mid < e" "mid < length hs" using True "1.prems"(3) by (auto simp: mid_def)
    have v: "to_hash mid = Inr (hs ! mid)" using "1.prems"(1) mid(3) by blast
    have mono: "hs ! i \<le> hs ! j" if "i \<le> j" "j < length hs" for i j
      using "1.prems"(2) that by (rule sorted_nth_mono)
    have step: "idx_search to_hash want s e =
      (if hs ! mid < want then idx_search to_hash want (mid + 1) e
       else if hs ! mid > want then idx_search to_hash want s mid else Inr (Some mid))"
      using True v by (subst idx_search.simps) (simp add: Let_def mid_def [symmetric])
    consider "hs ! mid < want" | "want < hs ! mid" | "hs ! mid = want" by force
    then show ?thesis
    proof cases
      case 1
      then have eq: "idx_search to_hash want s e = idx_search to_hash want (mid + 1) e" using step by simp
      obtain r where r: "idx_search to_hash want (mid + 1) e = Inr r"
        "case r of Some m \<Rightarrow> mid + 1 \<le> m \<and> m < e \<and> hs ! m = want | None \<Rightarrow> \<forall>i. mid + 1 \<le> i \<and> i < e \<longrightarrow> hs ! i \<noteq> want"
        using "1.IH"(1) [OF True mid_def _ 1 "1.prems"] v by blast
      have low: "hs ! i \<noteq> want" if "i \<le> mid" for i using mono [OF that mid(3)] 1 by auto
      show ?thesis
      proof (cases r)
        case None
        then have "hs ! i \<noteq> want" if "s \<le> i \<and> i < e" for i
          using low [of i] r(2) that by (cases "i \<le> mid") auto
        then show ?thesis using eq r(1) None by auto
      next
        case (Some m)
        then show ?thesis using eq r mid(1) by auto
      qed
    next
      case 2
      then have eq: "idx_search to_hash want s e = idx_search to_hash want s mid" using step by (auto dest: less_asym)
      have "mid \<le> length hs" using mid by simp
      then obtain r where r: "idx_search to_hash want s mid = Inr r"
        "case r of Some m \<Rightarrow> s \<le> m \<and> m < mid \<and> hs ! m = want | None \<Rightarrow> \<forall>i. s \<le> i \<and> i < mid \<longrightarrow> hs ! i \<noteq> want"
        using "1.IH"(2) [OF True mid_def _ _ 2 "1.prems"(1,2)] v 2 by fastforce
      have high: "hs ! i \<noteq> want" if "mid \<le> i" "i < e" for i
        using mono [OF that(1)] that(2) "1.prems"(3) 2 by fastforce
      show ?thesis
      proof (cases r)
        case None
        then have "hs ! i \<noteq> want" if "s \<le> i \<and> i < e" for i
          using high [of i] r(2) that by (cases "mid \<le> i") auto
        then show ?thesis using eq r(1) None by auto
      next
        case (Some m)
        then show ?thesis using eq r mid(2) by auto
      qed
    next
      case 3
      then show ?thesis using step mid by simp
    qed
  qed
qed

lemma sorted_filter_prefix:
  assumes "sorted hs" "\<And>x y. x \<le> y \<Longrightarrow> y \<in> set hs \<Longrightarrow> x \<in> set hs \<Longrightarrow> P y \<Longrightarrow> P x" "i < length hs"
  shows "P (hs ! i) \<longleftrightarrow> i < length (filter P hs)"
  using assms
proof (induction hs arbitrary: i)
  case Nil
  then show ?case by simp
next
  case (Cons h hs)
  have IH: "P (hs ! i) \<longleftrightarrow> i < length (filter P hs)" if "i < length hs" for i
    using Cons.IH [OF _ _ that] Cons.prems(1,2) by (metis list.set_intros(2) sorted_simps(2))
  show ?case
  proof (cases "P h")
    case True
    then show ?thesis using IH Cons.prems(3) by (cases i) auto
  next
    case False
    then have "\<not> P y" if "y \<in> set (h # hs)" for y
      using that Cons.prems(1,2) by (metis list.set_intros(1) set_ConsD sorted_simps(2))
    then have "filter P (h # hs) = []" by (auto simp: filter_empty_conv)
    moreover have "\<not> P ((h # hs) ! i)" using \<open>\<And>y. y \<in> set (h # hs) \<Longrightarrow> \<not> P y\<close> Cons.prems(3) nth_mem by blast
    ultimately show ?thesis by simp
  qed
qed

text \<open>What a well-formed index says: the hashes \<open>hs\<close> in order, and the fan-out table of them.\<close>

definition wf_idx :: "pack_idx \<Rightarrow> bytes list \<Rightarrow> bool" where
  "wf_idx px hs \<longleftrightarrow>
     px_nsha px = length hs \<and> (\<forall>i<length hs. idx_to_hash px i = Inr (hs ! i)) \<and> sorted hs \<and>
     (\<forall>h\<in>set hs. length h = 20) \<and> length (px_fanout px) = 257 \<and> last (px_fanout px) = 0 \<and>
     (\<forall>b<256. px_fanout px ! b = length (filter (\<lambda>h. of_char (hd h) \<le> b) hs))"

lemma hd_mono:
  fixes x y :: bytes
  assumes "x \<le> y" "x \<noteq> []" "y \<noteq> []"
  shows "(of_char (hd x) :: nat) \<le> of_char (hd y)"
  using assms by (cases x; cases y) (auto simp: less_char_def)

lemma idx_from_hash_ok:
  assumes "wf_idx px hs" "length want = 20"
  shows "\<exists>r. idx_from_hash px want = Inr r \<and>
    (case r of Some m \<Rightarrow> m < length hs \<and> hs ! m = want | None \<Rightarrow> want \<notin> set hs)"
proof -
  let ?b = "of_char (hd want) :: nat"
  let ?fan = "\<lambda>b :: nat. length (filter (\<lambda>h. of_char (hd h) \<le> b) hs)"
  have wf: "\<forall>i<length hs. idx_to_hash px i = Inr (hs ! i)" "sorted hs" "\<forall>h\<in>set hs. h \<noteq> []"
    "\<And>b. b < 256 \<Longrightarrow> px_fanout px ! b = ?fan b" "last (px_fanout px) = 0"
    using assms(1) by (auto simp: wf_idx_def)
  have b: "?b < 256" by (rule nat_of_char_less_256)
  define s where "s = (if ?b = 0 then last (px_fanout px) else px_fanout px ! (?b - 1))"
  have b1: "?b - 1 < 256" using b by linarith
  have s: "s = (if ?b = 0 then 0 else ?fan (?b - 1))" using wf(4) [OF b1] wf(5) by (simp add: s_def)
  have e: "px_fanout px ! ?b = ?fan ?b" using wf(4) b by blast
  have fan: "of_char (hd (hs ! i)) \<le> b \<longleftrightarrow> i < ?fan b" if "i < length hs" for i b
  proof (rule sorted_filter_prefix [OF wf(2) _ that])
    fix x y assume xy: "x \<le> y" "y \<in> set hs" "x \<in> set hs" and y: "of_char (hd y) \<le> b"
    have "x \<noteq> []" "y \<noteq> []" using wf(3) xy by auto
    from hd_mono [OF xy(1) this] y show "of_char (hd x) \<le> b" by (rule order_trans)
  qed
  have "s \<le> i \<and> i < ?fan ?b" if i: "i < length hs" "hs ! i = want" for i
  proof -
    have "i < ?fan ?b" using fan [OF i(1), of ?b] i(2) by simp
    moreover have "s \<le> i"
    proof (cases "?b = 0")
      case True
      then show ?thesis using s by simp
    next
      case False
      then have "\<not> of_char (hd (hs ! i)) \<le> ?b - 1" using i(2) by simp
      then show ?thesis using fan [OF i(1), of "?b - 1"] s False by simp
    qed
    ultimately show ?thesis by blast
  qed
  then have rng: "s \<le> i \<and> i < ?fan ?b" if "i < length hs" "hs ! i = want" for i using that by blast
  have le: "?fan ?b \<le> length hs" by simp
  have eq: "idx_from_hash px want = idx_search (idx_to_hash px) want s (?fan ?b)"
    using assms(2) e by (simp add: idx_from_hash_def Let_def s_def)
  obtain r where r: "idx_from_hash px want = Inr r"
    "case r of Some m \<Rightarrow> s \<le> m \<and> m < ?fan ?b \<and> hs ! m = want | None \<Rightarrow> \<forall>i. s \<le> i \<and> i < ?fan ?b \<longrightarrow> hs ! i \<noteq> want"
    unfolding eq using idx_search_ok [OF wf(1,2) le, of want s] by (elim exE conjE) (rule that [unfolded eq])
  show ?thesis
  proof (cases r)
    case None
    have "want \<notin> set hs"
    proof
      assume "want \<in> set hs"
      then obtain i where i: "i < length hs" "hs ! i = want" by (auto simp: in_set_conv_nth)
      have "hs ! i \<noteq> want" using r(2) None rng [OF i] by simp
      then show False using i(2) by simp
    qed
    then show ?thesis using r(1) None by simp
  next
    case (Some m)
    then have "m < ?fan ?b" "hs ! m = want" using r(2) by simp_all
    then have "m < length hs \<and> hs ! m = want" using le by linarith
    then show ?thesis using r(1) Some by simp
  qed
qed

section \<open>The writer's tables\<close>

definition entry_ok :: "idx_entry \<Rightarrow> bool" where
  "entry_ok e \<longleftrightarrow> (case e of (sha, crc, ofs) \<Rightarrow> length sha = 20 \<and> crc < 2 ^ 32 \<and> ofs < 2 ^ 64)"

definition big_ofs :: "idx_entry \<Rightarrow> bool" where
  "big_ofs e \<longleftrightarrow> 2 ^ 31 \<le> snd (snd e)"

text \<open>A 32 bit field stands for an offset: itself, or the index of a 64 bit field.\<close>

definition ofs_field :: "nat list \<Rightarrow> nat \<Rightarrow> nat \<Rightarrow> bool" where
  "ofs_field big f ofs \<longleftrightarrow>
     f < 2 ^ 32 \<and>
     (if f AND 0x80000000 \<noteq> 0 then f AND 0x7fffffff < length big \<and> big ! (f AND 0x7fffffff) = ofs else f = ofs)"

lemma small_field:
  assumes "ofs \<le> 0x7fffffff"
  shows "ofs_field big ofs ofs"
proof -
  have "ofs AND 0x80000000 = 0"
  proof (rule bit_eqI)
    fix n
    have "take_bit 31 ofs = ofs" using assms by (simp add: take_bit_nat_eq_self)
    moreover have "(0x80000000 :: nat) = push_bit 31 1" by (simp add: push_bit_eq_mult)
    ultimately show "bit (ofs AND 0x80000000) n = bit 0 n"
      by (metis bit_0_eq bit_and_iff bit_push_bit_iff bit_take_bit_iff bot_apply bot_bool_def not_less)
  qed
  then show ?thesis using assms by (simp add: ofs_field_def)
qed

lemma high_bit:
  fixes k :: nat
  shows "(push_bit n 1 OR take_bit n k) AND push_bit n 1 = push_bit n 1"
    "(push_bit n 1 OR take_bit n k) AND mask n = take_bit n k"
    "take_bit (Suc n) (push_bit n 1 OR take_bit n k) = push_bit n 1 OR take_bit n k"
  by (rule bit_eqI; auto simp: bit_simps)+

lemma big_field:
  assumes "k < 2 ^ 31" "k < length big" "big ! k = ofs"
  shows "ofs_field big (0x80000000 OR (k mod 2 ^ 32)) ofs"
proof -
  have k: "k mod 2 ^ 32 = k" using assms(1) by simp
  have t: "take_bit 31 k = k" using assms(1) by (simp add: take_bit_nat_eq_self)
  have p: "(0x80000000 :: nat) = push_bit 31 1" by (simp add: push_bit_eq_mult)
  have m: "(0x7fffffff :: nat) = mask 31" by (simp add: mask_eq_exp_minus_1)
  have "(0x80000000 OR k) AND 0x80000000 = (0x80000000 :: nat)"
    using high_bit(1) [of 31 k] by (simp only: t p)
  moreover have "(0x80000000 OR k) AND 0x7fffffff = k"
    using high_bit(2) [of 31 k] by (simp only: t p m)
  moreover have "0x80000000 OR k < 2 ^ 32"
  proof -
    have "take_bit (Suc 31) (0x80000000 OR k) = 0x80000000 OR k"
      using high_bit(3) [of 31 k] by (simp only: t p)
    then have "0x80000000 OR k < 2 ^ Suc 31" by (simp only: take_bit_nat_eq_self_iff)
    then show ?thesis by simp
  qed
  ultimately show ?thesis using assms(2,3) k by (simp add: ofs_field_def)
qed

lemma ofs_field_append: "ofs_field big f ofs \<Longrightarrow> ofs_field (big @ big') f ofs"
  by (auto simp: ofs_field_def nth_append split: if_splits)

definition tables_ok :: "idx_tables \<Rightarrow> idx_entry list \<Rightarrow> bool" where
  "tables_ok t es \<longleftrightarrow>
     it_sha t = map fst es \<and> it_crc t = map (fst \<circ> snd) es \<and>
     list_all2 (ofs_field (it_ofs64 t)) (it_ofs t) (map (snd \<circ> snd) es) \<and>
     it_ofs64 t = filter (\<lambda>n. 2 ^ 31 \<le> n) (map (snd \<circ> snd) es)"

lemma write_entry_ok:
  assumes "tables_ok t es0" "entry_ok e" "length es0 < 2 ^ 31"
  shows "\<exists>t'. write_entry e t = Inr t' \<and> tables_ok t' (es0 @ [e]) \<and> it_fan t' = it_fan t \<and> it_count t' = it_count t"
proof -
  obtain sha crc ofs where e: "e = (sha, crc, ofs)" by (cases e)
  have ok: "crc < 2 ^ 32" "ofs < 2 ^ 64" "length sha = 20" using assms(2) by (simp_all add: e entry_ok_def)
  have t: "it_sha t = map fst es0" "it_crc t = map (fst \<circ> snd) es0"
    "list_all2 (ofs_field (it_ofs64 t)) (it_ofs t) (map (snd \<circ> snd) es0)"
    "it_ofs64 t = filter (\<lambda>n. 2 ^ 31 \<le> n) (map (snd \<circ> snd) es0)"
    using assms(1) unfolding tables_ok_def by blast+
  show ?thesis
  proof (cases "0x7fffffff < ofs")
    case True
    let ?f = "0x80000000 OR (length (it_ofs64 t) mod 2 ^ 32)"
    let ?big = "it_ofs64 t @ [ofs]"
    have "length (it_ofs64 t) \<le> length (map (snd \<circ> snd) es0)" unfolding t(4) by (rule length_filter_le)
    then have "length (it_ofs64 t) < 2 ^ 31" using assms(3) by simp
    then have f: "ofs_field ?big ?f ofs" by (intro big_field) simp_all
    have "list_all2 (ofs_field ?big) (it_ofs t) (map (snd \<circ> snd) es0)"
      using t(3) by (rule list_all2_mono) (rule ofs_field_append)
    then have "tables_ok (t\<lparr>it_sha := it_sha t @ [sha], it_crc := it_crc t @ [crc], it_ofs := it_ofs t @ [?f],
        it_ofs64 := ?big\<rparr>) (es0 @ [e])"
      using t(1,2,4) f True by (simp add: tables_ok_def e list_all2_appendI)
    then show ?thesis using True ok by (simp add: e write_entry_def)
  next
    case False
    then have f: "ofs_field (it_ofs64 t) ofs ofs" by (intro small_field) simp
    have "tables_ok (t\<lparr>it_sha := it_sha t @ [sha], it_crc := it_crc t @ [crc], it_ofs := it_ofs t @ [ofs]\<rparr>) (es0 @ [e])"
      using t f False by (simp add: tables_ok_def e list_all2_appendI)
    then show ?thesis using False ok by (simp add: e write_entry_def)
  qed
qed

lemma write_entries_ok:
  assumes "tables_ok t es0" "\<forall>e\<in>set es. entry_ok e" "length es0 + length es < 2 ^ 31"
  shows "\<exists>t'. write_entries es t = Inr t' \<and> tables_ok t' (es0 @ es) \<and> it_fan t' = it_fan t \<and> it_count t' = it_count t"
  using assms
proof (induction es arbitrary: t es0)
  case Nil
  then show ?case by simp
next
  case (Cons e es)
  obtain t1 where t1: "write_entry e t = Inr t1" "tables_ok t1 (es0 @ [e])" "it_fan t1 = it_fan t" "it_count t1 = it_count t"
    using write_entry_ok [of t es0 e] Cons.prems by auto
  then show ?case using Cons.IH [OF t1(2)] Cons.prems by auto
qed

lemma tables_ok_upd: "tables_ok (t\<lparr>it_fan := f, it_count := c\<rparr>) es \<longleftrightarrow> tables_ok t es"
  by (simp add: tables_ok_def)

lemma write_parts_ok:
  assumes "tables_ok t es0" "it_count t = length es0" "\<forall>e\<in>set (concat parts). entry_ok e"
    "length es0 + length (concat parts) < 2 ^ 31"
  shows "\<exists>t'. write_parts parts t = Inr t' \<and> tables_ok t' (es0 @ concat (map sort parts)) \<and>
    it_count t' = length es0 + length (concat parts) \<and>
    it_fan t' = it_fan t @ map (\<lambda>i. length es0 + length (concat (take (Suc i) parts))) [0..<length parts]"
  using assms
proof (induction parts arbitrary: t es0)
  case Nil
  then show ?case by simp
next
  case (Cons part parts)
  let ?n = "it_count t + length part"
  let ?t = "t\<lparr>it_fan := it_fan t @ [?n], it_count := ?n\<rparr>"
  have "tables_ok ?t es0" using Cons.prems(1) by (simp only: tables_ok_upd)
  then obtain t1 where t1: "write_entries (sort part) ?t = Inr t1" "tables_ok t1 (es0 @ sort part)"
    "it_fan t1 = it_fan ?t" "it_count t1 = it_count ?t"
    using write_entries_ok [of ?t es0 "sort part"] Cons.prems(3,4) by auto
  obtain t2 where t2: "write_parts parts t1 = Inr t2" "tables_ok t2 ((es0 @ sort part) @ concat (map sort parts))"
    "it_count t2 = length (es0 @ sort part) + length (concat parts)"
    "it_fan t2 = it_fan t1 @ map (\<lambda>i. length (es0 @ sort part) + length (concat (take (Suc i) parts))) [0..<length parts]"
    using Cons.IH [OF t1(2)] Cons.prems t1(4) by auto
  have up: "[0..<length (part # parts)] = 0 # map Suc [0..<length parts]" by (simp add: upt_conv_Cons map_Suc_upt del: upt_Suc)
  have "?n < 2 ^ 32" using Cons.prems(2,4) by simp
  then have "write_parts (part # parts) t = Inr t2" using t1(1) t2(1) by (simp add: Let_def)
  moreover have "it_fan t2 = it_fan t @ map (\<lambda>i. length es0 + length (concat (take (Suc i) (part # parts)))) [0..<length (part # parts)]"
    unfolding up using t2(4) t1(3) Cons.prems(2) by (simp add: comp_def add.assoc)
  ultimately show ?case using t2(2,3) by simp
qed

section \<open>The parts\<close>

abbreviation first_byte :: "idx_entry \<Rightarrow> nat" where
  "first_byte e \<equiv> of_char (hd (fst e))"

definition parts_of :: "idx_entry list \<Rightarrow> idx_entry list list" where
  "parts_of es = map (\<lambda>b. filter (\<lambda>e. first_byte e = b) es) [0..<256]"

fun idx_add_all :: "idx_entry list \<Rightarrow> idx_writer \<Rightarrow> idx_writer res" where
  "idx_add_all [] w = Inr w"
| "idx_add_all (e # es) w = res_bind (idx_add (fst e) (fst (snd e)) (snd (snd e)) w) (idx_add_all es)"

lemma idx_add_all_ok:
  assumes "\<forall>e\<in>set es. fst e \<noteq> []" "iw_idx w = parts_of es0" "iw_count w = length es0"
  shows "idx_add_all es w = Inr \<lparr>iw_idx = parts_of (es0 @ es), iw_count = length (es0 @ es)\<rparr>"
  using assms
proof (induction es arbitrary: w es0)
  case Nil
  then show ?case by (cases w) simp
next
  case (Cons e es)
  let ?b = "first_byte e"
  have b: "?b < 256" by (rule nat_of_char_less_256)
  have "(parts_of es0)[?b := parts_of es0 ! ?b @ [e]] = parts_of (es0 @ [e])"
    using b by (intro nth_equalityI) (auto simp: parts_of_def nth_list_update)
  then have "idx_add (fst e) (fst (snd e)) (snd (snd e)) w =
    Inr \<lparr>iw_idx = parts_of (es0 @ [e]), iw_count = length (es0 @ [e])\<rparr>"
    using Cons.prems by (cases w) (simp add: idx_add_def Let_def)
  then show ?case using Cons.IH [of "\<lparr>iw_idx = parts_of (es0 @ [e]), iw_count = length (es0 @ [e])\<rparr>" "es0 @ [e]"] Cons.prems by simp
qed

lemma parts_of_Nil: "iw_idx idx_writer0 = parts_of []" "iw_count idx_writer0 = 0"
  by (simp_all add: idx_writer0_def parts_of_def map_replicate_const)

lemma mset_parts:
  "mset (concat (map (\<lambda>b. filter (\<lambda>e. first_byte e = b) es) [0..<n])) = filter_mset (\<lambda>e. first_byte e < n) (mset es)"
proof (induction n)
  case 0
  then show ?case by simp
next
  case (Suc n)
  have "filter_mset (\<lambda>e. first_byte e < Suc n) (mset es) =
      filter_mset (\<lambda>e. first_byte e < n) (mset es) + filter_mset (\<lambda>e. first_byte e = n) (mset es)"
    by (induction es) (auto simp: less_Suc_eq)
  then show ?case using Suc by (simp add: mset_filter)
qed

lemma mset_parts_of: "mset (concat (parts_of es)) = mset es"
proof -
  have "filter_mset (\<lambda>e. first_byte e < 256) (mset es) = mset es"
    by (induction es) (simp_all add: nat_of_char_less_256)
  then show ?thesis by (simp add: parts_of_def mset_parts)
qed

definition sorted_entries :: "idx_entry list \<Rightarrow> idx_entry list" where
  "sorted_entries es = concat (map sort (parts_of es))"

lemma mset_sorted_entries: "mset (sorted_entries es) = mset es"
proof -
  have "mset (concat (map sort xss)) = mset (concat xss)" for xss :: "idx_entry list list"
    by (induction xss) simp_all
  then show ?thesis by (simp add: sorted_entries_def mset_parts_of)
qed

lemma length_sorted_entries [simp]: "length (sorted_entries es) = length es"
  using mset_sorted_entries by (metis size_mset)

lemma set_sorted_entries [simp]: "set (sorted_entries es) = set es"
  using mset_sorted_entries by (metis set_mset_mset)

lemma first_byte_less:
  fixes x y :: bytes
  assumes "(of_char (hd x) :: nat) < of_char (hd y)" "x \<noteq> []" "y \<noteq> []"
  shows "x \<le> y"
  using assms by (cases x; cases y) (auto simp: less_char_def)

lemma sorted_map_fst: "sorted (es :: idx_entry list) \<Longrightarrow> sorted (map fst es)"
  by (induction es) (auto simp: less_eq_prod_def)

lemma sorted_parts:
  assumes "\<forall>e\<in>set es. fst e \<noteq> []"
  shows "sorted (map fst (concat (map (\<lambda>b. sort (filter (\<lambda>e. first_byte e = b) es)) [0..<n])))"
proof (induction n)
  case 0
  then show ?case by simp
next
  case (Suc n)
  have "x \<le> y" if "x \<in> set (map fst (concat (map (\<lambda>b. sort (filter (\<lambda>e. first_byte e = b) es)) [0..<n])))"
    "y \<in> set (map fst (sort (filter (\<lambda>e. first_byte e = n) es)))" for x y
    using that assms by (auto intro!: first_byte_less)
  then show ?case using Suc by (auto simp: sorted_append sorted_map_fst)
qed

lemma sorted_sorted_entries: "\<forall>e\<in>set es. fst e \<noteq> [] \<Longrightarrow> sorted (map fst (sorted_entries es))"
  using sorted_parts [of es 256] by (simp add: sorted_entries_def parts_of_def comp_def)

lemma length_filter_mset: "length (filter P xs) = size (filter_mset P (mset xs))"
  by (metis mset_filter size_mset)

lemma fan_parts:
  assumes "b < 256"
  shows "length (concat (take (Suc b) (parts_of es))) =
    length (filter (\<lambda>h. of_char (hd h) \<le> b) (map fst (sorted_entries es)))"
proof -
  have "take (Suc b) (parts_of es) = map (\<lambda>b. filter (\<lambda>e. first_byte e = b) es) [0..<Suc b]"
    using assms by (simp add: parts_of_def take_map take_upt del: upt_Suc)
  then have "length (concat (take (Suc b) (parts_of es))) = size (filter_mset (\<lambda>e. first_byte e < Suc b) (mset es))"
    using mset_parts [of es "Suc b"] by (metis size_mset)
  also have "\<dots> = length (filter (\<lambda>e. first_byte e < Suc b) (sorted_entries es))"
    by (simp add: length_filter_mset mset_sorted_entries)
  finally show ?thesis by (simp add: filter_map comp_def less_Suc_eq_le)
qed

section \<open>The file\<close>

definition idx_body :: "idx_tables \<Rightarrow> bytes" where
  "idx_body t = idx_magic @ be_bytes 4 2 @ concat (map (be_bytes 4) (it_fan t)) @ concat (it_sha t) @
     concat (map (be_bytes 4) (it_crc t)) @ concat (map (be_bytes 4) (it_ofs t)) @
     concat (map (be_bytes 8) (it_ofs64 t))"

definition entries_ok :: "idx_entry list \<Rightarrow> bool" where
  "entries_ok es \<longleftrightarrow> (\<forall>e\<in>set es. entry_ok e) \<and> length es < 2 ^ 31"

lemma entries_ok_fst: "entries_ok es \<Longrightarrow> \<forall>e\<in>set es. fst e \<noteq> [] \<and> length (fst e) = 20"
  by (auto simp: entries_ok_def entry_ok_def)

definition idx_tables0 :: idx_tables where
  "idx_tables0 = \<lparr>it_fan = [], it_sha = [], it_crc = [], it_ofs = [], it_ofs64 = [], it_count = 0\<rparr>"

lemma write_parts_tables:
  assumes "entries_ok es"
  shows "\<exists>t. write_parts (parts_of es) idx_tables0 = Inr t \<and> tables_ok t (sorted_entries es) \<and> it_count t = length es \<and>
    it_fan t = map (\<lambda>b. length (filter (\<lambda>h. of_char (hd h) \<le> b) (map fst (sorted_entries es)))) [0..<256]"
proof -
  have l: "length (concat (parts_of es)) = length es" using mset_parts_of by (metis size_mset)
  have s: "set (concat (parts_of es)) = set es" using mset_parts_of by (metis set_mset_mset)
  have "tables_ok idx_tables0 []" "it_count idx_tables0 = length ([] :: idx_entry list)"
    by (simp_all add: idx_tables0_def tables_ok_def)
  from write_parts_ok [OF this, of "parts_of es"] obtain t where t:
    "write_parts (parts_of es) idx_tables0 = Inr t" "tables_ok t (sorted_entries es)" "it_count t = length es"
    "it_fan t = map (\<lambda>i. length (concat (take (Suc i) (parts_of es)))) [0..<length (parts_of es)]"
    using assms unfolding l s by (auto simp: entries_ok_def sorted_entries_def idx_tables0_def)
  have l256: "length (parts_of es) = 256" by (simp add: parts_of_def)
  have "it_fan t = map (\<lambda>b. length (filter (\<lambda>h. of_char (hd h) \<le> b) (map fst (sorted_entries es)))) [0..<256]"
    unfolding t(4) l256 by (rule map_cong [OF refl], rule fan_parts) simp
  then show ?thesis using t by blast
qed

lemma length_be_table [simp]: "length (concat (map (be_bytes k) ns)) = k * length ns"
  by (induction ns) simp_all

lemma length_tables:
  assumes "tables_ok t (sorted_entries es)" "entries_ok es"
  shows "length (concat (it_sha t)) = 20 * length es" "length (concat (map (be_bytes 4) (it_crc t))) = 4 * length es"
    "length (it_ofs t) = length es" "length (concat (map (be_bytes 4) (it_ofs t))) = 4 * length es"
    "length (concat (map (be_bytes 8) (it_ofs64 t))) =
      8 * length (filter (\<lambda>e. 2 ^ 31 \<le> snd (snd e)) (concat (parts_of es)))"
proof -
  have t: "it_sha t = map fst (sorted_entries es)" "it_crc t = map (fst \<circ> snd) (sorted_entries es)"
    "length (it_ofs t) = length (sorted_entries es)"
    "it_ofs64 t = filter (\<lambda>n. 2 ^ 31 \<le> n) (map (snd \<circ> snd) (sorted_entries es))"
    using assms(1) by (auto simp: tables_ok_def dest: list_all2_lengthD)
  have "\<forall>h\<in>set (it_sha t). length h = 20" using t(1) entries_ok_fst [OF assms(2)] by auto
  then show "length (concat (it_sha t)) = 20 * length es" using length_concat_same [of "it_sha t" 20] t(1) by simp
  show "length (concat (map (be_bytes 4) (it_crc t))) = 4 * length es"
    unfolding length_be_table t(2) by simp
  show l: "length (it_ofs t) = length es" using t(3) by simp
  show "length (concat (map (be_bytes 4) (it_ofs t))) = 4 * length es" using l by simp
  have "length (it_ofs64 t) = length (filter (\<lambda>e. 2 ^ 31 \<le> snd (snd e)) (sorted_entries es))"
    unfolding t(4) by (simp add: filter_map comp_def)
  also have "\<dots> = length (filter (\<lambda>e. 2 ^ 31 \<le> snd (snd e)) (concat (parts_of es)))"
    by (simp add: length_filter_mset mset_sorted_entries mset_parts_of)
  finally show "length (concat (map (be_bytes 8) (it_ofs64 t))) =
      8 * length (filter (\<lambda>e. 2 ^ 31 \<le> snd (snd e)) (concat (parts_of es)))"
    by simp
qed

lemma room_exact: "length table = n \<Longrightarrow> room n table = table"
  by (simp add: room_def)

lemma idx_write_ok:
  assumes "entries_ok es" "w = \<lparr>iw_idx = parts_of es, iw_count = length es\<rparr>"
    "write_parts (parts_of es) idx_tables0 = Inr t" "tables_ok t (sorted_entries es)" "it_count t = length es"
    "length (it_fan t) = 256"
  shows "idx_write sha1 w packbin = Inr (idx_body t @ packbin @ sha1 (idx_body t @ packbin))"
proof -
  note len = length_tables [OF assms(4,1)]
  let ?n = "length es" and ?m = "length (filter (\<lambda>e. 2 ^ 31 \<le> snd (snd e)) (concat (parts_of es)))"
  have r: "room (20 * ?n) (concat (it_sha t)) = concat (it_sha t)"
    "room (4 * ?n) (concat (map (be_bytes 4) (it_crc t))) = concat (map (be_bytes 4) (it_crc t))"
    "room (4 * ?n) (concat (map (be_bytes 4) (it_ofs t))) = concat (map (be_bytes 4) (it_ofs t))"
    using len by (intro room_exact; simp)+
  have fan: "length (concat (map (be_bytes 4) (it_fan t))) = 4 * 256"
    using assms(6) by simp
  have "length idx_magic = 4" by (simp add: idx_magic_def)
  then have body: "length (idx_body t) = 8 + 4 * 256 + 28 * ?n + 8 * ?m"
    using fan len by (simp add: idx_body_def)
  have "write_idx (8 + 4 * 256 + 28 * ?n + 8 * ?m) (parts_of es) ?n = Inr (idx_body t, ?n)"
  proof -
    have "?n < 2 ^ 32" using assms(1) by (simp add: entries_ok_def)
    moreover have "length (parts_of es) = 256" by (simp add: parts_of_def)
    ultimately show ?thesis
      unfolding write_idx_def idx_tables0_def [symmetric] assms(3)
      by (simp only: res_bind_simps Let_def r idx_body_def [symmetric] assms(5) body room_exact [OF body]) simp
  qed
  then show ?thesis using assms(2) by (simp add: idx_write_def Let_def)
qed

text \<open>Opening the written file gives an index that is well formed and whose offsets are the entries'.\<close>

lemma open_written:
  assumes "entries_ok es" "es \<noteq> []" "suffix ''.idx'' name"
    and "tables_ok t (sorted_entries es)"
    and fan: "it_fan t = map (\<lambda>b. length (filter (\<lambda>h. of_char (hd h) \<le> b) (map fst (sorted_entries es)))) [0..<256]"
    and data: "data = idx_body t @ trailer"
  shows "\<exists>px. open_idx name data = Inr px \<and> px_version px = V2 \<and> px_name px = name \<and> px_map px = data \<and>
    px_nsha px = length es \<and> wf_idx px (map fst (sorted_entries es))"
proof -
  let ?hs = "map fst (sorted_entries es)"
  let ?head = "idx_magic @ be_bytes 4 2"
  let ?px = "\<lparr>px_version = V2, px_name = name, px_map = data, px_fanout = it_fan t @ [0], px_nsha = length es\<rparr>"
  have m: "length idx_magic = 4" by (simp add: idx_magic_def)
  have head: "take 8 data = ?head" "take 4 ?head = idx_magic" "drop 4 ?head = be_bytes 4 2" "length ?head = 8"
    using m by (simp_all add: data idx_body_def)
  have ofk: "\<forall>h\<in>set ?hs. h \<noteq> [] \<and> length h = 20" using entries_ok_fst [OF assms(1)] by auto
  have fan_le: "\<forall>n\<in>set (it_fan t). n < 256 ^ 4"
  proof
    fix n assume "n \<in> set (it_fan t)"
    then obtain b :: nat where "n = length (filter (\<lambda>h. of_char (hd h) \<le> b) ?hs)"
      unfolding fan set_map by (elim imageE) (rule that)
    then have "n \<le> length ?hs" using length_filter_le [of "\<lambda>h. of_char (hd h) \<le> b" ?hs] by linarith
    then show "n < 256 ^ 4" using assms(1) by (simp add: entries_ok_def)
  qed
  have lf: "length (it_fan t) = 256" by (simp add: fan)
  have "unpack_array 4 (length (it_fan t)) data 8 = Inr (it_fan t)"
    by (rule unpack_array_table [OF fan_le _ head(4)]) (simp add: data idx_body_def)
  then have ua: "unpack_array 4 256 data 8 = Inr (it_fan t)" by (simp only: lf)
  have "of_char (hd h) \<le> (255 :: nat)" for h :: bytes using nat_of_char_less_256 [of "hd h"] by linarith
  then have n: "it_fan t ! 255 = length es" by (simp add: fan)
  have "open_v2 name data = Inr ?px"
    using ua n head assms(2) by (simp add: open_v2_def Let_def)
  then have "open_idx name data = Inr ?px"
    using head assms(3) by (simp add: open_idx_def Let_def)
  moreover have "wf_idx ?px ?hs"
  proof -
    have sh: "it_sha t = ?hs" using assms(4) by (simp add: tables_ok_def)
    have "idx_to_hash ?px i = Inr (?hs ! i)" if "i < length es" for i
    proof -
      have "take 20 (drop (1032 + 20 * i) data) = it_sha t ! i"
        by (rule table_field(1) [where pre = "?head @ concat (map (be_bytes 4) (it_fan t))"])
          (use that sh ofk lf head(4) in \<open>auto simp: data idx_body_def\<close>)
      then show ?thesis using that sh by (simp add: idx_to_hash_def sha_ofs_def slice_def Let_def mult.commute)
    qed
    moreover have "sorted ?hs" using sorted_sorted_entries entries_ok_fst [OF assms(1)] by blast
    moreover have "(it_fan t @ [0]) ! b = length (filter (\<lambda>h. of_char (hd h) \<le> b) ?hs)" if "b < 256" for b
      using that lf by (simp add: nth_append fan)
    ultimately show ?thesis using ofk lf by (simp add: wf_idx_def)
  qed
  ultimately show ?thesis by (intro exI [of _ ?px]) simp
qed

lemma ofs_written:
  assumes "entries_ok es" "tables_ok t (sorted_entries es)" "length (it_fan t) = 256"
    and "px_map px = idx_body t @ trailer" "px_version px = V2" "px_nsha px = length es" "i < length es"
  shows "ofs_from_idx px i = Inr (snd (snd (sorted_entries es ! i)))"
proof -
  let ?n = "length es"
  let ?p1 = "idx_magic @ be_bytes 4 2 @ concat (map (be_bytes 4) (it_fan t)) @ concat (it_sha t) @
    concat (map (be_bytes 4) (it_crc t))"
  let ?p2 = "?p1 @ concat (map (be_bytes 4) (it_ofs t))"
  note len = length_tables [OF assms(2,1)]
  have l1: "length ?p1 = ofstable_ofs px" "length ?p2 = ofs64table_ofs px"
    using len assms(3,5,6) by (simp_all add: idx_magic_def ofstable_ofs_def ofs64table_ofs_def sha_ofs_def)
  have field: "list_all2 (ofs_field (it_ofs64 t)) (it_ofs t) (map (snd \<circ> snd) (sorted_entries es))"
    and big: "it_ofs64 t = filter (\<lambda>n. 2 ^ 31 \<le> n) (map (snd \<circ> snd) (sorted_entries es))"
    using assms(2) by (auto simp: tables_ok_def)
  let ?f = "it_ofs t ! i"
  have f: "ofs_field (it_ofs64 t) ?f (snd (snd (sorted_entries es ! i)))"
    using list_all2_nthD [OF field, of i] len(3) assms(7) by simp
  have small: "\<forall>n\<in>set (it_ofs t). n < 256 ^ 4"
  proof
    fix n assume "n \<in> set (it_ofs t)"
    then obtain j where "j < length (it_ofs t)" "it_ofs t ! j = n" by (auto simp: in_set_conv_nth)
    then show "n < 256 ^ 4" using list_all2_nthD [OF field, of j] by (simp add: ofs_field_def)
  qed
  have bigs: "\<forall>n\<in>set (it_ofs64 t). n < 256 ^ 8"
    using assms(1) unfolding big by (auto simp: entries_ok_def entry_ok_def)
  have "unpack_from 4 (px_map px) (ofstable_ofs px + i * 4) = Inr ?f"
    by (rule unpack_from_table [OF _ small, where pre = ?p1])
      (use len(3) assms(7) l1 in \<open>simp_all add: assms(4) idx_body_def\<close>)
  moreover have "unpack_from 8 (px_map px) (ofs64table_ofs px + k * 8) = Inr (it_ofs64 t ! k)" if "k < length (it_ofs64 t)" for k
    by (rule unpack_from_table [OF that bigs, where pre = ?p2])
      (use l1 in \<open>simp_all add: assms(4) idx_body_def\<close>)
  ultimately show ?thesis
    using f assms(5,6,7)
    by (auto simp: ofs_from_idx_def oid_ofs_from_ofs32_ofs_def Let_def ofs_field_def split: if_splits)
qed

section \<open>Properties\<close>

lemma map_of_sorted_entries:
  assumes "distinct (map fst es)"
  shows "map_of (sorted_entries es) = map_of es"
proof -
  have "distinct (map fst (sorted_entries es))"
    using assms by (metis distinct_map mset_sorted_entries mset_eq_imp_distinct_iff mset_map)
  then show ?thesis using assms by (intro map_of_inject_set [THEN iffD2]) simp_all
qed

lemma find_offset_wf:
  assumes "wf_idx px (map fst es)" "distinct (map fst es)" "length sha = 20"
    and "\<And>i. i < length es \<Longrightarrow> ofs_from_idx px i = Inr (snd (snd (es ! i)))"
  shows "find_offset px sha = Inr (map_option snd (map_of es sha))"
proof -
  obtain r where r: "idx_from_hash px sha = Inr r"
    "case r of Some m \<Rightarrow> m < length (map fst es) \<and> map fst es ! m = sha | None \<Rightarrow> sha \<notin> set (map fst es)"
    using idx_from_hash_ok [OF assms(1,3)] by (elim exE conjE) (rule that)
  show ?thesis
  proof (cases r)
    case None
    then have "map_of es sha = None" using r(2) by (simp add: map_of_eq_None_iff)
    then show ?thesis using r(1) None by (simp add: find_offset_def)
  next
    case (Some m)
    then have m: "m < length es" "fst (es ! m) = sha" using r(2) by auto
    then have "(sha, snd (es ! m)) \<in> set es" by (metis nth_mem prod.collapse)
    then have "map_of es sha = Some (snd (es ! m))" using assms(2) by simp
    then show ?thesis using r(1) Some assms(4) [OF m(1)] by (simp add: find_offset_def)
  qed
qed

lemma idx_iter_wf:
  assumes "wf_idx px hs"
  shows "idx_iter px = hs"
proof -
  have n: "px_nsha px = length hs" and h: "\<forall>i<length hs. idx_to_hash px i = Inr (hs ! i)"
    using assms by (auto simp: wf_idx_def)
  show ?thesis
    using n h
    by (intro nth_equalityI) (auto simp: idx_iter_def idx_to_hash_def Let_def algebra_simps split: idx_version.splits)
qed

lemma written_ok:
  assumes "entries_ok es" "es \<noteq> []" "suffix ''.idx'' name"
  shows "\<exists>w data px. idx_add_all es idx_writer0 = Inr w \<and> idx_write sha1 w packbin = Inr data \<and>
    open_idx name data = Inr px \<and> px_version px = V2 \<and> px_name px = name \<and>
    wf_idx px (map fst (sorted_entries es)) \<and>
    (\<forall>i<length es. ofs_from_idx px i = Inr (snd (snd (sorted_entries es ! i))))"
proof -
  let ?w = "\<lparr>iw_idx = parts_of es, iw_count = length es\<rparr>"
  have "\<forall>e\<in>set es. fst e \<noteq> []" using entries_ok_fst [OF assms(1)] by blast
  then have w: "idx_add_all es idx_writer0 = Inr ?w"
    using idx_add_all_ok [of es idx_writer0 "[]"] parts_of_Nil by simp
  obtain t where t: "write_parts (parts_of es) idx_tables0 = Inr t" "tables_ok t (sorted_entries es)" "it_count t = length es"
    "it_fan t = map (\<lambda>b. length (filter (\<lambda>h. of_char (hd h) \<le> b) (map fst (sorted_entries es)))) [0..<256]"
    using write_parts_tables [OF assms(1)] by (elim exE conjE) (rule that)
  have lf: "length (it_fan t) = 256" by (simp add: t(4))
  define data where "data = idx_body t @ packbin @ sha1 (idx_body t @ packbin)"
  have data: "idx_write sha1 ?w packbin = Inr data"
    using idx_write_ok [OF assms(1) refl t(1,2,3) lf] by (simp add: data_def)
  obtain px where px: "open_idx name data = Inr px" "px_version px = V2" "px_name px = name" "px_map px = data"
    "px_nsha px = length es" "wf_idx px (map fst (sorted_entries es))"
    using open_written [OF assms t(2,4) data_def] by blast
  have "\<forall>i<length es. ofs_from_idx px i = Inr (snd (snd (sorted_entries es ! i)))"
    using ofs_written [OF assms(1) t(2) lf] px(2,4,5) by (simp add: data_def)
  then show ?thesis using w data px by blast
qed

text \<open>C6: a pack index survives the disk: for any objects with distinct ids, the file
  \<open>PackIdxV2Writer\<close> writes opens, \<open>find_offset\<close> answers exactly the offset of each object added
  (below 2 GiB or beyond) and \<open>None\<close> for every other id, and iterating gives the ids in order.\<close>

theorem idx_roundtrip:
  assumes "entries_ok es" "es \<noteq> []" "distinct (map fst es)" "suffix ''.idx'' name"
  shows "\<exists>w data px. idx_add_all es idx_writer0 = Inr w \<and> idx_write sha1 w packbin = Inr data \<and>
    open_idx name data = Inr px \<and>
    (\<forall>sha. length sha = 20 \<longrightarrow> find_offset px sha = Inr (map_option snd (map_of es sha))) \<and>
    idx_iter px = sort (map fst es)"
proof -
  obtain w data px where px: "idx_add_all es idx_writer0 = Inr w" "idx_write sha1 w packbin = Inr data"
    "open_idx name data = Inr px" "wf_idx px (map fst (sorted_entries es))"
    "\<forall>i<length es. ofs_from_idx px i = Inr (snd (snd (sorted_entries es ! i)))"
    using written_ok [OF assms(1,2,4)] by blast
  have d: "distinct (map fst (sorted_entries es))"
    using assms(3) by (metis distinct_map mset_sorted_entries mset_eq_imp_distinct_iff mset_map)
  have "find_offset px sha = Inr (map_option snd (map_of es sha))" if "length sha = 20" for sha
    using find_offset_wf [OF px(4) d that] px(5) by (simp add: map_of_sorted_entries [OF assms(3)])
  moreover have "idx_iter px = sort (map fst es)"
  proof -
    have "sorted (map fst (sorted_entries es))" using px(4) by (simp add: wf_idx_def)
    moreover have "mset (map fst (sorted_entries es)) = mset (map fst es)" by (simp add: mset_sorted_entries)
    ultimately show ?thesis using idx_iter_wf [OF px(4)] by (metis properties_for_sort)
  qed
  ultimately show ?thesis using px(1,2,3) by blast
qed

definition witness_entries :: "idx_entry list" where
  "witness_entries = [(replicate 20 (CHR ''b''), 7, 2 ^ 40), (replicate 20 (CHR ''a''), 0, 12)]"

theorem idx_roundtrip_witness:
  "\<exists>w data px. idx_add_all witness_entries idx_writer0 = Inr w \<and> idx_write (\<lambda>b. replicate 20 (CHR ''s'')) w ''p'' = Inr data \<and>
    open_idx ''x.idx'' data = Inr px \<and> find_offset px (replicate 20 (CHR ''b'')) = Inr (Some (2 ^ 40))"
proof -
  have "entries_ok witness_entries" "witness_entries \<noteq> []" "distinct (map fst witness_entries)" "suffix ''.idx'' ''x.idx''"
    by (simp_all add: witness_entries_def entries_ok_def entry_ok_def, code_simp)
  from idx_roundtrip [OF this, of "\<lambda>b. replicate 20 (CHR ''s'')" "''p''"]
  obtain w data px where
    "idx_add_all witness_entries idx_writer0 = Inr w" "idx_write (\<lambda>b. replicate 20 (CHR ''s'')) w ''p'' = Inr data"
    "open_idx ''x.idx'' data = Inr px"
    "\<forall>sha. length sha = 20 \<longrightarrow> find_offset px sha = Inr (map_option snd (map_of witness_entries sha))" by blast
  moreover have "map_option snd (map_of witness_entries (replicate 20 (CHR ''b''))) = Some (2 ^ 40)"
    by (simp add: witness_entries_def)
  moreover have "length (replicate 20 (CHR ''b'')) = 20" by simp
  ultimately show ?thesis by metis
qed

text \<open>no version 1 index can be opened: \<open>struct.unpack\<close> wants a buffer of exactly 1024 bytes
  and gets the whole file, so any file with something after the fan-out table is an error.\<close>

theorem open_v1_fails:
  assumes "suffix ''.idx'' name" "length fan = 1024" "rest \<noteq> []" "take 4 fan < idx_magic"
  shows "open_idx name (fan @ rest) = Inl StructError"
proof -
  have t: "take 4 (take 8 (fan @ rest)) = take 4 fan" "length (take 8 (fan @ rest)) = 8" "length (fan @ rest) \<noteq> 1024"
    using assms(2,3) by simp_all
  then show ?thesis
    using assms(1,4) by (auto simp: open_idx_def Let_def open_v1_def)
qed

theorem open_v1_fails_witness:
  "open_idx ''pack.idx'' (replicate 1020 (char_of (0 :: nat)) @ be_bytes 4 1 @ be_bytes 4 12 @ replicate 60 (CHR ''x'')) = Inl StructError"
proof -
  have "suffix ''.idx'' ''pack.idx''" by code_simp
  moreover have "take 4 (replicate 1020 (char_of (0 :: nat)) @ be_bytes 4 1) < idx_magic"
  proof -
    have "take 4 (replicate 1020 (char_of (0 :: nat)) @ be_bytes 4 1) = replicate 4 (char_of (0 :: nat))" by simp
    moreover have "replicate 4 (char_of (0 :: nat)) < idx_magic" by code_simp
    ultimately show ?thesis by simp
  qed
  ultimately show ?thesis
    using open_v1_fails [of "''pack.idx''" "replicate 1020 (char_of (0 :: nat)) @ be_bytes 4 1" "be_bytes 4 12 @ replicate 60 (CHR ''x'')"]
    by simp
qed

end
