(* ===== verification/Midx.thy ===== *)
theory Midx
  imports Pack_Idx
begin

text \<open>
  Multi-index files: \<open>lib/bup/midx.py\<close>, the C helpers it calls (\<open>firstword\<close>, \<open>extract_bits\<close>), and
  the merge of \<open>cmd/midx.py\<close> with the C \<open>merge_into\<close>.
\<close>

section \<open>C helpers\<close>

text \<open>Both return NULL with no exception set, a \<open>SystemError\<close>, on fewer than four bytes.\<close>

definition firstword :: "bytes \<Rightarrow> nat res" where
  "firstword buf = (if length buf < 4 then Inl SystemError else Inr (be_val (take 4 buf)))"

text \<open>
  With \<open>nbits = 0\<close> the C shifts by 32, which the standard leaves undefined; the mask is 0 then, so
  the value is 0 whatever the shift gives.
\<close>

definition extract_bits :: "bytes \<Rightarrow> nat \<Rightarrow> nat res" where
  "extract_bits buf nbits =
     (if length buf < 4 then Inl SystemError
      else Inr (drop_bit (32 - nbits) (be_val (take 4 buf)) AND mask nbits))"

section \<open>PackMidx\<close>

definition MIDX_HEADER :: bytes where "MIDX_HEADER = ''MIDX''"
definition MIDX_VERSION :: nat where "MIDX_VERSION = 4"

record pack_midx =
  pm_name :: bytes
  pm_map :: bytes
  pm_bits :: nat
  pm_nsha :: nat
  pm_idxnames :: "bytes list"

definition pm_entries :: "pack_midx \<Rightarrow> nat" where "pm_entries pm = 2 ^ pm_bits pm"
definition pm_sha_ofs :: "pack_midx \<Rightarrow> nat" where "pm_sha_ofs pm = 12 + pm_entries pm * 4"
definition pm_which_ofs :: "pack_midx \<Rightarrow> nat" where "pm_which_ofs pm = pm_sha_ofs pm + 20 * pm_nsha pm"

definition fanget :: "pack_midx \<Rightarrow> nat \<Rightarrow> nat res" where
  "fanget pm i =
     (if pm_entries pm * 4 \<le> i then Inl IndexError
      else let ofs = 12 + i * 4 in firstword (slice ofs (ofs + 4) (pm_map pm)))"

definition midx_get :: "pack_midx \<Rightarrow> int \<Rightarrow> bytes res" where
  "midx_get pm i =
     (if int (pm_nsha pm) \<le> i \<or> i < 0 then Inl IndexError
      else let ofs = pm_sha_ofs pm + nat i * 20 in Inr (slice ofs (ofs + 20) (pm_map pm)))"

definition get_idx_i :: "pack_midx \<Rightarrow> int \<Rightarrow> nat res" where
  "get_idx_i pm i =
     (if int (pm_nsha pm) \<le> i \<or> i < 0 then Inl IndexError
      else unpack_from 4 (pm_map pm) (pm_which_ofs pm + nat i * 4))"

definition get_idxname :: "pack_midx \<Rightarrow> int \<Rightarrow> bytes res" where
  "get_idxname pm i =
     res_bind (get_idx_i pm i) (\<lambda>k. if k < length (pm_idxnames pm) then Inr (pm_idxnames pm ! k) else Inl IndexError)"

text \<open>\<open>exists_path\<close> is \<open>os.path.exists\<close>.\<close>

definition midx_init :: "(bytes \<Rightarrow> bool) \<Rightarrow> bytes \<Rightarrow> bytes \<Rightarrow> pack_midx res" where
  "midx_init exists_path filename data =
     res_bind (py_assert (take 4 data = MIDX_HEADER)) (\<lambda>_.
     res_bind (unpack_from 4 data 4) (\<lambda>version.
     res_bind (py_assert (version = MIDX_VERSION)) (\<lambda>_.
     res_bind (firstword (slice 8 12 data)) (\<lambda>bits.
     let pm0 = \<lparr>pm_name = filename, pm_map = data, pm_bits = bits, pm_nsha = 0, pm_idxnames = []\<rparr> in
     res_bind (fanget pm0 (2 ^ bits - 1)) (\<lambda>nsha.
     let pm1 = pm0\<lparr>pm_nsha := nsha\<rparr>;
         idxnames = split_on (char_of (0 :: nat)) (drop (pm_which_ofs pm1 + 4 * nsha) data);
         idxdir = dirname filename;
         missing = filter (\<lambda>n. \<not> exists_path (path_join idxdir n)) idxnames
     in if missing \<noteq> [] then Inl (MissingIdxs missing)
        else Inr (pm1\<lparr>pm_idxnames := idxnames\<rparr>))))))"

definition open_midx :: "(bytes \<Rightarrow> bool) \<Rightarrow> bool \<Rightarrow> bytes \<Rightarrow> bytes \<Rightarrow> pack_midx option res" where
  "open_midx exists_path ignore_missing path data =
     res_bind (py_assert (suffix ''.midx'' path)) (\<lambda>_.
     if take 4 data \<noteq> MIDX_HEADER then Inr None
     else res_bind (unpack_from 4 data 4) (\<lambda>ver.
       if ver = MIDX_VERSION then
         (case midx_init exists_path path data of
            Inl (MissingIdxs ps) \<Rightarrow> if ignore_missing then Inr None else Inl (MissingIdxs ps)
          | Inl e \<Rightarrow> Inl e
          | Inr pm \<Rightarrow> Inr (Some pm))
       else Inr None))"

text \<open>
  The interpolation search.  On an arbitrary file it need not end, so not returning is \<open>None\<close>; the
  inner result is Python's.
\<close>

partial_function (option) midx_search ::
  "(int \<Rightarrow> bytes res) \<Rightarrow> bytes \<Rightarrow> int \<Rightarrow> int \<Rightarrow> int \<Rightarrow> int \<Rightarrow> int \<Rightarrow> int option res option" where
  "midx_search get want hashv s e startv endv =
     (if s < e then
        if endv - startv = 0 then Some (Inl ZeroDivisionError)
        else
          let mid = s + (hashv - startv) * (e - s - 1) div (endv - startv)
          in case get mid of
               Inl err \<Rightarrow> Some (Inl err)
             | Inr v \<Rightarrow>
                 if v < want then
                   (case firstword v of
                      Inl err \<Rightarrow> Some (Inl err)
                    | Inr w \<Rightarrow> midx_search get want hashv (mid + 1) e (int w) endv)
                 else if v > want then
                   (case firstword v of
                      Inl err \<Rightarrow> Some (Inl err)
                    | Inr w \<Rightarrow> midx_search get want hashv s mid startv (int w))
                 else Some (Inr (Some mid))
      else Some (Inr None))"

definition midx_exists :: "pack_midx \<Rightarrow> bytes \<Rightarrow> bool \<Rightarrow> bool \<Rightarrow> object_location option res option" where
  "midx_exists pm hash want_source want_offset =
     (case
        res_bind (py_assert (\<not> want_offset)) (\<lambda>_.
        res_bind (extract_bits hash (pm_bits pm)) (\<lambda>el.
        res_bind (if el \<noteq> 0 then fanget pm (el - 1) else Inr 0) (\<lambda>s.
        res_bind (fanget pm el) (\<lambda>e.
        res_bind (firstword hash) (\<lambda>hashv. Inr (el, s, e, hashv))))))
      of
        Inl err \<Rightarrow> Some (Inl err)
      | Inr (el, s, e, hashv) \<Rightarrow>
          (case midx_search (midx_get pm) hash (int hashv) (int s) (int e)
                  (int (if el \<noteq> 0 then push_bit (32 - pm_bits pm) el else 0))
                  (int (push_bit (32 - pm_bits pm) (el + 1))) of
             None \<Rightarrow> None
           | Some (Inl err) \<Rightarrow> Some (Inl err)
           | Some (Inr None) \<Rightarrow> Some (Inr None)
           | Some (Inr (Some mid)) \<Rightarrow>
               if want_source then
                 Some (res_bind (get_idxname pm mid) (\<lambda>n. Inr (Some \<lparr>ol_pack = Some n, ol_offset = None\<rparr>)))
               else Some (Inr (Some OBJECT_EXISTS))))"

definition midx_iter :: "pack_midx \<Rightarrow> bytes list" where
  "midx_iter pm = map (\<lambda>i. slice (pm_sha_ofs pm + 20 * i) (pm_sha_ofs pm + 20 * i + 20) (pm_map pm)) [0..<pm_nsha pm]"

section \<open>The interpolation search is right\<close>

abbreviation fw :: "bytes \<Rightarrow> nat" where "fw h \<equiv> be_val (take 4 h)"

lemma firstword_ok: "4 \<le> length h \<Longrightarrow> firstword h = Inr (fw h)"
  by (simp add: firstword_def)

lemma take_mono_lex:
  fixes x y :: bytes
  shows "x \<le> y \<Longrightarrow> take n x \<le> take n y"
proof (induction n arbitrary: x y)
  case 0
  then show ?case by simp
next
  case (Suc n)
  then show ?case by (cases x; cases y) auto
qed

lemma be_val_append: "be_val (xs @ ys) = be_val xs * 256 ^ length ys + be_val ys"
  by (induction ys rule: rev_induct) (simp_all flip: append_assoc add: algebra_simps)

lemma be_val_Cons: "be_val (c # ys) = of_char c * 256 ^ length ys + be_val ys"
  using be_val_append [of "[c]" ys] by (simp add: be_val_def)

lemma be_val_mono:
  fixes x y :: bytes
  assumes "length x = length y" "x \<le> y"
  shows "be_val x \<le> be_val y"
  using assms
proof (induction x y rule: list_induct2)
  case Nil
  then show ?case by simp
next
  case (Cons a x b y)
  show ?case
  proof (cases "a = b")
    case True
    then show ?thesis using Cons by (simp add: be_val_Cons)
  next
    case False
    then have "(of_char a :: nat) + 1 \<le> of_char b" using Cons.prems by (simp add: less_char_def Suc_leI)
    then have "(of_char a + 1) * 256 ^ length y \<le> (of_char b :: nat) * 256 ^ length y" by (rule mult_le_mono1)
    moreover have "be_val x < 256 ^ length y" using be_val_less [of x] Cons.hyps by simp
    ultimately show ?thesis using Cons.hyps by (simp add: be_val_Cons)
  qed
qed

lemma fw_mono: "x \<le> y \<Longrightarrow> length x = 20 \<Longrightarrow> length y = 20 \<Longrightarrow> fw x \<le> fw y"
  by (intro be_val_mono take_mono_lex) simp_all

text \<open>The probe stays between the bounds.\<close>

lemma probe_bounds:
  fixes sv ev hv :: int
  assumes "sv \<le> hv" "hv \<le> ev" "sv < ev" "s < e"
  shows "s \<le> s + (hv - sv) * (e - s - 1) div (ev - sv)" "s + (hv - sv) * (e - s - 1) div (ev - sv) < e"
    "hv = sv \<Longrightarrow> s + (hv - sv) * (e - s - 1) div (ev - sv) = s"
    "hv = ev \<Longrightarrow> s + (hv - sv) * (e - s - 1) div (ev - sv) = e - 1"
proof -
  let ?p = "(hv - sv) * (e - s - 1) div (ev - sv)"
  have "0 \<le> ?p" using assms by (simp add: pos_imp_zdiv_nonneg_iff)
  then show "s \<le> s + ?p" by simp
  have "(hv - sv) * (e - s - 1) \<le> (ev - sv) * (e - s - 1)" using assms by (intro mult_right_mono) simp_all
  then have "?p \<le> (ev - sv) * (e - s - 1) div (ev - sv)" using assms by (intro zdiv_mono1) simp_all
  also have "\<dots> = e - s - 1" using assms by simp
  finally show "s + ?p < e" by simp
  show "hv = sv \<Longrightarrow> s + ?p = s" by simp
  show "hv = ev \<Longrightarrow> s + ?p = e - 1" using assms by simp
qed

text \<open>What a search of \<open>hs[s:e]\<close> may answer.\<close>

definition found_in :: "bytes list \<Rightarrow> bytes \<Rightarrow> nat \<Rightarrow> nat \<Rightarrow> int option \<Rightarrow> bool" where
  "found_in hs want s e r \<longleftrightarrow>
     (case r of Some m \<Rightarrow> \<exists>i. m = int i \<and> s \<le> i \<and> i < e \<and> hs ! i = want
      | None \<Rightarrow> \<forall>i. s \<le> i \<and> i < e \<longrightarrow> hs ! i \<noteq> want)"

lemma found_in_simps [simp]:
  "found_in hs want s e None \<longleftrightarrow> (\<forall>i. s \<le> i \<and> i < e \<longrightarrow> hs ! i \<noteq> want)"
  "found_in hs want s e (Some m) \<longleftrightarrow> (\<exists>i. m = int i \<and> s \<le> i \<and> i < e \<and> hs ! i = want)"
  by (simp_all add: found_in_def)

lemma found_in_widen:
  assumes "found_in hs want s' e' r" "s \<le> s'" "e' \<le> e"
    and "\<And>i. s \<le> i \<Longrightarrow> i < e \<Longrightarrow> \<not> (s' \<le> i \<and> i < e') \<Longrightarrow> hs ! i \<noteq> want"
  shows "found_in hs want s e r"
proof (cases r)
  case None
  then show ?thesis using assms(1,4) by auto
next
  case (Some m)
  then obtain i where "m = int i" "s' \<le> i" "i < e'" "hs ! i = want" using assms(1) by auto
  then show ?thesis using Some assms(2,3) by auto
qed

lemma midx_search_ok:
  assumes "\<forall>i<length hs. get (int i) = Inr (hs ! i)" "sorted hs" "\<forall>h\<in>set hs. length h = 20"
    and "length want = 20" "hv = int (fw want)"
    and "e \<le> length hs" "sv \<le> hv" "hv \<le> ev" "sv < ev \<or> e \<le> s"
  shows "\<exists>r. midx_search get want hv (int s) (int e) sv ev = Some (Inr r) \<and> found_in hs want s e r"
  using assms(6-)
proof (induction "e - s" arbitrary: s e sv ev rule: less_induct)
  case less
  show ?case
  proof (cases "s < e")
    case False
    then have "midx_search get want hv (int s) (int e) sv ev = Some (Inr None)"
      by (simp add: midx_search.simps [of get want hv "int s"])
    then show ?thesis using False by auto
  next
    case True
    then have lt: "sv < ev" using less.prems(4) by simp
    define mid where "mid = nat (int s + (hv - sv) * (int e - int s - 1) div (ev - sv))"
    note pb = probe_bounds [OF less.prems(2,3) lt, of "int s" "int e"]
    have mid: "int mid = int s + (hv - sv) * (int e - int s - 1) div (ev - sv)" "s \<le> mid" "mid < e"
      using pb True by (simp_all add: mid_def)
    have len: "mid < length hs" using mid(3) less.prems(1) by simp
    have g: "get (int mid) = Inr (hs ! mid)" using assms(1) len by blast
    have l20: "length (hs ! mid) = 20" using assms(3) len by simp
    then have f: "firstword (hs ! mid) = Inr (fw (hs ! mid))" by (simp add: firstword_ok)
    have step: "midx_search get want hv (int s) (int e) sv ev =
      (if hs ! mid < want then midx_search get want hv (int (mid + 1)) (int e) (int (fw (hs ! mid))) ev
       else if hs ! mid > want then midx_search get want hv (int s) (int mid) sv (int (fw (hs ! mid)))
       else Some (Inr (Some (int mid))))"
      using True lt g f by (subst midx_search.simps) (simp add: Let_def mid(1) [symmetric] add.commute)
    have mono: "hs ! i \<le> hs ! j" if "i \<le> j" "j < length hs" for i j
      using assms(2) that by (rule sorted_nth_mono)
    consider "hs ! mid < want" | "want < hs ! mid" | "hs ! mid = want" by force
    then show ?thesis
    proof cases
      case 1
      have up: "int (fw (hs ! mid)) \<le> hv" using fw_mono [OF less_imp_le [OF 1] l20 assms(4)] assms(5) by simp
      have "int (fw (hs ! mid)) < ev \<or> e \<le> mid + 1"
        using up less.prems(3) pb(4) True mid(1) by fastforce
      moreover have "e - (mid + 1) < e - s" using mid(2,3) by linarith
      ultimately obtain r where
        r: "midx_search get want hv (int (mid + 1)) (int e) (int (fw (hs ! mid))) ev = Some (Inr r)"
        "found_in hs want (mid + 1) e r"
        using less.hyps [OF _ less.prems(1) up less.prems(3)] by blast
      have "hs ! i \<noteq> want" if "i \<le> mid" for i using mono [OF that len] 1 by auto
      then have "found_in hs want s e r" using mid(2) by (intro found_in_widen [OF r(2)]) auto
      then show ?thesis using step 1 r(1) by auto
    next
      case 2
      have up: "hv \<le> int (fw (hs ! mid))" using fw_mono [OF less_imp_le [OF 2] assms(4) l20] assms(5) by simp
      have "sv < int (fw (hs ! mid)) \<or> mid \<le> s"
        using up less.prems(2) pb(3) True mid(1) by fastforce
      moreover have "mid - s < e - s" "mid \<le> length hs" using mid(2,3) len by linarith+
      ultimately obtain r where
        r: "midx_search get want hv (int s) (int mid) sv (int (fw (hs ! mid))) = Some (Inr r)"
        "found_in hs want s mid r"
        using less.hyps [OF _ _ less.prems(2) up] by blast
      have "hs ! i \<noteq> want" if "mid \<le> i" "i < e" for i
      proof -
        have "i < length hs" using that(2) less.prems(1) by simp
        from mono [OF that(1) this] show ?thesis using 2 by auto
      qed
      then have "found_in hs want s e r" using mid(3) by (intro found_in_widen [OF r(2)]) auto
      moreover have "midx_search get want hv (int s) (int e) sv ev = Some (Inr r)"
        using step 2 r(1) by (auto dest: less_asym)
      ultimately show ?thesis by blast
    next
      case 3
      then show ?thesis using step mid(2,3) by auto
    qed
  qed
qed

definition prefix_of :: "nat \<Rightarrow> bytes \<Rightarrow> nat" where
  "prefix_of bits h = drop_bit (32 - bits) (fw h)"

lemma fw_less: "fw h < 2 ^ 32"
proof -
  have "be_val (take 4 h) < 256 ^ length (take 4 h)" by (rule be_val_less)
  also have "\<dots> \<le> 256 ^ 4" by (intro power_increasing) simp_all
  finally show ?thesis by simp
qed

lemma prefix_of_less: "bits \<le> 32 \<Longrightarrow> prefix_of bits h < 2 ^ bits"
proof -
  assume b: "bits \<le> 32"
  have "(2 :: nat) ^ 32 = 2 ^ bits * 2 ^ (32 - bits)" using b by (simp flip: power_add)
  then have "fw h < 2 ^ bits * 2 ^ (32 - bits)" using fw_less [of h] by simp
  then show ?thesis by (simp add: prefix_of_def drop_bit_eq_div less_mult_imp_div_less)
qed

lemma extract_bits_ok: "4 \<le> length h \<Longrightarrow> bits \<le> 32 \<Longrightarrow> extract_bits h bits = Inr (prefix_of bits h)"
  using prefix_of_less [of bits h]
  by (simp add: extract_bits_def prefix_of_def take_bit_nat_eq_self flip: take_bit_eq_mask)

lemma prefix_of_mono: "x \<le> y \<Longrightarrow> length x = 20 \<Longrightarrow> length y = 20 \<Longrightarrow> prefix_of bits x \<le> prefix_of bits y"
  using fw_mono [of x y] by (simp add: prefix_of_def drop_bit_eq_div div_le_mono)

definition wf_midx :: "pack_midx \<Rightarrow> bytes list \<Rightarrow> bool" where
  "wf_midx pm hs \<longleftrightarrow>
     pm_bits pm \<le> 32 \<and> pm_nsha pm = length hs \<and> (\<forall>i<length hs. midx_get pm (int i) = Inr (hs ! i)) \<and>
     sorted hs \<and> (\<forall>h\<in>set hs. length h = 20) \<and>
     (\<forall>i<2 ^ pm_bits pm. fanget pm i = Inr (length (filter (\<lambda>h. prefix_of (pm_bits pm) h \<le> i) hs)))"

text \<open>The search proper, without the answer's form.\<close>

lemma midx_lookup_ok:
  assumes "wf_midx pm hs" "length want = 20"
  shows "\<exists>el s e r. extract_bits want (pm_bits pm) = Inr el \<and>
    (if el \<noteq> 0 then fanget pm (el - 1) else Inr 0) = Inr s \<and> fanget pm el = Inr e \<and>
    firstword want = Inr (fw want) \<and>
    midx_search (midx_get pm) want (int (fw want)) (int s) (int e)
      (int (if el \<noteq> 0 then push_bit (32 - pm_bits pm) el else 0))
      (int (push_bit (32 - pm_bits pm) (el + 1))) = Some (Inr r) \<and>
    found_in hs want 0 (length hs) r"
proof -
  let ?b = "pm_bits pm" let ?k = "32 - ?b"
  have wf: "?b \<le> 32" "\<forall>i<length hs. midx_get pm (int i) = Inr (hs ! i)" "sorted hs" "\<forall>h\<in>set hs. length h = 20"
    "\<And>i. i < 2 ^ ?b \<Longrightarrow> fanget pm i = Inr (length (filter (\<lambda>h. prefix_of ?b h \<le> i) hs))"
    using assms(1) by (auto simp: wf_midx_def)
  let ?fan = "\<lambda>i :: nat. length (filter (\<lambda>h. prefix_of ?b h \<le> i) hs)"
  define el where "el = prefix_of ?b want"
  have el: "el < 2 ^ ?b" using prefix_of_less wf(1) by (simp add: el_def)
  define s where "s = (if el \<noteq> 0 then ?fan (el - 1) else 0)"
  have s: "(if el \<noteq> 0 then fanget pm (el - 1) else Inr 0) = Inr s" using wf(5) [of "el - 1"] el by (simp add: s_def)
  have e: "fanget pm el = Inr (?fan el)" using wf(5) [OF el] .
  have fan: "prefix_of ?b (hs ! i) \<le> b \<longleftrightarrow> i < ?fan b" if "i < length hs" for i b
  proof (rule sorted_filter_prefix [OF wf(3) _ that])
    fix x y assume "x \<le> y" "y \<in> set hs" "x \<in> set hs" "prefix_of ?b y \<le> b"
    then show "prefix_of ?b x \<le> b" using prefix_of_mono [of x y ?b] wf(4) by simp
  qed
  have rng: "s \<le> i \<and> i < ?fan el" if i: "i < length hs" "hs ! i = want" for i
  proof -
    have "i < ?fan el" using fan [OF i(1), of el] i(2) by (simp add: el_def)
    moreover have "s \<le> i"
    proof (cases "el = 0")
      case False
      then have "\<not> prefix_of ?b (hs ! i) \<le> el - 1" using i(2) by (simp add: el_def)
      then show ?thesis using fan [OF i(1), of "el - 1"] False by (simp add: s_def)
    qed (simp add: s_def)
    ultimately show ?thesis by blast
  qed
  have dv: "fw want = el * 2 ^ ?k + fw want mod 2 ^ ?k"
    by (simp only: el_def prefix_of_def drop_bit_eq_div div_mult_mod_eq)
  have sv: "int (if el \<noteq> 0 then push_bit ?k el else 0) = int (el * 2 ^ ?k)" by (simp add: push_bit_eq_mult)
  have ev: "int (push_bit ?k (el + 1)) = int (el * 2 ^ ?k + 2 ^ ?k)" by (simp add: push_bit_eq_mult)
  have "fw want mod 2 ^ ?k < 2 ^ ?k" by simp
  then have bnd: "int (el * 2 ^ ?k) \<le> int (fw want)" "int (fw want) \<le> int (el * 2 ^ ?k + 2 ^ ?k)"
    using dv by linarith+
  have "?fan el \<le> length hs" by simp
  then obtain r where r: "midx_search (midx_get pm) want (int (fw want)) (int s) (int (?fan el))
      (int (el * 2 ^ ?k)) (int (el * 2 ^ ?k + 2 ^ ?k)) = Some (Inr r)" "found_in hs want s (?fan el) r"
    using midx_search_ok [OF wf(2,3,4) assms(2) refl _ bnd, of "?fan el" s] by auto
  have "found_in hs want 0 (length hs) r"
    using rng by (intro found_in_widen [OF r(2)]) auto
  moreover have "extract_bits want ?b = Inr el" using extract_bits_ok wf(1) assms(2) by (simp add: el_def)
  moreover have "firstword want = Inr (fw want)" using assms(2) by (simp add: firstword_ok)
  moreover note s e r(1) [folded sv ev]
  ultimately show ?thesis by blast
qed

lemma midx_exists_ok:
  assumes "wf_midx pm hs" "length want = 20"
  shows "midx_exists pm want ws False = Some (Inr None) \<and> want \<notin> set hs \<or>
    (\<exists>i<length hs. hs ! i = want \<and> midx_exists pm want ws False =
       Some (if ws then res_bind (get_idxname pm (int i)) (\<lambda>n. Inr (Some \<lparr>ol_pack = Some n, ol_offset = None\<rparr>))
             else Inr (Some OBJECT_EXISTS)))"
proof -
  obtain el s e r where r: "extract_bits want (pm_bits pm) = Inr el"
    "(if el \<noteq> 0 then fanget pm (el - 1) else Inr 0) = Inr s" "fanget pm el = Inr e" "firstword want = Inr (fw want)"
    "midx_search (midx_get pm) want (int (fw want)) (int s) (int e)
      (int (if el \<noteq> 0 then push_bit (32 - pm_bits pm) el else 0))
      (int (push_bit (32 - pm_bits pm) (el + 1))) = Some (Inr r)" "found_in hs want 0 (length hs) r"
    using midx_lookup_ok [OF assms] by blast
  have eq: "midx_exists pm want ws False =
    (case r of None \<Rightarrow> Some (Inr None)
     | Some mid \<Rightarrow> Some (if ws then res_bind (get_idxname pm mid) (\<lambda>n. Inr (Some \<lparr>ol_pack = Some n, ol_offset = None\<rparr>))
                       else Inr (Some OBJECT_EXISTS)))"
    unfolding midx_exists_def by (simp only: r(1-5) res_bind_simps py_assert_simps not_False_eq_True
        sum.case prod.case option.case if_distrib [of Some] cong: option.case_cong)
  show ?thesis
  proof (cases r)
    case None
    then have "want \<notin> set hs" using r(6) by (auto simp: in_set_conv_nth)
    then show ?thesis using eq None by simp
  next
    case (Some m)
    then obtain i where "m = int i" "i < length hs" "hs ! i = want" using r(6) by auto
    then show ?thesis using eq Some by auto
  qed
qed

end
