(* ===== verification/Midx_Merge.thy ===== *)
theory Midx_Merge
  imports Midx
begin

text \<open>
  Merging indexes into a multi-index: the C \<open>merge_into\<close> with \<open>_fix_idx_order\<close>, and
  \<open>_do_midx\<close> of \<open>lib/bup/cmd/midx.py\<close>, which lays out the file.
\<close>

section \<open>merge_into\<close>

text \<open>
  A \<open>struct idx\<close> is what lies between \<open>cur\<close> and \<open>end\<close>: the ids not merged yet, each with the number
  \<open>_get_idx_i\<close> gives it.
\<close>

type_synonym cursor = "(bytes \<times> nat) list"

abbreviation cur :: "cursor \<Rightarrow> bytes" where "cur c \<equiv> fst (hd c)"

record merge_input =
  mi_map :: bytes
  mi_len :: nat
  mi_sha_ofs :: nat
  mi_name_ofs :: nat
  mi_name_base :: nat

definition cursor_of :: "merge_input \<Rightarrow> cursor" where
  "cursor_of mi =
     map (\<lambda>j. (slice (mi_sha_ofs mi + 20 * j) (mi_sha_ofs mi + 20 * j + 20) (mi_map mi),
               if mi_name_ofs mi = 0 then mi_name_base mi
               else (be_val (slice (mi_name_ofs mi + 4 * j) (mi_name_ofs mi + 4 * j + 4) (mi_map mi))
                     + mi_name_base mi) mod 2 ^ 32))
       [0..<mi_len mi]"

text \<open>\<open>memcmp\<close> of two ids, as a sign.\<close>

definition cmp_sha :: "bytes \<Rightarrow> bytes \<Rightarrow> int" where
  "cmp_sha a b = (if a < b then - 1 else if a = b then 0 else 1)"

text \<open>The search loop of \<open>_fix_idx_order\<close>; \<open>low\<close> is the larger bound.\<close>

function fix_search :: "bytes \<Rightarrow> (int \<Rightarrow> bytes) \<Rightarrow> int \<Rightarrow> int \<Rightarrow> int \<Rightarrow> int \<Rightarrow> int \<times> int" where
  "fix_search key at low high mid c =
     (if high \<le> low then
        let mid' = (low + high) div 2; c' = cmp_sha key (at mid')
        in if c' < 0 then fix_search key at low (mid' + 1) mid' c'
           else if c' > 0 then fix_search key at (mid' - 1) high mid' c'
           else (mid', c')
      else (mid, c))"
  by pat_completeness auto
termination by (relation "measure (\<lambda>(key, at, low, high, mid, c). nat (low - high + 1))") auto

declare fix_search.simps [simp del]

definition fix_idx_order :: "cursor list \<Rightarrow> cursor list" where
  "fix_idx_order idxs =
     (let last_i = int (length idxs) - 1; idx = last idxs
      in if idx = [] then butlast idxs
         else if last_i = 0 then idxs
         else
           let (mid, c) = fix_search (cur idx) (\<lambda>i. cur (idxs ! nat i)) (last_i - 1) 0 last_i 0;
               pos = nat (if c < 0 then mid + 1 else mid)
           in if int pos = last_i then idxs
              else take pos idxs @ idx # drop pos (butlast idxs))"

text \<open>
  The main loop: the fan-out table so far (its length is \<open>prefix\<close>) and the ids with their index
  numbers in the order written (their number is \<open>count\<close>).  An index that starts out empty would be
  read past its end.
\<close>

fun cursors_size :: "cursor list \<Rightarrow> nat" where
  "cursors_size [] = 0"
| "cursors_size (c # cs) = length c + cursors_size cs"

lemma cursors_size_append [simp]: "cursors_size (xs @ ys) = cursors_size xs + cursors_size ys"
  by (induction xs) simp_all

lemma cursors_size_butlast: "xs \<noteq> [] \<Longrightarrow> cursors_size (butlast xs) + length (last xs) = cursors_size xs"
  by (induction xs rule: rev_induct) simp_all

lemma fix_search_bounds:
  "fix_search key at low high mid c = (m, c') \<Longrightarrow> (m, c') = (mid, c) \<or> high \<le> m \<and> m \<le> low"
proof (induction key at low high mid c rule: fix_search.induct)
  case (1 key at low high mid c)
  show ?case
  proof (cases "high \<le> low")
    case False
    then show ?thesis using "1.prems" by (simp add: fix_search.simps [of key at low])
  next
    case True
    define mid' where "mid' = (low + high) div 2"
    define c1 where "c1 = cmp_sha key (at mid')"
    have b: "high \<le> mid'" "mid' \<le> low" using True by (auto simp: mid'_def)
    have step: "fix_search key at low high mid c =
      (if c1 < 0 then fix_search key at low (mid' + 1) mid' c1
       else if c1 > 0 then fix_search key at (mid' - 1) high mid' c1 else (mid', c1))"
      using True by (subst fix_search.simps) (simp add: Let_def mid'_def c1_def)
    show ?thesis
      using "1.prems" "1.IH"(1) [OF True mid'_def c1_def] "1.IH"(2) [OF True mid'_def c1_def] b
      unfolding step by (auto split: if_splits)
  qed
qed

lemma fix_idx_order_cases:
  assumes "idxs \<noteq> []" "last idxs \<noteq> []"
  shows "\<exists>pos < length idxs. fix_idx_order idxs = take pos idxs @ last idxs # drop pos (butlast idxs)"
proof -
  have id: "idxs = take (length idxs - 1) idxs @ last idxs # drop (length idxs - 1) (butlast idxs)"
    using assms(1) append_butlast_last_id [of idxs] by (simp add: butlast_conv_take)
  have lt: "length idxs - 1 < length idxs" using assms(1) by (cases idxs) auto
  show ?thesis
  proof (cases "length idxs = 1")
    case True
    then have "fix_idx_order idxs = idxs" using assms by (simp add: fix_idx_order_def Let_def)
    then show ?thesis using id lt by metis
  next
    case False
    define last_i where "last_i = int (length idxs) - 1"
    obtain mid c where mc: "fix_search (cur (last idxs)) (\<lambda>i. cur (idxs ! nat i)) (last_i - 1) 0 last_i 0 = (mid, c)"
      by fastforce
    define pos where "pos = nat (if c < 0 then mid + 1 else mid)"
    have l: "0 < last_i" using False assms(1) by (cases idxs) (auto simp: last_i_def)
    have "int pos \<le> last_i" using fix_search_bounds [OF mc] l by (auto simp: pos_def)
    then have "pos < length idxs" using assms(1) by (simp add: last_i_def)
    moreover have "fix_idx_order idxs = (if int pos = last_i then idxs else take pos idxs @ last idxs # drop pos (butlast idxs))"
      using mc l assms by (simp add: fix_idx_order_def Let_def last_i_def [symmetric] pos_def)
    moreover have "int pos = last_i \<Longrightarrow> pos = length idxs - 1" by (simp add: last_i_def)
    ultimately show ?thesis using id lt by (metis (full_types))
  qed
qed

lemma mset_fix_idx_order:
  assumes "idxs \<noteq> []"
  shows "mset (fix_idx_order idxs) = (if last idxs = [] then mset (butlast idxs) else mset idxs)"
proof (cases "last idxs = []")
  case True
  then show ?thesis by (simp add: fix_idx_order_def Let_def)
next
  case False
  obtain pos where pos: "pos < length idxs" "fix_idx_order idxs = take pos idxs @ last idxs # drop pos (butlast idxs)"
    using fix_idx_order_cases [OF assms False] by blast
  have "take pos idxs = take pos (butlast idxs)" using pos(1) by (simp add: take_butlast)
  then have "mset (take pos idxs) + mset (drop pos (butlast idxs)) = mset (butlast idxs)"
    by (metis append_take_drop_id mset_append)
  moreover have "mset idxs = mset (butlast idxs) + {#last idxs#}"
    using assms by (metis append_butlast_last_id mset_append mset_single_iff union_mset_def mset.simps(1) mset.simps(2))
  ultimately show ?thesis using pos(2) False by (simp add: ac_simps)
qed

lemma cursors_size_mset: "cursors_size cs = sum_mset (image_mset length (mset cs))"
  by (induction cs) simp_all

function merge_loop ::
  "nat \<Rightarrow> cursor list \<Rightarrow> nat list \<Rightarrow> (bytes \<times> nat) list \<Rightarrow> (nat list \<times> (bytes \<times> nat) list) res" where
  "merge_loop bits idxs table out =
     (if idxs = [] then Inr (table @ replicate (2 ^ bits - length table) (length out), out)
      else
        let idx = last idxs
        in if idx = [] then Inl UndefinedBehaviour
           else res_bind (extract_bits (cur idx) bits) (\<lambda>new_prefix.
             merge_loop bits (fix_idx_order (butlast idxs @ [tl idx]))
               (table @ replicate (new_prefix - length table) (length out)) (out @ [hd idx])))"
  by pat_completeness auto
termination
proof (relation "measure (\<lambda>(bits, idxs, table, out). cursors_size idxs)", goal_cases)
  case 1
  then show ?case by simp
next
  case (2 bits idxs table out idx new_prefix)
  let ?i = "butlast idxs @ [tl idx]"
  have "cursors_size (fix_idx_order ?i) \<le> cursors_size ?i"
    by (simp add: cursors_size_mset mset_fix_idx_order)
  moreover have "cursors_size ?i < cursors_size idxs"
  proof -
    have "length (tl idx) < length (last idxs)" using 2 by simp
    then show ?thesis using cursors_size_butlast [OF 2(1)] by simp
  qed
  ultimately show ?case by simp
qed

declare merge_loop.simps [simp del]

definition merge_into :: "nat \<Rightarrow> merge_input list \<Rightarrow> (nat list \<times> (bytes \<times> nat) list) res" where
  "merge_into bits ilist = merge_loop bits (map cursor_of ilist) [] []"

section \<open>The merge is a merge\<close>

text \<open>Where an id belongs among descending ones.\<close>

definition insert_pos :: "bytes \<Rightarrow> (int \<Rightarrow> bytes) \<Rightarrow> int \<Rightarrow> int \<Rightarrow> bool" where
  "insert_pos key at l p \<longleftrightarrow> (\<forall>i. 0 \<le> i \<and> i < p \<longrightarrow> key \<le> at i) \<and> (\<forall>i. p \<le> i \<and> i \<le> l \<longrightarrow> at i \<le> key)"

lemma fix_search_ok:
  assumes "fix_search key at low high mid c = (m, c')"
    and "\<And>i j. 0 \<le> i \<Longrightarrow> i \<le> j \<Longrightarrow> j \<le> l \<Longrightarrow> at j \<le> at i"
    and "low \<le> l" "0 \<le> high" "\<forall>i. 0 \<le> i \<and> i < high \<longrightarrow> key \<le> at i" "\<forall>i. low < i \<and> i \<le> l \<longrightarrow> at i \<le> key"
    and "high \<le> low \<or> high = low + 1 \<and> (c < 0 \<and> mid + 1 = high \<or> c > 0 \<and> mid - 1 = low)"
  shows "insert_pos key at l (if c' < 0 then m + 1 else m)"
  using assms
proof (induction key at low high mid c rule: fix_search.induct)
  case (1 key at low high mid c)
  show ?case
  proof (cases "high \<le> low")
    case False
    then have "m = mid" "c' = c" using "1.prems"(1) by (simp_all add: fix_search.simps [of key at low])
    then show ?thesis using "1.prems"(5-7) False by (auto simp: insert_pos_def)
  next
    case True
    define mid' where "mid' = (low + high) div 2"
    define c1 where "c1 = cmp_sha key (at mid')"
    have b: "high \<le> mid'" "mid' \<le> low" "0 \<le> mid'" using True "1.prems"(4) by (auto simp: mid'_def)
    then have b': "mid' + 1 \<le> low \<or> mid' = low" "high \<le> mid' - 1 \<or> high = mid'" by linarith+
    note desc = "1.prems"(2)
    have step: "fix_search key at low high mid c =
      (if c1 < 0 then fix_search key at low (mid' + 1) mid' c1
       else if c1 > 0 then fix_search key at (mid' - 1) high mid' c1 else (mid', c1))"
      using True by (subst fix_search.simps) (simp add: Let_def mid'_def c1_def)
    consider "c1 < 0" | "c1 > 0" | "c1 = 0" by linarith
    then show ?thesis
    proof cases
      case 1
      then have k: "key \<le> at mid'" by (auto simp: c1_def cmp_sha_def split: if_splits)
      have "key \<le> at i" if "0 \<le> i \<and> i < mid' + 1" for i
        using desc [of i mid'] that b(2) "1.prems"(3) k by fastforce
      then show ?thesis
        using "1.IH"(1) [OF True mid'_def c1_def 1 _ desc "1.prems"(3) _ _ "1.prems"(6)] "1.prems"(1) step 1 b b'(1) by auto
    next
      case 2
      then have k: "at mid' \<le> key" by (auto simp: c1_def cmp_sha_def split: if_splits)
      have "at i \<le> key" if "mid' - 1 < i \<and> i \<le> l" for i
        using desc [of mid' i] that b(3) k by fastforce
      then show ?thesis
        using "1.IH"(2) [OF True mid'_def c1_def _ 2 _ desc _ "1.prems"(4,5)] "1.prems"(1,3) step 2 b b'(2) by auto
    next
      case 3
      then have k: "key = at mid'" by (auto simp: c1_def cmp_sha_def split: if_splits)
      have "m = mid'" "c' = 0" using "1.prems"(1) step 3 by simp_all
      then show ?thesis
        using k desc b "1.prems"(3) by (auto simp: insert_pos_def)
    qed
  qed
qed

text \<open>Cursors in the order of their next ids, the smallest one last.\<close>

definition desc :: "cursor list \<Rightarrow> bool" where
  "desc idxs \<longleftrightarrow> sorted_wrt (\<lambda>a b. cur b \<le> cur a) idxs"

lemma desc_nth: "desc xs \<Longrightarrow> i \<le> j \<Longrightarrow> j < length xs \<Longrightarrow> cur (xs ! j) \<le> cur (xs ! i)"
  using sorted_wrt_nth_less [of "\<lambda>a b. cur b \<le> cur a" xs i j] by (cases "i = j") (auto simp: desc_def)

lemma desc_insert:
  assumes "desc xs" "insert_pos (cur x) (\<lambda>i. cur (xs ! nat i)) (int (length xs) - 1) (int p)" "p \<le> length xs"
  shows "desc (take p xs @ x # drop p xs)"
proof -
  have a: "\<forall>y\<in>set (take p xs). cur x \<le> cur y"
  proof
    fix y assume "y \<in> set (take p xs)"
    then obtain i where "i < p" "i < length xs" "y = xs ! i" by (auto simp: in_set_conv_nth)
    then show "cur x \<le> cur y" using assms(2) by (auto simp: insert_pos_def dest: spec [of _ "int i"])
  qed
  have b: "\<forall>y\<in>set (drop p xs). cur y \<le> cur x"
  proof
    fix y assume "y \<in> set (drop p xs)"
    then obtain i where "i < length (drop p xs)" "y = drop p xs ! i" by (metis in_set_conv_nth)
    then have "p + i < length xs" "y = xs ! (p + i)" by simp_all
    moreover have "int p \<le> int (p + i) \<and> int (p + i) \<le> int (length xs) - 1 \<longrightarrow> cur (xs ! nat (int (p + i))) \<le> cur x"
      using assms(2) unfolding insert_pos_def by blast
    ultimately show "cur y \<le> cur x" by (simp del: of_nat_add add: nat_int)
  qed
  have "sorted_wrt (\<lambda>a b. cur b \<le> cur a) (take p xs @ drop p xs)" using assms(1) by (simp add: desc_def)
  then show ?thesis using a b order_trans unfolding desc_def sorted_wrt_append by fastforce
qed

lemma fix_idx_order_desc:
  assumes "idxs \<noteq> []" "desc (butlast idxs)" "last idxs \<noteq> []"
  shows "desc (fix_idx_order idxs)"
proof (cases "length idxs = 1")
  case True
  then have "fix_idx_order idxs = idxs" using assms by (simp add: fix_idx_order_def Let_def)
  then show ?thesis using True by (cases idxs) (auto simp: desc_def)
next
  case False
  let ?xs = "butlast idxs" and ?x = "last idxs"
  define last_i where "last_i = int (length idxs) - 1"
  have l: "0 < last_i" "int (length ?xs) = last_i" using False assms(1) by (cases idxs; auto simp: last_i_def)+
  obtain mid c where mc: "fix_search (cur ?x) (\<lambda>i. cur (idxs ! nat i)) (last_i - 1) 0 last_i 0 = (mid, c)"
    by fastforce
  define p where "p = (if c < 0 then mid + 1 else mid)"
  have nth: "idxs ! nat i = ?xs ! nat i" if "i \<le> last_i - 1" for i
    using that l by (intro nth_butlast [symmetric]) (cases "0 \<le> i"; auto simp: last_i_def)
  have d: "cur (idxs ! nat j) \<le> cur (idxs ! nat i)" if "0 \<le> i" "i \<le> j" "j \<le> last_i - 1" for i j
    using desc_nth [OF assms(2), of "nat i" "nat j"] that l nth by auto
  have "insert_pos (cur ?x) (\<lambda>i. cur (idxs ! nat i)) (last_i - 1) p"
    unfolding p_def by (rule fix_search_ok [OF mc d]) (use l in auto)
  moreover have p: "0 \<le> p" "p \<le> last_i" using fix_search_bounds [OF mc] l by (auto simp: p_def)
  ultimately have ins: "insert_pos (cur ?x) (\<lambda>i. cur (?xs ! nat i)) (int (length ?xs) - 1) (int (nat p))"
    using l nth by (auto simp: insert_pos_def)
  have "nat p \<le> length ?xs" using p l by simp
  from desc_insert [OF assms(2) ins this] have d': "desc (take (nat p) ?xs @ ?x # drop (nat p) ?xs)" .
  have "fix_idx_order idxs = (if int (nat p) = last_i then idxs else take (nat p) idxs @ ?x # drop (nat p) ?xs)"
    using mc l assms by (simp add: fix_idx_order_def Let_def last_i_def [symmetric] p_def)
  moreover have "take (nat p) idxs = take (nat p) ?xs" using p l by (simp add: take_butlast last_i_def)
  moreover have "idxs = take (nat p) ?xs @ ?x # drop (nat p) ?xs" if "int (nat p) = last_i"
  proof -
    have "nat p = length ?xs" using that l by linarith
    then show ?thesis using append_butlast_last_id [OF assms(1)] by simp
  qed
  ultimately show ?thesis using d' by metis
qed

definition cursor_ok :: "cursor \<Rightarrow> bool" where
  "cursor_ok c \<longleftrightarrow> c \<noteq> [] \<and> sorted (map fst c) \<and> (\<forall>x\<in>set c. length (fst x) = 20)"

text \<open>The fan-out entries so far are right for what is written, and stay right.\<close>

definition table_ok :: "nat \<Rightarrow> nat list \<Rightarrow> (bytes \<times> nat) list \<Rightarrow> bool" where
  "table_ok bits table out \<longleftrightarrow>
     (\<forall>p<length table. table ! p = length (filter (\<lambda>x. prefix_of bits (fst x) \<le> p) out)) \<and>
     (\<forall>x\<in>set out. prefix_of bits (fst x) \<le> length table)"

lemma table_ok_fill:
  assumes "table_ok bits table out" "length table \<le> n"
  shows "table_ok bits (table @ replicate (n - length table) (length out)) out"
proof -
  have "filter (\<lambda>x. prefix_of bits (fst x) \<le> p) out = out" if "length table \<le> p" for p
    using assms(1) that by (auto simp: table_ok_def filter_id_conv)
  then show ?thesis using assms by (auto simp: table_ok_def nth_append)
qed

lemma table_ok_snoc:
  assumes "table_ok bits table out" "prefix_of bits (fst x) = length table"
  shows "table_ok bits table (out @ [x])"
  using assms by (auto simp: table_ok_def)

lemma cursor_cur_le: "cursor_ok c \<Longrightarrow> y \<in> set c \<Longrightarrow> cur c \<le> fst y"
  by (cases c) (auto simp: cursor_ok_def)

lemma desc_last: "desc idxs \<Longrightarrow> c \<in> set idxs \<Longrightarrow> cur (last idxs) \<le> cur c"
  by (induction idxs rule: rev_induct) (auto simp: desc_def sorted_wrt_append)

lemma desc_butlast: "desc idxs \<Longrightarrow> desc (butlast idxs)"
  by (induction idxs rule: rev_induct) (auto simp: desc_def sorted_wrt_append)

lemma mset_concat_cursors: "mset (concat cs) = sum_mset (image_mset mset (mset cs))"
  by (induction cs) simp_all

text \<open>One round: the smallest id leaves the last cursor, which finds its new place.\<close>

lemma merge_step:
  assumes "idxs \<noteq> []" "desc idxs" "\<forall>c\<in>set idxs. cursor_ok c"
  defines "next_idxs \<equiv> fix_idx_order (butlast idxs @ [tl (last idxs)])"
  shows "desc next_idxs" "\<forall>c\<in>set next_idxs. cursor_ok c"
    "mset (concat idxs) = {#hd (last idxs)#} + mset (concat next_idxs)"
    "\<forall>c\<in>set idxs. \<forall>y\<in>set c. cur (last idxs) \<le> fst y"
    "set (concat next_idxs) \<subseteq> set (concat idxs)"
proof -
  let ?l = "last idxs" and ?n = "butlast idxs @ [tl (last idxs)]"
  have l: "cursor_ok ?l" "?l \<in> set idxs" using assms(1,3) by simp_all
  have ne: "?l \<noteq> []" using l(1) by (simp add: cursor_ok_def)
  have idxs: "mset idxs = mset (butlast idxs) + {#?l#}"
    using append_butlast_last_id [OF assms(1)] by (metis mset_append mset.simps(1,2) add_mset_add_single empty_neutral(1) union_mset_add_mset_left)
  have mn: "mset next_idxs = (if tl ?l = [] then mset (butlast idxs) else add_mset (tl ?l) (mset (butlast idxs)))"
    by (simp add: next_idxs_def mset_fix_idx_order)
  have "desc (butlast idxs)" using assms(2) by (rule desc_butlast)
  then show "desc next_idxs"
    using fix_idx_order_desc [of ?n] by (cases "tl ?l = []") (simp_all add: next_idxs_def fix_idx_order_def Let_def)
  have tl: "tl ?l \<noteq> [] \<Longrightarrow> cursor_ok (tl ?l)"
    using l(1) by (cases ?l) (auto simp: cursor_ok_def)
  have bl: "set (butlast idxs) \<subseteq> set idxs" by (auto dest: in_set_butlastD)
  have "set next_idxs \<subseteq> set (butlast idxs) \<union> (if tl ?l = [] then {} else {tl ?l})"
    unfolding set_mset_mset [symmetric] mn by simp
  then show "\<forall>c\<in>set next_idxs. cursor_ok c" using bl tl assms(3) by (auto split: if_splits)
  show ms: "mset (concat idxs) = {#hd ?l#} + mset (concat next_idxs)"
  proof -
    have "mset ?l = {#hd ?l#} + mset (tl ?l)" using ne by (cases ?l) simp_all
    then show ?thesis unfolding mset_concat_cursors idxs mn by simp
  qed
  show "\<forall>c\<in>set idxs. \<forall>y\<in>set c. cur ?l \<le> fst y"
    using desc_last [OF assms(2)] cursor_cur_le assms(3) by (meson order_trans)
  show "set (concat next_idxs) \<subseteq> set (concat idxs)"
    using ms by (metis mset_subset_eq_add_right set_mset_mono set_mset_mset)
qed

lemma merge_loop_ok:
  assumes "bits \<le> 32" "desc idxs" "\<forall>c\<in>set idxs. cursor_ok c" "sorted (map fst out)"
    "\<forall>x\<in>set out. \<forall>c\<in>set idxs. \<forall>y\<in>set c. fst x \<le> fst y"
    "table_ok bits table out" "length table \<le> 2 ^ bits" "\<forall>c\<in>set idxs. \<forall>y\<in>set c. length table \<le> prefix_of bits (fst y)"
    "\<forall>x\<in>set out. length (fst x) = 20"
  shows "\<exists>table' out'. merge_loop bits idxs table out = Inr (table', out') \<and> sorted (map fst out') \<and>
    mset out' = mset out + mset (concat idxs) \<and> length table' = 2 ^ bits \<and> table_ok bits table' out'"
  using assms
proof (induction bits idxs table out rule: merge_loop.induct)
  case (1 bits idxs table out)
  show ?case
  proof (cases "idxs = []")
    case True
    then have "merge_loop bits idxs table out = Inr (table @ replicate (2 ^ bits - length table) (length out), out)"
      by (simp add: merge_loop.simps [of bits])
    moreover have "length (table @ replicate (2 ^ bits - length table) (length out)) = 2 ^ bits" using "1.prems"(7) by simp
    ultimately show ?thesis using table_ok_fill [OF "1.prems"(6,7)] "1.prems"(4) True by simp
  next
    case False
    define idx where "idx = last idxs"
    let ?next = "fix_idx_order (butlast idxs @ [tl idx])"
    note st = merge_step [OF False "1.prems"(2,3), folded idx_def]
    have mem: "idx \<in> set idxs" using False by (simp add: idx_def)
    then have ok: "cursor_ok idx" using "1.prems"(3) by blast
    then have idx: "idx \<noteq> []" "hd idx \<in> set idx" "length (cur idx) = 20" by (auto simp: cursor_ok_def)
    define np where "np = prefix_of bits (cur idx)"
    have eb: "extract_bits (cur idx) bits = Inr np" using extract_bits_ok "1.prems"(1) idx(3) by (simp add: np_def)
    let ?table = "table @ replicate (np - length table) (length out)"
    have le: "length table \<le> np" using "1.prems"(8) mem idx(2) by (auto simp: np_def)
    have step: "merge_loop bits idxs table out = merge_loop bits ?next ?table (out @ [hd idx])"
      using False idx(1) eb by (subst merge_loop.simps) (simp add: Let_def idx_def [symmetric])
    have sub: "\<exists>c'\<in>set idxs. y \<in> set c'" if "c \<in> set ?next" "y \<in> set c" for c y
      using st(5) that by auto
    have p1: "sorted (map fst (out @ [hd idx]))" using "1.prems"(4,5) mem idx(2) by (auto simp: sorted_append)
    have p2: "\<forall>x\<in>set (out @ [hd idx]). \<forall>c\<in>set ?next. \<forall>y\<in>set c. fst x \<le> fst y"
    proof (intro ballI)
      fix x c y assume x: "x \<in> set (out @ [hd idx])" and cy: "c \<in> set ?next" "y \<in> set c"
      obtain c' where c': "c' \<in> set idxs" "y \<in> set c'" using sub [OF cy] by blast
      show "fst x \<le> fst y"
      proof (cases "x \<in> set out")
        case True
        then show ?thesis using "1.prems"(5) c' by blast
      next
        case False
        then show ?thesis using x st(4) c' by simp
      qed
    qed
    have "table_ok bits ?table out" using table_ok_fill [OF "1.prems"(6) le] .
    then have p3: "table_ok bits ?table (out @ [hd idx])" using le by (intro table_ok_snoc) (simp_all add: np_def)
    have p4: "length ?table \<le> 2 ^ bits" using prefix_of_less [OF "1.prems"(1), of "cur idx"] le by (simp add: np_def)
    have p5: "\<forall>c\<in>set ?next. \<forall>y\<in>set c. length ?table \<le> prefix_of bits (fst y)"
    proof (intro ballI)
      fix c y assume cy: "c \<in> set ?next" "y \<in> set c"
      obtain c' where c': "c' \<in> set idxs" "y \<in> set c'" using sub [OF cy] by blast
      then have "cur idx \<le> fst y" "length (fst y) = 20" using st(4) "1.prems"(3) by (auto simp: cursor_ok_def)
      then show "length ?table \<le> prefix_of bits (fst y)"
        using prefix_of_mono [of "cur idx" "fst y" bits] idx(3) le by (simp add: np_def)
    qed
    have p6: "\<forall>x\<in>set (out @ [hd idx]). length (fst x) = 20" using "1.prems"(9) idx(3) by auto
    obtain table' out' where r: "merge_loop bits ?next ?table (out @ [hd idx]) = Inr (table', out')"
      "sorted (map fst out')" "mset out' = mset (out @ [hd idx]) + mset (concat ?next)" "length table' = 2 ^ bits"
      "table_ok bits table' out'"
      using "1.IH" [OF False idx_def idx(1) eb "1.prems"(1) st(1,2) p1 p2 p3 p4 p5 p6] by blast
    then show ?thesis using step st(3) by (intro exI [of _ table'] exI [of _ out']) simp
  qed
qed

section \<open>_do_midx\<close>

text \<open>An opened input, and what \<open>_do_midx\<close> reads off it.\<close>

datatype open_index = OIdx pack_idx | OMidx pack_midx

fun oi_len :: "open_index \<Rightarrow> nat" where
  "oi_len (OIdx px) = px_nsha px"
| "oi_len (OMidx pm) = pm_nsha pm"

fun oi_names :: "open_index \<Rightarrow> bytes list" where
  "oi_names (OIdx px) = [basename (px_name px)]"
| "oi_names (OMidx pm) = map basename (pm_idxnames pm)"

fun oi_input :: "nat \<Rightarrow> open_index \<Rightarrow> merge_input" where
  "oi_input base (OIdx px) =
     \<lparr>mi_map = px_map px, mi_len = px_nsha px, mi_sha_ofs = sha_ofs px, mi_name_ofs = 0, mi_name_base = base\<rparr>"
| "oi_input base (OMidx pm) =
     \<lparr>mi_map = pm_map pm, mi_len = pm_nsha pm, mi_sha_ofs = pm_sha_ofs pm, mi_name_ofs = pm_which_ofs pm,
      mi_name_base = base\<rparr>"

fun midx_inputs :: "nat \<Rightarrow> open_index list \<Rightarrow> merge_input list" where
  "midx_inputs base [] = []"
| "midx_inputs base (ix # ixs) = oi_input base ix # midx_inputs (base + length (oi_names ix)) ixs"

text \<open>\<open>list.sort(reverse=True)\<close> keeps the order of equal elements.\<close>

definition sort_inputs :: "merge_input list \<Rightarrow> merge_input list" where
  "sort_inputs inp = rev (sort_key (\<lambda>mi. slice (mi_sha_ofs mi) (mi_sha_ofs mi + 20) (mi_map mi)) (rev inp))"

text \<open>
  \<open>ixs\<close> are the inputs that opened, \<open>n_files\<close> the number of input names; \<open>ceil_log2\<close> stands for
  \<open>int(math.ceil(math.log(pages, 2)))\<close>, a floating point logarithm.  The result is the file's bytes.
\<close>

definition midx_file :: "nat \<Rightarrow> nat list \<Rightarrow> (bytes \<times> nat) list \<Rightarrow> bytes list \<Rightarrow> bytes" where
  "midx_file bits table out names =
     MIDX_HEADER @ be_bytes 4 MIDX_VERSION @ be_bytes 4 bits @ concat (map (be_bytes 4) table) @
     concat (map fst out) @ concat (map (be_bytes 4) (map snd out)) @ join [char_of (0 :: nat)] names"

definition do_midx ::
  "(nat \<Rightarrow> nat) \<Rightarrow> bool \<Rightarrow> bool \<Rightarrow> nat \<Rightarrow> open_index list \<Rightarrow> (nat \<times> bytes) option res" where
  "do_midx ceil_log2 auto force n_files ixs =
     (let inp = sort_inputs (midx_inputs 0 ixs);
          allfilenames = concat (map oi_names ixs);
          n = sum_list (map oi_len ixs)
      in if auto \<and> n < 1024 \<and> n_files < 3 \<or> (auto \<or> force) \<and> n_files < 2 \<or> force \<and> n = 0 then Inr None
         else
           let pages = (let p = n * 5 div 1024 in if p = 0 then 1 else p);
               bits = ceil_log2 pages
           in res_bind (merge_into bits inp) (\<lambda>(table, out).
              res_bind (py_assert (length out = n)) (\<lambda>_.
              Inr (Some (n, midx_file bits table out allfilenames)))))"

section \<open>The merged file\<close>

text \<open>A well-formed input: its ids, each with the number of its index among the input's names.\<close>

definition oi_wf :: "open_index \<Rightarrow> (bytes \<times> nat) list \<Rightarrow> bool" where
  "oi_wf ix es \<longleftrightarrow>
     es \<noteq> [] \<and> (\<forall>e\<in>set es. snd e < length (oi_names ix)) \<and>
     (case ix of
        OIdx px \<Rightarrow> px_version px = V2 \<and> wf_idx px (map fst es)
      | OMidx pm \<Rightarrow> wf_midx pm (map fst es) \<and> (\<forall>i<length es. get_idx_i pm (int i) = Inr (snd (es ! i))))"

lemma oi_wf_len: "oi_wf ix es \<Longrightarrow> oi_len ix = length es"
  by (cases ix) (auto simp: oi_wf_def wf_idx_def wf_midx_def)

lemma oi_wf_ids: "oi_wf ix es \<Longrightarrow> sorted (map fst es) \<and> (\<forall>e\<in>set es. length (fst e) = 20) \<and> es \<noteq> []"
  by (cases ix) (auto simp: oi_wf_def wf_idx_def wf_midx_def)

lemma cursor_of_input:
  assumes "oi_wf ix es" "base + length (oi_names ix) < 2 ^ 32"
  shows "cursor_of (oi_input base ix) = map (\<lambda>e. (fst e, snd e + base)) es"
proof (cases ix)
  case (OIdx px)
  then have px: "px_version px = V2" "px_nsha px = length es" "\<forall>i<length es. idx_to_hash px i = Inr (fst (es ! i))"
    "\<forall>e\<in>set es. snd e = 0"
    using assms(1) by (auto simp: oi_wf_def wf_idx_def)
  then have "slice (sha_ofs px + 20 * i) (sha_ofs px + 20 * i + 20) (px_map px) = fst (es ! i)" if "i < length es" for i
    using that by (auto simp: idx_to_hash_def Let_def mult.commute)
  then show ?thesis using px OIdx by (intro nth_equalityI) (auto simp: cursor_of_def)
next
  case (OMidx pm)
  then have pm: "pm_nsha pm = length es" "\<forall>i<length es. midx_get pm (int i) = Inr (fst (es ! i))"
    "\<forall>i<length es. get_idx_i pm (int i) = Inr (snd (es ! i))" "\<forall>e\<in>set es. snd e < length (oi_names ix)"
    using assms(1) by (auto simp: oi_wf_def wf_midx_def)
  have a: "slice (pm_sha_ofs pm + 20 * i) (pm_sha_ofs pm + 20 * i + 20) (pm_map pm) = fst (es ! i)" if "i < length es" for i
    using pm(1,2) that by (auto simp: midx_get_def Let_def mult.commute)
  have b: "be_val (slice (pm_which_ofs pm + 4 * i) (pm_which_ofs pm + 4 * i + 4) (pm_map pm)) = snd (es ! i)"
    if "i < length es" for i
    using pm(1,3) that by (auto simp: get_idx_i_def unpack_from_def slice_def mult.commute split: if_splits)
  have c: "(snd (es ! i) + base) mod 2 ^ 32 = snd (es ! i) + base" if "i < length es" for i
  proof -
    have "snd (es ! i) < length (oi_names ix)" using pm(4) that by simp
    then show ?thesis using assms(2) by (intro mod_less) linarith
  qed
  have "pm_which_ofs pm \<noteq> 0" by (simp add: pm_which_ofs_def pm_sha_ofs_def)
  then show ?thesis using pm(1) a b c OMidx by (intro nth_equalityI) (auto simp: cursor_of_def)
qed

text \<open>The entries of all inputs, with the numbers the merge gives them.\<close>

fun numbered :: "nat \<Rightarrow> open_index list \<Rightarrow> (bytes \<times> nat) list list \<Rightarrow> cursor list" where
  "numbered base (ix # ixs) (es # ess) =
     map (\<lambda>e. (fst e, snd e + base)) es # numbered (base + length (oi_names ix)) ixs ess"
| "numbered base _ _ = []"

lemma cursors_of_inputs:
  assumes "list_all2 oi_wf ixs ess" "base + length (concat (map oi_names ixs)) < 2 ^ 32"
  shows "map cursor_of (midx_inputs base ixs) = numbered base ixs ess"
  using assms
proof (induction arbitrary: base rule: list_all2_induct)
  case Nil
  then show ?case by simp
next
  case (Cons ix ixs es ess)
  then show ?case using cursor_of_input [of ix es base] Cons.IH [of "base + length (oi_names ix)"] by simp
qed

lemma numbered_cursor_ok:
  "list_all2 oi_wf ixs ess \<Longrightarrow> c \<in> set (numbered base ixs ess) \<Longrightarrow> cursor_ok c"
proof (induction arbitrary: base rule: list_all2_induct)
  case Nil
  then show ?case by simp
next
  case (Cons ix ixs es ess)
  from oi_wf_ids [OF Cons.hyps(1)] Cons.IH Cons.prems show ?case by (auto simp: cursor_ok_def comp_def)
qed

lemma numbered_length: "list_all2 oi_wf ixs ess \<Longrightarrow> length (concat (numbered base ixs ess)) = sum_list (map oi_len ixs)"
  by (induction arbitrary: base rule: list_all2_induct) (auto simp: oi_wf_len)

text \<open>Each numbered entry is an entry of an input, under the name its number stands for.\<close>

definition entry_of :: "open_index list \<Rightarrow> (bytes \<times> nat) list list \<Rightarrow> bytes \<Rightarrow> bytes \<Rightarrow> bool" where
  "entry_of ixs ess h n \<longleftrightarrow>
     (\<exists>(ix, es)\<in>set (zip ixs ess). \<exists>e\<in>set es. fst e = h \<and> snd e < length (oi_names ix) \<and> oi_names ix ! snd e = n)"

lemma numbered_entry:
  "list_all2 oi_wf ixs ess \<Longrightarrow> x \<in> set (concat (numbered base ixs ess)) \<Longrightarrow>
    \<exists>k < length (concat (map oi_names ixs)). snd x = base + k \<and>
      entry_of ixs ess (fst x) (concat (map oi_names ixs) ! k)"
proof (induction arbitrary: base rule: list_all2_induct)
  case Nil
  then show ?case by simp
next
  case (Cons ix ixs es ess)
  consider (here) e where "e \<in> set es" "x = (fst e, snd e + base)"
    | (there) "x \<in> set (concat (numbered (base + length (oi_names ix)) ixs ess))"
    using Cons.prems by auto
  then show ?case
  proof cases
    case here
    have "snd e < length (oi_names ix)" using Cons.hyps(1) here(1) by (simp add: oi_wf_def)
    then show ?thesis
      using here by (intro exI [of _ "snd e"]) (auto simp: entry_of_def nth_append)
  next
    case there
    then obtain k where k: "k < length (concat (map oi_names ixs))" "snd x = base + length (oi_names ix) + k"
      "entry_of ixs ess (fst x) (concat (map oi_names ixs) ! k)"
      using Cons.IH by blast
    then have "entry_of (ix # ixs) (es # ess) (fst x) (concat (map oi_names ixs) ! k)" by (auto simp: entry_of_def)
    then show ?thesis using k(1,2) by (intro exI [of _ "length (oi_names ix) + k"]) (simp add: nth_append)
  qed
qed

lemma numbered_ids:
  "list_all2 oi_wf ixs ess \<Longrightarrow> fst ` set (concat (numbered base ixs ess)) = fst ` set (concat ess)"
proof (induction arbitrary: base rule: list_all2_induct)
  case Nil
  then show ?case by simp
next
  case (Cons ix ixs es ess)
  then show ?case using Cons.IH [of "base + length (oi_names ix)"] by (simp add: image_Un image_image)
qed

lemma sort_inputs_desc:
  assumes "\<forall>mi\<in>set inp. cursor_of mi \<noteq> []"
  shows "desc (map cursor_of (sort_inputs inp))" "mset (map cursor_of (sort_inputs inp)) = mset (map cursor_of inp)"
proof -
  let ?k = "\<lambda>mi. slice (mi_sha_ofs mi) (mi_sha_ofs mi + 20) (mi_map mi)"
  let ?s = "sort_key ?k (rev inp)"
  have k: "?k mi = cur (cursor_of mi)" if "mi \<in> set inp" for mi
  proof -
    have "0 < mi_len mi" using assms that by (auto simp: cursor_of_def)
    then show ?thesis by (simp add: cursor_of_def hd_map upt_conv_Cons)
  qed
  have "sorted (map ?k ?s)" by (rule sorted_sort_key)
  moreover have "map ?k ?s = map (\<lambda>mi. cur (cursor_of mi)) ?s" using k by (intro map_cong) auto
  ultimately have "sorted_wrt (\<lambda>a b. cur a \<le> cur b) (map cursor_of ?s)" by (simp add: sorted_wrt_map)
  then show "desc (map cursor_of (sort_inputs inp))"
    by (simp add: desc_def sort_inputs_def sorted_wrt_rev flip: rev_map)
  show "mset (map cursor_of (sort_inputs inp)) = mset (map cursor_of inp)" by (simp add: sort_inputs_def)
qed

section \<open>Opening the merged file\<close>

lemma midx_file_open:
  assumes bits: "bits \<le> 30" and lt: "length table = 2 ^ bits" and tok: "table_ok bits table out"
    and out: "sorted (map fst out)" "\<forall>x\<in>set out. length (fst x) = 20" "length out < 2 ^ 32"
      "\<forall>x\<in>set out. snd x < length names" "length names \<le> 2 ^ 32"
    and names: "names \<noteq> []" "\<forall>n\<in>set names. char_of (0 :: nat) \<notin> set n \<and> exists_path (path_join (dirname path) n)"
    and path: "suffix ''.midx'' path" and data: "data = midx_file bits table out names"
  shows "\<exists>pm. open_midx exists_path ignore_missing path data = Inr (Some pm) \<and>
    wf_midx pm (map fst out) \<and> (\<forall>i<length out. get_idxname pm (int i) = Inr (names ! snd (out ! i)))"
proof -
  let ?n = "length out"
  let ?pm = "\<lparr>pm_name = path, pm_map = data, pm_bits = bits, pm_nsha = ?n, pm_idxnames = names\<rparr>"
  let ?head = "MIDX_HEADER @ be_bytes 4 MIDX_VERSION @ be_bytes 4 bits"
  have lh: "length MIDX_HEADER = 4" by (simp add: MIDX_HEADER_def)
  have tle: "n \<le> ?n" if n: "n \<in> set table" for n
  proof -
    obtain p where "p < length table" "n = table ! p" using n by (auto simp: in_set_conv_nth)
    then have "n = length (filter (\<lambda>x. prefix_of bits (fst x) \<le> p) out)" using tok by (simp add: table_ok_def)
    then show ?thesis by simp
  qed
  have t4: "\<forall>n\<in>set table. n < 256 ^ 4" using tle out(3) by fastforce
  have bits4: "bits < 256 ^ 4" using bits by simp
  have h: "take 4 data = MIDX_HEADER" "slice 8 12 data = be_bytes 4 bits"
    using lh by (simp_all add: data midx_file_def slice_def)
  have ver: "unpack_from 4 data 4 = Inr MIDX_VERSION"
  proof -
    have "be_val (be_bytes 4 MIDX_VERSION) = MIDX_VERSION" by (rule be_val_be_bytes_id) (simp add: MIDX_VERSION_def)
    then show ?thesis using lh by (simp add: data midx_file_def unpack_from_def)
  qed
  have fwb: "firstword (be_bytes 4 bits) = Inr bits" using bits4 by (simp add: firstword_def)
  have fan: "fanget \<lparr>pm_name = path, pm_map = data, pm_bits = bits, pm_nsha = k, pm_idxnames = ns\<rparr> i = Inr (table ! i)"
    if "i < 2 ^ bits" for i k ns
  proof -
    have "i < length (map (be_bytes 4) table)" using that lt by simp
    then have "take 4 (drop (12 + i * 4) data) = map (be_bytes 4) table ! i"
      by (rule table_field(1) [where pre = ?head]) (use lh in \<open>simp_all add: data midx_file_def\<close>)
    then have tk: "take 4 (drop (12 + i * 4) data) = be_bytes 4 (table ! i)" using that lt by simp
    moreover have "slice (12 + i * 4) (12 + i * 4 + 4) data = take 4 (drop (12 + i * 4) data)" by (simp add: slice_def)
    moreover have "table ! i < 256 ^ 4" using t4 that lt by simp
    ultimately show ?thesis using that by (simp add: fanget_def pm_entries_def Let_def firstword_def)
  qed
  have all: "filter (\<lambda>x. prefix_of bits (fst x) \<le> p) out = out" if "2 ^ bits \<le> Suc p" for p
  proof -
    have "prefix_of bits h \<le> p" for h using prefix_of_less [of bits h] bits that by linarith
    then show ?thesis by (simp add: filter_id_conv)
  qed
  have last: "table ! (2 ^ bits - 1) = ?n"
  proof -
    have "table ! (2 ^ bits - 1) = length (filter (\<lambda>x. prefix_of bits (fst x) \<le> 2 ^ bits - 1) out)"
      using tok lt by (simp add: table_ok_def)
    then show ?thesis using all [of "2 ^ bits - 1"] by simp
  qed
  let ?p1 = "?head @ concat (map (be_bytes 4) table)"
  let ?p2 = "?p1 @ concat (map fst out)"
  have ids: "\<forall>x\<in>set (map fst out). length x = 20" using out(2) by simp
  have l1: "length ?p1 = pm_sha_ofs ?pm" using lh lt by (simp add: pm_sha_ofs_def pm_entries_def)
  have l2: "length ?p2 = pm_which_ofs ?pm"
    using l1 length_concat_same [OF ids] by (simp add: pm_which_ofs_def)
  have l3: "drop (pm_which_ofs ?pm + 4 * ?n) data = join [char_of (0 :: nat)] names"
  proof -
    define A where "A = ?p2 @ concat (map (be_bytes 4) (map snd out))"
    have d: "data = A @ join [char_of (0 :: nat)] names" by (simp add: data midx_file_def A_def)
    have la: "length A = pm_which_ofs ?pm + 4 * ?n"
    proof -
      have "length A = length ?p2 + length (concat (map (be_bytes 4) (map snd out)))"
        unfolding A_def by (rule length_append)
      then show ?thesis by (simp only: l2 length_be_table length_map)
    qed
    have "drop (length A) data = join [char_of (0 :: nat)] names"
      unfolding d append_eq_conv_conj by simp
    then show ?thesis by (simp only: la)
  qed
  have sp: "split_on (char_of (0 :: nat)) (join [char_of (0 :: nat)] names) = names"
    using names by (intro split_on_join) simp_all
  have wo: "pm_which_ofs \<lparr>pm_name = path, pm_map = data, pm_bits = bits, pm_nsha = ?n, pm_idxnames = ns\<rparr> =
    pm_which_ofs ?pm" for ns by (simp add: pm_which_ofs_def pm_sha_ofs_def pm_entries_def)
  note l4 = l3 [folded wo [of "[]"]]
  have missing: "filter (\<lambda>n. \<not> exists_path (path_join (dirname path) n)) names = []"
    using names(2) by (simp add: filter_empty_conv)
  have "midx_init exists_path path data = Inr ?pm"
    using h ver fwb fan [of "2 ^ bits - 1"] last missing l4 sp
    by (simp add: midx_init_def Let_def)
  then have "open_midx exists_path ignore_missing path data = Inr (Some ?pm)"
    using path h ver by (simp add: open_midx_def)
  moreover have get: "midx_get ?pm (int i) = Inr (map fst out ! i)" if "i < ?n" for i
  proof -
    have "i < length (map fst out)" using that by simp
    then have "take 20 (drop (pm_sha_ofs ?pm + i * 20) data) = map fst out ! i"
      by (rule table_field(1) [OF _ ids, where pre = ?p1]) (use l1 in \<open>simp_all add: data midx_file_def\<close>)
    moreover have "slice (pm_sha_ofs ?pm + i * 20) (pm_sha_ofs ?pm + i * 20 + 20) data =
      take 20 (drop (pm_sha_ofs ?pm + i * 20) data)" by (simp add: slice_def)
    ultimately show ?thesis using that by (simp add: midx_get_def Let_def)
  qed
  moreover have "wf_midx ?pm (map fst out)"
  proof -
    have "fanget ?pm i = Inr (length (filter (\<lambda>h. prefix_of bits h \<le> i) (map fst out)))" if "i < 2 ^ bits" for i
      using fan [OF that] tok that lt by (simp add: table_ok_def filter_map comp_def)
    then show ?thesis using bits out(1) ids get by (simp add: wf_midx_def)
  qed
  moreover have "get_idxname ?pm (int i) = Inr (names ! snd (out ! i))" if "i < ?n" for i
  proof -
    have s4: "\<forall>n\<in>set (map snd out). n < 256 ^ 4" using out(4,5) by fastforce
    have "unpack_from 4 data (pm_which_ofs ?pm + i * 4) = Inr (map snd out ! i)"
      by (rule unpack_from_table [OF _ s4, where pre = ?p2])
        (use that l2 in \<open>simp_all add: data midx_file_def\<close>)
    then show ?thesis using that out(4) by (simp add: get_idxname_def get_idx_i_def)
  qed
  ultimately show ?thesis by blast
qed

section \<open>Properties\<close>

definition nothing_to_do :: "bool \<Rightarrow> bool \<Rightarrow> nat \<Rightarrow> nat \<Rightarrow> bool" where
  "nothing_to_do auto force n_files n \<longleftrightarrow>
     auto \<and> n < 1024 \<and> n_files < 3 \<or> (auto \<or> force) \<and> n_files < 2 \<or> force \<and> n = 0"

lemma join_names_nul:
  "list_all2 oi_wf ixs ess \<Longrightarrow> ixs \<noteq> [] \<Longrightarrow> concat (map oi_names ixs) \<noteq> []"
  by (induction rule: list_all2_induct) (auto simp: oi_wf_def dest: last_in_set)

lemma merge_inputs_ok:
  assumes "list_all2 oi_wf ixs ess" "length (concat (map oi_names ixs)) < 2 ^ 32" "bits \<le> 32"
  shows "\<exists>table out. merge_into bits (sort_inputs (midx_inputs 0 ixs)) = Inr (table, out) \<and>
    sorted (map fst out) \<and> mset out = mset (concat (numbered 0 ixs ess)) \<and> length table = 2 ^ bits \<and>
    table_ok bits table out"
proof -
  have cs: "map cursor_of (midx_inputs 0 ixs) = numbered 0 ixs ess"
    using cursors_of_inputs [OF assms(1), of 0] assms(2) by simp
  have ok: "\<forall>c\<in>set (numbered 0 ixs ess). cursor_ok c" using numbered_cursor_ok [OF assms(1)] by blast
  have ne: "\<forall>mi\<in>set (midx_inputs 0 ixs). cursor_of mi \<noteq> []"
    using ok unfolding cs [symmetric] by (auto simp: cursor_ok_def)
  let ?cs = "map cursor_of (sort_inputs (midx_inputs 0 ixs))"
  have ms: "mset ?cs = mset (numbered 0 ixs ess)" using sort_inputs_desc(2) [OF ne] unfolding cs .
  then have "\<forall>c\<in>set ?cs. cursor_ok c" using ok by (metis set_mset_mset)
  moreover have "mset (concat ?cs) = mset (concat (numbered 0 ixs ess))"
    by (simp only: mset_concat_cursors ms)
  ultimately show ?thesis
    using merge_loop_ok [OF assms(3) sort_inputs_desc(1) [OF ne], of "[]" "[]"]
    by (simp add: merge_into_def table_ok_def)
qed



end
