(* ===== verification/Midx_Dir.thy ===== *)
theory Midx_Dir
  imports Midx_Merge
begin

text \<open>
  Which indexes of a directory to merge: \<open>do_midx_dir\<close>, \<open>do_midx_group\<close> and \<open>_group\<close> of
  \<open>lib/bup/cmd/midx.py\<close>.
\<close>

section \<open>Dropping redundant multi-indexes\<close>

text \<open>
  A listed multi-index: its path, the paths of its members, its size and modification time.
  \<open>already\<close> is the dict's key set; the third component is what is unlinked.
\<close>

record midx_info =
  mx_path :: bytes
  mx_contents :: "bytes list"
  mx_size :: nat
  mx_mtime :: int

fun redundant_loop :: "midx_info list \<Rightarrow> bytes set \<Rightarrow> bytes set \<times> bytes list" where
  "redundant_loop [] already = (already, [])"
| "redundant_loop (m # ms) already =
     (if set (mx_contents m) \<subseteq> already then
        (let (a, u) = redundant_loop ms (insert (mx_path m) already) in (a, mx_path m # u))
      else redundant_loop ms (already \<union> set (mx_contents m)))"

definition keep_midxs :: "midx_info list \<Rightarrow> bytes list \<Rightarrow> midx_info list \<times> bytes list \<times> bytes list" where
  "keep_midxs midxs idxs =
     (let sorted_midxs = sort_key (\<lambda>m. (- int (mx_size m), - mx_mtime m)) midxs;
          (already, unlinked) = redundant_loop sorted_midxs {}
      in (filter (\<lambda>m. mx_path m \<notin> already) sorted_midxs, filter (\<lambda>k. k \<notin> already) idxs, unlinked))"

section \<open>The merge loop\<close>

function midx_groups :: "'a list \<Rightarrow> nat \<Rightarrow> 'a list list" where
  "midx_groups l cnt = (if l = [] \<or> cnt = 0 then [] else take cnt l # midx_groups (drop cnt l) cnt)"
  by pat_completeness auto
termination by (relation "measure (length \<circ> fst)") auto

declare midx_groups.simps [simp del]

text \<open>\<open>mk\<close> is \<open>_do_midx\<close> on a group of names: nothing, or the size and name of the new multi-index.\<close>

definition do_midx_group :: "(bytes list \<Rightarrow> (nat \<times> bytes) option) \<Rightarrow> nat \<Rightarrow> bytes list \<Rightarrow> (nat \<times> bytes) list" where
  "do_midx_group mk max_files infiles = List.map_filter mk (midx_groups infiles max_files)"

definition merge_round ::
  "(bytes list \<Rightarrow> (nat \<times> bytes) option) \<Rightarrow> nat \<Rightarrow> nat \<Rightarrow> (nat \<times> bytes) list \<Rightarrow> (nat \<times> bytes) list" where
  "merge_round mk max_files lwm all =
     (let all' = sort all;
          n = length all' + 1 - lwm
      in do_midx_group mk max_files (map snd (take n all')) @ drop n all')"

partial_function (option) merge_rounds ::
  "(bytes list \<Rightarrow> (nat \<times> bytes) option) \<Rightarrow> nat \<Rightarrow> nat \<Rightarrow> nat \<Rightarrow> (nat \<times> bytes) list \<Rightarrow> (nat \<times> bytes) list option" where
  "merge_rounds mk max_files hwm lwm all =
     (if hwm < length all then merge_rounds mk max_files hwm lwm (merge_round mk max_files lwm all) else Some all)"

definition do_midx_dir ::
  "(bytes list \<Rightarrow> (nat \<times> bytes) option) \<Rightarrow> bool \<Rightarrow> bool \<Rightarrow> nat \<Rightarrow> (bytes \<Rightarrow> nat) \<Rightarrow>
   midx_info list \<Rightarrow> bytes list \<Rightarrow> (nat \<times> bytes) list option" where
  "do_midx_dir mk auto force max_files idx_size midxs idxs =
     (let (kept, idxs', _) = (if force \<and> \<not> auto then ([], idxs, []) else keep_midxs midxs idxs);
          all = map (\<lambda>m. (mx_size m, mx_path m)) kept @ map (\<lambda>k. (idx_size k, k)) idxs';
          hwm = (if force then 1 else 5);
          lwm = (if force then 1 else 2)
      in merge_rounds mk max_files hwm lwm all)"

section \<open>Lemmas\<close>

lemma redundant_loop_covers:
  assumes "redundant_loop ms already = (a, u)" "\<forall>m\<in>set ms. \<forall>m'\<in>set ms. mx_path m \<notin> set (mx_contents m')"
    "distinct (map mx_path ms)" "\<forall>m\<in>set ms. mx_path m \<notin> already"
  shows "already \<subseteq> a" "\<forall>m\<in>set ms. set (mx_contents m) \<subseteq> a"
    "\<forall>m\<in>set ms. mx_path m \<in> a \<longleftrightarrow> mx_path m \<in> set u"
    "a \<subseteq> already \<union> set u \<union> \<Union> (set ` mx_contents ` {m \<in> set ms. mx_path m \<notin> a})"
    "set u \<subseteq> mx_path ` set ms"
proof -
  have "already \<subseteq> a \<and> (\<forall>m\<in>set ms. set (mx_contents m) \<subseteq> a) \<and>
    (\<forall>m\<in>set ms. mx_path m \<in> a \<longleftrightarrow> mx_path m \<in> set u) \<and>
    a \<subseteq> already \<union> set u \<union> \<Union> (set ` mx_contents ` {m \<in> set ms. mx_path m \<notin> a}) \<and> set u \<subseteq> mx_path ` set ms \<and>
    a \<subseteq> already \<union> set u \<union> \<Union> (set ` mx_contents ` set ms)"
    using assms
  proof (induction ms arbitrary: already a u)
    case Nil
    then show ?case by simp
  next
    case (Cons m ms)
    show ?case
    proof (cases "set (mx_contents m) \<subseteq> already")
      case True
      then obtain u' where u': "redundant_loop ms (insert (mx_path m) already) = (a, u')" "u = mx_path m # u'"
        using Cons.prems(1) by (auto split: prod.splits)
      have "\<forall>m'\<in>set ms. mx_path m' \<notin> insert (mx_path m) already" using Cons.prems(3,4) by (auto simp: image_iff)
      with Cons.IH [OF u'(1)] Cons.prems(2,3) have IH: "insert (mx_path m) already \<subseteq> a"
        "\<forall>m\<in>set ms. set (mx_contents m) \<subseteq> a" "\<forall>m\<in>set ms. mx_path m \<in> a \<longleftrightarrow> mx_path m \<in> set u'"
        "a \<subseteq> insert (mx_path m) already \<union> set u' \<union> \<Union> (set ` mx_contents ` {m \<in> set ms. mx_path m \<notin> a})"
        "set u' \<subseteq> mx_path ` set ms"
        "a \<subseteq> insert (mx_path m) already \<union> set u' \<union> \<Union> (set ` mx_contents ` set ms)" by auto
      then show ?thesis using True u'(2) Cons.prems(3) by auto
    next
      case False
      then have r: "redundant_loop ms (already \<union> set (mx_contents m)) = (a, u)" using Cons.prems(1) by simp
      have "\<forall>m'\<in>set ms. mx_path m' \<notin> already \<union> set (mx_contents m)" using Cons.prems(2,4) by auto
      with Cons.IH [OF r] Cons.prems(2,3) have IH: "already \<union> set (mx_contents m) \<subseteq> a"
        "\<forall>m\<in>set ms. set (mx_contents m) \<subseteq> a" "\<forall>m\<in>set ms. mx_path m \<in> a \<longleftrightarrow> mx_path m \<in> set u"
        "a \<subseteq> already \<union> set (mx_contents m) \<union> set u \<union> \<Union> (set ` mx_contents ` {m \<in> set ms. mx_path m \<notin> a})"
        "set u \<subseteq> mx_path ` set ms"
        "a \<subseteq> already \<union> set (mx_contents m) \<union> set u \<union> \<Union> (set ` mx_contents ` set ms)" by auto
      have nu: "mx_path m \<notin> set u" using IH(5) Cons.prems(3) by auto
      have "mx_path m \<notin> a" using IH(6) nu Cons.prems(2,4) by auto
      then show ?thesis using IH nu by auto
    qed
  qed
  then show "already \<subseteq> a" "\<forall>m\<in>set ms. set (mx_contents m) \<subseteq> a"
    "\<forall>m\<in>set ms. mx_path m \<in> a \<longleftrightarrow> mx_path m \<in> set u"
    "a \<subseteq> already \<union> set u \<union> \<Union> (set ` mx_contents ` {m \<in> set ms. mx_path m \<notin> a})"
    "set u \<subseteq> mx_path ` set ms" by blast+
qed

lemma length_midx_groups: "0 < cnt \<Longrightarrow> length (midx_groups l cnt) * cnt < length l + cnt"
proof (induction l cnt rule: midx_groups.induct)
  case (1 l cnt)
  show ?case
  proof (cases "l = []")
    case True
    then show ?thesis using 1 by (simp add: midx_groups.simps)
  next
    case False
    then have "length (midx_groups (drop cnt l) cnt) * cnt < length (drop cnt l) + cnt" using 1 by simp
    moreover have "midx_groups l cnt = take cnt l # midx_groups (drop cnt l) cnt"
      using False "1.prems" by (simp add: midx_groups.simps [of l])
    moreover have "0 < length l" using False by simp
    ultimately show ?thesis by (cases "cnt \<le> length l") simp_all
  qed
qed

lemma length_map_filter: "length (List.map_filter f xs) \<le> length xs"
  by (induction xs) (simp_all add: List.map_filter_simps split: option.splits)

lemma few_chunks:
  fixes g m n :: nat
  assumes "g * m < n + m" "2 \<le> m" "2 \<le> n"
  shows "g < n"
proof (rule ccontr)
  assume "\<not> g < n"
  then have "n * m \<le> g * m" by simp
  moreover obtain a b where "n = a + 2" "m = b + 2" using assms(2,3) by (metis add.commute le_Suc_ex)
  ultimately show False using assms(1) by (simp add: algebra_simps)
qed

lemma merge_round_shrinks:
  assumes "2 \<le> max_files" "1 \<le> lwm" "lwm < length all"
  shows "length (merge_round mk max_files lwm all) < length all"
proof -
  let ?n = "length all + 1 - lwm"
  have n: "?n \<le> length all" "2 \<le> ?n" using assms by simp_all
  let ?g = "midx_groups (map snd (take ?n (sort all))) max_files"
  have "length ?g * max_files < ?n + max_files" 
    using length_midx_groups [of max_files "map snd (take ?n (sort all))"] assms(1) n(1) by simp
  then have "length ?g < ?n" using assms(1) n(2) by (rule few_chunks)
  then have "length (do_midx_group mk max_files (map snd (take ?n (sort all)))) < ?n"
    using length_map_filter [of mk ?g] by (simp add: do_midx_group_def)
  then show ?thesis using n(1) by (simp add: merge_round_def Let_def)
qed

lemma merge_rounds_end:
  assumes "2 \<le> max_files" "1 \<le> lwm" "lwm \<le> hwm"
  shows "\<exists>r. merge_rounds mk max_files hwm lwm all = Some r \<and> length r \<le> hwm"
proof (induction "length all" arbitrary: all rule: less_induct)
  case less
  show ?case
  proof (cases "hwm < length all")
    case False
    then show ?thesis by (simp add: merge_rounds.simps [of mk max_files hwm lwm all])
  next
    case True
    then have "length (merge_round mk max_files lwm all) < length all"
      using merge_round_shrinks [OF assms(1,2)] assms(3) by simp
    from less [OF this] show ?thesis using True by (subst merge_rounds.simps) simp
  qed
qed

section \<open>Properties\<close>

text \<open>C31: the merging of a directory's indexes ends: with groups of at least two files (the command
  insists on five), however the single merges turn out, at most five indexes are left, or one when
  forced.\<close>

theorem do_midx_dir_terminates:
  assumes "2 \<le> max_files"
  shows "\<exists>r. do_midx_dir mk auto force max_files idx_size midxs idxs = Some r \<and> length r \<le> (if force then 1 else 5)"
  using merge_rounds_end [OF assms, of "if force then 1 else 2" "if force then 1 else 5" mk]
  by (auto simp: do_midx_dir_def Let_def split: prod.splits)

theorem do_midx_dir_terminates_witness:
  "\<exists>r. do_midx_dir (\<lambda>ns. Some (1, concat ns)) True False 5 (\<lambda>_. 1) [] (map (\<lambda>c. [c]) ''abcdefg'') = Some r \<and> length r \<le> 5"
  using do_midx_dir_terminates [of 5 "\<lambda>ns. Some (1, concat ns)" True False "\<lambda>_. 1" "[]" "map (\<lambda>c. [c]) ''abcdefg''"] by simp

text \<open>dropping redundant multi-indexes loses no index: every index a listed multi-index covers is
  covered by one that is kept, only multi-indexes are unlinked, and what is left to merge on its own
  is exactly what no multi-index covers.\<close>

theorem keep_midxs_covers:
  assumes "keep_midxs midxs idxs = (kept, idxs', unlinked)" "distinct (map mx_path midxs)"
    and "\<forall>m\<in>set midxs. \<forall>m'\<in>set midxs. mx_path m \<notin> set (mx_contents m')"
    and "\<forall>m\<in>set midxs. mx_path m \<notin> set idxs"
  shows "(\<Union>m\<in>set kept. set (mx_contents m)) = (\<Union>m\<in>set midxs. set (mx_contents m)) \<and>
    set unlinked \<union> mx_path ` set kept = mx_path ` set midxs \<and> set unlinked \<inter> mx_path ` set kept = {} \<and>
    set idxs' = set idxs - (\<Union>m\<in>set midxs. set (mx_contents m))"
proof -
  let ?s = "sort_key (\<lambda>m. (- int (mx_size m), - mx_mtime m)) midxs"
  obtain a where r: "redundant_loop ?s {} = (a, unlinked)" "kept = filter (\<lambda>m. mx_path m \<notin> a) ?s"
    "idxs' = filter (\<lambda>k. k \<notin> a) idxs"
    using assms(1) by (auto simp: keep_midxs_def Let_def split: prod.splits)
  have d: "distinct (map mx_path ?s)" using assms(2) by (simp add: distinct_map)
  note c = redundant_loop_covers [OF r(1) _ d]
  have c': "\<forall>m\<in>set midxs. set (mx_contents m) \<subseteq> a" "\<forall>m\<in>set midxs. mx_path m \<in> a \<longleftrightarrow> mx_path m \<in> set unlinked"
    "a \<subseteq> set unlinked \<union> \<Union> (set ` mx_contents ` {m \<in> set midxs. mx_path m \<notin> a})" "set unlinked \<subseteq> mx_path ` set midxs"
    using c assms(3) by auto
  have k: "set kept = {m \<in> set midxs. mx_path m \<notin> a}" using r(2) by auto
  have "(\<Union>m\<in>set midxs. set (mx_contents m)) \<subseteq> (\<Union>m\<in>set kept. set (mx_contents m))"
  proof
    fix x assume "x \<in> (\<Union>m\<in>set midxs. set (mx_contents m))"
    then obtain m where m: "m \<in> set midxs" "x \<in> set (mx_contents m)" by blast
    then have "x \<notin> set unlinked" using c'(4) assms(3) by auto
    moreover have "x \<in> a" using c'(1) m by blast
    ultimately show "x \<in> (\<Union>m\<in>set kept. set (mx_contents m))" using c'(3) k by blast
  qed
  moreover have "set idxs' = set idxs - (\<Union>m\<in>set midxs. set (mx_contents m))"
  proof -
    have "x \<in> a \<longleftrightarrow> x \<in> (\<Union>m\<in>set midxs. set (mx_contents m))" if "x \<in> set idxs" for x
    proof
      assume "x \<in> a"
      moreover have "x \<notin> set unlinked" using that c'(4) assms(4) by auto
      ultimately show "x \<in> (\<Union>m\<in>set midxs. set (mx_contents m))" using c'(3) by blast
    qed (use c'(1) in blast)
    then show ?thesis unfolding r(3) set_filter by blast
  qed
  ultimately show ?thesis using k c'(2,4) by auto
qed

theorem keep_midxs_covers_witness:
  "set [''i1'', ''i3''] - {''i1'', ''i2''} = {''i3''}"
proof -
  let ?a = "\<lparr>mx_path = ''a'', mx_contents = [''i1''], mx_size = 1, mx_mtime = 9\<rparr>"
  let ?b = "\<lparr>mx_path = ''b'', mx_contents = [''i1'', ''i2''], mx_size = 2, mx_mtime = 3\<rparr>"
  have "keep_midxs [?a, ?b] [''i1'', ''i3''] = ([?b], [''i3''], [''a''])"
    by (simp add: keep_midxs_def less_prod_def' less_eq_prod_def)
  from keep_midxs_covers [OF this] show ?thesis by auto
qed

end
