(* ===== verification/Bloom.thy ===== *)
theory Bloom
  imports Pack_Idx
begin

text \<open>
  Bloom filters of object ids: \<open>lib/bup/bloom.py\<close> and the C \<open>bloom_add\<close> and \<open>bloom_contains\<close>
  it calls.  A filter's map is its file's bytes: a 16 byte header, \<open>2 ^ bits\<close> bytes of bits, the
  names of the indexes in it.
\<close>

section \<open>Bits\<close>

definition MAX_BLOOM_BITS :: "nat \<Rightarrow> nat option" where
  "MAX_BLOOM_BITS = [4 \<mapsto> 37, 5 \<mapsto> 29]"

text \<open>
  The byte offset and bit number a piece of an id addresses.  The masks are \<open>(1 << nbits) - 1\<close> in
  \<open>int\<close>, which is undefined for 31 bits or more.
\<close>

definition to_bloom_address_bitmask5 :: "bytes \<Rightarrow> nat \<Rightarrow> nat \<times> nat" where
  "to_bloom_address_bitmask5 buf nbits =
     (let raw = be_val (take 4 buf)
      in (drop_bit (32 - nbits) raw AND mask nbits, drop_bit (29 - nbits) raw AND 7))"

definition to_bloom_address_bitmask4 :: "bytes \<Rightarrow> nat \<Rightarrow> nat \<times> nat" where
  "to_bloom_address_bitmask4 buf nbits =
     (let raw = be_val (take 4 buf) * 256 + of_char (buf ! 4)
      in (drop_bit (40 - nbits) raw AND mask nbits, drop_bit (37 - nbits) raw AND 7))"

definition bloom_address :: "nat \<Rightarrow> bytes \<Rightarrow> nat \<Rightarrow> nat \<times> nat" where
  "bloom_address k = (if k = 5 then to_bloom_address_bitmask5 else to_bloom_address_bitmask4)"

definition bloom_set_bit :: "bytes \<Rightarrow> nat \<times> nat \<Rightarrow> bytes" where
  "bloom_set_bit bloom a =
     bloom[16 + fst a := char_of (of_char (bloom ! (16 + fst a)) OR (2 ^ snd a :: nat))]"

definition bloom_get_bit :: "bytes \<Rightarrow> nat \<times> nat \<Rightarrow> bool" where
  "bloom_get_bit bloom a \<longleftrightarrow> of_char (bloom ! (16 + fst a)) AND (2 ^ snd a :: nat) \<noteq> 0"

text \<open>The pieces of \<open>20 / k\<close> bytes.\<close>

function pieces :: "nat \<Rightarrow> bytes \<Rightarrow> bytes list" where
  "pieces step buf = (if buf = [] \<or> step = 0 then [] else take step buf # pieces step (drop step buf))"
  by pat_completeness auto
termination by (relation "measure (length \<circ> snd)") auto

declare pieces.simps [simp del]

definition nbits_check :: "nat \<Rightarrow> nat \<Rightarrow> unit res" where
  "nbits_check k nbits =
     (case MAX_BLOOM_BITS k of
        None \<Rightarrow> Inl SystemError
      | Some m \<Rightarrow> if m < nbits then Inl SystemError else if 31 \<le> nbits then Inl UndefinedBehaviour else Inr ())"

text \<open>The size test of \<open>bloom_add\<close> also computes \<open>1 << nbits\<close> in \<open>int\<close>.\<close>

definition bloom_add :: "bytes \<Rightarrow> bytes \<Rightarrow> nat \<Rightarrow> nat \<Rightarrow> (bytes \<times> nat) res" where
  "bloom_add bloom sha nbits k =
     (if 31 \<le> nbits then Inl UndefinedBehaviour
      else if length bloom < 16 + 2 ^ nbits \<or> length sha mod 20 \<noteq> 0 then Inl SystemError
      else res_bind (nbits_check k nbits) (\<lambda>_.
        Inr (fold (\<lambda>p b. bloom_set_bit b (bloom_address k p nbits)) (pieces (20 div k) sha) bloom,
             length sha div 20)))"

text \<open>\<open>(1, k)\<close>, or \<open>(None, steps)\<close> at the first bit not set; nothing checks the map's length.\<close>

fun contains_loop :: "bytes \<Rightarrow> nat \<Rightarrow> nat \<Rightarrow> bytes list \<Rightarrow> nat \<Rightarrow> (bool \<times> nat) res" where
  "contains_loop bloom nbits k [] steps = Inr (True, k)"
| "contains_loop bloom nbits k (p # ps) steps =
     (let a = bloom_address k p nbits
      in if length bloom \<le> 16 + fst a then Inl UndefinedBehaviour
         else if \<not> bloom_get_bit bloom a then Inr (False, steps)
         else contains_loop bloom nbits k ps (steps + 1))"

definition bloom_contains :: "bytes \<Rightarrow> bytes \<Rightarrow> nat \<Rightarrow> nat \<Rightarrow> (bool \<times> nat) res" where
  "bloom_contains bloom sha nbits k =
     (if length sha \<noteq> 20 then Inl SystemError
      else res_bind (nbits_check k nbits) (\<lambda>_. contains_loop bloom nbits k (pieces (20 div k) sha) 1))"

section \<open>Readers and writers\<close>

record bloom =
  bl_map :: bytes
  bl_bits :: nat
  bl_k :: nat
  bl_entries :: nat
  bl_idxnames :: "bytes list"

definition BLOOM_VERSION :: nat where "BLOOM_VERSION = 2"
definition MAX_BITS_EACH :: nat where "MAX_BITS_EACH = 32"

definition validate_and_get_info :: "bytes \<Rightarrow> (nat \<times> nat \<times> nat \<times> bytes list) res" where
  "validate_and_get_info data =
     (if take 4 data \<noteq> ''BLOM'' then Inl BloomInvalid
      else res_bind (unpack_from 4 (slice 4 8 data) 0) (\<lambda>ver.
        if ver < BLOOM_VERSION then Inl BloomInvalid
        else if ver > BLOOM_VERSION then Inl BloomInvalid
        else
          let h = slice 8 16 data
          in res_bind (unpack_from 2 h 0) (\<lambda>bits.
             res_bind (unpack_from 2 h 2) (\<lambda>k.
             res_bind (unpack_from 4 h 4) (\<lambda>entries.
             let names = drop (16 + 2 ^ bits) data
             in Inr (bits, k, entries, if names = [] then [] else split_on (char_of (0 :: nat)) names))))))"

text \<open>The map of an empty file is \<open>b''\<close>, which is no context manager.\<close>

definition bloom_open :: "bytes \<Rightarrow> bytes \<Rightarrow> bloom res" where
  "bloom_open path data =
     res_bind (py_assert (suffix ''.bloom'' path)) (\<lambda>_.
     res_bind (raise_if (data = []) TypeError) (\<lambda>_.
     res_bind (validate_and_get_info data) (\<lambda>(bits, k, entries, names).
     Inr \<lparr>bl_map = data, bl_bits = bits, bl_k = k, bl_entries = entries, bl_idxnames = names\<rparr>)))"

definition bloom_exists :: "bloom \<Rightarrow> bytes \<Rightarrow> bool res" where
  "bloom_exists b sha = res_bind (bloom_contains (bl_map b) sha (bl_bits b) (bl_k b)) (\<lambda>r. Inr (fst r))"

text \<open>
  \<open>log2_floor\<close> stands for \<open>int(math.floor(math.log(n, 2)))\<close>.  \<open>struct.pack('!H')\<close> of the bits
  and of \<open>k\<close> cannot fail here; another \<open>k\<close> than 4 or 5 is a \<open>KeyError\<close>.
\<close>

definition bloom_create :: "(nat \<Rightarrow> nat) \<Rightarrow> nat \<Rightarrow> nat option \<Rightarrow> bloom res" where
  "bloom_create log2_floor expected k0 =
     res_bind (py_assert (0 < expected)) (\<lambda>_.
     let bits0 = log2_floor (expected * MAX_BITS_EACH div 8);
         k = (case k0 of Some k \<Rightarrow> if k = 0 then (if bits0 \<le> 29 then 5 else 4) else k
              | None \<Rightarrow> if bits0 \<le> 29 then 5 else 4)
     in case MAX_BLOOM_BITS k of
          None \<Rightarrow> Inl KeyError
        | Some m \<Rightarrow>
            let bits = (if m < bits0 then m else bits0);
                header = ''BLOM'' @ be_bytes 4 BLOOM_VERSION @ be_bytes 2 bits @ be_bytes 2 k @ be_bytes 4 0
            in Inr \<lparr>bl_map = header @ replicate (2 ^ bits) (char_of (0 :: nat)), bl_bits = bits, bl_k = k,
                    bl_entries = 0, bl_idxnames = []\<rparr>)"

definition bloom_writer_add :: "bytes \<Rightarrow> bloom \<Rightarrow> bloom res" where
  "bloom_writer_add ids b =
     res_bind (bloom_add (bl_map b) ids (bl_bits b) (bl_k b)) (\<lambda>(m, n).
     Inr (b\<lparr>bl_map := m, bl_entries := bl_entries b + n\<rparr>))"

text \<open>\<open>shatable\<close>: in a version 1 index the entries are offsets and ids.\<close>

definition shatable :: "pack_idx \<Rightarrow> bytes" where
  "shatable px =
     slice (sha_ofs px) (sha_ofs px + px_nsha px * (case px_version px of V1 \<Rightarrow> 24 | V2 \<Rightarrow> 20)) (px_map px)"

definition bloom_add_idx :: "pack_idx \<Rightarrow> bloom \<Rightarrow> bloom res" where
  "bloom_add_idx ix b =
     res_bind (bloom_writer_add (shatable ix) b) (\<lambda>b'.
     Inr (b'\<lparr>bl_idxnames := bl_idxnames b' @ [basename (px_name ix)]\<rparr>))"

text \<open>What \<open>close\<close> leaves in the file: the count goes into the header, the names after the bits.\<close>

definition bloom_close :: "bloom \<Rightarrow> bytes res" where
  "bloom_close b =
     (if \<not> bl_entries b < 2 ^ 32 then Inl StructError
      else
        let m = take 12 (bl_map b) @ be_bytes 4 (bl_entries b) @ drop 16 (bl_map b);
            e = 16 + 2 ^ bl_bits b;
            names = (if bl_idxnames b = [] then [] else join [char_of (0 :: nat)] (bl_idxnames b))
        in Inr (take e m @ names @ drop (e + length names) m))"

section \<open>The bloom command\<close>

text \<open>
  \<open>do_bloom\<close> of \<open>lib/bup/cmd/bloom.py\<close>.  \<open>files\<close> are the names and contents of the directory's
  \<open>*.idx\<close>; \<open>pfp b n\<close> stands for the floating point test
  \<open>b.pfalse_positive(n) > MAX_PFALSE_POSITIVE\<close>.  The results give what is at \<open>outfilename\<close> afterwards.
\<close>

type_synonym idx_file = "bytes \<times> bytes"

text \<open>The counting loop: \<open>add\<close>, \<open>add_count\<close>, \<open>rest\<close>, \<open>rest_count\<close>.\<close>

fun scan_idxs :: "bloom option \<Rightarrow> idx_file list \<Rightarrow> (idx_file list \<times> nat \<times> idx_file list \<times> nat) res" where
  "scan_idxs b [] = Inr ([], 0, [], 0)"
| "scan_idxs b ((name, data) # files) =
     res_bind (open_idx name data) (\<lambda>ix.
     res_bind (scan_idxs b files) (\<lambda>(add, add_count, rest, rest_count).
       if (case b of None \<Rightarrow> False | Some b \<Rightarrow> basename name \<in> set (bl_idxnames b))
       then Inr (add, add_count, (name, data) # rest, px_nsha ix + rest_count)
       else Inr ((name, data) # add, px_nsha ix + add_count, rest, rest_count)))"

definition must_regenerate :: "(bloom \<Rightarrow> nat \<Rightarrow> bool) \<Rightarrow> bloom option \<Rightarrow> nat \<Rightarrow> nat \<Rightarrow> nat option \<Rightarrow> bool res" where
  "must_regenerate pfp b0 rest_count add_count k =
     (case b0 of
        None \<Rightarrow> Inr True
      | Some b \<Rightarrow>
          if bl_entries b \<noteq> rest_count then Inr True
          else if k \<noteq> None \<and> k \<noteq> Some (bl_k b) then Inr True
          else case MAX_BLOOM_BITS (bl_k b) of
            None \<Rightarrow> Inl KeyError
          | Some m \<Rightarrow> Inr (bl_bits b < m \<and> pfp b add_count))"

text \<open>The writing loop: the filter so far, and the exception that stopped it.\<close>

fun add_idxs :: "idx_file list \<Rightarrow> bloom \<Rightarrow> bloom \<times> unit res" where
  "add_idxs [] b = (b, Inr ())"
| "add_idxs ((name, data) # files) b =
     (case res_bind (open_idx name data) (\<lambda>ix. bloom_add_idx ix b) of
        Inl e \<Rightarrow> (b, Inl e)
      | Inr b' \<Rightarrow> add_idxs files b')"

text \<open>
  The filter is made in \<open>bup.tmp.bloom\<close>, renamed when all went well, or, when the old filter was to
  be kept, in \<open>outfilename\<close> itself; \<open>finally\<close> closes it in both cases, which puts it in place.
\<close>

definition existing_bloom :: "bytes \<Rightarrow> bytes option \<Rightarrow> bool \<Rightarrow> bloom option res" where
  "existing_bloom outfilename old force =
     (if force then Inr None
      else res_bind (py_assert (suffix ''.bloom'' outfilename)) (\<lambda>_.
        case old of
          None \<Rightarrow> Inr None
        | Some data \<Rightarrow>
            (case bloom_open outfilename data of
               Inr b \<Rightarrow> Inr (Some b)
             | Inl e \<Rightarrow> if e = BloomInvalid then Inr None else Inl e)))"

definition write_bloom :: "(nat \<Rightarrow> nat) \<Rightarrow> bool \<Rightarrow> bytes \<Rightarrow> idx_file list \<Rightarrow> nat \<Rightarrow> nat option \<Rightarrow> bytes option \<Rightarrow> bytes option \<times> unit res" where
  "write_bloom log2_floor regenerate outfilename add add_count k old =
     (case res_bind (py_assert (regenerate \<or> suffix ''.bloom'' outfilename)) (\<lambda>_.
             bloom_create log2_floor add_count (if regenerate then k else None)) of
        Inl e \<Rightarrow> (old, Inl e)
      | Inr b0 \<Rightarrow>
          (case add_idxs add b0 of
             (b, r) \<Rightarrow>
               (case bloom_close b of
                  Inl e \<Rightarrow> (old, Inl e)
                | Inr f \<Rightarrow> if regenerate \<and> r \<noteq> Inr () then (old, r) else (Some f, r))))"

definition do_bloom :: "(nat \<Rightarrow> nat) \<Rightarrow> (bloom \<Rightarrow> nat \<Rightarrow> bool) \<Rightarrow> idx_file list \<Rightarrow> bytes \<Rightarrow> bytes option \<Rightarrow> nat option \<Rightarrow> bool \<Rightarrow> bytes option \<times> unit res" where
  "do_bloom log2_floor pfp files outfilename old k force =
     (if k \<notin> {None, Some 4, Some 5} then (old, Inl AssertionError)
      else case existing_bloom outfilename old force of
        Inl e \<Rightarrow> (old, Inl e)
      | Inr b \<Rightarrow>
          (case scan_idxs b files of
             Inl e \<Rightarrow> (old, Inl e)
           | Inr (add, add_count, rest, rest_count) \<Rightarrow>
               if add = [] then (old, Inr ())
               else case must_regenerate pfp b rest_count add_count k of
                 Inl e \<Rightarrow> (old, Inl e)
               | Inr True \<Rightarrow> write_bloom log2_floor True outfilename (add @ rest) (add_count + rest_count) k old
               | Inr False \<Rightarrow> write_bloom log2_floor False outfilename add add_count k old))"

text \<open>
  \<open>ruin_bloom\<close> empties the bits and keeps the names and the count; \<open>check_bloom\<close> looks every id of
  an index up (\<open>oids\<close>, what iterating \<open>open_object_idx(idx)\<close> gives, \<open>None\<close> for no index).
\<close>

definition EXIT_SUCCESS :: int where "EXIT_SUCCESS = 0"
definition EXIT_FALSE :: int where "EXIT_FALSE = 1"
definition EXIT_FAILURE :: int where "EXIT_FAILURE = 2"

definition ruin_bloom :: "bytes \<Rightarrow> bytes option \<Rightarrow> bytes option \<times> int res" where
  "ruin_bloom bloomfilename old =
     (if \<not> suffix ''.bloom'' bloomfilename then (old, Inl AssertionError)
      else case old of
        None \<Rightarrow> (old, Inr EXIT_FAILURE)
      | Some data \<Rightarrow>
          (case res_bind (raise_if (data = []) TypeError) (\<lambda>_. validate_and_get_info data) of
             Inl e \<Rightarrow> (old, if e = BloomInvalid then Inr EXIT_FAILURE else Inl e)
           | Inr (bits, k, entries, names) \<Rightarrow>
               if length data < 16 + 2 ^ bits then (None, Inl IndexError)
               else case bloom_close \<lparr>bl_map = take 16 data @ replicate (2 ^ bits) (char_of (0 :: nat)) @ drop (16 + 2 ^ bits) data,
                                      bl_bits = bits, bl_k = k, bl_entries = entries, bl_idxnames = names\<rparr> of
                 Inl e \<Rightarrow> (None, Inl e)
               | Inr f \<Rightarrow> (Some f, Inr EXIT_SUCCESS)))"

fun check_oids :: "bloom \<Rightarrow> bytes list \<Rightarrow> int \<Rightarrow> int res" where
  "check_oids b [] rc = Inr rc"
| "check_oids b (oid # oids) rc =
     res_bind (bloom_exists b oid) (\<lambda>r. check_oids b oids (if r then rc else EXIT_FALSE))"

definition check_bloom :: "bytes \<Rightarrow> bytes option \<Rightarrow> bytes \<Rightarrow> bytes list option \<Rightarrow> int res" where
  "check_bloom bloomfilename data idx oids =
     (case data of
        None \<Rightarrow> res_bind (py_assert (suffix ''.bloom'' bloomfilename)) (\<lambda>_. Inr EXIT_FAILURE)
      | Some data \<Rightarrow>
          (case bloom_open bloomfilename data of
             Inl e \<Rightarrow> if e = BloomInvalid then Inr EXIT_FALSE else Inl e
           | Inr b \<Rightarrow>
               if basename idx \<notin> set (bl_idxnames b) then Inr EXIT_FALSE
               else case oids of
                 None \<Rightarrow> Inr EXIT_FAILURE
               | Some [] \<Rightarrow> Inr EXIT_FAILURE
               | Some oids \<Rightarrow> check_oids b oids EXIT_SUCCESS))"

section \<open>No false negatives\<close>

definition addr_ok :: "bytes \<Rightarrow> nat \<times> nat \<Rightarrow> bool" where
  "addr_ok m a \<longleftrightarrow> 16 + fst a < length m \<and> snd a < 8"

lemma bloom_get_bit_iff: "bloom_get_bit m a \<longleftrightarrow> bit (of_char (m ! (16 + fst a)) :: nat) (snd a)"
proof -
  have "x AND 2 ^ n \<noteq> 0 \<longleftrightarrow> bit x n" for x n :: nat
    by (metis and_exp_eq_0_iff_not_bit)
  then show ?thesis by (simp add: bloom_get_bit_def)
qed

lemma bloom_get_set_bit:
  assumes "addr_ok m a"
  shows "bloom_get_bit (bloom_set_bit m a) a" "bloom_get_bit m b \<Longrightarrow> bloom_get_bit (bloom_set_bit m a) b"
proof -
  have oc: "n mod 256 = take_bit 8 n" for n :: nat
    by (simp add: take_bit_eq_mod)
  have lt: "take_bit 8 (of_char c :: nat) = of_char c" for c
    using nat_of_char_less_256 [of c] by (simp add: take_bit_eq_mod)
  show "bloom_get_bit (bloom_set_bit m a) a"
    using assms by (simp add: bloom_get_bit_iff bloom_set_bit_def addr_ok_def oc bit_simps)
  show "bloom_get_bit (bloom_set_bit m a) b" if "bloom_get_bit m b"
  proof (cases "fst a = fst b")
    case False
    then show ?thesis using that by (simp add: bloom_get_bit_def bloom_set_bit_def)
  next
    case True
    then have "bit (take_bit 8 (of_char (m ! (16 + fst a)) :: nat)) (snd b)"
      using that by (simp add: bloom_get_bit_iff lt)
    then show ?thesis
      using True assms by (simp add: bloom_get_bit_iff bloom_set_bit_def addr_ok_def oc bit_simps)
  qed
qed

lemma length_bloom_set_bit [simp]: "length (bloom_set_bit m a) = length m"
  by (simp add: bloom_set_bit_def)

lemma take_bloom_set_bit [simp]: "take 16 (bloom_set_bit m a) = take 16 m"
  by (simp add: bloom_set_bit_def)

lemma bloom_address_ok:
  assumes "16 + 2 ^ nbits \<le> length m"
  shows "addr_ok m (bloom_address k p nbits)"
proof -
  have "x AND mask n < (2 ^ n :: nat)" for x n by (simp flip: take_bit_eq_mask)
  moreover have "x AND 7 < (8 :: nat)" for x
  proof -
    have "x AND 7 = take_bit 3 x" by (simp add: take_bit_eq_mask mask_eq_exp_minus_1)
    then show ?thesis using take_bit_nat_less_exp [of 3 x] by simp
  qed
  ultimately have "fst (bloom_address k p nbits) < 2 ^ nbits" "snd (bloom_address k p nbits) < 8"
    by (auto simp: bloom_address_def to_bloom_address_bitmask4_def to_bloom_address_bitmask5_def Let_def)
  then show ?thesis using assms by (simp add: addr_ok_def)
qed

definition bits_set :: "bytes \<Rightarrow> nat \<Rightarrow> nat \<Rightarrow> bytes list \<Rightarrow> bool" where
  "bits_set m nbits k ps \<longleftrightarrow> (\<forall>p\<in>set ps. bloom_get_bit m (bloom_address k p nbits))"

lemma fold_set_bits:
  assumes "16 + 2 ^ nbits \<le> length m" "m' = fold (\<lambda>p b. bloom_set_bit b (bloom_address k p nbits)) ps m"
  shows "length m' = length m" "take 16 m' = take 16 m" "bits_set m' nbits k ps"
    "bloom_get_bit m a \<Longrightarrow> bloom_get_bit m' a"
proof -
  have "length m' = length m \<and> take 16 m' = take 16 m \<and> bits_set m' nbits k ps \<and>
      (\<forall>a. bloom_get_bit m a \<longrightarrow> bloom_get_bit m' a)"
    using assms
  proof (induction ps arbitrary: m)
    case Nil
    then show ?case by (simp add: bits_set_def)
  next
    case (Cons p ps)
    let ?a = "bloom_address k p nbits" and ?m = "bloom_set_bit m (bloom_address k p nbits)"
    have ok: "addr_ok m ?a" using Cons.prems(1) by (rule bloom_address_ok)
    have IH: "length m' = length ?m \<and> take 16 m' = take 16 ?m \<and> bits_set m' nbits k ps \<and>
      (\<forall>a. bloom_get_bit ?m a \<longrightarrow> bloom_get_bit m' a)"
      using Cons.IH [of ?m] Cons.prems by simp
    then have "bloom_get_bit m' ?a" using bloom_get_set_bit(1) [OF ok] by blast
    then show ?case using IH bloom_get_set_bit(2) [OF ok] by (auto simp: bits_set_def)
  qed
  then show "length m' = length m" "take 16 m' = take 16 m" "bits_set m' nbits k ps"
    "bloom_get_bit m a \<Longrightarrow> bloom_get_bit m' a" by blast+
qed

lemma pieces_append:
  assumes "0 < step" "step dvd length a"
  shows "pieces step (a @ b) = pieces step a @ pieces step b"
  using assms
proof (induction step a rule: pieces.induct)
  case (1 step a)
  show ?case
  proof (cases "a = []")
    case True
    then show ?thesis by (simp add: pieces.simps [of step "[]"])
  next
    case False
    have le: "step \<le> length a" using "1.prems" False by (auto dest: dvd_imp_le)
    have "pieces step (a @ b) = take step a # pieces step (drop step a @ b)"
      using False "1.prems" le by (subst pieces.simps) simp
    moreover have "pieces step a = take step a # pieces step (drop step a)"
      using False "1.prems" by (subst pieces.simps) simp
    ultimately show ?thesis using "1.IH" False "1.prems" by (simp add: dvd_diff_nat)
  qed
qed

lemma pieces_concat:
  assumes "k = 4 \<or> k = 5" "\<forall>h\<in>set hs. length h = 20" "h \<in> set hs"
  shows "set (pieces (20 div k) h) \<subseteq> set (pieces (20 div k) (concat hs))"
  using assms(2,3)
proof (induction hs)
  case Nil
  then show ?case by simp
next
  case (Cons x hs)
  have "20 div k dvd length x" "0 < 20 div k" using assms(1) Cons.prems(1) by auto
  then show ?case using Cons pieces_append [of "20 div k" x] by auto
qed

lemma contains_loop_ok:
  assumes "16 + 2 ^ nbits \<le> length m" "bits_set m nbits k ps"
  shows "contains_loop m nbits k ps steps = Inr (True, k)"
  using assms(2)
proof (induction ps arbitrary: steps)
  case Nil
  then show ?case by simp
next
  case (Cons p ps)
  have "addr_ok m (bloom_address k p nbits)" using assms(1) by (rule bloom_address_ok)
  then show ?case using Cons by (simp add: bits_set_def addr_ok_def Let_def not_le)
qed

text \<open>The sizes \<open>bloom_add\<close> and \<open>bloom_contains\<close> handle.\<close>

definition sizes_ok :: "nat \<Rightarrow> nat \<Rightarrow> bool" where
  "sizes_ok k nbits \<longleftrightarrow> (k = 4 \<and> nbits < 31) \<or> (k = 5 \<and> nbits \<le> 29)"

lemma nbits_check_ok: "sizes_ok k nbits \<Longrightarrow> nbits_check k nbits = Inr ()"
  by (auto simp: sizes_ok_def nbits_check_def MAX_BLOOM_BITS_def)

text \<open>A filter in memory that holds the ids \<open>H\<close>.\<close>

definition bloom_header :: "nat \<Rightarrow> nat \<Rightarrow> bytes" where
  "bloom_header bits k = ''BLOM'' @ be_bytes 4 BLOOM_VERSION @ be_bytes 2 bits @ be_bytes 2 k"

definition bloom_has :: "bloom \<Rightarrow> bytes set \<Rightarrow> bool" where
  "bloom_has b H \<longleftrightarrow>
     sizes_ok (bl_k b) (bl_bits b) \<and> 16 + 2 ^ bl_bits b \<le> length (bl_map b) \<and>
     (\<forall>h\<in>H. length h = 20 \<and> bits_set (bl_map b) (bl_bits b) (bl_k b) (pieces (20 div bl_k b) h))"

definition bloom_wr :: "bloom \<Rightarrow> bool" where
  "bloom_wr b \<longleftrightarrow> take 12 (bl_map b) = bloom_header (bl_bits b) (bl_k b) \<and> length (bl_map b) = 16 + 2 ^ bl_bits b"

lemma length_bloom_header [simp]: "length (bloom_header bits k) = 12"
  by (simp add: bloom_header_def)

lemma bloom_has_exists:
  assumes "bloom_has b H" "h \<in> H"
  shows "bloom_exists b h = Inr True"
  using assms nbits_check_ok [of "bl_k b" "bl_bits b"] contains_loop_ok [of "bl_bits b" "bl_map b" "bl_k b"]
  by (simp add: bloom_has_def bloom_exists_def bloom_contains_def)

lemma bloom_create_ok:
  assumes "0 < n" "k \<in> {None, Some 4, Some 5}" "log2_floor (n * 4) < 31"
  obtains b where "bloom_create log2_floor n k = Inr b" "bloom_has b {}" "bloom_wr b"
    "bl_entries b = 0" "bl_idxnames b = []"
proof -
  let ?bits0 = "log2_floor (n * 4)"
  have n4: "n * MAX_BITS_EACH div 8 = n * 4" by (simp add: MAX_BITS_EACH_def)
  define kk where "kk = (case k of Some k \<Rightarrow> k | None \<Rightarrow> if ?bits0 \<le> 29 then 5 else 4)"
  have "kk = 4 \<or> kk = 5" using assms(2) by (auto simp: kk_def)
  then obtain m where m: "MAX_BLOOM_BITS kk = Some m" "kk \<noteq> 0" "kk = 4 \<and> m = 37 \<or> kk = 5 \<and> m = 29"
    unfolding MAX_BLOOM_BITS_def by (elim disjE) auto
  define bits where "bits = (if m < ?bits0 then m else ?bits0)"
  let ?b = "\<lparr>bl_map = (bloom_header bits kk @ be_bytes 4 0) @ replicate (2 ^ bits) (char_of (0 :: nat)), bl_bits = bits, bl_k = kk,
                    bl_entries = 0, bl_idxnames = []\<rparr>"
  have kkk: "(case k of Some k \<Rightarrow> if k = 0 then (if ?bits0 \<le> 29 then 5 else 4) else k
              | None \<Rightarrow> if ?bits0 \<le> 29 then 5 else 4) = kk"
    using assms(2) by (auto simp: kk_def)
  have "bloom_create log2_floor n k = Inr ?b"
    using assms(1) unfolding bloom_create_def n4 Let_def kkk m(1) bits_def [symmetric]
    by (simp add: m(1) bloom_header_def bits_def)
  moreover have "sizes_ok kk bits" using m(3) assms(3) by (auto simp: sizes_ok_def bits_def)
  ultimately show ?thesis
    by (intro that [of ?b]) (simp_all add: bloom_has_def bloom_wr_def)
qed

lemma bloom_writer_add_ok:
  assumes "bloom_has b H" "bloom_wr b" "\<forall>h\<in>set hs. length h = 20"
  obtains b' where "bloom_writer_add (concat hs) b = Inr b'" "bloom_has b' (H \<union> set hs)" "bloom_wr b'"
    "bl_entries b' = bl_entries b + length hs" "bl_idxnames b' = bl_idxnames b"
proof -
  let ?k = "bl_k b" and ?bits = "bl_bits b"
  define m' where "m' = fold (\<lambda>p b. bloom_set_bit b (bloom_address ?k p ?bits)) (pieces (20 div ?k) (concat hs)) (bl_map b)"
  have sz: "sizes_ok ?k ?bits" and len: "16 + 2 ^ ?bits \<le> length (bl_map b)"
    using assms(1) by (simp_all add: bloom_has_def)
  note m = fold_set_bits [OF len m'_def]
  have l: "length (concat hs) = 20 * length hs" using length_concat_same [OF assms(3)] .
  have "\<not> 31 \<le> ?bits" using sz by (auto simp: sizes_ok_def)
  then have "bloom_add (bl_map b) (concat hs) ?bits ?k = Inr (m', length hs)"
    using l nbits_check_ok [OF sz] len by (simp add: bloom_add_def m'_def)
  then have add: "bloom_writer_add (concat hs) b = Inr (b\<lparr>bl_map := m', bl_entries := bl_entries b + length hs\<rparr>)"
    by (simp add: bloom_writer_add_def)
  have k: "?k = 4 \<or> ?k = 5" using sz by (auto simp: sizes_ok_def)
  have new: "bits_set m' ?bits ?k (pieces (20 div ?k) h)" if "h \<in> set hs" for h
    using m(3) pieces_concat [OF k assms(3) that] by (auto simp: bits_set_def)
  have old: "bits_set m' ?bits ?k ps" if "bits_set (bl_map b) ?bits ?k ps" for ps
    using m(4) that by (auto simp: bits_set_def)
  have "take 12 m' = take 12 (take 16 (bl_map b))" unfolding m(2) [symmetric] by simp
  then have t: "take 12 m' = take 12 (bl_map b)" by simp
  show ?thesis
    by (rule that [OF add]) (use assms new old m(1) t in \<open>auto simp: bloom_has_def bloom_wr_def\<close>)
qed

text \<open>The ids of an index whose table lies in its file.\<close>

definition idx_file_ok :: "idx_file \<Rightarrow> pack_idx \<Rightarrow> bool" where
  "idx_file_ok f px \<longleftrightarrow>
     open_idx (fst f) (snd f) = Inr px \<and> px_map px = snd f \<and> px_name px = fst f \<and> 0 < px_nsha px \<and>
     px_version px = V2 \<and> sha_ofs px + 20 * px_nsha px \<le> length (snd f)"

lemma concat_slices:
  "ofs + 20 * n \<le> length m \<Longrightarrow>
     concat (map (\<lambda>i. slice (ofs + 20 * i) (ofs + 20 * i + 20) m) [0..<n]) = slice ofs (ofs + 20 * n) m"
proof (induction n)
  case 0
  then show ?case by (simp add: slice_def)
next
  case (Suc n)
  have "take (20 * n + 20) (drop ofs m) = take (20 * n) (drop ofs m) @ take 20 (drop (20 * n) (drop ofs m))"
    by (rule take_add)
  then show ?case using Suc by (simp add: slice_def add.commute)
qed

lemma idx_file_table:
  assumes "idx_file_ok f px"
  shows "shatable px = concat (idx_iter px)" "\<forall>h\<in>set (idx_iter px). length h = 20" "length (idx_iter px) = px_nsha px"
proof -
  have v: "px_version px = V2" and l: "sha_ofs px + 20 * px_nsha px \<le> length (px_map px)"
    using assms by (auto simp: idx_file_ok_def)
  show "shatable px = concat (idx_iter px)"
    using v concat_slices [OF l] by (simp add: shatable_def idx_iter_def mult.commute)
  show "\<forall>h\<in>set (idx_iter px). length h = 20"
    using v l by (auto simp: idx_iter_def slice_def)
  show "length (idx_iter px) = px_nsha px" by (simp add: idx_iter_def v)
qed

lemma add_idxs_ok:
  assumes "list_all2 idx_file_ok fs pxs" "bloom_has b H" "bloom_wr b"
  shows "\<exists>b'. add_idxs fs b = (b', Inr ()) \<and> bloom_has b' (H \<union> (\<Union>px\<in>set pxs. set (idx_iter px))) \<and> bloom_wr b' \<and>
    bl_entries b' = bl_entries b + sum_list (map px_nsha pxs) \<and>
    bl_idxnames b' = bl_idxnames b @ map (basename \<circ> fst) fs"
  using assms
proof (induction fs pxs arbitrary: b H rule: list_all2_induct)
  case Nil
  then show ?case by simp
next
  case (Cons f fs px pxs)
  note tab = idx_file_table [OF Cons.hyps(1)]
  obtain b1 where b1: "bloom_writer_add (shatable px) b = Inr b1" "bloom_has b1 (H \<union> set (idx_iter px))" "bloom_wr b1"
    "bl_entries b1 = bl_entries b + px_nsha px" "bl_idxnames b1 = bl_idxnames b"
    using bloom_writer_add_ok [OF Cons.prems tab(2)] unfolding tab(1) [symmetric] tab(3) by blast
  define b2 where "b2 = b1\<lparr>bl_idxnames := bl_idxnames b1 @ [basename (fst f)]\<rparr>"
  have "open_idx (fst f) (snd f) = Inr px" "px_name px = fst f"
    using Cons.hyps(1) by (simp_all add: idx_file_ok_def)
  then have step: "add_idxs (f # fs) b = add_idxs fs b2"
    using b1(1) by (cases f) (simp add: bloom_add_idx_def b2_def)
  have "bloom_has b2 (H \<union> set (idx_iter px))" "bloom_wr b2"
    using b1(2,3) by (simp_all add: b2_def bloom_has_def bloom_wr_def)
  from Cons.IH [OF this] obtain b' where "add_idxs fs b2 = (b', Inr ())"
    "bloom_has b' (H \<union> set (idx_iter px) \<union> (\<Union>px\<in>set pxs. set (idx_iter px)))" "bloom_wr b'"
    "bl_entries b' = bl_entries b2 + sum_list (map px_nsha pxs)"
    "bl_idxnames b' = bl_idxnames b2 @ map (basename \<circ> fst) fs"
    by (elim exE conjE) (rule that)
  then show ?case using step b1(4,5) by (intro exI [of _ b']) (simp add: b2_def Un_assoc)
qed

lemma slice_take: "j \<le> n \<Longrightarrow> slice i j (take n xs) = slice i j xs"
  by (simp add: slice_def drop_take)

lemma bloom_close_open:
  assumes "bloom_has b H" "bloom_wr b" "bl_entries b < 2 ^ 32" "suffix ''.bloom'' path"
    and names: "\<forall>n\<in>set (bl_idxnames b). n \<noteq> [] \<and> char_of (0 :: nat) \<notin> set n"
  shows "\<exists>f b'. bloom_close b = Inr f \<and> bloom_open path f = Inr b' \<and> bloom_has b' H \<and>
    bl_entries b' = bl_entries b \<and> bl_idxnames b' = bl_idxnames b \<and> bl_bits b' = bl_bits b \<and> bl_k b' = bl_k b"
proof -
  let ?bits = "bl_bits b" and ?k = "bl_k b" and ?e = "bl_entries b"
  define cells where "cells = drop 16 (bl_map b)"
  define nm where "nm = (if bl_idxnames b = [] then [] else join [char_of (0 :: nat)] (bl_idxnames b))"
  define head where "head = bloom_header ?bits ?k @ be_bytes 4 ?e"
  have lc: "length cells = 2 ^ ?bits" and t12: "take 12 (bl_map b) = bloom_header ?bits ?k"
    using assms(2) by (simp_all add: cells_def bloom_wr_def)
  have lh: "length head = 16" by (simp add: head_def)
  define f where "f = head @ cells @ nm"
  have "take 12 (bl_map b) @ be_bytes 4 ?e @ drop 16 (bl_map b) = head @ cells"
    by (simp add: t12 head_def cells_def)
  then have close: "bloom_close b = Inr f"
    using assms(3) lc lh by (simp add: bloom_close_def Let_def nm_def [symmetric] f_def)
  have sz: "?bits < 256 ^ 2" "?k < 256 ^ 2" using assms(1) by (auto simp: bloom_has_def sizes_ok_def)
  have vers: "be_val (be_bytes 4 BLOOM_VERSION) = BLOOM_VERSION" by (simp add: BLOOM_VERSION_def)
  have parts: "take 4 f = ''BLOM''" "slice 4 8 f = be_bytes 4 BLOOM_VERSION" "slice 8 16 f = be_bytes 2 ?bits @ be_bytes 2 ?k @ be_bytes 4 ?e"
    by (simp_all add: f_def head_def bloom_header_def slice_def del: be_bytes.simps)
  have tail: "drop (16 + 2 ^ ?bits) f = nm" using lh lc by (simp add: f_def)
  have nmr: "(if nm = [] then [] else split_on (char_of (0 :: nat)) nm) = bl_idxnames b"
  proof (cases "bl_idxnames b")
    case Nil
    then show ?thesis by (simp add: nm_def)
  next
    case (Cons n ns)
    then have "n \<noteq> []" using names by simp
    then have "nm \<noteq> []" using Cons by (cases ns) (auto simp: nm_def)
    then show ?thesis using Cons names split_on_join [of "bl_idxnames b" "char_of (0 :: nat)"] by (simp add: nm_def)
  qed
  have "validate_and_get_info f = Inr (?bits, ?k, ?e, bl_idxnames b)"
    unfolding validate_and_get_info_def parts Let_def
    using sz assms(3) vers nmr by (simp add: unpack_from_def tail del: be_bytes.simps drop_eq_Nil drop_eq_Nil2 split: if_splits)
  moreover have "f \<noteq> []" using lh by (auto simp: f_def)
  ultimately have op: "bloom_open path f = Inr \<lparr>bl_map = f, bl_bits = ?bits, bl_k = ?k, bl_entries = ?e, bl_idxnames = bl_idxnames b\<rparr>"
    using assms(4) by (simp add: bloom_open_def)
  have len: "16 + 2 ^ ?bits \<le> length (bl_map b)" using assms(1) by (simp add: bloom_has_def)
  have get: "bloom_get_bit f (bloom_address ?k p ?bits) = bloom_get_bit (bl_map b) (bloom_address ?k p ?bits)" for p
  proof -
    have "addr_ok (bl_map b) (bloom_address ?k p ?bits)" using len by (rule bloom_address_ok)
    moreover have "length (bl_map b) = 16 + 2 ^ ?bits" using assms(2) by (simp add: bloom_wr_def)
    ultimately have "fst (bloom_address ?k p ?bits) < 2 ^ ?bits" by (simp add: addr_ok_def)
    then have "f ! (16 + fst (bloom_address ?k p ?bits)) = bl_map b ! (16 + fst (bloom_address ?k p ?bits))"
      using lh lc len by (simp add: f_def nth_append cells_def)
    then show ?thesis by (simp add: bloom_get_bit_def)
  qed
  have "bloom_has \<lparr>bl_map = f, bl_bits = ?bits, bl_k = ?k, bl_entries = ?e, bl_idxnames = bl_idxnames b\<rparr> H"
    using assms(1) lh lc by (simp add: bloom_has_def bits_set_def get) (simp add: f_def)
  then show ?thesis using close op by simp
qed

lemma idx_file_ok_wf:
  assumes "open_idx name data = Inr px" "wf_idx px hs"
  shows "idx_file_ok (name, data) px"
proof -
  have px: "px_map px = data" "px_name px = name" "px_nsha px \<noteq> 0" "px_version px = V1 \<Longrightarrow> length data = 1024"
    using assms(1) by (auto simp: open_idx_def open_v1_def open_v2_def Let_def res_simps split: if_splits)
  let ?i = "length hs - 1"
  have n: "px_nsha px = length hs" "hs \<noteq> []" using px(3) assms(2) by (auto simp: wf_idx_def)
  then have h: "idx_to_hash px ?i = Inr (hs ! ?i)" "length (hs ! ?i) = 20"
    using assms(2) by (auto simp: wf_idx_def)
  have v: "px_version px = V2"
  proof (rule ccontr)
    assume "px_version px \<noteq> V2"
    then have "px_version px = V1" by (cases "px_version px") auto
    then show False using h px(1,4) n by (auto simp: idx_to_hash_def Let_def slice_def sha_ofs_def split: if_splits)
  qed
  have "\<not> px_nsha px \<le> ?i" using n by (cases hs) auto
  then have "take 20 (drop (sha_ofs px + ?i * 20) data) = hs ! ?i"
    using h(1) unfolding idx_to_hash_def Let_def slice_def by (simp add: v px(1))
  then have "length (take 20 (drop (sha_ofs px + ?i * 20) data)) = 20" using h(2) by simp
  then have "sha_ofs px + ?i * 20 + 20 \<le> length data" by simp
  then have "sha_ofs px + 20 * length hs \<le> length data" using n(2) by (cases hs) auto
  then show ?thesis using assms(1) px v n by (simp add: idx_file_ok_def)
qed

section \<open>Properties\<close>

lemma write_bloom_ok:
  assumes "list_all2 idx_file_ok fs pxs" "fs \<noteq> []" "k \<in> {None, Some 4, Some 5}"
    and "n = sum_list (map px_nsha pxs)" "n < 2 ^ 32" "log2_floor (n * 4) < 31"
    and "suffix ''.bloom'' out" "\<forall>f\<in>set fs. basename (fst f) \<noteq> [] \<and> char_of (0 :: nat) \<notin> set (fst f)"
  shows "\<exists>d b. write_bloom log2_floor r out fs n k old = (Some d, Inr ()) \<and> bloom_open out d = Inr b \<and>
    bloom_has b (\<Union>px\<in>set pxs. set (idx_iter px)) \<and> bl_entries b = n \<and> bl_idxnames b = map (basename \<circ> fst) fs"
proof -
  obtain f fs' px pxs' where "fs = f # fs'" "pxs = px # pxs'" "idx_file_ok f px"
    using assms(1,2) by (cases fs; cases pxs) auto
  then have "0 < n" using assms(4) by (simp add: idx_file_ok_def)
  moreover have "(if r then k else None) \<in> {None, Some 4, Some 5}" using assms(3) by auto
  ultimately obtain b0 where b0: "bloom_create log2_floor n (if r then k else None) = Inr b0" "bloom_has b0 {}" "bloom_wr b0"
    "bl_entries b0 = 0" "bl_idxnames b0 = []"
    using bloom_create_ok [of n "if r then k else None" log2_floor] assms(6) by blast
  obtain b1 where b1: "add_idxs fs b0 = (b1, Inr ())" "bloom_has b1 ({} \<union> (\<Union>px\<in>set pxs. set (idx_iter px)))" "bloom_wr b1"
    "bl_entries b1 = bl_entries b0 + sum_list (map px_nsha pxs)" "bl_idxnames b1 = bl_idxnames b0 @ map (basename \<circ> fst) fs"
    using add_idxs_ok [OF assms(1) b0(2,3)] by (elim exE conjE) (rule that)
  have names: "\<forall>n\<in>set (bl_idxnames b1). n \<noteq> [] \<and> char_of (0 :: nat) \<notin> set n"
  proof -
    have "set (basename p) \<subseteq> set p" for p by (metis path_head_basename set_append sup_ge2)
    then show ?thesis using assms(8) by (auto simp: b1(5) b0(5))
  qed
  have e: "bl_entries b1 = n" "bl_entries b1 < 2 ^ 32" using b1(4) b0(4) assms(4,5) by simp_all
  obtain d b where d: "bloom_close b1 = Inr d" "bloom_open out d = Inr b" "bloom_has b ({} \<union> (\<Union>px\<in>set pxs. set (idx_iter px)))"
    "bl_entries b = bl_entries b1" "bl_idxnames b = bl_idxnames b1"
    using bloom_close_open [OF b1(2,3) e(2) assms(7) names] by (elim exE conjE) (rule that)
  have "write_bloom log2_floor r out fs n k old = (Some d, Inr ())"
    using b0(1) b1(1) d(1) assms(7) by (simp add: write_bloom_def)
  then show ?thesis using d(2,3,4,5) e(1) b1(5) b0(5) by simp
qed

lemma scan_new:
  assumes "list_all2 idx_file_ok fs pxs"
  shows "scan_idxs None fs = Inr (fs, sum_list (map px_nsha pxs), [], 0)"
  using assms by (induction rule: list_all2_induct) (auto simp: idx_file_ok_def)

text \<open>C9: \<open>bup bloom\<close> has no false negatives: whenever it makes a filter from scratch from the
  directory's indexes (none there, or forced), it succeeds, and in the file it leaves every object of
  every index exists; the file names the indexes and counts their objects.  (\<open>math.log\<close> must give
  less than 31 bits, a filter of 2 GiB, beyond which the C code shifts an \<open>int\<close> out of range.)\<close>

theorem do_bloom_no_false_negatives:
  assumes "list_all2 idx_file_ok files pxs" "files \<noteq> []" "k \<in> {None, Some 4, Some 5}"
    and "n = sum_list (map px_nsha pxs)" "n < 2 ^ 32" "log2_floor (n * 4) < 31"
    and "suffix ''.bloom'' out" "\<forall>f\<in>set files. basename (fst f) \<noteq> [] \<and> char_of (0 :: nat) \<notin> set (fst f)"
    and "force \<or> old = None"
  shows "\<exists>d b. do_bloom log2_floor pfp files out old k force = (Some d, Inr ()) \<and> bloom_open out d = Inr b \<and>
    (\<forall>px\<in>set pxs. \<forall>h\<in>set (idx_iter px). bloom_exists b h = Inr True) \<and>
    bl_entries b = n \<and> bl_idxnames b = map (basename \<circ> fst) files"
proof -
  have ex: "existing_bloom out old force = Inr None"
    using assms(7,9) by (auto simp: existing_bloom_def)
  obtain d b where d: "write_bloom log2_floor True out files n k old = (Some d, Inr ())" "bloom_open out d = Inr b"
    "bloom_has b (\<Union>px\<in>set pxs. set (idx_iter px))" "bl_entries b = n" "bl_idxnames b = map (basename \<circ> fst) files"
    using write_bloom_ok [where r = True and old = old and log2_floor = log2_floor, OF assms(1-8)] by (elim exE conjE) (rule that)
  have "do_bloom log2_floor pfp files out old k force = (Some d, Inr ())"
    using assms(2,3,4) d(1) by (auto simp: do_bloom_def ex scan_new [OF assms(1)] must_regenerate_def)
  moreover have "\<forall>px\<in>set pxs. \<forall>h\<in>set (idx_iter px). bloom_exists b h = Inr True"
    using bloom_has_exists [OF d(3)] by auto
  ultimately show ?thesis using d(2,4,5) by blast
qed

text \<open>adding to an existing filter forgets it: when \<open>do_bloom\<close> decides to keep the filter and
  add the new indexes, it opens the writer with \<open>mode='w+b'\<close>, a new filter, so that the file it
  leaves names and counts the new indexes only, and the next run regenerates everything.\<close>

theorem do_bloom_adding_forgets:
  assumes "bloom_open out old = Inr b" "scan_idxs (Some b) files = Inr (add, n, rest, rest_count)"
    and "must_regenerate pfp (Some b) rest_count n k = Inr False" "k \<in> {None, Some 4, Some 5}"
    and "list_all2 idx_file_ok add pxs" "add \<noteq> []" "n = sum_list (map px_nsha pxs)" "n < 2 ^ 32" "log2_floor (n * 4) < 31"
    and "suffix ''.bloom'' out" "\<forall>f\<in>set add. basename (fst f) \<noteq> [] \<and> char_of (0 :: nat) \<notin> set (fst f)"
  shows "\<exists>d b'. do_bloom log2_floor pfp files out (Some old) k False = (Some d, Inr ()) \<and> bloom_open out d = Inr b' \<and>
    bl_idxnames b' = map (basename \<circ> fst) add \<and> bl_entries b' = n"
proof -
  obtain d b' where d: "write_bloom log2_floor False out add n k (Some old) = (Some d, Inr ())" "bloom_open out d = Inr b'"
    "bl_entries b' = n" "bl_idxnames b' = map (basename \<circ> fst) add"
    using write_bloom_ok [where r = False and old = "Some old" and log2_floor = log2_floor, OF assms(5,6,4,7-11)] by (elim exE conjE) (rule that)
  have "existing_bloom out (Some old) False = Inr (Some b)"
    using assms(1,10) by (simp add: existing_bloom_def)
  then have "do_bloom log2_floor pfp files out (Some old) k False = (Some d, Inr ())"
    using assms(2,3,4,6) d(1) by (auto simp: do_bloom_def)
  then show ?thesis using d(2,3,4) by blast
qed

definition one_entry :: "char \<Rightarrow> idx_entry list" where
  "one_entry c = [(replicate 20 c, 0, 12)]"

lemma one_entry_file:
  assumes "suffix ''.idx'' name"
  obtains data px where "open_idx name data = Inr px" "idx_file_ok (name, data) px" "px_nsha px = 1" "idx_iter px = [replicate 20 c]"
    "wf_idx px [replicate 20 c]"
proof -
  have "entries_ok (one_entry c)" "one_entry c \<noteq> []"
    by (simp_all add: one_entry_def entries_ok_def entry_ok_def)
  from written_ok [OF this assms, of "\<lambda>b. []" "[]"] obtain data px
    where px: "open_idx name data = Inr px" "wf_idx px (map fst (sorted_entries (one_entry c)))"
    by (elim exE conjE) (rule that)
  have "mset (sorted_entries (one_entry c)) = mset (one_entry c)" by (rule mset_sorted_entries)
  then have "map fst (sorted_entries (one_entry c)) = [replicate 20 c]" by (simp add: one_entry_def)
  then have wf: "wf_idx px [replicate 20 c]" using px(2) by simp
  then have "px_nsha px = 1" by (simp add: wf_idx_def)
  then show ?thesis using that px(1) idx_file_ok_wf [OF px(1) wf] idx_iter_wf [OF wf] wf by blast
qed

theorem do_bloom_no_false_negatives_witness:
  "\<exists>data px d b. open_idx ''a.idx'' data = Inr px \<and> idx_iter px = [replicate 20 (CHR ''x'')] \<and>
     do_bloom (\<lambda>_. 2) (\<lambda>_ _. False) [(''a.idx'', data)] ''bup.bloom'' None None False = (Some d, Inr ()) \<and>
     bloom_open ''bup.bloom'' d = Inr b \<and> bloom_exists b (replicate 20 (CHR ''x'')) = Inr True"
proof -
  have "suffix ''.idx'' ''a.idx''" by code_simp
  then obtain data px where px: "open_idx ''a.idx'' data = Inr px" "idx_file_ok (''a.idx'', data) px" "px_nsha px = 1"
    "idx_iter px = [replicate 20 (CHR ''x'')]" by (rule one_entry_file)
  have h: "list_all2 idx_file_ok [(''a.idx'', data)] [px]" "[(''a.idx'', data)] \<noteq> []" "None \<in> {None, Some 4, Some (5 :: nat)}"
    "1 = sum_list (map px_nsha [px])" "(1 :: nat) < 2 ^ 32" "(\<lambda>_. 2) (1 * 4 :: nat) < (31 :: nat)" "suffix ''.bloom'' ''bup.bloom''"
    using px(2,3) by (simp_all, code_simp)
  have n: "\<forall>f\<in>set [(''a.idx'', data)]. basename (fst f) \<noteq> [] \<and> char_of (0 :: nat) \<notin> set (fst f)"
  proof -
    have "basename ''a.idx'' \<noteq> []" "char_of (0 :: nat) \<notin> set ''a.idx''" by code_simp+
    then show ?thesis by simp
  qed
  from do_bloom_no_false_negatives [of _ _ _ _ "\<lambda>_. 2", OF h n, of False None "\<lambda>_ _. False"]
  show ?thesis using px(1,4) by auto
qed

theorem do_bloom_adding_forgets_witness:
  "\<exists>old b files d b'. bloom_open ''bup.bloom'' old = Inr b \<and> bl_idxnames b = [''a.idx''] \<and> map fst files = [''a.idx'', ''b.idx''] \<and>
     do_bloom (\<lambda>_. 2) (\<lambda>_ _. False) files ''bup.bloom'' (Some old) None False = (Some d, Inr ()) \<and>
     bloom_open ''bup.bloom'' d = Inr b' \<and> bl_idxnames b' = [''b.idx'']"
proof -
  have "suffix ''.idx'' ''a.idx''" "suffix ''.idx'' ''b.idx''" by code_simp+
  from one_entry_file [OF this(1), of "CHR ''x''"] one_entry_file [OF this(2), of "CHR ''y''"]
  obtain da pa db pb where pa: "open_idx ''a.idx'' da = Inr pa" "idx_file_ok (''a.idx'', da) pa" "px_nsha pa = 1"
    and pb: "open_idx ''b.idx'' db = Inr pb" "idx_file_ok (''b.idx'', db) pb" "px_nsha pb = 1" by metis
  have bn: "basename ''a.idx'' = ''a.idx''" "basename ''b.idx'' = ''b.idx''" by code_simp+
  have n0: "char_of (0 :: nat) \<notin> set ''a.idx''" "char_of (0 :: nat) \<notin> set ''b.idx''" by code_simp+
  have suf: "suffix ''.bloom'' ''bup.bloom''" by code_simp
  have "list_all2 idx_file_ok [(''a.idx'', da)] [pa]" "[(''a.idx'', da)] \<noteq> []" "None \<in> {None, Some 4, Some (5 :: nat)}"
    "1 = sum_list (map px_nsha [pa])" "(1 :: nat) < 2 ^ 32" "(\<lambda>_. 2) (1 * 4 :: nat) < (31 :: nat)"
    "\<forall>f\<in>set [(''a.idx'', da)]. basename (fst f) \<noteq> [] \<and> char_of (0 :: nat) \<notin> set (fst f)"
    using pa(2,3) bn n0 by simp_all
  from write_bloom_ok [of _ _ _ _ "\<lambda>_. 2", OF this(1-6) suf this(7)]
  obtain old b where old: "bloom_open ''bup.bloom'' old = Inr b" "bloom_has b (\<Union>px\<in>set [pa]. set (idx_iter px))"
    "bl_entries b = 1" "bl_idxnames b = map (basename \<circ> fst) [(''a.idx'', da)]"
    by blast
  have names: "bl_idxnames b = [''a.idx'']" using old(4) bn by simp
  let ?files = "[(''a.idx'', da), (''b.idx'', db)]"
  have h1: "scan_idxs (Some b) ?files = Inr ([(''b.idx'', db)], 1, [(''a.idx'', da)], 1)"
    using pa pb names bn by simp
  have h2: "must_regenerate (\<lambda>_ _. False) (Some b) 1 1 None = Inr False"
  proof -
    have "bl_k b = 4 \<or> bl_k b = 5" using old(2) by (auto simp: bloom_has_def sizes_ok_def)
    then show ?thesis using old(3) by (auto simp: must_regenerate_def MAX_BLOOM_BITS_def)
  qed
  have h3: "None \<in> {None, Some 4, Some (5 :: nat)}" "list_all2 idx_file_ok [(''b.idx'', db)] [pb]" "[(''b.idx'', db)] \<noteq> []"
    "1 = sum_list (map px_nsha [pb])" "(1 :: nat) < 2 ^ 32" "(\<lambda>_. 2) (1 * 4 :: nat) < (31 :: nat)"
    "\<forall>f\<in>set [(''b.idx'', db)]. basename (fst f) \<noteq> [] \<and> char_of (0 :: nat) \<notin> set (fst f)"
    using pb(2,3) bn n0 by simp_all
  from do_bloom_adding_forgets [where log2_floor = "\<lambda>_. 2", OF old(1) h1 h2 h3(1-6) suf h3(7)]
  obtain d b' where "do_bloom (\<lambda>_. 2) (\<lambda>_ _. False) ?files ''bup.bloom'' (Some old) None False = (Some d, Inr ())"
    "bloom_open ''bup.bloom'' d = Inr b'" "bl_idxnames b' = map (basename \<circ> fst) [(''b.idx'', db)]"
    by (elim exE conjE) (rule that)
  moreover have "map fst ?files = [''a.idx'', ''b.idx'']" by simp
  ultimately show ?thesis using old(1) names bn
    by (intro exI [of _ old] exI [of _ b] exI [of _ ?files] exI [of _ d] exI [of _ b']) simp
qed

end
