(* ===== verification/Streams.thy ===== *)
theory Streams
  imports Py_Struct "HOL-Library.Multiset"
begin

text \<open>
  Reading and merging streams, from \<open>lib/bup/helpers.py\<close>: the line and chunk readers, \<open>partition\<close>,
  \<open>merge_iter\<close>, the multiplexer \<open>mux\<close>, and the connections \<open>BaseConn\<close> and \<open>DemuxConn\<close> of the
  client-server protocol.
\<close>

section \<open>Lines and chunks\<close>

text \<open>\<open>f.readline()\<close> of a file that is its unread bytes.\<close>

fun readline :: "bytes \<Rightarrow> bytes \<times> bytes" where
  "readline [] = ([], [])"
| "readline (c # cs) =
     (if c = CHR 0x0a then ([c], cs) else case readline cs of (l, r) \<Rightarrow> (c # l, r))"

lemma readline_append: "readline s = (l, r) \<Longrightarrow> l @ r = s"
  by (induction s arbitrary: l r) (auto split: if_splits prod.splits)

lemma readline_shorter: "readline s = (l, r) \<Longrightarrow> l \<noteq> [] \<Longrightarrow> length r < length s"
  by (drule readline_append) (auto simp: length_greater_0_conv [symmetric] simp del: length_greater_0_conv)

lemma readline_empty: "readline s = ([], r) \<Longrightarrow> s = []"
  by (cases s) (auto split: if_splits prod.splits)

function linereader :: "bytes \<Rightarrow> bytes list" where
  "linereader f = (case readline f of (line, rest) \<Rightarrow> if line = [] then [] else butlast line # linereader rest)"
  by pat_completeness auto
termination
  by (relation "measure length") (auto dest: readline_shorter [OF sym])

declare linereader.simps [simp del]

text \<open>
  The lines yielded before the sentinel, and what is left of the stream, or the error raised when a
  line is incomplete.
\<close>

function lines_until_sentinel :: "bytes \<Rightarrow> bytes \<Rightarrow> 'e \<Rightarrow> bytes list \<times> ('e + bytes)" where
  "lines_until_sentinel f sentinel ex =
     (case readline f of (line, rest) \<Rightarrow>
        if \<not> (line \<noteq> [] \<and> suffix [CHR 0x0a] line) then ([], Inl ex)
        else if line = sentinel then ([], Inr rest)
        else case lines_until_sentinel rest sentinel ex of (ls, r) \<Rightarrow> (line # ls, r))"
  by pat_completeness auto
termination
  by (relation "measure (\<lambda>(f, s, e). length f)") (auto dest: readline_shorter [OF sym])

declare lines_until_sentinel.simps [simp del]

text \<open>\<open>chunkyreader\<close>: the chunks, and the rest of the stream or \<open>IOError\<close>.\<close>

function chunky_count :: "nat \<Rightarrow> bytes \<Rightarrow> bytes list \<times> bytes res" where
  "chunky_count n f =
     (if n = 0 then ([], Inr f)
      else
        let b = take (min n 65536) f
        in if b = [] then ([], Inl IOError)
           else case chunky_count (n - length b) (drop (length b) f) of (bs, r) \<Rightarrow> (b # bs, r))"
  by pat_completeness auto
termination
  by (relation "measure fst") auto

declare chunky_count.simps [simp del]

function chunky_all :: "bytes \<Rightarrow> bytes list" where
  "chunky_all f = (if f = [] then [] else take 65536 f # chunky_all (drop 65536 f))"
  by pat_completeness auto
termination
  by (relation "measure length") auto

declare chunky_all.simps [simp del]

definition chunkyreader :: "bytes \<Rightarrow> int option \<Rightarrow> bytes list \<times> bytes res" where
  "chunkyreader f n0 =
     (case n0 of None \<Rightarrow> (chunky_all f, Inr []) | Some n \<Rightarrow> chunky_count (nat n) f)"

section \<open>Partitioning and merging\<close>

text \<open>The leading matches, the first element that does not match, and what is left of the stream.\<close>

fun leading_matches :: "('a \<Rightarrow> bool) \<Rightarrow> 'a list \<Rightarrow> 'a list \<times> 'a option \<times> 'a list" where
  "leading_matches predicate [] = ([], None, [])"
| "leading_matches predicate (x # stream) =
     (if predicate x
      then (case leading_matches predicate stream of (xs, nonmatch, rest) \<Rightarrow> (x # xs, nonmatch, rest))
      else ([], Some x, stream))"

definition py_partition :: "('a \<Rightarrow> bool) \<Rightarrow> 'a list \<Rightarrow> 'a list \<times> 'a list" where
  "py_partition predicate stream =
     (case leading_matches predicate stream of
        (xs, None, rest) \<Rightarrow> (xs, [])
      | (xs, Some x, rest) \<Rightarrow> (xs, x # rest))"

text \<open>
  \<open>merge_iter\<close>: a heap item is an entry and the iterator after it.  Which of several least items
  \<open>heapq\<close> has in front is the argument \<open>pick\<close>, an index into the items.  An iterator that starts with
  something false (\<open>falsy\<close>) is left out whole.
\<close>

type_synonym 'a heap = "('a \<times> 'a list) list"

fun merge_heap :: "('a \<Rightarrow> bool) \<Rightarrow> 'a list list \<Rightarrow> 'a heap" where
  "merge_heap falsy [] = []"
| "merge_heap falsy ([] # its) = merge_heap falsy its"
| "merge_heap falsy ((e # it) # its) = (if falsy e then merge_heap falsy its else (e, it) # merge_heap falsy its)"

fun heap_size :: "'a heap \<Rightarrow> nat" where
  "heap_size [] = 0"
| "heap_size ((e, it) # h) = Suc (length it) + heap_size h"

definition heap_shift :: "nat \<Rightarrow> 'a heap \<Rightarrow> 'a heap" where
  "heap_shift i heap =
     (case snd (heap ! i) of
        [] \<Rightarrow> take i heap @ drop (Suc i) heap
      | e # it \<Rightarrow> heap[i := (e, it)])"

lemma heap_size_append [simp]: "heap_size (h @ h') = heap_size h + heap_size h'"
  by (induction h rule: heap_size.induct) auto

lemma heap_size_shift: "i < length heap \<Longrightarrow> heap_size (heap_shift i heap) < heap_size heap"
proof -
  assume i: "i < length heap"
  then have h: "heap = take i heap @ heap ! i # drop (Suc i) heap" by (simp add: id_take_nth_drop)
  have "heap_size heap = heap_size (take i heap) + Suc (length (snd (heap ! i))) + heap_size (drop (Suc i) heap)"
    by (subst h) (cases "heap ! i", simp)
  then show ?thesis
    using i by (auto simp: heap_shift_def upd_conv_take_nth_drop split: list.splits)
qed

function merge_loop_iter :: "('a heap \<Rightarrow> nat) \<Rightarrow> ('a \<Rightarrow> 'a \<Rightarrow> bool) \<Rightarrow> 'a option \<Rightarrow> 'a heap \<Rightarrow> 'a list" where
  "merge_loop_iter pick samekey pe heap =
     (if heap = [] \<or> length heap \<le> pick heap then []
      else
        let e = fst (heap ! pick heap)
        in if pe \<noteq> None \<and> samekey e (the pe)
           then merge_loop_iter pick samekey pe (heap_shift (pick heap) heap)
           else e # merge_loop_iter pick samekey (Some e) (heap_shift (pick heap) heap))"
  by pat_completeness auto
termination
  by (relation "measure (\<lambda>(p, s, pe, h). heap_size h)") (auto simp: heap_size_shift)

declare merge_loop_iter.simps [simp del]

definition merge_iter :: "('a heap \<Rightarrow> nat) \<Rightarrow> ('a \<Rightarrow> bool) \<Rightarrow> ('a \<Rightarrow> 'a \<Rightarrow> bool) \<Rightarrow> 'a list list \<Rightarrow> 'a list" where
  "merge_iter pick falsy samekey iters = merge_loop_iter pick samekey None (merge_heap falsy iters)"

text \<open>What \<open>heapq\<close> promises: the item in front is there and is a least one.\<close>

definition picks_least :: "(('a :: linorder) heap \<Rightarrow> nat) \<Rightarrow> bool" where
  "picks_least pick \<longleftrightarrow> (\<forall>h. h \<noteq> [] \<longrightarrow> pick h < length h \<and> (\<forall>x\<in>set h. fst (h ! pick h) \<le> fst x))"

fun pick_first :: "(('a :: linorder) heap) \<Rightarrow> nat" where
  "pick_first [] = 0"
| "pick_first [x] = 0"
| "pick_first (x # y # h) = (let i = pick_first (y # h) in if fst x \<le> fst ((y # h) ! i) then 0 else Suc i)"

lemma pick_first_least: "picks_least (pick_first :: 'a :: linorder heap \<Rightarrow> nat)"
proof -
  have "pick_first h < length h \<and> (\<forall>x\<in>set h. fst (h ! pick_first h) \<le> fst x)" if "h \<noteq> []" for h :: "'a heap"
    using that
  proof (induction h rule: pick_first.induct)
    case (3 x y h)
    define i where "i = pick_first (y # h)"
    have i: "i < length (y # h)" "\<forall>z\<in>set (y # h). fst ((y # h) ! i) \<le> fst z"
      using 3 by (auto simp: i_def)
    have eq: "pick_first (x # y # h) = (if fst x \<le> fst ((y # h) ! i) then 0 else Suc i)"
      by (simp add: Let_def i_def)
    show ?case
    proof (cases "fst x \<le> fst ((y # h) ! i)")
      case True
      then have "fst x \<le> fst z" if "z \<in> set (y # h)" for z using i(2) that by (meson order_trans)
      moreover have "pick_first (x # y # h) = 0" using True by (simp only: eq if_True)
      ultimately show ?thesis by (simp del: pick_first.simps)
    next
      case False
      then have "pick_first (x # y # h) = Suc i" by (simp only: eq if_False)
      then show ?thesis using i False by (auto simp del: pick_first.simps)
    qed
  qed auto
  then show ?thesis by (simp add: picks_least_def)
qed

definition heap_all :: "'a heap \<Rightarrow> 'a list" where
  "heap_all h = concat (map (\<lambda>(e, it). e # it) h)"

definition heap_sorted :: "('a :: linorder) heap \<Rightarrow> bool" where
  "heap_sorted h \<longleftrightarrow> (\<forall>(e, it)\<in>set h. sorted (e # it))"

lemma heap_all_shift:
  assumes "i < length h"
  shows "mset (heap_all h) = add_mset (fst (h ! i)) (mset (heap_all (heap_shift i h)))"
proof -
  have h: "h = take i h @ h ! i # drop (Suc i) h" using assms by (simp add: id_take_nth_drop)
  have "mset (heap_all h) = mset (heap_all (take i h @ h ! i # drop (Suc i) h))" using h by simp
  also have "\<dots> = add_mset (fst (h ! i)) (mset (heap_all (heap_shift i h)))"
    using assms by (cases "h ! i") (auto simp: heap_all_def heap_shift_def upd_conv_take_nth_drop split: list.splits)
  finally show ?thesis .
qed

lemma heap_sorted_shift:
  assumes "heap_sorted h" "i < length h"
  shows "heap_sorted (heap_shift i h)"
proof -
  have "h ! i \<in> set h" using assms(2) by simp
  then have "sorted (fst (h ! i) # snd (h ! i))"
    using assms(1) unfolding heap_sorted_def by (auto simp: case_prod_beta simp del: nth_mem)
  then show ?thesis
    using assms(1)
    by (auto simp: heap_sorted_def heap_shift_def split: list.splits
      dest: in_set_takeD in_set_dropD dest!: set_update_subset_insert [THEN subsetD])
qed

lemma sort_heap_all:
  assumes "picks_least pick" "heap_sorted h" "h \<noteq> []"
  shows "sort (heap_all h) = fst (h ! pick h) # sort (heap_all (heap_shift (pick h) h))"
    and "\<forall>x\<in>set (heap_all h). fst (h ! pick h) \<le> x"
proof -
  have i: "pick h < length h" "\<forall>x\<in>set h. fst (h ! pick h) \<le> fst x"
    using assms(1,3) by (auto simp: picks_least_def)
  show least: "\<forall>x\<in>set (heap_all h). fst (h ! pick h) \<le> x"
    using i(2) assms(2) by (fastforce simp: heap_all_def heap_sorted_def)
  have m: "mset (heap_all h) = add_mset (fst (h ! pick h)) (mset (heap_all (heap_shift (pick h) h)))"
    using heap_all_shift [OF i(1)] .
  have "set (heap_all (heap_shift (pick h) h)) \<subseteq> set (heap_all h)"
    using m by (metis set_mset_mset set_mset_add_mset_insert subset_insertI)
  then have "sorted (fst (h ! pick h) # sort (heap_all (heap_shift (pick h) h)))"
    using least by auto
  then show "sort (heap_all h) = fst (h ! pick h) # sort (heap_all (heap_shift (pick h) h))"
    using m by (intro properties_for_sort) simp_all
qed

lemma merge_loop_iter_sorted:
  assumes "picks_least pick" "heap_sorted h" "case pe of None \<Rightarrow> True | Some p \<Rightarrow> \<forall>x\<in>set (heap_all h). p \<le> x"
  shows "(case pe of None \<Rightarrow> merge_loop_iter pick (=) pe h | Some p \<Rightarrow> p # merge_loop_iter pick (=) pe h) =
    remdups_adj (case pe of None \<Rightarrow> sort (heap_all h) | Some p \<Rightarrow> p # sort (heap_all h))"
  using assms
proof (induction "heap_size h" arbitrary: h pe rule: less_induct)
  case less
  show ?case
  proof (cases "h = []")
    case True
    then show ?thesis by (auto simp: merge_loop_iter.simps [of pick] heap_all_def split: option.splits)
  next
    case False
    define i where "i = pick h"
    define e where "e = fst (h ! i)"
    define h' where "h' = heap_shift i h"
    have i: "i < length h" using less.prems(1) False by (auto simp: picks_least_def i_def)
    have s: "sort (heap_all h) = e # sort (heap_all h')" and l: "\<forall>x\<in>set (heap_all h). e \<le> x"
      using sort_heap_all [OF less.prems(1,2) False] by (simp_all add: i_def e_def h'_def)
    have set: "set (heap_all h) = insert e (set (heap_all h'))" by (metis list.set(2) s set_sort)
    have srt: "heap_sorted h'" using heap_sorted_shift [OF less.prems(2) i] by (simp add: h'_def)
    have IH: "p # merge_loop_iter pick (=) (Some p) h' = remdups_adj (p # sort (heap_all h'))" if "\<forall>x\<in>set (heap_all h'). p \<le> x" for p
      using less.hyps [of h' "Some p"] heap_size_shift [OF i] less.prems(1) srt that by (simp add: h'_def)
    have step: "merge_loop_iter pick (=) pe h =
      (if pe = Some e then merge_loop_iter pick (=) pe h' else e # merge_loop_iter pick (=) (Some e) h')"
      using i False by (subst merge_loop_iter.simps) (auto simp: Let_def i_def [symmetric] e_def [symmetric] h'_def [symmetric])
    show ?thesis
    proof (cases pe)
      case None
      then show ?thesis using step IH [of e] l s set by simp
    next
      case (Some p)
      show ?thesis
      proof (cases "p = e")
        case True
        then show ?thesis using step IH [of e] l s set Some by simp
      next
        case False
        then show ?thesis using step IH [of e] l s set Some by simp
      qed
    qed
  qed
qed

lemma merge_heap_sorted:
  assumes "\<forall>it\<in>set its. sorted it \<and> (\<forall>e\<in>set it. \<not> falsy e)"
  shows "heap_sorted (merge_heap falsy its)" "heap_all (merge_heap falsy its) = concat its"
  using assms
  by (induction falsy its rule: merge_heap.induct) (auto simp: heap_sorted_def heap_all_def)

text \<open>C32: \<open>merge_iter\<close>, over which every walk of the indexes goes, is the sorted union: for sorted
  iterables with nothing false in them, whichever least item \<open>heapq\<close> keeps in front, it yields each
  value that occurs in one of them once, in order.\<close>

theorem merge_iter_sorted_union:
  assumes "picks_least pick" "\<forall>it\<in>set iters. sorted it \<and> (\<forall>e\<in>set it. \<not> falsy e)"
  shows "merge_iter pick falsy (=) iters = remdups_adj (sort (concat iters))"
  using merge_loop_iter_sorted [OF assms(1), of "merge_heap falsy iters" None] merge_heap_sorted [OF assms(2)]
  by (simp add: merge_iter_def)

theorem merge_iter_sorted_union_witness:
  "merge_iter pick_first (\<lambda>e. e = []) (=) [[''ab'', ''c''], [], [''ab'', ''b'']] = [''ab'', ''b'', ''c'']"
proof -
  have "remdups_adj (sort (concat [[''ab'', ''c''], [], [''ab'', ''b'']])) = [''ab'', ''b'', ''c'']" by code_simp
  moreover have "\<forall>it\<in>set [[''ab'', ''c''], [], [''ab'', ''b'']]. sorted it \<and> (\<forall>e\<in>set it. \<not> e = [])" by code_simp
  ultimately show ?thesis
    using merge_iter_sorted_union [OF pick_first_least, of "[[''ab'', ''c''], [], [''ab'', ''b'']]" "\<lambda>e. e = []"] by simp
qed

end
