(* ===== verification/Conn.thy ===== *)
theory Conn
  imports Streams
begin

text \<open>
  The connections of the client-server protocol, from \<open>lib/bup/helpers.py\<close>: \<open>mux\<close>, which sends a
  server's standard output and error over one descriptor, \<open>DemuxConn\<close>, which takes them apart again,
  and the replies of \<open>BaseConn\<close>.  A descriptor is the list of what each \<open>os.read\<close> finds in it, so
  that a read can return less than it asks for; at the end of the list it is at EOF.
\<close>

section \<open>Reading descriptors\<close>

type_synonym fd = "bytes list"

definition os_read :: "nat \<Rightarrow> fd \<Rightarrow> bytes \<times> fd" where
  "os_read n fd =
     (case fd of
        [] \<Rightarrow> ([], [])
      | s # ss \<Rightarrow> (take n s, if length s \<le> n then ss else drop n s # ss))"

definition fd_ok :: "fd \<Rightarrow> bool" where
  "fd_ok fd \<longleftrightarrow> [] \<notin> set fd"

lemma os_read_cases:
  assumes "os_read n fd = (b, fd')"
  shows "concat fd = b @ concat fd'" "length b \<le> n" "fd_ok fd \<Longrightarrow> fd_ok fd'"
    "fd_ok fd \<Longrightarrow> 0 < n \<Longrightarrow> fd \<noteq> [] \<Longrightarrow> b \<noteq> []"
  using assms by (auto simp: os_read_def fd_ok_def split: list.splits if_splits)

lemma fd_ok_concat: "fd_ok fd \<Longrightarrow> concat fd = [] \<longleftrightarrow> fd = []"
  by (cases fd) (auto simp: fd_ok_def)

text \<open>\<open>b''.join(checked_reader(fd, n))\<close>.\<close>

function checked_read :: "nat \<Rightarrow> fd \<Rightarrow> (bytes \<times> fd) res" where
  "checked_read n fd =
     (if n = 0 then Inr ([], fd)
      else case os_read n fd of (buf, fd') \<Rightarrow>
        if buf = [] then Inl (Exc ''Unexpected EOF reading'')
        else res_bind (checked_read (n - length buf) fd') (\<lambda>(rest, fd''). Inr (buf @ rest, fd'')))"
  by pat_completeness auto
termination by (relation "measure fst") auto

declare checked_read.simps [simp del]

lemma checked_read_ok:
  assumes "fd_ok fd" "n \<le> length (concat fd)"
  shows "\<exists>fd'. checked_read n fd = Inr (take n (concat fd), fd') \<and> concat fd' = drop n (concat fd) \<and> fd_ok fd'"
  using assms
proof (induction n fd rule: checked_read.induct)
  case (1 n fd)
  obtain buf fd' where r: "os_read n fd = (buf, fd')" by fastforce
  note c = os_read_cases [OF r]
  show ?case
  proof (cases "n = 0")
    case True
    then show ?thesis using "1.prems"(1) by (simp add: checked_read.simps [of 0])
  next
    case False
    then have "fd \<noteq> []" using "1.prems"(2) by auto
    then have b: "buf \<noteq> []" using c(4) "1.prems"(1) False by simp
    have "n - length buf \<le> length (concat fd')" using c(1,2) "1.prems"(2) by simp
    then obtain fd'' where "checked_read (n - length buf) fd' = Inr (take (n - length buf) (concat fd'), fd'')"
      "concat fd'' = drop (n - length buf) (concat fd')" "fd_ok fd''"
      using "1.IH" [OF False r [symmetric] b] c(3) "1.prems"(1) by blast
    then show ?thesis
      using False b r c(1,2) by (subst checked_read.simps) (auto simp: take_append)
  qed
qed

section \<open>mux\<close>

definition MAX_PACKET :: nat where "MAX_PACKET = 128 * 1024"

definition packet :: "nat \<Rightarrow> bytes \<Rightarrow> bytes" where
  "packet fdw buf = be_bytes 4 (length buf) @ be_bytes 1 fdw @ buf"

text \<open>
  What \<open>select\<close> and the reads find, in turn: a piece of \<open>outr\<close> (at most \<open>MAX_PACKET\<close> bytes) or of
  \<open>errr\<close> (at most 1024), empty at its end.  The result is what goes to \<open>outfd\<close>; \<open>None\<close> while a
  descriptor is still open.
\<close>

datatype mux_read = Outr bytes | Errr bytes

fun mux_loop :: "bool \<Rightarrow> bool \<Rightarrow> mux_read list \<Rightarrow> bytes option" where
  "mux_loop outr errr rs =
     (if \<not> outr \<and> \<not> errr then Some []
      else case rs of
        [] \<Rightarrow> None
      | Outr buf # rs' \<Rightarrow>
          (if \<not> outr then mux_loop outr errr rs'
           else if buf = [] then mux_loop False errr rs'
           else map_option ((@) (packet 1 buf)) (mux_loop outr errr rs'))
      | Errr buf # rs' \<Rightarrow>
          (if \<not> errr then mux_loop outr errr rs'
           else if buf = [] then mux_loop outr False rs'
           else map_option ((@) (packet 2 buf)) (mux_loop outr errr rs')))"

declare mux_loop.simps [simp del]

definition mux :: "mux_read list \<Rightarrow> bytes option" where
  "mux rs = map_option (\<lambda>s. ''BUPMUX'' @ s @ be_bytes 4 0 @ be_bytes 1 3) (mux_loop True True rs)"

section \<open>DemuxConn\<close>

record demux =
  dx_infd :: fd
  dx_reader :: "nat option"
  dx_buf :: "bytes option"
  dx_closed :: bool
  dx_stderr :: bytes

text \<open>Everything up to the sync string goes to the standard error.\<close>

function demux_sync :: "bytes \<Rightarrow> fd \<Rightarrow> bytes \<Rightarrow> (fd \<times> bytes) res" where
  "demux_sync tail0 infd err =
     (if tail0 = ''BUPMUX'' then Inr (infd, err)
      else case os_read (if length tail0 < 6 then 6 - length tail0 else 1) infd of (b, infd') \<Rightarrow>
        if b = [] then Inl IOError
        else
          let t = tail0 @ b
          in demux_sync (drop (length t - 6) t) infd' (err @ take (length t - 6) t))"
  by pat_completeness auto
termination
proof (relation "measure (\<lambda>(t, fd, e). length (concat fd))", goal_cases)
  case (2 tail0 infd err b infd' t)
  then show ?case using os_read_cases(1) [of _ infd b infd'] by auto
qed simp

declare demux_sync.simps [simp del]

definition demux_init :: "fd \<Rightarrow> demux res" where
  "demux_init infd =
     res_bind (demux_sync [] infd []) (\<lambda>(infd', err).
       Inr \<lparr>dx_infd = infd', dx_reader = None, dx_buf = None, dx_closed = False, dx_stderr = err\<rparr>)"

text \<open>Reads of 1024 bytes until the end, as at the close.\<close>

function drain :: "fd \<Rightarrow> bytes" where
  "drain fd = (case os_read 1024 fd of (b, fd') \<Rightarrow> if b = [] then [] else b @ drain fd')"
  by pat_completeness auto
termination
proof (relation "measure (\<lambda>fd. length (concat fd))", goal_cases)
  case (2 fd b fd')
  then show ?case using os_read_cases(1) [of 1024 fd b fd'] by auto
qed simp

declare drain.simps [simp del]

text \<open>\<open>_next_packet\<close> with no timeout, on a connection that is not closed.\<close>

definition next_packet :: "demux \<Rightarrow> demux res" where
  "next_packet dx =
     res_bind (checked_read 5 (dx_infd dx)) (\<lambda>(ns, infd).
       let n = be_val (take 4 ns); fdw = be_val (drop 4 ns)
       in if MAX_PACKET < n then Inl (Exc ''Connection broken'')
          else if fdw = 1 then Inr (dx\<lparr>dx_infd := infd, dx_reader := Some n\<rparr>)
          else if fdw = 2 then
            res_bind (checked_read n infd) (\<lambda>(buf, infd').
              Inr (dx\<lparr>dx_infd := infd', dx_stderr := dx_stderr dx @ buf\<rparr>))
          else if fdw = 3 then
            Inr (dx\<lparr>dx_infd := [], dx_closed := True, dx_stderr := dx_stderr dx @ drain infd\<rparr>)
          else Inr (dx\<lparr>dx_infd := infd\<rparr>))"

definition dx_left :: "demux \<Rightarrow> nat" where
  "dx_left dx = 3 * length (concat (dx_infd dx)) + (case dx_reader dx of None \<Rightarrow> 0 | Some _ \<Rightarrow> 1)
     + (case dx_buf dx of None \<Rightarrow> 0 | Some b \<Rightarrow> 2 * length b + 1)"

lemma checked_read_left:
  "checked_read n fd = Inr (b, fd') \<Longrightarrow> length (concat fd) = n + length (concat fd') \<and> length b = n"
proof (induction n fd arbitrary: b fd' rule: checked_read.induct)
  case (1 n fd)
  obtain buf fd1 where r: "os_read n fd = (buf, fd1)" by fastforce
  note c = os_read_cases [OF r]
  show ?case
  proof (cases "n = 0")
    case True
    then show ?thesis using "1.prems" by (simp add: checked_read.simps [of 0])
  next
    case False
    then have b: "buf \<noteq> []" using "1.prems" r by (subst (asm) checked_read.simps) (auto split: if_splits)
    then obtain rest where "checked_read (n - length buf) fd1 = Inr (rest, fd')" "b = buf @ rest"
      using "1.prems" r False by (subst (asm) checked_read.simps) (auto simp: res_simps)
    then show ?thesis
      using "1.IH" [OF False r [symmetric] b, of rest fd'] c(1,2) by simp
  qed
qed

lemma next_packet_left:
  assumes "next_packet dx = Inr dx'" "dx_reader dx = None"
  shows "dx_left dx' < dx_left dx"
proof -
  obtain ns infd where 1: "checked_read 5 (dx_infd dx) = Inr (ns, infd)"
    using assms(1) by (cases "checked_read 5 (dx_infd dx)") (auto simp: next_packet_def)
  then have l: "length (concat (dx_infd dx)) = 5 + length (concat infd)" using checked_read_left by blast
  show ?thesis
    using assms 1 l checked_read_left [of "be_val (take 4 ns)" infd]
    by (auto simp: next_packet_def Let_def dx_left_def res_simps split: if_splits option.splits)
qed

text \<open>\<open>_load_buf(None)\<close>.\<close>

function load_buf :: "demux \<Rightarrow> (bool \<times> demux) res" where
  "load_buf dx =
     (if dx_buf dx \<noteq> None then Inr (True, dx)
      else if dx_closed dx then Inr (False, dx)
      else case dx_reader dx of
        None \<Rightarrow> res_bind (next_packet dx) load_buf
      | Some n \<Rightarrow>
          (if n = 0 then load_buf (dx\<lparr>dx_reader := None\<rparr>)
           else case os_read n (dx_infd dx) of (buf, infd) \<Rightarrow>
             if buf = [] then Inl (Exc ''Unexpected EOF reading'')
             else Inr (True, dx\<lparr>dx_infd := infd, dx_reader := Some (n - length buf), dx_buf := Some buf\<rparr>)))"
  by pat_completeness auto
termination
  by (relation "measure dx_left") (auto simp: next_packet_left, simp add: dx_left_def)

declare load_buf.simps [simp del]

lemma load_buf_left:
  "load_buf dx = Inr (r, dx') \<Longrightarrow> dx_left dx' \<le> dx_left dx \<and> (r \<longleftrightarrow> dx_buf dx' \<noteq> None)"
proof (induction dx arbitrary: r dx' rule: load_buf.induct)
  case (1 dx)
  show ?case
  proof (cases "dx_buf dx \<noteq> None \<or> dx_closed dx")
    case True
    then show ?thesis using "1.prems" by (subst (asm) load_buf.simps) (auto split: if_splits)
  next
    case False
    show ?thesis
    proof (cases "dx_reader dx")
      case None
      then obtain dx1 where n: "next_packet dx = Inr dx1" "load_buf dx1 = Inr (r, dx')"
        using "1.prems" False by (subst (asm) load_buf.simps) (auto simp: res_simps)
      then show ?thesis using "1.IH"(1) [of dx1 r dx'] False None next_packet_left [OF n(1) None] by simp
    next
      case (Some n)
      show ?thesis
      proof (cases "n = 0")
        case True
        then show ?thesis
          using "1.prems" "1.IH"(2) [of n r dx'] False Some by (subst (asm) load_buf.simps) (auto simp: dx_left_def)
      next
        case nz: False
        obtain buf infd where o: "os_read n (dx_infd dx) = (buf, infd)" by fastforce
        then have "buf \<noteq> []" "r" and dx': "dx' = dx\<lparr>dx_infd := infd, dx_reader := Some (n - length buf), dx_buf := Some buf\<rparr>"
          using "1.prems" False Some nz by (subst (asm) load_buf.simps; auto split: if_splits)+
        moreover have "length (concat (dx_infd dx)) = length buf + length (concat infd)"
          using os_read_cases(1) [OF o] by simp
        moreover have "Suc 0 \<le> length buf" using \<open>buf \<noteq> []\<close> by (cases buf) simp_all
        ultimately show ?thesis using False Some by (auto simp: dx_left_def)
      qed
    qed
  qed
qed

text \<open>
  \<open>_read_parts\<close> joined: \<open>ix_fn\<close> says where the part ends in a buffer, if it does, and updates what it
  keeps.
\<close>

function read_parts :: "('s \<Rightarrow> bytes \<Rightarrow> nat option \<times> 's) \<Rightarrow> 's \<Rightarrow> demux \<Rightarrow> (bytes \<times> demux) res" where
  "read_parts ix_fn st dx =
     (case load_buf dx of
        Inl e \<Rightarrow> Inl e
      | Inr (False, dx') \<Rightarrow> Inr ([], dx')
      | Inr (True, dx') \<Rightarrow>
          (case dx_buf dx' of
             None \<Rightarrow> Inl AssertionError
           | Some buf \<Rightarrow>
               (case ix_fn st buf of
                  (None, st') \<Rightarrow>
                    res_bind (read_parts ix_fn st' (dx'\<lparr>dx_buf := None\<rparr>)) (\<lambda>(yv, dx''). Inr (buf @ yv, dx''))
                | (Some i, st') \<Rightarrow>
                    if i = length buf then Inr (buf, dx'\<lparr>dx_buf := None\<rparr>)
                    else Inr (take i buf, dx'\<lparr>dx_buf := Some (drop i buf)\<rparr>))))"
  by pat_completeness auto
termination
proof (relation "measure (\<lambda>(ix, st, dx). dx_left dx)", goal_cases)
  case prems: (2 ix_fn st dx)
  show ?case using prems load_buf_left [of dx] by (fastforce simp: dx_left_def)
qed simp

declare read_parts.simps [simp del]

definition find_eol :: "unit \<Rightarrow> bytes \<Rightarrow> nat option \<times> unit" where
  "find_eol u buf = (case index_of (CHR 0x0a) buf of None \<Rightarrow> (None, ()) | Some i \<Rightarrow> (Some (i + 1), ()))"

definition until_size :: "nat \<Rightarrow> bytes \<Rightarrow> nat option \<times> nat" where
  "until_size csize buf = (if length buf < csize then (None, csize - length buf) else (Some csize, csize))"

definition demux_readline :: "demux \<Rightarrow> (bytes \<times> demux) res" where
  "demux_readline dx = read_parts find_eol () dx"

definition demux_read :: "nat \<Rightarrow> demux \<Rightarrow> (bytes \<times> demux) res" where
  "demux_read n dx = read_parts until_size n dx"

section \<open>What a connection still has to give\<close>

text \<open>The packets of a session, and the two streams in it.\<close>

datatype mux_packet = POut bytes | PErr bytes

definition packet_bytes :: "mux_packet \<Rightarrow> bytes" where
  "packet_bytes p = (case p of POut b \<Rightarrow> packet 1 b | PErr b \<Rightarrow> packet 2 b)"

fun out_of :: "mux_packet list \<Rightarrow> bytes" where
  "out_of [] = []"
| "out_of (POut b # ps) = b @ out_of ps"
| "out_of (PErr b # ps) = out_of ps"

fun err_of :: "mux_packet list \<Rightarrow> bytes" where
  "err_of [] = []"
| "err_of (POut b # ps) = err_of ps"
| "err_of (PErr b # ps) = b @ err_of ps"

definition packet_len :: "mux_packet \<Rightarrow> nat" where
  "packet_len p = (case p of POut b \<Rightarrow> length b | PErr b \<Rightarrow> length b)"

definition session_end :: bytes where
  "session_end = be_bytes 4 0 @ be_bytes 1 3"

text \<open>
  \<open>dx_gives dx data err\<close>: reading \<open>dx\<close> to the end gives \<open>data\<close> and leaves \<open>err\<close> on the standard
  error.
\<close>

definition dx_gives :: "demux \<Rightarrow> bytes \<Rightarrow> bytes \<Rightarrow> bool" where
  "dx_gives dx data err \<longleftrightarrow>
     fd_ok (dx_infd dx) \<and> dx_buf dx \<noteq> Some [] \<and>
     (if dx_closed dx then dx_reader dx = None \<and> data = (case dx_buf dx of None \<Rightarrow> [] | Some b \<Rightarrow> b) \<and> err = dx_stderr dx
      else \<exists>cur ps rest.
        (case dx_reader dx of None \<Rightarrow> cur = [] | Some n \<Rightarrow> length cur = n) \<and>
        (\<forall>p\<in>set ps. packet_len p \<le> MAX_PACKET) \<and>
        concat (dx_infd dx) = cur @ concat (map packet_bytes ps) @ session_end @ rest \<and>
        data = (case dx_buf dx of None \<Rightarrow> [] | Some b \<Rightarrow> b) @ cur @ out_of ps \<and>
        err = dx_stderr dx @ err_of ps @ rest)"

lemma dx_givesI:
  assumes "fd_ok (dx_infd dx)" "dx_buf dx \<noteq> Some []" "\<not> dx_closed dx"
    "case dx_reader dx of None \<Rightarrow> cur = [] | Some n \<Rightarrow> length cur = n" "\<forall>p\<in>set ps. packet_len p \<le> MAX_PACKET"
    "concat (dx_infd dx) = cur @ concat (map packet_bytes ps) @ session_end @ rest"
    "data = (case dx_buf dx of None \<Rightarrow> [] | Some b \<Rightarrow> b) @ cur @ out_of ps"
    "err = dx_stderr dx @ err_of ps @ rest"
  shows "dx_gives dx data err"
  unfolding dx_gives_def using assms by (simp only: if_False simp_thms) blast

lemma drain_ok: "fd_ok fd \<Longrightarrow> drain fd = concat fd"
proof (induction fd rule: drain.induct)
  case (1 fd)
  obtain b fd' where r: "os_read 1024 fd = (b, fd')" by fastforce
  note c = os_read_cases [OF r]
  show ?case
  proof (cases "fd = []")
    case True
    then show ?thesis by (simp add: drain.simps [of "[]"] os_read_def)
  next
    case False
    then have "b \<noteq> []" using c(4) "1.prems" by simp
    then show ?thesis using "1.IH" [OF r [symmetric]] c(1,3) "1.prems" r by (subst drain.simps) simp
  qed
qed

lemma read_packet:
  assumes "fd_ok fd" "concat fd = packet k b @ post" "length b \<le> MAX_PACKET" "k < 256"
  obtains ns fd' where "checked_read 5 fd = Inr (ns, fd')" "be_val (take 4 ns) = length b" "be_val (drop 4 ns) = k"
    "concat fd' = b @ post" "fd_ok fd'"
proof -
  have "5 \<le> length (concat fd)" using assms(2) by (simp add: packet_def del: be_bytes.simps)
  from checked_read_ok [OF assms(1) this] obtain fd' where fd':
    "checked_read 5 fd = Inr (take 5 (concat fd), fd')" "concat fd' = drop 5 (concat fd)" "fd_ok fd'" by blast
  have "take 5 (concat fd) = be_bytes 4 (length b) @ be_bytes 1 k" "drop 5 (concat fd) = b @ post"
    using assms(2) by (simp_all add: packet_def del: be_bytes.simps)
  moreover have "length b < 256 ^ 4" using assms(3) by (simp add: MAX_PACKET_def)
  ultimately show ?thesis
    using fd' assms(4) by (intro that [of "take 5 (concat fd)" fd']) (simp_all del: be_bytes.simps)
qed

lemma next_packet_ok:
  assumes "dx_gives dx data err" "dx_reader dx = None" "dx_buf dx = None" "\<not> dx_closed dx"
  shows "\<exists>dx'. next_packet dx = Inr dx' \<and> dx_gives dx' data err \<and> dx_buf dx' = None"
proof -
  have ok: "fd_ok (dx_infd dx)" using assms(1) by (simp add: dx_gives_def)
  obtain ps rest where ps: "\<forall>p\<in>set ps. packet_len p \<le> MAX_PACKET"
    "concat (dx_infd dx) = concat (map packet_bytes ps) @ session_end @ rest" "data = out_of ps"
    "err = dx_stderr dx @ err_of ps @ rest"
    using assms by (auto simp: dx_gives_def)
  show ?thesis
  proof (cases ps)
    case Nil
    have "concat (dx_infd dx) = packet 3 [] @ rest" using ps(2) Nil by (simp add: packet_def session_end_def)
    from read_packet [OF ok this] obtain ns fd' where r: "checked_read 5 (dx_infd dx) = Inr (ns, fd')"
      "be_val (take 4 ns) = 0" "be_val (drop 4 ns) = 3" "concat fd' = rest" "fd_ok fd'" by auto
    then have "next_packet dx = Inr (dx\<lparr>dx_infd := [], dx_closed := True, dx_stderr := dx_stderr dx @ rest\<rparr>)"
      using drain_ok [of fd'] by (simp add: next_packet_def Let_def)
    then show ?thesis using assms ps Nil by (simp add: dx_gives_def fd_ok_def)
  next
    case (Cons p ps')
    show ?thesis
    proof (cases p)
      case (POut b)
      have "concat (dx_infd dx) = packet 1 b @ concat (map packet_bytes ps') @ session_end @ rest" "length b \<le> MAX_PACKET"
        using ps(1,2) Cons POut by (simp_all add: packet_bytes_def packet_len_def)
      from read_packet [OF ok this] obtain ns fd' where r: "checked_read 5 (dx_infd dx) = Inr (ns, fd')"
        "be_val (take 4 ns) = length b" "be_val (drop 4 ns) = 1" "concat fd' = b @ concat (map packet_bytes ps') @ session_end @ rest" "fd_ok fd'"
        by auto
      have "next_packet dx = Inr (dx\<lparr>dx_infd := fd', dx_reader := Some (length b)\<rparr>)"
        using r(1,2,3) \<open>length b \<le> MAX_PACKET\<close> by (simp add: next_packet_def Let_def)
      moreover have "dx_gives (dx\<lparr>dx_infd := fd', dx_reader := Some (length b)\<rparr>) data err"
        by (rule dx_givesI [of _ b ps' rest]) (use r(4,5) assms(3,4) ps Cons POut in simp_all)
      ultimately show ?thesis using assms(3) by (intro exI [of _ "dx\<lparr>dx_infd := fd', dx_reader := Some (length b)\<rparr>"]) simp
    next
      case (PErr b)
      have "concat (dx_infd dx) = packet 2 b @ concat (map packet_bytes ps') @ session_end @ rest" "length b \<le> MAX_PACKET"
        using ps(1,2) Cons PErr by (simp_all add: packet_bytes_def packet_len_def)
      from read_packet [OF ok this] obtain ns fd' where r: "checked_read 5 (dx_infd dx) = Inr (ns, fd')"
        "be_val (take 4 ns) = length b" "be_val (drop 4 ns) = 2" "concat fd' = b @ concat (map packet_bytes ps') @ session_end @ rest" "fd_ok fd'"
        by auto
      have "length b \<le> length (concat fd')" unfolding r(4) by simp
      from checked_read_ok [OF r(5) this] obtain fd'' where f: "checked_read (length b) fd' = Inr (b, fd'')"
        "concat fd'' = concat (map packet_bytes ps') @ session_end @ rest" "fd_ok fd''"
        unfolding r(4) by auto
      let ?dx = "dx\<lparr>dx_infd := fd'', dx_stderr := dx_stderr dx @ b\<rparr>"
      have "next_packet dx = Inr ?dx"
        using r(1,2,3) f(1) \<open>length b \<le> MAX_PACKET\<close> by (simp add: next_packet_def Let_def)
      moreover have "dx_gives ?dx data err"
        by (rule dx_givesI [of _ "[]" ps' rest]) (use f(2,3) assms(2,3,4) ps Cons PErr in simp_all)
      ultimately show ?thesis using assms(3) by (intro exI [of _ ?dx]) simp
    qed
  qed
qed

lemma load_buf_ok:
  assumes "dx_gives dx data err"
  shows "\<exists>dx'. load_buf dx = Inr (data \<noteq> [], dx') \<and> dx_gives dx' data err \<and> (data = [] \<longrightarrow> dx_stderr dx' = err)"
  using assms
proof (induction dx rule: load_buf.induct)
  case (1 dx)
  have ok: "fd_ok (dx_infd dx)" "dx_buf dx \<noteq> Some []" using "1.prems" by (auto simp: dx_gives_def)
  show ?case
  proof (cases "dx_buf dx")
    case (Some b)
    then have "data \<noteq> []" using "1.prems" ok(2) by (auto simp: dx_gives_def split: if_splits)
    then show ?thesis using Some "1.prems" by (subst load_buf.simps) simp
  next
    case None
    show ?thesis
    proof (cases "dx_closed dx")
      case True
      then show ?thesis using None "1.prems" by (subst load_buf.simps) (simp add: dx_gives_def)
    next
      case open': False
      show ?thesis
      proof (cases "dx_reader dx")
        case rd: None
        obtain dx1 where n: "next_packet dx = Inr dx1" "dx_gives dx1 data err"
          using next_packet_ok [OF "1.prems" rd None open'] by blast
        then show ?thesis
          using "1.IH"(1) [of dx1] None open' rd by (subst load_buf.simps) simp
      next
        case (Some n)
        obtain cur ps rest where g: "length cur = n" "\<forall>p\<in>set ps. packet_len p \<le> MAX_PACKET"
          "concat (dx_infd dx) = cur @ concat (map packet_bytes ps) @ session_end @ rest" "data = cur @ out_of ps"
          "err = dx_stderr dx @ err_of ps @ rest"
          using "1.prems" None open' Some by (auto simp: dx_gives_def)
        show ?thesis
        proof (cases "n = 0")
          case True
          have "dx_gives (dx\<lparr>dx_reader := None\<rparr>) data err"
            using "1.prems" None open' Some True by (simp add: dx_gives_def)
          then show ?thesis using "1.IH"(2) [of n] None open' Some True by (subst load_buf.simps) simp
        next
          case False
          obtain buf infd where o: "os_read n (dx_infd dx) = (buf, infd)" by fastforce
          note c = os_read_cases [OF o]
          have "dx_infd dx \<noteq> []" using g(1,3) False by auto
          then have b: "buf \<noteq> []" using c(4) ok(1) False by simp
          obtain cur' where cur: "cur = buf @ cur'"
            using c(1,2) g(1,3) by (metis append_eq_append_conv_if append_take_drop_id)
          then have i: "concat infd = cur' @ concat (map packet_bytes ps) @ session_end @ rest" using c(1) g(3) by simp
          let ?dx = "dx\<lparr>dx_infd := infd, dx_reader := Some (n - length buf), dx_buf := Some buf\<rparr>"
          have "load_buf dx = Inr (True, ?dx)" using None open' Some False o b by (subst load_buf.simps) simp
          moreover have "dx_gives ?dx data err"
            by (rule dx_givesI [of _ cur' ps rest]) (use c(3) ok(1) b open' g i cur in simp_all)
          ultimately show ?thesis using g(4) cur b by simp
        qed
      qed
    qed
  qed
qed

section \<open>Reading a connection\<close>

text \<open>What a part is, on the data as a whole.\<close>

definition cuts :: "('s \<Rightarrow> bytes \<Rightarrow> nat option \<times> 's) \<Rightarrow> ('s \<Rightarrow> bytes \<Rightarrow> nat) \<Rightarrow> bool" where
  "cuts ix_fn len \<longleftrightarrow>
     (\<forall>st buf d. buf \<noteq> [] \<longrightarrow>
        (case ix_fn st buf of
           (None, st') \<Rightarrow> len st (buf @ d) = length buf + len st' d
         | (Some i, st') \<Rightarrow> i \<le> length buf \<and> len st (buf @ d) = i))"

lemma dx_gives_buf:
  assumes "dx_gives dx data err" "dx_buf dx = Some buf"
  obtains d where "data = buf @ d" "dx_gives (dx\<lparr>dx_buf := None\<rparr>) d err"
    "\<And>b. b \<noteq> [] \<Longrightarrow> dx_gives (dx\<lparr>dx_buf := Some b\<rparr>) (b @ d) err"
proof (cases "dx_closed dx")
  case True
  then show ?thesis using assms by (intro that [of "[]"]) (simp_all add: dx_gives_def)
next
  case False
  then obtain cur ps rest where g: "case dx_reader dx of None \<Rightarrow> cur = [] | Some n \<Rightarrow> length cur = n"
    "\<forall>p\<in>set ps. packet_len p \<le> MAX_PACKET" "concat (dx_infd dx) = cur @ concat (map packet_bytes ps) @ session_end @ rest"
    "data = buf @ cur @ out_of ps" "err = dx_stderr dx @ err_of ps @ rest" "fd_ok (dx_infd dx)"
    using assms unfolding dx_gives_def by (elim conjE) (auto simp: assms(2) elim!: exE conjE)
  have "dx_gives (dx\<lparr>dx_buf := None\<rparr>) (cur @ out_of ps) err"
    by (rule dx_givesI [of _ cur ps rest]) (use g False in simp_all)
  moreover have "dx_gives (dx\<lparr>dx_buf := Some b\<rparr>) (b @ cur @ out_of ps) err" if "b \<noteq> []" for b
    by (rule dx_givesI [of _ cur ps rest]) (use g False that in simp_all)
  ultimately show ?thesis using g(4) by (intro that) auto
qed

lemma read_parts_ok:
  assumes "cuts ix_fn len" "dx_gives dx data err"
  shows "\<exists>dx'. read_parts ix_fn st dx = Inr (take (len st data) data, dx') \<and> dx_gives dx' (drop (len st data) data) err \<and>
    (length data < len st data \<longrightarrow> dx_stderr dx' = err)"
  using assms
proof (induction ix_fn st dx arbitrary: data rule: read_parts.induct)
  case (1 ix_fn st dx)
  obtain dx1 where l: "load_buf dx = Inr (data \<noteq> [], dx1)" "dx_gives dx1 data err" "data = [] \<longrightarrow> dx_stderr dx1 = err"
    using load_buf_ok [OF "1.prems"(2)] by blast
  show ?case
  proof (cases "data = []")
    case True
    then show ?thesis using l by (subst read_parts.simps) simp
  next
    case False
    then have l1: "load_buf dx = Inr (True, dx1)" using l(1) by simp
    then obtain buf where buf: "dx_buf dx1 = Some buf" using load_buf_left [OF l1] by auto
    have ne: "buf \<noteq> []" using l(2) buf by (auto simp: dx_gives_def)
    obtain d where d: "data = buf @ d" "dx_gives (dx1\<lparr>dx_buf := None\<rparr>) d err"
      "\<And>b. b \<noteq> [] \<Longrightarrow> dx_gives (dx1\<lparr>dx_buf := Some b\<rparr>) (b @ d) err"
      using dx_gives_buf [OF l(2) buf] by metis
    obtain r st' where ix: "ix_fn st buf = (r, st')" by fastforce
    have cut: "case ix_fn st buf of (None, st') \<Rightarrow> len st (buf @ d) = length buf + len st' d
         | (Some i, st') \<Rightarrow> i \<le> length buf \<and> len st (buf @ d) = i"
      using "1.prems"(1) [unfolded cuts_def, THEN spec [of _ st], THEN spec [of _ buf], THEN spec [of _ d], THEN mp, OF ne] .
    show ?thesis
    proof (cases r)
      case None
      have len: "len st data = length buf + len st' d" using cut ix None d(1) by simp
      obtain dx' where dx': "read_parts ix_fn st' (dx1\<lparr>dx_buf := None\<rparr>) = Inr (take (len st' d) d, dx')"
        "dx_gives dx' (drop (len st' d) d) err" "length d < len st' d \<longrightarrow> dx_stderr dx' = err"
        using "1.IH" [OF l1 refl _ buf, of r st'] ix None "1.prems"(1) d(2) by auto
      have "read_parts ix_fn st dx = Inr (buf @ take (len st' d) d, dx')"
        using l1 buf ix None dx'(1) by (subst read_parts.simps) simp
      then show ?thesis using dx'(2,3) len d(1) by (intro exI [of _ dx']) simp
    next
      case (Some i)
      have len: "len st data = i" "i \<le> length buf" using cut ix Some d(1) by simp_all
      show ?thesis
      proof (cases "i = length buf")
        case True
        then have "read_parts ix_fn st dx = Inr (buf, dx1\<lparr>dx_buf := None\<rparr>)"
          using l1 buf ix Some by (subst read_parts.simps) simp
        then show ?thesis using True len d(1,2) by (intro exI [of _ "dx1\<lparr>dx_buf := None\<rparr>"]) simp
      next
        case False
        then have "read_parts ix_fn st dx = Inr (take i buf, dx1\<lparr>dx_buf := Some (drop i buf)\<rparr>)"
          using l1 buf ix Some by (subst read_parts.simps) simp
        moreover have "drop i buf \<noteq> []" using False len(2) by simp
        ultimately show ?thesis using False len d(1) d(3) [of "drop i buf"]
          by (intro exI [of _ "dx1\<lparr>dx_buf := Some (drop i buf)\<rparr>"]) simp
      qed
    qed
  qed
qed

lemma readline_index:
  "readline s = (case index_of (CHR 0x0a) s of None \<Rightarrow> (s, []) | Some i \<Rightarrow> (take (i + 1) s, drop (i + 1) s))"
  by (induction s) (auto split: option.splits)

lemma index_of_less: "index_of c s = Some i \<Longrightarrow> i < length s"
  by (induction s arbitrary: i) (auto split: if_splits)

lemma index_of_prefix:
  "index_of c (s @ d) = (case index_of c s of Some i \<Rightarrow> Some i | None \<Rightarrow> map_option ((+) (length s)) (index_of c d))"
  by (induction s; cases "index_of c d") (auto split: option.splits)

definition line_len :: "unit \<Rightarrow> bytes \<Rightarrow> nat" where
  "line_len u s = (case index_of (CHR 0x0a) s of None \<Rightarrow> length s | Some i \<Rightarrow> i + 1)"

lemma cuts_readers: "cuts until_size (\<lambda>n _. n)" "cuts find_eol line_len"
  by (auto simp: cuts_def until_size_def find_eol_def line_len_def index_of_prefix
      dest: index_of_less split: option.splits)

text \<open>C17: a multiplexed connection reads like a file: while \<open>data\<close> is what it still has to give,
  \<open>read(n)\<close> returns the next \<open>n\<close> bytes (fewer at the end), \<open>readline\<close> the next line, and both leave
  the rest to be read, however the packets and the reads of the descriptor are cut; the end of the
  data is reached only after the whole standard error was passed on.\<close>

theorem demux_reads_like_a_file:
  assumes "dx_gives dx data err"
  shows "(\<exists>dx'. demux_read n dx = Inr (take n data, dx') \<and> dx_gives dx' (drop n data) err \<and>
      (length data < n \<longrightarrow> dx_stderr dx' = err)) \<and>
    (\<exists>dx'. demux_readline dx = Inr (fst (readline data), dx') \<and> dx_gives dx' (snd (readline data)) err)"
proof (intro conjI)
  show "\<exists>dx'. demux_read n dx = Inr (take n data, dx') \<and> dx_gives dx' (drop n data) err \<and>
      (length data < n \<longrightarrow> dx_stderr dx' = err)"
    unfolding demux_read_def using read_parts_ok [OF cuts_readers(1) assms] .
  have "take (line_len () data) data = fst (readline data)" "drop (line_len () data) data = snd (readline data)"
    by (auto simp: line_len_def readline_index split: option.splits)
  then show "\<exists>dx'. demux_readline dx = Inr (fst (readline data), dx') \<and> dx_gives dx' (snd (readline data)) err"
    unfolding demux_readline_def using read_parts_ok [OF cuts_readers(2) assms, of "()"] by auto
qed

text \<open>What a server wrote to each of its descriptors.\<close>

fun written_out :: "mux_read list \<Rightarrow> bytes" where
  "written_out [] = []"
| "written_out (Outr b # rs) = (if b = [] then [] else b @ written_out rs)"
| "written_out (Errr b # rs) = written_out rs"

fun written_err :: "mux_read list \<Rightarrow> bytes" where
  "written_err [] = []"
| "written_err (Errr b # rs) = (if b = [] then [] else b @ written_err rs)"
| "written_err (Outr b # rs) = written_err rs"

definition read_len :: "mux_read \<Rightarrow> nat" where
  "read_len r = (case r of Outr b \<Rightarrow> length b | Errr b \<Rightarrow> length b)"

lemma packet_simps:
  "packet_bytes (POut b) = packet 1 b" "packet_bytes (PErr b) = packet 2 b"
  "packet_len (POut b) = length b" "packet_len (PErr b) = length b" "read_len (Outr b) = length b" "read_len (Errr b) = length b"
  by (simp_all add: packet_bytes_def packet_len_def read_len_def)

lemma mux_loop_packets:
  assumes "mux_loop outr errr rs = Some s" "\<forall>r\<in>set rs. read_len r \<le> MAX_PACKET"
  shows "\<exists>ps. s = concat (map packet_bytes ps) \<and> (\<forall>p\<in>set ps. packet_len p \<le> MAX_PACKET) \<and>
    out_of ps = (if outr then written_out rs else []) \<and> err_of ps = (if errr then written_err rs else [])"
  using assms
proof (induction outr errr rs arbitrary: s rule: mux_loop.induct)
  case (1 outr errr rs)
  show ?case
  proof (cases "\<not> outr \<and> \<not> errr")
    case True
    then have "s = []" using "1.prems"(1) by (subst (asm) mux_loop.simps) simp
    then show ?thesis using True by (intro exI [of _ "[]"]) simp
  next
    case False
    then obtain r rs' where rs: "rs = r # rs'"
      using "1.prems"(1) by (subst (asm) mux_loop.simps) (auto split: list.splits)
    have small: "read_len r \<le> MAX_PACKET" "\<forall>r\<in>set rs'. read_len r \<le> MAX_PACKET" using "1.prems"(2) rs by auto
    show ?thesis
    proof (cases r)
      case (Outr b)
      have step: "mux_loop outr errr rs = (if \<not> outr then mux_loop outr errr rs'
           else if b = [] then mux_loop False errr rs' else map_option ((@) (packet 1 b)) (mux_loop outr errr rs'))"
        using False rs Outr by (subst mux_loop.simps) auto
      consider "\<not> outr" | "outr" "b = []" | "outr" "b \<noteq> []" by blast
      then show ?thesis
      proof cases
        case 1
        then show ?thesis using "1.IH"(1) [OF False rs Outr 1, of s] "1.prems"(1) small rs Outr step by (cases errr) simp_all
      next
        case 2
        then show ?thesis using "1.IH"(2) [OF False rs Outr _ 2(2), of s] "1.prems"(1) small rs Outr step 2 by (cases errr) simp_all
      next
        case 3
        then obtain s' where s': "mux_loop outr errr rs' = Some s'" "s = packet 1 b @ s'"
          using "1.prems"(1) step by (cases "mux_loop outr errr rs'") auto
        obtain ps where "s' = concat (map packet_bytes ps)" "\<forall>p\<in>set ps. packet_len p \<le> MAX_PACKET"
          "out_of ps = written_out rs'" "err_of ps = (if errr then written_err rs' else [])"
          using "1.IH"(3) [OF False rs Outr _ 3(2) s'(1)] small 3(1) by auto
        then show ?thesis
          using s'(2) small(1) 3 rs Outr by (intro exI [of _ "POut b # ps"]) (simp add: packet_simps)
      qed
    next
      case (Errr b)
      have step: "mux_loop outr errr rs = (if \<not> errr then mux_loop outr errr rs'
           else if b = [] then mux_loop outr False rs' else map_option ((@) (packet 2 b)) (mux_loop outr errr rs'))"
        using False rs Errr by (subst mux_loop.simps) auto
      consider "\<not> errr" | "errr" "b = []" | "errr" "b \<noteq> []" by blast
      then show ?thesis
      proof cases
        case 1
        then show ?thesis using "1.IH"(4) [OF False rs Errr 1, of s] "1.prems"(1) small rs Errr step by (cases outr) simp_all
      next
        case 2
        then show ?thesis using "1.IH"(5) [OF False rs Errr _ 2(2), of s] "1.prems"(1) small rs Errr step 2 by (cases outr) simp_all
      next
        case 3
        then obtain s' where s': "mux_loop outr errr rs' = Some s'" "s = packet 2 b @ s'"
          using "1.prems"(1) step by (cases "mux_loop outr errr rs'") auto
        obtain ps where "s' = concat (map packet_bytes ps)" "\<forall>p\<in>set ps. packet_len p \<le> MAX_PACKET"
          "err_of ps = written_err rs'" "out_of ps = (if outr then written_out rs' else [])"
          using "1.IH"(6) [OF False rs Errr _ 3(2) s'(1)] small 3(1) by auto
        then show ?thesis
          using s'(2) small(1) 3 rs Errr by (intro exI [of _ "PErr b # ps"]) (simp add: packet_simps)
      qed
    qed
  qed
qed

text \<open>The noise before the session must not hold the sync string.\<close>

definition synced :: "bytes \<Rightarrow> bool" where
  "synced noise \<longleftrightarrow> (\<forall>a b. noise @ ''BUPMUX'' = a @ ''BUPMUX'' @ b \<longrightarrow> b = [])"

lemma demux_sync_ok:
  assumes "synced noise" "fd_ok infd" "err @ t @ concat infd = noise @ ''BUPMUX'' @ post"
    "length t \<le> 6" "length t < 6 \<longrightarrow> err = []" "length err + length t \<le> length noise + 6"
  shows "\<exists>infd'. demux_sync t infd err = Inr (infd', noise) \<and> concat infd' = post \<and> fd_ok infd'"
  using assms(2-)
proof (induction t infd err rule: demux_sync.induct)
  case (1 t infd err)
  have total: "err @ t @ concat infd = (noise @ ''BUPMUX'') @ post" using "1.prems"(2) by simp
  have cons: "take (length noise + 6 - (length err + length t)) (concat infd) @ post = concat infd" and
    split: "(err @ t) @ take (length noise + 6 - (length err + length t)) (concat infd) = noise @ ''BUPMUX''"
  proof -
    let ?n = "length noise + 6"
    have "take ?n (err @ t @ concat infd) = noise @ ''BUPMUX''" unfolding total by simp
    moreover have "take ?n (err @ t @ concat infd) = (err @ t) @ take (?n - (length err + length t)) (concat infd)"
      using "1.prems"(5) by simp
    ultimately show s: "(err @ t) @ take (?n - (length err + length t)) (concat infd) = noise @ ''BUPMUX''" by simp
    then show "take (?n - (length err + length t)) (concat infd) @ post = concat infd"
      using total by (metis append.assoc same_append_eq)
  qed
  show ?case
  proof (cases "t = ''BUPMUX''")
    case True
    then have w: "take (length noise + 6 - (length err + length t)) (concat infd) = []"
      using split assms(1) unfolding synced_def by (metis append.assoc)
    have "concat infd = post" "err @ t = noise @ ''BUPMUX''"
      using cons [unfolded w] split [unfolded w] by simp_all
    then show ?thesis using True "1.prems"(1) by (subst demux_sync.simps) simp
  next
    case False
    have lt: "length err + length t < length noise + 6"
    proof (rule ccontr)
      assume "\<not> length err + length t < length noise + 6"
      then have e: "length err + length t = length noise + 6" using "1.prems"(5) by simp
      then have "err @ t = noise @ ''BUPMUX''" using split by simp
      moreover have "length t = 6" using "1.prems"(3,4) e by (cases "length t < 6") auto
      ultimately show False using False by simp
    qed
    define k where "k = (if length t < 6 then 6 - length t else 1)"
    have k: "0 < k" by (simp add: k_def)
    obtain b infd' where r: "os_read k infd = (b, infd')" by fastforce
    note c = os_read_cases [OF r]
    have "length err + length t + length (take (length noise + 6 - (length err + length t)) (concat infd)) = length noise + 6"
      using arg_cong [OF split, of length] by (simp del: length_take)
    then have "0 < length (take (length noise + 6 - (length err + length t)) (concat infd))" using lt by linarith
    then have "infd \<noteq> []" by auto
    then have b: "b \<noteq> []" using c(4) "1.prems"(1) k by simp
    define t' where "t' = drop (length (t @ b) - 6) (t @ b)"
    define err' where "err' = err @ take (length (t @ b) - 6) (t @ b)"
    have et: "err' @ t' = err @ t @ b"
      unfolding err'_def t'_def append_assoc append_take_drop_id ..
    have step: "demux_sync t infd err = demux_sync t' infd' err'"
      using False r b by (subst demux_sync.simps) (simp add: Let_def k_def t'_def err'_def)
    have l: "length err' + length t' = length err + length t + length b" using et by (metis length_append add.assoc)
    have bound: "length err' + length t' \<le> length noise + 6"
    proof (cases "length t < 6")
      case True
      then have "err = []" "length b \<le> 6 - length t" using "1.prems"(4) c(2) by (simp_all add: k_def)
      then show ?thesis using l True by simp
    next
      case False
      then have "length b \<le> 1" using c(2) by (simp add: k_def)
      then show ?thesis using l lt by simp
    qed
    have e1: "err' @ t' @ concat infd' = noise @ ''BUPMUX'' @ post"
      using "1.prems"(2) et c(1) by (metis append.assoc)
    have e2: "length t' < 6 \<longrightarrow> err' = []"
      using "1.prems"(3,4) b by (cases "length t < 6") (auto simp: t'_def err'_def Suc_le_eq length_greater_0_conv [symmetric] simp del: length_greater_0_conv)
    have e3: "length t' \<le> 6" by (simp add: t'_def)
    have ok: "fd_ok infd'" using c(3) "1.prems"(1) .
    note IH = "1.IH" [OF False r [unfolded k_def, symmetric] b refl, folded t'_def err'_def]
    show ?thesis unfolding step by (rule IH [OF ok e1 e3 e2 bound])
  qed
qed

text \<open>C29: a session of \<open>mux\<close>, read by \<open>DemuxConn\<close> however the descriptor's reads are cut, gives exactly
  what the server wrote to its standard output, and passes on its standard error between what came
  before the session and what comes after it.  Nothing sent before may contain the sync string.\<close>

theorem mux_demux_roundtrip:
  assumes "mux rs = Some s" "\<forall>r\<in>set rs. read_len r \<le> MAX_PACKET"
    and "fd_ok infd" "concat infd = noise @ s @ trailing" "synced noise" "length (written_out rs) < n"
  shows "\<exists>dx dx'. demux_init infd = Inr dx \<and> demux_read n dx = Inr (written_out rs, dx') \<and>
    dx_stderr dx' = noise @ written_err rs @ trailing"
proof -
  obtain s' where s': "mux_loop True True rs = Some s'" "s = ''BUPMUX'' @ s' @ session_end"
    using assms(1) by (auto simp: mux_def session_end_def)
  obtain ps where ps: "s' = concat (map packet_bytes ps)" "\<forall>p\<in>set ps. packet_len p \<le> MAX_PACKET"
    "out_of ps = written_out rs" "err_of ps = written_err rs"
    using mux_loop_packets [OF s'(1) assms(2)] by auto
  have c: "[] @ [] @ concat infd = noise @ ''BUPMUX'' @ (concat (map packet_bytes ps) @ session_end @ trailing)"
    using assms(4) s'(2) ps(1) by simp
  obtain infd' where i: "demux_sync [] infd [] = Inr (infd', noise)"
    "concat infd' = concat (map packet_bytes ps) @ session_end @ trailing" "fd_ok infd'"
    using demux_sync_ok [OF assms(5,3) c] by auto
  let ?dx = "\<lparr>dx_infd = infd', dx_reader = None, dx_buf = None, dx_closed = False, dx_stderr = noise\<rparr>"
  have "dx_gives ?dx (written_out rs) (noise @ written_err rs @ trailing)"
    by (rule dx_givesI [of _ "[]" ps trailing]) (use i ps in simp_all)
  from read_parts_ok [OF cuts_readers(1) this, of n] obtain dx' where
    "read_parts until_size n ?dx = Inr (take n (written_out rs), dx')"
    "length (written_out rs) < n \<longrightarrow> dx_stderr dx' = noise @ written_err rs @ trailing" by blast
  then have "demux_read n ?dx = Inr (written_out rs, dx')" "dx_stderr dx' = noise @ written_err rs @ trailing"
    using assms(6) by (simp_all add: demux_read_def)
  moreover have "demux_init infd = Inr ?dx" by (simp add: demux_init_def i(1))
  ultimately show ?thesis by blast
qed

definition witness_reads :: "mux_read list" where
  "witness_reads = [Outr ''ab'', Errr ''log'', Outr ''c'', Errr [], Outr []]"

definition witness_stream :: bytes where
  "witness_stream = ''hi'' @ the (mux witness_reads) @ ''bye''"

theorem mux_demux_roundtrip_witness:
  "\<exists>dx dx'. demux_init [take 5 witness_stream, drop 5 witness_stream] = Inr dx \<and>
     demux_read 100 dx = Inr (''abc'', dx') \<and> dx_stderr dx' = ''hilogbye''"
proof -
  have m: "mux witness_reads = Some (the (mux witness_reads))" by code_simp
  have l: "\<forall>r\<in>set witness_reads. read_len r \<le> MAX_PACKET"
    by (simp add: witness_reads_def packet_simps MAX_PACKET_def)
  have f: "fd_ok [take 5 witness_stream, drop 5 witness_stream]" by code_simp
  have c: "concat [take 5 witness_stream, drop 5 witness_stream] = ''hi'' @ the (mux witness_reads) @ ''bye''"
    by (simp only: concat.simps append_Nil2 append_take_drop_id) (simp only: witness_stream_def)
  have sync: "synced ''hi''"
  proof -
    have "b = []" if e: "''hi'' @ ''BUPMUX'' = a @ ''BUPMUX'' @ b" for a b
    proof -
      have "length a + length b = 2" using arg_cong [OF e, of length] by simp
      then consider "length a = 0" | "length a = 1" | "length b = 0" by linarith
      then show ?thesis using e by cases (auto simp: length_Suc_conv)
    qed
    then show ?thesis unfolding synced_def by blast
  qed
  have w: "written_out witness_reads = ''abc''" "written_err witness_reads = ''log''" by code_simp+
  have n: "length (written_out witness_reads) < 100" by (simp add: w)
  from mux_demux_roundtrip [OF m l f c sync n] show ?thesis unfolding w by simp
qed

theorem demux_reads_like_a_file_witness:
  "\<exists>dx'. demux_readline \<lparr>dx_infd = [packet 2 ''e'' @ session_end], dx_reader = None, dx_buf = Some [CHR ''a'', CHR 0x0a, CHR ''b''],
      dx_closed = False, dx_stderr = []\<rparr> = Inr ([CHR ''a'', CHR 0x0a], dx') \<and> dx_gives dx' ''b'' ''e''"
proof -
  let ?dx = "\<lparr>dx_infd = [packet 2 ''e'' @ session_end], dx_reader = None, dx_buf = Some [CHR ''a'', CHR 0x0a, CHR ''b''],
      dx_closed = False, dx_stderr = []\<rparr>"
  have "dx_gives ?dx [CHR ''a'', CHR 0x0a, CHR ''b''] ''e''"
    by (rule dx_givesI [of _ "[]" "[PErr ''e'']" "[]"])
      (simp_all add: packet_simps MAX_PACKET_def fd_ok_def packet_def)
  from demux_reads_like_a_file [OF this, THEN conjunct2] show ?thesis by simp
qed

section \<open>Replies\<close>

text \<open>
  \<open>ok\<close> and \<open>error\<close> write a reply; \<open>_check_ok\<close> reads one from a stream that is its unread bytes.
  A \<open>NotOk\<close> is returned, not raised.  Messages are bytes: the \<open>utf-8\<close> coding with escapes and its
  inverse are left out.
\<close>

definition write_ok :: bytes where
  "write_ok = CHR 0x0a # ''ok'' @ [CHR 0x0a]"

definition regex_space :: bytes where
  "regex_space = [CHR '' '', CHR 0x09, CHR 0x0a, CHR 0x0b, CHR 0x0c, CHR 0x0d]"

fun squash_space :: "bool \<Rightarrow> bytes \<Rightarrow> bytes" where
  "squash_space inside [] = []"
| "squash_space inside (c # cs) =
     (if c \<in> set regex_space then (if inside then squash_space True cs else CHR '' '' # squash_space True cs)
      else c # squash_space False cs)"

definition write_error :: "bytes \<Rightarrow> bytes" where
  "write_error s = CHR 0x0a # ''error '' @ squash_space False s @ [CHR 0x0a]"

fun check_lines :: "bool \<Rightarrow> bytes list \<Rightarrow> bytes option res" where
  "check_lines drain' [] = Inl (Exc ''server exited unexpectedly'')"
| "check_lines drain' (rl # rls) =
     (if rl = [] then check_lines drain' rls
      else if rl = ''ok'' then Inr None
      else if prefix ''error '' rl then Inr (Some (drop 6 rl))
      else if drain' then check_lines drain' rls
      else Inl (Exc ''expected \"ok\"''))"

definition check_ok :: "bytes \<Rightarrow> bytes option res" where
  "check_ok inp = check_lines False (linereader inp)"

definition drain_and_check_ok :: "bytes \<Rightarrow> bytes option res" where
  "drain_and_check_ok inp = check_lines True (linereader inp)"

lemma readline_line: "CHR 0x0a \<notin> set l \<Longrightarrow> readline (l @ CHR 0x0a # r) = (l @ [CHR 0x0a], r)"
  by (induction l) auto

lemma linereader_line: "CHR 0x0a \<notin> set l \<Longrightarrow> linereader (l @ CHR 0x0a # r) = l # linereader r"
  using readline_line [of l r] by (subst linereader.simps) simp

lemma squash_no_newline: "CHR 0x0a \<notin> set (squash_space inside s)"
  by (induction inside s rule: squash_space.induct) (auto simp: regex_space_def)

text \<open>C30: replies are read back: after any complete lines that are no reply (and, for \<open>check_ok\<close>,
  empty), \<open>ok\<close> is read as success and \<open>error s\<close> as \<open>NotOk\<close> with \<open>s\<close>, its white space squashed.\<close>

theorem replies_roundtrip:
  assumes "\<forall>l\<in>set ls. CHR 0x0a \<notin> set l \<and> l \<noteq> ''ok'' \<and> \<not> prefix ''error '' l"
  shows "drain_and_check_ok (concat (map (\<lambda>l. l @ [CHR 0x0a]) ls) @ write_ok @ rest) = Inr None \<and>
    drain_and_check_ok (concat (map (\<lambda>l. l @ [CHR 0x0a]) ls) @ write_error s @ rest) = Inr (Some (squash_space False s)) \<and>
    check_ok (write_ok @ rest) = Inr None \<and> check_ok (write_error s @ rest) = Inr (Some (squash_space False s))"
proof -
  have ok: "linereader (write_ok @ rest) = [] # ''ok'' # linereader rest"
    using linereader_line [of "[]" "''ok'' @ CHR 0x0a # rest"] linereader_line [of "''ok''" rest]
    by (simp add: write_ok_def)
  have "CHR 0x0a \<notin> set (''error '' @ squash_space False s)" using squash_no_newline by simp
  from linereader_line [OF this, of rest]
  have err: "linereader (write_error s @ rest) = [] # (''error '' @ squash_space False s) # linereader rest"
    using linereader_line [of "[]" "''error '' @ squash_space False s @ CHR 0x0a # rest"]
    by (simp add: write_error_def)
  have ne: "''error '' @ squash_space False s \<noteq> ''ok''" by simp
  have pre: "check_lines True (linereader (concat (map (\<lambda>l. l @ [CHR 0x0a]) ls) @ r)) = check_lines True (linereader r)" for r
    using assms
  proof (induction ls)
    case (Cons l ls)
    then show ?case using linereader_line [of l "concat (map (\<lambda>l. l @ [CHR 0x0a]) ls) @ r"] by simp
  qed simp
  show ?thesis
    unfolding drain_and_check_ok_def check_ok_def pre ok err by simp
qed

theorem replies_roundtrip_witness:
  "drain_and_check_ok (''noise'' @ [CHR 0x0a] @ write_error ''no  such'' @ ''x'') = Inr (Some ''no such'')"
proof -
  have "\<forall>l\<in>set [''noise'']. CHR 0x0a \<notin> set l \<and> l \<noteq> ''ok'' \<and> \<not> prefix ''error '' l" by code_simp
  moreover have "squash_space False ''no  such'' = ''no such''" by code_simp
  ultimately show ?thesis using replies_roundtrip [of "[''noise'']" "''x''" "''no  such''"] by simp
qed

end
