(* ===== verification/Msg_Enc.thy ===== *)
theory Msg_Enc
  imports Py_Bytes
begin

text \<open>
  Messages and shell quoting, from \<open>lib/bup/io.py\<close>: \<open>enc_sh\<close> for bytes, \<open>enc_shs\<close> for strings, and
  what is built on them.  A Python string is the list of its code points.
\<close>

section \<open>Bytes\<close>

definition hex_escape :: "nat \<Rightarrow> bytes" where
  "hex_escape i = [CHR 0x5C, CHR ''x''] @ zero_pad 2 (show_base 16 i)"

definition enc_sh_map :: "nat \<Rightarrow> bytes option" where
  "enc_sh_map i =
     (if i < 7 then Some (hex_escape i)
      else if i = 7 then Some [CHR 0x5C, CHR ''a'']
      else if i = 8 then Some [CHR 0x5C, CHR ''b'']
      else if i = 9 then Some [CHR 0x5C, CHR ''t'']
      else if i = 10 then Some [CHR 0x5C, CHR ''n'']
      else if i = 11 then Some [CHR 0x5C, CHR ''v'']
      else if i = 12 then Some [CHR 0x5C, CHR ''f'']
      else if i = 13 then Some [CHR 0x5C, CHR ''r'']
      else if i < 27 then Some (hex_escape i)
      else if i = 27 then Some [CHR 0x5C, CHR ''e'']
      else if i < 32 then Some (hex_escape i)
      else if i = 39 then Some [CHR 0x5C, CHR 0x27]
      else if i = 92 then Some [CHR 0x5C, CHR 0x5C]
      else if 127 \<le> i \<and> i < 256 then Some (hex_escape i)
      else None)"

text \<open>The loop of \<open>enc_dsq\<close>; \<open>part\<close> is \<open>val[part_start:i]\<close>.\<close>

fun enc_dsq_loop :: "bytes \<Rightarrow> bytes \<Rightarrow> bytes list" where
  "enc_dsq_loop part [] = (if part \<noteq> [] then [part] else [])"
| "enc_dsq_loop part (b # val) =
     (case enc_sh_map (of_char b) of
        Some enc \<Rightarrow> (if part \<noteq> [] then [part] else []) @ enc # enc_dsq_loop [] val
      | None \<Rightarrow> enc_dsq_loop (part @ [b]) val)"

definition enc_dsq :: "bytes \<Rightarrow> bytes" where
  "enc_dsq val = concat ([CHR ''$'', CHR 0x27] # enc_dsq_loop [] val @ [[CHR 0x27]])"

definition needs_sq :: bytes where
  "needs_sq = [CHR ''|'', CHR ''&'', CHR '';'', CHR ''<'', CHR ''>'', CHR ''('', CHR '')'', CHR ''$'', CHR 0x60, CHR 0x5C,
     CHR 0x22, CHR '' '', CHR 0x09, CHR ''*'', CHR ''?'', CHR ''['', CHR '']'', CHR ''^'', CHR ''!'', CHR ''#'', CHR ''~'',
     CHR ''='', CHR ''%'', CHR ''{'', CHR '','', CHR ''}'']"

definition needs_dsq :: "char \<Rightarrow> bool" where
  "needs_dsq c \<longleftrightarrow> of_char c < (32 :: nat) \<or> (127 :: nat) \<le> of_char c \<or> c = CHR 0x27"

text \<open>The scan of \<open>enc_sh\<close> stops at the first byte that needs \<open>$'...'\<close>: \<open>need_sq\<close>, \<open>need_dsq\<close>.\<close>

fun scan_sh :: "bool \<Rightarrow> bytes \<Rightarrow> bool \<times> bool" where
  "scan_sh need_sq [] = (need_sq, False)"
| "scan_sh need_sq (c # val) =
     (if needs_dsq c then (need_sq, True) else scan_sh (need_sq \<or> c \<in> set needs_sq) val)"

definition enc_sh :: "bytes \<Rightarrow> bytes" where
  "enc_sh val =
     (if val = [] then [CHR 0x27, CHR 0x27]
      else case scan_sh False val of (need_sq, need_dsq) \<Rightarrow>
        if need_dsq then enc_dsq val
        else if need_sq then CHR 0x27 # val @ [CHR 0x27]
        else val)"

section \<open>Strings\<close>

type_synonym pystr = "nat list"

definition ascii :: "bytes \<Rightarrow> pystr" where
  "ascii s = map of_char s"

fun enc_dsqs_loop :: "pystr \<Rightarrow> pystr \<Rightarrow> pystr list" where
  "enc_dsqs_loop part [] = (if part \<noteq> [] then [part] else [])"
| "enc_dsqs_loop part (b # val) =
     (case (if b < 128 then map_option ascii (enc_sh_map b)
            else if 0xdc80 \<le> b \<and> b \<le> 0xdcff then Some (ascii (hex_escape (128 + (b - 0xdc80))))
            else None) of
        Some enc \<Rightarrow> (if part \<noteq> [] then [part] else []) @ enc # enc_dsqs_loop [] val
      | None \<Rightarrow> enc_dsqs_loop (part @ [b]) val)"

definition enc_dsqs :: "pystr \<Rightarrow> pystr" where
  "enc_dsqs val = concat (ascii [CHR ''$'', CHR 0x27] # enc_dsqs_loop [] val @ [ascii [CHR 0x27]])"

definition needs_dsqs :: "nat \<Rightarrow> bool" where
  "needs_dsqs c \<longleftrightarrow> c < 32 \<or> c = 39 \<or> c = 127 \<or> (0xdc80 \<le> c \<and> c \<le> 0xdcff)"

fun scan_shs :: "bool \<Rightarrow> pystr \<Rightarrow> bool \<times> bool" where
  "scan_shs need_sq [] = (need_sq, False)"
| "scan_shs need_sq (c # val) =
     (if needs_dsqs c then (need_sq, True) else scan_shs (need_sq \<or> c \<in> set (ascii needs_sq)) val)"

definition enc_shs :: "pystr \<Rightarrow> pystr" where
  "enc_shs val =
     (if val = [] then ascii [CHR 0x27, CHR 0x27]
      else case scan_shs False val of (need_sq, need_dsq) \<Rightarrow>
        if need_dsq then enc_dsqs val
        else if need_sq then ascii [CHR 0x27] @ val @ ascii [CHR 0x27]
        else val)"

text \<open>\<open>fsdecode\<close> is Python's, from bytes to code points.\<close>

definition path_msg :: "(bytes \<Rightarrow> pystr) \<Rightarrow> bytes \<Rightarrow> pystr" where
  "path_msg fsdecode x = enc_shs (fsdecode x)"

definition cmd_msg :: "(bytes \<Rightarrow> pystr) \<Rightarrow> (bytes + pystr) list \<Rightarrow> pystr" where
  "cmd_msg fsdecode cmd =
     join (ascii '' '') (map (\<lambda>x. enc_shs (case x of Inl b \<Rightarrow> fsdecode b | Inr s \<Rightarrow> s)) cmd)"

record walk_name =
  wn_name :: bytes
  wn_commit :: bool
  wn_dir :: bool

text \<open>The last commit of the path, counted from its start.\<close>

fun last_commit :: "walk_name list \<Rightarrow> nat option" where
  "last_commit [] = None"
| "last_commit (x # xs) =
     (case last_commit xs of Some i \<Rightarrow> Some (Suc i) | None \<Rightarrow> if wn_commit x then Some 0 else None)"

text \<open>
  The code finds the commit with an index from the end, \<open>root < 0\<close>; \<open>path_top = root + 2\<close> is then an
  index from the end too, and 0 or 1, an index from the start, when the commit is one of the last two.
\<close>

definition walk_path_msg :: "(bytes \<Rightarrow> pystr) \<Rightarrow> bytes \<Rightarrow> walk_name list \<Rightarrow> pystr" where
  "walk_path_msg fsdecode ref_name item_path =
     (if length item_path = 1 then path_msg fsdecode (wn_name (hd item_path))
      else
        let n = int (length item_path);
            root = (case last_commit item_path of None \<Rightarrow> 0 | Some i \<Rightarrow> int i - n);
            path_top = (case last_commit item_path of None \<Rightarrow> 1 | Some i \<Rightarrow> root + 2);
            names = map wn_name (py_slice item_path path_top n);
            path = path_msg fsdecode (wn_name (item_path ! py_index item_path root)) @ ascii '':'' @
                   path_msg fsdecode (join ''/'' names)
        in path_msg fsdecode ref_name @ ascii '' '' @ path @ (if wn_dir (last item_path) then ascii ''/'' else []))"

fun double_char :: "nat \<Rightarrow> pystr \<Rightarrow> pystr" where
  "double_char q [] = []"
| "double_char q (c # cs) = (if c = q then q # q # double_char q cs else c # double_char q cs)"

definition qsql_id :: "pystr \<Rightarrow> pystr" where
  "qsql_id s = ascii [CHR 0x22] @ double_char 34 s @ ascii [CHR 0x22]"

definition qsql_str :: "pystr \<Rightarrow> pystr" where
  "qsql_str s = ascii [CHR 0x27] @ double_char 39 s @ ascii [CHR 0x27]"

section \<open>The shell reads the word back\<close>

text \<open>
  How a POSIX shell reads one word: \<open>$'...'\<close> with its escapes, \<open>'...'\<close>, or plain characters none of
  which is special.
\<close>

definition hex_value :: "char \<Rightarrow> nat option" where
  "hex_value c = (case char_digit c of None \<Rightarrow> None | Some d \<Rightarrow> if d < 16 then Some d else None)"

definition dsq_escape :: "char \<Rightarrow> char option" where
  "dsq_escape e =
     map_of [(CHR ''a'', CHR 0x07), (CHR ''b'', CHR 0x08), (CHR ''t'', CHR 0x09), (CHR ''n'', CHR 0x0a), (CHR ''v'', CHR 0x0b),
       (CHR ''f'', CHR 0x0c), (CHR ''r'', CHR 0x0d), (CHR ''e'', CHR 0x1b), (CHR 0x27, CHR 0x27), (CHR 0x5C, CHR 0x5C)] e"

fun dsq_decode :: "bytes \<Rightarrow> bytes option" where
  "dsq_decode [] = None"
| "dsq_decode (c # cs) =
     (if c = CHR 0x27 then (if cs = [] then Some [] else None)
      else if c = CHR 0x5C then
        (case cs of
           [] \<Rightarrow> None
         | e # cs' \<Rightarrow>
             if e = CHR ''x'' then
               (case cs' of
                  a # b # r \<Rightarrow>
                    (case (hex_value a, hex_value b) of
                       (Some x, Some y) \<Rightarrow> map_option ((#) (char_of (16 * x + y))) (dsq_decode r)
                     | _ \<Rightarrow> None)
                | _ \<Rightarrow> None)
             else (case dsq_escape e of None \<Rightarrow> None | Some v \<Rightarrow> map_option ((#) v) (dsq_decode cs')))
      else map_option ((#) c) (dsq_decode cs))"

definition sh_word :: "bytes \<Rightarrow> bytes option" where
  "sh_word w =
     (if prefix [CHR ''$'', CHR 0x27] w then dsq_decode (drop 2 w)
      else if prefix [CHR 0x27] w then
        (if 2 \<le> length w \<and> last w = CHR 0x27 \<and> CHR 0x27 \<notin> set (butlast (tl w)) then Some (butlast (tl w)) else None)
      else if w \<noteq> [] \<and> (\<forall>c\<in>set w. \<not> needs_dsq c \<and> c \<notin> set needs_sq) then Some w
      else None)"

definition printable :: "char \<Rightarrow> bool" where
  "printable c \<longleftrightarrow> 32 \<le> (of_char c :: nat) \<and> (of_char c :: nat) < 127"

definition enc_char :: "char \<Rightarrow> bytes" where
  "enc_char c = (case enc_sh_map (of_char c) of Some e \<Rightarrow> e | None \<Rightarrow> [c])"

lemma enc_dsq_loop_concat: "concat (enc_dsq_loop part val) = part @ concat (map enc_char val)"
  by (induction part val rule: enc_dsq_loop.induct) (auto simp: enc_char_def split: option.splits)

text \<open>Every entry of the map is a plain character, a short escape or a hexadecimal one.\<close>

definition entry_form :: "nat \<Rightarrow> bool" where
  "entry_form n \<longleftrightarrow>
     (case enc_sh_map n of
        None \<Rightarrow> n \<noteq> 39 \<and> n \<noteq> 92 \<and> 32 \<le> n \<and> n < 127
      | Some s \<Rightarrow>
          list_all printable s \<and>
          (case s of
             [u, e] \<Rightarrow> u = CHR 0x5C \<and> e \<noteq> CHR ''x'' \<and> dsq_escape e = Some (char_of n)
           | [u, v, a, b] \<Rightarrow>
               u = CHR 0x5C \<and> v = CHR ''x'' \<and> hex_value a = Some (n div 16) \<and> hex_value b = Some (n mod 16)
           | _ \<Rightarrow> False))"

lemma hex_escape_digits:
  assumes "n < 256"
  shows "hex_escape n = [CHR 0x5C, CHR ''x'', digit_char (n div 16), digit_char (n mod 16)]"
proof (cases "n < 16")
  case True
  have "digit_char 0 = CHR ''0''" by code_simp
  then have "digit_char (n div 16) = CHR ''0''" using True by simp
  then show ?thesis using True by (simp add: hex_escape_def show_base.simps [of 16 n] zero_pad_def)
next
  case False
  then show ?thesis using assms
    by (simp add: hex_escape_def show_base.simps [of 16 n] show_base.simps [of 16 "n div 16"] zero_pad_def)
qed

lemma hex_value_digit: "d < 16 \<Longrightarrow> hex_value (digit_char d) = Some d \<and> printable (digit_char d)"
  using of_char_digit_char [of d] by (simp add: hex_value_def char_digit_digit_char printable_def)

lemma entry_form_hex: "n < 256 \<Longrightarrow> enc_sh_map n = Some (hex_escape n) \<Longrightarrow> entry_form n"
  using hex_value_digit [of "n div 16"] hex_value_digit [of "n mod 16"]
  by (simp add: entry_form_def hex_escape_digits printable_def)

lemma entry_forms:
  assumes "n < 256"
  shows "entry_form n"
proof (cases "n \<in> {7, 8, 9, 10, 11, 12, 13, 27, 39, 92}")
  case True
  have "entry_form 7" "entry_form 8" "entry_form 9" "entry_form 10" "entry_form 11" "entry_form 12" "entry_form 13"
    "entry_form 27" "entry_form 39" "entry_form 92" by code_simp+
  then show ?thesis using True by auto
next
  case False
  show ?thesis
  proof (cases "32 \<le> n \<and> n < 127")
    case True
    then have "enc_sh_map n = None" using False by (simp add: enc_sh_map_def)
    then show ?thesis using False True by (simp add: entry_form_def)
  next
    case other: False
    then have "enc_sh_map n = Some (hex_escape n)" using False assms by (simp add: enc_sh_map_def) linarith
    then show ?thesis using assms by (rule entry_form_hex [rotated])
  qed
qed

lemma enc_char_cases:
  obtains (plain) "enc_char c = [c]" "c \<noteq> CHR 0x27" "c \<noteq> CHR 0x5C" "printable c"
  | (short) e where "enc_char c = [CHR 0x5C, e]" "e \<noteq> CHR ''x''" "dsq_escape e = Some c" "printable e"
  | (hex) a b x y where "enc_char c = [CHR 0x5C, CHR ''x'', a, b]" "hex_value a = Some x" "hex_value b = Some y"
      "char_of (16 * x + y) = c" "printable a" "printable b"
proof -
  have "(of_char c :: nat) < 256" by (rule nat_of_char_less_256)
  from entry_forms [OF this] have f: "entry_form (of_char c)" .
  show ?thesis
  proof (cases "enc_sh_map (of_char c)")
    case None
    then have "c \<noteq> CHR 0x27" "c \<noteq> CHR 0x5C" "printable c" "enc_char c = [c]"
      using f by (auto simp: entry_form_def printable_def enc_char_def)
    then show ?thesis using plain by blast
  next
    case (Some s)
    then have enc: "enc_char c = s" by (simp add: enc_char_def)
    consider (two) u e where "s = [u, e]" | (four) u v a b where "s = [u, v, a, b]"
    proof -
      have "case s of [u, e] \<Rightarrow> True | [u, v, a, b] \<Rightarrow> True | _ \<Rightarrow> False"
        using f [unfolded entry_form_def Some option.case] by (elim conjE) (simp split: list.splits)
      then show ?thesis using that by (simp split: list.splits)
    qed
    then show ?thesis
    proof cases
      case two
      then show ?thesis using f Some enc by (intro short [of e]) (simp_all add: entry_form_def)
    next
      case four
      have "(of_char c :: nat) = 16 * (of_char c div 16) + of_char c mod 16" by simp
      then have "char_of (16 * (of_char c div 16) + of_char c mod 16 :: nat) = c" by simp
      then show ?thesis using f Some enc four
        by (intro hex [of a b "of_char c div 16" "of_char c mod 16"]) (simp_all add: entry_form_def)
    qed
  qed
qed

lemma dsq_decode_enc_char: "dsq_decode (enc_char c @ r) = map_option ((#) c) (dsq_decode r)"
  by (cases c rule: enc_char_cases) auto

lemma dsq_decode_enc: "dsq_decode (concat (map enc_char val) @ [CHR 0x27]) = Some val"
  by (induction val) (simp_all add: dsq_decode_enc_char)

lemma enc_char_printable: "x \<in> set (enc_char c) \<Longrightarrow> printable x"
  by (cases c rule: enc_char_cases) (auto simp: printable_def)

lemma scan_sh_ok:
  "scan_sh n val = (n', False) \<Longrightarrow> (\<forall>c\<in>set val. \<not> needs_dsq c) \<and> (\<not> n' \<longrightarrow> \<not> n \<and> (\<forall>c\<in>set val. c \<notin> set needs_sq))"
  by (induction n val rule: scan_sh.induct) (auto split: if_splits)

lemma enc_sh_ok:
  "sh_word (enc_sh val) = Some val \<and> enc_sh val \<noteq> [] \<and> (\<forall>c\<in>set (enc_sh val). printable c)"
proof (cases "val = []")
  case True
  then show ?thesis by (simp add: enc_sh_def sh_word_def printable_def)
next
  case ne: False
  obtain sq dsq where sc: "scan_sh False val = (sq, dsq)" by fastforce
  show ?thesis
  proof (cases dsq)
    case True
    then have e: "enc_sh val = CHR ''$'' # CHR 0x27 # concat (map enc_char val) @ [CHR 0x27]"
      using sc ne by (simp add: enc_sh_def enc_dsq_def enc_dsq_loop_concat)
    have "sh_word (enc_sh val) = Some val" unfolding e by (simp add: sh_word_def dsq_decode_enc)
    moreover have "\<forall>c\<in>set (enc_sh val). printable c"
      unfolding e using enc_char_printable by (auto simp: printable_def)
    ultimately show ?thesis by (simp add: e)
  next
    case False
    then have p: "\<forall>c\<in>set val. \<not> needs_dsq c" "\<not> sq \<Longrightarrow> \<forall>c\<in>set val. c \<notin> set needs_sq"
      using scan_sh_ok [of False val sq] sc by auto
    have "\<not> needs_dsq c \<Longrightarrow> printable c \<and> c \<noteq> CHR 0x27" for c
      by (simp add: needs_dsq_def printable_def not_less not_le)
    then have pr: "\<forall>c\<in>set val. printable c" "CHR 0x27 \<notin> set val" using p(1) by blast+
    show ?thesis
    proof (cases sq)
      case True
      then have e: "enc_sh val = CHR 0x27 # val @ [CHR 0x27]" using sc ne False by (simp add: enc_sh_def)
      then show ?thesis using pr by (auto simp: sh_word_def printable_def)
    next
      case nsq: False
      then have e: "enc_sh val = val" using sc ne False by (simp add: enc_sh_def)
      have "\<not> prefix [CHR ''$'', CHR 0x27] val" "\<not> prefix [CHR 0x27] val"
        using pr(2) by (auto simp: prefix_def)
      then show ?thesis using pr p nsq ne by (simp add: e sh_word_def)
    qed
  qed
qed


text \<open>With the commit next to last, \<open>path_top\<close> is 0 and the whole path is shown after it.\<close>

lemma walk_path_msg_repeats_path:
  "walk_path_msg fsdecode ref [\<lparr>wn_name = c, wn_commit = True, wn_dir = False\<rparr>, \<lparr>wn_name = t, wn_commit = False, wn_dir = True\<rparr>] =
     path_msg fsdecode ref @ ascii '' '' @ (path_msg fsdecode c @ ascii '':'' @ path_msg fsdecode (c @ ''/'' @ t)) @ ascii ''/''"
  by (simp add: walk_path_msg_def Let_def py_slice_def py_index_def slice_def)

end
