(* ===== verification/Git_Commit.thy ===== *)
theory Git_Commit
  imports Py_Bytes Msg_Enc
begin

text \<open>
  Commit objects: \<open>lib/bup/commit.py\<close>.  The regular expressions are written as the deterministic
  readers they amount to: no part can end anywhere but where its delimiter first occurs.
\<close>

section \<open>Hexadecimal\<close>

definition hexlify :: "bytes \<Rightarrow> bytes" where
  "hexlify bs = concat (map (\<lambda>c. [digit_char (of_char c div 16), digit_char (of_char c mod 16)]) bs)"

fun unhexlify :: "bytes \<Rightarrow> bytes res" where
  "unhexlify [] = Inr []"
| "unhexlify [c] = Inl ValueError"
| "unhexlify (a # b # cs) =
     (case (hex_value a, hex_value b) of
        (Some x, Some y) \<Rightarrow> res_bind (unhexlify cs) (\<lambda>bs. Inr (char_of (16 * x + y) # bs))
      | _ \<Rightarrow> Inl ValueError)"

section \<open>Dates\<close>

definition digits_val :: "bytes \<Rightarrow> int res" where
  "digits_val s = py_int 10 s"

definition parse_tz_offset :: "bytes \<Rightarrow> int res" where
  "parse_tz_offset s =
     res_bind (py_int 10 (slice 1 3 s)) (\<lambda>h.
     res_bind (py_int 10 (slice 3 5 s)) (\<lambda>m.
       let tz_off = h * 60 * 60 + m * 60
       in if s = [] then Inl IndexError else if hd s = CHR ''-'' then Inr (- tz_off) else Inr tz_off))"

definition git_date_str :: "int \<Rightarrow> int \<Rightarrow> bytes" where
  "git_date_str epoch_sec tz_offset_sec =
     (let offs = tz_offset_sec div 60
      in show_int epoch_sec @ '' '' @ (if 0 \<le> offs then ''+'' else ''-'') @
         zero_pad 2 (show_int (abs offs div 60)) @ zero_pad 2 (show_int (abs offs mod 60)))"

text \<open>\<open>utc_offset_str\<close> asks the C library for the local zone; it is a parameter.\<close>

definition local_git_date_str :: "(int \<Rightarrow> bytes) \<Rightarrow> int \<Rightarrow> bytes" where
  "local_git_date_str utc_offset_str epoch_sec = show_int epoch_sec @ '' '' @ utc_offset_str epoch_sec"

section \<open>Writing\<close>

abbreviation nl :: char where "nl \<equiv> CHR 0x0a"

definition create_commit_blob ::
  "(int \<Rightarrow> bytes) \<Rightarrow> bytes \<Rightarrow> bytes option \<Rightarrow> bytes \<Rightarrow> int \<Rightarrow> int option \<Rightarrow> bytes \<Rightarrow> int \<Rightarrow> int option \<Rightarrow> bytes \<Rightarrow> bytes" where
  "create_commit_blob utc_offset_str tree parent author adate_sec adate_tz committer cdate_sec cdate_tz msg =
     (let adate_str = (case adate_tz of Some tz \<Rightarrow> git_date_str adate_sec tz | None \<Rightarrow> local_git_date_str utc_offset_str adate_sec);
          cdate_str = (case cdate_tz of Some tz \<Rightarrow> git_date_str cdate_sec tz | None \<Rightarrow> local_git_date_str utc_offset_str cdate_sec);
          l = (if tree \<noteq> [] then [''tree '' @ hexlify tree] else []) @
              (case parent of None \<Rightarrow> [] | Some p \<Rightarrow> if p \<noteq> [] then [''parent '' @ hexlify p] else []) @
              (if author \<noteq> [] then [''author '' @ author @ '' '' @ adate_str] else []) @
              (if committer \<noteq> [] then [''committer '' @ committer @ '' '' @ cdate_str] else []) @
              [[], msg]
      in join [nl] l)"

section \<open>Parsing\<close>

record commit_info =
  ci_tree :: bytes
  ci_parents :: "bytes list"
  ci_author_name :: bytes
  ci_author_mail :: bytes
  ci_author_sec :: int
  ci_author_offset :: int
  ci_committer_name :: bytes
  ci_committer_mail :: bytes
  ci_committer_sec :: int
  ci_committer_offset :: int
  ci_gpgsig :: "bytes option"
  ci_message :: bytes

text \<open>A reader takes its part from the front; \<open>None\<close> is no match.\<close>

definition lit :: "bytes \<Rightarrow> bytes \<Rightarrow> bytes option" where
  "lit p s = (if prefix p s then Some (drop (length p) s) else None)"

definition is_hex :: "char \<Rightarrow> bool" where
  "is_hex c \<longleftrightarrow> c \<in> set (''abcdefABCDEF0123456789'')"

definition rd_hex40 :: "bytes \<Rightarrow> (bytes \<times> bytes) option" where
  "rd_hex40 s = (if 40 \<le> length s \<and> list_all is_hex (take 40 s) then Some (take 40 s, drop 40 s) else None)"

definition start_end_char :: "char \<Rightarrow> bool" where
  "start_end_char c \<longleftrightarrow>
     c \<notin> set [CHR '' '', CHR ''.'', CHR '','', CHR '':'', CHR '';'', CHR ''<'', CHR ''>'', CHR 0x22, CHR 0x27, CHR 0x00, nl]"

definition content_char :: "char \<Rightarrow> bool" where
  "content_char c \<longleftrightarrow> c \<notin> set [CHR 0x00, nl, CHR ''<'', CHR ''>'']"

definition safe_str :: "bytes \<Rightarrow> bool" where
  "safe_str s \<longleftrightarrow> s \<noteq> [] \<and> start_end_char (hd s) \<and> start_end_char (last s) \<and> list_all content_char s"

text \<open>\<open>name <mail> \<close>\<close>

definition rd_person :: "bytes \<Rightarrow> ((bytes \<times> bytes) \<times> bytes) option" where
  "rd_person s =
     (let t = takeWhile (\<lambda>c. c \<noteq> CHR ''<'') s; s1 = dropWhile (\<lambda>c. c \<noteq> CHR ''<'') s;
          name = butlast t
      in if t = [] \<or> last t \<noteq> CHR '' '' \<or> \<not> safe_str name then None
         else Option.bind (lit ''<'' s1) (\<lambda>s2.
           let mail = takeWhile (\<lambda>c. c \<noteq> CHR ''>'') s2
           in if \<not> safe_str mail then None
              else Option.bind (lit ''> '' (dropWhile (\<lambda>c. c \<noteq> CHR ''>'') s2)) (\<lambda>s3. Some ((name, mail), s3))))"

definition is_dec :: "char \<Rightarrow> bool" where
  "is_dec c \<longleftrightarrow> c \<in> set ''0123456789''"

text \<open>\<open>seconds zone\<close>\<close>

definition is_tz :: "bytes \<Rightarrow> bool" where
  "is_tz z \<longleftrightarrow>
     length z = 5 \<and> z ! 0 \<in> {CHR ''-'', CHR ''+''} \<and> is_dec (z ! 1) \<and> is_dec (z ! 2) \<and> z ! 3 \<in> set ''012345'' \<and> is_dec (z ! 4)"

definition rd_date :: "bytes \<Rightarrow> ((bytes \<times> bytes) \<times> bytes) option" where
  "rd_date s =
     (let sec = takeWhile is_dec s
      in if sec = [] then None
         else Option.bind (lit '' '' (dropWhile is_dec s)) (\<lambda>s1.
           let z = take 5 s1 in if is_tz z then Some ((sec, z), drop 5 s1) else None))"

function rd_parents :: "bytes \<Rightarrow> bytes list \<times> bytes" where
  "rd_parents s =
     (case Option.bind (lit ''parent '' s) rd_hex40 of
        None \<Rightarrow> ([], s)
      | Some (h, s1) \<Rightarrow>
          (case lit [nl] s1 of
             None \<Rightarrow> ([], s)
           | Some s2 \<Rightarrow> (case rd_parents s2 of (hs, r) \<Rightarrow> (h # hs, r))))"
  by pat_completeness auto
termination
  by (relation "measure length") (auto simp: lit_def rd_hex40_def split: if_splits bind_splits)

declare rd_parents.simps [simp del]

text \<open>Continuation lines of the merge tag (newline first, no NUL) and of the signature.\<close>

function rd_tag_lines :: "bytes \<Rightarrow> bytes" where
  "rd_tag_lines s =
     (case lit [nl, CHR '' ''] s of
        None \<Rightarrow> s
      | Some s1 \<Rightarrow> rd_tag_lines (dropWhile (\<lambda>c. c \<noteq> CHR 0x00 \<and> c \<noteq> nl) s1))"
  by pat_completeness auto
termination
proof (relation "measure length", goal_cases)
  case (2 s s1)
  then have "length s1 < length s" by (auto simp: lit_def prefix_def split: if_splits)
  then show ?case using length_dropWhile_le [of "\<lambda>c. c \<noteq> CHR 0x00 \<and> c \<noteq> nl" s1] by simp
qed simp

declare rd_tag_lines.simps [simp del]

definition rd_mergetag :: "bytes \<Rightarrow> bytes" where
  "rd_mergetag s =
     (case Option.bind (lit (nl # ''mergetag object '') s) rd_hex40 of
        None \<Rightarrow> s
      | Some (h, s1) \<Rightarrow> rd_tag_lines s1)"

definition rd_line :: "bytes \<Rightarrow> (bytes \<times> bytes) option" where
  "rd_line s =
     (let l = takeWhile (\<lambda>c. c \<noteq> nl) s
      in if length l < length s then Some (l @ [nl], drop (length l + 1) s) else None)"

function rd_sig_lines :: "bytes \<Rightarrow> bytes \<times> bytes" where
  "rd_sig_lines s =
     (if prefix '' '' s then
        (case rd_line s of
           None \<Rightarrow> ([], s)
         | Some (l, r) \<Rightarrow> (case rd_sig_lines r of (ls, r') \<Rightarrow> (l @ ls, r')))
      else ([], s))"
  by pat_completeness auto
termination
  by (relation "measure length") (auto simp: rd_line_def Let_def split: if_splits)

declare rd_sig_lines.simps [simp del]

definition rd_gpgsig :: "bytes \<Rightarrow> bytes option \<times> bytes" where
  "rd_gpgsig s =
     (if prefix ''gpgsig '' s then
        (case rd_line s of
           None \<Rightarrow> (None, s)
         | Some (l, r) \<Rightarrow> (case rd_sig_lines r of (ls, r') \<Rightarrow> (Some (l @ ls), r')))
      else (None, s))"

fun drop_nl_space :: "bytes \<Rightarrow> bytes" where
  "drop_nl_space [] = []"
| "drop_nl_space [c] = [c]"
| "drop_nl_space (a # b # cs) =
     (if a = nl \<and> b = CHR '' '' then nl # drop_nl_space cs else a # drop_nl_space (b # cs))"

definition parse_commit_gpgsig :: "bytes option \<Rightarrow> bytes option res" where
  "parse_commit_gpgsig sig =
     (case sig of
        None \<Rightarrow> Inr None
      | Some sig \<Rightarrow>
          if sig = [] then Inr None
          else res_bind (py_assert (prefix ''gpgsig '' sig)) (\<lambda>_. Inr (Some (drop_nl_space (drop 7 sig)))))"

record commit_match =
  cm_tree :: bytes
  cm_parents :: "bytes list"
  cm_author :: "bytes \<times> bytes"
  cm_adate :: "bytes \<times> bytes"
  cm_committer :: "bytes \<times> bytes"
  cm_cdate :: "bytes \<times> bytes"
  cm_gpgsig :: "bytes option"
  cm_message :: bytes

definition match_commit :: "bytes \<Rightarrow> commit_match option" where
  "match_commit content =
     Option.bind (lit ''tree '' content) (\<lambda>s.
     Option.bind (rd_hex40 s) (\<lambda>(tree, s).
     Option.bind (lit [nl] s) (\<lambda>s.
     case rd_parents s of (parents, s) \<Rightarrow>
     Option.bind (lit ''author '' s) (\<lambda>s.
     Option.bind (rd_person s) (\<lambda>(author, s).
     Option.bind (rd_date s) (\<lambda>(adate, s).
     Option.bind (lit (nl # ''committer '') s) (\<lambda>s.
     Option.bind (rd_person s) (\<lambda>(committer, s).
     Option.bind (rd_date s) (\<lambda>(cdate, s).
     Option.bind (lit [nl] (rd_mergetag s)) (\<lambda>s.
     case rd_gpgsig s of (gpgsig, s) \<Rightarrow>
     Option.bind (lit [nl] s) (\<lambda>s.
     Some \<lparr>cm_tree = tree, cm_parents = parents, cm_author = author, cm_adate = adate, cm_committer = committer,
           cm_cdate = cdate, cm_gpgsig = gpgsig, cm_message = s\<rparr>)))))))))))"

definition parse_commit :: "bytes \<Rightarrow> commit_info res" where
  "parse_commit content =
     (case match_commit content of
        None \<Rightarrow> Inl (Exc ''cannot parse commit'')
      | Some m \<Rightarrow>
          res_bind (digits_val (fst (cm_adate m))) (\<lambda>asec.
          res_bind (parse_tz_offset (snd (cm_adate m))) (\<lambda>aoff.
          res_bind (digits_val (fst (cm_cdate m))) (\<lambda>csec.
          res_bind (parse_tz_offset (snd (cm_cdate m))) (\<lambda>coff.
          res_bind (parse_commit_gpgsig (cm_gpgsig m)) (\<lambda>sig.
          Inr \<lparr>ci_tree = cm_tree m, ci_parents = cm_parents m,
               ci_author_name = fst (cm_author m), ci_author_mail = snd (cm_author m), ci_author_sec = asec, ci_author_offset = aoff,
               ci_committer_name = fst (cm_committer m), ci_committer_mail = snd (cm_committer m),
               ci_committer_sec = csec, ci_committer_offset = coff, ci_gpgsig = sig, ci_message = cm_message m\<rparr>))))))"

section \<open>Messages\<close>

text \<open>
  \<open>has_trailers\<close>: from some line start, a key without tab or space, a colon, the rest of the line and
  then only line ends.  A key may hold newlines, as in the expression.
\<close>

fun only_line_ends :: "bytes \<Rightarrow> bool" where
  "only_line_ends [] \<longleftrightarrow> True"
| "only_line_ends [c] \<longleftrightarrow> c = nl"
| "only_line_ends (c # d # cs) \<longleftrightarrow>
     (c = nl \<and> only_line_ends (d # cs)) \<or> (c = CHR 0x0d \<and> d = nl \<and> only_line_ends cs)"

fun trailer_at :: "bool \<Rightarrow> bytes \<Rightarrow> bool" where
  "trailer_at key [] \<longleftrightarrow> False"
| "trailer_at key (c # cs) \<longleftrightarrow>
     (key \<and> c = CHR '':'' \<and> only_line_ends (dropWhile (\<lambda>c. c \<noteq> nl) cs)) \<or>
     (c \<noteq> CHR 0x09 \<and> c \<noteq> CHR '' '' \<and> trailer_at True cs)"

fun trailers_from :: "bool \<Rightarrow> bytes \<Rightarrow> bool" where
  "trailers_from line_start [] \<longleftrightarrow> False"
| "trailers_from line_start (c # cs) \<longleftrightarrow> (line_start \<and> trailer_at False (c # cs)) \<or> trailers_from (c = nl) cs"

definition has_trailers :: "bytes \<Rightarrow> bool" where
  "has_trailers message = trailers_from True message"

definition commit_message :: "bytes \<Rightarrow> bytes \<Rightarrow> bytes list \<Rightarrow> bytes list \<Rightarrow> bytes res" where
  "commit_message version message argv extra_trailers =
     res_bind (py_assert (\<forall>t\<in>set extra_trailers. \<forall>b\<in>set t. 20 \<le> (of_char b :: nat) \<and> (of_char b :: nat) < 127)) (\<lambda>_.
     Inr (join [nl]
       ([rstrip_chars whitespace message] @ (if has_trailers message then [] else [[]]) @
        [''Bup-Version: '' @ version, ''Bup-Argv: '' @ join '' '' (map enc_sh argv)] @ extra_trailers)))"

section \<open>Properties\<close>

lemma show_two: "k < 100 \<Longrightarrow> zero_pad 2 (show_int (int k)) = map digit_char [k div 10, k mod 10]"
proof -
  have "digit_char 0 = CHR ''0''" by code_simp
  then show "k < 100 \<Longrightarrow> zero_pad 2 (show_int (int k)) = map digit_char [k div 10, k mod 10]"
    by (cases "k < 10")
      (simp_all add: show_int_base_def zero_pad_def show_base.simps [of 10 k] show_base.simps [of 10 "k div 10"])
qed

lemma is_dec_digit: "d < 10 \<Longrightarrow> is_dec (digit_char d)"
proof -
  have "\<forall>d\<in>set [0..<10]. is_dec (digit_char d)" by code_simp
  then show "d < 10 \<Longrightarrow> is_dec (digit_char d)" by simp
qed

lemma low_digit: "d < 6 \<Longrightarrow> digit_char d \<in> set ''012345''"
proof -
  have "\<forall>d\<in>set [0..<6]. digit_char d \<in> set ''012345''" by code_simp
  then show "d < 6 \<Longrightarrow> digit_char d \<in> set ''012345''" by simp
qed

lemma is_tzI: "is_dec a \<Longrightarrow> is_dec b \<Longrightarrow> c \<in> set ''012345'' \<Longrightarrow> is_dec d \<Longrightarrow> sg = CHR ''-'' \<or> sg = CHR ''+'' \<Longrightarrow>
  is_tz [sg, a, b, c, d]"
  by (simp add: is_tz_def numeral_eq_Suc)

text \<open>The zone of a date and back.\<close>

definition tz_str :: "int \<Rightarrow> bytes" where
  "tz_str tz = drop 2 (git_date_str 0 tz)"

lemma tz_str_form:
  assumes "\<bar>tz div 60\<bar> < 6000"
  shows "git_date_str sec tz = show_int sec @ '' '' @ tz_str tz" "is_tz (tz_str tz)" "parse_tz_offset (tz_str tz) = Inr (tz div 60 * 60)"
proof -
  define a where "a = nat \<bar>tz div 60\<bar>"
  have a: "\<bar>tz div 60\<bar> = int a" "a < 6000" using assms by (simp_all add: a_def)
  let ?sg = "if 0 \<le> tz div 60 then ''+'' else ''-''"
  obtain d1 d2 d3 d4 where d: "a div 60 = 10 * d1 + d2" "a mod 60 = 10 * d3 + d4" "d1 < 10" "d2 < 10" "d3 < 6" "d4 < 10"
  proof (rule that)
    show "a div 60 = 10 * (a div 60 div 10) + a div 60 mod 10" "a mod 60 = 10 * (a mod 60 div 10) + a mod 60 mod 10"
      by (simp_all only: mult_div_mod_eq)
    have "a div 60 < 10 * 10" "a mod 60 < 6 * 10" using a(2) by auto
    then show "a div 60 div 10 < 10" "a mod 60 div 10 < 6" by (metis less_mult_imp_div_less)+
  qed simp_all
  let ?ds = "map digit_char [d1, d2, d3, d4]"
  have two: "zero_pad 2 (show_int (\<bar>tz div 60\<bar> div 60)) = map digit_char [d1, d2]"
    "zero_pad 2 (show_int (\<bar>tz div 60\<bar> mod 60)) = map digit_char [d3, d4]"
  proof -
    have "int a div 60 = int (10 * d1 + d2)" "int a mod 60 = int (10 * d3 + d4)"
      using d(1,2) by (metis of_nat_numeral zdiv_int, metis of_nat_numeral zmod_int)
    then show "zero_pad 2 (show_int (\<bar>tz div 60\<bar> div 60)) = map digit_char [d1, d2]"
      "zero_pad 2 (show_int (\<bar>tz div 60\<bar> mod 60)) = map digit_char [d3, d4]"
      using show_two [of "10 * d1 + d2"] show_two [of "10 * d3 + d4"] d(3-6) unfolding a(1) by simp_all
  qed
  have zero: "show_int 0 = ''0''" by code_simp
  have eq: "git_date_str s tz = show_int s @ '' '' @ ?sg @ ?ds" for s
    unfolding git_date_str_def Let_def two by simp
  have z: "tz_str tz = ?sg @ ?ds" unfolding tz_str_def eq zero by simp
  show "git_date_str sec tz = show_int sec @ '' '' @ tz_str tz" unfolding z eq ..
  show "is_tz (tz_str tz)"
    unfolding z
    using is_tzI [OF is_dec_digit [OF d(3)] is_dec_digit [OF d(4)] low_digit [OF d(5)] is_dec_digit [OF d(6)]]
    by (simp only: list.map append.simps split: if_split) blast
  have "slice 1 3 (tz_str tz) = map digit_char [d1, d2]" "slice 3 5 (tz_str tz) = map digit_char [d3, d4]"
    by (simp_all add: z slice_def)
  moreover have "py_int 10 (map digit_char [d1, d2]) = Inr (int (a div 60))" "py_int 10 (map digit_char [d3, d4]) = Inr (int (a mod 60))"
    using py_int_digits [of 10 "[d1, d2]"] py_int_digits [of 10 "[d3, d4]"] d(3-6) unfolding d(1,2) by simp_all
  ultimately have "parse_tz_offset (tz_str tz) =
    (let tz_off = int (a div 60) * 60 * 60 + int (a mod 60) * 60 in
     if tz_str tz = [] then Inl IndexError else if hd (tz_str tz) = CHR ''-'' then Inr (- tz_off) else Inr tz_off)"
    unfolding parse_tz_offset_def by simp
  moreover have "int (a div 60) * 60 * 60 + int (a mod 60) * 60 = int a * 60"
  proof -
    have "60 * (a div 60) + a mod 60 = a" by (rule mult_div_mod_eq)
    then have "int (a div 60) * 60 + int (a mod 60) = int a" by linarith
    then show ?thesis by (simp flip: distrib_right)
  qed
  moreover have "tz_str tz \<noteq> []" "hd (tz_str tz) = (if 0 \<le> tz div 60 then CHR ''+'' else CHR ''-'')" by (simp_all add: z)
  ultimately show "parse_tz_offset (tz_str tz) = Inr (tz div 60 * 60)"
    using a(1) by (auto simp: Let_def)
qed

lemma lit_append [simp]: "lit p (p @ s) = Some s"
  by (simp add: lit_def)

lemma is_hex_digit: "d < 16 \<Longrightarrow> is_hex (digit_char d)"
proof -
  have "\<forall>d\<in>set [0..<16]. is_hex (digit_char d)" by code_simp
  then show "d < 16 \<Longrightarrow> is_hex (digit_char d)" by simp
qed

lemma length_hexlify [simp]: "length (hexlify bs) = 2 * length bs"
  by (induction bs) (simp_all add: hexlify_def)

lemma high_digit: "of_char c div 16 < (16 :: nat)"
  using nat_of_char_less_256 [of c] by (simp add: less_mult_imp_div_less)

lemma hexlify_hex: "list_all is_hex (hexlify bs)"
proof -
  have "is_hex (digit_char (of_char c div 16)) \<and> is_hex (digit_char (of_char c mod 16))" for c :: char
    using is_hex_digit [of "of_char c div 16"] is_hex_digit [of "of_char c mod 16"] high_digit [of c] by simp
  then show ?thesis by (induction bs) (simp_all add: hexlify_def)
qed

lemma unhexlify_hexlify: "unhexlify (hexlify bs) = Inr bs"
proof (induction bs)
  case Nil
  then show ?case by (simp add: hexlify_def)
next
  case (Cons c bs)
  have "hexlify (c # bs) = digit_char (of_char c div 16) # digit_char (of_char c mod 16) # hexlify bs"
    by (simp add: hexlify_def)
  then show ?case
    using Cons hex_value_digit [of "of_char c div 16"] hex_value_digit [of "of_char c mod 16"] high_digit [of c]
    by simp
qed

lemma rd_hex40_hexlify: "length t = 20 \<Longrightarrow> rd_hex40 (hexlify t @ s) = Some (hexlify t, s)"
  using hexlify_hex [of t] by (simp add: rd_hex40_def)

lemma takeWhile_stop: "list_all P xs \<Longrightarrow> \<not> P c \<Longrightarrow> takeWhile P (xs @ c # ys) = xs \<and> dropWhile P (xs @ c # ys) = c # ys"
  by (induction xs) auto

lemma rd_person_ok:
  assumes "safe_str name" "safe_str mail"
  shows "rd_person (name @ '' <'' @ mail @ ''> '' @ s) = Some ((name, mail), s)"
proof -
  have n: "list_all (\<lambda>c. c \<noteq> CHR ''<'') (name @ '' '')" "list_all (\<lambda>c. c \<noteq> CHR ''>'') mail"
    using assms by (auto simp: safe_str_def content_char_def list_all_iff)
  have t: "takeWhile (\<lambda>c. c \<noteq> CHR ''<'') (name @ '' <'' @ mail @ ''> '' @ s) = name @ '' ''"
    "dropWhile (\<lambda>c. c \<noteq> CHR ''<'') (name @ '' <'' @ mail @ ''> '' @ s) = ''<'' @ mail @ ''> '' @ s"
    using takeWhile_stop [OF n(1), of "CHR ''<''" "mail @ ''> '' @ s"] by simp_all
  have m: "takeWhile (\<lambda>c. c \<noteq> CHR ''>'') (mail @ ''> '' @ s) = mail"
    "dropWhile (\<lambda>c. c \<noteq> CHR ''>'') (mail @ ''> '' @ s) = ''> '' @ s"
    using takeWhile_stop [OF n(2), of "CHR ''>''" "CHR '' '' # s"] by simp_all
  show ?thesis
    unfolding rd_person_def Let_def t lit_append using assms m by (simp add: lit_def)
qed

lemma rd_date_ok:
  assumes "is_tz z" "0 \<le> sec"
  shows "rd_date (show_int sec @ '' '' @ z @ s) = Some ((show_int sec, z), s)"
proof -
  have s: "show_int sec = show_base 10 (nat sec)" using assms(2) by (simp add: show_int_base_def)
  have d: "list_all is_dec (show_int sec)" "show_int sec \<noteq> []"
    using show_base_chars [of 10 _ "nat sec"] is_dec_digit by (auto simp: s list_all_iff)
  have "\<not> is_dec (CHR '' '')" by (simp add: is_dec_def)
  from takeWhile_stop [OF d(1) this, of "z @ s"]
  have t: "takeWhile is_dec (show_int sec @ '' '' @ z @ s) = show_int sec" "dropWhile is_dec (show_int sec @ '' '' @ z @ s) = '' '' @ z @ s"
    by simp_all
  have "length z = 5" using assms(1) by (simp add: is_tz_def)
  then show ?thesis unfolding rd_date_def Let_def t lit_append using d(2) assms(1) by simp
qed

lemma rd_parents_one:
  assumes "length p = 20" "\<not> prefix ''parent '' s"
  shows "rd_parents (''parent '' @ hexlify p @ nl # s) = ([hexlify p], s)"
proof -
  have "rd_parents s = ([], s)" using assms(2) by (subst rd_parents.simps) (simp add: lit_def)
  moreover have "lit ''parent '' (''parent '' @ hexlify p @ nl # s) = Some (hexlify p @ nl # s)" by (rule lit_append)
  moreover have "lit [nl] (nl # s) = Some s" by (simp add: lit_def)
  ultimately show ?thesis
    using rd_hex40_hexlify [OF assms(1), of "nl # s"] by (subst rd_parents.simps) simp
qed

text \<open>C28: commits survive: for a tree and at most one parent of 20 bytes, people the parser takes for
  safe, times that are not negative and zones of less than 100 hours, \<open>parse_commit\<close> reads from
  \<open>create_commit_blob\<close> the same tree, parents, people, times and message, and each zone cut to whole
  minutes.\<close>

theorem commit_roundtrip:
  assumes "length tree = 20" "case parent of None \<Rightarrow> True | Some p \<Rightarrow> length p = 20"
    and "safe_str aname" "safe_str amail" "safe_str cname" "safe_str cmail" "0 \<le> asec" "0 \<le> csec"
    and "\<bar>atz div 60\<bar> < 6000" "\<bar>ctz div 60\<bar> < 6000"
  shows "parse_commit (create_commit_blob utc tree parent (aname @ '' <'' @ amail @ ''>'') asec (Some atz)
      (cname @ '' <'' @ cmail @ ''>'') csec (Some ctz) msg) =
    Inr \<lparr>ci_tree = hexlify tree, ci_parents = (case parent of None \<Rightarrow> [] | Some p \<Rightarrow> [hexlify p]),
         ci_author_name = aname, ci_author_mail = amail, ci_author_sec = asec, ci_author_offset = atz div 60 * 60,
         ci_committer_name = cname, ci_committer_mail = cmail, ci_committer_sec = csec,
         ci_committer_offset = ctz div 60 * 60, ci_gpgsig = None, ci_message = msg\<rparr>"
proof -
  note a = tz_str_form [OF assms(9)] and c = tz_str_form [OF assms(10)]
  define pl where "pl = (case parent of None \<Rightarrow> [] | Some p \<Rightarrow> ''parent '' @ hexlify p @ [nl])"
  define s4 where "s4 = nl # nl # msg"
  define s3 where "s3 = cname @ '' <'' @ cmail @ ''> '' @ show_int csec @ '' '' @ tz_str ctz @ s4"
  define s2 where "s2 = aname @ '' <'' @ amail @ ''> '' @ show_int asec @ '' '' @ tz_str atz @ nl # ''committer '' @ s3"
  have blob: "create_commit_blob utc tree parent (aname @ '' <'' @ amail @ ''>'') asec (Some atz)
      (cname @ '' <'' @ cmail @ ''>'') csec (Some ctz) msg = ''tree '' @ hexlify tree @ nl # pl @ ''author '' @ s2"
    using assms(1,2) by (cases parent) (auto simp: create_commit_blob_def Let_def a(1) c(1) pl_def s2_def s3_def s4_def)
  have par: "rd_parents (pl @ ''author '' @ s2) = ((case parent of None \<Rightarrow> [] | Some p \<Rightarrow> [hexlify p]), ''author '' @ s2)"
  proof (cases parent)
    case None
    then show ?thesis by (subst rd_parents.simps) (simp add: pl_def lit_def)
  next
    case (Some p)
    have "\<not> prefix ''parent '' (''author '' @ s2)" by simp
    from rd_parents_one [OF _ this, of p] show ?thesis using Some assms(2) by (simp add: pl_def)
  qed
  have d: "rd_person s2 = Some ((aname, amail), show_int asec @ '' '' @ tz_str atz @ nl # ''committer '' @ s3)"
    "rd_date (show_int asec @ '' '' @ tz_str atz @ nl # ''committer '' @ s3) = Some ((show_int asec, tz_str atz), nl # ''committer '' @ s3)"
    "rd_person s3 = Some ((cname, cmail), show_int csec @ '' '' @ tz_str ctz @ s4)"
    "rd_date (show_int csec @ '' '' @ tz_str ctz @ s4) = Some ((show_int csec, tz_str ctz), s4)"
    unfolding s2_def s3_def using rd_person_ok rd_date_ok assms a(2) c(2) by auto
  have e: "lit [nl] (rd_mergetag s4) = Some (nl # msg)" "rd_gpgsig (nl # msg) = (None, nl # msg)" "lit [nl] (nl # msg) = Some msg"
    by (simp_all add: s4_def rd_mergetag_def rd_gpgsig_def lit_def)
  have l: "lit [nl] (nl # x) = Some x" "lit (nl # ''committer '') (nl # ''committer '' @ x) = Some x" for x
    by (simp_all add: lit_def)
  have m: "match_commit (''tree '' @ hexlify tree @ nl # pl @ ''author '' @ s2) =
    Some \<lparr>cm_tree = hexlify tree, cm_parents = (case parent of None \<Rightarrow> [] | Some p \<Rightarrow> [hexlify p]),
      cm_author = (aname, amail), cm_adate = (show_int asec, tz_str atz), cm_committer = (cname, cmail),
      cm_cdate = (show_int csec, tz_str ctz), cm_gpgsig = None, cm_message = msg\<rparr>"
    unfolding match_commit_def lit_append rd_hex40_hexlify [OF assms(1)] Option.bind.bind_lunit prod.case l par d e ..
  have i: "py_int 10 (show_int n) = Inr n" if "0 \<le> n" for n
    using that py_int_show_base [of 10 "nat n"] by (simp add: show_int_base_def)
  show ?thesis
    unfolding parse_commit_def blob m option.case
    by (simp add: digits_val_def i assms(7,8) a(3) c(3) parse_commit_gpgsig_def)
qed

theorem commit_roundtrip_witness:
  "map_sum id ci_message (parse_commit (create_commit_blob (\<lambda>_. []) (replicate 20 (CHR ''t'')) None ''A B <a@b>'' 7 (Some (- 5400))
     ''C <c>'' 8 (Some 3600) ''hi'')) = Inr ''hi''"
proof -
  have "safe_str ''A B''" "safe_str ''a@b''" "safe_str ''C''" "safe_str ''c''" by code_simp+
  note s = this
  have "length (replicate 20 (CHR ''t'')) = 20" "case None of None \<Rightarrow> True | Some p \<Rightarrow> length (p :: bytes) = 20"
    "(0 :: int) \<le> 7" "(0 :: int) \<le> 8" "\<bar>- 5400 div 60\<bar> < (6000 :: int)" "\<bar>3600 div 60\<bar> < (6000 :: int)"
    by simp_all
  from commit_roundtrip [OF this(1,2) s this(3-6), of "\<lambda>_. []" "''hi''"] show ?thesis by simp
qed

end
