(* ===== verification/Pack_List.thy ===== *)
theory Pack_List
  imports Midx_Merge Bloom Streams "HOL-Library.AList"
begin

text \<open>
  The class \<open>PackIdxList\<close> of \<open>lib/bup/git.py\<close>: all the indexes of a pack directory, searched through
  a bloom filter and reordered by use, and the refresh that opens what is in the directory.  What the
  list needs of an index is the locale \<open>index\<close>, which pack indexes and multi-indexes interpret.
\<close>

section \<open>What an index promises\<close>

fun first_hit ::
  "('i \<Rightarrow> object_location option res option) \<Rightarrow> 'i list \<Rightarrow> (nat \<times> object_location) option res option" where
  "first_hit look [] = Some (Inr None)"
| "first_hit look (p # ps) =
     (case look p of
        None \<Rightarrow> None
      | Some (Inl e) \<Rightarrow> Some (Inl e)
      | Some (Inr (Some ret)) \<Rightarrow> Some (Inr (Some (0, ret)))
      | Some (Inr None) \<Rightarrow>
          map_option (\<lambda>r. res_bind r (\<lambda>h. Inr (map_option (\<lambda>(i, ret). (Suc i, ret)) h))) (first_hit look ps))"

text \<open>
  For the indexes that are \<open>ok\<close>: a lookup of an id returns, with something exactly for the objects
  \<open>iter\<close> yields, which come in order.
\<close>

locale index =
  fixes look :: "'i \<Rightarrow> bytes \<Rightarrow> bool \<Rightarrow> object_location option res option"
    and iter :: "'i \<Rightarrow> bytes list"
    and ok :: "'i \<Rightarrow> bool"
  assumes look_ok: "ok ix \<Longrightarrow> length h = 20 \<Longrightarrow> \<exists>r. look ix h ws = Some (Inr r) \<and> (r \<noteq> None \<longleftrightarrow> h \<in> set (iter ix))"
    and iter_sorted: "ok ix \<Longrightarrow> sorted (iter ix)"
    and iter_oids: "ok ix \<Longrightarrow> h \<in> set (iter ix) \<Longrightarrow> length h = 20"
begin

lemma first_hit_ok:
  assumes "\<forall>p\<in>set ps. ok p" "length h = 20"
  shows "\<exists>r. first_hit (\<lambda>p. look p h ws) ps = Some (Inr r) \<and> (r \<noteq> None \<longleftrightarrow> (\<exists>p\<in>set ps. h \<in> set (iter p))) \<and>
    (\<forall>i ret. r = Some (i, ret) \<longrightarrow> i < length ps)"
  using assms(1)
proof (induction ps)
  case Nil
  then show ?case by simp
next
  case (Cons p ps)
  obtain r where r: "look p h ws = Some (Inr r)" "r \<noteq> None \<longleftrightarrow> h \<in> set (iter p)"
    using look_ok [of p h ws] Cons.prems assms(2) by auto
  show ?case
  proof (cases r)
    case None
    obtain q where "first_hit (\<lambda>p. look p h ws) ps = Some (Inr q)" "q \<noteq> None \<longleftrightarrow> (\<exists>p\<in>set ps. h \<in> set (iter p))"
      "\<forall>i ret. q = Some (i, ret) \<longrightarrow> i < length ps" using Cons by auto
    then show ?thesis using r None by (cases q) auto
  next
    case (Some ret)
    then show ?thesis using r by auto
  qed
qed

lemma merged:
  assumes "picks_least pick" "\<forall>p\<in>set ps. ok p"
  shows "merge_iter pick (\<lambda>e. e = []) (=) (map iter ps) = remdups_adj (sort (concat (map iter ps)))"
proof -
  have "sorted (iter p) \<and> (\<forall>e\<in>set (iter p). e \<noteq> [])" if "p \<in> set ps" for p
    using assms(2) that iter_sorted iter_oids by fastforce
  then have "\<forall>it\<in>set (map iter ps). sorted it \<and> (\<forall>e\<in>set it. \<not> e = [])" by simp
  from merge_heap_sorted [OF this] merge_loop_iter_sorted [OF assms(1), of "merge_heap (\<lambda>e. e = []) (map iter ps)" None]
  show ?thesis by (simp add: merge_iter_def)
qed

end

text \<open>Pack indexes, multi-indexes, and an open index of either kind.\<close>

definition idx_ok :: "pack_idx \<Rightarrow> bool" where
  "idx_ok px \<longleftrightarrow> wf_idx px (idx_iter px)"

definition midx_ok :: "pack_midx \<Rightarrow> bool" where
  "midx_ok pm \<longleftrightarrow> wf_midx pm (midx_iter pm) \<and> (\<forall>i<pm_nsha pm. \<exists>n. get_idxname pm (int i) = Inr n)"

interpretation pidx: index "\<lambda>px h ws. Some (idx_exists px h ws False)" idx_iter idx_ok
proof unfold_locales
  fix px :: pack_idx and h :: bytes and ws
  assume ok: "idx_ok px" and l: "length h = 20"
  obtain r where r: "idx_from_hash px h = Inr r"
    "case r of Some m \<Rightarrow> m < length (idx_iter px) \<and> idx_iter px ! m = h | None \<Rightarrow> h \<notin> set (idx_iter px)"
    using idx_from_hash_ok ok l unfolding idx_ok_def by blast
  have "h \<noteq> []" using l by auto
  then show "\<exists>r. Some (idx_exists px h ws False) = Some (Inr r) \<and> (r \<noteq> None \<longleftrightarrow> h \<in> set (idx_iter px))"
    using r by (cases r) (auto simp: idx_exists_def)
qed (auto simp: idx_ok_def wf_idx_def)

interpretation pmidx: index "\<lambda>pm h ws. midx_exists pm h ws False" midx_iter midx_ok
proof unfold_locales
  fix pm :: pack_midx and h :: bytes and ws
  assume ok: "midx_ok pm" and l: "length h = 20"
  have wf: "wf_midx pm (midx_iter pm)" and n: "\<forall>i<pm_nsha pm. \<exists>n. get_idxname pm (int i) = Inr n"
    using ok by (auto simp: midx_ok_def)
  have len: "pm_nsha pm = length (midx_iter pm)" by (simp add: midx_iter_def)
  from midx_exists_ok [OF wf l, of ws]
  show "\<exists>r. midx_exists pm h ws False = Some (Inr r) \<and> (r \<noteq> None \<longleftrightarrow> h \<in> set (midx_iter pm))"
  proof (elim disjE exE conjE)
    fix i assume i: "i < length (midx_iter pm)" "midx_iter pm ! i = h"
      "midx_exists pm h ws False = Some (if ws then res_bind (get_idxname pm (int i)) (\<lambda>n. Inr (Some \<lparr>ol_pack = Some n, ol_offset = None\<rparr>))
             else Inr (Some OBJECT_EXISTS))"
    obtain n where "get_idxname pm (int i) = Inr n" using n i(1) len by auto
    moreover have "h \<in> set (midx_iter pm)" using i(1,2) by auto
    ultimately show ?thesis using i(3) by (cases ws) auto
  qed simp
qed (auto simp: midx_ok_def wf_midx_def)

fun index_exists :: "open_index \<Rightarrow> bytes \<Rightarrow> bool \<Rightarrow> bool \<Rightarrow> object_location option res option" where
  "index_exists (OIdx px) h want_source want_offset = Some (idx_exists px h want_source want_offset)"
| "index_exists (OMidx pm) h want_source want_offset = midx_exists pm h want_source want_offset"

fun index_iter :: "open_index \<Rightarrow> bytes list" where
  "index_iter (OIdx px) = idx_iter px"
| "index_iter (OMidx pm) = midx_iter pm"

fun index_ok :: "open_index \<Rightarrow> bool" where
  "index_ok (OIdx px) = idx_ok px"
| "index_ok (OMidx pm) = midx_ok pm"

interpretation oidx: index "\<lambda>ix h ws. index_exists ix h ws False" index_iter index_ok
proof unfold_locales
  fix ix and h :: bytes and ws
  assume "index_ok ix" "length h = 20"
  then show "\<exists>r. index_exists ix h ws False = Some (Inr r) \<and> (r \<noteq> None \<longleftrightarrow> h \<in> set (index_iter ix))"
    using pidx.look_ok [of _ h ws] pmidx.look_ok [of _ h ws] by (cases ix) auto
next
  fix ix :: open_index and h :: bytes
  assume "index_ok ix"
  then show "sorted (index_iter ix)" "h \<in> set (index_iter ix) \<Longrightarrow> length h = 20"
    using pidx.iter_sorted pmidx.iter_sorted pidx.iter_oids pmidx.iter_oids by (cases ix; auto)+
qed

section \<open>Searching the list\<close>

record pack_list =
  pl_dir :: bytes
  pl_packs :: "open_index list"
  pl_do_bloom :: bool
  pl_bloom :: "bloom option"
  pl_ignore_midx :: bool

fun is_midx :: "open_index \<Rightarrow> bool" where
  "is_midx (OIdx px) \<longleftrightarrow> False"
| "is_midx (OMidx pm) \<longleftrightarrow> True"

text \<open>A reader is true when its \<open>len\<close> is not zero.\<close>

definition truthy_bloom :: "bloom option \<Rightarrow> bool" where
  "truthy_bloom b \<longleftrightarrow> (case b of None \<Rightarrow> False | Some b \<Rightarrow> bl_entries b \<noteq> 0)"

text \<open>The index a multi-index named is opened again for the offset; \<open>files\<close> gives contents.\<close>

definition reopen_for_offset ::
  "(bytes \<Rightarrow> bytes option) \<Rightarrow> bytes \<Rightarrow> object_location \<Rightarrow> bytes \<Rightarrow> bool \<Rightarrow> object_location option res" where
  "reopen_for_offset files dir ret h want_source =
     (case ol_pack ret of
        None \<Rightarrow> Inl TypeError
      | Some name \<Rightarrow>
          (case files (path_join dir name) of
             None \<Rightarrow> Inl IOError
           | Some data \<Rightarrow>
               res_bind (open_idx (path_join dir name) data) (\<lambda>np.
               res_bind (idx_exists np h want_source True) (\<lambda>ret'.
               res_bind (py_assert (ret' \<noteq> None)) (\<lambda>_. Inr ret')))))"

definition scan_packs ::
  "(bytes \<Rightarrow> bytes option) \<Rightarrow> pack_list \<Rightarrow> bytes \<Rightarrow> bool \<Rightarrow> bool \<Rightarrow> (object_location option \<times> pack_list) res option" where
  "scan_packs files pl h want_source want_offset =
     (case first_hit (\<lambda>p. if want_offset \<and> is_midx p then index_exists p h True False
                          else index_exists p h want_source want_offset) (pl_packs pl) of
        None \<Rightarrow> None
      | Some (Inl e) \<Rightarrow> Some (Inl e)
      | Some (Inr None) \<Rightarrow> Some (Inr (None, pl\<lparr>pl_do_bloom := True\<rparr>))
      | Some (Inr (Some (i, ret))) \<Rightarrow>
          let packs = pl_packs pl;
              pl' = pl\<lparr>pl_packs := packs ! i # take i packs @ drop (i + 1) packs\<rparr>
          in if want_offset \<and> ol_offset ret = None
             then Some (res_bind (reopen_for_offset files (pl_dir pl) ret h want_source) (\<lambda>ret'. Inr (ret', pl')))
             else Some (Inr (Some ret, pl')))"

definition pil_exists ::
  "(bytes \<Rightarrow> bytes option) \<Rightarrow> pack_list \<Rightarrow> bytes \<Rightarrow> bool \<Rightarrow> bool \<Rightarrow> (object_location option \<times> pack_list) res option" where
  "pil_exists files pl h want_source want_offset =
     (if pl_do_bloom pl \<and> truthy_bloom (pl_bloom pl) then
        (case bloom_exists (the (pl_bloom pl)) h of
           Inl e \<Rightarrow> Some (Inl e)
         | Inr found \<Rightarrow>
             if found then scan_packs files (pl\<lparr>pl_do_bloom := False\<rparr>) h want_source want_offset
             else Some (Inr (None, pl)))
      else scan_packs files pl h want_source want_offset)"

definition pil_iter :: "(bytes heap \<Rightarrow> nat) \<Rightarrow> pack_list \<Rightarrow> bytes list" where
  "pil_iter pick pl = merge_iter pick (\<lambda>e. e = []) (=) (map index_iter (pl_packs pl))"

definition pil_len :: "pack_list \<Rightarrow> nat" where
  "pil_len pl = sum_list (map oi_len (pl_packs pl))"

definition close_temps :: "pack_list \<Rightarrow> pack_list" where
  "close_temps pl = pl\<lparr>pl_bloom := None, pl_packs := filter (\<lambda>ix. \<not> is_midx ix) (pl_packs pl)\<rparr>"

section \<open>Refreshing the list\<close>

text \<open>
  What \<open>refresh\<close> sees of the file system: whether the directory is there, what the globs give, the
  contents and times of files; \<open>pe_order\<close> is the order of the set of indexes found.
\<close>

record pack_env =
  pe_dir_exists :: bool
  pe_midxes :: "bytes list"
  pe_idxs :: "bytes list"
  pe_files :: "bytes \<Rightarrow> bytes option"
  pe_mtime :: "bytes \<Rightarrow> int"
  pe_order :: "open_index list \<Rightarrow> open_index list"

type_synonym index_dict = "(bytes \<times> open_index) list"

fun oi_name :: "open_index \<Rightarrow> bytes" where
  "oi_name (OIdx px) = px_name px"
| "oi_name (OMidx pm) = pm_name pm"

text \<open>\<open>d.get(k)\<close> as a condition: an index of no objects counts as missing.\<close>

definition dict_has :: "index_dict \<Rightarrow> bytes \<Rightarrow> bool" where
  "dict_has d k \<longleftrightarrow> (case map_of d k of None \<Rightarrow> False | Some ix \<Rightarrow> oi_len ix \<noteq> 0)"

definition sub_paths :: "bytes \<Rightarrow> pack_midx \<Rightarrow> bytes list" where
  "sub_paths dir pm = map (path_join dir) (pm_idxnames pm)"

definition add_subs :: "bytes \<Rightarrow> pack_midx \<Rightarrow> index_dict \<Rightarrow> index_dict" where
  "add_subs dir pm d = fold (\<lambda>k. AList.update k (OMidx pm)) (sub_paths dir pm) d"

definition py_exists :: "pack_env \<Rightarrow> bytes \<Rightarrow> bool" where
  "py_exists env p \<longleftrightarrow> pe_files env p \<noteq> None"

text \<open>Opening the multi-indexes that are not known: those opened, and those removed.\<close>

fun open_midxes :: "pack_env \<Rightarrow> index_dict \<Rightarrow> bytes list \<Rightarrow> (pack_midx list \<times> bytes list) res" where
  "open_midxes env d [] = Inr ([], [])"
| "open_midxes env d (full # fulls) =
     (if dict_has d full then open_midxes env d fulls
      else case pe_files env full of
        None \<Rightarrow> Inl IOError
      | Some data \<Rightarrow>
          (case open_midx (py_exists env) False full data of
             Inr mx \<Rightarrow>
               res_bind (open_midxes env d fulls) (\<lambda>(mxs, rm).
                 Inr (case mx of None \<Rightarrow> mxs | Some pm \<Rightarrow> if pm_nsha pm = 0 then mxs else pm # mxs, rm))
           | Inl (MissingIdxs missing) \<Rightarrow>
               res_bind (open_midxes env d fulls) (\<lambda>(mxs, rm). Inr (mxs, full # rm))
           | Inl e \<Rightarrow> Inl e))"

text \<open>Keeping the multi-indexes that cover an index no other multi-index covers.\<close>

fun keep_needed :: "bytes \<Rightarrow> pack_midx list \<Rightarrow> index_dict \<Rightarrow> index_dict \<times> bytes list" where
  "keep_needed dir [] d = (d, [])"
| "keep_needed dir (pm # pms) d =
     (if \<exists>k\<in>set (sub_paths dir pm). \<not> dict_has d k \<or> \<not> is_midx (the (map_of d k))
      then keep_needed dir pms (add_subs dir pm (AList.update (pm_name pm) (OMidx pm) d))
      else case keep_needed dir pms d of (d', rm) \<Rightarrow> (d', pm_name pm # rm))"

definition midx_pass :: "pack_env \<Rightarrow> pack_list \<Rightarrow> index_dict \<Rightarrow> (index_dict \<times> bytes list) res" where
  "midx_pass env pl d0 =
     (let gone = (\<lambda>ix. is_midx ix \<and> oi_name ix \<notin> set (pe_midxes env));
          d1 = filter (\<lambda>(k, ix). \<not> gone ix) d0;
          packs = filter (\<lambda>ix. \<not> gone ix) (pl_packs pl);
          d2 = fold (\<lambda>ix d. case ix of OIdx px \<Rightarrow> d | OMidx pm \<Rightarrow> add_subs (pl_dir pl) pm d) packs d1
      in res_bind (open_midxes env d2 (pe_midxes env)) (\<lambda>(mxs, rm).
           case keep_needed (pl_dir pl) (sort_key (\<lambda>pm. (- int (pm_nsha pm), - pe_mtime env (pm_name pm))) mxs) d2 of
             (d3, rm') \<Rightarrow> Inr (d3, rm @ rm')))"

text \<open>Opening the pack indexes not covered; one that does not open is noted as an error and left out.\<close>

fun open_idxs :: "pack_env \<Rightarrow> bytes list \<Rightarrow> index_dict \<Rightarrow> index_dict res" where
  "open_idxs env [] d = Inr d"
| "open_idxs env (full # fulls) d =
     (if dict_has d full then open_idxs env fulls d
      else case pe_files env full of
        None \<Rightarrow> Inl IOError
      | Some data \<Rightarrow>
          (case open_idx full data of
             Inr px \<Rightarrow> open_idxs env fulls (AList.update full (OIdx px) d)
           | Inl GitError \<Rightarrow> open_idxs env fulls d
           | Inl e \<Rightarrow> Inl e))"

definition refresh_bloom :: "pack_env \<Rightarrow> bytes \<Rightarrow> nat \<Rightarrow> bloom option res" where
  "refresh_bloom env dir n_total =
     (let bfull = path_join dir ''bup.bloom''
      in case pe_files env bfull of
           None \<Rightarrow> Inr None
         | Some data \<Rightarrow>
             (case bloom_open bfull data of
                Inr b \<Rightarrow> Inr (if bl_entries b \<noteq> 0 \<and> n_total \<le> bl_entries b then Some b
                              else if bl_entries b = 0 then Some b else None)
              | Inl BloomInvalid \<Rightarrow> Inr None
              | Inl e \<Rightarrow> Inl e))"

text \<open>The list after \<open>refresh\<close>, and the multi-indexes it removed.\<close>

definition refresh :: "pack_env \<Rightarrow> pack_list \<Rightarrow> bool \<Rightarrow> (pack_list \<times> bytes list) res" where
  "refresh env pl skip_midx0 =
     (let skip_midx = skip_midx0 \<or> pl_ignore_midx pl;
          pl0 = pl\<lparr>pl_bloom := None, pl_do_bloom := False\<rparr>;
          d0 = fold (\<lambda>ix. AList.update (oi_name ix) ix) (filter (\<lambda>ix. \<not> skip_midx \<or> \<not> is_midx ix) (pl_packs pl)) []
      in if \<not> pe_dir_exists env then Inr (pl0, [])
         else
           res_bind (if skip_midx then Inr (d0, []) else midx_pass env pl d0) (\<lambda>(d1, rm).
           res_bind (open_idxs env (pe_idxs env) d1) (\<lambda>d2.
           let packs = rev (sort_key oi_len (rev (pe_order env (remdups (map snd d2)))));
               pl1 = pl0\<lparr>pl_packs := packs\<rparr>
           in res_bind (refresh_bloom env (pl_dir pl) (pil_len pl1)) (\<lambda>b.
              Inr (pl1\<lparr>pl_bloom := b, pl_do_bloom := truthy_bloom b \<and> pil_len pl1 \<le> bl_entries (the b)\<rparr>, rm)))))"

section \<open>Properties\<close>

lemma scan_packs_ok:
  assumes "\<forall>p\<in>set (pl_packs pl). index_ok p" "length h = 20"
  shows "\<exists>r pl'. scan_packs files pl h ws False = Some (Inr (r, pl')) \<and>
    (r \<noteq> None \<longleftrightarrow> (\<exists>p\<in>set (pl_packs pl). h \<in> set (index_iter p))) \<and>
    mset (pl_packs pl') = mset (pl_packs pl) \<and> pl_bloom pl' = pl_bloom pl"
proof -
  obtain r where r: "first_hit (\<lambda>p. index_exists p h ws False) (pl_packs pl) = Some (Inr r)"
    "r \<noteq> None \<longleftrightarrow> (\<exists>p\<in>set (pl_packs pl). h \<in> set (index_iter p))" "\<forall>i ret. r = Some (i, ret) \<longrightarrow> i < length (pl_packs pl)"
    using oidx.first_hit_ok [OF assms, of ws] by blast
  show ?thesis
  proof (cases r)
    case None
    then show ?thesis using r by (simp add: scan_packs_def)
  next
    case (Some x)
    obtain i ret where x: "x = (i, ret)" by fastforce
    let ?ps = "pl_packs pl"
    have i: "i < length ?ps" using r(3) Some x by simp
    then have "mset ?ps = mset (take i ?ps @ ?ps ! i # drop (Suc i) ?ps)" by (simp add: id_take_nth_drop [symmetric])
    then have "mset (?ps ! i # take i ?ps @ drop (Suc i) ?ps) = mset ?ps" by simp
    then show ?thesis using r Some x by (simp add: scan_packs_def Let_def)
  qed
qed

lemma pil_exists_ok:
  assumes "\<forall>p\<in>set (pl_packs pl). index_ok p" "length h = 20"
    and "case pl_bloom pl of None \<Rightarrow> True | Some b \<Rightarrow>
      (\<exists>found. bloom_exists b h = Inr found) \<and> ((\<exists>p\<in>set (pl_packs pl). h \<in> set (index_iter p)) \<longrightarrow> bloom_exists b h = Inr True)"
  shows "\<exists>r pl'. pil_exists files pl h ws False = Some (Inr (r, pl')) \<and>
    (r \<noteq> None \<longleftrightarrow> (\<exists>p\<in>set (pl_packs pl). h \<in> set (index_iter p))) \<and>
    mset (pl_packs pl') = mset (pl_packs pl) \<and> pl_bloom pl' = pl_bloom pl"
proof (cases "pl_do_bloom pl \<and> truthy_bloom (pl_bloom pl)")
  case False
  show ?thesis unfolding pil_exists_def if_not_P [OF False] by (rule scan_packs_ok [OF assms(1,2)])
next
  case True
  then obtain b where b: "pl_bloom pl = Some b" by (auto simp: truthy_bloom_def split: option.splits)
  then obtain found where f: "bloom_exists b h = Inr found" using assms(3) by auto
  show ?thesis
  proof (cases found)
    case False
    then have "\<not> (\<exists>p\<in>set (pl_packs pl). h \<in> set (index_iter p))" using assms(3) b f by auto
    then show ?thesis using True b f False by (simp add: pil_exists_def)
  next
    case found: True
    have "\<forall>p\<in>set (pl_packs (pl\<lparr>pl_do_bloom := False\<rparr>)). index_ok p" using assms(1) by simp
    from scan_packs_ok [OF this assms(2), of files ws]
    show ?thesis using True b f found by (simp add: pil_exists_def)
  qed
qed

text \<open>C23: searching the list is right whatever its state: over well-formed indexes and with a filter
  that misses none of their objects, \<open>exists\<close> returns, with a location exactly for the objects of some
  index; it only reorders the list, so every later search is right as well.\<close>

theorem pil_exists_correct:
  assumes "\<forall>p\<in>set (pl_packs pl). index_ok p" "length h = 20"
    and "case pl_bloom pl of None \<Rightarrow> True | Some b \<Rightarrow>
      (\<exists>found. bloom_exists b h = Inr found) \<and> ((\<exists>p\<in>set (pl_packs pl). h \<in> set (index_iter p)) \<longrightarrow> bloom_exists b h = Inr True)"
  shows "\<exists>r pl'. pil_exists files pl h ws False = Some (Inr (r, pl')) \<and>
    (r \<noteq> None \<longleftrightarrow> (\<exists>p\<in>set (pl_packs pl). h \<in> set (index_iter p))) \<and>
    mset (pl_packs pl') = mset (pl_packs pl) \<and> pl_bloom pl' = pl_bloom pl"
  using assms by (rule pil_exists_ok)

text \<open>The entry of a path is an index of that name or a multi-index that covers it.\<close>

definition covers :: "bytes \<Rightarrow> open_index \<Rightarrow> bytes \<Rightarrow> bool" where
  "covers dir ix k \<longleftrightarrow>
     oi_name ix = k \<or> (case ix of OIdx px \<Rightarrow> False | OMidx pm \<Rightarrow> k \<in> set (sub_paths dir pm))"

definition dict_ok :: "bytes \<Rightarrow> index_dict \<Rightarrow> bool" where
  "dict_ok dir d \<longleftrightarrow> (\<forall>k ix. map_of d k = Some ix \<longrightarrow> covers dir ix k)"

lemma dict_ok_update: "dict_ok dir d \<Longrightarrow> covers dir ix k \<Longrightarrow> dict_ok dir (AList.update k ix d)"
  by (auto simp: dict_ok_def update_conv')

lemma dict_ok_subs:
  assumes "dict_ok dir d"
  shows "dict_ok dir (add_subs dir pm d)"
proof -
  have "dict_ok dir (fold (\<lambda>k. AList.update k (OMidx pm)) ks d)" if "set ks \<subseteq> set (sub_paths dir pm)" for ks
    using that assms
    by (induction ks arbitrary: d) (simp_all add: dict_ok_update covers_def)
  then show ?thesis by (simp add: add_subs_def)
qed

lemma dict_ok_needed: "dict_ok dir d \<Longrightarrow> keep_needed dir pms d = (d', rm) \<Longrightarrow> dict_ok dir d'"
proof (induction pms arbitrary: d rm)
  case (Cons pm pms)
  have "dict_ok dir (add_subs dir pm (AList.update (pm_name pm) (OMidx pm) d))"
    using Cons.prems(1) by (intro dict_ok_subs dict_ok_update) (simp_all add: covers_def)
  then show ?case
    using Cons.IH [of "add_subs dir pm (AList.update (pm_name pm) (OMidx pm) d)"] Cons.IH [of d] Cons.prems
    by (simp split: if_splits prod.splits)
qed simp

lemma dict_ok_midx_pass:
  assumes "dict_ok (pl_dir pl) d0" "distinct (map fst d0)" "midx_pass env pl d0 = Inr (d, rm)"
  shows "dict_ok (pl_dir pl) d"
proof -
  define d1 where "d1 = filter (\<lambda>(k, ix). \<not> (is_midx ix \<and> oi_name ix \<notin> set (pe_midxes env))) d0"
  have d1: "dict_ok (pl_dir pl) d1"
    unfolding dict_ok_def
  proof (intro allI impI)
    fix k ix assume "map_of d1 k = Some ix"
    then have "(k, ix) \<in> set d0" using map_of_SomeD [of d1 k ix] by (auto simp: d1_def)
    then have "map_of d0 k = Some ix" using assms(2) by simp
    then show "covers (pl_dir pl) ix k" using assms(1) by (simp add: dict_ok_def)
  qed
  have d2: "dict_ok (pl_dir pl) (fold (\<lambda>ix d. case ix of OIdx px \<Rightarrow> d | OMidx pm \<Rightarrow> add_subs (pl_dir pl) pm d) packs d1)" for packs
    using d1 by (induction packs arbitrary: d1) (auto intro!: dict_ok_subs split: open_index.splits)
  define packs where "packs = filter (\<lambda>ix. \<not> (is_midx ix \<and> oi_name ix \<notin> set (pe_midxes env))) (pl_packs pl)"
  define d2' where "d2' = fold (\<lambda>ix d. case ix of OIdx px \<Rightarrow> d | OMidx pm \<Rightarrow> add_subs (pl_dir pl) pm d) packs d1"
  have eq: "midx_pass env pl d0 = res_bind (open_midxes env d2' (pe_midxes env)) (\<lambda>(mxs, rm).
      case keep_needed (pl_dir pl) (sort_key (\<lambda>pm. (- int (pm_nsha pm), - pe_mtime env (pm_name pm))) mxs) d2' of
        (d3, rm') \<Rightarrow> Inr (d3, rm @ rm'))"
    unfolding midx_pass_def Let_def d1_def packs_def d2'_def ..
  then obtain mxs rm1 rm2 where
    "keep_needed (pl_dir pl) (sort_key (\<lambda>pm. (- int (pm_nsha pm), - pe_mtime env (pm_name pm))) mxs) d2' = (d, rm2)"
    using assms(3) by (cases "open_midxes env d2' (pe_midxes env)") (auto split: prod.splits)
  from dict_ok_needed [OF d2 [of packs, folded d2'_def] this] show ?thesis .
qed

lemma open_idxs_ok:
  assumes "open_idxs env fulls d = Inr d'" "dict_ok dir d"
  shows "dict_ok dir d' \<and> (\<forall>k. dict_has d k \<longrightarrow> dict_has d' k) \<and>
    (\<forall>full\<in>set fulls. \<forall>data px. pe_files env full = Some data \<and> open_idx full data = Inr px \<longrightarrow> dict_has d' full)"
  using assms
proof (induction fulls arbitrary: d)
  case Nil
  then show ?case by simp
next
  case (Cons full fulls)
  show ?case
  proof (cases "dict_has d full")
    case True
    then show ?thesis using Cons by auto
  next
    case False
    then obtain data where data: "pe_files env full = Some data" using Cons.prems(1) by (auto split: option.splits)
    show ?thesis
    proof (cases "open_idx full data")
      case (Inl e)
      then have "e = GitError" "open_idxs env fulls d = Inr d'"
        using Cons.prems(1) False data by (auto split: py_error.splits)
      then show ?thesis using Cons.IH [of d] Cons.prems(2) data Inl by auto
    next
      case (Inr px)
      have px: "px_name px = full" "px_nsha px \<noteq> 0"
        using Inr by (auto simp: open_idx_def open_v1_def open_v2_def Let_def res_simps split: if_splits)
      let ?d = "AList.update full (OIdx px) d"
      have "dict_ok dir ?d" using Cons.prems(2) px(1) by (intro dict_ok_update) (auto simp: covers_def)
      then have IH: "dict_ok dir d'" "\<forall>k. dict_has ?d k \<longrightarrow> dict_has d' k"
        "\<forall>full\<in>set fulls. \<forall>data px. pe_files env full = Some data \<and> open_idx full data = Inr px \<longrightarrow> dict_has d' full"
        using Cons.IH [of ?d] Cons.prems(1) False data Inr by auto
      have "dict_has ?d k" if "dict_has d k \<or> k = full" for k
        using that px(2) by (auto simp: dict_has_def update_conv')
      then show ?thesis using IH by auto
    qed
  qed
qed

lemma first_dict:
  "dict_ok dir (fold (\<lambda>ix. AList.update (oi_name ix) ix) ixs []) \<and>
    distinct (map fst (fold (\<lambda>ix. AList.update (oi_name ix) ix) ixs []))"
proof -
  have "dict_ok dir (fold (\<lambda>ix. AList.update (oi_name ix) ix) ixs d) \<and>
    distinct (map fst (fold (\<lambda>ix. AList.update (oi_name ix) ix) ixs d))"
    if "dict_ok dir d" "distinct (map fst d)" for d
    using that by (induction ixs arbitrary: d) (simp_all add: dict_ok_update covers_def distinct_update)
  moreover have "dict_ok dir []" by (simp add: dict_ok_def)
  ultimately show ?thesis by simp
qed

text \<open>C25: \<open>refresh\<close> leaves no pack index out: after it, for each \<open>*.idx\<close> file of the directory that
  opens, the list holds an index of that name or a multi-index that covers it, whatever the list held
  before, whichever multi-indexes it removed as redundant or broken, and in whatever order the set of
  indexes comes.\<close>

theorem refresh_covers:
  assumes "pe_dir_exists env" "refresh env pl skip_midx = Inr (pl', rm)" "\<And>ixs. set (pe_order env ixs) = set ixs"
    and "full \<in> set (pe_idxs env)" "pe_files env full = Some data" "open_idx full data = Inr px"
  shows "\<exists>ix\<in>set (pl_packs pl'). covers (pl_dir pl) ix full \<and> oi_len ix \<noteq> 0"
proof -
  let ?skip = "skip_midx \<or> pl_ignore_midx pl"
  define d0 where "d0 = fold (\<lambda>ix. AList.update (oi_name ix) ix) (filter (\<lambda>ix. \<not> ?skip \<or> \<not> is_midx ix) (pl_packs pl)) []"
  obtain d1 rm1 d2 b where d: "(if ?skip then Inr (d0, []) else midx_pass env pl d0) = Inr (d1, rm1)"
    "open_idxs env (pe_idxs env) d1 = Inr d2"
    "pl_packs pl' = rev (sort_key oi_len (rev (pe_order env (remdups (map snd d2)))))"
    using assms(1,2) unfolding refresh_def Let_def d0_def [symmetric]
    by (auto simp: res_simps split: prod.splits)
  have "dict_ok (pl_dir pl) d0" "distinct (map fst d0)" unfolding d0_def using first_dict by blast+
  then have d1: "dict_ok (pl_dir pl) d1"
    using d(1) dict_ok_midx_pass [of pl d0 env d1 rm1] by (auto split: if_splits)
  have d2: "dict_ok (pl_dir pl) d2" "dict_has d2 full"
    using open_idxs_ok [OF d(2) d1] assms(4,5,6) by blast+
  then obtain ix where ix: "map_of d2 full = Some ix" "oi_len ix \<noteq> 0"
    by (auto simp: dict_has_def split: option.splits)
  then have "covers (pl_dir pl) ix full" using d2(1) by (simp add: dict_ok_def)
  moreover have "ix \<in> set (pl_packs pl')"
    using map_of_SomeD [OF ix(1)] by (force simp: d(3) assms(3))
  ultimately show ?thesis using ix(2) by blast
qed

text \<open>One pack index, written as the pack writer writes it.\<close>

definition witness_list :: "pack_idx \<Rightarrow> pack_list" where
  "witness_list px = \<lparr>pl_dir = ''d'', pl_packs = [OIdx px], pl_do_bloom = False, pl_bloom = None, pl_ignore_midx = False\<rparr>"

theorem pil_exists_correct_witness:
  "\<exists>px r pl'. px_nsha px = 1 \<and> idx_iter px = [replicate 20 (CHR ''x'')] \<and>
     pil_exists (\<lambda>_. None) (witness_list px) (replicate 20 (CHR ''x'')) True False = Some (Inr (r, pl')) \<and> r \<noteq> None"
proof -
  have "suffix ''.idx'' ''d/a.idx''" by code_simp
  then obtain data px where px: "open_idx ''d/a.idx'' data = Inr px" "px_nsha px = 1" "idx_iter px = [replicate 20 (CHR ''x'')]"
    "wf_idx px [replicate 20 (CHR ''x'')]"
    by (rule one_entry_file)
  have 1: "\<forall>p\<in>set (pl_packs (witness_list px)). index_ok p"
    using px(3,4) by (simp add: witness_list_def idx_ok_def)
  have 2: "length (replicate 20 (CHR ''x'')) = 20" by simp
  have 3: "case pl_bloom (witness_list px) of None \<Rightarrow> True | Some b \<Rightarrow>
      (\<exists>found. bloom_exists b (replicate 20 (CHR ''x'')) = Inr found) \<and>
      ((\<exists>p\<in>set (pl_packs (witness_list px)). replicate 20 (CHR ''x'') \<in> set (index_iter p)) \<longrightarrow>
        bloom_exists b (replicate 20 (CHR ''x'')) = Inr True)"
    by (simp add: witness_list_def)
  obtain r pl' where "pil_exists (\<lambda>_. None) (witness_list px) (replicate 20 (CHR ''x'')) True False = Some (Inr (r, pl'))"
    "r \<noteq> None \<longleftrightarrow> (\<exists>p\<in>set (pl_packs (witness_list px)). replicate 20 (CHR ''x'') \<in> set (index_iter p))"
    using pil_exists_correct [OF 1 2 3, of "\<lambda>_. None" True] by blast
  then show ?thesis using px(2,3) by (auto simp: witness_list_def)
qed

theorem refresh_covers_witness:
  "\<exists>env pl pl' rm ix. pe_idxs env = [''d/a.idx''] \<and> pl_packs pl = [] \<and> refresh env pl False = Inr (pl', rm) \<and>
     ix \<in> set (pl_packs pl') \<and> covers ''d'' ix ''d/a.idx''"
proof -
  have "suffix ''.idx'' ''d/a.idx''" by code_simp
  then obtain data px where px: "open_idx ''d/a.idx'' data = Inr px" "px_nsha px = 1"
    by (rule one_entry_file)
  let ?env = "\<lparr>pe_dir_exists = True, pe_midxes = [], pe_idxs = [''d/a.idx''],
    pe_files = (\<lambda>p. if p = ''d/a.idx'' then Some data else None), pe_mtime = \<lambda>_. 0, pe_order = \<lambda>x. x\<rparr>"
  let ?pl = "\<lparr>pl_dir = ''d'', pl_packs = [], pl_do_bloom = False, pl_bloom = None, pl_ignore_midx = False\<rparr>"
  have "path_join ''d'' ''bup.bloom'' \<noteq> ''d/a.idx''" by code_simp
  then have r: "\<exists>pl' rm. refresh ?env ?pl False = Inr (pl', rm)"
    using px(1) by (simp add: refresh_def midx_pass_def Let_def dict_has_def refresh_bloom_def)
  then obtain pl' rm where r: "refresh ?env ?pl False = Inr (pl', rm)" by blast
  have "\<exists>ix\<in>set (pl_packs pl'). covers (pl_dir ?pl) ix ''d/a.idx'' \<and> oi_len ix \<noteq> 0"
    by (rule refresh_covers [OF _ r]) (use px(1) in simp_all)
  then obtain ix where "ix \<in> set (pl_packs pl')" "covers ''d'' ix ''d/a.idx''" by auto
  then show ?thesis using r
    by (intro exI [of _ ?env] exI [of _ ?pl] exI [of _ pl'] exI [of _ rm] exI [of _ ix]) simp
qed

end
