(* ===== verification/Pack_Store.thy ===== *)
theory Pack_Store
  imports Pack_List Git_Format Git_Commit
begin

text \<open>
  Writing packs: \<open>LocalPackStore\<close> and \<open>PackWriter\<close> of \<open>lib/bup/git.py\<close>.  \<open>zlib\<close>'s compressor and
  \<open>crc32\<close> and SHA-1 are parameters.  The directory the store searches for existing objects is the
  environment of \<open>Pack_List\<close>.  An operation that raises gives the exception and no state.
\<close>

section \<open>The store\<close>

text \<open>\<open>ps_done\<close> is what \<open>finish_pack\<close> put in place: name prefix, pack and index of each pack.\<close>

record pack_store =
  ps_repo_dir :: bytes
  ps_file :: "bytes option"
  ps_idx :: idx_writer
  ps_obj_count :: nat
  ps_objcache :: "pack_list option"
  ps_done :: "(bytes \<times> bytes \<times> bytes) list"

definition new_store :: "bytes \<Rightarrow> pack_store" where
  "new_store repo_dir =
     \<lparr>ps_repo_dir = repo_dir, ps_file = None, ps_idx = idx_writer0, ps_obj_count = 0, ps_objcache = None, ps_done = []\<rparr>"

definition new_pack_list :: "pack_env \<Rightarrow> bytes \<Rightarrow> pack_list res" where
  "new_pack_list env dir =
     res_bind (refresh env \<lparr>pl_dir = dir, pl_packs = [], pl_do_bloom = False, pl_bloom = None, pl_ignore_midx = False\<rparr> False)
       (\<lambda>(pl, rm). Inr pl)"

definition store_exists :: "pack_env \<Rightarrow> bytes \<Rightarrow> bool \<Rightarrow> pack_store \<Rightarrow> (object_location option \<times> pack_store) res option" where
  "store_exists env oid want_source st =
     (case (case ps_objcache st of
              Some pl \<Rightarrow> Inr pl
            | None \<Rightarrow> new_pack_list env (path_join (ps_repo_dir st) ''objects/pack'')) of
        Inl e \<Rightarrow> Some (Inl e)
      | Inr pl \<Rightarrow>
          map_option (\<lambda>r. res_bind r (\<lambda>(loc, pl'). Inr (loc, st\<lparr>ps_objcache := Some pl'\<rparr>)))
            (pil_exists (pe_files env) pl oid want_source False))"

definition pack_head :: bytes where
  "pack_head = ''PACK'' @ be_bytes 4 2 @ be_bytes 4 0"

definition store_open :: "pack_store \<Rightarrow> pack_store" where
  "store_open st =
     (case ps_file st of
        None \<Rightarrow> st\<lparr>ps_file := Some pack_head, ps_idx := idx_writer0\<rparr>
      | Some _ \<Rightarrow> st)"

definition update_idx :: "bytes \<Rightarrow> nat \<Rightarrow> nat \<Rightarrow> pack_store \<Rightarrow> pack_store res" where
  "update_idx sha crc sz st =
     res_bind (py_assert (sha \<noteq> [])) (\<lambda>_.
     res_bind (idx_add sha crc (length (the (ps_file st)) - sz) (ps_idx st)) (\<lambda>w. Inr (st\<lparr>ps_idx := w\<rparr>)))"

definition store_write :: "(bytes \<Rightarrow> nat) \<Rightarrow> bytes list \<Rightarrow> bytes \<Rightarrow> pack_store \<Rightarrow> ((nat \<times> nat) \<times> pack_store) res" where
  "store_write crc32 datalist sha st =
     (let st1 = store_open st;
          oneblob = concat datalist;
          st2 = st1\<lparr>ps_file := Some (the (ps_file st1) @ oneblob)\<rparr>;
          nw = length oneblob;
          crc = crc32 oneblob AND 0xffffffff
      in res_bind (update_idx sha crc nw st2) (\<lambda>st3.
         Inr ((nw, crc), st3\<lparr>ps_obj_count := ps_obj_count st3 + 1\<rparr>)))"

text \<open>
  The pack as it is put in place: the count goes to offset 8 (\<open>struct.pack('!i')\<close>), the hash to the
  end.  The \<open>finally\<close> clause forgets the file and the object cache in any case.
\<close>

definition store_reset :: "pack_store \<Rightarrow> pack_store" where
  "store_reset st = st\<lparr>ps_file := None, ps_idx := idx_writer0, ps_obj_count := 0, ps_objcache := None\<rparr>"

definition finish_pack :: "(bytes \<Rightarrow> bytes) \<Rightarrow> bool \<Rightarrow> pack_store \<Rightarrow> (bytes option \<times> pack_store) res" where
  "finish_pack sha1 abort st =
     (case ps_file st of
        None \<Rightarrow> Inr (None, store_reset st)
      | Some f \<Rightarrow>
          if abort then Inr (None, store_reset st)
          else if \<not> ps_obj_count st < 2 ^ 31 then Inl StructError
          else
            let pack = take 8 f @ be_bytes 4 (ps_obj_count st) @ drop 12 f;
                packbin = sha1 pack
            in res_bind (idx_write sha1 (ps_idx st) packbin) (\<lambda>idx.
               let nameprefix = path_join (ps_repo_dir st) (''objects/pack/pack-'' @ hexlify packbin)
               in Inr (Some nameprefix, store_reset (st\<lparr>ps_done := ps_done st @ [(nameprefix, pack @ packbin, idx)]\<rparr>))))"

definition store_abort :: "(bytes \<Rightarrow> bytes) \<Rightarrow> pack_store \<Rightarrow> (bytes option \<times> pack_store) res" where
  "store_abort sha1 st = finish_pack sha1 True st"

definition store_close :: "(bytes \<Rightarrow> bytes) \<Rightarrow> pack_store \<Rightarrow> (bytes option \<times> pack_store) res" where
  "store_close sha1 st = finish_pack sha1 False st"

section \<open>The writer\<close>

record pack_writer =
  pw_byte_count :: nat
  pw_obj_count :: nat
  pw_store :: pack_store
  pw_pending :: "bytes list"
  pw_level :: int
  pw_max_size :: nat
  pw_max_objects :: nat

definition new_writer :: "pack_store \<Rightarrow> int option \<Rightarrow> nat option \<Rightarrow> nat option \<Rightarrow> pack_writer" where
  "new_writer store compression_level max_pack_size max_pack_objects =
     (let sz = (case max_pack_size of None \<Rightarrow> 1000 * 1000 * 1000 | Some n \<Rightarrow> if n = 0 then 1000 * 1000 * 1000 else n);
          objs = (case max_pack_objects of
                    Some n \<Rightarrow> if n \<noteq> 0 then n else max 1 (sz div 5000)
                  | None \<Rightarrow> max 1 (sz div 5000))
      in \<lparr>pw_byte_count = 0, pw_obj_count = 0, pw_store = store, pw_pending = [],
          pw_level = (case compression_level of None \<Rightarrow> 1 | Some l \<Rightarrow> l), pw_max_size = sz, pw_max_objects = objs\<rparr>)"

text \<open>The outside functions, together.\<close>

record pack_fns =
  pf_sha1 :: "bytes \<Rightarrow> bytes"
  pf_crc32 :: "bytes \<Rightarrow> nat"
  pf_compress :: "int \<Rightarrow> bytes \<Rightarrow> bytes \<times> bytes"

definition writer_breakpoint :: "pack_fns \<Rightarrow> pack_writer \<Rightarrow> (bytes option \<times> pack_writer) res" where
  "writer_breakpoint fns pw =
     res_bind (finish_pack (pf_sha1 fns) False (pw_store pw)) (\<lambda>(result, st).
     Inr (result, pw\<lparr>pw_store := st, pw_byte_count := 0, pw_obj_count := 0\<rparr>))"

definition writer_write :: "pack_fns \<Rightarrow> bytes \<Rightarrow> bytes \<Rightarrow> bytes \<Rightarrow> pack_writer \<Rightarrow> (bytes \<times> pack_writer) res" where
  "writer_write fns sha type content pw =
     res_bind (py_assert (sha \<noteq> [])) (\<lambda>_.
     res_bind (encode_packobj (pf_compress fns) type content (pw_level pw)) (\<lambda>encoded.
     res_bind (store_write (pf_crc32 fns) encoded sha (pw_store pw)) (\<lambda>((sz, crc), st).
     let exp_size = sum_list (map length encoded)
     in res_bind (py_assert (exp_size = sz)) (\<lambda>_.
        let pw' = pw\<lparr>pw_store := st, pw_byte_count := pw_byte_count pw + exp_size, pw_obj_count := pw_obj_count pw + 1\<rparr>
        in if pw_max_size pw' \<le> pw_byte_count pw' \<or> pw_max_objects pw' \<le> pw_obj_count pw'
           then res_bind (writer_breakpoint fns pw') (\<lambda>(_, pw''). Inr (sha, pw''))
           else Inr (sha, pw')))))"

definition writer_exists :: "pack_env \<Rightarrow> bytes \<Rightarrow> bool \<Rightarrow> pack_writer \<Rightarrow> (bool \<times> pack_writer) res option" where
  "writer_exists env oid want_source pw =
     (if oid \<in> set (pw_pending pw) then Some (Inr (True, pw))
      else map_option (\<lambda>r. res_bind r (\<lambda>(loc, st). Inr (loc \<noteq> None, pw\<lparr>pw_store := st\<rparr>)))
             (store_exists env oid want_source (pw_store pw)))"

definition add_pending :: "bytes \<Rightarrow> pack_writer \<Rightarrow> pack_writer" where
  "add_pending sha pw = pw\<lparr>pw_pending := List.insert sha (pw_pending pw)\<rparr>"

definition just_write :: "pack_fns \<Rightarrow> bytes \<Rightarrow> bytes \<Rightarrow> bytes \<Rightarrow> pack_writer \<Rightarrow> pack_writer res" where
  "just_write fns sha type content pw =
     res_bind (writer_write fns sha type content pw) (\<lambda>(_, pw'). Inr (add_pending sha pw'))"

definition maybe_write :: "pack_fns \<Rightarrow> pack_env \<Rightarrow> bytes \<Rightarrow> bytes \<Rightarrow> pack_writer \<Rightarrow> (bytes \<times> pack_writer) res option" where
  "maybe_write fns env type content pw =
     (case calc_hash (pf_sha1 fns) type content of
        Inl e \<Rightarrow> Some (Inl e)
      | Inr sha \<Rightarrow>
          (case writer_exists env sha False pw of
             None \<Rightarrow> None
           | Some (Inl e) \<Rightarrow> Some (Inl e)
           | Some (Inr (there, pw1)) \<Rightarrow>
               if there then Some (Inr (sha, pw1))
               else Some (res_bind (writer_write fns sha type content pw1) (\<lambda>(_, pw2). Inr (sha, add_pending sha pw2)))))"

definition new_blob :: "pack_fns \<Rightarrow> pack_env \<Rightarrow> bytes \<Rightarrow> pack_writer \<Rightarrow> (bytes \<times> pack_writer) res option" where
  "new_blob fns env blob pw = maybe_write fns env ''blob'' blob pw"

definition new_tree :: "pack_fns \<Rightarrow> pack_env \<Rightarrow> tree_ent list \<Rightarrow> pack_writer \<Rightarrow> (bytes \<times> pack_writer) res option" where
  "new_tree fns env shalist pw =
     (case tree_encode shalist of
        Inl e \<Rightarrow> Some (Inl e)
      | Inr content \<Rightarrow> maybe_write fns env ''tree'' content pw)"

definition new_commit ::
  "pack_fns \<Rightarrow> pack_env \<Rightarrow> (int \<Rightarrow> bytes) \<Rightarrow> bytes \<Rightarrow> bytes option \<Rightarrow> bytes \<Rightarrow> int \<Rightarrow> int option \<Rightarrow>
   bytes \<Rightarrow> int \<Rightarrow> int option \<Rightarrow> bytes \<Rightarrow> pack_writer \<Rightarrow> (bytes \<times> pack_writer) res option" where
  "new_commit fns env utc tree parent author adate_sec adate_tz committer cdate_sec cdate_tz msg pw =
     maybe_write fns env ''commit''
       (create_commit_blob utc tree parent author adate_sec adate_tz committer cdate_sec cdate_tz msg) pw"

definition writer_close :: "pack_fns \<Rightarrow> pack_writer \<Rightarrow> (bytes option \<times> pack_writer) res" where
  "writer_close fns pw =
     res_bind (store_close (pf_sha1 fns) (pw_store pw)) (\<lambda>(result, st). Inr (result, pw\<lparr>pw_store := st\<rparr>))"

definition writer_abort :: "pack_fns \<Rightarrow> pack_writer \<Rightarrow> pack_writer res" where
  "writer_abort fns pw = res_bind (store_abort (pf_sha1 fns) (pw_store pw)) (\<lambda>(_, st). Inr (pw\<lparr>pw_store := st\<rparr>))"

section \<open>What is in a pack\<close>

text \<open>An object of a pack: its id, type and content; its bytes in the pack.\<close>

type_synonym pack_obj = "bytes \<times> bytes \<times> bytes"

definition enc :: "pack_fns \<Rightarrow> int \<Rightarrow> bytes \<Rightarrow> bytes \<Rightarrow> bytes" where
  "enc fns lvl type content = (case encode_packobj (pf_compress fns) type content lvl of Inr ps \<Rightarrow> concat ps | Inl _ \<Rightarrow> [])"

definition obj_bytes :: "pack_fns \<Rightarrow> int \<Rightarrow> pack_obj \<Rightarrow> bytes" where
  "obj_bytes fns lvl g = enc fns lvl (fst (snd g)) (snd (snd g))"

fun obj_entries :: "pack_fns \<Rightarrow> int \<Rightarrow> nat \<Rightarrow> pack_obj list \<Rightarrow> idx_entry list" where
  "obj_entries fns lvl ofs [] = []"
| "obj_entries fns lvl ofs (g # gs) =
     (fst g, pf_crc32 fns (obj_bytes fns lvl g) AND 0xffffffff, ofs) # obj_entries fns lvl (ofs + length (obj_bytes fns lvl g)) gs"

abbreviation objs_bytes :: "pack_fns \<Rightarrow> int \<Rightarrow> pack_obj list \<Rightarrow> bytes" where
  "objs_bytes fns lvl gs \<equiv> concat (map (obj_bytes fns lvl) gs)"

lemma obj_entries_append:
  "obj_entries fns lvl ofs (gs @ hs) = obj_entries fns lvl ofs gs @ obj_entries fns lvl (ofs + length (objs_bytes fns lvl gs)) hs"
  by (induction gs arbitrary: ofs) (simp_all add: add.assoc)

lemma length_obj_entries [simp]: "length (obj_entries fns lvl ofs gs) = length gs"
  by (induction gs arbitrary: ofs) simp_all

lemma fst_obj_entries [simp]: "map fst (obj_entries fns lvl ofs gs) = map fst gs"
  by (induction gs arbitrary: ofs) simp_all

lemma and_32: "(x :: nat) AND 0xffffffff < 4294967296"
proof -
  have "x AND 0xffffffff = take_bit 32 x" by (simp add: take_bit_eq_mask mask_eq_exp_minus_1)
  then show ?thesis using take_bit_nat_less_exp [of 32 x] by simp
qed

lemma obj_entries_ok:
  assumes "\<forall>g\<in>set gs. length (fst g) = 20" "ofs + length (objs_bytes fns lvl gs) < 2 ^ 64"
  shows "\<forall>e\<in>set (obj_entries fns lvl ofs gs). entry_ok e"
  using assms
proof (induction gs arbitrary: ofs)
  case (Cons g gs)
  have "ofs + length (obj_bytes fns lvl g) + length (objs_bytes fns lvl gs) < 2 ^ 64" using Cons.prems(2) by simp
  then have "\<forall>e\<in>set (obj_entries fns lvl (ofs + length (obj_bytes fns lvl g)) gs). entry_ok e"
    using Cons.IH Cons.prems(1) by simp
  moreover have "entry_ok (fst g, pf_crc32 fns (obj_bytes fns lvl g) AND 0xffffffff, ofs)"
    unfolding entry_ok_def using Cons.prems and_32 by simp
  ultimately show ?case by simp
qed simp

definition pack_state :: "pack_fns \<Rightarrow> int \<Rightarrow> pack_store \<Rightarrow> pack_obj list \<Rightarrow> bool" where
  "pack_state fns lvl st gs \<longleftrightarrow>
     (case ps_file st of
        None \<Rightarrow> gs = [] \<and> ps_obj_count st = 0
      | Some f \<Rightarrow> gs \<noteq> [] \<and> f = pack_head @ objs_bytes fns lvl gs \<and> ps_obj_count st = length gs \<and>
          ps_idx st = \<lparr>iw_idx = parts_of (obj_entries fns lvl 12 gs), iw_count = length gs\<rparr>)"

lemma length_pack_head [simp]: "length pack_head = 12"
  by (simp add: pack_head_def del: be_bytes.simps)

lemma store_write_ok:
  assumes "pack_state fns lvl st gs" "encode_packobj (pf_compress fns) type content lvl = Inr parts" "sha \<noteq> []"
    "\<forall>g\<in>set gs. fst g \<noteq> []"
  shows "\<exists>st' crc. store_write (pf_crc32 fns) parts sha st = Inr ((length (concat parts), crc), st') \<and>
    pack_state fns lvl st' (gs @ [(sha, type, content)]) \<and> ps_repo_dir st' = ps_repo_dir st \<and>
    ps_objcache st' = ps_objcache st \<and> ps_done st' = ps_done st"
proof -
  let ?g = "(sha, type, content)"
  have b: "concat parts = obj_bytes fns lvl ?g" using assms(2) by (simp add: obj_bytes_def enc_def)
  define f where "f = pack_head @ objs_bytes fns lvl gs"
  let ?es = "obj_entries fns lvl 12 gs"
  have o: "ps_file (store_open st) = Some f" "ps_obj_count (store_open st) = length gs"
    "ps_idx (store_open st) = \<lparr>iw_idx = parts_of ?es, iw_count = length gs\<rparr>"
    "ps_repo_dir (store_open st) = ps_repo_dir st" "ps_objcache (store_open st) = ps_objcache st" "ps_done (store_open st) = ps_done st"
    using assms(1) parts_of_Nil
    by (auto simp: store_open_def pack_state_def f_def idx_writer0_def split: option.splits)
  let ?e = "(sha, pf_crc32 fns (concat parts) AND 0xffffffff, length f)"
  have "\<forall>e\<in>set [?e]. fst e \<noteq> []" using assms(3) by simp
  from idx_add_all_ok [OF this, of "\<lparr>iw_idx = parts_of ?es, iw_count = length gs\<rparr>" ?es]
  have add: "idx_add sha (pf_crc32 fns (concat parts) AND 0xffffffff) (length f) \<lparr>iw_idx = parts_of ?es, iw_count = length gs\<rparr> =
    Inr \<lparr>iw_idx = parts_of (?es @ [?e]), iw_count = length (?es @ [?e])\<rparr>"
    by (cases "idx_add sha (pf_crc32 fns (concat parts) AND 0xffffffff) (length f) \<lparr>iw_idx = parts_of ?es, iw_count = length gs\<rparr>") simp_all
  have es: "obj_entries fns lvl 12 (gs @ [?g]) = ?es @ [?e]"
    by (simp add: obj_entries_append b [symmetric] f_def)
  let ?st' = "(store_open st)\<lparr>ps_file := Some (f @ concat parts), ps_idx := \<lparr>iw_idx = parts_of (?es @ [?e]), iw_count = length (?es @ [?e])\<rparr>,
    ps_obj_count := length gs + 1\<rparr>"
  have "store_write (pf_crc32 fns) parts sha st = Inr ((length (concat parts), pf_crc32 fns (concat parts) AND 0xffffffff), ?st')"
    using assms(3) by (simp add: store_write_def update_idx_def o add Let_def)
  moreover have "pack_state fns lvl ?st' (gs @ [?g])"
    unfolding pack_state_def es by (simp add: f_def b)
  ultimately show ?thesis using o(4-6) by (intro exI [of _ ?st'] exI) simp
qed

text \<open>A pack put in place that gives back an object: by its index, where the index says.\<close>

definition pack_holds :: "(bytes \<Rightarrow> bytes res) \<Rightarrow> bytes \<times> bytes \<times> bytes \<Rightarrow> bytes \<Rightarrow> bytes \<Rightarrow> bytes \<Rightarrow> bool" where
  "pack_holds decompress p sha type content \<longleftrightarrow>
     (\<exists>px off n. open_idx (fst p @ ''.idx'') (snd (snd p)) = Inr px \<and> find_offset px sha = Inr (Some off) \<and>
        decode_packobj decompress (take n (drop off (fst (snd p)))) = Inr (type, content))"

lemma obj_at:
  assumes "g \<in> set gs"
  obtains xs ys where "gs = xs @ g # ys"
    "obj_entries fns lvl ofs gs ! length xs = (fst g, pf_crc32 fns (obj_bytes fns lvl g) AND 0xffffffff, ofs + length (objs_bytes fns lvl xs))"
proof -
  obtain xs ys where s: "gs = xs @ g # ys" using assms by (auto simp: in_set_conv_decomp)
  then show ?thesis using that [OF s] by (simp add: obj_entries_append nth_append)
qed

lemma written_finds:
  assumes "entries_ok es" "es \<noteq> []" "distinct (map fst es)"
  obtains data px where "idx_write sha1 \<lparr>iw_idx = parts_of es, iw_count = length es\<rparr> bin = Inr data"
    "open_idx (name @ ''.idx'') data = Inr px" "\<forall>e\<in>set es. find_offset px (fst e) = Inr (Some (snd (snd e)))"
proof -
  have "suffix ''.idx'' (name @ ''.idx'')" by (simp add: suffix_def)
  from written_ok [OF assms(1,2) this, of sha1 bin] obtain w data px where w:
    "idx_add_all es idx_writer0 = Inr w" "idx_write sha1 w bin = Inr data" "open_idx (name @ ''.idx'') data = Inr px"
    "wf_idx px (map fst (sorted_entries es))" "\<forall>i<length es. ofs_from_idx px i = Inr (snd (snd (sorted_entries es ! i)))"
    by (elim exE conjE) (rule that)
  have ne: "\<forall>e\<in>set es. fst e \<noteq> []" using entries_ok_fst [OF assms(1)] by blast
  have "w = \<lparr>iw_idx = parts_of es, iw_count = length es\<rparr>"
    using idx_add_all_ok [OF ne, of idx_writer0 "[]"] parts_of_Nil w(1) by simp
  moreover have "find_offset px (fst e) = Inr (Some (snd (snd e)))" if e: "e \<in> set es" for e
  proof -
    have ds: "distinct (map fst (sorted_entries es))"
      using assms(3) by (metis distinct_map mset_sorted_entries mset_eq_imp_distinct_iff mset_map)
    have l: "length (sorted_entries es) = length es" using mset_sorted_entries mset_eq_length by blast
    have "length (fst e) = 20" using entries_ok_fst [OF assms(1)] e by blast
    from find_offset_wf [OF w(4) ds this] w(5) l
    have "find_offset px (fst e) = Inr (map_option snd (map_of es (fst e)))"
      unfolding map_of_sorted_entries [OF assms(3)] by simp
    moreover have "map_of es (fst e) = Some (snd e)" using assms(3) e by (intro map_of_is_SomeI) simp_all
    ultimately show ?thesis by simp
  qed
  ultimately show ?thesis using that w(2,3) by blast
qed

lemma finish_pack_ok:
  assumes "pack_state fns lvl st gs" "gs \<noteq> []" "distinct (map fst gs)" "\<forall>g\<in>set gs. length (fst g) = 20"
    and "length gs < 2 ^ 31" "12 + length (objs_bytes fns lvl gs) < 2 ^ 64"
    and dec: "\<forall>g\<in>set gs. decode_packobj decompress (obj_bytes fns lvl g) = Inr (snd g)"
  shows "\<exists>name p. finish_pack (pf_sha1 fns) False st = Inr (Some name, store_reset (st\<lparr>ps_done := ps_done st @ [p]\<rparr>)) \<and>
    (\<forall>g\<in>set gs. pack_holds decompress p (fst g) (fst (snd g)) (snd (snd g)))"
proof -
  define f where "f = pack_head @ objs_bytes fns lvl gs"
  let ?es = "obj_entries fns lvl 12 gs"
  have st: "ps_file st = Some f" "ps_obj_count st = length gs" "ps_idx st = \<lparr>iw_idx = parts_of ?es, iw_count = length gs\<rparr>"
    using assms(1,2) by (auto simp: pack_state_def f_def split: option.splits)
  define pack where "pack = take 8 f @ be_bytes 4 (length gs) @ drop 12 f"
  define bin where "bin = pf_sha1 fns pack"
  define name where "name = path_join (ps_repo_dir st) (''objects/pack/pack-'' @ hexlify bin)"
  have eok: "entries_ok ?es" unfolding entries_ok_def using obj_entries_ok [OF assms(4,6)] assms(5) by simp
  have ene: "?es \<noteq> []" using assms(2) length_obj_entries [of fns lvl 12 gs] by (metis length_0_conv)
  have d: "distinct (map fst ?es)" using assms(3) by simp
  obtain data px where w: "idx_write (pf_sha1 fns) (ps_idx st) bin = Inr data" "open_idx (name @ ''.idx'') data = Inr px"
    "\<forall>e\<in>set ?es. find_offset px (fst e) = Inr (Some (snd (snd e)))"
    using written_finds [OF eok ene d, of "pf_sha1 fns" bin name] unfolding st(3) length_obj_entries by blast
  have "\<not> \<not> ps_obj_count st < 2 ^ 31" using st(2) assms(5) by simp
  then have fin: "finish_pack (pf_sha1 fns) False st = Inr (Some name, store_reset (st\<lparr>ps_done := ps_done st @ [(name, pack @ bin, data)]\<rparr>))"
    by (simp add: finish_pack_def st(1,2) Let_def flip: pack_def bin_def) (simp add: w(1) name_def)
  have "pack_holds decompress (name, pack @ bin, data) (fst g) (fst (snd g)) (snd (snd g))" if g: "g \<in> set gs" for g
  proof -
    obtain xs ys where s: "gs = xs @ g # ys"
      "?es ! length xs = (fst g, pf_crc32 fns (obj_bytes fns lvl g) AND 0xffffffff, 12 + length (objs_bytes fns lvl xs))"
      using obj_at [OF g] by blast
    let ?off = "12 + length (objs_bytes fns lvl xs)"
    have "length xs < length ?es" using s(1) by simp
    then have "?es ! length xs \<in> set ?es" by (rule nth_mem)
    then have fo: "find_offset px (fst g) = Inr (Some ?off)" using w(3) unfolding s(2) by fastforce
    have "drop 12 f = objs_bytes fns lvl gs" by (simp add: f_def)
    then have "pack @ bin = (take 8 f @ be_bytes 4 (length gs)) @ objs_bytes fns lvl xs @ obj_bytes fns lvl g @ objs_bytes fns lvl ys @ bin"
      unfolding pack_def s(1) by simp
    moreover have "length (take 8 f @ be_bytes 4 (length gs)) = 12" by (simp add: f_def del: be_bytes.simps)
    ultimately have "take (length (obj_bytes fns lvl g)) (drop ?off (pack @ bin)) = obj_bytes fns lvl g"
      by (simp only: drop_append) simp
    moreover have "decode_packobj decompress (obj_bytes fns lvl g) = Inr (fst (snd g), snd (snd g))"
      using dec g by simp
    ultimately have "decode_packobj decompress (take (length (obj_bytes fns lvl g)) (drop ?off (pack @ bin))) = Inr (fst (snd g), snd (snd g))"
      by (simp only:)
    then show ?thesis unfolding pack_holds_def fst_conv snd_conv using w(2) fo by blast
  qed
  then show ?thesis using fin by blast
qed

section \<open>A run of writes\<close>

fun write_all :: "pack_fns \<Rightarrow> pack_env \<Rightarrow> (bytes \<times> bytes) list \<Rightarrow> pack_writer \<Rightarrow> pack_writer res option" where
  "write_all fns env [] pw = Some (Inr pw)"
| "write_all fns env ((type, content) # objs) pw =
     (case maybe_write fns env type content pw of
        None \<Rightarrow> None
      | Some (Inl e) \<Rightarrow> Some (Inl e)
      | Some (Inr (sha, pw')) \<Rightarrow> write_all fns env objs pw')"

text \<open>The indexes of a list, and what is needed of them to be searched.\<close>

definition obj_known :: "pack_list \<Rightarrow> bytes \<Rightarrow> bool" where
  "obj_known pl h \<longleftrightarrow> (\<exists>p\<in>set (pl_packs pl). h \<in> set (index_iter p))"

definition search_ok :: "pack_list \<Rightarrow> bool" where
  "search_ok pl \<longleftrightarrow> (\<forall>p\<in>set (pl_packs pl). index_ok p) \<and>
     (case pl_bloom pl of None \<Rightarrow> True
      | Some b \<Rightarrow> \<forall>h. length h = 20 \<longrightarrow> (\<exists>found. bloom_exists b h = Inr found) \<and> (obj_known pl h \<longrightarrow> bloom_exists b h = Inr True))"

definition same_list :: "pack_list \<Rightarrow> pack_list \<Rightarrow> bool" where
  "same_list pl pl0 \<longleftrightarrow> mset (pl_packs pl) = mset (pl_packs pl0) \<and> pl_bloom pl = pl_bloom pl0"

lemma same_list_ok:
  assumes "same_list pl pl0"
  shows "obj_known pl h = obj_known pl0 h" "search_ok pl = search_ok pl0"
proof -
  have "set (pl_packs pl) = set (pl_packs pl0)" using assms unfolding same_list_def by (metis set_mset_mset)
  then have k: "obj_known pl h = obj_known pl0 h" for h unfolding obj_known_def by simp
  then show "obj_known pl h = obj_known pl0 h" .
  have "pl_bloom pl = pl_bloom pl0" using assms by (simp add: same_list_def)
  then show "search_ok pl = search_ok pl0" unfolding search_ok_def k using \<open>set (pl_packs pl) = set (pl_packs pl0)\<close> by simp
qed

lemma pil_exists_known:
  assumes "same_list pl pl0" "search_ok pl0" "length h = 20"
  obtains r pl' where "pil_exists files pl h ws False = Some (Inr (r, pl'))" "r \<noteq> None \<longleftrightarrow> obj_known pl0 h" "same_list pl' pl0"
proof -
  have s: "search_ok pl" using assms(1,2) same_list_ok(2) by blast
  then have a: "\<forall>p\<in>set (pl_packs pl). index_ok p" by (simp add: search_ok_def)
  have "case pl_bloom pl of None \<Rightarrow> True | Some b \<Rightarrow>
      (\<exists>found. bloom_exists b h = Inr found) \<and> ((\<exists>p\<in>set (pl_packs pl). h \<in> set (index_iter p)) \<longrightarrow> bloom_exists b h = Inr True)"
    using s assms(3) by (auto simp: search_ok_def obj_known_def split: option.splits)
  from pil_exists_ok [OF a assms(3) this, of files ws]
  obtain r pl' where r: "pil_exists files pl h ws False = Some (Inr (r, pl'))"
    "r \<noteq> None \<longleftrightarrow> (\<exists>p\<in>set (pl_packs pl). h \<in> set (index_iter p))"
    "mset (pl_packs pl') = mset (pl_packs pl)" "pl_bloom pl' = pl_bloom pl"
    by (elim exE conjE) (rule that)
  show thesis
  proof (rule that)
    show "r \<noteq> None \<longleftrightarrow> obj_known pl0 h" using r(2) same_list_ok(1) [OF assms(1)] by (simp add: obj_known_def)
    show "same_list pl' pl0" using r(3,4) assms(1) by (simp add: same_list_def)
  qed (rule r(1))
qed

definition cache_ok :: "pack_env \<Rightarrow> pack_list \<Rightarrow> pack_store \<Rightarrow> bool" where
  "cache_ok env pl0 st \<longleftrightarrow> new_pack_list env (path_join (ps_repo_dir st) ''objects/pack'') = Inr pl0 \<and>
     (case ps_objcache st of None \<Rightarrow> True | Some pl \<Rightarrow> same_list pl pl0)"

lemma writer_exists_ok:
  assumes "cache_ok env pl0 (pw_store pw)" "search_ok pl0" "length h = 20"
  obtains b oc where
    "writer_exists env h False pw = Some (Inr (b, pw\<lparr>pw_store := (pw_store pw)\<lparr>ps_objcache := oc\<rparr>\<rparr>))"
    "b \<longleftrightarrow> h \<in> set (pw_pending pw) \<or> obj_known pl0 h" "cache_ok env pl0 ((pw_store pw)\<lparr>ps_objcache := oc\<rparr>)"
proof (cases "h \<in> set (pw_pending pw)")
  case True
  have "pw\<lparr>pw_store := (pw_store pw)\<lparr>ps_objcache := ps_objcache (pw_store pw)\<rparr>\<rparr> = pw" by simp
  then show thesis using that [of True "ps_objcache (pw_store pw)"] True assms(1) by (simp add: writer_exists_def)
next
  case False
  let ?st = "pw_store pw"
  have np: "new_pack_list env (path_join (ps_repo_dir ?st) ''objects/pack'') = Inr pl0" using assms(1) by (simp add: cache_ok_def)
  obtain pl where pl: "(case ps_objcache ?st of Some pl \<Rightarrow> Inr pl
      | None \<Rightarrow> new_pack_list env (path_join (ps_repo_dir ?st) ''objects/pack'')) = Inr pl" "same_list pl pl0"
    using assms(1) by (cases "ps_objcache ?st") (auto simp: cache_ok_def same_list_def)
  obtain r pl' where r: "pil_exists (pe_files env) pl h False False = Some (Inr (r, pl'))" "r \<noteq> None \<longleftrightarrow> obj_known pl0 h" "same_list pl' pl0"
    using pil_exists_known [OF pl(2) assms(2,3)] by blast
  have "store_exists env h False ?st = Some (Inr (r, ?st\<lparr>ps_objcache := Some pl'\<rparr>))"
    unfolding store_exists_def pl(1) by (simp add: r(1))
  then have "writer_exists env h False pw = Some (Inr (r \<noteq> None, pw\<lparr>pw_store := ?st\<lparr>ps_objcache := Some pl'\<rparr>\<rparr>))"
    using False by (simp add: writer_exists_def)
  moreover have "cache_ok env pl0 (?st\<lparr>ps_objcache := Some pl'\<rparr>)" using np r(3) by (simp add: cache_ok_def)
  ultimately show thesis using that [of "r \<noteq> None" "Some pl'"] r(2) False by blast
qed

text \<open>
  The invariant of a run: \<open>gs\<close> are the objects in the open pack, \<open>W\<close> every object that may be in one.
\<close>

record pack_run =
  pr_fns :: pack_fns
  pr_decompress :: "bytes \<Rightarrow> bytes res"
  pr_env :: pack_env
  pr_list :: pack_list
  pr_level :: int

definition fns_ok :: "pack_run \<Rightarrow> bool" where
  "fns_ok R \<longleftrightarrow> (\<forall>x. length (pf_sha1 (pr_fns R) x) = 20) \<and> - 1 \<le> pr_level R \<and> pr_level R < 10 \<and>
     (\<forall>lvl x. pr_decompress R (fst (pf_compress (pr_fns R) lvl x) @ snd (pf_compress (pr_fns R) lvl x)) = Inr x)"

definition obj_fits :: "pack_run \<Rightarrow> pack_obj \<Rightarrow> bool" where
  "obj_fits R g \<longleftrightarrow> typemap (fst (snd g)) \<noteq> None \<and> length (fst g) = 20 \<and> length (obj_bytes (pr_fns R) (pr_level R) g) < 2 ^ 62"

definition saved :: "pack_run \<Rightarrow> pack_obj set \<Rightarrow> pack_writer \<Rightarrow> bytes \<Rightarrow> bool" where
  "saved R W pw sha \<longleftrightarrow>
     (\<exists>p\<in>set (ps_done (pw_store pw)). \<exists>type content. (sha, type, content) \<in> W \<and> pack_holds (pr_decompress R) p sha type content)"

definition writer_inv :: "pack_run \<Rightarrow> pack_obj set \<Rightarrow> pack_obj list \<Rightarrow> pack_writer \<Rightarrow> bool" where
  "writer_inv R W gs pw \<longleftrightarrow>
     pack_state (pr_fns R) (pr_level R) (pw_store pw) gs \<and> distinct (map fst gs) \<and> fst ` set gs \<subseteq> set (pw_pending pw) \<and>
     set gs \<subseteq> W \<and> cache_ok (pr_env R) (pr_list R) (pw_store pw) \<and> pw_level pw = pr_level R \<and>
     pw_max_size pw < 2 ^ 62 \<and> pw_max_objects pw < 2 ^ 31 \<and> (\<forall>g\<in>set gs. obj_fits R g) \<and>
     pw_obj_count pw = length gs \<and> pw_byte_count pw = length (objs_bytes (pr_fns R) (pr_level R) gs) \<and>
     (\<forall>sha\<in>set (pw_pending pw). sha \<in> fst ` set gs \<or> saved R W pw sha)"

definition below_limits :: "pack_writer \<Rightarrow> bool" where
  "below_limits pw \<longleftrightarrow> pw_obj_count pw = 0 \<or> (pw_byte_count pw < pw_max_size pw \<and> pw_obj_count pw < pw_max_objects pw)"

lemma obj_decodes:
  assumes "fns_ok R" "obj_fits R g"
  shows "decode_packobj (pr_decompress R) (obj_bytes (pr_fns R) (pr_level R) g) = Inr (snd g)"
    and "\<exists>parts. encode_packobj (pf_compress (pr_fns R)) (fst (snd g)) (snd (snd g)) (pr_level R) = Inr parts"
proof -
  obtain t where t: "typemap (fst (snd g)) = Some t" using assms(2) by (auto simp: obj_fits_def)
  show e: "\<exists>parts. encode_packobj (pf_compress (pr_fns R)) (fst (snd g)) (snd (snd g)) (pr_level R) = Inr parts"
    using assms(1) t by (simp add: encode_packobj_def fns_ok_def Let_def split: prod.splits)
  then obtain parts where p: "encode_packobj (pf_compress (pr_fns R)) (fst (snd g)) (snd (snd g)) (pr_level R) = Inr parts" by blast
  have "\<And>lvl x. pr_decompress R (fst (pf_compress (pr_fns R) lvl x) @ snd (pf_compress (pr_fns R) lvl x)) = Inr x"
    using assms(1) by (simp add: fns_ok_def)
  from packobj_decodes [OF this p] show "decode_packobj (pr_decompress R) (obj_bytes (pr_fns R) (pr_level R) g) = Inr (snd g)"
    by (simp add: obj_bytes_def enc_def p)
qed

lemma breakpoint_ok:
  assumes "fns_ok R" "writer_inv R W gs pw" "12 + length (objs_bytes (pr_fns R) (pr_level R) gs) < 2 ^ 64" "length gs < 2 ^ 31"
  obtains name st where "finish_pack (pf_sha1 (pr_fns R)) False (pw_store pw) = Inr (name, st)"
    "writer_inv R W [] (pw\<lparr>pw_store := st, pw_byte_count := 0, pw_obj_count := 0\<rparr>)"
proof (cases "gs = []")
  case True
  then have "ps_file (pw_store pw) = None"
    using assms(2) by (auto simp: writer_inv_def pack_state_def split: option.splits)
  then have "finish_pack (pf_sha1 (pr_fns R)) False (pw_store pw) = Inr (None, store_reset (pw_store pw))" by (simp add: finish_pack_def)
  moreover have "writer_inv R W [] (pw\<lparr>pw_store := store_reset (pw_store pw), pw_byte_count := 0, pw_obj_count := 0\<rparr>)"
    using assms(2) True by (simp add: writer_inv_def pack_state_def store_reset_def cache_ok_def saved_def)
  ultimately show thesis using that by blast
next
  case False
  let ?st = "pw_store pw"
  have i: "pack_state (pr_fns R) (pr_level R) ?st gs" "distinct (map fst gs)" "\<forall>g\<in>set gs. length (fst g) = 20"
    "\<forall>g\<in>set gs. decode_packobj (pr_decompress R) (obj_bytes (pr_fns R) (pr_level R) g) = Inr (snd g)"
    using assms(2) obj_decodes(1) [OF assms(1)] by (simp_all add: writer_inv_def obj_fits_def)
  from finish_pack_ok [OF i(1) False i(2,3) assms(4,3) i(4)] obtain name p where
    p: "finish_pack (pf_sha1 (pr_fns R)) False ?st = Inr (Some name, store_reset (?st\<lparr>ps_done := ps_done ?st @ [p]\<rparr>))"
    "\<forall>g\<in>set gs. pack_holds (pr_decompress R) p (fst g) (fst (snd g)) (snd (snd g))" by (elim exE conjE) (rule that)
  let ?st' = "store_reset (?st\<lparr>ps_done := ps_done ?st @ [p]\<rparr>)"
  let ?pw = "pw\<lparr>pw_store := ?st', pw_byte_count := 0, pw_obj_count := 0\<rparr>"
  have "saved R W ?pw sha" if s: "sha \<in> set (pw_pending pw)" for sha
  proof -
    from assms(2) s consider "sha \<in> fst ` set gs" | "saved R W pw sha" unfolding writer_inv_def by blast
    then show ?thesis
    proof cases
      case 1
      then obtain g where g: "g \<in> set gs" "sha = fst g" by blast
      then have "(sha, fst (snd g), snd (snd g)) \<in> W" using assms(2) by (auto simp: writer_inv_def)
      moreover have "pack_holds (pr_decompress R) p sha (fst (snd g)) (snd (snd g))" using p(2) g by blast
      moreover have "p \<in> set (ps_done (pw_store ?pw))" by (simp add: store_reset_def)
      ultimately show ?thesis unfolding saved_def by blast
    next
      case 2
      moreover have "set (ps_done ?st) \<subseteq> set (ps_done (pw_store ?pw))" by (auto simp: store_reset_def)
      ultimately show ?thesis unfolding saved_def by blast
    qed
  qed
  then have "writer_inv R W [] ?pw"
    using assms(2) by (simp add: writer_inv_def pack_state_def store_reset_def cache_ok_def)
  then show thesis using that p(1) by blast
qed

lemma writer_write_ok:
  assumes ok: "fns_ok R" and inv: "writer_inv R W gs pw" and lim: "below_limits pw" and fits: "obj_fits R (sha, type, content)"
    and new: "sha \<notin> set (pw_pending pw)" and W: "(sha, type, content) \<in> W"
  obtains pw' gs' where "writer_write (pr_fns R) sha type content pw = Inr (sha, pw')"
    "writer_inv R W gs' (add_pending sha pw')" "below_limits (add_pending sha pw')" "pw_pending pw' = pw_pending pw"
proof -
  let ?g = "(sha, type, content)" and ?fns = "pr_fns R" and ?lvl = "pr_level R" and ?st = "pw_store pw"
  have sha: "length sha = 20" "sha \<noteq> []" using fits by (auto simp: obj_fits_def)
  obtain parts where enc: "encode_packobj (pf_compress ?fns) type content ?lvl = Inr parts" using obj_decodes(2) [OF ok fits] by auto
  have ob: "obj_bytes ?fns ?lvl ?g = concat parts" by (simp add: obj_bytes_def enc_def enc)
  have ps: "pack_state ?fns ?lvl ?st gs" "\<forall>g\<in>set gs. fst g \<noteq> []" using inv by (auto simp: writer_inv_def obj_fits_def)
  from store_write_ok [OF ps(1) enc sha(2) ps(2)] obtain st crc where st:
    "store_write (pf_crc32 ?fns) parts sha ?st = Inr ((length (concat parts), crc), st)"
    "pack_state ?fns ?lvl st (gs @ [?g])" "ps_repo_dir st = ps_repo_dir ?st" "ps_objcache st = ps_objcache ?st" "ps_done st = ps_done ?st"
    by (elim exE conjE) (rule that)
  define pw1 where "pw1 = pw\<lparr>pw_store := st, pw_byte_count := pw_byte_count pw + length (concat parts), pw_obj_count := pw_obj_count pw + 1\<rparr>"
  have len: "sum_list (map length parts) = length (concat parts)" by (simp add: length_concat)
  have lvl: "pw_level pw = ?lvl" using inv by (simp add: writer_inv_def)
  have wr: "writer_write ?fns sha type content pw =
    (if pw_max_size pw1 \<le> pw_byte_count pw1 \<or> pw_max_objects pw1 \<le> pw_obj_count pw1
     then res_bind (writer_breakpoint ?fns pw1) (\<lambda>(_, pw''). Inr (sha, pw'')) else Inr (sha, pw1))"
    using sha(2) by (simp only: writer_write_def lvl enc res_bind_simps st(1) len prod.case Let_def pw1_def [symmetric] py_assert_def refl if_True) simp
  have inv1: "writer_inv R W (gs @ [?g]) (add_pending sha pw1)"
  proof -
    have "cache_ok (pr_env R) (pr_list R) st" using inv st(3,4) by (simp add: writer_inv_def cache_ok_def)
    moreover have "sha \<notin> fst ` set gs" using inv new by (auto simp: writer_inv_def)
    moreover have "saved R W (add_pending sha pw1) h = saved R W pw h" for h by (simp add: saved_def add_pending_def pw1_def st(5))
    ultimately show ?thesis
      using inv st(2) fits W ob by (auto simp: writer_inv_def pw1_def add_pending_def)
  qed
  have small: "12 + length (objs_bytes ?fns ?lvl (gs @ [?g])) < 2 ^ 64" "length (gs @ [?g]) < 2 ^ 31"
    using inv lim fits by (auto simp: writer_inv_def below_limits_def obj_fits_def)
  show thesis
  proof (cases "pw_max_size pw1 \<le> pw_byte_count pw1 \<or> pw_max_objects pw1 \<le> pw_obj_count pw1")
    case False
    then have "below_limits (add_pending sha pw1)" by (simp add: below_limits_def add_pending_def)
    then show ?thesis using that [OF _ inv1] wr False by (simp add: pw1_def)
  next
    case True
    from breakpoint_ok [OF ok inv1 small] obtain name st' where b:
      "finish_pack (pf_sha1 ?fns) False (pw_store (add_pending sha pw1)) = Inr (name, st')"
      "writer_inv R W [] ((add_pending sha pw1)\<lparr>pw_store := st', pw_byte_count := 0, pw_obj_count := 0\<rparr>)" by blast
    define pw2 where "pw2 = pw1\<lparr>pw_store := st', pw_byte_count := 0, pw_obj_count := 0\<rparr>"
    have "writer_breakpoint ?fns pw1 = Inr (name, pw2)" using b(1) by (simp add: writer_breakpoint_def add_pending_def pw2_def)
    then have "writer_write ?fns sha type content pw = Inr (sha, pw2)" using wr True by simp
    moreover have e: "(add_pending sha pw1)\<lparr>pw_store := st', pw_byte_count := 0, pw_obj_count := 0\<rparr> = add_pending sha pw2"
      by (simp add: add_pending_def pw2_def)
    moreover have "below_limits (add_pending sha pw2)" by (simp add: below_limits_def add_pending_def pw2_def)
    ultimately show ?thesis using that [of pw2 "[]"] b(2) by (simp add: pw2_def pw1_def)
  qed
qed

lemma maybe_write_ok:
  assumes ok: "fns_ok R" "search_ok (pr_list R)" and inv: "writer_inv R W gs pw" "below_limits pw"
    and sha: "calc_hash (pf_sha1 (pr_fns R)) type content = Inr sha" "obj_fits R (sha, type, content)" "(sha, type, content) \<in> W"
  obtains pw' gs' where "maybe_write (pr_fns R) (pr_env R) type content pw = Some (Inr (sha, pw'))"
    "writer_inv R W gs' pw'" "below_limits pw'" "sha \<in> set (pw_pending pw') \<or> obj_known (pr_list R) sha"
    "set (pw_pending pw) \<subseteq> set (pw_pending pw')"
proof -
  have "cache_ok (pr_env R) (pr_list R) (pw_store pw)" "length sha = 20" using inv(1) sha(2) by (auto simp: writer_inv_def obj_fits_def)
  from writer_exists_ok [OF this(1) ok(2) this(2)] obtain b oc where b:
    "writer_exists (pr_env R) sha False pw = Some (Inr (b, pw\<lparr>pw_store := (pw_store pw)\<lparr>ps_objcache := oc\<rparr>\<rparr>))"
    "b \<longleftrightarrow> sha \<in> set (pw_pending pw) \<or> obj_known (pr_list R) sha" "cache_ok (pr_env R) (pr_list R) ((pw_store pw)\<lparr>ps_objcache := oc\<rparr>)"
    by blast
  define pw1 where "pw1 = pw\<lparr>pw_store := (pw_store pw)\<lparr>ps_objcache := oc\<rparr>\<rparr>"
  have inv1: "writer_inv R W gs pw1"
    using inv(1) b(3) by (simp add: writer_inv_def pw1_def saved_def pack_state_def cong: option.case_cong)
  have lim1: "below_limits pw1" using inv(2) by (simp add: below_limits_def pw1_def)
  show thesis
  proof (cases b)
    case True
    then have "maybe_write (pr_fns R) (pr_env R) type content pw = Some (Inr (sha, pw1))"
      using b(1) sha(1) by (simp add: maybe_write_def pw1_def)
    then show ?thesis using that inv1 lim1 b(2) True by (simp add: pw1_def)
  next
    case False
    then have "sha \<notin> set (pw_pending pw1)" using b(2) by (simp add: pw1_def)
    from writer_write_ok [OF ok(1) inv1 lim1 sha(2) this sha(3)] obtain pw2 gs' where w:
      "writer_write (pr_fns R) sha type content pw1 = Inr (sha, pw2)" "writer_inv R W gs' (add_pending sha pw2)"
      "below_limits (add_pending sha pw2)" "pw_pending pw2 = pw_pending pw1" by blast
    have "maybe_write (pr_fns R) (pr_env R) type content pw = Some (Inr (sha, add_pending sha pw2))"
      using b(1) sha(1) False w(1) by (simp add: maybe_write_def pw1_def)
    moreover have "sha \<in> set (pw_pending (add_pending sha pw2))" "set (pw_pending pw) \<subseteq> set (pw_pending (add_pending sha pw2))"
      using w(4) by (auto simp: add_pending_def pw1_def)
    ultimately show ?thesis using that w(2,3) by blast
  qed
qed

lemma write_all_ok:
  assumes ok: "fns_ok R" "search_ok (pr_list R)" and "writer_inv R W gs pw" "below_limits pw"
    and "\<forall>(type, content)\<in>set objs. \<exists>sha. calc_hash (pf_sha1 (pr_fns R)) type content = Inr sha \<and>
      obj_fits R (sha, type, content) \<and> (sha, type, content) \<in> W"
  shows "\<exists>pw' gs'. write_all (pr_fns R) (pr_env R) objs pw = Some (Inr pw') \<and> writer_inv R W gs' pw' \<and> below_limits pw' \<and>
    set (pw_pending pw) \<subseteq> set (pw_pending pw') \<and>
    (\<forall>(type, content)\<in>set objs. \<forall>sha. calc_hash (pf_sha1 (pr_fns R)) type content = Inr sha \<longrightarrow>
       sha \<in> set (pw_pending pw') \<or> obj_known (pr_list R) sha)"
  using assms(3-)
proof (induction objs arbitrary: gs pw)
  case (Cons ob objs)
  obtain type content where ob: "ob = (type, content)" by (cases ob)
  then obtain sha where s: "calc_hash (pf_sha1 (pr_fns R)) type content = Inr sha" "obj_fits R (sha, type, content)"
    "(sha, type, content) \<in> W" using Cons.prems(3) by auto
  from maybe_write_ok [OF ok Cons.prems(1,2) s] obtain pw1 gs1 where w:
    "maybe_write (pr_fns R) (pr_env R) type content pw = Some (Inr (sha, pw1))" "writer_inv R W gs1 pw1" "below_limits pw1"
    "sha \<in> set (pw_pending pw1) \<or> obj_known (pr_list R) sha" "set (pw_pending pw) \<subseteq> set (pw_pending pw1)" by blast
  have "\<forall>(type, content)\<in>set objs. \<exists>sha. calc_hash (pf_sha1 (pr_fns R)) type content = Inr sha \<and>
      obj_fits R (sha, type, content) \<and> (sha, type, content) \<in> W" using Cons.prems(3) by simp
  from Cons.IH [OF w(2,3) this] obtain pw2 gs2 where r: "write_all (pr_fns R) (pr_env R) objs pw1 = Some (Inr pw2)"
    "writer_inv R W gs2 pw2" "below_limits pw2" "set (pw_pending pw1) \<subseteq> set (pw_pending pw2)"
    "\<forall>(type, content)\<in>set objs. \<forall>sha. calc_hash (pf_sha1 (pr_fns R)) type content = Inr sha \<longrightarrow>
       sha \<in> set (pw_pending pw2) \<or> obj_known (pr_list R) sha" by (elim exE conjE) (rule that)
  have a: "write_all (pr_fns R) (pr_env R) (ob # objs) pw = Some (Inr pw2)" by (simp add: ob w(1) r(1))
  have b: "set (pw_pending pw) \<subseteq> set (pw_pending pw2)" using w(5) r(4) by blast
  have "\<forall>(type, content)\<in>set (ob # objs). \<forall>sha. calc_hash (pf_sha1 (pr_fns R)) type content = Inr sha \<longrightarrow>
       sha \<in> set (pw_pending pw2) \<or> obj_known (pr_list R) sha"
    using r(5) w(4) r(4) s(1) by (auto simp: ob)
  then show ?case using a b r(2,3) by blast
qed auto

text \<open>C1: A writer on a fresh store, given any list of objects of known types, writes them all and closes,
  whatever its limits and however often it starts a new pack on the way.  Every object is then known
  to the repository's own indexes, or in a pack the store put in place: that pack's index opens, has
  an offset for the object's id, and the bytes there decode to an object of the list with that id.\<close>

theorem writer_saves_every_object:
  assumes "fns_ok R" "search_ok (pr_list R)"
    and "new_pack_list (pr_env R) (path_join dir ''objects/pack'') = Inr (pr_list R)"
    and "pw = new_writer (new_store dir) (Some (pr_level R)) max_size max_objects" "pw_max_size pw < 2 ^ 62" "pw_max_objects pw < 2 ^ 31"
    and "\<forall>(type, content)\<in>set objs. typemap type \<noteq> None \<and> length (enc (pr_fns R) (pr_level R) type content) < 2 ^ 62"
  shows "\<exists>pw' name pw''. write_all (pr_fns R) (pr_env R) objs pw = Some (Inr pw') \<and> writer_close (pr_fns R) pw' = Inr (name, pw'') \<and>
    (\<forall>(type, content)\<in>set objs. \<exists>sha. calc_hash (pf_sha1 (pr_fns R)) type content = Inr sha \<and>
       (obj_known (pr_list R) sha \<or>
        (\<exists>p\<in>set (ps_done (pw_store pw'')). \<exists>(type', content')\<in>set objs.
           calc_hash (pf_sha1 (pr_fns R)) type' content' = Inr sha \<and> pack_holds (pr_decompress R) p sha type' content')))"
proof -
  define W where "W = {(sha, type, content). (type, content) \<in> set objs \<and> calc_hash (pf_sha1 (pr_fns R)) type content = Inr sha}"
  have "\<exists>sha. calc_hash (pf_sha1 (pr_fns R)) type content = Inr sha \<and> length sha = 20" if "typemap type \<noteq> None" for type content
    using that assms(1) by (auto simp: calc_hash_def start_sha1_def py_assert_def typemap_def fns_ok_def split: if_splits)
  then have objs: "\<forall>(type, content)\<in>set objs. \<exists>sha. calc_hash (pf_sha1 (pr_fns R)) type content = Inr sha \<and>
      obj_fits R (sha, type, content) \<and> (sha, type, content) \<in> W"
    using assms(7) unfolding W_def obj_fits_def obj_bytes_def by fastforce
  have inv: "writer_inv R W [] pw" "below_limits pw"
    using assms(3,5,6) by (simp_all add: assms(4) new_writer_def new_store_def Let_def writer_inv_def pack_state_def cache_ok_def below_limits_def)
  from write_all_ok [OF assms(1,2) inv objs] obtain pw1 gs where w:
    "write_all (pr_fns R) (pr_env R) objs pw = Some (Inr pw1)" "writer_inv R W gs pw1" "below_limits pw1"
    "\<forall>(type, content)\<in>set objs. \<forall>sha. calc_hash (pf_sha1 (pr_fns R)) type content = Inr sha \<longrightarrow>
       sha \<in> set (pw_pending pw1) \<or> obj_known (pr_list R) sha" by (elim exE conjE) (rule that)
  have small: "12 + length (objs_bytes (pr_fns R) (pr_level R) gs) < 2 ^ 64" "length gs < 2 ^ 31"
    using w(2,3) by (auto simp: writer_inv_def below_limits_def)
  from breakpoint_ok [OF assms(1) w(2) small] obtain name st where b:
    "finish_pack (pf_sha1 (pr_fns R)) False (pw_store pw1) = Inr (name, st)"
    "writer_inv R W [] (pw1\<lparr>pw_store := st, pw_byte_count := 0, pw_obj_count := 0\<rparr>)" by blast
  have c: "writer_close (pr_fns R) pw1 = Inr (name, pw1\<lparr>pw_store := st\<rparr>)" using b(1) by (simp add: writer_close_def store_close_def)
  have s: "saved R W (pw1\<lparr>pw_store := st\<rparr>) sha" if "sha \<in> set (pw_pending pw1)" for sha
    using b(2) that by (simp add: writer_inv_def saved_def)
  have "\<exists>sha. calc_hash (pf_sha1 (pr_fns R)) type content = Inr sha \<and>
       (obj_known (pr_list R) sha \<or>
        (\<exists>p\<in>set (ps_done (pw_store (pw1\<lparr>pw_store := st\<rparr>))). \<exists>(type', content')\<in>set objs.
           calc_hash (pf_sha1 (pr_fns R)) type' content' = Inr sha \<and> pack_holds (pr_decompress R) p sha type' content'))"
    if o: "(type, content) \<in> set objs" for type content
  proof -
    obtain sha where sha: "calc_hash (pf_sha1 (pr_fns R)) type content = Inr sha" using objs o by blast
    then have "sha \<in> set (pw_pending pw1) \<or> obj_known (pr_list R) sha" using w(4) o by blast
    then show ?thesis using sha s [of sha] unfolding saved_def W_def by blast
  qed
  then show ?thesis using w(1) c by blast
qed

text \<open>A run of three writes, the second object again after the first pack is full.\<close>

definition sha1_w :: "bytes \<Rightarrow> bytes" where
  "sha1_w x = take 20 (x @ replicate 20 CHR 0x00)"

definition run_w :: pack_run where
  "run_w = \<lparr>pr_fns = \<lparr>pf_sha1 = sha1_w, pf_crc32 = length, pf_compress = \<lambda>_ x. (x, [])\<rparr>, pr_decompress = Inr,
     pr_env = \<lparr>pe_dir_exists = False, pe_midxes = [], pe_idxs = [], pe_files = \<lambda>_. None, pe_mtime = \<lambda>_. 0, pe_order = \<lambda>x. x\<rparr>,
     pr_list = \<lparr>pl_dir = ''d/objects/pack'', pl_packs = [], pl_do_bloom = False, pl_bloom = None, pl_ignore_midx = False\<rparr>,
     pr_level = 1\<rparr>"

theorem writer_saves_every_object_witness:
  "\<exists>pw' name pw'' p. write_all (pr_fns run_w) (pr_env run_w) [(''blob'', ''hello''), (''blob'', ''bye''), (''blob'', ''hello'')]
       (new_writer (new_store ''d'') (Some 1) None (Some 1)) = Some (Inr pw') \<and>
     writer_close (pr_fns run_w) pw' = Inr (name, pw'') \<and> p \<in> set (ps_done (pw_store pw'')) \<and>
     pack_holds Inr p (sha1_w (''blob 3'' @ CHR 0x00 # ''bye'')) ''blob'' ''bye''"
  (is "\<exists>pw' name pw'' p. ?run pw' name pw'' p")
proof -
  let ?objs = "[(''blob'', ''hello''), (''blob'', ''bye''), (''blob'', ''hello'')]"
  have f: "fns_ok run_w" by (simp add: fns_ok_def run_w_def sha1_w_def min_def)
  have so: "search_ok (pr_list run_w)" by (simp add: search_ok_def run_w_def)
  have "path_join ''d'' ''objects/pack'' = ''d/objects/pack''" by code_simp
  then have np: "new_pack_list (pr_env run_w) (path_join ''d'' ''objects/pack'') = Inr (pr_list run_w)"
    by (simp only: new_pack_list_def refresh_def Let_def) (simp add: run_w_def)
  have e1: "length (enc (pr_fns run_w) 1 ''blob'' ''hello'') = 6" by code_simp
  have e2: "length (enc (pr_fns run_w) 1 ''blob'' ''bye'') = 4" by code_simp
  have lvl: "pr_level run_w = 1" by (simp add: run_w_def)
  have o: "\<forall>(type, content)\<in>set ?objs. typemap type \<noteq> None \<and> length (enc (pr_fns run_w) (pr_level run_w) type content) < 2 ^ 62"
    using e1 e2 by (simp add: lvl typemap_def)
  have m: "pw_max_size (new_writer (new_store ''d'') (Some (pr_level run_w)) None (Some 1)) < 2 ^ 62"
    "pw_max_objects (new_writer (new_store ''d'') (Some (pr_level run_w)) None (Some 1)) < 2 ^ 31"
    by (simp_all add: new_writer_def)
  have h: "calc_hash (pf_sha1 (pr_fns run_w)) ''blob'' ''bye'' = Inr (sha1_w (''blob 3'' @ CHR 0x00 # ''bye''))"
    "calc_hash (pf_sha1 (pr_fns run_w)) ''blob'' ''hello'' \<noteq> Inr (sha1_w (''blob 3'' @ CHR 0x00 # ''bye''))" by code_simp+
  have k: "\<not> obj_known (pr_list run_w) x" for x by (simp add: obj_known_def run_w_def)
  have d: "pr_decompress run_w = Inr" by (simp add: run_w_def)
  from writer_saves_every_object [OF f so np refl m o] show ?thesis
    using h k unfolding d lvl by fastforce
qed

end
