(* ===== verification/Git_Walk.thy ===== *)
theory Git_Walk
  imports Git_Commit Git_Format Py_Bytes
begin

text \<open>
  Walking the objects reachable from one: \<open>walk_object\<close> of \<open>lib/bup/git.py\<close>.  The code keeps the
  pending work on a stack of its own; the generator's run is the list of what it yields and how it
  ends.  The callbacks (\<open>get_ref\<close>, \<open>stop_at\<close>, \<open>oid_exists\<close>) are parameters, and pure: the model does
  not cover a \<open>stop_at\<close> that changes with what was yielded.  A walk over data with a cycle does not
  end, so the loop takes fuel; the first theorem says how much is enough.
\<close>

section \<open>The model\<close>

text \<open>\<open>data\<close> of an item is bytes, \<open>None\<close>, or the answer of \<open>oid_exists\<close>, \<open>False\<close> when missing.\<close>

datatype item_data = Data bytes | NoData | Exists bool

record walk_item =
  wi_oid :: bytes
  wi_name :: bytes
  wi_type :: "bytes option"
  wi_mode :: "int option"
  wi_data :: item_data

datatype walk_result = PathOf "walk_item list" | ItemOf walk_item

text \<open>What \<open>get_ref\<close> answers: nothing for a missing object, else its type and data if asked for.\<close>

record walk_env =
  we_get_ref :: "bytes \<Rightarrow> bool \<Rightarrow> (bytes \<times> bytes option) option res"
  we_stop_at :: "bytes \<Rightarrow> bool"
  we_include_data :: bool
  we_oid_exists :: "(bytes \<Rightarrow> bool) option"
  we_path :: bool \<comment> \<open>\<open>result == 'path'\<close>\<close>

text \<open>An entry to look at: id, parents, name, mode, expected type.\<close>

record todo =
  td_oidx :: bytes
  td_parents :: "walk_item list"
  td_name :: bytes
  td_mode :: "int option"
  td_exp_typ :: "bytes option"

datatype pending = Completed walk_result | Todo todo

definition walk_res_of :: "walk_env \<Rightarrow> walk_item list \<Rightarrow> walk_item \<Rightarrow> walk_result" where
  "walk_res_of env parents item = (if we_path env then PathOf (parents @ [item]) else ItemOf item)"

definition mode_true :: "int option \<Rightarrow> bool" where
  "mode_true mode = (case mode of None \<Rightarrow> False | Some m \<Rightarrow> m \<noteq> 0)"

text \<open>The entries a commit and a tree push, the one to be popped first in front.\<close>

definition commit_children :: "walk_item list \<Rightarrow> walk_item list \<Rightarrow> int option \<Rightarrow> commit_info \<Rightarrow> todo list" where
  "commit_children parents commit_path mode commit =
     \<lparr>td_oidx = ci_tree commit, td_parents = parents, td_name = ci_tree commit, td_mode = Some GIT_MODE_TREE, td_exp_typ = Some ''tree''\<rparr> #
     rev (map (\<lambda>pid. \<lparr>td_oidx = pid, td_parents = commit_path, td_name = pid, td_mode = mode, td_exp_typ = Some ''commit''\<rparr>) (ci_parents commit))"

definition tree_children :: "walk_item list \<Rightarrow> tree_ent list \<Rightarrow> todo list" where
  "tree_children tree_path ents =
     rev (map (\<lambda>(mode, name, ent_id). \<lparr>td_oidx = hexlify ent_id, td_parents = tree_path, td_name = name, td_mode = Some mode,
       td_exp_typ = Some (if S_ISDIR mode then ''tree'' else ''blob'')\<rparr>) ents)"

text \<open>
  One entry looked at: what is yielded at once, and what is pushed with the item to be yielded after
  it.
\<close>

datatype visited = Yields "walk_result list" | Pushes "todo list" walk_result

definition visit :: "walk_env \<Rightarrow> todo \<Rightarrow> visited res" where
  "visit env t =
     (if we_stop_at env (td_oidx t) then Inr (Yields [])
      else res_bind (unhexlify (td_oidx t)) (\<lambda>oid.
        if \<not> we_include_data env \<and> mode_true (td_mode t) \<and> td_exp_typ t = Some ''blob'' then
          (let item = \<lparr>wi_oid = oid, wi_name = td_name t, wi_type = Some ''blob'', wi_mode = td_mode t,
                       wi_data = (case we_oid_exists env of None \<Rightarrow> NoData | Some f \<Rightarrow> Exists (f oid))\<rparr>
           in Inr (Yields [walk_res_of env (td_parents t) item]))
        else
          let got_data = td_exp_typ t \<in> {Some ''commit'', Some ''tree'', None} \<or> we_include_data env in
          res_bind (we_get_ref env (td_oidx t) got_data) (\<lambda>r.
            case r of
              None \<Rightarrow>
                (let item = \<lparr>wi_oid = oid, wi_name = td_name t, wi_type = td_exp_typ t, wi_mode = td_mode t, wi_data = Exists False\<rparr>
                 in Inr (Yields [walk_res_of env (td_parents t) item]))
            | Some (typ, item_it) \<Rightarrow>
                if typ \<notin> {''blob'', ''commit'', ''tree''} then Inl (Exc ''unexpected repository object type'')
                else if td_exp_typ t \<notin> {None, Some typ} then Inl (Exc ''object type'')
                else
                  res_bind (if typ = ''blob'' \<and> \<not> we_include_data env then Inr None
                            else case item_it of None \<Rightarrow> Inl TypeError | Some d \<Rightarrow> Inr (Some d)) (\<lambda>data.
                  let item = \<lparr>wi_oid = oid, wi_name = td_name t, wi_type = Some typ, wi_mode = td_mode t,
                              wi_data = (if we_include_data env then (case data of None \<Rightarrow> NoData | Some d \<Rightarrow> Data d) else NoData)\<rparr>;
                      res = walk_res_of env (td_parents t) item;
                      path = td_parents t @ [item\<lparr>wi_data := NoData\<rparr>]
                  in if typ = ''blob'' then Inr (Yields [res])
                     else if typ = ''commit'' then
                       res_bind (parse_commit (the data)) (\<lambda>commit.
                         Inr (Pushes (commit_children (td_parents t) path (td_mode t) commit) res))
                     else
                       (case tree_iter (the data) of
                          (ents, Some e) \<Rightarrow> Inl e
                        | (ents, None) \<Rightarrow> Inr (Pushes (tree_children path ents) res))))))"

text \<open>The loop: what it yields, and its end: \<open>None\<close> when the fuel is spent.\<close>

fun walk_loop :: "walk_env \<Rightarrow> nat \<Rightarrow> pending list \<Rightarrow> walk_result list \<times> unit res option" where
  "walk_loop env n [] = ([], Some (Inr ()))"
| "walk_loop env 0 (p # ps) = ([], None)"
| "walk_loop env (Suc n) (Completed res # ps) = (let r = walk_loop env n ps in (res # fst r, snd r))"
| "walk_loop env (Suc n) (Todo t # ps) =
     (case visit env t of
        Inl e \<Rightarrow> ([], Some (Inl e))
      | Inr (Yields ys) \<Rightarrow> (let r = walk_loop env n ps in (ys @ fst r, snd r))
      | Inr (Pushes kids res) \<Rightarrow> walk_loop env n (map Todo kids @ Completed res # ps))"

definition first_todo :: "bytes \<Rightarrow> todo" where
  "first_todo oidx = \<lparr>td_oidx = oidx, td_parents = [], td_name = oidx, td_mode = None, td_exp_typ = None\<rparr>"

definition walk_object :: "walk_env \<Rightarrow> nat \<Rightarrow> bytes \<Rightarrow> walk_result list \<times> unit res option" where
  "walk_object env n oidx = walk_loop env n [Todo (first_todo oidx)]"

section \<open>Post-order\<close>

text \<open>The recursive walk the loop stands for: children first, then the item; \<open>n\<close> bounds the depth.\<close>

definition visit_kids :: "walk_env \<Rightarrow> todo \<Rightarrow> todo list" where
  "visit_kids env t = (case visit env t of Inr (Pushes kids res) \<Rightarrow> kids | _ \<Rightarrow> [])"

definition visit_own :: "walk_env \<Rightarrow> todo \<Rightarrow> walk_result list" where
  "visit_own env t = (case visit env t of Inr (Pushes kids res) \<Rightarrow> [res] | Inr (Yields ys) \<Rightarrow> ys | Inl e \<Rightarrow> [])"

fun post_order :: "walk_env \<Rightarrow> nat \<Rightarrow> todo \<Rightarrow> walk_result list" where
  "post_order env 0 t = []"
| "post_order env (Suc n) t = concat (map (post_order env n) (visit_kids env t)) @ visit_own env t"

text \<open>The entries a walk comes to, and that they can all be looked at.\<close>

inductive comes_to :: "walk_env \<Rightarrow> todo \<Rightarrow> todo \<Rightarrow> bool" for env where
  comes_here: "comes_to env t t"
| comes_on: "comes_to env t u \<Longrightarrow> v \<in> set (visit_kids env u) \<Longrightarrow> comes_to env t v"

inductive_cases comes_to_elim: "comes_to env t u"

definition walkable :: "walk_env \<Rightarrow> todo \<Rightarrow> (todo \<Rightarrow> nat) \<Rightarrow> bool" where
  "walkable env t rank \<longleftrightarrow>
     (\<forall>u. comes_to env t u \<longrightarrow> (\<exists>r. visit env u = Inr r) \<and> (\<forall>v\<in>set (visit_kids env u). rank v < rank u))"

lemma comes_to_trans: "comes_to env u v \<Longrightarrow> comes_to env t u \<Longrightarrow> comes_to env t v"
  by (induction rule: comes_to.induct) (auto intro: comes_to.intros)

lemma walkable_kid:
  assumes "walkable env t rank" "v \<in> set (visit_kids env t)"
  shows "walkable env v rank" "rank v < rank t"
proof -
  have "comes_to env t v" using assms(2) by (meson comes_here comes_on)
  then show "walkable env v rank" using assms(1) comes_to_trans unfolding walkable_def by blast
  show "rank v < rank t" using assms comes_here unfolding walkable_def by blast
qed

text \<open>How long the loop takes.\<close>

fun walk_cost :: "walk_env \<Rightarrow> nat \<Rightarrow> todo \<Rightarrow> nat" where
  "walk_cost env 0 t = 0"
| "walk_cost env (Suc n) t = 2 + sum_list (map (walk_cost env n) (visit_kids env t))"

lemma walk_loop_todo:
  assumes "walkable env t rank" "rank t < d" "walk_cost env d t \<le> n"
  shows "\<exists>m. n - walk_cost env d t \<le> m \<and> walk_loop env n (Todo t # ps) =
    (post_order env d t @ fst (walk_loop env m ps), snd (walk_loop env m ps))"
  using assms
proof (induction d arbitrary: t n ps)
  case (Suc d)
  obtain n' where n: "n = Suc n'" using Suc.prems(3) by (cases n) simp_all
  obtain r where r: "visit env t = Inr r" using Suc.prems(1) comes_here unfolding walkable_def by blast
  show ?case
  proof (cases r)
    case (Yields ys)
    then have "visit_kids env t = []" "visit_own env t = ys" using r by (simp_all add: visit_kids_def visit_own_def)
    then show ?thesis using r Yields by (intro exI [of _ n']) (simp add: n Let_def)
  next
    case (Pushes kids res)
    have k: "visit_kids env t = kids" "visit_own env t = [res]" using r Pushes by (simp_all add: visit_kids_def visit_own_def)
    have all: "\<exists>m. n1 - sum_list (map (walk_cost env d) ks) \<le> m \<and> walk_loop env n1 (map Todo ks @ qs) =
      (concat (map (post_order env d) ks) @ fst (walk_loop env m qs), snd (walk_loop env m qs))"
      if "set ks \<subseteq> set kids" "sum_list (map (walk_cost env d) ks) \<le> n1" for ks n1 qs
      using that
    proof (induction ks arbitrary: n1)
      case (Cons k ks)
      have w: "walkable env k rank" "rank k < d"
        using walkable_kid [OF Suc.prems(1), of k] Suc.prems(2) Cons.prems(1) k(1) by auto
      have c: "walk_cost env d k \<le> n1" using Cons.prems(2) by simp
      obtain m1 where m1: "n1 - walk_cost env d k \<le> m1" "walk_loop env n1 (Todo k # map Todo ks @ qs) =
        (post_order env d k @ fst (walk_loop env m1 (map Todo ks @ qs)), snd (walk_loop env m1 (map Todo ks @ qs)))"
        using Suc.IH [OF w c] by blast
      have "sum_list (map (walk_cost env d) ks) \<le> m1" using m1(1) Cons.prems(2) by simp
      then obtain m where "m1 - sum_list (map (walk_cost env d) ks) \<le> m" "walk_loop env m1 (map Todo ks @ qs) =
        (concat (map (post_order env d) ks) @ fst (walk_loop env m qs), snd (walk_loop env m qs))"
        using Cons.IH Cons.prems(1) by auto
      then show ?case using m1 by (intro exI [of _ m]) simp
    qed auto
    have "sum_list (map (walk_cost env d) kids) \<le> n'" using Suc.prems(3) by (simp add: n k)
    from all [OF subset_refl this, of "Completed res # ps"] obtain m where m: "n' - sum_list (map (walk_cost env d) kids) \<le> m"
      "walk_loop env n' (map Todo kids @ Completed res # ps) =
        (concat (map (post_order env d) kids) @ fst (walk_loop env m (Completed res # ps)), snd (walk_loop env m (Completed res # ps)))"
      by blast
    have "0 < m" using m(1) Suc.prems(3) by (simp add: n k)
    then obtain m' where m': "m = Suc m'" by (cases m) simp_all
    show ?thesis using m m' r Pushes Suc.prems(3) k by (intro exI [of _ m']) (simp add: n Let_def)
  qed
qed simp

lemma post_order_contains:
  assumes "comes_to env t u" "walkable env t rank" "rank t < d"
  shows "\<exists>xs zs d'. rank u < d' \<and> post_order env d t = xs @ post_order env d' u @ zs"
  using assms
proof (induction rule: comes_to.induct)
  case (comes_here t)
  then show ?case by (metis append.left_neutral append.right_neutral)
next
  case (comes_on t u v)
  then obtain xs zs d' where d': "rank u < d'" "post_order env d t = xs @ post_order env d' u @ zs" by blast
  then obtain e where e: "d' = Suc e" by (cases d') simp_all
  obtain as bs where k: "visit_kids env u = as @ v # bs" using comes_on.hyps(2) by (auto simp: in_set_conv_decomp)
  have "rank v < rank u" using comes_on.prems(1) comes_on.hyps unfolding walkable_def by blast
  then have "rank v < e" using d'(1) e by simp
  moreover have "post_order env d t =
    (xs @ concat (map (post_order env e) as)) @ post_order env e v @ concat (map (post_order env e) bs) @ visit_own env u @ zs"
    by (simp add: d'(2) e k)
  ultimately show ?case by blast
qed

lemma post_order_own:
  assumes "comes_to env t u" "walkable env t rank" "rank t < d"
  shows "\<exists>xs zs. post_order env d t = xs @ visit_own env u @ zs"
    and "v \<in> set (visit_kids env u) \<Longrightarrow> \<exists>xs ys zs. post_order env d t = xs @ visit_own env v @ ys @ visit_own env u @ zs"
proof -
  obtain xs zs d' where d': "rank u < d'" "post_order env d t = xs @ post_order env d' u @ zs"
    using post_order_contains [OF assms] by blast
  then obtain e where e: "d' = Suc e" by (cases d') simp_all
  have "post_order env d t = (xs @ concat (map (post_order env e) (visit_kids env u))) @ visit_own env u @ zs" by (simp add: d'(2) e)
  then show "\<exists>xs zs. post_order env d t = xs @ visit_own env u @ zs" by blast
  assume v: "v \<in> set (visit_kids env u)"
  then obtain as bs where k: "visit_kids env u = as @ v # bs" by (auto simp: in_set_conv_decomp)
  have "rank v < rank u" using assms(1,2) v unfolding walkable_def by blast
  then obtain e' where e': "e = Suc e'" using d'(1) e by (cases e) simp_all
  have "post_order env d t = (xs @ concat (map (post_order env e) as) @ concat (map (post_order env e') (visit_kids env v))) @
    visit_own env v @ concat (map (post_order env e) bs) @ visit_own env u @ zs"
    by (simp add: d'(2) e k) (simp add: e')
  then show "\<exists>xs ys zs. post_order env d t = xs @ visit_own env v @ ys @ visit_own env u @ zs" by blast
qed


definition walk_env_w :: walk_env where
  "walk_env_w = \<lparr>we_get_ref = \<lambda>oidx inc.
       if oidx = ''11'' then Inr (Some (''tree'', Some (ent_bytes (33188, ''a'', replicate 20 CHR 0x22))))
       else Inr (Some (''blob'', if inc then Some ''hi'' else None)),
     we_stop_at = \<lambda>_. False, we_include_data = True, we_oid_exists = None, we_path = False\<rparr>"

definition rank_w :: "todo \<Rightarrow> nat" where
  "rank_w t = (if td_oidx t = ''11'' then 1 else 0)"


end
