(* ===== verification/Git_Repo.thy ===== *)
theory Git_Repo
  imports Pack_Store Streams
begin

text \<open>
  What bup asks of git: references, commits, configuration, the repository itself
  (\<open>lib/bup/git.py\<close>).  Running git is a parameter: a command changes the state of the outside and
  gives an exit status and its output.  A generator is what it yields and the exception that ends it.
\<close>

type_synonym 'g git = "bytes list \<Rightarrow> 'g \<Rightarrow> (int \<times> bytes) \<times> 'g"
type_synonym 'a yields = "'a list \<times> py_error option"

section \<open>References\<close>

fun yield_map :: "('a \<Rightarrow> 'b res) \<Rightarrow> 'a list \<Rightarrow> 'b yields" where
  "yield_map f [] = ([], None)"
| "yield_map f (x # xs) =
     (case f x of Inl e \<Rightarrow> ([], Some e) | Inr y \<Rightarrow> (let r = yield_map f xs in (y # fst r, snd r)))"

text \<open>\<open>tuple(islice(refs, n))\<close>: a generator is not run past the items asked for.\<close>

definition first_items :: "nat \<Rightarrow> 'a yields \<Rightarrow> 'a list res" where
  "first_items n gen =
     (if n \<le> length (fst gen) then Inr (take n (fst gen))
      else case snd gen of None \<Rightarrow> Inr (fst gen) | Some e \<Rightarrow> Inl e)"

definition show_ref_argv :: "bytes list \<Rightarrow> bool \<Rightarrow> bool \<Rightarrow> bytes list" where
  "show_ref_argv patterns limit_to_heads limit_to_tags =
     [''git'', ''show-ref''] @ (if limit_to_heads then [''--heads''] else []) @ (if limit_to_tags then [''--tags''] else []) @
     [''--''] @ patterns"

definition ref_line :: "bytes \<Rightarrow> (bytes \<times> bytes) res" where
  "ref_line d =
     (case index_of CHR '' '' d of
        None \<Rightarrow> Inl ValueError
      | Some i \<Rightarrow> res_bind (unhexlify (take i d)) (\<lambda>sha. Inr (drop (Suc i) d, sha)))"

definition list_refs :: "'g git \<Rightarrow> bytes list \<Rightarrow> bool \<Rightarrow> bool \<Rightarrow> 'g \<Rightarrow> (bytes \<times> bytes) yields \<times> 'g" where
  "list_refs git patterns limit_to_heads limit_to_tags g =
     (case git (show_ref_argv patterns limit_to_heads limit_to_tags) g of
        ((returncode, stdout), g') \<Rightarrow>
          (if returncode \<noteq> 0 \<and> stdout \<noteq> [] then ([], Some AssertionError)
           else let out = strip stdout
                in if out = [] then ([], None) else yield_map ref_line (split_on CHR 0x0a out), g'))"

definition read_ref :: "'g git \<Rightarrow> bytes \<Rightarrow> 'g \<Rightarrow> bytes option res \<times> 'g" where
  "read_ref git refname g =
     (case list_refs git [refname] True False g of
        (refs, g') \<Rightarrow>
          (res_bind (first_items 2 refs) (\<lambda>l.
             if l = [] then Inr None
             else res_bind (py_assert (length l = 1)) (\<lambda>_. Inr (Some (snd (hd l))))), g'))"

text \<open>\<open>rev_parse\<close>: \<open>unhexlify\<close> raises \<open>binascii.Error\<close>, a \<open>ValueError\<close>; the code catches \<open>TypeError\<close>.\<close>

definition rev_parse :: "'g git \<Rightarrow> pack_env \<Rightarrow> bytes \<Rightarrow> bytes \<Rightarrow> 'g \<Rightarrow> bytes option res option \<times> 'g" where
  "rev_parse git env repo_dir committish g =
     (case read_ref git committish g of
        (Inl e, g') \<Rightarrow> (Some (Inl e), g')
      | (Inr head, g') \<Rightarrow>
          (if head \<noteq> None \<and> head \<noteq> Some [] then Some (Inr head)
           else if length committish = 40 then
             (case unhexlify committish of
                Inl TypeError \<Rightarrow> Some (Inr None)
              | Inl e \<Rightarrow> Some (Inl e)
              | Inr hash \<Rightarrow>
                  (case new_pack_list env (path_join repo_dir ''objects/pack'') of
                     Inl e \<Rightarrow> Some (Inl e)
                   | Inr pl \<Rightarrow>
                       map_option (\<lambda>r. res_bind r (\<lambda>(loc, pl'). Inr (if loc \<noteq> None then Some hash else None)))
                         (pil_exists (pe_files env) pl hash False False)))
           else Some (Inr None), g'))"

definition update_ref :: "'g git \<Rightarrow> bytes \<Rightarrow> bytes \<Rightarrow> bytes option \<Rightarrow> bool \<Rightarrow> 'g \<Rightarrow> unit res \<times> 'g" where
  "update_ref git refname newval oldval force g =
     (if force \<and> oldval \<noteq> None then (Inl AssertionError, g)
      else
        let oldarg = (if force then [] else case oldval of None \<Rightarrow> [[]] | Some v \<Rightarrow> if v = [] then [[]] else [hexlify v])
        in if \<not> (prefix ''refs/heads/'' refname \<or> prefix ''refs/tags/'' refname) then (Inl AssertionError, g)
           else case git ([''git'', ''update-ref'', refname, hexlify newval] @ oldarg) g of
                  ((returncode, stdout), g') \<Rightarrow> (if returncode \<noteq> 0 then Inl GitError else Inr (), g'))"

definition delete_ref :: "'g git \<Rightarrow> bytes \<Rightarrow> bytes option \<Rightarrow> 'g \<Rightarrow> unit res \<times> 'g" where
  "delete_ref git refname oldvalue g =
     (if \<not> prefix ''refs/'' refname then (Inl AssertionError, g)
      else
        let oldarg = (case oldvalue of None \<Rightarrow> [] | Some v \<Rightarrow> if v = [] then [] else [v])
        in case git ([''git'', ''update-ref'', ''-d'', refname] @ oldarg) g of
             ((returncode, stdout), g') \<Rightarrow> (if returncode \<noteq> 0 then Inl GitError else Inr (), g'))"

text \<open>\<open>tags\<close>: the names by hash, in the order of the listing (a Python dict keeps it).\<close>

definition add_tag :: "bytes \<Rightarrow> bytes \<Rightarrow> (bytes \<times> bytes list) list \<Rightarrow> (bytes \<times> bytes list) list" where
  "add_tag c name tgs =
     (case map_of tgs c of None \<Rightarrow> tgs @ [(c, [name])] | Some names \<Rightarrow> AList.update c (names @ [name]) tgs)"

fun collect_tags :: "(bytes \<times> bytes) list \<Rightarrow> (bytes \<times> bytes list) list \<Rightarrow> (bytes \<times> bytes list) list res" where
  "collect_tags [] tgs = Inr tgs"
| "collect_tags ((n, c) # refs) tgs =
     (if prefix ''refs/tags/'' n then collect_tags refs (add_tag c (drop 10 n) tgs) else Inl AssertionError)"

definition tags :: "'g git \<Rightarrow> 'g \<Rightarrow> (bytes \<times> bytes list) list res \<times> 'g" where
  "tags git g =
     (case list_refs git [] False True g of
        (refs, g') \<Rightarrow> (res_bind (collect_tags (fst refs) []) (\<lambda>tgs. case snd refs of None \<Rightarrow> Inr tgs | Some e \<Rightarrow> Inl e), g'))"

section \<open>Listing commits\<close>

definition rev_list_invocation :: "bytes + bytes list \<Rightarrow> bytes option \<Rightarrow> bytes list res" where
  "rev_list_invocation ref_or_refs format =
     (let refs = (case ref_or_refs of Inl r \<Rightarrow> [r] | Inr rs \<Rightarrow> rs)
      in res_bind (py_assert (\<forall>ref\<in>set refs. \<not> prefix ''-'' ref)) (\<lambda>_.
         Inr ([''git'', ''rev-list''] @
              (case format of None \<Rightarrow> [] | Some f \<Rightarrow> if f = [] then [] else [''--pretty=format:'' @ f]) @ refs @ [''--''])))"

text \<open>\<open>for line in p.stdout\<close>: the lines with their newline.\<close>

function stdout_lines :: "bytes \<Rightarrow> bytes list" where
  "stdout_lines s = (case readline s of (line, rest) \<Rightarrow> if line = [] then [] else line # stdout_lines rest)"
  by pat_completeness auto
termination
  by (relation "measure length") (auto dest: readline_shorter [OF sym])

declare stdout_lines.simps [simp del]

text \<open>The callback \<open>parse\<close> gives its result and how many bytes of the stream it read.\<close>

function rev_list_loop :: "(bytes \<Rightarrow> ('a \<times> nat) res) \<Rightarrow> bytes \<Rightarrow> (bytes \<times> 'a) yields" where
  "rev_list_loop parse s =
     (case readline s of (line, rest) \<Rightarrow>
        if line = [] then ([], None)
        else
          let l = strip line
          in if \<not> prefix ''commit '' l then ([], Some (Exc ''unexpected line''))
             else if length (drop 7 l) \<noteq> 40 then ([], Some AssertionError)
             else case parse rest of
                    Inl e \<Rightarrow> ([], Some e)
                  | Inr (x, n) \<Rightarrow> (let r = rev_list_loop parse (drop n rest) in ((drop 7 l, x) # fst r, snd r)))"
  by pat_completeness auto
termination
  by (relation "measure (\<lambda>(p, s). length s)") (auto dest!: readline_shorter [OF sym])

declare rev_list_loop.simps [simp del]

definition end_status :: "int \<Rightarrow> 'a yields \<Rightarrow> 'a yields" where
  "end_status rv gen = (fst gen, case snd gen of Some e \<Rightarrow> Some e | None \<Rightarrow> if rv \<noteq> 0 then Some GitError else None)"

text \<open>What is yielded: the hashes alone, or with the parsed part.\<close>

definition rev_list ::
  "'g git \<Rightarrow> bytes + bytes list \<Rightarrow> (bytes \<Rightarrow> ('a \<times> nat) res) option \<Rightarrow> bytes option \<Rightarrow> 'g \<Rightarrow> (bytes \<times> 'a option) yields \<times> 'g" where
  "rev_list git ref_or_refs parse format g =
     (let with_format = (format \<noteq> None \<and> format \<noteq> Some [])
      in if (parse \<noteq> None) \<noteq> with_format then (([], Some AssertionError), g)
         else case rev_list_invocation ref_or_refs format of
           Inl e \<Rightarrow> (([], Some e), g)
         | Inr argv \<Rightarrow>
             (case git argv g of
                ((rv, stdout), g') \<Rightarrow>
                  (case parse of
                     None \<Rightarrow> (end_status rv (map (\<lambda>l. (strip l, None)) (stdout_lines stdout), None), g')
                   | Some p \<Rightarrow> (let r = rev_list_loop p stdout in (end_status rv (map (\<lambda>(s, x). (s, Some x)) (fst r), snd r), g')))))"

section \<open>Configuration\<close>

text \<open>C's \<open>strtoimax\<close> with base 0, as the helper wraps it: the value and the index after it.\<close>

datatype strto = NoNumber | TooLarge | TooSmall | Number int

definition strto_base :: "bytes \<Rightarrow> nat \<times> bytes" where
  "strto_base s =
     (if (prefix ''0x'' s \<or> prefix ''0X'' s) \<and> drop 2 s \<noteq> [] \<and> (case char_digit (s ! 2) of None \<Rightarrow> False | Some d \<Rightarrow> d < 16)
      then (16, drop 2 s)
      else if prefix ''0'' s then (8, s) else (10, s))"

definition strto_digits :: "nat \<Rightarrow> bytes \<Rightarrow> nat list" where
  "strto_digits base s =
     map (\<lambda>c. the (char_digit c)) (takeWhile (\<lambda>c. case char_digit c of None \<Rightarrow> False | Some d \<Rightarrow> d < base) s)"

definition strtoimax :: "bytes \<Rightarrow> strto \<times> nat" where
  "strtoimax v =
     (let s1 = lstrip_chars whitespace v;
          neg = prefix ''-'' s1;
          s2 = (if neg \<or> prefix ''+'' s1 then drop 1 s1 else s1);
          (base, s3) = strto_base s2;
          ds = strto_digits base s3;
          mag = int (foldl (\<lambda>a d. base * a + d) 0 ds);
          n = (if neg then - mag else mag)
      in if ds = [] then (NoNumber, 0)
         else (if 2 ^ 63 \<le> n then TooLarge else if n < - (2 ^ 63) then TooSmall else Number n,
               length v - length s3 + length ds))"

definition parse_git_int :: "bytes \<Rightarrow> int res" where
  "parse_git_int v =
     (if CHR 0x00 \<in> set v then Inl ValueError
      else case strtoimax v of
        (TooLarge, _) \<Rightarrow> Inl (Exc ''ConfigError'')
      | (TooSmall, _) \<Rightarrow> Inl (Exc ''ConfigError'')
      | (NoNumber, _) \<Rightarrow> Inl (Exc ''ConfigError'')
      | (Number mag, suffix_i) \<Rightarrow>
          (let unit = drop suffix_i v
           in if unit = [] then Inr mag
              else if unit \<in> {''k'', ''K''} then Inr (mag * 1024)
              else if unit \<in> {''m'', ''M''} then Inr (mag * 1024 * 1024)
              else if unit \<in> {''g'', ''G''} then Inr (mag * 1024 * 1024 * 1024)
              else Inl (Exc ''ConfigError'')))"

datatype opttype = OptBytes | OptInt | OptBool
datatype config_value = ConfBytes bytes | ConfInt int | ConfBool bool

definition git_config_get :: "'g git \<Rightarrow> bytes \<Rightarrow> bytes \<Rightarrow> opttype \<Rightarrow> 'g \<Rightarrow> config_value option res \<times> 'g" where
  "git_config_get git path option opttype g =
     (case git ([''git'', ''config'', ''--file'', path, ''--null''] @ [''--get'', option]) g of
        ((rc, stdout), g') \<Rightarrow>
          (let r = butlast stdout
           in if rc = 0 then
                if r = [] then Inl (Exc ''ConfigError'')
                else (case opttype of
                        OptInt \<Rightarrow> res_bind (parse_git_int r) (\<lambda>v. Inr (Some (ConfInt v)))
                      | OptBool \<Rightarrow>
                          if r \<in> {''0'', ''false''} then Inr (Some (ConfBool False))
                          else if r \<in> {''1'', ''true''} then Inr (Some (ConfBool True))
                          else Inl (Exc ''ConfigError'')
                      | OptBytes \<Rightarrow> Inr (Some (ConfBytes r)))
              else if rc = 1 then Inr None
              else Inl GitError, g'))"

section \<open>The repository\<close>

definition repo :: "(bytes \<Rightarrow> bool) \<Rightarrow> bytes option \<Rightarrow> bytes \<Rightarrow> bytes option \<Rightarrow> bytes res" where
  "repo exists repodir sub repo_dir0 =
     (let repo_dir = (if repo_dir0 = None \<or> repo_dir0 = Some [] then repodir else repo_dir0)
      in case repo_dir of
           None \<Rightarrow> Inl GitError
         | Some d \<Rightarrow>
             if d = [] then Inl GitError
             else let gd = path_join d ''.git''
                  in Inr (path_join (if exists gd then gd else d) sub))"

definition lower_alnum :: "char \<Rightarrow> bool" where
  "lower_alnum c \<longleftrightarrow> (let n = of_char c :: nat in (48 \<le> n \<and> n \<le> 57) \<or> (97 \<le> n \<and> n \<le> 122))"

definition word_char :: "char \<Rightarrow> bool" where
  "word_char c \<longleftrightarrow> lower_alnum c \<or> (65 \<le> (of_char c :: nat) \<and> (of_char c :: nat) \<le> 90) \<or> c = CHR ''_''"

text \<open>Forty characters of a hash, and no more, at the front; the pattern's last group takes a character.\<close>

definition hash_at :: "bytes \<Rightarrow> bool" where
  "hash_at s \<longleftrightarrow> 40 \<le> length s \<and> list_all lower_alnum (take 40 s) \<and> (drop 40 s = [] \<or> \<not> lower_alnum (s ! 40))"

function shorten_from :: "char option \<Rightarrow> bytes \<Rightarrow> bytes" where
  "shorten_from prev [] = []"
| "shorten_from prev (c # s) =
     (if \<not> lower_alnum c \<and> hash_at s then
        c # take 7 s @ ''*'' @ take 1 (drop 40 s) @ shorten_from (Some (if drop 40 s = [] then s ! 39 else s ! 40)) (drop 41 s)
      else if (case prev of None \<Rightarrow> True | Some p \<Rightarrow> \<not> word_char p) \<and> hash_at (c # s) then
        take 7 (c # s) @ ''*'' @ take 1 (drop 39 s) @ shorten_from (Some (if drop 39 s = [] then s ! 38 else s ! 39)) (drop 40 s)
      else c # shorten_from (Some c) s)"
  by pat_completeness auto
termination
  by (relation "measure (\<lambda>(p, s). length s)") auto

definition shorten_hash :: "bytes \<Rightarrow> bytes" where
  "shorten_hash s = shorten_from None s"

definition repo_rel :: "(bytes \<Rightarrow> bytes) \<Rightarrow> (bytes \<Rightarrow> bool) \<Rightarrow> bytes option \<Rightarrow> bytes \<Rightarrow> bytes res" where
  "repo_rel abspath exists repodir path =
     (let full = abspath path
      in res_bind (repo exists repodir [] None) (\<lambda>r.
         let fullrepo0 = abspath r;
             fullrepo = (if suffix ''/'' fullrepo0 then fullrepo0 else fullrepo0 @ ''/'');
             path1 = (if prefix fullrepo full then drop (length fullrepo) full else path);
             path2 = (if prefix ''index-cache/'' path1 then drop (length ''index-cache/'') path1 else path1)
         in Inr (shorten_hash path2)))"

definition guess_repo :: "bytes option \<Rightarrow> bytes \<Rightarrow> bytes" where
  "guess_repo repodir defaultrepo = (case repodir of None \<Rightarrow> defaultrepo | Some d \<Rightarrow> if d = [] then defaultrepo else d)"

text \<open>Steps that change the outside and may fail.\<close>

type_synonym ('g, 'a) step = "'g \<Rightarrow> 'a res \<times> 'g"

definition step_bind :: "('g, 'a) step \<Rightarrow> ('a \<Rightarrow> ('g, 'b) step) \<Rightarrow> ('g, 'b) step" where
  "step_bind m f = (\<lambda>g. case m g of (Inl e, g') \<Rightarrow> (Inl e, g') | (Inr x, g') \<Rightarrow> f x g')"

definition run_ok :: "'g git \<Rightarrow> bytes list \<Rightarrow> ('g, unit) step" where
  "run_ok git argv g = (case git argv g of ((rc, stdout), g') \<Rightarrow> (if rc \<noteq> 0 then Inl GitError else Inr (), g'))"

definition set_config :: "'g git \<Rightarrow> bytes \<Rightarrow> bytes \<Rightarrow> ('g, unit) step" where
  "set_config git opt val = run_ok git [''git'', ''config'', opt, val]"

definition init_repo ::
  "'g git \<Rightarrow> (bytes \<Rightarrow> bool) \<Rightarrow> (bytes \<Rightarrow> bool) \<Rightarrow> bytes \<Rightarrow> bytes option \<Rightarrow> bytes \<Rightarrow> bytes option \<Rightarrow> ('g, unit) step" where
  "init_repo git exists isdir repo_id repodir0 defaultrepo path =
     (let repodir = (case path of None \<Rightarrow> guess_repo repodir0 defaultrepo | Some p \<Rightarrow> if p = [] then guess_repo repodir0 defaultrepo else p)
      in case repo exists (Some repodir) [] None of
        Inl e \<Rightarrow> (\<lambda>g. (Inl e, g))
      | Inr d \<Rightarrow>
          let parent = dirname (dirname d);
              again = exists (path_join d ''HEAD'');
              cfg = path_join d ''config''
          in if parent \<noteq> [] \<and> \<not> exists parent then (\<lambda>g. (Inl GitError, g))
             else if exists d \<and> \<not> isdir (path_join d ''.'') then (\<lambda>g. (Inl GitError, g))
             else
               step_bind (run_ok git [''git'', ''--bare'', ''-c'', ''init.defaultBranch=main'', ''init'']) (\<lambda>_.
               if again then
                 step_bind (git_config_get git cfg ''bup.repo.id'' OptBytes) (\<lambda>id.
                 step_bind (if id = None then set_config git ''bup.repo.id'' repo_id else (\<lambda>g. (Inr (), g))) (\<lambda>_.
                 step_bind (git_config_get git cfg ''pack.indexVersion'' OptInt) (\<lambda>v.
                 if v \<noteq> Some (ConfInt 2) then set_config git ''pack.indexVersion'' ''2'' else (\<lambda>g. (Inr (), g)))))
               else
                 step_bind (set_config git ''bup.repo.id'' repo_id) (\<lambda>_.
                 step_bind (set_config git ''core.logAllRefUpdates'' ''true'') (\<lambda>_.
                 set_config git ''pack.indexVersion'' ''2''))))"

text \<open>What \<open>os.stat\<close> says: a directory or not, or one of the two errors that are caught.\<close>

datatype stat_answer = StatDir bool | NotADirectory | FileNotFound

definition establish_default_repo ::
  "(bytes \<Rightarrow> stat_answer) \<Rightarrow> (bytes \<Rightarrow> bool) \<Rightarrow> bytes option \<Rightarrow> bytes \<Rightarrow> bytes option \<Rightarrow> bool \<Rightarrow> bool res" where
  "establish_default_repo os_stat exists repodir0 defaultrepo path must_exist =
     (let maybe_exit = (\<lambda>status. if must_exist then Inl (SysExit status) else Inr False);
          repodir = (case path of None \<Rightarrow> guess_repo repodir0 defaultrepo | Some p \<Rightarrow> if p = [] then guess_repo repodir0 defaultrepo else p)
      in res_bind (repo exists (Some repodir) [] None) (\<lambda>d.
         case os_stat (d @ ''/objects/pack'') of
           StatDir True \<Rightarrow> Inr True
         | StatDir False \<Rightarrow> maybe_exit 14
         | NotADirectory \<Rightarrow> maybe_exit 14
         | FileNotFound \<Rightarrow>
             (case os_stat d of NotADirectory \<Rightarrow> maybe_exit 15 | FileNotFound \<Rightarrow> maybe_exit 15 | StatDir _ \<Rightarrow> maybe_exit 15)))"

definition check_repo_or_die :: "(bytes \<Rightarrow> stat_answer) \<Rightarrow> (bytes \<Rightarrow> bool) \<Rightarrow> bytes option \<Rightarrow> bytes \<Rightarrow> bytes option \<Rightarrow> bool res" where
  "check_repo_or_die os_stat exists repodir0 defaultrepo path = establish_default_repo os_stat exists repodir0 defaultrepo path True"

section \<open>The version of git\<close>

datatype git_status = Unrecognized | Insufficient | Suitable

definition version_ends :: "bytes \<Rightarrow> bool" where
  "version_ends s \<longleftrightarrow> s = [] \<or> s = [CHR 0x0a] \<or> hd s = CHR ''.''"

definition is_suitable_git :: "bytes \<Rightarrow> git_status res" where
  "is_suitable_git ver_str0 =
     (if \<not> prefix ''git version '' ver_str0 then Inr Unrecognized
      else
        let ver_str = drop (length ''git version '') ver_str0;
            third = drop 2 ver_str
        in if prefix ''0.'' ver_str then Inr Insufficient
           else if prefix ''1.'' ver_str then
             (if third \<noteq> [] \<and> hd third \<in> set ''01234567'' \<and> prefix ''rc'' (tl third) then Inr Insufficient
              else if third \<noteq> [] \<and> hd third \<in> set ''0123456'' \<and> prefix ''.'' (tl third) then Inr Insufficient
              else if prefix ''1.7.'' ver_str \<and> drop 4 ver_str \<noteq> [] \<and> ver_str ! 4 \<in> set ''01'' \<and> version_ends (drop 5 ver_str)
              then Inr Insufficient
              else if prefix ''1.7.2-rc'' ver_str then Inr Insufficient
              else Inr Suitable)
           else if ver_str \<noteq> [] \<and> hd ver_str \<in> set ''0123456789'' then Inr Suitable
           else Inl (SysExit 13))"

definition ascii_lower :: "bytes \<Rightarrow> bytes" where
  "ascii_lower = map (\<lambda>c. if 65 \<le> (of_char c :: nat) \<and> (of_char c :: nat) \<le> 90 then char_of (of_char c + 32 :: nat) else c)"

text \<open>The state is \<open>_git_great\<close>.\<close>

definition require_suitable_git :: "'g git \<Rightarrow> bytes \<Rightarrow> bytes option \<Rightarrow> bool option \<Rightarrow> 'g \<Rightarrow> unit res \<times> bool option \<times> 'g" where
  "require_suitable_git git fine ver_str0 great g =
     (if great \<noteq> None then (Inr (), great, g)
      else if ascii_lower fine \<in> {''yes'', ''true'', ''1''} then (Inr (), Some True, g)
      else
        case (if ver_str0 = None \<or> ver_str0 = Some [] then git [''git'', ''--version''] g else ((0, the ver_str0), g)) of
          ((rc, ver_str), g') \<Rightarrow>
            if rc \<noteq> 0 then (Inl GitError, great, g')
            else case is_suitable_git ver_str of
                   Inl e \<Rightarrow> (Inl e, great, g')
                 | Inr Unrecognized \<Rightarrow> (Inl GitError, great, g')
                 | Inr Insufficient \<Rightarrow> (Inl (SysExit 2), great, g')
                 | Inr Suitable \<Rightarrow> (Inr (), Some True, g'))"

section \<open>Properties\<close>

text \<open>A committish of forty characters that is no branch and not hexadecimal makes \<open>rev_parse\<close>
  raise, where it means to give nothing: the exception of \<open>unhexlify\<close> is not the one it catches.\<close>

theorem rev_parse_not_hex_raises:
  assumes "fst (read_ref git committish g) = Inr None" "length committish = 40" "c \<in> set committish" "hex_value c = None"
  shows "fst (rev_parse git env repo_dir committish g) = Some (Inl ValueError)"
proof -
  have "unhexlify s = Inl ValueError" if "even (length s)" "c \<in> set s" for s
    using that assms(4) by (induction s rule: unhexlify.induct) (auto split: option.splits)
  then have "unhexlify committish = Inl ValueError" using assms(2,3) by simp
  then show ?thesis using assms(1,2) by (cases "read_ref git committish g") (simp add: rev_parse_def)
qed

theorem rev_parse_not_hex_raises_witness:
  "fst (rev_parse (\<lambda>argv g. ((1, []), g))
     \<lparr>pe_dir_exists = False, pe_midxes = [], pe_idxs = [], pe_files = \<lambda>_. None, pe_mtime = \<lambda>_. 0, pe_order = \<lambda>x. x\<rparr> ''d'' (replicate 40 CHR ''x'') ()) = Some (Inl ValueError)"
proof (rule rev_parse_not_hex_raises)
  show "hex_value CHR ''x'' = None" by code_simp
  show "fst (read_ref (\<lambda>argv g. ((1, []), g)) (replicate 40 CHR ''x'') ()) = Inr None"
    by (simp add: read_ref_def list_refs_def first_items_def strip_def rstrip_chars_def lstrip_chars_def)
qed simp_all

text \<open>What git writes for its references.\<close>

definition show_ref_lines :: "(bytes \<times> bytes) list \<Rightarrow> bytes" where
  "show_ref_lines refs = concat (map (\<lambda>(name, sha). hexlify sha @ CHR '' '' # name @ [CHR 0x0a]) refs)"

definition ref_ok :: "bytes \<times> bytes \<Rightarrow> bool" where
  "ref_ok r \<longleftrightarrow> fst r \<noteq> [] \<and> (\<forall>c\<in>set (fst r). c \<notin> set whitespace) \<and> snd r \<noteq> []"

lemma yield_map_all: "(\<And>x. x \<in> set xs \<Longrightarrow> f x = Inr (g x)) \<Longrightarrow> yield_map f xs = (map g xs, None)"
  by (induction xs) (simp_all add: Let_def)

lemma show_long:
  assumes "10 \<le> n"
  obtains x y t where "x < 10" "y < 10" "show_base 10 n = digit_char x # digit_char y # t"
proof -
  obtain ds where ds: "show_base 10 n = map digit_char ds" "\<forall>d\<in>set ds. d < 10" "foldl (\<lambda>a d. 10 * a + d) 0 ds = n"
    using show_base_digits [of 10 n] by auto
  show thesis
  proof (cases ds)
    case (Cons x xs)
    then show ?thesis
    proof (cases xs)
      case (Cons y ys)
      then show ?thesis using that [of x y "map digit_char ys"] ds(1,2) \<open>ds = x # xs\<close> by simp
    qed (use ds assms in simp)
  qed (use ds(1) in simp)
qed

lemma show_short: "n < 10 \<Longrightarrow> show_base 10 n = [digit_char n]"
  by (simp add: show_base.simps)

lemma digit_char_eq: "x < 10 \<Longrightarrow> y < 10 \<Longrightarrow> digit_char x = digit_char y \<longleftrightarrow> x = y"
  by (auto dest!: arg_cong [of "digit_char x" "digit_char y" char_digit] simp: char_digit_digit_char)

lemma digit_chars: "CHR ''0'' = digit_char 0" "CHR ''1'' = digit_char 1" "CHR ''2'' = digit_char 2" "CHR ''3'' = digit_char 3"
  "CHR ''4'' = digit_char 4" "CHR ''5'' = digit_char 5" "CHR ''6'' = digit_char 6" "CHR ''7'' = digit_char 7"
  "CHR ''8'' = digit_char 8" "CHR ''9'' = digit_char 9"
  by (code_simp)+

lemma digit_not:
  assumes "x < 10"
  shows "digit_char x \<noteq> CHR ''.''" "digit_char x \<noteq> CHR ''r''" "digit_char x \<noteq> CHR ''-''" "digit_char x \<noteq> CHR 0x0a"
  using assms digit_char_neq(1) [of x "CHR ''.''"] digit_char_neq(2) [of x "CHR ''r''"] digit_char_neq(1) [of x "CHR ''-''"]
    digit_char_neq(1) [of x "CHR 0x0a"] by simp_all

lemma suitable_one:
  assumes "version_ends r"
  shows "is_suitable_git (''git version 1.'' @ show_base 10 b @ ''.'' @ show_base 10 c @ r) = Inr (if (b, c) < (7, 2) then Insufficient else Suitable)"
proof -
  have third: "is_suitable_git (''git version 1.'' @ s) =
    (if s \<noteq> [] \<and> hd s \<in> set ''01234567'' \<and> prefix ''rc'' (tl s) then Inr Insufficient
     else if s \<noteq> [] \<and> hd s \<in> set ''0123456'' \<and> prefix ''.'' (tl s) then Inr Insufficient
     else if prefix ''7.'' s \<and> drop 2 s \<noteq> [] \<and> s ! 2 \<in> set ''01'' \<and> version_ends (drop 3 s) then Inr Insufficient
     else if prefix ''7.2-rc'' s then Inr Insufficient else Inr Suitable)" for s
  proof -
    have v: "drop (length ''git version '') (''git version 1.'' @ s) = CHR ''1'' # CHR ''.'' # s" by simp
    have p: "prefix ''git version '' (''git version 1.'' @ s)" "\<not> prefix ''0.'' (CHR ''1'' # CHR ''.'' # s)" "prefix ''1.'' (CHR ''1'' # CHR ''.'' # s)"
      "prefix ''1.7.'' (CHR ''1'' # CHR ''.'' # s) = prefix ''7.'' s" "prefix ''1.7.2-rc'' (CHR ''1'' # CHR ''.'' # s) = prefix ''7.2-rc'' s"
      "drop 2 (CHR ''1'' # CHR ''.'' # s) = s" "drop 4 (CHR ''1'' # CHR ''.'' # s) = drop 2 s" "drop 5 (CHR ''1'' # CHR ''.'' # s) = drop 3 s"
      "(CHR ''1'' # CHR ''.'' # s) ! 4 = s ! 2"
      by simp_all
    show ?thesis unfolding is_suitable_git_def Let_def v by (simp only: p not_True_eq_False if_True if_False not_False_eq_True)
  qed
  have r: "\<not> prefix ''-rc'' r" using assms by (cases r) (auto simp: version_ends_def)
  show ?thesis
  proof (cases "b < 10")
    case True
    note b = show_short [OF this]
    show ?thesis
    proof (cases "c < 10")
      case c: True
      show ?thesis unfolding third b show_short [OF c]
        using True c r assms digit_not [of b] digit_not [of c]
        by (auto simp: digit_chars digit_char_eq less_prod_def split: if_splits)
    next
      case False
      then obtain x y t where "x < 10" "y < 10" "show_base 10 c = digit_char x # digit_char y # t" using show_long by (metis not_less)
      then show ?thesis unfolding third b
        using True False digit_not [of b] digit_not [of x] digit_not [of y]
        by (auto simp: digit_chars digit_char_eq less_prod_def version_ends_def split: if_splits)
    qed
  next
    case False
    then obtain x y t where "x < 10" "y < 10" "show_base 10 b = digit_char x # digit_char y # t" using show_long by (metis not_less)
    then show ?thesis unfolding third
      using False digit_not [of x] digit_not [of y] by (auto simp: less_prod_def)
  qed
qed

text \<open>For a version of three numbers, and anything after a dot or the end of the line, \<open>is_suitable_git\<close>
  says insufficient exactly when the version is before 1.7.2, and suitable otherwise.\<close>

theorem is_suitable_git_compares:
  assumes "version_ends r"
  shows "is_suitable_git (''git version '' @ show_base 10 a @ ''.'' @ show_base 10 b @ ''.'' @ show_base 10 c @ r) =
    Inr (if (a, b, c) < (1, 7, 2) then Insufficient else Suitable)"
proof -
  consider "a = 0" | "a = 1" | "1 < a" "a < 10" | "10 \<le> a" by linarith
  then show ?thesis
  proof cases
    case 1
    then have "show_base 10 a = ''0''" by (simp add: show_short digit_chars)
    then show ?thesis using 1 by (simp add: is_suitable_git_def)
  next
    case 2
    then have "show_base 10 a = ''1''" by (simp add: show_short digit_chars)
    then show ?thesis using suitable_one [OF assms, of b c] 2 by simp
  next
    case 3
    then have "digit_char a \<in> set ''0123456789''" "digit_char a \<noteq> CHR ''0''" "digit_char a \<noteq> CHR ''1''"
      by (auto simp: digit_chars digit_char_eq)
    then show ?thesis using 3 by (simp add: is_suitable_git_def Let_def show_short)
  next
    case 4
    then obtain x y t where x: "x < 10" "y < 10" "show_base 10 a = digit_char x # digit_char y # t" by (rule show_long)
    then have "digit_char x \<in> set ''0123456789''" by (auto simp: digit_chars digit_char_eq)
    then show ?thesis using x 4 digit_not [of y] by (simp add: is_suitable_git_def Let_def)
  qed
qed

theorem is_suitable_git_compares_witness:
  "is_suitable_git (''git version '' @ show_base 10 2 @ ''.'' @ show_base 10 39 @ ''.'' @ show_base 10 5 @ [CHR 0x0a]) = Inr Suitable"
  using is_suitable_git_compares [of "[CHR 0x0a]" 2 39 5] by (simp add: version_ends_def)

end
