(* ===== verification/Cat_Pipe.thy ===== *)
theory Cat_Pipe
  imports Git_Repo Streams
begin

text \<open>
  Reading objects through \<open>git cat-file\<close>: \<open>CatPipe\<close> of \<open>lib/bup/git.py\<close>.  A process is its command, the
  output not read yet and its exit status; what it writes to a request line is a parameter.  The data
  iterator is run to its end by an operation of its own.
\<close>

section \<open>The pipe\<close>

record proc =
  gp_argv :: "bytes list"
  gp_out :: bytes
  gp_exit :: "int option"

type_synonym answers = "bytes list \<Rightarrow> bytes \<Rightarrow> bytes"

text \<open>\<open>pcheck\<close> may be the main process itself.\<close>

datatype check = NoCheck | SameCheck | OwnCheck proc

record cat_pipe =
  cp_batch :: bool
  cp_p :: "proc option"
  cp_pcheck :: check
  cp_inprogress :: "bytes option"

definition batch_argv :: "bool \<Rightarrow> bytes list" where
  "batch_argv have_batch_command = [''git'', ''cat-file'', if have_batch_command then ''--batch-command'' else ''--batch'']"

definition check_argv :: "bytes list" where
  "check_argv = [''git'', ''cat-file'', ''--batch-check'']"

definition cat_init :: "'g git \<Rightarrow> bytes \<Rightarrow> bool option \<Rightarrow> 'g \<Rightarrow> cat_pipe res \<times> bool option \<times> 'g" where
  "cat_init git fine great g =
     (case require_suitable_git git fine None great g of
        (Inl e, great', g') \<Rightarrow> (Inl e, great', g')
      | (Inr _, great', g') \<Rightarrow>
          (case git [''git'', ''cat-file'', ''--batch-command''] g' of
             ((rc, stdout), g'') \<Rightarrow> (Inr \<lparr>cp_batch = (rc = 0), cp_p = None, cp_pcheck = NoCheck, cp_inprogress = None\<rparr>, great', g'')))"

text \<open>\<open>close\<close>: the exit status of a process waited for is a parameter.\<close>

definition cat_close :: "(proc \<Rightarrow> int) \<Rightarrow> bool \<Rightarrow> cat_pipe \<Rightarrow> int option \<times> cat_pipe" where
  "cat_close status wait cp =
     (let p = cp_p cp;
          pcheck = (case cp_pcheck cp of NoCheck \<Rightarrow> None | SameCheck \<Rightarrow> p | OwnCheck q \<Rightarrow> Some q);
          code = (\<lambda>q. case q of None \<Rightarrow> 0 | Some r \<Rightarrow> status r)
      in (if wait then Some (if code p \<noteq> 0 then code p else if code pcheck \<noteq> 0 then code pcheck else 0) else None,
          cp\<lparr>cp_p := None, cp_pcheck := NoCheck, cp_inprogress := None\<rparr>))"

definition cat_restart :: "cat_pipe \<Rightarrow> cat_pipe" where
  "cat_restart cp =
     (snd (cat_close (\<lambda>_. 0) False cp))\<lparr>cp_p := Some \<lparr>gp_argv = batch_argv (cp_batch cp), gp_out = [], gp_exit = None\<rparr>\<rparr>"

definition open_check :: "cat_pipe \<Rightarrow> cat_pipe" where
  "open_check cp =
     (if cp_pcheck cp \<noteq> NoCheck then cp
      else if cp_batch cp then cp\<lparr>cp_pcheck := SameCheck\<rparr>
      else cp\<lparr>cp_pcheck := OwnCheck \<lparr>gp_argv = check_argv, gp_out = [], gp_exit = None\<rparr>\<rparr>)"

definition ask :: "answers \<Rightarrow> bytes \<Rightarrow> proc \<Rightarrow> proc" where
  "ask answers req p = p\<lparr>gp_out := gp_out p @ answers (gp_argv p) req\<rparr>"

text \<open>The process that is asked, and the pipe with it changed.\<close>

definition asked :: "bool \<Rightarrow> cat_pipe \<Rightarrow> proc" where
  "asked include_data cp =
     (if include_data then the (cp_p cp) else case cp_pcheck cp of OwnCheck q \<Rightarrow> q | _ \<Rightarrow> the (cp_p cp))"

definition set_asked :: "bool \<Rightarrow> proc \<Rightarrow> cat_pipe \<Rightarrow> cat_pipe" where
  "set_asked include_data p cp =
     (if include_data then cp\<lparr>cp_p := Some p\<rparr>
      else case cp_pcheck cp of OwnCheck q \<Rightarrow> cp\<lparr>cp_pcheck := OwnCheck p\<rparr> | _ \<Rightarrow> cp\<lparr>cp_p := Some p\<rparr>)"

definition is_missing :: "bytes \<Rightarrow> bool" where
  "is_missing hdr \<longleftrightarrow> suffix ('' missing'' @ [CHR 0x0a]) hdr"

text \<open>The header line: id, type and size of the object.\<close>

definition cat_header :: "bytes \<Rightarrow> (bytes \<times> bytes \<times> int) res" where
  "cat_header hdr =
     (case split_on CHR '' '' hdr of
        [oidx, typ, sz] \<Rightarrow> if length oidx \<noteq> 40 then Inl GitError else res_bind (py_int 10 sz) (\<lambda>n. Inr (oidx, typ, n))
      | _ \<Rightarrow> Inl GitError)"

definition cat_get :: "answers \<Rightarrow> bytes \<Rightarrow> bool \<Rightarrow> cat_pipe \<Rightarrow> (bytes \<times> bytes \<times> int) option res \<times> cat_pipe" where
  "cat_get answers ref include_data cp0 =
     (let cp1 = (case cp_p cp0 of None \<Rightarrow> cat_restart cp0 | Some p \<Rightarrow> if gp_exit p \<noteq> None then cat_restart cp0 else cp0)
      in if (cp_inprogress cp1 \<noteq> None \<and> cp_inprogress cp1 \<noteq> Some []) \<or> CHR 0x0a \<in> set ref \<or> CHR 0x0d \<in> set ref \<or> prefix ''-'' ref
         then (Inl AssertionError, cp1)
         else
           let cp2 = cp1\<lparr>cp_inprogress := Some ref\<rparr>;
               cp3 = (if include_data then cp2 else open_check cp2);
               req = (if cp_batch cp3 then (if include_data then ''contents '' else ''info '') else []) @ ref @ [CHR 0x0a];
               p = ask answers req (asked include_data cp3);
               (hdr, rest) = readline (gp_out p);
               cp4 = set_asked include_data (p\<lparr>gp_out := rest\<rparr>) cp3
           in if hdr = [] then (Inl GitError, cp4)
              else if is_missing hdr then (Inr None, cp4\<lparr>cp_inprogress := None\<rparr>)
              else case cat_header hdr of
                     Inl e \<Rightarrow> (Inl e, cp4)
                   | Inr info \<Rightarrow> (Inr (Some info), if include_data then cp4 else cp4\<lparr>cp_inprogress := None\<rparr>))"

text \<open>The data iterator, run to its end after a \<open>cat_get\<close> with data.\<close>

definition cat_data :: "int \<Rightarrow> cat_pipe \<Rightarrow> bytes res \<times> cat_pipe" where
  "cat_data sz cp =
     (let p = the (cp_p cp)
      in case chunkyreader (gp_out p) (Some sz) of
           (bs, Inl e) \<Rightarrow> (Inl e, snd (cat_close (\<lambda>_. 0) False cp))
         | (bs, Inr rest) \<Rightarrow>
             (case readline rest of
                (line, rest') \<Rightarrow>
                  if line = [CHR 0x0a] then (Inr (concat bs), cp\<lparr>cp_p := Some (p\<lparr>gp_out := rest'\<rparr>), cp_inprogress := None\<rparr>)
                  else (Inl AssertionError, snd (cat_close (\<lambda>_. 0) False cp))))"

text \<open>The pipes kept, by absolute path of the repository.\<close>

definition catpipe :: "(bytes \<Rightarrow> cat_pipe) \<Rightarrow> (bytes \<Rightarrow> bytes) \<Rightarrow> bytes \<Rightarrow> (bytes \<times> cat_pipe) list \<Rightarrow> cat_pipe \<times> (bytes \<times> cat_pipe) list" where
  "catpipe new abspath repo_dir0 pipes =
     (let repo_dir = abspath repo_dir0
      in case map_of pipes repo_dir of
           Some cp \<Rightarrow> (cp, pipes)
         | None \<Rightarrow> (new repo_dir, AList.update repo_dir (new repo_dir) pipes))"

definition close_catpipes :: "(proc \<Rightarrow> int) \<Rightarrow> (bytes \<times> cat_pipe) list \<Rightarrow> cat_pipe list \<times> (bytes \<times> cat_pipe) list" where
  "close_catpipes status pipes = (map (\<lambda>(d, cp). snd (cat_close status True cp)) (rev pipes), [])"

definition get_commit_items :: "answers \<Rightarrow> bytes \<Rightarrow> cat_pipe \<Rightarrow> commit_info res \<times> cat_pipe" where
  "get_commit_items answers ref cp =
     (case cat_get answers ref True cp of
        (Inl e, cp') \<Rightarrow> (Inl e, cp')
      | (Inr None, cp') \<Rightarrow> (Inl (Exc ''not commit''), cp')
      | (Inr (Some (oidx, kind, sz)), cp') \<Rightarrow>
          if kind \<noteq> ''commit'' then (Inl (Exc ''not commit''), cp')
          else (case cat_data sz cp' of (r, cp'') \<Rightarrow> (res_bind r parse_commit, cp'')))"

section \<open>Staying in step with git\<close>

text \<open>An object in full: get and, if asked for, the data.\<close>

definition cat_fetch :: "answers \<Rightarrow> bytes \<Rightarrow> bool \<Rightarrow> cat_pipe \<Rightarrow> (bytes \<times> bytes \<times> int \<times> bytes option) option res \<times> cat_pipe" where
  "cat_fetch answers ref include_data cp =
     (case cat_get answers ref include_data cp of
        (Inl e, cp') \<Rightarrow> (Inl e, cp')
      | (Inr None, cp') \<Rightarrow> (Inr None, cp')
      | (Inr (Some (oidx, typ, sz)), cp') \<Rightarrow>
          if include_data then (case cat_data sz cp' of (r, cp'') \<Rightarrow> (res_bind r (\<lambda>d. Inr (Some (oidx, typ, sz, Some d))), cp''))
          else (Inr (Some (oidx, typ, sz, None)), cp'))"

fun cat_all :: "answers \<Rightarrow> (bytes \<times> bool) list \<Rightarrow> cat_pipe \<Rightarrow> (bytes \<times> bytes \<times> int \<times> bytes option) option list res \<times> cat_pipe" where
  "cat_all answers [] cp = (Inr [], cp)"
| "cat_all answers ((ref, inc) # qs) cp =
     (case cat_fetch answers ref inc cp of
        (Inl e, cp') \<Rightarrow> (Inl e, cp')
      | (Inr r, cp') \<Rightarrow> (case cat_all answers qs cp' of (rs, cp'') \<Rightarrow> (res_bind rs (\<lambda>rs. Inr (r # rs)), cp'')))"

text \<open>What git documents of its answers: the objects it has, missing ones, with the data or without.\<close>

type_synonym git_objs = "bytes \<Rightarrow> (bytes \<times> bytes \<times> bytes) option"

definition info_reply :: "git_objs \<Rightarrow> bytes \<Rightarrow> bytes" where
  "info_reply objs ref =
     (case objs ref of
        None \<Rightarrow> ref @ '' missing'' @ [CHR 0x0a]
      | Some (oidx, typ, data) \<Rightarrow> oidx @ CHR '' '' # typ @ CHR '' '' # show_base 10 (length data) @ [CHR 0x0a])"

definition contents_reply :: "git_objs \<Rightarrow> bytes \<Rightarrow> bytes" where
  "contents_reply objs ref = info_reply objs ref @ (case objs ref of None \<Rightarrow> [] | Some (oidx, typ, data) \<Rightarrow> data @ [CHR 0x0a])"

definition query_ok :: "bytes \<Rightarrow> bool" where
  "query_ok ref \<longleftrightarrow> CHR 0x0a \<notin> set ref \<and> CHR 0x0d \<notin> set ref \<and> \<not> prefix ''-'' ref"

definition git_answers :: "git_objs \<Rightarrow> answers \<Rightarrow> bool" where
  "git_answers objs answers \<longleftrightarrow>
     (\<forall>ref. query_ok ref \<longrightarrow>
        answers (batch_argv True) (''contents '' @ ref @ [CHR 0x0a]) = contents_reply objs ref \<and>
        answers (batch_argv True) (''info '' @ ref @ [CHR 0x0a]) = info_reply objs ref \<and>
        answers (batch_argv False) (ref @ [CHR 0x0a]) = contents_reply objs ref \<and>
        answers check_argv (ref @ [CHR 0x0a]) = info_reply objs ref)"

definition objs_ok :: "git_objs \<Rightarrow> bool" where
  "objs_ok objs \<longleftrightarrow>
     (\<forall>ref oidx typ data. objs ref = Some (oidx, typ, data) \<longrightarrow>
        length oidx = 40 \<and> CHR '' '' \<notin> set oidx \<and> CHR '' '' \<notin> set typ \<and> CHR 0x0a \<notin> set oidx \<and> CHR 0x0a \<notin> set typ)"

text \<open>No request under way, and no answer left unread.\<close>

definition proc_idle :: "bytes list \<Rightarrow> proc \<Rightarrow> bool" where
  "proc_idle argv p \<longleftrightarrow> gp_argv p = argv \<and> gp_out p = [] \<and> gp_exit p = None"

definition pipe_idle :: "cat_pipe \<Rightarrow> bool" where
  "pipe_idle cp \<longleftrightarrow> cp_inprogress cp = None \<and>
     (case cp_p cp of None \<Rightarrow> cp_pcheck cp = NoCheck | Some p \<Rightarrow> proc_idle (batch_argv (cp_batch cp)) p) \<and>
     (case cp_pcheck cp of NoCheck \<Rightarrow> True | SameCheck \<Rightarrow> cp_batch cp | OwnCheck q \<Rightarrow> \<not> cp_batch cp \<and> proc_idle check_argv q)"

definition expected :: "git_objs \<Rightarrow> bytes \<times> bool \<Rightarrow> (bytes \<times> bytes \<times> int \<times> bytes option) option" where
  "expected objs q =
     (case objs (fst q) of None \<Rightarrow> None
      | Some (oidx, typ, data) \<Rightarrow> Some (oidx, typ, int (length data), if snd q then Some data else None))"

lemma readline_hdr: "CHR 0x0a \<notin> set l \<Longrightarrow> readline (l @ CHR 0x0a # r) = (l @ [CHR 0x0a], r)"
  by (induction l) auto

lemma chunky_count_exact: "chunky_count (length d) (d @ r) = (bs, Inr r') \<Longrightarrow> concat bs = d \<and> r' = r"
proof (induction "length d" arbitrary: d bs rule: less_induct)
  case less
  show ?case
  proof (cases "d = []")
    case True
    then show ?thesis using less.prems by (simp add: chunky_count.simps)
  next
    case False
    let ?n = "min (length d) 65536"
    have t: "take ?n (d @ r) = take ?n d" "length (take ?n d) = ?n" "0 < ?n" using False by simp_all
    have d: "drop ?n (d @ r) = drop ?n d @ r" by simp
    obtain bs' r2 where r2: "chunky_count (length (drop ?n d)) (drop ?n d @ r) = (bs', r2)" by fastforce
    have "chunky_count (length d) (d @ r) = (take ?n d # bs', r2)"
      unfolding chunky_count.simps [of "length d"] Let_def t(1) t(2) d using False t(3) r2 by simp
    then have e: "bs = take ?n d # bs'" "r2 = Inr r'" using less.prems by simp_all
    have "length (drop ?n d) < length d" using False by simp
    from less.hyps [OF this] r2 e(2) have "concat bs' = drop ?n d \<and> r' = r" by simp
    then show ?thesis using e(1) by simp
  qed
qed

lemma chunky_count_total: "\<exists>bs r'. chunky_count (length d) (d @ r) = (bs, Inr r')"
proof (induction "length d" arbitrary: d rule: less_induct)
  case less
  show ?case
  proof (cases "d = []")
    case True
    then show ?thesis by (simp add: chunky_count.simps)
  next
    case False
    let ?n = "min (length d) 65536"
    have t: "take ?n (d @ r) = take ?n d" "length (take ?n d) = ?n" "0 < ?n" "drop ?n (d @ r) = drop ?n d @ r" using False by simp_all
    have "length (drop ?n d) < length d" using False by simp
    from less [OF this] obtain bs r' where "chunky_count (length (drop ?n d)) (drop ?n d @ r) = (bs, Inr r')" by blast
    then show ?thesis unfolding chunky_count.simps [of "length d"] Let_def t(1,2,4) using False t(3) by simp
  qed
qed

lemma chunkyreader_exact: "\<exists>bs. chunkyreader (d @ r) (Some (int (length d))) = (bs, Inr r) \<and> concat bs = d"
  using chunky_count_total [of d r] chunky_count_exact [of d r] by (auto simp: chunkyreader_def)

lemma strip_line:
  assumes "s \<noteq> []" "hd s \<notin> set whitespace" "last s \<notin> set whitespace"
  shows "strip (s @ [CHR 0x0a]) = s"
proof -
  have "lstrip_chars whitespace (s @ [CHR 0x0a]) = s @ [CHR 0x0a]" using assms(1,2) by (simp add: lstrip_chars_def dropWhile_hd)
  moreover have "rstrip_chars whitespace (s @ [CHR 0x0a]) = s"
    using assms(1,3) by (simp add: rstrip_chars_def whitespace_def dropWhile_hd hd_rev)
  ultimately show ?thesis by (simp add: strip_def)
qed

lemma py_int_line: "py_int 10 (show_base 10 n @ [CHR 0x0a]) = Inr (int n)"
proof -
  let ?s = "show_base 10 n"
  obtain d e where d: "d < 10" "hd ?s = digit_char d" "e < 10" "last ?s = digit_char e"
    using show_base_hd_last [of 10 n] by auto
  then have s: "hd ?s \<notin> set whitespace" "last ?s \<notin> set whitespace" using digit_char_not_special(1) [of d] digit_char_not_special(1) [of e] by simp_all
  have "strip (?s @ [CHR 0x0a]) = strip ?s" unfolding strip_line [OF show_base_not_Nil s] strip_id [OF show_base_not_Nil s] ..
  then show ?thesis using py_int_show_base [of 10 n] unfolding py_int_def by simp
qed

lemma show_base_chars_not:
  assumes "c \<in> set (show_base 10 n)"
  shows "c \<noteq> CHR '' ''" "c \<noteq> CHR 0x0a" "c \<noteq> CHR ''g''"
proof -
  obtain d where "d < 10" "c = digit_char d" using show_base_chars [of 10 c n] assms by auto
  then show "c \<noteq> CHR '' ''" "c \<noteq> CHR 0x0a" "c \<noteq> CHR ''g''"
    using digit_char_neq(1) [of d "CHR '' ''"] digit_char_neq(1) [of d "CHR 0x0a"] digit_char_neq(2) [of d "CHR ''g''"] by simp_all
qed

lemma found_header:
  assumes "length oidx = 40" "CHR '' '' \<notin> set oidx" "CHR '' '' \<notin> set typ"
  shows "cat_header (oidx @ CHR '' '' # typ @ CHR '' '' # show_base 10 n @ [CHR 0x0a]) = Inr (oidx, typ, int n)"
    and "\<not> is_missing (oidx @ CHR '' '' # typ @ CHR '' '' # show_base 10 n @ [CHR 0x0a])"
proof -
  have "CHR '' '' \<notin> set (show_base 10 n @ [CHR 0x0a])" using show_base_chars_not(1) by fastforce
  from split_on_id [OF this] show "cat_header (oidx @ CHR '' '' # typ @ CHR '' '' # show_base 10 n @ [CHR 0x0a]) = Inr (oidx, typ, int n)"
    using assms by (simp add: cat_header_def split_on_append py_int_line)
  obtain s c where s: "show_base 10 n = s @ [c]" by (metis rev_exhaust show_base_not_Nil)
  then have "c \<noteq> CHR ''g''" using show_base_chars_not(3) [of c n] by simp
  then show "\<not> is_missing (oidx @ CHR '' '' # typ @ CHR '' '' # show_base 10 n @ [CHR 0x0a])"
    by (auto simp: is_missing_def s suffix_def)
qed

text \<open>A header in the output, with whatever follows it.\<close>

lemma readline_info:
  assumes "objs_ok objs" "query_ok ref"
  shows "readline (info_reply objs ref @ z) = (info_reply objs ref, z)"
proof (cases "objs ref")
  case None
  have "CHR 0x0a \<notin> set (ref @ '' missing'')" using assms(2) by (simp add: query_ok_def)
  from readline_hdr [OF this, of z] show ?thesis by (simp add: info_reply_def None)
next
  case (Some v)
  obtain oidx ty data where v: "v = (oidx, ty, data)" by (cases v)
  have "CHR 0x0a \<notin> set (oidx @ CHR '' '' # ty @ CHR '' '' # show_base 10 (length data))"
    using assms(1) Some v show_base_chars_not(2) unfolding objs_ok_def by fastforce
  from readline_hdr [OF this, of z] show ?thesis by (simp add: info_reply_def Some v)
qed

lemma info_reply_not_Nil: "info_reply objs ref \<noteq> []"
  by (simp add: info_reply_def split: option.splits prod.splits)

text \<open>The pipe ready for a request: started, with the process to be asked opened.\<close>

lemma pipe_ready:
  fixes inc :: bool
  assumes "pipe_idle cp" "git_answers objs answers" "query_ok ref"
  defines "cp1 \<equiv> (case cp_p cp of None \<Rightarrow> cat_restart cp | Some p \<Rightarrow> if gp_exit p \<noteq> None then cat_restart cp else cp)"
  defines "cp3 \<equiv> (if inc then cp1\<lparr>cp_inprogress := Some ref\<rparr> else open_check (cp1\<lparr>cp_inprogress := Some ref\<rparr>))"
  shows "cp_inprogress cp1 = None" "cp_batch cp3 = cp_batch cp" "pipe_idle (cp3\<lparr>cp_inprogress := None\<rparr>)"
    "\<exists>p. cp_p cp3 = Some p" "\<not> inc \<Longrightarrow> cp_pcheck cp3 \<noteq> NoCheck"
    "gp_out (ask answers ((if cp_batch cp3 then (if inc then ''contents '' else ''info '') else []) @ ref @ [CHR 0x0a]) (asked inc cp3)) =
      (if inc then contents_reply objs ref else info_reply objs ref)"
proof -
  have 1: "cp_inprogress cp1 = None \<and> cp_batch cp1 = cp_batch cp \<and> pipe_idle cp1 \<and> (\<exists>p. cp_p cp1 = Some p)"
    using assms(1) unfolding cp1_def
    by (cases "cp_p cp") (auto simp: pipe_idle_def proc_idle_def cat_restart_def cat_close_def split: check.splits)
  then show "cp_inprogress cp1 = None" by blast
  have 3: "cp_batch cp3 = cp_batch cp \<and> pipe_idle (cp3\<lparr>cp_inprogress := None\<rparr>) \<and> (\<exists>p. cp_p cp3 = Some p) \<and> (\<not> inc \<longrightarrow> cp_pcheck cp3 \<noteq> NoCheck)"
    using 1 unfolding cp3_def by (auto simp: pipe_idle_def proc_idle_def open_check_def split: check.splits)
  then show "cp_batch cp3 = cp_batch cp" "pipe_idle (cp3\<lparr>cp_inprogress := None\<rparr>)" "\<exists>p. cp_p cp3 = Some p" "\<not> inc \<Longrightarrow> cp_pcheck cp3 \<noteq> NoCheck"
    by blast+
  obtain p where p: "cp_p cp3 = Some p" using 3 by blast
  show "gp_out (ask answers ((if cp_batch cp3 then (if inc then ''contents '' else ''info '') else []) @ ref @ [CHR 0x0a]) (asked inc cp3)) =
      (if inc then contents_reply objs ref else info_reply objs ref)"
  proof (cases inc)
    case True
    then show ?thesis using 3 p assms(2,3) unfolding git_answers_def
      by (cases "cp_batch cp3") (auto simp: asked_def ask_def pipe_idle_def proc_idle_def)
  next
    case inc: False
    show ?thesis
    proof (cases "cp_pcheck cp3")
      case NoCheck
      then show ?thesis using 3 inc by blast
    next
      case SameCheck
      then have "cp_batch cp3" "proc_idle (batch_argv True) p" using 3 p by (auto simp: pipe_idle_def)
      then show ?thesis using SameCheck inc p assms(2,3) by (simp add: asked_def ask_def proc_idle_def git_answers_def)
    next
      case (OwnCheck q)
      then have "\<not> cp_batch cp3" "proc_idle check_argv q" using 3 by (auto simp: pipe_idle_def)
      then show ?thesis using OwnCheck inc assms(2,3) by (simp add: asked_def ask_def proc_idle_def git_answers_def)
    qed
  qed
qed

lemma cat_fetch_ok:
  assumes idle: "pipe_idle cp" and git: "git_answers objs answers" "objs_ok objs" and ref: "query_ok ref"
  shows "\<exists>cp'. cat_fetch answers ref inc cp = (Inr (expected objs (ref, inc)), cp') \<and> pipe_idle cp'"
proof -
  define cp1 where "cp1 = (case cp_p cp of None \<Rightarrow> cat_restart cp | Some p \<Rightarrow> if gp_exit p \<noteq> None then cat_restart cp else cp)"
  define cp3 where "cp3 = (if inc then cp1\<lparr>cp_inprogress := Some ref\<rparr> else open_check (cp1\<lparr>cp_inprogress := Some ref\<rparr>))"
  note r = pipe_ready(1) [OF idle git(1) ref, folded cp1_def]
    pipe_ready(2-6) [OF idle git(1) ref, where inc = inc, folded cp1_def, folded cp3_def]
  define req where "req = (if cp_batch cp3 then (if inc then ''contents '' else ''info '') else []) @ ref @ [CHR 0x0a]"
  define p where "p = ask answers req (asked inc cp3)"
  define data where "data = (if inc then (case objs ref of None \<Rightarrow> [] | Some (oidx, typ, d) \<Rightarrow> d @ [CHR 0x0a]) else [])"
  have out: "gp_out p = info_reply objs ref @ data"
    using r(6) by (simp add: p_def req_def data_def contents_reply_def)
  have rl: "readline (gp_out p) = (info_reply objs ref, data)" unfolding out by (rule readline_info [OF git(2) ref])
  define cp4 where "cp4 = set_asked inc (p\<lparr>gp_out := data\<rparr>) cp3"
  have get: "cat_get answers ref inc cp =
    (if is_missing (info_reply objs ref) then (Inr None, cp4\<lparr>cp_inprogress := None\<rparr>)
     else case cat_header (info_reply objs ref) of
            Inl e \<Rightarrow> (Inl e, cp4)
          | Inr info \<Rightarrow> (Inr (Some info), if inc then cp4 else cp4\<lparr>cp_inprogress := None\<rparr>))"
    unfolding cat_get_def cp1_def [symmetric] Let_def cp3_def [symmetric] req_def [symmetric] p_def [symmetric] rl
    using r(1) ref info_reply_not_Nil [of objs ref] by (simp add: query_ok_def cp4_def cong: sum.case_cong)
  have idle4: "pipe_idle (cp4\<lparr>cp_inprogress := None\<rparr>)" if "data = []"
    using r(3,4) that unfolding cp4_def p_def
    by (auto simp: pipe_idle_def proc_idle_def set_asked_def asked_def ask_def split: check.splits)
  show ?thesis
  proof (cases "objs ref")
    case None
    then have "is_missing (info_reply objs ref)" by (simp add: is_missing_def info_reply_def suffix_def)
    then show ?thesis using get idle4 None by (simp add: cat_fetch_def expected_def data_def)
  next
    case (Some v)
    obtain oidx ty d where v: "v = (oidx, ty, d)" by (cases v)
    have ok: "length oidx = 40" "CHR '' '' \<notin> set oidx" "CHR '' '' \<notin> set ty" using git(2) Some v unfolding objs_ok_def by blast+
    have g: "cat_get answers ref inc cp = (Inr (Some (oidx, ty, int (length d))), if inc then cp4 else cp4\<lparr>cp_inprogress := None\<rparr>)"
      unfolding get using found_header [OF ok, of "length d"] by (simp add: info_reply_def Some v)
    show ?thesis
    proof (cases inc)
      case False
      then show ?thesis using g idle4 by (simp add: cat_fetch_def expected_def Some v data_def)
    next
      case True
      then have dat: "data = d @ [CHR 0x0a]" and p4: "cp_p cp4 = Some (p\<lparr>gp_out := data\<rparr>)"
        by (simp_all add: data_def Some v cp4_def set_asked_def)
      obtain bs where bs: "chunkyreader (d @ [CHR 0x0a]) (Some (int (length d))) = (bs, Inr [CHR 0x0a])" "concat bs = d"
        using chunkyreader_exact by blast
      have "cat_data (int (length d)) cp4 = (Inr d, cp4\<lparr>cp_p := Some (p\<lparr>gp_out := []\<rparr>), cp_inprogress := None\<rparr>)"
        using bs by (simp add: cat_data_def p4 dat Let_def)
      moreover have "pipe_idle (cp4\<lparr>cp_p := Some (p\<lparr>gp_out := []\<rparr>), cp_inprogress := None\<rparr>)"
        using r(3,4) True unfolding cp4_def p_def
        by (auto simp: pipe_idle_def proc_idle_def set_asked_def asked_def ask_def split: check.splits)
      ultimately show ?thesis using g True by (simp add: cat_fetch_def expected_def Some v)
    qed
  qed
qed

text \<open>C15: Asked for object after object, in whatever mix of requests with and without the data, and with
  whichever commands git has, a \<open>CatPipe\<close> stays in step: each answer is that of the object asked for,
  and a missing object is reported as such.  This is for a git that answers as documented.\<close>

theorem cat_pipe_in_step:
  assumes "git_answers objs answers" "objs_ok objs" "\<forall>q\<in>set qs. query_ok (fst q)"
  shows "fst (cat_all answers qs \<lparr>cp_batch = batch, cp_p = None, cp_pcheck = NoCheck, cp_inprogress = None\<rparr>) = Inr (map (expected objs) qs)"
proof -
  have "\<exists>cp'. cat_all answers qs cp = (Inr (map (expected objs) qs), cp')" if "pipe_idle cp" "\<forall>q\<in>set qs. query_ok (fst q)" for qs cp
    using that
  proof (induction qs arbitrary: cp)
    case (Cons q qs)
    obtain ref inc where q: "q = (ref, inc)" by (cases q)
    then obtain cp1 where "cat_fetch answers ref inc cp = (Inr (expected objs (ref, inc)), cp1)" "pipe_idle cp1"
      using cat_fetch_ok [OF Cons.prems(1) assms(1,2)] Cons.prems(2) by fastforce
    moreover then obtain cp2 where "cat_all answers qs cp1 = (Inr (map (expected objs) qs), cp2)" using Cons.IH Cons.prems(2) by fastforce
    ultimately show ?case by (simp add: q)
  qed simp
  moreover have "pipe_idle \<lparr>cp_batch = batch, cp_p = None, cp_pcheck = NoCheck, cp_inprogress = None\<rparr>" by (simp add: pipe_idle_def)
  ultimately show ?thesis using assms(3) by (metis fst_conv)
qed

text \<open>A git with one object, called \<open>a\<close>; requests for it and for one that is missing.\<close>

definition objs_w :: git_objs where
  "objs_w ref = (if ref = ''a'' then Some (replicate 40 CHR ''1'', ''blob'', ''hi'') else None)"

definition answers_w :: answers where
  "answers_w argv req =
     (if argv = batch_argv True then
        (if prefix ''contents '' req then contents_reply objs_w (drop 9 (butlast req)) else info_reply objs_w (drop 5 (butlast req)))
      else if argv = check_argv then info_reply objs_w (butlast req)
      else contents_reply objs_w (butlast req))"

theorem cat_pipe_in_step_witness:
  "fst (cat_all answers_w [(''a'', False), (''b'', True), (''a'', True)]
      \<lparr>cp_batch = False, cp_p = None, cp_pcheck = NoCheck, cp_inprogress = None\<rparr>) =
    Inr [Some (replicate 40 CHR ''1'', ''blob'', 2, None), None, Some (replicate 40 CHR ''1'', ''blob'', 2, Some ''hi'')]"
proof -
  have a: "git_answers objs_w answers_w"
    by (simp add: git_answers_def answers_w_def batch_argv_def check_argv_def butlast_append)
  have o: "objs_ok objs_w" by (auto simp: objs_ok_def objs_w_def split: if_splits)
  have q: "\<forall>q\<in>set [(''a'', False), (''b'', True), (''a'', True)]. query_ok (fst q)" by (simp add: query_ok_def)
  show ?thesis using cat_pipe_in_step [OF a o q, of False] by (simp add: expected_def objs_w_def)
qed

end
