(* ===== verification/Helper_Paths.thy ===== *)
theory Helper_Paths
  imports Py_Path Py_Bytes
begin

text \<open>
  Paths, names and small formats of \<open>lib/bup/helpers.py\<close>: \<open>path_components\<close> and the strip and graft
  variants, save names, periods, time stamps, quoting and columns.  \<open>os.path\<close> is modelled as the
  standard library has it; the current directory is a parameter.  Patterns ending in \<open>$\<close> also match
  before a last newline.
\<close>

section \<open>\<open>os.path.normpath\<close> and \<open>os.path.abspath\<close>\<close>

definition norm_step :: "bool \<Rightarrow> bytes list \<Rightarrow> bytes \<Rightarrow> bytes list" where
  "norm_step rooted comps c =
     (if c = [] \<or> c = ''.'' then comps
      else if c \<noteq> ''..'' \<or> (\<not> rooted \<and> comps = []) \<or> (comps \<noteq> [] \<and> last comps = ''..'') then comps @ [c]
      else butlast comps)"

definition norm_comps :: "bool \<Rightarrow> bytes \<Rightarrow> bytes list" where
  "norm_comps rooted path = foldl (norm_step rooted) [] (split_on slash path)"

definition initial_slashes :: "bytes \<Rightarrow> nat" where
  "initial_slashes path = (if \<not> prefix ''/'' path then 0 else if prefix ''//'' path \<and> \<not> prefix ''///'' path then 2 else 1)"

definition normpath :: "bytes \<Rightarrow> bytes" where
  "normpath path =
     (let n = initial_slashes path;
          r = replicate n slash @ join ''/'' (norm_comps (0 < n) path)
      in if r = [] then ''.'' else r)"

definition abspath :: "bytes \<Rightarrow> bytes \<Rightarrow> bytes" where
  "abspath cwd path = normpath (if prefix ''/'' path then path else path_join cwd path)"

section \<open>Path components\<close>

text \<open>The loop of \<open>path_components\<close>: each component with the path up to it.\<close>

fun component_pairs :: "bytes \<Rightarrow> bytes list \<Rightarrow> (bytes \<times> bytes) list" where
  "component_pairs full_path [] = []"
| "component_pairs full_path (p # ps) = (p, full_path @ slash # p) # component_pairs (full_path @ slash # p) ps"

definition path_components :: "bytes \<Rightarrow> bytes \<Rightarrow> (bytes \<times> bytes) list res" where
  "path_components cwd path =
     (if \<not> prefix ''/'' path then Inl (Exc ''path must start with slash'')
      else
        let norm_path = abspath cwd path
        in if norm_path = ''/'' then Inr [([], ''/'')]
           else Inr (([], ''/'') # component_pairs [] (tl (split_on slash norm_path))))"

fun stripped_pairs :: "bytes \<Rightarrow> bytes list \<Rightarrow> (bytes \<times> bytes) list" where
  "stripped_pairs pre [] = []"
| "stripped_pairs pre (p # ps) =
     (let pre' = (if p = [] then pre else pre @ slash # p) in (p, pre') # stripped_pairs pre' ps)"

fun strip_first :: "bytes \<Rightarrow> bytes \<Rightarrow> bytes list \<Rightarrow> (bytes \<times> bytes) list option" where
  "strip_first cwd path [] = None"
| "strip_first cwd path (bp # bps) =
     (let b = abspath cwd bp
      in if b \<noteq> ''/'' \<and> prefix b path
         then Some (stripped_pairs (take (length b) path) (split_on slash (drop (length b) path)))
         else strip_first cwd path bps)"

definition stripped_path_components :: "bytes \<Rightarrow> bytes \<Rightarrow> bytes list \<Rightarrow> (bytes \<times> bytes) list res" where
  "stripped_path_components cwd path strip_prefixes =
     (case strip_first cwd (abspath cwd path) (sort_key (\<lambda>p. - int (length p)) strip_prefixes) of
        Some r \<Rightarrow> Inr r
      | None \<Rightarrow> path_components cwd path)"

text \<open>
  \<open>re.sub\<close> reads its replacement as a template: \<open>expand\<close> is the standard library's expansion of it,
  which leaves a template without a backslash alone.
\<close>

definition graft_result :: "bytes \<Rightarrow> bytes \<Rightarrow> bytes \<Rightarrow> (bytes \<times> bytes) list \<Rightarrow> (bytes \<times> bytes option) list res" where
  "graft_result old_prefix new_prefix grafted_path0 comps =
     (let grafted_path = slash # lstrip_chars ''/'' grafted_path0;
          strip_count = (if old_prefix = ''/'' then 0 else length (filter (\<lambda>c. c = slash) old_prefix));
          new_parts = split_on slash new_prefix;
          result_prefix = take (length (filter (\<lambda>c. c = slash) new_prefix)) (split_on slash grafted_path);
          result = map (\<lambda>p. (p, None)) result_prefix @ map (\<lambda>(p, f). (p, Some f)) (drop strip_count comps);
          graft_point = length result_prefix
      in if length comps \<le> strip_count \<or> length result \<le> graft_point then Inl IndexError
         else
           let r = result[graft_point := (last new_parts, Some (snd (comps ! strip_count)))]
           in Inr (if new_prefix = ''/'' then drop 1 r else r))"

fun graft_first ::
  "(bytes \<Rightarrow> bytes res) \<Rightarrow> bytes \<Rightarrow> bytes \<Rightarrow> (bytes \<times> bytes) list \<Rightarrow> (bytes \<times> bytes option) list res option" where
  "graft_first expand cwd clean_path [] = None"
| "graft_first expand cwd clean_path ((old, new) # graft_points) =
     (let old_prefix = normpath old; new_prefix = normpath new
      in if prefix old_prefix clean_path then
           Some (res_bind (expand new_prefix) (\<lambda>new_text.
             res_bind (path_components cwd clean_path) (\<lambda>comps.
             graft_result old_prefix new_prefix (new_text @ drop (length old_prefix) clean_path) comps)))
         else graft_first expand cwd clean_path graft_points)"

definition grafted_path_components ::
  "(bytes \<Rightarrow> bytes res) \<Rightarrow> bytes \<Rightarrow> (bytes \<times> bytes) list \<Rightarrow> bytes \<Rightarrow> (bytes \<times> bytes option) list res" where
  "grafted_path_components expand cwd graft_points path =
     (let clean_path = abspath cwd path
      in case graft_first expand cwd clean_path graft_points of
           Some r \<Rightarrow> r
         | None \<Rightarrow> res_bind (path_components cwd clean_path) (\<lambda>comps. Inr (map (\<lambda>(p, f). (p, Some f)) comps)))"

text \<open>\<open>resolve_parent\<close>: whether \<open>lstat\<close> finds a symbolic link, and \<open>realpath\<close>, are parameters.\<close>

definition resolve_parent :: "(bytes \<Rightarrow> bool) \<Rightarrow> (bytes \<Rightarrow> bytes) \<Rightarrow> bytes \<Rightarrow> bytes" where
  "resolve_parent is_link realpath p = (if is_link p then path_join (realpath (dirname p)) (basename p) else realpath p)"

definition slashappend :: "bytes \<Rightarrow> bytes" where
  "slashappend s = (if s \<noteq> [] \<and> \<not> suffix ''/'' s then s @ ''/'' else s)"

section \<open>Names and numbers\<close>

definition invalid_part_char :: "char \<Rightarrow> bool" where
  "invalid_part_char c \<longleftrightarrow> c \<in> set ''[ ~^:?*'' \<or> c = CHR 0x5c"

definition valid_save_name :: "bytes \<Rightarrow> bool" where
  "valid_save_name name =
     (if name = ''@'' \<or> prefix ''/'' name \<or> suffix ''/'' name \<or> suffix ''.'' name then False
      else if list_ex invalid_part_char name \<or> sublist ''..'' name \<or> sublist ''//'' name \<or> sublist [CHR ''@'', CHR 0x7b] name then False
      else if list_ex (\<lambda>c. (of_char c :: nat) < 0x20 \<or> (of_char c :: nat) = 0x7f) name then False
      else list_all (\<lambda>part. \<not> (prefix ''.'' part \<or> suffix ''.lock'' part)) (split_on slash name))"

definition dec_digit :: "char \<Rightarrow> bool" where
  "dec_digit c \<longleftrightarrow> 48 \<le> (of_char c :: nat) \<and> (of_char c :: nat) \<le> 57"

definition dec_value :: "bytes \<Rightarrow> int" where
  "dec_value s = foldl (\<lambda>a c. 10 * a + (of_char c - 48)) 0 s"

text \<open>A unit that ends the string, or stands before a last newline.\<close>

definition unit_at_end :: "(bytes \<times> int) list \<Rightarrow> bytes \<Rightarrow> int option" where
  "unit_at_end units s = map_of units (if s \<noteq> [] \<and> last s = CHR 0x0a then butlast s else s)"

datatype period = Forever | Secs int

definition period_as_secs :: "bytes \<Rightarrow> period option" where
  "period_as_secs s =
     (if s = ''forever'' then Some Forever
      else
        let ds = takeWhile dec_digit s
        in if ds = [] then None
           else map_option (\<lambda>scale. Secs (dec_value ds * scale))
             (unit_at_end [(''s'', 1), (''min'', 60), (''h'', 60 * 60), (''d'', 60 * 60 * 24), (''w'', 60 * 60 * 24 * 7),
                (''m'', 60 * 60 * 24 * 31), (''y'', 60 * 60 * 24 * 366)] (dropWhile dec_digit s)))"

text \<open>The optional signed number at the front of a time stamp.\<close>

definition signed_digits :: "bytes \<Rightarrow> bytes \<times> bytes" where
  "signed_digits s =
     (let sgn = (if prefix ''-'' s \<or> prefix ''+'' s then take 1 s else []);
          r = drop (length sgn) s
      in if takeWhile dec_digit r = [] then ([], s) else (sgn @ takeWhile dec_digit r, dropWhile dec_digit r))"

definition parse_timestamp :: "bytes \<Rightarrow> int res" where
  "parse_timestamp epoch_str =
     (case signed_digits epoch_str of (n, units) \<Rightarrow>
        case unit_at_end [(''s'', 1000000000), (''ms'', 1000000), (''us'', 1000), (''ns'', 1)] units of
          None \<Rightarrow> Inl ValueError
        | Some ns \<Rightarrow> res_bind (if n = [] then Inr 1 else py_int 10 n) (\<lambda>k. Inr (k * ns)))"

section \<open>Quoting and columns\<close>

definition simple_id_char :: "char \<Rightarrow> bool" where
  "simple_id_char c \<longleftrightarrow> c \<in> set ''-_./'' \<or> dec_digit c \<or> (97 \<le> (of_char c :: nat) \<and> (of_char c :: nat) \<le> 122) \<or>
     (65 \<le> (of_char c :: nat) \<and> (of_char c :: nat) \<le> 90)"

definition simple_id :: "bytes \<Rightarrow> bool" where
  "simple_id x \<longleftrightarrow> (let y = (if x \<noteq> [] \<and> last x = CHR 0x0a then butlast x else x) in y \<noteq> [] \<and> list_all simple_id_char y)"

definition bquote :: "bytes \<Rightarrow> bytes" where
  "bquote x =
     (if x = [] then [CHR 0x27, CHR 0x27]
      else if simple_id x then x
      else CHR 0x27 # replace1 CHR 0x27 [CHR 0x27, CHR 0x22, CHR 0x27, CHR 0x22, CHR 0x27] x @ [CHR 0x27])"

definition shstr :: "bytes + bytes list \<Rightarrow> bytes" where
  "shstr cmd = (case cmd of Inl s \<Rightarrow> s | Inr xs \<Rightarrow> join '' '' (map bquote xs))"

text \<open>\<open>columnate\<close>: \<open>pad_to\<close> fills the last column, \<open>rows_of\<close> gives the chunks of a list.\<close>

definition pad_right :: "nat \<Rightarrow> bytes \<Rightarrow> bytes" where
  "pad_right w s = s @ replicate (w - length s) CHR '' ''"

definition pad_to :: "nat \<Rightarrow> 'a \<Rightarrow> 'a list \<Rightarrow> 'a list" where
  "pad_to n x l = l @ replicate ((n - length l mod n) mod n) x"

definition rows_of :: "nat \<Rightarrow> 'a list \<Rightarrow> 'a list list" where
  "rows_of rows l = map (\<lambda>i. take rows (drop (i * rows) l)) [0..<length l div rows]"

definition columnate :: "int \<Rightarrow> bytes list \<Rightarrow> bytes \<Rightarrow> bytes" where
  "columnate tty_width l0 pre =
     (if l0 = [] then []
      else
        let clen0 = Max (set (map length l0));
            n0 = (tty_width - int (length pre)) div (int clen0 + 2);
            (ncols, clen) = (if n0 \<le> 1 then (1, 0) else (nat n0, clen0));
            l = pad_to ncols [] l0;
            rows = length l div ncols;
            cols = rows_of rows l
        in concat (map (\<lambda>r. pre @ concat (map (\<lambda>col. pad_right (clen + 2) (col ! r)) cols) @ [CHR 0x0a]) [0..<rows]))"

section \<open>Exclusions, caches, errors\<close>

text \<open>The flags with their parameters; \<open>read_file\<close> gives a file's lines, or nothing when it cannot be read.\<close>

fun exclude_paths :: "(bytes \<Rightarrow> bytes) \<Rightarrow> (bytes \<Rightarrow> bytes list option) \<Rightarrow> (bytes \<times> bytes) list \<Rightarrow> bytes list res" where
  "exclude_paths resolve read_file [] = Inr []"
| "exclude_paths resolve read_file ((option, parameter) # flags) =
     (if option = ''--exclude'' then
        res_bind (exclude_paths resolve read_file flags) (\<lambda>r. Inr (resolve parameter # r))
      else if option = ''--exclude-from'' then
        (case read_file (resolve parameter) of
           None \<Rightarrow> Inl (Exc ''fatal'')
         | Some ls \<Rightarrow>
             res_bind (exclude_paths resolve read_file flags)
               (\<lambda>r. Inr (filter (\<lambda>p. p \<noteq> []) (map (\<lambda>l. resolve (strip l)) ls) @ r)))
      else exclude_paths resolve read_file flags)"

definition parse_excludes :: "(bytes \<Rightarrow> bytes) \<Rightarrow> (bytes \<Rightarrow> bytes list option) \<Rightarrow> (bytes \<times> bytes) list \<Rightarrow> bytes list res" where
  "parse_excludes resolve read_file options =
     res_bind (exclude_paths resolve read_file options) (\<lambda>ps. Inr (sort (remdups ps)))"

text \<open>\<open>compile\<close> is \<open>re.compile\<close>: nothing for a bad pattern.\<close>

definition compile_all :: "(bytes \<Rightarrow> 'r option) \<Rightarrow> bytes list \<Rightarrow> 'r list res" where
  "compile_all compile = res_map (\<lambda>p. case compile p of None \<Rightarrow> Inl (Exc ''fatal'') | Some r \<Rightarrow> Inr r)"

fun parse_rx_excludes :: "(bytes \<Rightarrow> 'r option) \<Rightarrow> (bytes \<Rightarrow> bytes) \<Rightarrow> (bytes \<Rightarrow> bytes list option) \<Rightarrow> (bytes \<times> bytes) list \<Rightarrow> 'r list res" where
  "parse_rx_excludes compile resolve read_file [] = Inr []"
| "parse_rx_excludes compile resolve read_file ((option, parameter) # flags) =
     (if option = ''--exclude-rx'' then
        res_bind (compile_all compile [parameter]) (\<lambda>r. res_bind (parse_rx_excludes compile resolve read_file flags) (\<lambda>rs. Inr (r @ rs)))
      else if option = ''--exclude-rx-from'' then
        (case read_file (resolve parameter) of
           None \<Rightarrow> Inl (Exc ''fatal'')
         | Some ls \<Rightarrow>
             res_bind (compile_all compile (filter (\<lambda>p. p \<noteq> []) (map (rstrip_chars [CHR 0x0a]) ls)))
               (\<lambda>r. res_bind (parse_rx_excludes compile resolve read_file flags) (\<lambda>rs. Inr (r @ rs))))
      else parse_rx_excludes compile resolve read_file flags)"

definition should_rx_exclude_path :: "('r \<Rightarrow> bytes \<Rightarrow> bool) \<Rightarrow> bytes \<Rightarrow> 'r list \<Rightarrow> bool" where
  "should_rx_exclude_path search path exclude_rxs = list_ex (\<lambda>rx. search rx path) exclude_rxs"

definition cache_key_value :: "('k \<Rightarrow> 'v option res) \<Rightarrow> 'k \<Rightarrow> ('k \<rightharpoonup> 'v option) \<Rightarrow> (('v option \<times> bool) \<times> ('k \<rightharpoonup> 'v option)) res" where
  "cache_key_value get_value key cache =
     (case cache key of
        Some v \<Rightarrow> Inr ((v, True), cache)
      | None \<Rightarrow>
          (case get_value key of
             Inr v \<Rightarrow> Inr ((v, False), cache(key \<mapsto> v))
           | Inl KeyError \<Rightarrow> Inr ((None, False), cache(key \<mapsto> None))
           | Inl e \<Rightarrow> Inl e))"

text \<open>The state is \<open>saved_errors\<close>.\<close>

definition add_error :: "'e \<Rightarrow> 'e list \<Rightarrow> 'e list" where
  "add_error e saved_errors = saved_errors @ [e]"

definition clear_errors :: "'e list \<Rightarrow> 'e list" where
  "clear_errors saved_errors = []"

definition die_if_errors :: "int \<Rightarrow> 'e list \<Rightarrow> unit res" where
  "die_if_errors status saved_errors = (if saved_errors \<noteq> [] then Inl (SysExit status) else Inr ())"

section \<open>Properties\<close>

subsection \<open>Path components\<close>

definition plain_name :: "bytes \<Rightarrow> bool" where
  "plain_name p \<longleftrightarrow> p \<noteq> [] \<and> p \<noteq> ''.'' \<and> p \<noteq> ''..'' \<and> slash \<notin> set p"

lemma plain_name_ends: "plain_name p \<Longrightarrow> p \<noteq> [] \<and> hd p \<noteq> slash \<and> last p \<noteq> slash"
  using hd_in_set [of p] last_in_set [of p] by (auto simp: plain_name_def simp del: hd_in_set last_in_set)

lemma norm_comps_plain: "\<forall>c\<in>set (norm_comps True path). plain_name c"
proof -
  have "\<forall>c\<in>set (foldl (norm_step True) acc cs). plain_name c"
    if "\<forall>c\<in>set cs. slash \<notin> set c" "\<forall>c\<in>set acc. plain_name c" for acc cs
    using that
  proof (induction cs arbitrary: acc)
    case (Cons c cs)
    have "\<forall>x\<in>set (norm_step True acc c). plain_name x"
      using Cons.prems in_set_butlastD [of _ acc] last_in_set [of acc] by (auto simp: norm_step_def plain_name_def)
    then show ?case using Cons by simp
  qed simp
  then show ?thesis unfolding norm_comps_def using split_on_no_sep [of _ slash path] by (metis (no_types) empty_iff list.set(1))
qed

lemma abspath_rooted:
  assumes "initial_slashes path = 1"
  shows "abspath cwd path = slash # join ''/'' (norm_comps True path)"
  using assms by (auto simp: abspath_def normpath_def Let_def initial_slashes_def split: if_splits)

lemma component_pairs_Nil [simp]: "component_pairs pre ps = [] \<longleftrightarrow> ps = []"
  by (cases ps) simp_all

lemma component_pairs_ok:
  "map fst (component_pairs pre ps) = ps"
  "ps \<noteq> [] \<Longrightarrow> snd (last (component_pairs pre ps)) = pre @ slash # join ''/'' ps"
  "i < length ps \<Longrightarrow> snd (component_pairs pre ps ! i) = (if i = 0 then pre else snd (component_pairs pre ps ! (i - 1))) @ slash # ps ! i"
proof -
  show "map fst (component_pairs pre ps) = ps" by (induction ps arbitrary: pre) simp_all
  show "ps \<noteq> [] \<Longrightarrow> snd (last (component_pairs pre ps)) = pre @ slash # join ''/'' ps"
  proof (induction ps arbitrary: pre)
    case (Cons p ps)
    show ?case
    proof (cases ps)
      case (Cons q qs)
      then have "snd (last (component_pairs pre (p # ps))) = snd (last (component_pairs (pre @ slash # p) ps))" by simp
      also have "\<dots> = (pre @ slash # p) @ slash # join ''/'' ps" by (rule Cons.IH) (simp add: Cons)
      finally show ?thesis by (simp add: Cons)
    qed simp
  qed simp
  show "i < length ps \<Longrightarrow> snd (component_pairs pre ps ! i) = (if i = 0 then pre else snd (component_pairs pre ps ! (i - 1))) @ slash # ps ! i"
  proof (induction ps arbitrary: pre i)
    case (Cons p ps)
    show ?case
    proof (cases i)
      case (Suc j)
      then have "snd (component_pairs pre (p # ps) ! i) = snd (component_pairs (pre @ slash # p) ps ! j)" by simp
      also have "\<dots> = (if j = 0 then pre @ slash # p else snd (component_pairs (pre @ slash # p) ps ! (j - 1))) @ slash # ps ! j"
        using Cons.prems Suc by (intro Cons.IH) simp
      finally show ?thesis using Suc by (cases j) simp_all
    qed simp
  qed simp
qed

text \<open>The components of a path that starts with one slash: after the root each is a plain name, its full
  path is that of the one before joined with it, and the last one's is the path in absolute form.\<close>

theorem path_components_correct:
  assumes "initial_slashes path = 1"
  shows "\<exists>cs. path_components cwd path = Inr (([], ''/'') # cs) \<and> (\<forall>c\<in>set cs. plain_name (fst c)) \<and>
    (\<forall>i<length cs. snd (cs ! i) = path_join (if i = 0 then ''/'' else snd (cs ! (i - 1))) (fst (cs ! i))) \<and>
    snd (last (([], ''/'') # cs)) = abspath cwd path"
proof (cases "norm_comps True path = []")
  case True
  then show ?thesis using assms abspath_rooted [OF assms, of cwd] by (auto simp: path_components_def initial_slashes_def split: if_splits)
next
  case False
  let ?ps = "norm_comps True path"
  let ?cs = "component_pairs [] ?ps"
  have plain: "\<forall>c\<in>set ?ps. plain_name c" by (rule norm_comps_plain)
  have ab: "abspath cwd path = slash # join ''/'' ?ps" by (rule abspath_rooted [OF assms])
  have "join ''/'' ?ps \<noteq> []" using False plain by (cases ?ps rule: remdups_adj.cases) (auto simp: plain_name_def)
  moreover have "split_on slash (slash # join ''/'' ?ps) = [] # ?ps"
    using split_on_join [OF False, of slash] plain by (auto simp: plain_name_def)
  moreover have "prefix ''/'' path" using assms by (auto simp: initial_slashes_def split: if_splits)
  ultimately have c: "path_components cwd path = Inr (([], ''/'') # ?cs)" by (simp add: path_components_def ab)
  have len: "length ?cs = length ?ps" using component_pairs_ok(1) [of "[]" ?ps] by (metis length_map)
  have nth: "fst (?cs ! i) = ?ps ! i" if "i < length ?ps" for i
    using component_pairs_ok(1) [of "[]" ?ps] that len by (metis nth_map)
  have "snd (?cs ! i) = path_join (if i = 0 then ''/'' else snd (?cs ! (i - 1))) (fst (?cs ! i))" if "i < length ?cs" for i
  proof -
    have i: "i < length ?ps" using that len by simp
    have p: "plain_name (?ps ! i)" using plain i by simp
    show ?thesis
    proof (cases i)
      case 0
      then show ?thesis using component_pairs_ok(3) [OF i, of "[]"] nth [OF i] plain_name_ends [OF p] by (auto simp: path_join_def)
    next
      case (Suc j)
      have j: "j < length ?ps" using i Suc by simp
      have "snd (?cs ! j) \<noteq> []" "last (snd (?cs ! j)) \<noteq> slash"
        using component_pairs_ok(3) [OF j, of "[]"] plain_name_ends [of "?ps ! j"] plain j by auto
      then show ?thesis using component_pairs_ok(3) [OF i, of "[]"] nth [OF i] plain_name_ends [OF p] Suc by (auto simp: path_join_def)
    qed
  qed
  moreover have "\<forall>c\<in>set ?cs. plain_name (fst c)" using plain component_pairs_ok(1) [of "[]" ?ps] by (metis image_eqI list.set_map)
  moreover have "snd (last (([], ''/'') # ?cs)) = abspath cwd path"
    using component_pairs_ok(2) [OF False, of "[]"] False ab by simp
  ultimately show ?thesis using c by blast
qed

theorem path_components_correct_witness:
  "\<exists>cs. path_components ''/'' ''/home//foo/../x'' = Inr (([], ''/'') # cs) \<and> snd (last (([], ''/'') # cs)) = ''/home/x''"
proof -
  have "initial_slashes ''/home//foo/../x'' = 1" "abspath ''/'' ''/home//foo/../x'' = ''/home/x''" by code_simp+
  then show ?thesis using path_components_correct [of "''/home//foo/../x''" "''/''"] by metis
qed

text \<open>Stripping a prefix does not look at component boundaries: with the prefix \<open>/foo\<close>, the path \<open>/foobar\<close>
  loses \<open>/foo\<close>, and the component that is left is given the full path \<open>/foo/bar\<close>, a path that is not
  its own.  The same for every prefix and every name that continues it.\<close>

theorem strip_ignores_boundaries:
  assumes "abspath cwd b = b" "b \<noteq> ''/''" "plain_name y" "abspath cwd (b @ y) = b @ y"
  shows "stripped_path_components cwd (b @ y) [b] = Inr [(y, b @ slash # y)]"
  using assms by (simp add: stripped_path_components_def Let_def split_on_id plain_name_def)

theorem strip_ignores_boundaries_witness:
  "stripped_path_components ''/'' ''/foobar'' [''/foo''] = Inr [(''bar'', ''/foo/bar'')]"
proof -
  have "abspath ''/'' ''/foo'' = ''/foo''" "abspath ''/'' (''/foo'' @ ''bar'') = ''/foo'' @ ''bar''" "''/foo'' \<noteq> ''/''"
    "plain_name ''bar''" by (code_simp)+
  then show ?thesis using strip_ignores_boundaries [of "''/''" "''/foo''" "''bar''"] by simp
qed

subsection \<open>Save names\<close>

text \<open>The rules of git-check-ref-format(1) for what follows \<open>refs/heads/\<close>.\<close>

definition ref_component :: "bytes \<Rightarrow> bool" where
  "ref_component part \<longleftrightarrow> part \<noteq> [] \<and> \<not> prefix ''.'' part \<and> \<not> suffix ''.lock'' part"

definition ref_char :: "char \<Rightarrow> bool" where
  "ref_char c \<longleftrightarrow> 0x20 < (of_char c :: nat) \<and> (of_char c :: nat) \<noteq> 0x7f \<and> c \<notin> set ''~^:?*['' \<and> c \<noteq> CHR 0x5c"

definition git_ref_name :: "bytes \<Rightarrow> bool" where
  "git_ref_name name \<longleftrightarrow> name \<noteq> ''@'' \<and> list_all ref_char name \<and> list_all ref_component (split_on slash name) \<and>
     \<not> sublist ''..'' name \<and> \<not> sublist [CHR ''@'', CHR 0x7b] name \<and> \<not> suffix ''.'' name"

lemma sublist_two_Cons: "sublist [a, b] (x # xs) \<longleftrightarrow> (x = a \<and> xs \<noteq> [] \<and> hd xs = b) \<or> sublist [a, b] xs"
  by (cases xs) (auto simp: sublist_Cons_right)

lemma hd_split_on: "hd (split_on c s) = [] \<longleftrightarrow> s = [] \<or> prefix [c] s"
  by (cases s) (auto split: list.splits)

lemma empty_part_tl: "[] \<in> set (tl (split_on c s)) \<longleftrightarrow> suffix [c] s \<or> sublist [c, c] s"
proof (induction s)
  case Nil
  then show ?case by (simp add: sublist_def)
next
  case (Cons x xs)
  have suf: "suffix [c] (x # xs) \<longleftrightarrow> (xs = [] \<and> x = c) \<or> suffix [c] xs" by (auto simp: suffix_Cons)
  obtain p ps where ps: "split_on c xs = p # ps" by (cases "split_on c xs") simp_all
  have p: "p = [] \<longleftrightarrow> xs = [] \<or> prefix [c] xs" using hd_split_on [of c xs] ps by simp
  have pre: "prefix [c] xs \<longleftrightarrow> xs \<noteq> [] \<and> hd xs = c" by (cases xs) auto
  show ?case
  proof (cases "x = c")
    case True
    have "[] \<in> set (tl (split_on c (x # xs))) \<longleftrightarrow> p = [] \<or> [] \<in> set ps" using True ps by auto
    then show ?thesis using Cons.IH p ps pre True unfolding suf sublist_two_Cons by auto
  next
    case False
    then have "[] \<in> set (tl (split_on c (x # xs))) \<longleftrightarrow> [] \<in> set ps" using ps by simp
    then show ?thesis using Cons.IH ps False unfolding suf sublist_two_Cons by auto
  qed
qed

lemma empty_part: "[] \<in> set (split_on c s) \<longleftrightarrow> s = [] \<or> prefix [c] s \<or> suffix [c] s \<or> sublist [c, c] s"
proof -
  have "split_on c s = hd (split_on c s) # tl (split_on c s)" by simp
  then have "[] \<in> set (split_on c s) \<longleftrightarrow> hd (split_on c s) = [] \<or> [] \<in> set (tl (split_on c s))" by (metis set_ConsD list.set_intros)
  then show ?thesis unfolding hd_split_on empty_part_tl by blast
qed

lemma ref_char_iff: "ref_char c \<longleftrightarrow> \<not> invalid_part_char c \<and> \<not> ((of_char c :: nat) < 0x20 \<or> (of_char c :: nat) = 0x7f)"
proof -
  have "(of_char c :: nat) = 0x20 \<longleftrightarrow> (of_char c :: nat) = of_char (CHR '' '')" by simp
  then have sp: "(of_char c :: nat) = 0x20 \<longleftrightarrow> c = CHR '' ''" by (simp only: of_char_eq_iff)
  have "0x20 < (of_char c :: nat) \<longleftrightarrow> \<not> (of_char c :: nat) < 0x20 \<and> (of_char c :: nat) \<noteq> 0x20" by linarith
  then show ?thesis unfolding ref_char_def invalid_part_char_def sp by auto
qed

text \<open>\<open>valid_save_name\<close> accepts exactly the names git accepts behind \<open>refs/heads/\<close>, and the empty name.\<close>

theorem valid_save_name_is_ref_name:
  "valid_save_name name \<longleftrightarrow> name = [] \<or> git_ref_name name"
proof (cases "name = []")
  case True
  then show ?thesis by (simp add: valid_save_name_def sublist_def)
next
  case False
  have parts: "list_all ref_component (split_on slash name) \<longleftrightarrow>
    [] \<notin> set (split_on slash name) \<and> list_all (\<lambda>part. \<not> (prefix ''.'' part \<or> suffix ''.lock'' part)) (split_on slash name)"
    by (auto simp: list_all_iff ref_component_def)
  have chars: "list_all ref_char name \<longleftrightarrow> \<not> list_ex invalid_part_char name \<and>
    \<not> list_ex (\<lambda>c. (of_char c :: nat) < 0x20 \<or> (of_char c :: nat) = 0x7f) name"
    unfolding list_all_iff list_ex_iff ref_char_iff by blast
  show ?thesis using False unfolding valid_save_name_def git_ref_name_def parts chars empty_part by auto
qed

end
