(* ===== verification/Prune_Older.thy ===== *)
theory Prune_Older
  imports Helper_Paths Git_Repo
begin

text \<open>
  Which saves \<open>bup prune-older\<close> keeps (\<open>lib/bup/cmd/prune_older.py\<close>), and the names of a branch's saves
  (\<open>save_names_for_commit_utcs\<close> of \<open>lib/bup/vfs.py\<close>).  The local time of a save is a parameter.
\<close>

section \<open>Save names\<close>

text \<open>\<open>seen\<close> maps a name to how many are still to come and how many there are.\<close>

fun count_names :: "bytes list \<Rightarrow> (bytes \<rightharpoonup> nat \<times> nat) \<Rightarrow> (bytes \<rightharpoonup> nat \<times> nat)" where
  "count_names [] seen = seen"
| "count_names (name # strs) seen =
     count_names strs (seen(name \<mapsto> (case seen name of Some (c, n) \<Rightarrow> (c + 1, n + 1) | None \<Rightarrow> (1, 1))))"

fun suffix_names :: "bytes list \<Rightarrow> (bytes \<rightharpoonup> nat \<times> nat) \<Rightarrow> bytes list" where
  "suffix_names [] seen = []"
| "suffix_names (name # strs) seen =
     (let (curdup, ndup) = the (seen name);
          ndig = length (show_base 10 (ndup - 1))
      in (if ndup = 1 then name else name @ ''-'' @ zero_pad ndig (show_base 10 (curdup - 1))) #
         suffix_names strs (seen(name \<mapsto> (curdup - 1, ndup))))"

definition reverse_suffix_duplicates :: "bytes list \<Rightarrow> bytes list" where
  "reverse_suffix_duplicates strs = suffix_names strs (count_names strs Map.empty)"

definition save_names_for_commit_utcs :: "(int \<Rightarrow> bytes) \<Rightarrow> int list \<Rightarrow> bytes list" where
  "save_names_for_commit_utcs strftime_local utcs = reverse_suffix_duplicates (map strftime_local utcs)"

section \<open>Classifying saves\<close>

text \<open>A period's start: everything, from a time on, or nothing.\<close>

datatype bound = Always | From int | Never

fun reached :: "bound \<Rightarrow> int \<Rightarrow> bool" where
  "reached Always utc = True"
| "reached (From t) utc = (t \<le> utc)"
| "reached Never utc = False"

record local_time =
  tm_yday :: int
  tm_mon :: int
  tm_year :: int

record periods =
  keep_all :: bound
  keep_dailies :: bound
  keep_monthlies :: bound
  keep_yearlies :: bound

type_synonym 'a save = "int \<times> 'a"

text \<open>\<open>itertools.groupby\<close>: runs of neighbours with the same key.\<close>

function groupby :: "('s \<Rightarrow> 'k) \<Rightarrow> 's list \<Rightarrow> 's list list" where
  "groupby key [] = []"
| "groupby key (s # ss) = (s # takeWhile (\<lambda>x. key x = key s) ss) # groupby key (dropWhile (\<lambda>x. key x = key s) ss)"
  by pat_completeness auto
termination
  by (relation "measure (\<lambda>(k, l). length l)") (auto simp: less_Suc_eq_le length_dropWhile_le)

definition retain_newest :: "'s list \<Rightarrow> (bool \<times> 's) list" where
  "retain_newest region = map (Pair True) (take 1 region) @ map (Pair False) (drop 1 region)"

text \<open>One of the ranges: what it yields, and what is left for the next.\<close>

definition classify_range :: "bound \<Rightarrow> (int \<Rightarrow> int) \<Rightarrow> 'a save list \<Rightarrow> (bool \<times> 'a save) list \<times> 'a save list" where
  "classify_range pstart time_region_id saves =
     (concat (map retain_newest (groupby (\<lambda>s. time_region_id (fst s)) (takeWhile (\<lambda>s. reached pstart (fst s)) saves))),
      dropWhile (\<lambda>s. reached pstart (fst s)) saves)"

definition classify_saves :: "(int \<Rightarrow> local_time) \<Rightarrow> periods \<Rightarrow> 'a save list \<Rightarrow> (bool \<times> 'a save) list" where
  "classify_saves localtime ps saves =
     (let a = map (Pair True) (takeWhile (\<lambda>s. reached (keep_all ps) (fst s)) saves);
          (d, rest1) = classify_range (keep_dailies ps) (\<lambda>t. tm_yday (localtime t)) (dropWhile (\<lambda>s. reached (keep_all ps) (fst s)) saves);
          (m, rest2) = classify_range (keep_monthlies ps) (\<lambda>t. tm_mon (localtime t)) rest1;
          (y, rest3) = classify_range (keep_yearlies ps) (\<lambda>t. tm_year (localtime t)) rest2
      in a @ d @ m @ y @ map (Pair False) rest3)"

section \<open>The command\<close>

text \<open>A period given on the command line, as the time it starts; a length of zero is refused.\<close>

definition period_start :: "int \<Rightarrow> bytes option \<Rightarrow> bound res" where
  "period_start now extent =
     (case extent of
        None \<Rightarrow> Inr Never
      | Some s \<Rightarrow>
          (case period_as_secs s of
             None \<Rightarrow> Inl (Exc ''fatal'')
           | Some Forever \<Rightarrow> Inr Always
           | Some (Secs n) \<Rightarrow> if n = 0 then Inl (Exc ''fatal'') else Inr (From (now - n))))"

definition prune_periods :: "int \<Rightarrow> bytes option \<Rightarrow> bytes option \<Rightarrow> bytes option \<Rightarrow> bytes option \<Rightarrow> periods res" where
  "prune_periods now all dailies monthlies yearlies =
     res_bind (period_start now all) (\<lambda>a.
     res_bind (period_start now dailies) (\<lambda>d.
     res_bind (period_start now monthlies) (\<lambda>m.
     res_bind (period_start now yearlies) (\<lambda>y.
     if all = None \<and> dailies = None \<and> monthlies = None \<and> yearlies = None then Inl (Exc ''fatal'')
     else Inr \<lparr>keep_all = a, keep_dailies = d, keep_monthlies = m, keep_yearlies = y\<rparr>))))"

definition branches :: "'g git \<Rightarrow> bytes list \<Rightarrow> 'g \<Rightarrow> (bytes \<times> bytes) yields \<times> 'g" where
  "branches git refnames g =
     (case list_refs git (map (\<lambda>n. ''refs/heads/'' @ n) refnames) True False g of
        (refs, g') \<Rightarrow> ((map (\<lambda>(name, sha). (drop 11 name, hexlify sha)) (fst refs), snd refs), g'))"

text \<open>The callback for a commit in git's listing: the author's time, and the bytes it took.\<close>

definition parse_info :: "bytes \<Rightarrow> (int \<times> nat) res" where
  "parse_info f = (case readline f of (line, rest) \<Rightarrow> res_bind (py_int 10 (strip line)) (\<lambda>secs. Inr (secs, length line)))"

text \<open>The saves of a branch, newest first as git lists them, with their names.\<close>

definition branch_saves :: "(int \<Rightarrow> bytes) \<Rightarrow> (bytes \<times> int) list \<Rightarrow> (bytes \<times> bytes) save list res" where
  "branch_saves strftime_local revs =
     res_map (\<lambda>((oidx, utc), save_name). res_bind (unhexlify oidx) (\<lambda>oid. Inr (utc, oid, save_name)))
       (zip revs (save_names_for_commit_utcs strftime_local (map snd revs)))"

definition prune_branch ::
  "(int \<Rightarrow> bytes) \<Rightarrow> (int \<Rightarrow> local_time) \<Rightarrow> periods \<Rightarrow> bytes \<Rightarrow> (bytes \<times> int) list \<Rightarrow> (bool \<times> bytes) list res" where
  "prune_branch strftime_local localtime ps branch revs =
     res_bind (branch_saves strftime_local revs) (\<lambda>saves.
     Inr (map (\<lambda>(keep_save, utc, oid, save_name). (keep_save, branch @ ''/'' @ save_name)) (classify_saves localtime ps saves)))"

definition removals :: "(bool \<times> bytes) list \<Rightarrow> bytes list" where
  "removals actions = map snd (filter (\<lambda>a. \<not> fst a) actions)"

section \<open>Properties\<close>

subsection \<open>Saves kept and dropped\<close>

lemma retain_newest_snd: "map snd (retain_newest r) = r"
  by (cases r) (simp_all add: retain_newest_def comp_def)

lemma groupby_concat: "concat (groupby key l) = l"
  by (induction key l rule: groupby.induct) simp_all

lemma groupby_keys: "g \<in> set (groupby key l) \<Longrightarrow> g \<noteq> [] \<and> (\<forall>x\<in>set g. key x = key (hd g))"
proof (induction key l rule: groupby.induct)
  case (2 key s ss)
  from "2.prems" have "g = s # takeWhile (\<lambda>x. key x = key s) ss \<or> g \<in> set (groupby key (dropWhile (\<lambda>x. key x = key s) ss))"
    by (simp only: groupby.simps list.set insert_iff)
  then consider "g = s # takeWhile (\<lambda>x. key x = key s) ss" | "g \<in> set (groupby key (dropWhile (\<lambda>x. key x = key s) ss))"
    by (elim disjE)
  then show ?case
  proof cases
    case 1
    have "key x = key s" if "x \<in> set (s # takeWhile (\<lambda>x. key x = key s) ss)" for x
    proof (cases "x = s")
      case False
      then have "x \<in> set (takeWhile (\<lambda>x. key x = key s) ss)" using that by (simp only: list.set insert_iff simp_thms)
      then show ?thesis using set_takeWhileD by fast
    qed (rule arg_cong)
    then show ?thesis unfolding 1 list.sel by (intro conjI ballI list.distinct(2))
  next
    case 2
    then show ?thesis by (rule "2.IH")
  qed
qed simp

lemma classify_range_snd:
  "map snd (fst (classify_range b f l)) @ snd (classify_range b f l) = l"
  by (simp add: classify_range_def map_concat comp_def retain_newest_snd groupby_concat)

lemma classify_range_keeps:
  assumes "s \<in> set (takeWhile (\<lambda>s. reached b (fst s)) l)" "sorted_wrt (\<lambda>x y. fst y \<le> fst x) l"
  shows "\<exists>k. (True, k) \<in> set (fst (classify_range b f l)) \<and> f (fst k) = f (fst s) \<and> fst s \<le> fst k"
proof -
  let ?l = "takeWhile (\<lambda>s. reached b (fst s)) l" and ?key = "\<lambda>s. f (fst s)"
  have "s \<in> set (concat (groupby ?key ?l))" using assms(1) by (simp only: groupby_concat)
  then obtain g where g: "g \<in> set (groupby ?key ?l)" "s \<in> set g" by auto
  obtain k g' where kg: "g = k # g'" using groupby_keys [OF g(1)] by (cases g) auto
  have "sorted_wrt (\<lambda>x y. fst y \<le> fst x) (concat (groupby ?key ?l))"
    unfolding groupby_concat by (subst takeWhile_eq_take) (rule sorted_wrt_take [OF assms(2)])
  moreover obtain as bs where "groupby ?key ?l = as @ g # bs" using split_list [OF g(1)] by blast
  ultimately have "sorted_wrt (\<lambda>x y. fst y \<le> fst x) g" by (simp add: sorted_wrt_append)
  then have "fst s \<le> fst k" using g(2) kg by auto
  moreover have "?key s = ?key k" using groupby_keys [OF g(1)] g(2) kg by auto
  moreover have "(True, k) \<in> set (retain_newest g)" by (simp add: kg retain_newest_def)
  then have "(True, k) \<in> set (fst (classify_range b f l))" unfolding classify_range_def fst_conv set_concat set_map using g(1) by blast
  ultimately show ?thesis by (intro exI [of _ k]) simp
qed

lemma sorted_split:
  assumes "sorted_wrt (\<lambda>x y. fst y \<le> (fst x :: int)) l" "s \<in> set l"
  shows "reached b (fst s) \<Longrightarrow> s \<in> set (takeWhile (\<lambda>s. reached b (fst s)) l)"
    and "\<not> reached b (fst s) \<Longrightarrow> s \<in> set (dropWhile (\<lambda>s. reached b (fst s)) l)"
    and "sorted_wrt (\<lambda>x y. fst y \<le> (fst x :: int)) (dropWhile (\<lambda>s. reached b (fst s)) l)"
proof -
  have mono: "reached b t \<Longrightarrow> t \<le> u \<Longrightarrow> reached b u" for t u by (cases b) auto
  show "reached b (fst s) \<Longrightarrow> s \<in> set (takeWhile (\<lambda>s. reached b (fst s)) l)"
    using assms by (induction l) (auto dest: mono)
  show "\<not> reached b (fst s) \<Longrightarrow> s \<in> set (dropWhile (\<lambda>s. reached b (fst s)) l)"
    using assms(2) by (induction l) auto
  show "sorted_wrt (\<lambda>x y. fst y \<le> (fst x :: int)) (dropWhile (\<lambda>s. reached b (fst s)) l)"
    using assms(1) by (simp only: dropWhile_eq_drop sorted_wrt_drop)
qed


definition localtime_w :: "int \<Rightarrow> local_time" where
  "localtime_w t = \<lparr>tm_yday = t mod 365, tm_mon = (t mod 365) div 31, tm_year = t div 365\<rparr>"


text \<open>Days are told apart by their number in the year alone: of two neighbouring saves on the same day
  of two different years, the older is dropped although it is the newest of its day.\<close>

theorem dailies_ignore_the_year:
  assumes "localtime a = \<lparr>tm_yday = d, tm_mon = m, tm_year = y\<rparr>" "localtime b = \<lparr>tm_yday = d, tm_mon = m, tm_year = y - 1\<rparr>" "b < a"
  shows "classify_saves localtime \<lparr>keep_all = Never, keep_dailies = From b, keep_monthlies = Never, keep_yearlies = Never\<rparr> [(a, x), (b, z)] =
    [(True, a, x), (False, b, z)]"
  using assms by (simp add: classify_saves_def classify_range_def retain_newest_def)

theorem dailies_ignore_the_year_witness:
  "classify_saves localtime_w \<lparr>keep_all = Never, keep_dailies = From 100, keep_monthlies = Never, keep_yearlies = Never\<rparr> [(465, ''n''), (100, ''o'')] =
    [(True, 465, ''n''), (False, 100, ''o'')]"
  by (rule dailies_ignore_the_year [of _ _ 100 3 1]) (simp_all add: localtime_w_def)

subsection \<open>Save names are distinct\<close>

definition dec_of :: "bytes \<Rightarrow> nat" where
  "dec_of s = foldl (\<lambda>a c. 10 * a + the (char_digit c)) 0 s"

lemma dec_of_show: "dec_of (show_base 10 n) = n"
proof -
  obtain ds where ds: "show_base 10 n = map digit_char ds" "\<forall>d\<in>set ds. d < 10" "foldl (\<lambda>a d. 10 * a + d) 0 ds = n"
    using show_base_digits [of 10 n] by auto
  have "foldl (\<lambda>a c. 10 * a + the (char_digit c)) x (map digit_char ds) = foldl (\<lambda>a d. 10 * a + d) x ds" if "\<forall>d\<in>set ds. d < 10" for x ds
    using that by (induction ds arbitrary: x) (auto simp: char_digit_digit_char)
  then show ?thesis using ds by (simp add: dec_of_def)
qed

lemma dec_of_pad: "dec_of (zero_pad w s) = dec_of s"
proof -
  have z: "the (char_digit CHR ''0'') = 0" by (simp add: char_digit_def)
  have "foldl (\<lambda>a c. 10 * a + the (char_digit c)) 0 (replicate k CHR ''0'' @ s) = foldl (\<lambda>a c. 10 * a + the (char_digit c)) 0 s" for k
    by (induction k) (simp_all add: z)
  then show ?thesis by (simp only: dec_of_def zero_pad_def)
qed

lemma count_names_get:
  "count_names strs seen name =
    (if name \<in> set strs then Some (count_list strs name + (case seen name of None \<Rightarrow> 0 | Some (c, n) \<Rightarrow> c),
       count_list strs name + (case seen name of None \<Rightarrow> 0 | Some (c, n) \<Rightarrow> n)) else seen name)"
proof (induction strs arbitrary: seen)
  case (Cons x xs)
  show ?case unfolding count_names.simps Cons.IH by (cases "seen name") (auto simp: count_list_0_iff split: prod.splits)
qed simp

text \<open>The suffixed name at a place: its number is how often the name comes again.\<close>

definition suffixed :: "(bytes \<Rightarrow> nat) \<Rightarrow> bytes list \<Rightarrow> nat \<Rightarrow> bytes" where
  "suffixed n strs i =
     (let name = strs ! i
      in if n name = 1 then name
         else name @ ''-'' @ zero_pad (length (show_base 10 (n name - 1))) (show_base 10 (count_list (drop (Suc i) strs) name)))"

lemma suffix_names_nth:
  assumes "\<forall>name\<in>set strs. seen name = Some (count_list strs name, n name)" "i < length strs"
  shows "length (suffix_names strs seen) = length strs" "suffix_names strs seen ! i = suffixed n strs i"
proof -
  have "length (suffix_names strs seen) = length strs \<and> (\<forall>i<length strs. suffix_names strs seen ! i = suffixed n strs i)"
    using assms(1)
  proof (induction strs arbitrary: seen)
    case (Cons x xs)
    have sx: "seen x = Some (Suc (count_list xs x), n x)" using Cons.prems by simp
    define s' where "s' = seen(x \<mapsto> (count_list xs x, n x))"
    have "\<forall>name\<in>set xs. s' name = Some (count_list xs name, n name)" using Cons.prems by (auto simp: s'_def)
    note IH = Cons.IH [OF this]
    have nx: "suffix_names (x # xs) seen = suffixed n (x # xs) 0 # suffix_names xs s'"
      using sx by (simp add: suffixed_def Let_def s'_def)
    have "suffix_names (x # xs) seen ! i = suffixed n (x # xs) i" if "i < length (x # xs)" for i
      using that IH unfolding nx by (cases i) (simp, simp add: suffixed_def Let_def)
    then show ?case using IH unfolding nx by simp
  qed simp
  then show "length (suffix_names strs seen) = length strs" "suffix_names strs seen ! i = suffixed n strs i" using assms(2) by blast+
qed

text \<open>The names of a branch's saves are distinct, whatever their times: names made from times have one
  length, and those that would be the same get numbers.\<close>

theorem save_names_distinct:
  assumes "\<And>t. length (strftime_local t) = L"
  shows "distinct (save_names_for_commit_utcs strftime_local utcs)"
proof -
  let ?strs = "map strftime_local utcs"
  let ?n = "count_list ?strs"
  have seen: "\<forall>name\<in>set ?strs. count_names ?strs Map.empty name = Some (count_list ?strs name, ?n name)"
    using count_names_get [of ?strs Map.empty] by simp
  note nth = suffix_names_nth [OF seen]
  have "suffixed ?n ?strs i \<noteq> suffixed ?n ?strs j" if ij: "i < j" "j < length ?strs" for i j
  proof (cases "?strs ! i = ?strs ! j")
    case False
    have "take L (suffixed ?n ?strs k) = ?strs ! k" if "k < length ?strs" for k
      using assms that by (simp add: suffixed_def Let_def)
    then show ?thesis using False ij by (metis less_trans)
  next
    case True
    let ?x = "?strs ! j"
    have "drop (j - Suc i) (drop (Suc i) ?strs) = drop j ?strs" using ij(1) by simp
    then have dj: "?x # drop (Suc j) ?strs = drop (j - Suc i) (drop (Suc i) ?strs)" using Cons_nth_drop_Suc [OF ij(2)] by (simp only:)
    have "count_list (drop (Suc i) ?strs) ?x = count_list (take (j - Suc i) (drop (Suc i) ?strs) @ drop (j - Suc i) (drop (Suc i) ?strs)) ?x"
      by (simp only: append_take_drop_id)
    also have "\<dots> = count_list (take (j - Suc i) (drop (Suc i) ?strs)) ?x + count_list (?x # drop (Suc j) ?strs) ?x"
      unfolding dj by (simp only: count_list_append)
    finally have c: "count_list (drop (Suc j) ?strs) ?x < count_list (drop (Suc i) ?strs) ?x" by simp
    have "count_list ?strs ?x = count_list (take (Suc i) ?strs) ?x + count_list (drop (Suc i) ?strs) ?x"
      by (metis append_take_drop_id count_list_append)
    moreover have "0 < count_list (take (Suc i) ?strs) ?x" using True ij by (simp add: take_Suc_conv_app_nth count_list_append)
    ultimately have "?n ?x \<noteq> 1" using c by linarith
    then show ?thesis using True c dec_of_pad dec_of_show unfolding suffixed_def Let_def
      by (metis append_same_eq less_irrefl same_append_eq)
  qed
  then have "suffixed ?n ?strs i \<noteq> suffixed ?n ?strs j" if "i \<noteq> j" "i < length ?strs" "j < length ?strs" for i j
    using that by (metis linorder_neqE_nat)
  moreover have "length (suffix_names ?strs (count_names ?strs Map.empty)) = length ?strs"
    using nth(1) by (cases "?strs = []") auto
  ultimately show ?thesis
    unfolding save_names_for_commit_utcs_def reverse_suffix_duplicates_def distinct_conv_nth using nth(2) by simp
qed

theorem save_names_distinct_witness:
  "distinct (save_names_for_commit_utcs (\<lambda>t. [if t < 10 then CHR ''a'' else CHR ''b'']) [1, 2, 20])"
  by (rule save_names_distinct [where L = 1]) simp

end
