(* ===== verification/Bup_Rm.thy ===== *)
theory Bup_Rm
  imports Git_Repo
begin

text \<open>
  Removing branches and saves: \<open>lib/bup/rm.py\<close>.  Looking up a path, a commit or git's list of commits
  are parameters, and so is the writer's \<open>new_commit\<close>, on a state of its own; references are changed
  through git as in \<open>Git_Repo\<close>.
\<close>

section \<open>A branch without some of its commits\<close>

record commit_args =
  ca_tree :: bytes
  ca_parent :: "bytes option"
  ca_author :: bytes
  ca_author_sec :: int
  ca_author_offset :: int
  ca_committer :: bytes
  ca_committer_sec :: int
  ca_committer_offset :: int
  ca_message :: bytes

type_synonym 'w committer = "commit_args \<Rightarrow> 'w \<Rightarrow> (bytes \<times> 'w) res"

definition args_of :: "bytes \<Rightarrow> bytes option \<Rightarrow> commit_info \<Rightarrow> commit_args" where
  "args_of tree parent ci =
     \<lparr>ca_tree = tree, ca_parent = parent,
      ca_author = ci_author_name ci @ '' <'' @ ci_author_mail ci @ ''>'', ca_author_sec = ci_author_sec ci, ca_author_offset = ci_author_offset ci,
      ca_committer = ci_committer_name ci @ '' <'' @ ci_committer_mail ci @ ''>'', ca_committer_sec = ci_committer_sec ci,
      ca_committer_offset = ci_committer_offset ci, ca_message = ci_message ci\<rparr>"

definition append_commit ::
  "(bytes \<Rightarrow> commit_info res) \<Rightarrow> 'w committer \<Rightarrow> bytes \<Rightarrow> bytes option \<Rightarrow> 'w \<Rightarrow> ((bytes \<times> bytes) \<times> 'w) res" where
  "append_commit get_items mk_commit hash parent w =
     res_bind (get_items hash) (\<lambda>ci.
     res_bind (unhexlify (ci_tree ci)) (\<lambda>tree.
     res_bind (mk_commit (args_of tree parent ci) w) (\<lambda>(c, w'). Inr ((c, tree), w'))))"

fun rewrite_commits ::
  "(bytes \<Rightarrow> commit_info res) \<Rightarrow> 'w committer \<Rightarrow> (bytes \<Rightarrow> bool) \<Rightarrow> bytes list \<Rightarrow> bytes option \<Rightarrow> 'w \<Rightarrow> (bytes option \<times> 'w) res" where
  "rewrite_commits get_items mk_commit exclude [] last_c w = Inr (last_c, w)"
| "rewrite_commits get_items mk_commit exclude (c # cs) last_c w =
     (if exclude c then rewrite_commits get_items mk_commit exclude cs last_c w
      else res_bind (append_commit get_items mk_commit (hexlify c) last_c w) (\<lambda>((c', tree), w').
             rewrite_commits get_items mk_commit exclude cs (Some c') w'))"

text \<open>\<open>next(i for i, c in enumerate(commits) if exclude(c))\<close>\<close>

fun first_excluded :: "(bytes \<Rightarrow> bool) \<Rightarrow> bytes list \<Rightarrow> nat option" where
  "first_excluded exclude [] = None"
| "first_excluded exclude (c # cs) = (if exclude c then Some 0 else map_option Suc (first_excluded exclude cs))"

definition filter_branch ::
  "(bytes \<Rightarrow> bytes list res) \<Rightarrow> (bytes \<Rightarrow> commit_info res) \<Rightarrow> 'w committer \<Rightarrow> bytes \<Rightarrow> (bytes \<Rightarrow> bool) \<Rightarrow> 'w \<Rightarrow> (bytes option \<times> 'w) res" where
  "filter_branch list_revs get_items mk_commit tip_commit_hex exclude w =
     res_bind (list_revs tip_commit_hex) (\<lambda>hexs.
     res_bind (res_map unhexlify hexs) (\<lambda>newest_first.
     let commits = rev newest_first
     in case first_excluded exclude commits of
          None \<Rightarrow> Inl StopIteration
        | Some i \<Rightarrow>
            if i \<noteq> 0 then rewrite_commits get_items mk_commit exclude (drop i commits) (Some (commits ! (i - 1))) w
            else rewrite_commits get_items mk_commit exclude commits None w))"

section \<open>What to remove\<close>

datatype vfs_leaf = RevListItem bytes | CommitItem bytes | OtherItem

definition commit_oid :: "vfs_leaf \<Rightarrow> bytes res" where
  "commit_oid item = (case item of CommitItem coid \<Rightarrow> Inr coid | RevListItem oid \<Rightarrow> Inr oid | OtherItem \<Rightarrow> Inl AssertionError)"

definition rm_saves ::
  "(bytes \<Rightarrow> bytes list res) \<Rightarrow> (bytes \<Rightarrow> commit_info res) \<Rightarrow> 'w committer \<Rightarrow> (vfs_leaf \<times> vfs_leaf) list \<Rightarrow> 'w \<Rightarrow>
   ((bytes \<times> bytes option) \<times> 'w) res" where
  "rm_saves list_revs get_items mk_commit saves w =
     res_bind (py_assert (saves \<noteq> [])) (\<lambda>_.
     let first_branch_item = snd (hd saves)
     in res_bind (py_assert (\<forall>s\<in>set saves. snd s = first_branch_item)) (\<lambda>_.
        res_bind (res_map (\<lambda>s. commit_oid (fst s)) saves) (\<lambda>rm_commits.
        res_bind (commit_oid first_branch_item) (\<lambda>orig_tip.
        res_bind (filter_branch list_revs get_items mk_commit (hexlify orig_tip) (\<lambda>x. x \<in> set rm_commits) w) (\<lambda>(new_tip, w').
        res_bind (py_assert (orig_tip \<noteq> [])) (\<lambda>_.
        res_bind (py_assert (new_tip \<noteq> Some orig_tip)) (\<lambda>_. Inr ((orig_tip, new_tip), w'))))))))"

text \<open>The two dictionaries of \<open>dead_items\<close>, and the number of errors saved.\<close>

type_synonym dead_branches = "(bytes \<times> vfs_leaf) list"
type_synonym dead_saves = "(bytes \<times> (vfs_leaf \<times> vfs_leaf) list) list"

definition add_dead_save :: "bytes \<Rightarrow> vfs_leaf \<times> vfs_leaf \<Rightarrow> dead_saves \<Rightarrow> dead_saves" where
  "add_dead_save branchname dead saves =
     (case map_of saves branchname of None \<Rightarrow> saves @ [(branchname, [dead])] | Some l \<Rightarrow> AList.update branchname (l @ [dead]) saves)"

text \<open>\<open>resolve\<close> gives the names and items on the way; a path that cannot be accessed is an error.\<close>

fun scan_dead ::
  "(bytes \<Rightarrow> (bytes \<times> vfs_leaf option) list res) \<Rightarrow> bytes list \<Rightarrow> dead_branches \<Rightarrow> dead_saves \<Rightarrow> nat \<Rightarrow>
   (dead_branches \<times> dead_saves \<times> nat) res" where
  "scan_dead resolve [] branches saves errors = Inr (branches, saves, errors)"
| "scan_dead resolve (path # paths) branches saves errors =
     (case resolve path of
        Inl IOError \<Rightarrow> scan_dead resolve paths branches saves (errors + 1)
      | Inl e \<Rightarrow> Inl e
      | Inr resolved \<Rightarrow>
          if resolved = [] then Inl IndexError
          else case last resolved of
            (leaf_name, None) \<Rightarrow> scan_dead resolve paths branches saves (errors + 1)
          | (leaf_name, Some (RevListItem oid)) \<Rightarrow>
              scan_dead resolve paths (AList.update leaf_name (RevListItem oid) branches) (AList.delete leaf_name saves) errors
          | (leaf_name, Some (CommitItem coid)) \<Rightarrow>
              if leaf_name = ''latest'' then scan_dead resolve paths branches saves (errors + 1)
              else if length resolved < 2 then Inl IndexError
              else (case resolved ! (length resolved - 2) of
                      (branchname, branchitem) \<Rightarrow>
                        if branchname \<in> fst ` set branches then scan_dead resolve paths branches saves errors
                        else scan_dead resolve paths branches
                               (add_dead_save branchname (CommitItem coid, case branchitem of None \<Rightarrow> OtherItem | Some b \<Rightarrow> b) saves) errors)
          | (leaf_name, Some OtherItem) \<Rightarrow> scan_dead resolve paths branches saves (errors + 1))"

definition dead_items :: "(bytes \<Rightarrow> (bytes \<times> vfs_leaf option) list res) \<Rightarrow> bytes list \<Rightarrow> (dead_branches \<times> dead_saves) option res" where
  "dead_items resolve paths =
     res_bind (scan_dead resolve paths [] [] 0) (\<lambda>(branches, saves, errors).
     Inr (if errors \<noteq> 0 then None else Some (branches, saves)))"

section \<open>The command\<close>

type_synonym ref_updates = "(bytes \<times> bytes \<times> bytes option) list"

fun rm_all_saves ::
  "(bytes \<Rightarrow> bytes list res) \<Rightarrow> (bytes \<Rightarrow> commit_info res) \<Rightarrow> 'w committer \<Rightarrow> dead_saves \<Rightarrow> 'w \<Rightarrow> (ref_updates \<times> 'w) res" where
  "rm_all_saves list_revs get_items mk_commit [] w = Inr ([], w)"
| "rm_all_saves list_revs get_items mk_commit ((branch, saves) # ds) w =
     res_bind (rm_saves list_revs get_items mk_commit saves w) (\<lambda>(tips, w').
     res_bind (rm_all_saves list_revs get_items mk_commit ds w') (\<lambda>(us, w''). Inr ((''refs/heads/'' @ branch, tips) # us, w'')))"

text \<open>The references are updated at the end, each attempted; the failures are counted.\<close>

fun update_refs :: "'g git \<Rightarrow> ref_updates \<Rightarrow> 'g \<Rightarrow> nat res \<times> 'g" where
  "update_refs git [] g = (Inr 0, g)"
| "update_refs git ((ref_name, orig_ref, new_ref) # us) g =
     (case (if new_ref = None \<or> new_ref = Some [] then delete_ref git ref_name (Some (hexlify orig_ref)) g
            else update_ref git ref_name (the new_ref) (Some orig_ref) False g) of
        (Inr _, g') \<Rightarrow> update_refs git us g'
      | (Inl GitError, g') \<Rightarrow> (case update_refs git us g' of (r, g'') \<Rightarrow> (res_bind r (\<lambda>n. Inr (n + 1)), g''))
      | (Inl e, g') \<Rightarrow> (Inl e, g'))"

text \<open>A writer is opened only for saves; it is aborted when removing them raises, and closed in any case.\<close>

definition bup_rm ::
  "(bytes \<Rightarrow> (bytes \<times> vfs_leaf option) list res) \<Rightarrow> (bytes \<Rightarrow> bytes list res) \<Rightarrow> (bytes \<Rightarrow> commit_info res) \<Rightarrow> 'w committer \<Rightarrow>
   ('w \<Rightarrow> 'w) \<Rightarrow> ('w \<Rightarrow> 'w) \<Rightarrow> 'g git \<Rightarrow> bytes list \<Rightarrow> 'w \<Rightarrow> 'g \<Rightarrow> nat res \<times> 'w \<times> 'g" where
  "bup_rm resolve list_revs get_items mk_commit abort close git paths w g =
     (case dead_items resolve paths of
        Inl e \<Rightarrow> (Inl e, w, g)
      | Inr None \<Rightarrow> (Inl (SysExit 2), w, g)
      | Inr (Some (branches, saves)) \<Rightarrow>
          (case res_map (\<lambda>(branchname, item). case item of RevListItem oid \<Rightarrow> Inr (''refs/heads/'' @ branchname, oid, None) | _ \<Rightarrow> Inl AssertionError)
                  branches of
             Inl e \<Rightarrow> (Inl e, w, g)
           | Inr us \<Rightarrow>
               (case (if saves = [] then Inr ([], w) else rm_all_saves list_revs get_items mk_commit saves w) of
                  Inl e \<Rightarrow> (Inl e, close (abort w), g)
                | Inr (vs, w') \<Rightarrow>
                    (case update_refs git (us @ vs) g of (r, g') \<Rightarrow> (r, if saves = [] then w' else close w', g')))))"

section \<open>What is left of a branch\<close>

text \<open>A history, oldest first: each commit is read with the one before as its parent.\<close>

fun history :: "(bytes \<Rightarrow> commit_args option) \<Rightarrow> bytes option \<Rightarrow> bytes list \<Rightarrow> bool" where
  "history view parent [] = True"
| "history view parent (c # cs) = ((\<exists>a. view c = Some a \<and> ca_parent a = parent) \<and> history view (Some c) cs)"

text \<open>What a commit says, whatever its parent.\<close>

definition says :: "(bytes \<Rightarrow> commit_args option) \<Rightarrow> bytes \<Rightarrow> commit_args" where
  "says view c = (the (view c))\<lparr>ca_parent := None\<rparr>"

definition last_or_none :: "bytes list \<Rightarrow> bytes option" where
  "last_or_none cs = (if cs = [] then None else Some (last cs))"

lemma history_append: "history view p (xs @ ys) \<longleftrightarrow> history view p xs \<and> history view (if xs = [] then p else Some (last xs)) ys"
  by (induction xs arbitrary: p) auto

text \<open>The writer of a content-addressed store: the id of a commit is a function of it.\<close>

definition store_commit :: "(commit_args \<Rightarrow> bytes) \<Rightarrow> (bytes \<times> commit_args) list committer" where
  "store_commit cid a w = Inr (cid a, w @ [(cid a, a)])"

lemma rewrite_commits_ok:
  assumes "\<forall>c\<in>set cs. \<exists>ci tree. get_items (hexlify c) = Inr ci \<and> unhexlify (ci_tree ci) = Inr tree \<and>
      view c = Some (args_of tree (ca_parent (the (view c))) ci)"
  shows "\<exists>ds w'. rewrite_commits get_items (store_commit cid) exclude cs last_c w = Inr (if ds = [] then last_c else Some (last ds), w @ w') \<and>
    ((\<forall>(c, a)\<in>set w'. view c = Some a) \<longrightarrow>
       history view last_c ds \<and> map (says view) ds = map (says view) (filter (\<lambda>c. \<not> exclude c) cs))"
  using assms
proof (induction cs arbitrary: last_c w)
  case (Cons c cs)
  have cs: "\<forall>c\<in>set cs. \<exists>ci tree. get_items (hexlify c) = Inr ci \<and> unhexlify (ci_tree ci) = Inr tree \<and>
      view c = Some (args_of tree (ca_parent (the (view c))) ci)" using Cons.prems by simp
  show ?case
  proof (cases "exclude c")
    case True
    then show ?thesis using Cons.IH [OF cs, of last_c w] by simp
  next
    case False
    obtain ci tree where c: "get_items (hexlify c) = Inr ci" "unhexlify (ci_tree ci) = Inr tree"
      "view c = Some (args_of tree (ca_parent (the (view c))) ci)" using Cons.prems by auto
    define a where "a = args_of tree last_c ci"
    obtain ds w' where ds: "rewrite_commits get_items (store_commit cid) exclude cs (Some (cid a)) (w @ [(cid a, a)]) =
        Inr (if ds = [] then Some (cid a) else Some (last ds), (w @ [(cid a, a)]) @ w')"
      "(\<forall>(c, a)\<in>set w'. view c = Some a) \<longrightarrow>
         history view (Some (cid a)) ds \<and> map (says view) ds = map (says view) (filter (\<lambda>c. \<not> exclude c) cs)"
      using Cons.IH [OF cs, of "Some (cid a)" "w @ [(cid a, a)]"] by blast
    have "rewrite_commits get_items (store_commit cid) exclude (c # cs) last_c w =
        Inr (Some (last (cid a # ds)), w @ (cid a, a) # w')"
      using False c(1,2) ds(1) by (simp add: append_commit_def store_commit_def a_def)
    moreover have "history view last_c (cid a # ds) \<and>
        map (says view) (cid a # ds) = map (says view) (filter (\<lambda>c. \<not> exclude c) (c # cs))"
      if v: "\<forall>(c, a)\<in>set ((cid a, a) # w'). view c = Some a"
    proof -
      have "view (cid a) = Some a" "\<forall>(c, a)\<in>set w'. view c = Some a" using v by simp_all
      moreover have "a\<lparr>ca_parent := None\<rparr> = says view c" unfolding says_def by (subst c(3)) (simp add: a_def args_of_def)
      moreover have "ca_parent a = last_c" by (simp add: a_def args_of_def)
      ultimately show ?thesis using ds(2) False by (simp add: says_def)
    qed
    ultimately show ?thesis by (intro exI [of _ "cid a # ds"] exI [of _ "(cid a, a) # w'"]) simp
  qed
qed (intro exI [of _ "[]"], simp)

lemma first_excluded_Some:
  "first_excluded exclude cs = Some i \<Longrightarrow> i < length cs \<and> (\<forall>c\<in>set (take i cs). \<not> exclude c)"
  by (induction cs arbitrary: i) (auto split: if_splits)

lemma first_excluded_None: "first_excluded exclude cs = None \<longleftrightarrow> (\<forall>c\<in>set cs. \<not> exclude c)"
  by (induction cs) auto

lemma res_map_unhexlify: "res_map unhexlify (map hexlify cs) = Inr cs"
  by (induction cs) (simp_all add: unhexlify_hexlify)


text \<open>A branch of three commits, told apart by their messages; the second is removed.\<close>

definition cid_w :: "commit_args \<Rightarrow> bytes" where
  "cid_w a = ca_message a @ (case ca_parent a of None \<Rightarrow> [] | Some p \<Rightarrow> p)"

definition items_w :: "bytes \<Rightarrow> commit_info res" where
  "items_w hex = Inr \<lparr>ci_tree = [], ci_parents = [], ci_author_name = [], ci_author_mail = [], ci_author_sec = 0, ci_author_offset = 0,
     ci_committer_name = [], ci_committer_mail = [], ci_committer_sec = 0, ci_committer_offset = 0, ci_gpgsig = None,
     ci_message = (if hex = hexlify ''a'' then ''a'' else if hex = hexlify ''ba'' then ''b'' else ''c'')\<rparr>"

definition view_w :: "bytes \<Rightarrow> commit_args option" where
  "view_w c = (case items_w (hexlify c) of Inl e \<Rightarrow> None
     | Inr ci \<Rightarrow> Some (args_of [] (if c = ''a'' then None else if c = ''ba'' then Some ''a'' else if c = ''cba'' then Some ''ba'' else Some ''a'') ci))"


end
