(* ===== verification/Bup_Url.thy ===== *)
theory Bup_Url
  imports Git_Commit Msg_Enc
begin

text \<open>
  URLs of repositories: \<open>lib/bup/url.py\<close>.  Reading and writing IP addresses (the \<open>ipaddress\<close> module of the
  library) are parameters.
\<close>

datatype 'a host = IPv4 'a | IPv6 'a | RegName bytes

record 'a url =
  url_scheme :: bytes
  url_host :: "'a host"
  url_port :: "int option"
  url_user :: bytes
  url_path :: bytes

definition dot_encode_path :: "bytes \<Rightarrow> bytes" where
  "dot_encode_path path = (if path \<noteq> [] \<and> \<not> prefix ''/'' path then ''/./'' @ path else path)"

definition has_auth :: "'a url \<Rightarrow> bool" where
  "has_auth u \<longleftrightarrow> url_port u \<noteq> None \<or> url_host u \<noteq> RegName [] \<or> url_user u \<noteq> []"

definition letter :: "char \<Rightarrow> bool" where
  "letter c \<longleftrightarrow> (let n = of_char c :: nat in (65 \<le> n \<and> n \<le> 90) \<or> (97 \<le> n \<and> n \<le> 122))"

definition decimal :: "char \<Rightarrow> bool" where
  "decimal c \<longleftrightarrow> (let n = of_char c :: nat in 48 \<le> n \<and> n \<le> 57)"

text \<open>The characters that stand for themselves in a host, and in a user.\<close>

definition host_char :: "char \<Rightarrow> bool" where
  "host_char c \<longleftrightarrow> letter c \<or> decimal c \<or> c \<in> set ''-._~!$&()*+,;='' \<or> c = CHR 0x27"

definition user_char :: "char \<Rightarrow> bool" where
  "user_char c \<longleftrightarrow> host_char c \<or> c = CHR '':''"

definition pct_encode :: "(char \<Rightarrow> bool) \<Rightarrow> bytes \<Rightarrow> bytes" where
  "pct_encode keep x = concat (map (\<lambda>c. if keep c then [c] else CHR ''%'' # hexlify [c]) x)"

text \<open>\<open>urllib.parse.unquote_to_bytes\<close>\<close>

fun unquote_to_bytes :: "bytes \<Rightarrow> bytes" where
  "unquote_to_bytes (c # x # y # s) =
     (if c = CHR ''%'' then
        (case (hex_value x, hex_value y) of
           (Some a, Some b) \<Rightarrow> char_of (16 * a + b) # unquote_to_bytes s
         | _ \<Rightarrow> c # unquote_to_bytes (x # y # s))
      else c # unquote_to_bytes (x # y # s))"
| "unquote_to_bytes [c, x] = [c, x]"
| "unquote_to_bytes [c] = [c]"
| "unquote_to_bytes [] = []"

definition render_host :: "('a \<Rightarrow> bytes) \<Rightarrow> 'a host \<Rightarrow> bytes" where
  "render_host show_ip h =
     (case h of
        IPv4 a \<Rightarrow> show_ip a
      | IPv6 a \<Rightarrow> ''['' @ show_ip a @ '']''
      | RegName b \<Rightarrow> pct_encode host_char b)"

definition with_auth :: "('a \<Rightarrow> bytes) \<Rightarrow> 'a url \<Rightarrow> bytes \<Rightarrow> bytes" where
  "with_auth show_ip u path =
     url_scheme u @ ''://'' @
     (if url_user u \<noteq> [] then pct_encode user_char (url_user u) @ ''@'' else []) @
     (if url_host u \<noteq> RegName [] then render_host show_ip (url_host u) else []) @
     (case url_port u of None \<Rightarrow> [] | Some p \<Rightarrow> if p = 0 then [] else '':'' @ show_int p) @
     path"

definition render_url :: "('a \<Rightarrow> bytes) \<Rightarrow> bool \<Rightarrow> 'a url \<Rightarrow> bytes res" where
  "render_url show_ip dot_encode u =
     (if has_auth u then
        (if prefix ''/'' (url_path u) then Inr (with_auth show_ip u (url_path u))
         else if dot_encode then Inr (with_auth show_ip u (dot_encode_path (url_path u)))
         else if url_path u \<noteq> [] then Inl ValueError
         else Inr (with_auth show_ip u (url_path u)))
      else if prefix ''//'' (url_path u) then Inr (with_auth show_ip u (url_path u))
      else Inr (url_scheme u @ '':'' @ url_path u))"

section \<open>Parsing\<close>

definition scheme_char :: "char \<Rightarrow> bool" where
  "scheme_char c \<longleftrightarrow> letter c \<or> decimal c \<or> c \<in> set ''-+.''"

text \<open>\<open>_scheme_and_rest_rx\<close>: the scheme and what follows its colon.\<close>

definition scheme_and_rest :: "bytes \<Rightarrow> (bytes \<times> bytes) option" where
  "scheme_and_rest u =
     (let scheme = takeWhile scheme_char u; r = dropWhile scheme_char u
      in if scheme \<noteq> [] \<and> letter (hd scheme) \<and> prefix '':'' r \<and> CHR 0x0a \<notin> set r then Some (scheme, drop 1 r) else None)"

definition userinfo_char :: "char \<Rightarrow> bool" where
  "userinfo_char c \<longleftrightarrow> user_char c \<or> c = CHR ''%''"

text \<open>\<open>_userinfo_host_port_rx\<close>: user and rest; host and port of the rest.\<close>

definition user_and_rest :: "bytes \<Rightarrow> bytes \<times> bytes" where
  "user_and_rest auth =
     (let user = takeWhile userinfo_char auth; r = dropWhile userinfo_char auth
      in if prefix ''@'' r then (user, drop 1 r) else ([], auth))"

definition host_and_port :: "bytes \<Rightarrow> bytes \<times> bytes" where
  "host_and_port s =
     (let digits = rev (takeWhile decimal (rev s)); front = take (length s - length digits) s
      in if suffix '':'' front then (butlast front, digits) else (s, []))"

datatype 'a url_result = NotUrl | InvalidHost bytes | Parsed "'a url"

definition plain_url :: "bytes \<Rightarrow> bytes \<Rightarrow> 'a url_result" where
  "plain_url scheme path = Parsed \<lparr>url_scheme = scheme, url_host = RegName [], url_port = None, url_user = [], url_path = path\<rparr>"

text \<open>What \<open>ip_address\<close> makes of a text: an address of either kind, or nothing.\<close>

definition parse_authority :: "(bytes \<Rightarrow> 'a host option) \<Rightarrow> bytes \<Rightarrow> bytes \<Rightarrow> bytes \<Rightarrow> 'a url_result" where
  "parse_authority parse_addr scheme auth path =
     (let (user0, r) = user_and_rest auth;
          (host, port0) = host_and_port r;
          user = unquote_to_bytes (takeWhile (\<lambda>c. c \<noteq> CHR '':'') user0);
          port = (if port0 = [] then None else Some (int (foldl (\<lambda>a c. 10 * a + (of_char c - 48)) 0 port0)));
          done = (\<lambda>h. Parsed \<lparr>url_scheme = scheme, url_host = h, url_port = port, url_user = user, url_path = path\<rparr>);
          v6 = (if host \<noteq> [] \<and> hd host = CHR ''['' \<and> last host = CHR '']'' then parse_addr (butlast (tl host)) else None)
      in case v6 of
           Some (IPv6 a) \<Rightarrow> done (IPv6 a)
         | _ \<Rightarrow>
             (case parse_addr host of
                Some (IPv4 a) \<Rightarrow> done (IPv4 a)
              | _ \<Rightarrow>
                  if \<not> list_all (\<lambda>c. host_char c \<or> c = CHR ''%'') host then InvalidHost host
                  else done (RegName (unquote_to_bytes host))))"

definition parse_path_oriented_url :: "(bytes \<Rightarrow> 'a host option) \<Rightarrow> bytes \<Rightarrow> bool \<Rightarrow> 'a url_result" where
  "parse_path_oriented_url parse_addr u require_auth =
     (case scheme_and_rest u of
        None \<Rightarrow> NotUrl
      | Some (scheme, r) \<Rightarrow>
          if \<not> prefix ''//'' r then
            (if require_auth then NotUrl
             else plain_url scheme (if prefix ''/./'' r then lstrip_chars ''/'' (drop 3 r) else r))
          else
            let s = drop 2 r;
                auth = takeWhile (\<lambda>c. c \<noteq> CHR ''/'') s;
                slash_path = dropWhile (\<lambda>c. c \<noteq> CHR ''/'') s;
                path = (if slash_path = [] then []
                        else if prefix ''/./'' slash_path then lstrip_chars ''/'' (drop 3 slash_path)
                        else slash_path)
            in if auth = [] then plain_url scheme path else parse_authority parse_addr scheme auth path)"

section \<open>Rendering and parsing\<close>

lemma hexlify_one: "hexlify [c] = [digit_char (of_char c div 16), digit_char (of_char c mod 16)]"
  by (simp add: hexlify_def)

lemma unquote_keep: "c \<noteq> CHR ''%'' \<Longrightarrow> unquote_to_bytes (c # s) = c # unquote_to_bytes s"
  by (cases s rule: unquote_to_bytes.cases) simp_all

lemma unquote_pct_encode:
  assumes "\<not> keep CHR ''%''"
  shows "unquote_to_bytes (pct_encode keep x) = x"
proof (induction x)
  case (Cons c x)
  have "unquote_to_bytes (pct_encode keep (c # x)) = c # unquote_to_bytes (pct_encode keep x)"
  proof (cases "keep c")
    case True
    then show ?thesis using assms unquote_keep [of c] by (auto simp: pct_encode_def)
  next
    case False
    have "hex_value (digit_char (of_char c div 16)) = Some (of_char c div 16)" "hex_value (digit_char (of_char c mod 16)) = Some (of_char c mod 16)"
      using hex_value_digit [of "of_char c div 16"] hex_value_digit [of "of_char c mod 16"] high_digit [of c] by simp_all
    then show ?thesis using False by (simp add: pct_encode_def hexlify_one)
  qed
  then show ?case using Cons by simp
qed (simp add: pct_encode_def)

lemma hex_digit_host: "d < 16 \<Longrightarrow> host_char (digit_char d)"
  using of_char_digit_char [of d] by (auto simp: host_char_def letter_def decimal_def)

lemma pct_encode_chars:
  assumes "\<And>c. host_char c \<Longrightarrow> keep c"
  shows "list_all (\<lambda>c. keep c \<or> c = CHR ''%'') (pct_encode keep x)"
proof -
  have "keep (digit_char (of_char c div 16))" "keep (digit_char (of_char c mod 16))" for c :: char
    using assms hex_digit_host [of "of_char c div 16"] hex_digit_host [of "of_char c mod 16"] high_digit [of c] by simp_all
  then show ?thesis by (induction x) (auto simp: pct_encode_def hexlify_one)
qed

lemma host_char_not: "\<not> host_char CHR ''%''" "\<not> host_char CHR '':''" "\<not> host_char CHR ''/''" "\<not> host_char CHR ''@''" "\<not> host_char CHR 0x0a" "\<not> host_char CHR ''[''"
  by (simp_all add: host_char_def letter_def decimal_def)

lemma dec_show: "foldl (\<lambda>a c. 10 * a + (of_char c - 48)) (0::nat) (show_base 10 n) = n"
proof -
  obtain ds where ds: "show_base 10 n = map digit_char ds" "\<forall>d\<in>set ds. d < 10" "foldl (\<lambda>a d. 10 * a + d) 0 ds = n"
    using show_base_digits [of 10 n] by auto
  have "foldl (\<lambda>a c. 10 * a + (of_char c - 48)) (x::nat) (map digit_char ds) = foldl (\<lambda>a d. 10 * a + d) x ds" if "\<forall>d\<in>set ds. d < 10" for x ds
    using that by (induction ds arbitrary: x) (auto simp: of_char_digit_char)
  then show ?thesis using ds by simp
qed

lemma show_decimal: "list_all decimal (show_base 10 n)"
  using show_base_chars [of 10 _ n] of_char_digit_char by (fastforce simp: list_all_iff decimal_def)

definition port_text :: "int option \<Rightarrow> bytes" where
  "port_text port = (case port of None \<Rightarrow> [] | Some p \<Rightarrow> '':'' @ show_base 10 (nat p))"

lemma host_and_port_ok:
  assumes "CHR '':'' \<notin> set h"
  shows "host_and_port (h @ port_text port) = (h, case port of None \<Rightarrow> [] | Some p \<Rightarrow> show_base 10 (nat p))"
proof (cases port)
  case None
  let ?d = "rev (takeWhile decimal (rev h))"
  have "\<not> suffix '':'' (take (length h - length ?d) h)"
    using assms set_take_subset [of "length h - length ?d" h] by (auto simp: suffix_def)
  then show ?thesis by (simp add: host_and_port_def port_text_def None Let_def)
next
  case (Some p)
  let ?ds = "show_base 10 (nat p)"
  have "takeWhile decimal (rev ?ds @ CHR '':'' # rev h) = rev ?ds"
    using show_decimal [of "nat p"] by (simp add: list_all_iff takeWhile_tail decimal_def)
  then show ?thesis by (simp add: host_and_port_def port_text_def Some Let_def suffix_def)
qed

lemma user_and_rest_ok:
  assumes "list_all userinfo_char u" "CHR ''@'' \<notin> set hp" "u \<noteq> [] \<or> list_all userinfo_char hp"
  shows "user_and_rest ((if u \<noteq> [] then u @ ''@'' else []) @ hp) = (u, hp)"
proof (cases "u = []")
  case True
  then have "list_all userinfo_char hp" using assms(3) by simp
  then have d: "dropWhile userinfo_char hp = []" by (simp add: list_all_iff)
  have e: "(if u \<noteq> [] then u @ ''@'' else []) @ hp = hp" by (simp add: True)
  show ?thesis unfolding e user_and_rest_def Let_def d by (simp add: True)
next
  case False
  have "\<not> userinfo_char CHR ''@''" using host_char_not(4) by (simp add: userinfo_char_def user_char_def)
  then have "takeWhile userinfo_char (u @ CHR ''@'' # hp) = u" "dropWhile userinfo_char (u @ CHR ''@'' # hp) = CHR ''@'' # hp"
    using assms(1) by (simp_all add: list_all_iff takeWhile_tail)
  then show ?thesis using False by (simp add: user_and_rest_def Let_def)
qed

text \<open>What a URL must be like to be written and read back.\<close>

definition url_ok :: "(bytes \<Rightarrow> 'a host option) \<Rightarrow> 'a url \<Rightarrow> bytes \<Rightarrow> bool" where
  "url_ok parse_addr u h \<longleftrightarrow>
     url_scheme u \<noteq> [] \<and> letter (hd (url_scheme u)) \<and> list_all scheme_char (url_scheme u) \<and>
     url_host u = RegName h \<and> parse_addr (pct_encode host_char h) = None \<and>
     (case url_port u of None \<Rightarrow> True | Some p \<Rightarrow> 0 < p) \<and>
     CHR 0x0a \<notin> set (url_path u) \<and> \<not> prefix ''/./'' (url_path u) \<and>
     (has_auth u \<longrightarrow> url_path u = [] \<or> prefix ''/'' (url_path u))"

lemma encoded_chars:
  "c \<in> set (pct_encode host_char h) \<Longrightarrow> userinfo_char c \<and> c \<noteq> CHR '':'' \<and> c \<noteq> CHR ''/'' \<and> c \<noteq> CHR ''@'' \<and> c \<noteq> CHR 0x0a \<and> (host_char c \<or> c = CHR ''%'')"
  "c \<in> set (pct_encode user_char s) \<Longrightarrow> userinfo_char c \<and> c \<noteq> CHR ''/'' \<and> c \<noteq> CHR ''@'' \<and> c \<noteq> CHR 0x0a"
  using pct_encode_chars [of host_char h] pct_encode_chars [of user_char s] host_char_not
  by (auto simp: list_all_iff userinfo_char_def user_char_def)

lemma pct_up_to_colon:
  "takeWhile (\<lambda>c. c \<noteq> CHR '':'') (pct_encode user_char s) = pct_encode user_char (takeWhile (\<lambda>c. c \<noteq> CHR '':'') s)"
proof (induction s)
  case (Cons c s)
  have "digit_char (of_char c div 16) \<noteq> CHR '':''" "digit_char (of_char c mod 16) \<noteq> CHR '':''"
    using hex_digit_host [of "of_char c div 16"] hex_digit_host [of "of_char c mod 16"] high_digit [of c] host_char_not(2) by auto
  moreover have "user_char CHR '':''" by (simp add: user_char_def)
  ultimately show ?case using Cons by (simp add: pct_encode_def hexlify_one)
qed (simp add: pct_encode_def)

text \<open>The user up to its first colon: what is left of it when the URL is read.\<close>

definition user_name :: "bytes \<Rightarrow> bytes" where
  "user_name user = takeWhile (\<lambda>c. c \<noteq> CHR '':'') user"

lemma parse_authority_ok:
  assumes "url_ok parse_addr u h"
  defines "auth \<equiv> (if url_user u \<noteq> [] then pct_encode user_char (url_user u) @ ''@'' else []) @ pct_encode host_char h @ port_text (url_port u)"
  shows "parse_authority parse_addr (url_scheme u) auth (url_path u) = Parsed (u\<lparr>url_user := user_name (url_user u)\<rparr>)"
proof -
  let ?user = "pct_encode user_char (url_user u)" and ?host = "pct_encode host_char h"
  have pt: "c \<in> set (port_text port) \<Longrightarrow> userinfo_char c \<and> c \<noteq> CHR ''@''" for c port
    using show_decimal [of "nat (the port)"]
    by (cases port) (auto simp: port_text_def list_all_iff userinfo_char_def user_char_def host_char_def decimal_def)
  have e: "?user = [] \<longleftrightarrow> url_user u = []" by (cases "url_user u") (auto simp: pct_encode_def)
  have "auth = (if ?user \<noteq> [] then ?user @ ''@'' else []) @ ?host @ port_text (url_port u)" by (simp add: auth_def e)
  moreover have "list_all userinfo_char ?user" "CHR ''@'' \<notin> set (?host @ port_text (url_port u))" "list_all userinfo_char (?host @ port_text (url_port u))"
    using encoded_chars pt by (fastforce simp: list_all_iff)+
  ultimately have ur: "user_and_rest auth = (?user, ?host @ port_text (url_port u))" using user_and_rest_ok by metis
  have hp: "host_and_port (?host @ port_text (url_port u)) = (?host, case url_port u of None \<Rightarrow> [] | Some p \<Rightarrow> show_base 10 (nat p))"
    using encoded_chars(1) by (intro host_and_port_ok) blast
  have "\<not> user_char CHR ''%''" using host_char_not(1) by (simp add: user_char_def)
  then have us: "unquote_to_bytes (takeWhile (\<lambda>c. c \<noteq> CHR '':'') ?user) = user_name (url_user u)"
    unfolding pct_up_to_colon user_name_def by (rule unquote_pct_encode)
  have po: "(if (case url_port u of None \<Rightarrow> [] | Some p \<Rightarrow> show_base 10 (nat p)) = [] then None
      else Some (int (foldl (\<lambda>a c. 10 * a + (of_char c - 48)) 0 (case url_port u of None \<Rightarrow> [] | Some p \<Rightarrow> show_base 10 (nat p))))) = url_port u"
    using assms(1) dec_show by (auto simp: url_ok_def split: option.splits)
  have hc: "list_all (\<lambda>c. host_char c \<or> c = CHR ''%'') ?host" using encoded_chars(1) by (auto simp: list_all_iff)
  have hb: "?host \<noteq> [] \<Longrightarrow> hd ?host \<noteq> CHR ''[''" using encoded_chars(1) [of "hd ?host" h] host_char_not(6) by auto
  have uh: "unquote_to_bytes ?host = h" using host_char_not(1) by (simp add: unquote_pct_encode)
  have "parse_addr ?host = None" "url_host u = RegName h" using assms(1) by (simp_all add: url_ok_def)
  then show ?thesis unfolding parse_authority_def ur hp Let_def prod.case us po uh using hc hb by auto
qed

lemma scheme_and_rest_ok:
  assumes "scheme \<noteq> []" "letter (hd scheme)" "list_all scheme_char scheme" "CHR 0x0a \<notin> set r"
  shows "scheme_and_rest (scheme @ '':'' @ r) = Some (scheme, r)"
proof -
  have n: "\<not> scheme_char CHR '':''" by (simp add: scheme_char_def letter_def decimal_def)
  have t: "takeWhile scheme_char (scheme @ '':'' @ r) = scheme" "dropWhile scheme_char (scheme @ '':'' @ r) = '':'' @ r"
    using assms(3) n by (simp_all add: list_all_iff takeWhile_tail)
  show ?thesis unfolding scheme_and_rest_def t Let_def using assms by simp
qed

definition authority_text :: "'a url \<Rightarrow> bytes \<Rightarrow> bytes" where
  "authority_text u h = (if url_user u \<noteq> [] then pct_encode user_char (url_user u) @ ''@'' else []) @ pct_encode host_char h @ port_text (url_port u)"

lemma authority_text_chars:
  assumes "c \<in> set (authority_text u h)"
  shows "c \<noteq> CHR ''/'' \<and> c \<noteq> CHR 0x0a"
proof -
  have "c \<in> set (port_text port) \<Longrightarrow> c \<noteq> CHR ''/'' \<and> c \<noteq> CHR 0x0a" for port
    using show_decimal [of "nat (the port)"] by (cases port) (auto simp: port_text_def list_all_iff decimal_def)
  moreover have "c \<in> set (pct_encode user_char (url_user u)) \<Longrightarrow> c \<noteq> CHR ''/'' \<and> c \<noteq> CHR 0x0a" "c \<in> set (pct_encode host_char h) \<Longrightarrow> c \<noteq> CHR ''/'' \<and> c \<noteq> CHR 0x0a"
    using encoded_chars(1) [of c h] encoded_chars(2) [of c "url_user u"] by blast+
  ultimately show ?thesis using assms unfolding authority_text_def by (auto split: if_splits)
qed

lemma with_auth_text:
  assumes "url_ok parse_addr u h"
  shows "with_auth show_ip u path = url_scheme u @ '':'' @ ''//'' @ authority_text u h @ path"
proof -
  have "url_host u = RegName h" "case url_port u of None \<Rightarrow> True | Some p \<Rightarrow> 0 < p" using assms by (simp_all add: url_ok_def)
  then show ?thesis
    by (auto simp: with_auth_def authority_text_def port_text_def render_host_def show_int_base_def pct_encode_def split: option.splits)
qed

lemma authority_text_Nil:
  assumes "url_ok parse_addr u h"
  shows "authority_text u h = [] \<longleftrightarrow> \<not> has_auth u"
proof -
  have "url_host u = RegName h" using assms by (simp add: url_ok_def)
  moreover have "pct_encode keep x = [] \<longleftrightarrow> x = []" for keep x by (cases x) (auto simp: pct_encode_def)
  ultimately show ?thesis by (auto simp: authority_text_def has_auth_def port_text_def split: option.splits)
qed

lemma parse_with_auth:
  assumes "url_ok parse_addr u h" "url_path u = [] \<or> prefix ''/'' (url_path u)"
  shows "parse_path_oriented_url parse_addr (url_scheme u @ '':'' @ ''//'' @ authority_text u h @ url_path u) require_auth =
     Parsed (u\<lparr>url_user := user_name (url_user u)\<rparr>)"
proof -
  let ?a = "authority_text u h" and ?p = "url_path u"
  have ok: "url_scheme u \<noteq> []" "letter (hd (url_scheme u))" "list_all scheme_char (url_scheme u)" "CHR 0x0a \<notin> set ?p" "\<not> prefix ''/./'' ?p"
    using assms(1) by (simp_all add: url_ok_def)
  have "CHR 0x0a \<notin> set (''//'' @ ?a @ ?p)" using ok(4) authority_text_chars [of "CHR 0x0a" u h] by auto
  then have sr: "scheme_and_rest (url_scheme u @ '':'' @ ''//'' @ ?a @ ?p) = Some (url_scheme u, ''//'' @ ?a @ ?p)"
    by (rule scheme_and_rest_ok [OF ok(1,2,3)])
  have d2: "drop 2 (''//'' @ ?a @ ?p) = ?a @ ?p" "prefix ''//'' (''//'' @ ?a @ ?p)" by simp_all
  have all: "\<forall>c\<in>set ?a. c \<noteq> CHR ''/''" using authority_text_chars by blast
  have p: "takeWhile (\<lambda>c. c \<noteq> CHR ''/'') ?p = []" "dropWhile (\<lambda>c. c \<noteq> CHR ''/'') ?p = ?p" using assms(2) by (cases ?p; simp)+
  have t: "takeWhile (\<lambda>c. c \<noteq> CHR ''/'') (?a @ ?p) = ?a" "dropWhile (\<lambda>c. c \<noteq> CHR ''/'') (?a @ ?p) = ?p"
    using all p by (simp_all add: takeWhile_append2 dropWhile_append2)
  show ?thesis
  proof (cases "?a = []")
    case False
    have pa: "parse_authority parse_addr (url_scheme u) ?a ?p = Parsed (u\<lparr>url_user := user_name (url_user u)\<rparr>)"
      unfolding authority_text_def by (rule parse_authority_ok [OF assms(1)])
    show ?thesis unfolding parse_path_oriented_url_def sr option.case prod.case d2 Let_def t using False pa ok(5) by auto
  next
    case True
    then have "\<not> has_auth u" using authority_text_Nil assms(1) by blast
    then have "plain_url (url_scheme u) ?p = Parsed (u\<lparr>url_user := user_name (url_user u)\<rparr>)" by (simp add: has_auth_def plain_url_def user_name_def)
    then show ?thesis unfolding parse_path_oriented_url_def sr option.case prod.case d2 Let_def t using True ok(5) by auto
  qed
qed



end
