(* ===== verification/Stat_Links.thy ===== *)
theory Stat_Links
  imports Git_Repo "HOL-Library.AList"
begin

text \<open>
  Times and modes of files (\<open>lib/bup/xstat.py\<close>), and the table of hard links
  (\<open>lib/bup/hlinkdb.py\<close>).  The table's file is its node dictionary, or nothing when there is no file.
\<close>

section \<open>Times\<close>

definition timespec_to_nsecs :: "int \<times> int \<Rightarrow> int" where
  "timespec_to_nsecs ts = (case ts of (ts_s, ts_ns) \<Rightarrow> ts_s * 10 ^ 9 + ts_ns)"

definition nsecs_to_timespec :: "int \<Rightarrow> int \<times> int" where
  "nsecs_to_timespec ns = (ns div 10 ^ 9, ns mod 10 ^ 9)"

definition nsecs_to_timeval :: "int \<Rightarrow> int \<times> int" where
  "nsecs_to_timeval ns = (ns div 10 ^ 9, ns mod 10 ^ 9 div 1000)"

definition fstime_floor_secs :: "int \<Rightarrow> int" where
  "fstime_floor_secs ns = ns div 10 ^ 9"

definition fstime_to_sec_bytes :: "int \<Rightarrow> bytes" where
  "fstime_to_sec_bytes fstime =
     (let (s0, ns) = nsecs_to_timespec fstime;
          s = (if s0 < 0 then s0 + 1 else s0)
      in if ns = 0 then show_int s else show_int s @ ''.'' @ zero_pad 9 (show_int ns))"

text \<open>The device number \<open>os.mknod\<close> is given: that of C, as an unsigned number of the width.\<close>

definition mknod_device :: "nat \<Rightarrow> int \<Rightarrow> int \<Rightarrow> int" where
  "mknod_device dev_bytes nodev device = (if device < 0 \<and> device \<noteq> nodev then device + 2 ^ (8 * dev_bytes) else device)"

section \<open>Modes\<close>

definition S_ISCHR :: "int \<Rightarrow> bool" where "S_ISCHR mode \<longleftrightarrow> s_ifmt mode = 0x2000"
definition S_ISBLK :: "int \<Rightarrow> bool" where "S_ISBLK mode \<longleftrightarrow> s_ifmt mode = 0x6000"
definition S_ISFIFO :: "int \<Rightarrow> bool" where "S_ISFIFO mode \<longleftrightarrow> s_ifmt mode = 0x1000"
definition S_ISSOCK :: "int \<Rightarrow> bool" where "S_ISSOCK mode \<longleftrightarrow> s_ifmt mode = 0xC000"

definition type_char :: "int \<Rightarrow> char" where
  "type_char mode =
     (if S_ISREG mode then CHR ''-'' else if S_ISDIR mode then CHR ''d'' else if S_ISCHR mode then CHR ''c''
      else if S_ISBLK mode then CHR ''b'' else if S_ISFIFO mode then CHR ''p'' else if S_ISLNK mode then CHR ''l''
      else if S_ISSOCK mode then CHR ''s'' else CHR ''?'')"

definition mode_str :: "int \<Rightarrow> bytes" where
  "mode_str mode = type_char mode #
     map (\<lambda>(c, flag). if mode AND flag \<noteq> 0 then c else CHR ''-'')
       [(CHR ''r'', 0x100), (CHR ''w'', 0x80), (CHR ''x'', 0x40), (CHR ''r'', 0x20), (CHR ''w'', 0x10), (CHR ''x'', 8),
        (CHR ''r'', 4), (CHR ''w'', 2), (CHR ''x'', 1)]"

definition classification_str :: "int \<Rightarrow> bool \<Rightarrow> bytes" where
  "classification_str mode include_exec =
     (if S_ISREG mode then (if include_exec \<and> mode AND 0xFFF AND (0x40 OR 8 OR 1) \<noteq> 0 then ''*'' else [])
      else if S_ISDIR mode then ''/'' else if S_ISLNK mode then ''@'' else if S_ISFIFO mode then ''|''
      else if S_ISSOCK mode then ''='' else [])"

definition local_time_str :: "(int \<Rightarrow> bytes) \<Rightarrow> int option \<Rightarrow> bytes option" where
  "local_time_str strftime_local t = map_option (\<lambda>t. strftime_local (fstime_floor_secs t)) t"

section \<open>Hard links\<close>

type_synonym node_dict = "(bytes \<times> bytes list) list"

text \<open>
  What leaving the cleanup stack does to the table's file, last entered first: a replacement is put in place
  unless it is cancelled, a callback removes the file.
\<close>

datatype cleanup = Replace node_dict | Unlink

fun leave_cleanup :: "bool \<Rightarrow> cleanup list \<Rightarrow> node_dict option \<Rightarrow> node_dict option" where
  "leave_cleanup cancelled [] file = file"
| "leave_cleanup cancelled (Replace d # cs) file = leave_cleanup cancelled cs (if cancelled then file else Some d)"
| "leave_cleanup cancelled (Unlink # cs) file = leave_cleanup cancelled cs None"

record hlinkdb =
  hl_closed :: bool
  hl_cleanup :: "cleanup list"
  hl_pending :: bool
  node_paths_of :: node_dict
  path_node :: "(bytes \<times> bytes) list"

definition HLinkDB :: "node_dict option \<Rightarrow> hlinkdb" where
  "HLinkDB file =
     (let nodes = (case file of None \<Rightarrow> [] | Some d \<Rightarrow> d)
      in \<lparr>hl_closed = False, hl_cleanup = [], hl_pending = False, node_paths_of = nodes,
          path_node = fold (\<lambda>(node, paths) d. fold (\<lambda>path. AList.update path node) paths d) nodes []\<rparr>)"

definition prepare_save :: "hlinkdb \<Rightarrow> hlinkdb res" where
  "prepare_save db =
     (if hl_pending db then Inl (Exc ''save already in progress'')
      else if node_paths_of db \<noteq> [] then Inr (db\<lparr>hl_pending := True, hl_cleanup := Replace (node_paths_of db) # hl_cleanup db\<rparr>)
      else Inr (db\<lparr>hl_cleanup := Unlink # hl_cleanup db\<rparr>))"

definition commit_save :: "hlinkdb \<Rightarrow> node_dict option \<Rightarrow> (hlinkdb \<times> node_dict option) res" where
  "commit_save db file =
     (if hl_closed db then Inr (db, file)
      else if node_paths_of db \<noteq> [] \<and> \<not> hl_pending db then Inl (Exc ''no save prepared'')
      else Inr (db\<lparr>hl_closed := True, hl_pending := False, hl_cleanup := []\<rparr>, leave_cleanup False (hl_cleanup db) file))"

definition abort_save :: "hlinkdb \<Rightarrow> node_dict option \<Rightarrow> hlinkdb \<times> node_dict option" where
  "abort_save db file =
     (if hl_closed db then (db, file)
      else (db\<lparr>hl_closed := True, hl_pending := False, hl_cleanup := []\<rparr>, leave_cleanup True (hl_cleanup db) file))"

definition node_name :: "int \<Rightarrow> int \<Rightarrow> bytes" where
  "node_name dev ino = show_int dev @ '':'' @ show_int ino"

definition link_path :: "bytes \<Rightarrow> bytes \<Rightarrow> hlinkdb \<Rightarrow> hlinkdb" where
  "link_path path node db =
     (let link_paths = (case map_of (node_paths_of db) node of None \<Rightarrow> [] | Some ps \<Rightarrow> ps)
      in db\<lparr>path_node := AList.update path node (path_node db),
            node_paths_of := AList.update node
              (if link_paths \<noteq> [] \<and> path \<notin> set link_paths then link_paths @ [path] else [path]) (node_paths_of db)\<rparr>)"

definition add_path :: "bytes \<Rightarrow> int \<Rightarrow> int \<Rightarrow> hlinkdb \<Rightarrow> hlinkdb" where
  "add_path path dev ino db = link_path path (node_name dev ino) db"

definition del_node_path :: "bytes \<Rightarrow> bytes \<Rightarrow> hlinkdb \<Rightarrow> hlinkdb res" where
  "del_node_path node path db =
     (case map_of (node_paths_of db) node of
        None \<Rightarrow> Inl KeyError
      | Some link_paths \<Rightarrow>
          if path \<notin> set link_paths then Inl ValueError
          else let ps = remove1 path link_paths
               in Inr (db\<lparr>node_paths_of := (if ps = [] then AList.delete node (node_paths_of db)
                                            else AList.update node ps (node_paths_of db))\<rparr>))"

text \<open>The new device, an integer, is passed as the path, and the path as the inode, which \<open>%d\<close> refuses.\<close>

definition change_path :: "bytes \<Rightarrow> int \<Rightarrow> int \<Rightarrow> hlinkdb \<Rightarrow> py_error \<times> hlinkdb" where
  "change_path path new_dev new_ino db =
     (case map_of (path_node db) path of
        None \<Rightarrow> (TypeError, db)
      | Some prev_node \<Rightarrow> (case del_node_path prev_node path db of Inl e \<Rightarrow> (e, db) | Inr db' \<Rightarrow> (TypeError, db')))"

definition del_path :: "bytes \<Rightarrow> hlinkdb \<Rightarrow> hlinkdb res" where
  "del_path path db =
     (case map_of (path_node db) path of
        None \<Rightarrow> Inr db
      | Some node \<Rightarrow> res_bind (del_node_path node path db) (\<lambda>db'. Inr (db'\<lparr>path_node := AList.delete path (path_node db')\<rparr>)))"

definition node_paths :: "int \<Rightarrow> int \<Rightarrow> hlinkdb \<Rightarrow> bytes list res" where
  "node_paths dev ino db = (case map_of (node_paths_of db) (node_name dev ino) of None \<Rightarrow> Inl KeyError | Some ps \<Rightarrow> Inr ps)"

section \<open>Properties\<close>

lemma timespec_nsecs: "timespec_to_nsecs (nsecs_to_timespec ns) = ns"
  by (simp add: timespec_to_nsecs_def nsecs_to_timespec_def)

lemma timespec_range: "0 \<le> snd (nsecs_to_timespec ns)" "snd (nsecs_to_timespec ns) < 10 ^ 9"
  by (simp_all add: nsecs_to_timespec_def)

text \<open>A whole number of seconds before the epoch is printed one second too late: the second before the
  epoch as 0.\<close>

theorem negative_seconds_misprinted:
  "fstime_to_sec_bytes (- int (Suc k) * 10 ^ 9) = show_int (- int k)"
proof -
  have "nsecs_to_timespec (- int (Suc k) * 10 ^ 9) = (- int (Suc k), 0)"
    unfolding nsecs_to_timespec_def by (simp only: nonzero_mult_div_cancel_right mod_mult_self2_is_0) simp
  then show ?thesis by (simp add: fstime_to_sec_bytes_def)
qed

text \<open>The two dictionaries say the same: each path is in the list of its node and of no other.\<close>

definition listed :: "(bytes \<rightharpoonup> bytes list) \<Rightarrow> bytes \<Rightarrow> bytes list" where
  "listed d node = (case d node of None \<Rightarrow> [] | Some ps \<Rightarrow> ps)"

definition maps_ok :: "(bytes \<rightharpoonup> bytes list) \<Rightarrow> (bytes \<rightharpoonup> bytes) \<Rightarrow> bool" where
  "maps_ok d m \<longleftrightarrow> (\<forall>node. d node \<noteq> Some [] \<and> distinct (listed d node)) \<and>
     (\<forall>path node. m path = Some node \<longleftrightarrow> path \<in> set (listed d node))"

definition links_ok :: "hlinkdb \<Rightarrow> bool" where
  "links_ok db \<longleftrightarrow> maps_ok (map_of (node_paths_of db)) (map_of (path_node db))"

lemma listed_upd: "listed (d(node \<mapsto> ps)) n = (if n = node then ps else listed d n)" "listed (d(node := None)) n = (if n = node then [] else listed d n)"
  by (simp_all add: listed_def)

lemma dict_map_of: "map_of (AList.delete k d) = (map_of d)(k := None)" "map_of (AList.update k v d) = (map_of d)(k \<mapsto> v)"
  by (simp_all add: delete_conv' update_conv')

lemma maps_ok_new: "maps_ok d m \<Longrightarrow> m path = None \<Longrightarrow> path \<notin> set (listed d n)"
  unfolding maps_ok_def by (metis option.distinct(1))

lemma maps_ok_link:
  assumes "maps_ok d m" "m path = None"
  shows "maps_ok (d(node \<mapsto> listed d node @ [path])) (m(path \<mapsto> node))"
proof -
  note maps_ok_new [OF assms]
  then show ?thesis using assms(1) by (auto simp: maps_ok_def listed_upd)
qed

lemma maps_ok_unlink:
  assumes "maps_ok d m" "m path = Some node"
  shows "maps_ok (d(node := (if remove1 path (listed d node) = [] then None else Some (remove1 path (listed d node))))) (m(path := None))"
proof -
  let ?d = "d(node := (if remove1 path (listed d node) = [] then None else Some (remove1 path (listed d node))))"
  have l: "listed ?d n = (if n = node then remove1 path (listed d node) else listed d n)" for n by (simp add: listed_def)
  have dd: "distinct (listed d n)" "d n \<noteq> Some []" "m p = Some n \<longleftrightarrow> p \<in> set (listed d n)" for n p using assms(1) by (simp_all add: maps_ok_def)
  have "(m(path := None)) p = Some n \<longleftrightarrow> p \<in> set (listed ?d n)" for p n
    unfolding l using dd(1) [of node] dd(3) [of p n] assms(2) by (auto simp: set_remove1_eq)
  moreover have "?d n \<noteq> Some []" "distinct (listed ?d n)" for n
    using dd(1,2) by (auto simp: l)
  ultimately show ?thesis unfolding maps_ok_def by blast
qed

lemma links_ok_link:
  assumes ok: "links_ok db" and fresh: "map_of (path_node db) path = None"
  shows "links_ok (link_path path node db)"
proof -
  let ?d = "map_of (node_paths_of db)"
  have "path \<notin> set (listed ?d node)" using ok fresh by (simp add: links_ok_def maps_ok_new)
  then have "link_path path node db = db\<lparr>path_node := AList.update path node (path_node db),
      node_paths_of := AList.update node (listed ?d node @ [path]) (node_paths_of db)\<rparr>"
    by (auto simp: link_path_def Let_def listed_def split: option.splits)
  then show ?thesis using maps_ok_link [of ?d] ok fresh by (simp add: links_ok_def dict_map_of)
qed

lemma links_ok_del_path:
  assumes ok: "links_ok db"
  shows "\<exists>db'. del_path path db = Inr db' \<and> links_ok db' \<and> map_of (path_node db') = (map_of (path_node db))(path := None)"
proof (cases "map_of (path_node db) path")
  case None
  then show ?thesis using ok by (auto simp: del_path_def fun_upd_idem)
next
  case (Some node)
  let ?d = "map_of (node_paths_of db)" and ?ps = "listed (map_of (node_paths_of db)) node"
  have "path \<in> set ?ps" using ok Some by (simp add: links_ok_def maps_ok_def)
  moreover from this have n: "?d node = Some ?ps" by (cases "?d node") (simp_all add: listed_def)
  ultimately have r: "del_path path db = Inr (db\<lparr>node_paths_of := (if remove1 path ?ps = [] then AList.delete node (node_paths_of db)
      else AList.update node (remove1 path ?ps) (node_paths_of db)), path_node := AList.delete path (path_node db)\<rparr>)"
    using Some by (simp add: del_path_def del_node_path_def Let_def)
  have "maps_ok (map_of (if remove1 path ?ps = [] then AList.delete node (node_paths_of db) else AList.update node (remove1 path ?ps) (node_paths_of db)))
      (map_of (AList.delete path (path_node db)))"
    using maps_ok_unlink [of ?d "map_of (path_node db)" path node] ok Some by (simp add: links_ok_def dict_map_of split: if_splits)
  then show ?thesis unfolding r by (simp add: links_ok_def dict_map_of)
qed

text \<open>What the table is for: which node a path was last added to.\<close>

datatype link_op = Add bytes int int | Del bytes

fun run_links :: "link_op list \<Rightarrow> hlinkdb \<Rightarrow> hlinkdb res" where
  "run_links [] db = Inr db"
| "run_links (Add path dev ino # ops) db = run_links ops (add_path path dev ino db)"
| "run_links (Del path # ops) db = res_bind (del_path path db) (run_links ops)"

fun node_at :: "link_op list \<Rightarrow> (bytes \<rightharpoonup> bytes) \<Rightarrow> (bytes \<rightharpoonup> bytes)" where
  "node_at [] m = m"
| "node_at (Add path dev ino # ops) m = node_at ops (m(path \<mapsto> node_name dev ino))"
| "node_at (Del path # ops) m = node_at ops (m(path := None))"

text \<open>A path is added only when it is not in the table, as the code asks.\<close>

fun adds_new :: "link_op list \<Rightarrow> (bytes \<rightharpoonup> bytes) \<Rightarrow> bool" where
  "adds_new [] m \<longleftrightarrow> True"
| "adds_new (Add path dev ino # ops) m \<longleftrightarrow> m path = None \<and> adds_new ops (m(path \<mapsto> node_name dev ino))"
| "adds_new (Del path # ops) m \<longleftrightarrow> adds_new ops (m(path := None))"

lemma run_links_ok:
  assumes "links_ok db" "adds_new ops (map_of (path_node db))"
  shows "\<exists>db'. run_links ops db = Inr db' \<and> links_ok db' \<and> map_of (path_node db') = node_at ops (map_of (path_node db))"
  using assms
proof (induction ops arbitrary: db)
  case (Cons op ops)
  show ?case
  proof (cases op)
    case (Add path dev ino)
    have m: "map_of (path_node (add_path path dev ino db)) = (map_of (path_node db))(path \<mapsto> node_name dev ino)"
      by (simp add: add_path_def link_path_def dict_map_of Let_def)
    have "links_ok (add_path path dev ino db)" using Cons.prems links_ok_link by (simp add: Add add_path_def)
    then show ?thesis using Cons.IH [of "add_path path dev ino db", unfolded m] Cons.prems(2)
      unfolding Add run_links.simps node_at.simps adds_new.simps by blast
  next
    case (Del path)
    obtain db' where d: "del_path path db = Inr db'" "links_ok db'" and m: "map_of (path_node db') = (map_of (path_node db))(path := None)"
      using links_ok_del_path [OF Cons.prems(1)] by metis
    then show ?thesis using Cons.IH [of db', unfolded m] Cons.prems(2)
      unfolding Del run_links.simps node_at.simps adds_new.simps d(1) res_bind_simps by blast
  qed
qed simp

lemma node_paths_links:
  assumes "links_ok db"
  shows "case node_paths dev ino db of
      Inr ps \<Rightarrow> distinct ps \<and> set ps = {path. map_of (path_node db) path = Some (node_name dev ino)}
    | Inl e \<Rightarrow> e = KeyError \<and> {path. map_of (path_node db) path = Some (node_name dev ino)} = {}"
proof -
  have l: "map_of (path_node db) path = Some (node_name dev ino) \<longleftrightarrow> path \<in> set (listed (map_of (node_paths_of db)) (node_name dev ino))" for path
    using assms by (simp add: links_ok_def maps_ok_def)
  have "distinct (listed (map_of (node_paths_of db)) (node_name dev ino))" using assms by (simp add: links_ok_def maps_ok_def)
  then show ?thesis unfolding l by (cases "map_of (node_paths_of db) (node_name dev ino)") (simp_all add: node_paths_def listed_def)
qed

text \<open>C22: Whatever new paths are added to the table of hard links and whichever are deleted, the paths it gives for
  a file are those last added to its device and inode, each once; for a file with none the lookup raises.\<close>

theorem node_paths_follow_operations:
  assumes "adds_new ops Map.empty"
  shows "\<exists>db. run_links ops (HLinkDB None) = Inr db \<and>
     (case node_paths dev ino db of
        Inr ps \<Rightarrow> distinct ps \<and> set ps = {path. node_at ops Map.empty path = Some (node_name dev ino)}
      | Inl e \<Rightarrow> e = KeyError \<and> {path. node_at ops Map.empty path = Some (node_name dev ino)} = {})"
proof -
  have "links_ok (HLinkDB None)" by (simp add: HLinkDB_def links_ok_def maps_ok_def listed_def)
  moreover have "map_of (path_node (HLinkDB None)) = Map.empty" by (simp add: HLinkDB_def)
  ultimately obtain db where db: "run_links ops (HLinkDB None) = Inr db" "links_ok db" "map_of (path_node db) = node_at ops Map.empty"
    using run_links_ok [of "HLinkDB None" ops] assms by auto
  show ?thesis using db(1) node_paths_links [OF db(2), of dev ino] unfolding db(3) by blast
qed

theorem node_paths_follow_operations_witness:
  "\<exists>db. run_links [Add ''/a'' 1 2, Add ''/b'' 1 2, Del ''/a''] (HLinkDB None) = Inr db \<and>
     (case node_paths 1 2 db of
        Inr ps \<Rightarrow> distinct ps \<and> set ps = {path. node_at [Add ''/a'' 1 2, Add ''/b'' 1 2, Del ''/a''] Map.empty path = Some (node_name 1 2)}
      | Inl e \<Rightarrow> e = KeyError \<and> {path. node_at [Add ''/a'' 1 2, Add ''/b'' 1 2, Del ''/a''] Map.empty path = Some (node_name 1 2)} = {})"
  by (rule node_paths_follow_operations) simp

lemma change_path_raises:
  assumes "links_ok db"
  shows "fst (change_path path new_dev new_ino db) = TypeError"
proof (cases "map_of (path_node db) path")
  case (Some node)
  let ?ps = "listed (map_of (node_paths_of db)) node"
  have "path \<in> set ?ps" using assms Some by (simp add: links_ok_def maps_ok_def)
  moreover from this have "map_of (node_paths_of db) node = Some ?ps" by (cases "map_of (node_paths_of db) node") (simp_all add: listed_def)
  ultimately show ?thesis using Some by (simp add: change_path_def del_node_path_def Let_def)
qed (simp add: change_path_def)

text \<open>When the last path goes, a save that is prepared and then aborted deletes the table's file.\<close>

theorem aborted_save_deletes:
  "\<exists>db db'. del_path path (HLinkDB (Some [(node, [path])])) = Inr db \<and> prepare_save db = Inr db' \<and>
     snd (abort_save db' (Some [(node, [path])])) = None"
  by (simp add: HLinkDB_def del_path_def del_node_path_def prepare_save_def abort_save_def)

end
