(* ===== verification/Bup_Index.thy ===== *)
theory Bup_Index
  imports Stat_Links Helper_Paths
begin

text \<open>
  The index of the file system, \<open>bupindex\<close> (\<open>lib/bup/index.py\<close>): its entries and their records, the
  writer, which is given the paths in reverse order and lays out each directory's entries after those of
  its subdirectories, and the reader.  Which of the C types are signed is a parameter.
\<close>

section \<open>Records\<close>

text \<open>Fields of \<open>struct\<close>'s formats: unsigned and signed integers of a width in bytes, and byte strings.\<close>

datatype struct_field = FU nat | FS nat | FB nat

datatype field_value = VI int | VB bytes

fun field_width :: "struct_field \<Rightarrow> nat" where
  "field_width (FU k) = k"
| "field_width (FS k) = k"
| "field_width (FB k) = k"

fun pack_field :: "struct_field \<Rightarrow> field_value \<Rightarrow> bytes res" where
  "pack_field (FU k) (VI n) = (if 0 \<le> n \<and> n < 256 ^ k then Inr (be_bytes k (nat n)) else Inl StructError)"
| "pack_field (FS k) (VI n) =
     (if - (256 ^ k div 2) \<le> n \<and> n < 256 ^ k div 2 then Inr (be_bytes k (nat (n mod 256 ^ k))) else Inl StructError)"
| "pack_field (FB k) (VB bs) = Inr (take k bs @ replicate (k - length bs) CHR 0x00)"
| "pack_field _ _ = Inl StructError"

fun unpack_field :: "struct_field \<Rightarrow> bytes \<Rightarrow> field_value" where
  "unpack_field (FU k) bs = VI (int (be_val bs))"
| "unpack_field (FS k) bs = VI (if int (be_val bs) < 256 ^ k div 2 then int (be_val bs) else int (be_val bs) - 256 ^ k)"
| "unpack_field (FB k) bs = VB bs"

fun struct_pack :: "struct_field list \<Rightarrow> field_value list \<Rightarrow> bytes res" where
  "struct_pack [] [] = Inr []"
| "struct_pack (f # fs) (v # vs) = res_bind (pack_field f v) (\<lambda>b. res_bind (struct_pack fs vs) (\<lambda>bs. Inr (b @ bs)))"
| "struct_pack _ _ = Inl StructError"

fun unpack_fields :: "struct_field list \<Rightarrow> bytes \<Rightarrow> field_value list" where
  "unpack_fields [] bs = []"
| "unpack_fields (f # fs) bs = unpack_field f (take (field_width f) bs) # unpack_fields fs (drop (field_width f) bs)"

definition calcsize :: "struct_field list \<Rightarrow> nat" where
  "calcsize fs = sum_list (map field_width fs)"

definition struct_unpack :: "struct_field list \<Rightarrow> bytes \<Rightarrow> field_value list res" where
  "struct_unpack fs bs = (if length bs = calcsize fs then Inr (unpack_fields fs bs) else Inl StructError)"

section \<open>Formats\<close>

record c_types =
  dev_signed :: bool
  nlink_signed :: bool
  mode_signed :: bool

definition INDEX_SIG :: bytes where
  "INDEX_SIG = ''BUPI'' @ [CHR 0x00, CHR 0x00, CHR 0x00, CHR 0x08]"

definition INDEX_SIG_V7 :: bytes where
  "INDEX_SIG_V7 = ''BUPI'' @ [CHR 0x00, CHR 0x00, CHR 0x00, CHR 0x07]"

definition signed_or :: "bool \<Rightarrow> nat \<Rightarrow> struct_field" where
  "signed_or is_neg k = (if is_neg then FS k else FU k)"

definition entry_format :: "c_types \<Rightarrow> struct_field list" where
  "entry_format ct =
     [signed_or (dev_signed ct) 8, FU 8, signed_or (nlink_signed ct) 8, FS 8, FU 8, FS 8, FU 8, FS 8, FU 8, FU 8,
      signed_or (mode_signed ct) 4, signed_or (mode_signed ct) 4, FB 20, FU 2, FU 8, FU 4, FU 8]"

definition entry_format_v7 :: "struct_field list" where
  "entry_format_v7 = [FU 8, FU 8, FU 8, FS 8, FU 8, FS 8, FU 8, FS 8, FU 8, FU 8, FU 4, FU 4, FB 20, FU 2, FU 8, FU 4, FU 8]"

text \<open>The format as text: the signature of the entries in the file's header.\<close>

fun field_letter :: "struct_field \<Rightarrow> bytes" where
  "field_letter (FU k) = (if k = 8 then ''Q'' else if k = 4 then ''I'' else ''H'')"
| "field_letter (FS k) = (if k = 8 then ''q'' else if k = 4 then ''i'' else ''h'')"
| "field_letter (FB k) = show_base 10 k @ ''s''"

definition entry_sig :: "c_types \<Rightarrow> bytes" where
  "entry_sig ct = ''!'' @ concat (map field_letter (entry_format ct))"

definition ENTLEN :: "c_types \<Rightarrow> nat" where
  "ENTLEN ct = calcsize (entry_format ct)"

definition FOOTLEN :: nat where
  "FOOTLEN = calcsize [FU 8]"

definition EMPTY_SHA :: bytes where "EMPTY_SHA = replicate 20 CHR 0x00"

definition IX_EXISTS :: int where "IX_EXISTS = 0x8000"
definition IX_HASHVALID :: int where "IX_HASHVALID = 0x4000"
definition IX_SHAMISSING :: int where "IX_SHAMISSING = 0x2000"

definition header_len :: "c_types \<Rightarrow> bytes \<Rightarrow> nat res" where
  "header_len ct sig =
     (if sig = INDEX_SIG then Inr (length INDEX_SIG + 1 + length (entry_sig ct))
      else if sig = INDEX_SIG_V7 then Inr (length INDEX_SIG_V7)
      else Inl (SysExit 2))"

section \<open>Entries\<close>

record entry =
  ix_basename :: "bytes option"
  ix_name :: "bytes option"
  ix_tmax :: "int option"
  ix_dev :: int
  ix_ino :: int
  ix_nlink :: int
  ix_ctime :: int
  ix_mtime :: int
  ix_atime :: int
  ix_size :: int
  ix_mode :: int
  ix_gitmode :: int
  ix_sha :: bytes
  ix_flags :: int
  ix_children_ofs :: int
  ix_children_n :: int
  ix_meta_ofs :: int

definition packed :: "c_types \<Rightarrow> entry \<Rightarrow> bytes res" where
  "packed ct e =
     (let (ctime_s, ctime_ns) = nsecs_to_timespec (ix_ctime e);
          (mtime_s, mtime_ns) = nsecs_to_timespec (ix_mtime e);
          (atime_s, atime_ns) = nsecs_to_timespec (ix_atime e)
      in struct_pack (entry_format ct)
           [VI (ix_dev e), VI (ix_ino e), VI (ix_nlink e), VI ctime_s, VI ctime_ns, VI mtime_s, VI mtime_ns, VI atime_s, VI atime_ns,
            VI (ix_size e), VI (ix_mode e), VI (ix_gitmode e), VB (ix_sha e), VI (ix_flags e),
            VI (ix_children_ofs e), VI (ix_children_n e), VI (ix_meta_ofs e)])"

text \<open>What \<open>stat\<close> says of a file.\<close>

record xstat =
  st_dev :: int
  st_ino :: int
  st_nlink :: int
  st_ctime_ns :: int
  st_mtime_ns :: int
  st_atime_ns :: int
  st_size :: int
  st_mode :: int

definition stale :: "entry \<Rightarrow> xstat \<Rightarrow> bool \<Rightarrow> bool" where
  "stale e st check_device \<longleftrightarrow>
     ix_size e \<noteq> st_size st \<or> ix_mtime e \<noteq> st_mtime_ns st \<or> ix_sha e = EMPTY_SHA \<or> ix_gitmode e = 0 \<or>
     ix_ctime e \<noteq> st_ctime_ns st \<or> ix_ino e \<noteq> st_ino st \<or> ix_nlink e \<noteq> st_nlink st \<or>
     ix_flags e AND IX_EXISTS = 0 \<or> (check_device \<and> ix_dev e \<noteq> st_dev st)"

definition fixup_time :: "int option \<Rightarrow> int \<Rightarrow> int" where
  "fixup_time tmax t = (case tmax of Some m \<Rightarrow> if t > m then m else t | None \<Rightarrow> t)"

definition fixup :: "entry \<Rightarrow> entry" where
  "fixup e = e\<lparr>ix_mtime := fixup_time (ix_tmax e) (ix_mtime e), ix_ctime := fixup_time (ix_tmax e) (ix_ctime e)\<rparr>"

definition update_from_stat :: "entry \<Rightarrow> xstat \<Rightarrow> int \<Rightarrow> entry" where
  "update_from_stat e st meta_ofs = fixup
     (e\<lparr>ix_dev := st_dev st, ix_ino := st_ino st, ix_nlink := st_nlink st, ix_ctime := st_ctime_ns st, ix_mtime := st_mtime_ns st,
        ix_atime := st_atime_ns st, ix_size := st_size st, ix_mode := st_mode st, ix_flags := ix_flags e OR IX_EXISTS,
        ix_meta_ofs := meta_ofs\<rparr>)"

definition is_valid :: "entry \<Rightarrow> bool" where
  "is_valid e \<longleftrightarrow> (let f = IX_HASHVALID OR IX_EXISTS in ix_flags e AND f = f)"

definition invalidate :: "entry \<Rightarrow> entry" where
  "invalidate e = e\<lparr>ix_flags := ix_flags e AND NOT IX_HASHVALID\<rparr>"

definition validate :: "int \<Rightarrow> bytes \<Rightarrow> entry \<Rightarrow> entry res" where
  "validate gitmode sha e =
     res_bind (py_assert (sha \<noteq> [])) (\<lambda>_.
     res_bind (py_assert (gitmode \<noteq> 0)) (\<lambda>_.
     Inr (e\<lparr>ix_gitmode := gitmode, ix_sha := sha, ix_flags := ix_flags e OR (IX_HASHVALID OR IX_EXISTS)\<rparr>)))"

definition is_deleted :: "entry \<Rightarrow> bool" where "is_deleted e \<longleftrightarrow> ix_flags e AND IX_EXISTS = 0"

definition entry_exists :: "entry \<Rightarrow> bool" where "entry_exists e \<longleftrightarrow> \<not> is_deleted e"

definition sha_missing :: "entry \<Rightarrow> bool" where
  "sha_missing e \<longleftrightarrow> ix_flags e AND IX_SHAMISSING \<noteq> 0 \<or> ix_flags e AND IX_HASHVALID = 0"

definition set_deleted :: "entry \<Rightarrow> entry" where
  "set_deleted e = (if ix_flags e AND IX_EXISTS \<noteq> 0 then e\<lparr>ix_flags := ix_flags e AND NOT (IX_EXISTS OR IX_HASHVALID)\<rparr> else e)"

definition is_fake :: "entry \<Rightarrow> bool" where "is_fake e \<longleftrightarrow> ix_ctime e = 0"
definition is_real :: "entry \<Rightarrow> bool" where "is_real e \<longleftrightarrow> \<not> is_fake e"

definition bytescmp :: "bytes \<Rightarrow> bytes \<Rightarrow> int" where
  "bytescmp a b = (if a < b then -1 else if b < a then 1 else 0)"

text \<open>The order of entries: later names first, then those not valid, then those with a time.\<close>

definition entry_cmp :: "entry \<Rightarrow> entry \<Rightarrow> int res" where
  "entry_cmp e other =
     (case (ix_name e, ix_name other) of
        (Some n, Some n') \<Rightarrow>
          Inr (let bc = bytescmp n' n; vc = of_bool (is_valid e) - of_bool (is_valid other); fc = of_bool (is_fake e) - of_bool (is_fake other)
               in if bc \<noteq> 0 then bc else if vc \<noteq> 0 then vc else fc)
      | _ \<Rightarrow> Inl TypeError)"

definition entry_write :: "c_types \<Rightarrow> entry \<Rightarrow> bytes \<Rightarrow> bytes res" where
  "entry_write ct e f =
     (case ix_basename e of
        None \<Rightarrow> Inl TypeError
      | Some b \<Rightarrow> res_bind (packed ct e) (\<lambda>p. Inr (f @ b @ [CHR 0x00] @ p)))"

definition BlankNewEntry :: "bytes option \<Rightarrow> int \<Rightarrow> int option \<Rightarrow> entry" where
  "BlankNewEntry bname meta_ofs tmax = fixup
     \<lparr>ix_basename = bname, ix_name = bname, ix_tmax = tmax, ix_dev = 0, ix_ino = 0, ix_nlink = 0, ix_ctime = 0, ix_mtime = 0,
      ix_atime = 0, ix_size = 0, ix_mode = 0, ix_gitmode = 0, ix_sha = EMPTY_SHA, ix_flags = 0, ix_children_ofs = 0,
      ix_children_n = 0, ix_meta_ofs = meta_ofs\<rparr>"

section \<open>The metadata file\<close>

text \<open>\<open>MetaStoreWriter\<close>: offsets of encoded metadata in the file, which is only appended to.\<close>

record metastore =
  ms_offsets :: "bytes \<rightharpoonup> nat"
  ms_file :: bytes

text \<open>Reading the file until it ends; each item read must take some bytes for this to end.\<close>

fun scan_metas :: "nat \<Rightarrow> (bytes \<Rightarrow> ('m option \<times> bytes) res) \<Rightarrow> ('m \<Rightarrow> bytes) \<Rightarrow> bytes \<Rightarrow> nat \<Rightarrow> (bytes \<rightharpoonup> nat) \<Rightarrow> (bytes \<rightharpoonup> nat) res" where
  "scan_metas 0 read encode f ofs offsets = Inl UndefinedBehaviour"
| "scan_metas (Suc fuel) read encode f ofs offsets =
     (case read f of
        Inl EOFError \<Rightarrow> Inr offsets
      | Inl e \<Rightarrow> Inl e
      | Inr (None, f') \<Rightarrow> Inr offsets
      | Inr (Some m, f') \<Rightarrow> scan_metas fuel read encode f' (ofs + (length f - length f')) (offsets(encode m \<mapsto> ofs)))"

definition metastore_open :: "(bytes \<Rightarrow> ('m option \<times> bytes) res) \<Rightarrow> ('m \<Rightarrow> bytes) \<Rightarrow> bytes \<Rightarrow> metastore res" where
  "metastore_open read encode file =
     res_bind (scan_metas (length file + 1) read encode file 0 Map.empty) (\<lambda>offsets.
     Inr \<lparr>ms_offsets = offsets, ms_file = file\<rparr>)"

definition meta_store :: "bytes \<Rightarrow> metastore \<Rightarrow> nat \<times> metastore" where
  "meta_store meta_encoded ms =
     (case ms_offsets ms meta_encoded of
        Some (Suc ofs) \<Rightarrow> (Suc ofs, ms)
      | _ \<Rightarrow> (length (ms_file ms),
             \<lparr>ms_offsets = (ms_offsets ms)(meta_encoded \<mapsto> length (ms_file ms)), ms_file = ms_file ms @ meta_encoded\<rparr>))"

definition metadata_at :: "(bytes \<Rightarrow> 'm res) \<Rightarrow> bytes \<Rightarrow> nat \<Rightarrow> 'm res" where
  "metadata_at read file ofs = read (drop ofs file)"

section \<open>Levels\<close>

text \<open>
  The levels of the writer, from the current one up to the root: the entries of a directory that is not
  written yet.  The parent of a level is the next in the list.
\<close>

record level =
  lv_ename :: "bytes list"
  lv_list :: "entry list"
  lv_count :: int

definition new_level :: "bytes list \<Rightarrow> level" where
  "new_level ename = \<lparr>lv_ename = ename, lv_list = [], lv_count = 0\<rparr>"

fun entries_write :: "c_types \<Rightarrow> entry list \<Rightarrow> bytes \<Rightarrow> bytes res" where
  "entries_write ct [] f = Inr f"
| "entries_write ct (e # es) f = res_bind (entry_write ct e f) (entries_write ct es)"

text \<open>The entries go to the file; the parent is given the count.\<close>

definition level_write :: "c_types \<Rightarrow> level \<Rightarrow> level list \<Rightarrow> bytes \<Rightarrow> ((nat \<times> nat) \<times> level list \<times> bytes) res" where
  "level_write ct lv parents f =
     res_bind (entries_write ct (lv_list lv) f) (\<lambda>f'.
     Inr ((length f, length (lv_list lv)),
          (case parents of
             [] \<Rightarrow> []
           | p # ps \<Rightarrow> (if lv_list lv = [] then p else p\<lparr>lv_count := lv_count p + (int (length (lv_list lv)) + lv_count lv)\<rparr>) # ps),
          f'))"

definition put_entry :: "entry \<Rightarrow> nat \<times> nat \<Rightarrow> level \<Rightarrow> level" where
  "put_entry n children p = p\<lparr>lv_list := lv_list p @ [n\<lparr>ix_children_ofs := int (fst children), ix_children_n := int (snd children)\<rparr>]\<rparr>"

text \<open>Back up the tree, to a level on the way to the name; each directory left gets an entry.\<close>

definition dir_entry :: "bytes list \<Rightarrow> int \<Rightarrow> int option \<Rightarrow> entry" where
  "dir_entry ename meta_ofs tmax = (BlankNewEntry (Some (last ename)) meta_ofs tmax)\<lparr>ix_flags := 0 OR IX_EXISTS\<rparr>"

fun close_up :: "c_types \<Rightarrow> bytes list \<Rightarrow> int \<Rightarrow> int option \<Rightarrow> level list \<Rightarrow> bytes \<Rightarrow> (level list \<times> bytes) res" where
  "close_up ct ename meta_ofs tmax [] f = Inl (Exc ''AttributeError'')"
| "close_up ct ename meta_ofs tmax (lv # parents) f =
     (if take (length (lv_ename lv)) ename = lv_ename lv then Inr (lv # parents, f)
      else res_bind (level_write ct lv parents f) (\<lambda>(children, parents', f').
           case parents of
             [] \<Rightarrow> Inl (Exc ''AttributeError'')
           | p # ps \<Rightarrow> close_up ct ename meta_ofs tmax (put_entry (dir_entry (lv_ename lv) meta_ofs tmax) children (hd parents') # ps) f'))"

definition open_down :: "bytes list \<Rightarrow> level list \<Rightarrow> level list" where
  "open_down ename levels =
     rev (map (\<lambda>i. new_level (take i ename)) [length (lv_ename (hd levels)) + 1 ..< length ename + 1]) @ levels"

text \<open>\<open>_golevel\<close> gives the level it was at, the levels above it, and the file.\<close>

definition golevel ::
  "c_types \<Rightarrow> bytes list \<Rightarrow> entry option \<Rightarrow> int \<Rightarrow> int option \<Rightarrow> level list \<Rightarrow> bytes \<Rightarrow> (level \<times> level list \<times> bytes) res" where
  "golevel ct ename newentry meta_ofs tmax levels f =
     res_bind (py_assert (levels \<noteq> [])) (\<lambda>_.
     res_bind (close_up ct ename meta_ofs tmax levels f) (\<lambda>(levels1, f1).
     let levels2 = open_down ename levels1
     in res_bind (py_assert (ename = lv_ename (hd levels2))) (\<lambda>_.
        let n = (case newentry of
                   Some e \<Rightarrow> e
                 | None \<Rightarrow> BlankNewEntry (if ename = [] \<or> last ename = [] then None else Some (last ename)) meta_ofs tmax)
        in res_bind (level_write ct (hd levels2) (tl levels2) f1) (\<lambda>(children, parents, f2).
           Inr (hd levels2, (case parents of [] \<Rightarrow> [] | p # ps \<Rightarrow> put_entry n children p # ps), f2)))))"

section \<open>The writer\<close>

definition pathsplit :: "bytes \<Rightarrow> bytes list" where
  "pathsplit p =
     (let l = split_on CHR ''/'' p; l' = map (\<lambda>i. i @ ''/'') (butlast l) @ [last l]
      in if last l' = [] then butlast l' else l')"

record index_writer =
  iw_levels :: "level list"
  iw_f :: bytes
  iw_count :: int
  iw_lastfile :: "bytes list option"
  iw_metastore :: metastore
  iw_tmax :: "int option"

definition index_header :: "c_types \<Rightarrow> bytes" where
  "index_header ct = INDEX_SIG @ [char_of (length (entry_sig ct))] @ entry_sig ct"

definition index_writer_new :: "c_types \<Rightarrow> metastore \<Rightarrow> int option \<Rightarrow> index_writer" where
  "index_writer_new ct ms tmax =
     \<lparr>iw_levels = [new_level []], iw_f = index_header ct, iw_count = 0, iw_lastfile = None, iw_metastore = ms, iw_tmax = tmax\<rparr>"

text \<open>The encoded empty metadata is a parameter.  A name out of order is reported with a message that cannot be built.\<close>

definition writer_go :: "c_types \<Rightarrow> bytes \<Rightarrow> bytes list \<Rightarrow> entry option \<Rightarrow> index_writer \<Rightarrow> (level \<times> index_writer) res" where
  "writer_go ct empty_meta ename newentry w =
     res_bind (py_assert (iw_levels w \<noteq> [])) (\<lambda>_.
     let (meta_ofs, ms) = meta_store empty_meta (iw_metastore w)
     in res_bind (golevel ct ename newentry (int meta_ofs) (iw_tmax w) (iw_levels w) (iw_f w)) (\<lambda>(lv, levels, f).
        Inr (lv, w\<lparr>iw_levels := levels, iw_f := f, iw_metastore := ms\<rparr>)))"

definition writer_add_entry :: "c_types \<Rightarrow> bytes \<Rightarrow> bytes list \<Rightarrow> entry \<Rightarrow> index_writer \<Rightarrow> index_writer res" where
  "writer_add_entry ct empty_meta ename e w =
     (case iw_lastfile w of
        Some last_name \<Rightarrow>
          if last_name \<noteq> [] \<and> last_name \<le> ename then Inl TypeError
          else res_bind (writer_go ct empty_meta ename (Some e) (w\<lparr>iw_lastfile := Some ename\<rparr>)) (\<lambda>(_, w'). Inr w')
      | None \<Rightarrow> res_bind (writer_go ct empty_meta ename (Some e) (w\<lparr>iw_lastfile := Some ename\<rparr>)) (\<lambda>(_, w'). Inr w'))"

definition NewEntry :: "bytes \<Rightarrow> bytes \<Rightarrow> int option \<Rightarrow> xstat \<Rightarrow> int \<Rightarrow> bytes \<Rightarrow> int \<Rightarrow> int \<Rightarrow> entry" where
  "NewEntry bname name tmax st gitmode sha flags meta_ofs = fixup
     \<lparr>ix_basename = Some bname, ix_name = Some name, ix_tmax = tmax, ix_dev = st_dev st, ix_ino = st_ino st, ix_nlink = st_nlink st,
      ix_ctime = st_ctime_ns st, ix_mtime = st_mtime_ns st, ix_atime = st_atime_ns st, ix_size = st_size st, ix_mode = st_mode st,
      ix_gitmode = gitmode, ix_sha = sha, ix_flags = flags, ix_children_ofs = 0, ix_children_n = 0, ix_meta_ofs = meta_ofs\<rparr>"

definition writer_add ::
  "c_types \<Rightarrow> bytes \<Rightarrow> bytes \<Rightarrow> xstat option \<Rightarrow> int \<Rightarrow> (bytes \<Rightarrow> int \<times> bytes) option \<Rightarrow> index_writer \<Rightarrow> index_writer res" where
  "writer_add ct empty_meta name st meta_ofs hashgen w =
     (let ename = pathsplit name
      in if ename = [] then Inl IndexError
         else
           let (flags, gitmode, sha) = (case hashgen of None \<Rightarrow> (IX_EXISTS, 0, EMPTY_SHA) | Some g \<Rightarrow> (IX_EXISTS OR IX_HASHVALID, g name))
           in case st of
                Some s \<Rightarrow>
                  res_bind (py_assert (S_ISDIR (st_mode s) = suffix ''/'' name)) (\<lambda>_.
                  writer_add_entry ct empty_meta ename (NewEntry (last ename) name (iw_tmax w) s gitmode sha flags meta_ofs) w)
              | None \<Rightarrow>
                  res_bind (py_assert (suffix ''/'' name)) (\<lambda>_.
                  let (ofs, ms) = meta_store empty_meta (iw_metastore w);
                      e = (BlankNewEntry (Some (last ename)) (int ofs) (iw_tmax w))\<lparr>ix_gitmode := gitmode, ix_sha := sha, ix_flags := flags\<rparr>
                  in writer_add_entry ct empty_meta ename e (w\<lparr>iw_metastore := ms\<rparr>)))"

definition writer_add_ixentry :: "c_types \<Rightarrow> bytes \<Rightarrow> entry \<Rightarrow> index_writer \<Rightarrow> index_writer res" where
  "writer_add_ixentry ct empty_meta e w =
     (case ix_name e of
        None \<Rightarrow> Inl (Exc ''AttributeError'')
      | Some name \<Rightarrow> writer_add_entry ct empty_meta (pathsplit name) (e\<lparr>ix_children_ofs := 0, ix_children_n := 0\<rparr>) w)"

definition writer_flush :: "c_types \<Rightarrow> bytes \<Rightarrow> index_writer \<Rightarrow> index_writer res" where
  "writer_flush ct empty_meta w =
     (if iw_levels w = [] then Inr w
      else res_bind (writer_go ct empty_meta [] None w) (\<lambda>(root, w').
           let count = (if lv_count root \<noteq> 0 then lv_count root + 1 else 0)
           in res_bind (struct_pack [FU 8] [VI count]) (\<lambda>foot.
              res_bind (py_assert (iw_levels w' = [])) (\<lambda>_.
              Inr (w'\<lparr>iw_f := iw_f w' @ foot, iw_count := count\<rparr>)))))"

text \<open>Closing puts the file in place, unless it is aborted.\<close>

definition index_close :: "c_types \<Rightarrow> bytes \<Rightarrow> bool \<Rightarrow> index_writer \<Rightarrow> bytes option \<Rightarrow> bytes option res" where
  "index_close ct empty_meta abort w file =
     (if abort then Inr file else res_bind (writer_flush ct empty_meta w) (\<lambda>w'. Inr (Some (iw_f w'))))"

section \<open>The reader\<close>

text \<open>An entry of the file, with the place of its record, and those of its parents behind it.\<close>

type_synonym existing = "(entry \<times> nat) list"

fun int_of_value :: "field_value \<Rightarrow> int" where
  "int_of_value (VI n) = n"
| "int_of_value (VB bs) = 0"

fun bytes_of_value :: "field_value \<Rightarrow> bytes" where
  "bytes_of_value (VB bs) = bs"
| "bytes_of_value (VI n) = []"

definition entry_of_values :: "bytes \<Rightarrow> bytes \<Rightarrow> field_value list \<Rightarrow> entry" where
  "entry_of_values bname name vs =
     (let i = (\<lambda>k. int_of_value (vs ! k))
      in \<lparr>ix_basename = Some bname, ix_name = Some name, ix_tmax = None, ix_dev = i 0, ix_ino = i 1, ix_nlink = i 2,
          ix_ctime = timespec_to_nsecs (i 3, i 4), ix_mtime = timespec_to_nsecs (i 5, i 6), ix_atime = timespec_to_nsecs (i 7, i 8),
          ix_size = i 9, ix_mode = i 10, ix_gitmode = i 11, ix_sha = bytes_of_value (vs ! 12), ix_flags = i 13,
          ix_children_ofs = i 14, ix_children_n = i 15, ix_meta_ofs = i 16\<rparr>)"

definition existing_entry :: "c_types \<Rightarrow> bytes \<Rightarrow> bytes \<Rightarrow> bytes \<Rightarrow> nat \<Rightarrow> entry res" where
  "existing_entry ct bname name m ofs =
     res_bind (struct_unpack (entry_format ct) (take (ENTLEN ct) (drop ofs m))) (\<lambda>vs. Inr (entry_of_values bname name vs))"

text \<open>\<open>repack\<close>: the record is written again, and with an entry that is not valid its parents become so too.\<close>

fun repack :: "c_types \<Rightarrow> existing \<Rightarrow> bytes \<Rightarrow> (existing \<times> bytes) res" where
  "repack ct [] m = Inr ([], m)"
| "repack ct [(e, ofs)] m = res_bind (packed ct e) (\<lambda>p. Inr ([(e, ofs)], take ofs m @ p @ drop (ofs + ENTLEN ct) m))"
| "repack ct ((e, ofs) # (pe, pofs) # ps) m =
     res_bind (packed ct e) (\<lambda>p.
     let m' = take ofs m @ p @ drop (ofs + ENTLEN ct) m
     in if is_valid e then Inr ((e, ofs) # (pe, pofs) # ps, m')
        else res_bind (repack ct ((invalidate pe, pofs) # ps) m') (\<lambda>(ps', m''). Inr ((e, ofs) # ps', m'')))"

definition set_sha_missing :: "c_types \<Rightarrow> bool \<Rightarrow> existing \<Rightarrow> bytes \<Rightarrow> (existing \<times> bytes) res" where
  "set_sha_missing ct val h m =
     (case h of
        [] \<Rightarrow> Inr ([], m)
      | (e, ofs) # ps \<Rightarrow>
          if val \<noteq> sha_missing e
          then repack ct ((e\<lparr>ix_flags := (ix_flags e AND NOT IX_SHAMISSING) OR (if val then IX_SHAMISSING else 0)\<rparr>, ofs) # ps) m
          else Inr (h, m))"

definition unset_sha_missing :: "c_types \<Rightarrow> existing \<Rightarrow> bytes \<Rightarrow> (existing \<times> bytes) res" where
  "unset_sha_missing ct h m =
     (case h of
        [] \<Rightarrow> Inr ([], m)
      | (e, ofs) # ps \<Rightarrow>
          if ix_flags e AND IX_SHAMISSING \<noteq> 0 then repack ct ((e\<lparr>ix_flags := ix_flags e AND NOT IX_SHAMISSING\<rparr>, ofs) # ps) m
          else Inr (h, m))"

text \<open>One generator after another.\<close>

definition then_yield :: "'a yields \<Rightarrow> 'a yields \<Rightarrow> 'a yields" where
  "then_yield a b = (if snd a = None then (fst a @ fst b, snd b) else a)"

text \<open>
  Iteration goes into a child on the way to the name, or below it, and yields what is at the name or below; the
  empty name is every name.  The fuel bounds the depth.
\<close>

definition goes_into :: "bytes \<Rightarrow> bytes \<Rightarrow> bool" where
  "goes_into name child \<longleftrightarrow>
     (let dname = slashappend name in dname = [] \<or> prefix dname child \<or> suffix ''/'' child \<and> prefix child dname)"

definition is_wanted :: "bytes \<Rightarrow> bytes \<Rightarrow> bool" where
  "is_wanted name child \<longleftrightarrow> name = [] \<or> child = name \<or> prefix (slashappend name) child"

definition uint_max :: int where "uint_max = 2 ^ 32 - 1"

definition check_children :: "bytes \<Rightarrow> entry \<Rightarrow> 'a yields \<Rightarrow> 'a yields" where
  "check_children m e rest = (if ix_children_ofs e \<le> int (length m) \<and> ix_children_n e \<le> uint_max then rest else ([], Some AssertionError))"

fun children_iter :: "c_types \<Rightarrow> bytes \<Rightarrow> bytes \<Rightarrow> (entry \<Rightarrow> bool) \<Rightarrow> nat \<Rightarrow> nat \<Rightarrow> nat \<Rightarrow> existing \<Rightarrow> existing yields" where
  "children_iter ct m name wantrecurse fuel 0 ofs h = ([], None)"
| "children_iter ct m name wantrecurse 0 (Suc n) ofs h = ([], Some (Exc ''RecursionError''))"
| "children_iter ct m name wantrecurse (Suc fuel) (Suc n) ofs h =
     (case find_from CHR 0x00 m ofs of
        None \<Rightarrow> ([], Some AssertionError)
      | Some eon \<Rightarrow>
          if eon \<le> ofs then ([], Some AssertionError)
          else
            let bname = take (eon - ofs) (drop ofs m); cname = the (ix_name (fst (hd h))) @ bname
            in case existing_entry ct bname cname m (eon + 1) of
                 Inl e \<Rightarrow> ([], Some e)
               | Inr child \<Rightarrow>
                   then_yield
                     (if goes_into name cname \<and> wantrecurse child
                      then check_children m child
                        (children_iter ct m name wantrecurse fuel (nat (ix_children_n child)) (nat (ix_children_ofs child)) ((child, eon + 1) # h))
                      else ([], None))
                     (then_yield (if is_wanted name cname then [(child, eon + 1) # h] else [], None)
                       (children_iter ct m name wantrecurse (Suc fuel) n (eon + 1 + ENTLEN ct) h)))"

definition entry_iter :: "c_types \<Rightarrow> bytes \<Rightarrow> bytes \<Rightarrow> (entry \<Rightarrow> bool) \<Rightarrow> existing \<Rightarrow> existing yields" where
  "entry_iter ct m name wantrecurse h =
     (let e = fst (hd h)
      in check_children m e (children_iter ct m name wantrecurse (length m) (nat (ix_children_n e)) (nat (ix_children_ofs e)) h))"

record index_reader =
  ir_m :: bytes
  ir_entries_start :: nat
  ir_count :: int
  ir_writable :: bool

definition reader_new :: "c_types \<Rightarrow> bytes option \<Rightarrow> index_reader res" where
  "reader_new ct file =
     (case file of
        None \<Rightarrow> res_bind (header_len ct INDEX_SIG) (\<lambda>start. Inr \<lparr>ir_m = [], ir_entries_start = start, ir_count = 0, ir_writable = False\<rparr>)
      | Some f \<Rightarrow>
          let header = take (length INDEX_SIG) f; r = drop (length INDEX_SIG) f
          in res_bind
               (if header = INDEX_SIG_V7 \<and> entry_format ct = entry_format_v7 then Inr ()
                else if header = INDEX_SIG then
                  (case r of
                     [] \<Rightarrow> Inl TypeError
                   | c # r' \<Rightarrow>
                       let sig = take (of_char c) r'
                       in if list_ex (\<lambda>c. (of_char c :: nat) \<ge> 128) sig then Inl ValueError
                          else if sig \<noteq> entry_sig ct then Inl (SysExit 2) else Inr ())
                else Inl (SysExit 2)) (\<lambda>_.
             res_bind (header_len ct header) (\<lambda>start.
             res_bind (struct_unpack [FU 8] (drop (length f - FOOTLEN) f)) (\<lambda>vs.
             Inr \<lparr>ir_m = f, ir_entries_start = start, ir_count = int_of_value (vs ! 0), ir_writable = True\<rparr>))))"

definition reader_iter :: "c_types \<Rightarrow> bytes \<Rightarrow> (entry \<Rightarrow> bool) \<Rightarrow> index_reader \<Rightarrow> existing yields" where
  "reader_iter ct name wantrecurse r =
     (if length (ir_m r) > ir_entries_start r + ENTLEN ct then
        let ofs = length (ir_m r) - FOOTLEN - ENTLEN ct
        in case existing_entry ct ''/'' ''/'' (ir_m r) ofs of
             Inl e \<Rightarrow> ([], Some e)
           | Inr root \<Rightarrow>
               then_yield (entry_iter ct (ir_m r) name wantrecurse [(root, ofs)])
                 (if slashappend name = [] \<or> slashappend name = ''/'' then [[(root, ofs)]] else [], None)
      else ([], None))"

definition reader_find :: "c_types \<Rightarrow> bytes \<Rightarrow> index_reader \<Rightarrow> existing option res" where
  "reader_find ct name r =
     (let g = reader_iter ct name (\<lambda>_. True) r
      in case filter (\<lambda>h. ix_name (fst (hd h)) = Some name) (fst g) of
           h # hs \<Rightarrow> Inr (Some h)
         | [] \<Rightarrow> (case snd g of None \<Rightarrow> Inr None | Some e \<Rightarrow> Inl e))"

text \<open>The records one after another, whatever their directories.\<close>

function forward_iter :: "c_types \<Rightarrow> bytes \<Rightarrow> nat \<Rightarrow> existing yields" where
  "forward_iter ct m ofs =
     (if ofs + ENTLEN ct + FOOTLEN \<le> length m then
        (case find_from CHR 0x00 m ofs of
           None \<Rightarrow> ([], Some AssertionError)
         | Some eon \<Rightarrow>
             if eon \<le> ofs then ([], Some AssertionError)
             else
               let bname = take (eon - ofs) (drop ofs m)
               in case existing_entry ct bname bname m (eon + 1) of
                    Inl e \<Rightarrow> ([], Some e)
                  | Inr child \<Rightarrow> then_yield ([[(child, eon + 1)]], None) (forward_iter ct m (eon + 1 + ENTLEN ct)))
      else ([], None))"
  by pat_completeness auto
termination
  by (relation "measure (\<lambda>(ct, m, ofs). length m - ofs)") (auto simp: ENTLEN_def calcsize_def entry_format_def signed_or_def)

text \<open>\<open>reduce_paths\<close>: \<open>lstat\<close> tells directories, or fails, and \<open>resolve\<close> is \<open>resolve_parent\<close>.\<close>

definition slashappend_if_dir :: "(bytes \<Rightarrow> bool option) \<Rightarrow> bytes \<Rightarrow> bytes option" where
  "slashappend_if_dir isdir p = map_option (\<lambda>d. if d then slashappend p else p) (isdir p)"

definition unique_resolved_paths :: "(bytes \<Rightarrow> bool option) \<Rightarrow> (bytes \<Rightarrow> bytes) \<Rightarrow> bytes list \<Rightarrow> bytes set" where
  "unique_resolved_paths isdir resolve paths = set (List.map_filter (\<lambda>p. slashappend_if_dir isdir (resolve p)) paths)"

fun superseded :: "(bytes \<times> bytes) list \<Rightarrow> bytes \<Rightarrow> (bytes \<times> bytes) list" where
  "superseded [] prev = []"
| "superseded ((rp, p) # xs) prev =
     (if prev \<noteq> [] \<and> (prev = rp \<or> suffix ''/'' prev \<and> prefix prev rp) then superseded xs prev
      else (rp, p) # superseded xs rp)"

definition reduce_paths :: "(bytes \<Rightarrow> bool option) \<Rightarrow> (bytes \<Rightarrow> bytes) \<Rightarrow> bytes list \<Rightarrow> (bytes \<times> bytes) list" where
  "reduce_paths isdir resolve paths =
     (let xpaths = List.map_filter (\<lambda>p. case slashappend_if_dir isdir (resolve p) of
            None \<Rightarrow> None
          | Some rp \<Rightarrow> if rp = [] then None else Some (rp, if suffix ''/'' rp then slashappend p else p)) paths
      in rev (sort (superseded (sort xpaths) [])))"

fun reader_filter ::
  "c_types \<Rightarrow> (bytes \<times> bytes) list \<Rightarrow> (entry \<Rightarrow> bool) \<Rightarrow> index_reader \<Rightarrow> (bytes \<times> existing) yields" where
  "reader_filter ct [] wantrecurse r = ([], None)"
| "reader_filter ct ((rp, path) # xs) wantrecurse r =
     (let g = reader_iter ct rp wantrecurse r;
          named = (\<lambda>h. (path @ drop (length rp) (the (ix_name (fst (hd h)))), h));
          checked = yield_map (\<lambda>h. if prefix rp (the (ix_name (fst (hd h)))) then Inr (named h) else Inl AssertionError) (fst g);
          one = (if fst g = [] \<and> snd g = None then
                   (case reader_find ct rp r of
                      Inl e \<Rightarrow> ([], Some e)
                    | Inr None \<Rightarrow> ([], Some (Exc ''cannot find''))
                    | Inr (Some h) \<Rightarrow> ([named h], None))
                 else then_yield checked ([], snd g))
      in then_yield one (reader_filter ct xs wantrecurse r))"

end
