(* ===== verification/Index_Laws.thy ===== *)
theory Index_Laws
  imports Bup_Index
begin

text \<open>
  What the writer of the index writes, the reader reads: the entries added, in their order, with an entry for
  each directory left that was not added.
\<close>

section \<open>Records\<close>

lemma pack_field_ok:
  assumes "pack_field f v = Inr b" "\<And>bs. v = VB bs \<Longrightarrow> length bs = field_width f"
  shows "length b = field_width f" "unpack_field f b = v"
proof -
  have s: "nat (n mod 256 ^ k) < 256 ^ k" "int (nat (n mod 256 ^ k)) = n mod 256 ^ k" for n :: int and k
    by (simp_all add: nat_less_iff)
  have g: "(if n mod 256 ^ k < 256 ^ k div 2 then n mod 256 ^ k else n mod 256 ^ k - 256 ^ k) = n"
    if "- (256 ^ k div 2) \<le> n" "n < 256 ^ k div 2" for n :: int and k
  proof (cases k)
    case (Suc j)
    have e: "(256 :: int) ^ k div 2 * 2 = 256 ^ k" unfolding Suc by simp
    show ?thesis
    proof (cases "0 \<le> n")
      case True
      then have "n mod 256 ^ k = n" using that e by simp
      then show ?thesis using that by simp
    next
      case False
      then have "(n + 256 ^ k) mod 256 ^ k = n + 256 ^ k" using that e by (intro mod_pos_pos_trivial) linarith+
      then have "n mod 256 ^ k = n + 256 ^ k" by simp
      then show ?thesis using that e by auto
    qed
  qed (use that in simp)
  have "length b = field_width f \<and> unpack_field f b = v"
  proof (cases "(f, v)" rule: pack_field.cases)
    case (1 k n)
    then have n: "0 \<le> n" "n < 256 ^ k" "b = be_bytes k (nat n)" using assms(1) by (simp_all split: if_splits)
    then have "nat n < 256 ^ k" by (simp add: nat_less_iff)
    then show ?thesis using 1 n by simp
  next
    case (2 k n)
    then have n: "- (256 ^ k div 2) \<le> n" "n < 256 ^ k div 2" "b = be_bytes k (nat (n mod 256 ^ k))" using assms(1) by (simp_all split: if_splits)
    have "int (be_val b) = n mod 256 ^ k" unfolding n(3) using s [of n k] by simp
    then have "unpack_field (FS k) b = VI n" using g [OF n(1,2)] by (simp only: unpack_field.simps)
    then show ?thesis using 2 n(3) by simp
  next
    case (3 k bs)
    then show ?thesis using assms by auto
  qed (use assms in simp_all)
  then show "length b = field_width f" "unpack_field f b = v" by simp_all
qed

lemma struct_pack_ok:
  assumes "struct_pack fs vs = Inr b" "list_all2 (\<lambda>f v. \<forall>bs. v = VB bs \<longrightarrow> length bs = field_width f) fs vs"
  shows "length b = calcsize fs \<and> unpack_fields fs b = vs"
  using assms
proof (induction fs vs arbitrary: b rule: struct_pack.induct)
  case (2 f fs v vs)
  obtain x y where xy: "pack_field f v = Inr x" "struct_pack fs vs = Inr y" "b = x @ y" using "2.prems"(1) by (auto simp: res_simps)
  have x: "length x = field_width f" "unpack_field f x = v" using pack_field_ok [OF xy(1)] "2.prems"(2) by auto
  have y: "length y = calcsize fs \<and> unpack_fields fs y = vs" using "2.IH" [OF xy(1,2)] "2.prems"(2) by auto
  have "take (field_width f) b = x" "drop (field_width f) b = y" using x(1) by (simp_all add: xy(3))
  then show ?case using x y by (simp add: calcsize_def xy(3))
qed (simp_all add: calcsize_def)

lemma struct_pack_total:
  "list_all2 (\<lambda>f v. \<not> isl (pack_field f v)) fs vs \<longleftrightarrow> (\<exists>b. struct_pack fs vs = Inr b)"
proof (induction fs vs rule: struct_pack.induct)
  case (2 f fs v vs)
  then show ?case by (cases "pack_field f v") (auto simp: res_simps)
qed simp_all

abbreviation childless :: "entry \<Rightarrow> entry" where
  "childless e \<equiv> e\<lparr>ix_children_ofs := 0, ix_children_n := 0\<rparr>"

text \<open>The fields of an entry are in their ranges.\<close>

definition fits :: "c_types \<Rightarrow> entry \<Rightarrow> bool" where
  "fits ct e \<longleftrightarrow> \<not> isl (packed ct (childless e)) \<and> length (ix_sha e) = 20"

lemma fits_packed:
  assumes "fits ct e" "ofs < 256 ^ 8" "n < 256 ^ 4"
  shows "\<exists>p. packed ct (e\<lparr>ix_children_ofs := int ofs, ix_children_n := int n\<rparr>) = Inr p"
proof -
  obtain b where "packed ct (childless e) = Inr b" using assms(1) by (auto simp: fits_def isl_def split: sum.splits) (metis sum.exhaust)
  then have "list_all2 (\<lambda>f v. \<not> isl (pack_field f v)) (entry_format ct)
      [VI (ix_dev e), VI (ix_ino e), VI (ix_nlink e), VI (fst (nsecs_to_timespec (ix_ctime e))), VI (snd (nsecs_to_timespec (ix_ctime e))),
       VI (fst (nsecs_to_timespec (ix_mtime e))), VI (snd (nsecs_to_timespec (ix_mtime e))),
       VI (fst (nsecs_to_timespec (ix_atime e))), VI (snd (nsecs_to_timespec (ix_atime e))),
       VI (ix_size e), VI (ix_mode e), VI (ix_gitmode e), VB (ix_sha e), VI (ix_flags e), VI 0, VI 0, VI (ix_meta_ofs e)]"
    unfolding struct_pack_total packed_def by (simp add: split_beta)
  then have "list_all2 (\<lambda>f v. \<not> isl (pack_field f v)) (entry_format ct)
      [VI (ix_dev e), VI (ix_ino e), VI (ix_nlink e), VI (fst (nsecs_to_timespec (ix_ctime e))), VI (snd (nsecs_to_timespec (ix_ctime e))),
       VI (fst (nsecs_to_timespec (ix_mtime e))), VI (snd (nsecs_to_timespec (ix_mtime e))),
       VI (fst (nsecs_to_timespec (ix_atime e))), VI (snd (nsecs_to_timespec (ix_atime e))),
       VI (ix_size e), VI (ix_mode e), VI (ix_gitmode e), VB (ix_sha e), VI (ix_flags e), VI (int ofs), VI (int n), VI (ix_meta_ofs e)]"
    unfolding entry_format_def using assms(2,3) by simp
  then show ?thesis unfolding struct_pack_total packed_def by (simp add: split_beta)
qed

lemma packed_entry:
  assumes "packed ct e = Inr p" "length (ix_sha e) = 20"
  shows "length p = ENTLEN ct"
    "existing_entry ct b nm (pre @ p @ post) (length pre) = Inr (e\<lparr>ix_basename := Some b, ix_name := Some nm, ix_tmax := None\<rparr>)"
proof -
  define vs where "vs = [VI (ix_dev e), VI (ix_ino e), VI (ix_nlink e), VI (fst (nsecs_to_timespec (ix_ctime e))), VI (snd (nsecs_to_timespec (ix_ctime e))),
       VI (fst (nsecs_to_timespec (ix_mtime e))), VI (snd (nsecs_to_timespec (ix_mtime e))),
       VI (fst (nsecs_to_timespec (ix_atime e))), VI (snd (nsecs_to_timespec (ix_atime e))),
       VI (ix_size e), VI (ix_mode e), VI (ix_gitmode e), VB (ix_sha e), VI (ix_flags e), VI (ix_children_ofs e), VI (ix_children_n e), VI (ix_meta_ofs e)]"
  have "struct_pack (entry_format ct) vs = Inr p" using assms(1) unfolding packed_def vs_def by (simp add: split_beta)
  moreover have "list_all2 (\<lambda>f v. \<forall>bs. v = VB bs \<longrightarrow> length bs = field_width f) (entry_format ct) vs"
    unfolding vs_def entry_format_def using assms(2) by simp
  ultimately have p: "length p = calcsize (entry_format ct) \<and> unpack_fields (entry_format ct) p = vs" by (rule struct_pack_ok)
  then show l: "length p = ENTLEN ct" by (simp add: ENTLEN_def)
  have "take (ENTLEN ct) (drop (length pre) (pre @ p @ post)) = p" by (simp add: l)
  then have "existing_entry ct b nm (pre @ p @ post) (length pre) = Inr (entry_of_values b nm vs)"
    unfolding existing_entry_def struct_unpack_def using p by simp
  moreover have "entry_of_values b nm vs = e\<lparr>ix_basename := Some b, ix_name := Some nm, ix_tmax := None\<rparr>"
    by (simp add: entry_of_values_def vs_def Let_def timespec_nsecs)
  ultimately show "existing_entry ct b nm (pre @ p @ post) (length pre) = Inr (e\<lparr>ix_basename := Some b, ix_name := Some nm, ix_tmax := None\<rparr>)" by simp
qed

section \<open>Directories in the file\<close>

text \<open>The entries of a directory, each with those below it.\<close>

datatype forest = Empty | Tree entry forest forest

primrec flen :: "forest \<Rightarrow> nat" where
  "flen Empty = 0"
| "flen (Tree e ch rest) = Suc (flen rest)"

primrec fsize :: "forest \<Rightarrow> nat" where
  "fsize Empty = 0"
| "fsize (Tree e ch rest) = Suc (fsize ch + fsize rest)"

primrec fdepth :: "forest \<Rightarrow> nat" where
  "fdepth Empty = 0"
| "fdepth (Tree e ch rest) = max (Suc (fdepth ch)) (fdepth rest)"

definition base_of :: "entry \<Rightarrow> bytes" where
  "base_of e = the (ix_basename e)"

primrec fbytes :: "c_types \<Rightarrow> forest \<Rightarrow> nat" where
  "fbytes ct Empty = 0"
| "fbytes ct (Tree e ch rest) = length (base_of e) + 1 + ENTLEN ct + fbytes ct rest"

text \<open>The names and entries as the reader goes through them: those below a directory before it.\<close>

primrec entries_of :: "bytes \<Rightarrow> forest \<Rightarrow> (bytes \<times> entry) list" where
  "entries_of pname Empty = []"
| "entries_of pname (Tree e ch rest) = entries_of (pname @ base_of e) ch @ [(pname @ base_of e, e)] @ entries_of pname rest"

definition base_ok :: "bytes \<Rightarrow> bool" where
  "base_ok b \<longleftrightarrow> b \<noteq> [] \<and> CHR 0x00 \<notin> set b"

definition ix_entry_ok :: "c_types \<Rightarrow> entry \<Rightarrow> bytes \<Rightarrow> forest \<Rightarrow> bool" where
  "ix_entry_ok ct e p ch \<longleftrightarrow> ix_basename e \<noteq> None \<and> base_ok (base_of e) \<and> (ch \<noteq> Empty \<longrightarrow> suffix ''/'' (base_of e)) \<and>
     length (ix_sha e) = 20 \<and> packed ct e = Inr p \<and> ix_children_n e = int (flen ch)"

primrec laid_out :: "c_types \<Rightarrow> bytes \<Rightarrow> forest \<Rightarrow> nat \<Rightarrow> bool" where
  "laid_out ct m Empty ofs \<longleftrightarrow> True"
| "laid_out ct m (Tree e ch rest) ofs \<longleftrightarrow>
     (\<exists>p k pre post. ix_entry_ok ct e p ch \<and> ix_children_ofs e = int k \<and> m = pre @ base_of e @ [CHR 0x00] @ p @ post \<and> length pre = ofs \<and>
        laid_out ct m ch k \<and> k + fbytes ct ch \<le> ofs) \<and>
     laid_out ct m rest (ofs + length (base_of e) + 1 + ENTLEN ct)"

lemma laid_out_append: "laid_out ct m F ofs \<Longrightarrow> laid_out ct (m @ x) F ofs"
proof (induction F arbitrary: ofs)
  case (Tree e ch rest)
  then obtain p k pre post where a: "ix_entry_ok ct e p ch" "ix_children_ofs e = int k" "m = pre @ base_of e @ [CHR 0x00] @ p @ post"
    "length pre = ofs" "laid_out ct m ch k" "k + fbytes ct ch \<le> ofs" by (simp only: laid_out.simps) (elim exE conjE, rule that)
  moreover have "m @ x = pre @ base_of e @ [CHR 0x00] @ p @ (post @ x)" using a(3) by simp
  moreover have "laid_out ct (m @ x) ch k" using Tree.IH(1) a(5) .
  moreover have "laid_out ct (m @ x) rest (ofs + length (base_of e) + 1 + ENTLEN ct)" using Tree.IH(2) Tree.prems by simp
  ultimately show ?case unfolding laid_out.simps by blast
qed simp

lemma fbytes_end: "laid_out ct m F ofs \<Longrightarrow> F \<noteq> Empty \<Longrightarrow> ofs + fbytes ct F \<le> length m"
proof (induction F arbitrary: ofs)
  case (Tree e ch rest)
  then obtain p k pre post where a: "ix_entry_ok ct e p ch" "m = pre @ base_of e @ [CHR 0x00] @ p @ post" "length pre = ofs"
    by (simp only: laid_out.simps) (elim exE conjE, rule that)
  have "length p = ENTLEN ct" using a(1) packed_entry(1) [of ct e p] by (simp add: ix_entry_ok_def)
  then have "ofs + length (base_of e) + 1 + ENTLEN ct \<le> length m" using a(2,3) by simp
  then show ?case using Tree.IH(2) [of "ofs + length (base_of e) + 1 + ENTLEN ct"] Tree.prems by (cases "rest = Empty") auto
qed simp

lemma fdepth_le: "laid_out ct m F ofs \<Longrightarrow> fdepth F \<le> ofs + fbytes ct F"
proof (induction F arbitrary: ofs)
  case (Tree e ch rest)
  then obtain k where "laid_out ct m ch k" "k + fbytes ct ch \<le> ofs" by auto
  then have "fdepth ch \<le> ofs" using Tree.IH(1) [of k] by linarith
  moreover have "fdepth rest \<le> ofs + length (base_of e) + 1 + ENTLEN ct + fbytes ct rest"
    using Tree.IH(2) [of "ofs + length (base_of e) + 1 + ENTLEN ct"] Tree.prems by simp
  ultimately show ?case by simp
qed simp

section \<open>Reading them\<close>

definition seen_as :: "bytes \<Rightarrow> entry \<Rightarrow> entry" where
  "seen_as nm e = e\<lparr>ix_name := Some nm, ix_tmax := None\<rparr>"

primrec seen_entries :: "bytes \<Rightarrow> bytes \<Rightarrow> forest \<Rightarrow> (bytes \<times> entry) list" where
  "seen_entries name pname Empty = []"
| "seen_entries name pname (Tree e ch rest) =
     (if goes_into name (pname @ base_of e) then seen_entries name (pname @ base_of e) ch else []) @
     (if is_wanted name (pname @ base_of e) then [(pname @ base_of e, e)] else []) @ seen_entries name pname rest"

lemma then_yield_simps [simp]: "then_yield (xs, None) (ys, e) = (xs @ ys, e)" by (simp add: then_yield_def)

abbreviation heads :: "existing list \<Rightarrow> entry list" where
  "heads hs \<equiv> map (\<lambda>h. fst (hd h)) hs"

lemma laid_out_child:
  assumes "ix_entry_ok ct e p ch" "m = pre @ base_of e @ [CHR 0x00] @ p @ post" "length pre = ofs"
  shows "find_from CHR 0x00 m ofs = Some (ofs + length (base_of e))" "ofs < ofs + length (base_of e)"
    "take (length (base_of e)) (drop ofs m) = base_of e"
    "existing_entry ct (base_of e) nm m (ofs + length (base_of e) + 1) = Inr (seen_as nm e)"
    "ix_children_n e \<le> uint_max" "length p = ENTLEN ct"
proof -
  have b: "base_of e \<noteq> []" "CHR 0x00 \<notin> set (base_of e)" "ix_basename e = Some (base_of e)"
    using assms(1) by (auto simp: ix_entry_ok_def base_ok_def base_of_def)
  show "find_from CHR 0x00 m ofs = Some (ofs + length (base_of e))"
    using find_from_append [OF b(2), of pre ofs "p @ post"] assms(2,3) by simp
  show "ofs < ofs + length (base_of e)" using b(1) by simp
  show "take (length (base_of e)) (drop ofs m) = base_of e" using assms(2,3) by simp
  have q: "packed ct e = Inr p" "length (ix_sha e) = 20" using assms(1) by (simp_all add: ix_entry_ok_def)
  have m: "m = (pre @ base_of e @ [CHR 0x00]) @ p @ post" "length (pre @ base_of e @ [CHR 0x00]) = ofs + length (base_of e) + 1"
    using assms(2,3) by simp_all
  have s: "e\<lparr>ix_basename := Some (base_of e), ix_name := Some nm, ix_tmax := None\<rparr> = seen_as nm e" by (simp add: seen_as_def b(3) [symmetric])
  show "existing_entry ct (base_of e) nm m (ofs + length (base_of e) + 1) = Inr (seen_as nm e)"
    using packed_entry(2) [OF q, of "base_of e" nm "pre @ base_of e @ [CHR 0x00]" post] unfolding s m(2) m(1) [symmetric] .
  show "length p = ENTLEN ct" by (rule packed_entry(1) [OF q])
  have "list_all2 (\<lambda>f v. \<not> isl (pack_field f v)) (entry_format ct)
      [VI (ix_dev e), VI (ix_ino e), VI (ix_nlink e), VI (fst (nsecs_to_timespec (ix_ctime e))), VI (snd (nsecs_to_timespec (ix_ctime e))),
       VI (fst (nsecs_to_timespec (ix_mtime e))), VI (snd (nsecs_to_timespec (ix_mtime e))),
       VI (fst (nsecs_to_timespec (ix_atime e))), VI (snd (nsecs_to_timespec (ix_atime e))),
       VI (ix_size e), VI (ix_mode e), VI (ix_gitmode e), VB (ix_sha e), VI (ix_flags e), VI (ix_children_ofs e), VI (ix_children_n e), VI (ix_meta_ofs e)]"
    using q(1) unfolding struct_pack_total packed_def by (simp add: split_beta)
  then show "ix_children_n e \<le> uint_max" unfolding entry_format_def uint_max_def by (simp split: if_splits)
qed

lemma children_iter_ok:
  assumes "laid_out ct m F ofs" "fdepth F \<le> fuel" "ix_name (fst (hd h)) = Some pname" "ofs \<le> length m"
  shows "\<exists>hs. children_iter ct m name (\<lambda>_. True) fuel (flen F) ofs h = (hs, None) \<and>
     heads hs = map (\<lambda>(nm, e). seen_as nm e) (seen_entries name pname F)"
  using assms
proof (induction F arbitrary: ofs fuel h pname)
  case (Tree e ch rest)
  obtain p k pre post where a: "ix_entry_ok ct e p ch" "ix_children_ofs e = int k" "m = pre @ base_of e @ [CHR 0x00] @ p @ post"
    "length pre = ofs" "laid_out ct m ch k" "k + fbytes ct ch \<le> ofs"
    using Tree.prems(1) by (simp only: laid_out.simps) (elim exE conjE, rule that)
  let ?nm = "pname @ base_of e"
  let ?c = "seen_as ?nm e" and ?eon = "ofs + length (base_of e)"
  note lc = laid_out_child [OF a(1,3,4)]
  obtain fuel' where fuel: "fuel = Suc fuel'" using Tree.prems(2) by (cases fuel) simp_all
  have nch: "ix_children_n e = int (flen ch)" using a(1) by (simp add: ix_entry_ok_def)
  have k: "k \<le> length m" using a(6) Tree.prems(4) by linarith
  have "ix_name (fst (hd ((?c, ?eon + 1) # h))) = Some ?nm" by (simp add: seen_as_def)
  then obtain hs1 where hs1: "children_iter ct m name (\<lambda>_. True) fuel' (flen ch) k ((?c, ?eon + 1) # h) = (hs1, None)"
    "heads hs1 = map (\<lambda>(nm, e). seen_as nm e) (seen_entries name ?nm ch)"
    using Tree.IH(1) [OF a(5), of fuel' "(?c, ?eon + 1) # h" ?nm] Tree.prems(2) k unfolding fuel by auto
  have below: "check_children m ?c (children_iter ct m name (\<lambda>_. True) fuel' (nat (ix_children_n ?c)) (nat (ix_children_ofs ?c)) ((?c, ?eon + 1) # h)) = (hs1, None)"
    using a(2) nch k lc(5) hs1(1) by (simp add: check_children_def seen_as_def)
  have "?eon + 1 + ENTLEN ct \<le> length m" using a(3,4) lc(6) by simp
  then obtain hs2 where hs2: "children_iter ct m name (\<lambda>_. True) (Suc fuel') (flen rest) (?eon + 1 + ENTLEN ct) h = (hs2, None)"
    "heads hs2 = map (\<lambda>(nm, e). seen_as nm e) (seen_entries name pname rest)"
    using Tree.IH(2) [of "?eon + 1 + ENTLEN ct" "Suc fuel'" h pname] Tree.prems unfolding fuel by auto
  have "children_iter ct m name (\<lambda>_. True) fuel (flen (Tree e ch rest)) ofs h =
      then_yield (if goes_into name ?nm then (hs1, None) else ([], None)) (then_yield (if is_wanted name ?nm then [(?c, ?eon + 1) # h] else [], None) (hs2, None))"
    unfolding fuel flen.simps children_iter.simps lc(1) option.case using lc(2,3,4) below hs2(1) Tree.prems(3)
    by (simp add: Let_def)
  then show ?case using hs1(2) hs2(2) by auto
qed simp

primrec dirs_ok :: "forest \<Rightarrow> bool" where
  "dirs_ok Empty \<longleftrightarrow> True"
| "dirs_ok (Tree e ch rest) \<longleftrightarrow> (ch \<noteq> Empty \<longrightarrow> suffix ''/'' (base_of e)) \<and> dirs_ok ch \<and> dirs_ok rest"

lemma laid_out_dirs: "laid_out ct m F ofs \<Longrightarrow> dirs_ok F"
  by (induction F arbitrary: ofs) (auto simp: ix_entry_ok_def)

lemma entries_of_prefix: "(nm, e) \<in> set (entries_of pname F) \<Longrightarrow> prefix pname nm"
  by (induction F arbitrary: pname) (auto dest: append_prefixD)

lemma wanted_goes_into:
  assumes "is_wanted name x" "prefix nm x" "suffix ''/'' nm"
  shows "goes_into name nm"
proof -
  consider "name = []" | "x = name" | "prefix (slashappend name) x" using assms(1) by (auto simp: is_wanted_def)
  then show ?thesis
  proof cases
    case 2
    moreover have "prefix name (slashappend name)" by (simp add: slashappend_def)
    ultimately have "prefix nm (slashappend name)" using assms(2) by (blast intro: prefix_order.trans)
    then show ?thesis using assms(3) by (simp add: goes_into_def Let_def)
  next
    case 3
    then have "prefix (slashappend name) nm \<or> prefix nm (slashappend name)" using assms(2) by (rule prefix_same_cases)
    then show ?thesis using assms(3) by (auto simp: goes_into_def Let_def)
  qed (simp add: goes_into_def slashappend_def)
qed

lemma seen_entries_filter: "dirs_ok F \<Longrightarrow> seen_entries name pname F = filter (\<lambda>(nm, e). is_wanted name nm) (entries_of pname F)"
proof (induction F arbitrary: pname)
  case (Tree e ch rest)
  have "filter (\<lambda>(nm, e). is_wanted name nm) (entries_of (pname @ base_of e) ch) = []" if "\<not> goes_into name (pname @ base_of e)"
  proof (cases "ch = Empty")
    case False
    then have s: "suffix ''/'' (pname @ base_of e)" using Tree.prems by (auto simp: suffix_def)
    have "\<not> is_wanted name nm" if "(nm, x) \<in> set (entries_of (pname @ base_of e) ch)" for nm x
      using wanted_goes_into [OF _ entries_of_prefix [OF that] s] \<open>\<not> goes_into name (pname @ base_of e)\<close> by blast
    then show ?thesis by (auto simp: filter_empty_conv)
  qed simp
  then show ?case using Tree by simp
qed simp

section \<open>Levels\<close>

fun forest_of :: "entry list \<Rightarrow> forest list \<Rightarrow> forest" where
  "forest_of (e # es) (ch # chs) = Tree e ch (forest_of es chs)"
| "forest_of _ _ = Empty"

lemma forest_of_snoc:
  assumes "length es = length chs"
  shows "entries_of pname (forest_of (es @ [e]) (chs @ [ch])) =
      entries_of pname (forest_of es chs) @ entries_of (pname @ base_of e) ch @ [(pname @ base_of e, e)]"
    "fbytes ct (forest_of (es @ [e]) (chs @ [ch])) = fbytes ct (forest_of es chs) + length (base_of e) + 1 + ENTLEN ct"
    "flen (forest_of es chs) = length es"
    "fsize (forest_of es chs) = length es + sum_list (map fsize chs)"
  using assms by (induction es chs rule: list_induct2) simp_all

text \<open>An entry of a level: what it will point to is in the file.\<close>

definition child_ok :: "c_types \<Rightarrow> bytes \<Rightarrow> entry \<Rightarrow> forest \<Rightarrow> bool" where
  "child_ok ct f e ch \<longleftrightarrow> (\<exists>p k. ix_entry_ok ct e p ch \<and> ix_children_ofs e = int k \<and> laid_out ct f ch k \<and> k + fbytes ct ch \<le> length f)"

lemma child_ok_append: "child_ok ct f e ch \<Longrightarrow> child_ok ct (f @ x) e ch"
  unfolding child_ok_def using laid_out_append by fastforce

lemma entries_write_ok:
  assumes "list_all2 (child_ok ct f) es chs"
  shows "\<exists>x. entries_write ct es f = Inr (f @ x) \<and> length x = fbytes ct (forest_of es chs) \<and> laid_out ct (f @ x) (forest_of es chs) (length f)"
  using assms
proof (induction es arbitrary: f chs)
  case (Cons e es)
  obtain ch chs' where chs: "chs = ch # chs'" "child_ok ct f e ch" "list_all2 (child_ok ct f) es chs'"
    using Cons.prems by (auto simp: list_all2_Cons1)
  from chs(2) obtain p k where c: "ix_entry_ok ct e p ch" "ix_children_ofs e = int k" "laid_out ct f ch k" "k + fbytes ct ch \<le> length f"
    unfolding child_ok_def by (elim exE conjE) (rule that)
  have b: "ix_basename e = Some (base_of e)" "packed ct e = Inr p" "length (ix_sha e) = 20"
    using c(1) by (auto simp: ix_entry_ok_def base_of_def)
  let ?f = "f @ base_of e @ [CHR 0x00] @ p"
  have "list_all2 (child_ok ct ?f) es chs'" by (rule list_all2_mono [OF chs(3)]) (rule child_ok_append)
  then obtain x where x: "entries_write ct es ?f = Inr (?f @ x)" "length x = fbytes ct (forest_of es chs')"
      "laid_out ct (?f @ x) (forest_of es chs') (length ?f)" using Cons.IH by blast
  have w: "entry_write ct e f = Inr ?f" by (simp add: entry_write_def b)
  have lp: "length p = ENTLEN ct" using packed_entry(1) b by blast
  have "laid_out ct (?f @ x) ch k" using laid_out_append [OF c(3), of "base_of e @ [CHR 0x00] @ p @ x"] by simp
  moreover have "?f @ x = f @ base_of e @ [CHR 0x00] @ p @ x" by simp
  moreover have "length f + length (base_of e) + 1 + ENTLEN ct = length ?f" using lp by simp
  ultimately have "laid_out ct (?f @ x) (Tree e ch (forest_of es chs')) (length f)"
    unfolding laid_out.simps using c(1,2,4) x(3) by metis
  then have "laid_out ct (f @ (base_of e @ [CHR 0x00] @ p @ x)) (forest_of (e # es) chs) (length f)" by (simp add: chs(1))
  moreover have "length (base_of e @ [CHR 0x00] @ p @ x) = fbytes ct (forest_of (e # es) chs)" using lp x(2) by (simp add: chs(1))
  moreover have "entries_write ct (e # es) f = Inr (f @ base_of e @ [CHR 0x00] @ p @ x)" using w x(1) by simp
  ultimately show ?case by blast
qed simp

definition up :: "bytes list \<Rightarrow> bytes list list" where
  "up en = map (\<lambda>i. take i en) (rev [0 ..< Suc (length en)])"

lemma up_Nil: "up [] = [[]]" by (simp add: up_def)

lemma up_snoc: "up (en @ [x]) = (en @ [x]) # up en"
  by (simp add: up_def)

lemma length_up: "length (up en) = Suc (length en)" by (simp add: up_def)

lemma hd_up: "hd (up en) = en" by (simp add: up_def)

definition ebytes :: "c_types \<Rightarrow> entry \<Rightarrow> nat" where
  "ebytes ct e = length (base_of e) + 1 + ENTLEN ct"

definition names_ok :: "bytes list \<Rightarrow> bool" where
  "names_ok en \<longleftrightarrow> (\<forall>x\<in>set en. base_ok x) \<and> (\<forall>x\<in>set (butlast en). suffix ''/'' x)"

definition level_ok :: "c_types \<Rightarrow> bytes \<Rightarrow> level \<Rightarrow> forest list \<Rightarrow> bool" where
  "level_ok ct f lv chs \<longleftrightarrow> list_all2 (child_ok ct f) (lv_list lv) chs \<and> lv_count lv = int (sum_list (map fsize chs)) \<and>
     (lv_list lv \<noteq> [] \<longrightarrow> lv_ename lv = [] \<or> suffix ''/'' (last (lv_ename lv)))"

text \<open>What a reader would see of the levels so far, and the bytes still to be written.\<close>

fun stack_out :: "level list \<Rightarrow> forest list list \<Rightarrow> (bytes \<times> entry) list" where
  "stack_out (lv # lvs) (chs # chss) = stack_out lvs chss @ entries_of (concat (lv_ename lv)) (forest_of (lv_list lv) chs)"
| "stack_out _ _ = []"

fun pending_bytes :: "c_types \<Rightarrow> level list \<Rightarrow> forest list list \<Rightarrow> nat" where
  "pending_bytes ct (lv # lvs) (chs # chss) = fbytes ct (forest_of (lv_list lv) chs) + pending_bytes ct lvs chss"
| "pending_bytes ct _ _ = 0"

definition out_bytes :: "c_types \<Rightarrow> (bytes \<times> entry) list \<Rightarrow> nat" where
  "out_bytes ct out = sum_list (map (\<lambda>x. ebytes ct (snd x)) out)"

definition stack_ok ::
  "c_types \<Rightarrow> nat \<Rightarrow> bytes \<Rightarrow> level list \<Rightarrow> forest list list \<Rightarrow> bytes list \<Rightarrow> (bytes \<times> entry) list \<Rightarrow> bool" where
  "stack_ok ct H f levels chss en out \<longleftrightarrow>
     map lv_ename levels = up en \<and> names_ok en \<and> list_all2 (level_ok ct f) levels chss \<and> stack_out levels chss = out \<and>
     length f + pending_bytes ct levels chss = H + out_bytes ct out"

lemma entries_of_count: "length (entries_of pname F) = fsize F"
  by (induction F arbitrary: pname) simp_all

lemma stack_bounds:
  assumes "stack_ok ct H f (lv # lvs) chss en out"
  shows "length (lv_list lv) \<le> length out" "length f \<le> H + out_bytes ct out"
proof -
  obtain chs css where c: "chss = chs # css" "level_ok ct f lv chs" using assms by (auto simp: stack_ok_def list_all2_Cons1)
  have "length (lv_list lv) = length chs" using c(2) by (auto simp: level_ok_def dest: list_all2_lengthD)
  then have "length (lv_list lv) \<le> length (entries_of (concat (lv_ename lv)) (forest_of (lv_list lv) chs))"
    unfolding entries_of_count by (simp add: forest_of_snoc)
  moreover have "length (entries_of (concat (lv_ename lv)) (forest_of (lv_list lv) chs)) \<le> length (stack_out (lv # lvs) chss)" by (simp add: c(1))
  moreover have "stack_out (lv # lvs) chss = out" using assms by (simp add: stack_ok_def)
  ultimately show "length (lv_list lv) \<le> length out" by simp
  show "length f \<le> H + out_bytes ct out" using assms by (simp add: stack_ok_def)
qed

lemma level_ok_append: "level_ok ct f lv chs \<Longrightarrow> level_ok ct (f @ x) lv chs"
  unfolding level_ok_def by (auto elim!: list_all2_mono intro: child_ok_append)

text \<open>A level is written, and its entry put in its parent.\<close>

lemma leave_level:
  assumes st: "stack_ok ct H f (lv # p # ps) chss (en @ [x]) out"
    and n: "ix_basename n = Some x" "fits ct n"
    and b: "length f < 256 ^ 8" "length (lv_list lv) < 256 ^ 4"
  defines "n' \<equiv> n\<lparr>ix_children_ofs := int (length f), ix_children_n := int (length (lv_list lv))\<rparr>"
  shows "\<exists>p' g css. level_write ct lv (p # ps) f = Inr ((length f, length (lv_list lv)), p' # ps, f @ g) \<and> lv_list p' = lv_list p \<and>
     stack_ok ct H (f @ g) (put_entry n (length f, length (lv_list lv)) p' # ps) css en (out @ [(concat (en @ [x]), n')])"
proof -
  obtain chs pchs css where c: "chss = chs # pchs # css" "level_ok ct f lv chs" "level_ok ct f p pchs" "list_all2 (level_ok ct f) ps css"
    using st by (auto simp: stack_ok_def list_all2_Cons1)
  have names: "lv_ename lv = en @ [x]" "map lv_ename (p # ps) = up en" "names_ok (en @ [x])" using st by (simp_all add: stack_ok_def up_snoc)
  have pname: "lv_ename p = en" using names(2) hd_up [of en] by (metis list.map(2) list.sel(1))
  have l: "list_all2 (child_ok ct f) (lv_list lv) chs" "length (lv_list lv) = length chs" "length (lv_list p) = length pchs"
    using c(2,3) by (auto simp: level_ok_def dest: list_all2_lengthD)
  let ?F = "forest_of (lv_list lv) chs"
  obtain g where g: "entries_write ct (lv_list lv) f = Inr (f @ g)" "length g = fbytes ct ?F" "laid_out ct (f @ g) ?F (length f)"
    using entries_write_ok [OF l(1)] by blast
  define p' where "p' = (if lv_list lv = [] then p else p\<lparr>lv_count := lv_count p + (int (length (lv_list lv)) + lv_count lv)\<rparr>)"
  have p': "lv_list p' = lv_list p" "lv_ename p' = en" by (simp_all add: p'_def pname)
  have w: "level_write ct lv (p # ps) f = Inr ((length f, length (lv_list lv)), p' # ps, f @ g)"
    unfolding level_write_def p'_def g(1) by simp
  have fsF: "fsize ?F = length (lv_list lv) + sum_list (map fsize chs)" "flen ?F = length (lv_list lv)" using forest_of_snoc l(2) by simp_all
  have cnt: "lv_count p' = int (sum_list (map fsize (pchs @ [?F])))"
    using c(2,3) fsF l(2) by (auto simp: p'_def level_ok_def)
  have base: "base_of n' = x" "ix_basename n' = Some x" by (simp_all add: n'_def base_of_def n(1))
  obtain pk where pk: "packed ct n' = Inr pk" using fits_packed [OF n(2) b] unfolding n'_def by blast
  have suf: "?F \<noteq> Empty \<Longrightarrow> suffix ''/'' x" using c(2) names(1) by (cases "lv_list lv") (auto simp: level_ok_def)
  have xs: "base_ok x" "\<forall>y\<in>set en. suffix ''/'' y" "names_ok en"
    using names(3) by (auto simp: names_ok_def dest: in_set_butlastD)
  have "ix_entry_ok ct n' pk ?F" unfolding ix_entry_ok_def base using suf xs(1) n(2) pk by (auto simp: n'_def fits_def fsF)
  moreover have "ix_children_ofs n' = int (length f)" by (simp add: n'_def)
  ultimately have child: "child_ok ct (f @ g) n' ?F" unfolding child_ok_def using g by fastforce
  have put: "put_entry n (length f, length (lv_list lv)) p' = p'\<lparr>lv_list := lv_list p @ [n']\<rparr>" by (simp add: put_entry_def n'_def p')
  have "list_all2 (child_ok ct (f @ g)) (lv_list p) pchs" using c(3) by (auto simp: level_ok_def elim!: list_all2_mono intro: child_ok_append)
  moreover have lasten: "en = [] \<or> suffix ''/'' (last en)" using xs(2) by (cases en rule: rev_cases) auto
  ultimately have pl: "level_ok ct (f @ g) (put_entry n (length f, length (lv_list lv)) p') (pchs @ [?F])"
    unfolding put level_ok_def using child cnt lasten by (auto simp: p' intro: list_all2_appendI)
  have psl: "list_all2 (level_ok ct (f @ g)) ps css" using c(4) by (auto elim!: list_all2_mono intro: level_ok_append)
  have o: "stack_out (put_entry n (length f, length (lv_list lv)) p' # ps) ((pchs @ [?F]) # css) = out @ [(concat (en @ [x]), n')]"
    using st l(3) names(1) unfolding put stack_ok_def by (auto simp: c(1) p' pname forest_of_snoc base)
  have "length f + pending_bytes ct (lv # p # ps) chss = H + out_bytes ct out" using st by (simp add: stack_ok_def)
  then have pb: "length (f @ g) + pending_bytes ct (put_entry n (length f, length (lv_list lv)) p' # ps) ((pchs @ [?F]) # css) =
      H + out_bytes ct (out @ [(concat (en @ [x]), n')])"
    using l(3) unfolding put by (simp add: c(1) p' forest_of_snoc g(2) out_bytes_def ebytes_def base)
  have nm: "map lv_ename (put_entry n (length f, length (lv_list lv)) p' # ps) = up en" using names(2) by (simp add: put p' pname)
  have "stack_ok ct H (f @ g) (put_entry n (length f, length (lv_list lv)) p' # ps) ((pchs @ [?F]) # css) en (out @ [(concat (en @ [x]), n')])"
    unfolding stack_ok_def using nm xs(3) pl psl o pb by simp
  then show ?thesis using w p'(1) by blast
qed

text \<open>The directories left on the way from one to a name, innermost first.\<close>

function dirs_left :: "bytes list \<Rightarrow> bytes list \<Rightarrow> bytes list list" where
  "dirs_left here en = (if take (length here) en = here then [] else here # dirs_left (butlast here) en)"
  by pat_completeness auto
termination
proof (relation "measure (\<lambda>(here, en). length here)")
  fix here en :: "bytes list"
  assume "take (length here) en \<noteq> here"
  then have "here \<noteq> []" by auto
  then show "((butlast here, en), here, en) \<in> measure (\<lambda>(here, en). length here)" by simp
qed simp

declare dirs_left.simps [simp del]

definition entry_for :: "int option \<Rightarrow> bytes list \<times> entry option \<Rightarrow> bytes \<times> entry \<Rightarrow> bool" where
  "entry_for tmax d x \<longleftrightarrow> fst x = concat (fst d) \<and>
     (case snd d of
        Some e \<Rightarrow> childless (snd x) = childless e
      | None \<Rightarrow> \<exists>meta_ofs. childless (snd x) = dir_entry (fst d) meta_ofs tmax)"

lemma childless_set: "childless (e\<lparr>ix_children_ofs := a, ix_children_n := b\<rparr>) = childless e" by simp

lemma out_bytes_append: "out_bytes ct (xs @ ys) = out_bytes ct xs + out_bytes ct ys" by (simp add: out_bytes_def)

lemma base_of_cong: "childless a = childless b \<Longrightarrow> base_of a = base_of b"
  by (metis (no_types) base_of_def entry.select_convs(1) entry.surjective entry.update_convs(15,16))

definition dir_bytes :: "c_types \<Rightarrow> bytes list list \<Rightarrow> nat" where
  "dir_bytes ct ds = sum_list (map (\<lambda>d. length (last d) + 1 + ENTLEN ct) ds)"

text \<open>The directory entries made in passing fit, for a time limit in the range of the records.\<close>

definition tmax_ok :: "int option \<Rightarrow> bool" where
  "tmax_ok tmax \<longleftrightarrow> (case tmax of None \<Rightarrow> True | Some t \<Rightarrow> - (2 ^ 63) * 10 ^ 9 \<le> t)"

lemma small_timespec:
  assumes "- (2 ^ 63) * 10 ^ 9 \<le> t" "t \<le> 0"
  shows "- (256 ^ 8 div 2) \<le> fst (nsecs_to_timespec t)" "fst (nsecs_to_timespec t) < 256 ^ 8 div 2"
    "0 \<le> snd (nsecs_to_timespec t)" "snd (nsecs_to_timespec t) < 256 ^ 8"
proof -
  have "- (2 ^ 63) * 10 ^ 9 div 10 ^ 9 \<le> t div (10 ^ 9 :: int)" using assms(1) by (rule zdiv_mono1) simp
  then show "- (256 ^ 8 div 2) \<le> fst (nsecs_to_timespec t)" by (simp add: nsecs_to_timespec_def)
  have "t div (10 ^ 9 :: int) \<le> 0 div 10 ^ 9" using assms(2) by (rule zdiv_mono1) simp
  then show "fst (nsecs_to_timespec t) < 256 ^ 8 div 2" by (simp add: nsecs_to_timespec_def)
  show "0 \<le> snd (nsecs_to_timespec t)" "snd (nsecs_to_timespec t) < 256 ^ 8"
    using timespec_range [of t] by simp_all
qed

lemma dir_entry_fits:
  assumes "tmax_ok tmax" "0 \<le> meta_ofs" "meta_ofs < 256 ^ 8"
  shows "fits ct (dir_entry d meta_ofs tmax)"
proof -
  let ?t = "fixup_time tmax 0"
  have t: "- (2 ^ 63) * 10 ^ 9 \<le> ?t" "?t \<le> 0" using assms(1) by (auto simp: tmax_ok_def fixup_time_def split: option.splits)
  note st = small_timespec [OF t]
  have "list_all2 (\<lambda>f v. \<not> isl (pack_field f v)) (entry_format ct)
      [VI 0, VI 0, VI 0, VI (fst (nsecs_to_timespec ?t)), VI (snd (nsecs_to_timespec ?t)),
       VI (fst (nsecs_to_timespec ?t)), VI (snd (nsecs_to_timespec ?t)), VI 0, VI 0,
       VI 0, VI 0, VI 0, VB EMPTY_SHA, VI IX_EXISTS, VI 0, VI 0, VI meta_ofs]"
    unfolding entry_format_def using st assms(2,3) by (simp add: signed_or_def IX_EXISTS_def)
  then obtain b where "struct_pack (entry_format ct)
      [VI 0, VI 0, VI 0, VI (fst (nsecs_to_timespec ?t)), VI (snd (nsecs_to_timespec ?t)),
       VI (fst (nsecs_to_timespec ?t)), VI (snd (nsecs_to_timespec ?t)), VI 0, VI 0,
       VI 0, VI 0, VI 0, VB EMPTY_SHA, VI IX_EXISTS, VI 0, VI 0, VI meta_ofs] = Inr b" unfolding struct_pack_total by blast
  moreover have "nsecs_to_timespec 0 = (0, 0)" by (simp add: nsecs_to_timespec_def)
  ultimately have "packed ct (childless (dir_entry d meta_ofs tmax)) = Inr b"
    by (simp add: packed_def dir_entry_def BlankNewEntry_def fixup_def split_beta)
  then show ?thesis by (simp add: fits_def dir_entry_def BlankNewEntry_def fixup_def EMPTY_SHA_def)
qed

definition root_entries :: "level list \<Rightarrow> entry list" where
  "root_entries levels = lv_list (last levels)"

lemma dirs_left_simps:
  "take (length here) en = here \<Longrightarrow> dirs_left here en = []"
  "take (length here) en \<noteq> here \<Longrightarrow> dirs_left here en = here # dirs_left (butlast here) en"
  by (simp_all add: dirs_left.simps [of here en])

declare close_up.simps [simp del]

lemma close_up_here: "take (length (lv_ename lv)) en = lv_ename lv \<Longrightarrow> close_up ct en meta_ofs tmax (lv # lvs) f = Inr (lv # lvs, f)"
  by (subst close_up.simps) simp

lemma close_up_leave:
  assumes "take (length (lv_ename lv)) en \<noteq> lv_ename lv" "level_write ct lv (p # ps) f = Inr (children, p' # ps, f')"
  shows "close_up ct en meta_ofs tmax (lv # p # ps) f = close_up ct en meta_ofs tmax (put_entry (dir_entry (lv_ename lv) meta_ofs tmax) children p' # ps) f'"
  using assms by (subst close_up.simps) simp

lemma close_up_ok:
  assumes "stack_ok ct H f levels chss here out" "tmax_ok tmax" "0 \<le> meta_ofs" "meta_ofs < 256 ^ 8"
    and "H + out_bytes ct out + dir_bytes ct (dirs_left here en) < 256 ^ 8" "length out + length (dirs_left here en) < 256 ^ 4"
  shows "\<exists>levels' f' css c outs. close_up ct en meta_ofs tmax levels f = Inr (levels', f') \<and> take (length c) en = c \<and> length c \<le> length here \<and>
     stack_ok ct H f' levels' css c (out @ outs) \<and> list_all2 (entry_for tmax) (map (\<lambda>d. (d, None)) (dirs_left here en)) outs \<and>
     out_bytes ct outs = dir_bytes ct (dirs_left here en) \<and>
     (if c = [] \<and> here \<noteq> [] then \<exists>e. root_entries levels' = root_entries levels @ [e] \<and> base_of e = hd here \<and> take 1 en \<noteq> [hd here]
      else root_entries levels' = root_entries levels)"
  using assms(1,5,6)
proof (induction here arbitrary: levels f chss out rule: rev_induct)
  case Nil
  then have "map lv_ename levels = [[]]" by (simp add: stack_ok_def up_Nil)
  then obtain lv where "levels = [lv]" "lv_ename lv = []" by auto
  then have "close_up ct en meta_ofs tmax levels f = Inr (levels, f)" by (simp add: close_up_here)
  then show ?case using Nil(1) by (intro exI [of _ levels] exI [of _ f] exI [of _ chss] exI [of _ "[]"]) (simp add: dirs_left_simps out_bytes_def dir_bytes_def)
next
  case (snoc x here)
  have "map lv_ename levels = (here @ [x]) # up here" using snoc.prems(1) by (simp add: stack_ok_def up_snoc)
  moreover have "up here \<noteq> []" by (simp add: up_def)
  ultimately obtain lv p ps where lv: "levels = lv # p # ps" "lv_ename lv = here @ [x]" "map lv_ename (p # ps) = up here"
    by (cases levels; cases "tl levels") auto
  show ?case
  proof (cases "take (length (here @ [x])) en = here @ [x]")
    case True
    then have "close_up ct en meta_ofs tmax levels f = Inr (levels, f)" using lv by (simp add: close_up_here)
    then show ?thesis using snoc.prems(1) True
      by (intro exI [of _ levels] exI [of _ f] exI [of _ chss] exI [of _ "here @ [x]"]) (simp add: dirs_left_simps out_bytes_def dir_bytes_def)
  next
    case False
    then have dl: "dirs_left (here @ [x]) en = (here @ [x]) # dirs_left here en" using dirs_left_simps(2) [OF False] by simp
    let ?n = "dir_entry (here @ [x]) meta_ofs tmax"
    note b = stack_bounds [OF snoc.prems(1) [unfolded lv(1)]]
    have fb: "length f < 256 ^ 8" "length (lv_list lv) < 256 ^ 4" using b snoc.prems(2,3) by linarith+
    have n: "ix_basename ?n = Some x" by (simp add: dir_entry_def BlankNewEntry_def fixup_def)
    have nf: "fits ct ?n" by (rule dir_entry_fits [OF assms(2,3,4)])
    define n' where "n' = ?n\<lparr>ix_children_ofs := int (length f), ix_children_n := int (length (lv_list lv))\<rparr>"
    obtain p' g css where s: "level_write ct lv (p # ps) f = Inr ((length f, length (lv_list lv)), p' # ps, f @ g)" "lv_list p' = lv_list p"
      "stack_ok ct H (f @ g) (put_entry ?n (length f, length (lv_list lv)) p' # ps) css here (out @ [(concat (here @ [x]), n')])"
      using leave_level [OF snoc.prems(1) [unfolded lv(1)] n nf fb, folded n'_def] by (elim exE conjE) (rule that)
    let ?levels = "put_entry ?n (length f, length (lv_list lv)) p' # ps"
    have cu: "close_up ct en meta_ofs tmax levels f = close_up ct en meta_ofs tmax ?levels (f @ g)"
      using close_up_leave [OF _ s(1)] False unfolding lv(1,2) by simp
    have base: "base_of n' = x" by (simp add: n'_def base_of_def n)
    have ob: "out_bytes ct [(concat (here @ [x]), n')] = length x + 1 + ENTLEN ct" by (simp add: out_bytes_def ebytes_def base)
    have room: "H + out_bytes ct (out @ [(concat (here @ [x]), n')]) + dir_bytes ct (dirs_left here en) < 256 ^ 8"
      "length (out @ [(concat (here @ [x]), n')]) + length (dirs_left here en) < 256 ^ 4"
      using snoc.prems(2,3) unfolding out_bytes_append ob dl by (simp_all add: dir_bytes_def)
    obtain levels' f' css' c outs where r: "close_up ct en meta_ofs tmax ?levels (f @ g) = Inr (levels', f')" "take (length c) en = c" "length c \<le> length here"
      "stack_ok ct H f' levels' css' c ((out @ [(concat (here @ [x]), n')]) @ outs)"
      "list_all2 (entry_for tmax) (map (\<lambda>d. (d, None)) (dirs_left here en)) outs" "out_bytes ct outs = dir_bytes ct (dirs_left here en)"
      "if c = [] \<and> here \<noteq> [] then \<exists>e. root_entries levels' = root_entries ?levels @ [e] \<and> base_of e = hd here \<and> take 1 en \<noteq> [hd here]
       else root_entries levels' = root_entries ?levels"
      using snoc.IH [OF s(3) room] by (elim exE conjE) (rule that)
    have n'for: "entry_for tmax (here @ [x], None) (concat (here @ [x]), n')"
      unfolding entry_for_def n'_def by (simp add: dir_entry_def BlankNewEntry_def fixup_def)
    have len: "length (p # ps) = Suc (length here)" using arg_cong [OF lv(3), of length] by (simp add: length_up)
    have re: "if c = [] \<and> here @ [x] \<noteq> [] then \<exists>e. root_entries levels' = root_entries levels @ [e] \<and> base_of e = hd (here @ [x]) \<and> take 1 en \<noteq> [hd (here @ [x])]
       else root_entries levels' = root_entries levels"
    proof (cases "here = []")
      case True
      then have "ps = []" using len by simp
      then have "root_entries ?levels = root_entries levels @ [n']" using s(2) by (simp add: root_entries_def put_entry_def n'_def lv(1))
      moreover have "c = []" using r(3) True by simp
      ultimately show ?thesis using r(7) True base False by auto
    next
      case False
      then have "ps \<noteq> []" using len by auto
      then have "root_entries ?levels = root_entries levels" by (simp add: root_entries_def lv(1))
      then show ?thesis using r(7) False by (auto split: if_splits)
    qed
    have "stack_ok ct H f' levels' css' c (out @ ((concat (here @ [x]), n') # outs))" using r(4) by simp
    moreover have "list_all2 (entry_for tmax) (map (\<lambda>d. (d, None)) (dirs_left (here @ [x]) en)) ((concat (here @ [x]), n') # outs)"
      unfolding dl using n'for r(5) by simp
    moreover have "out_bytes ct ((concat (here @ [x]), n') # outs) = dir_bytes ct (dirs_left (here @ [x]) en)"
      using ob r(6) unfolding dl by (simp add: out_bytes_def dir_bytes_def)
    moreover have "length c \<le> length (here @ [x])" using r(3) by simp
    ultimately show ?thesis unfolding cu r(1) using r(2) re by blast
  qed
qed

lemma stack_out_new:
  "stack_out (map new_level ns @ levels) (map (\<lambda>_. []) ns @ chss) = stack_out levels chss"
  "pending_bytes ct (map new_level ns @ levels) (map (\<lambda>_. []) ns @ chss) = pending_bytes ct levels chss"
  by (induction ns) (simp_all add: new_level_def)

lemma open_down_ok:
  assumes "stack_ok ct H f levels chss c out" "take (length c) en = c" "names_ok en"
  shows "\<exists>css. stack_ok ct H f (open_down en levels) css en out" "root_entries (open_down en levels) = root_entries levels"
proof -
  have m: "map lv_ename levels = up c" using assms(1) by (simp add: stack_ok_def)
  then have ne: "levels \<noteq> []" by (auto simp: up_def)
  then have c: "lv_ename (hd levels) = c" using m hd_up [of c] by (metis list.map_sel(1))
  let ?ns = "rev (map (\<lambda>i. take i en) [length c + 1 ..< length en + 1])"
  have od: "open_down en levels = map new_level ?ns @ levels" by (simp add: open_down_def c rev_map)
  have lc: "length c \<le> length en" using assms(2) by (metis length_take min.cobounded1)
  have "[0 ..< Suc (length en)] = [0 ..< Suc (length c)] @ [length c + 1 ..< length en + 1]"
    using upt_add_eq_append [of 0 "Suc (length c)" "length en - length c"] lc by simp
  then have "up en = ?ns @ map (\<lambda>i. take i en) (rev [0 ..< Suc (length c)])" by (simp add: up_def rev_map)
  also have "map (\<lambda>i. take i en) (rev [0 ..< Suc (length c)]) = up c"
  proof -
    have "take i en = take i c" if "i \<le> length c" for i using assms(2) that by (metis min.absorb1 take_take)
    then show ?thesis by (auto simp: up_def)
  qed
  finally have "map lv_ename (map new_level ?ns @ levels) = up en" using m by (simp add: new_level_def comp_def)
  moreover have "list_all2 (level_ok ct f) (map new_level ?ns) (map (\<lambda>_. []) ?ns)"
    by (simp add: list_all2_conv_all_nth level_ok_def new_level_def)
  moreover have "list_all2 (level_ok ct f) levels chss" "stack_out levels chss = out" "length f + pending_bytes ct levels chss = H + out_bytes ct out"
    using assms(1) by (simp_all add: stack_ok_def)
  ultimately have "stack_ok ct H f (map new_level ?ns @ levels) (map (\<lambda>_. []) ?ns @ chss) en out"
    unfolding stack_ok_def stack_out_new using assms(3) by (simp add: list_all2_appendI)
  then show "\<exists>css. stack_ok ct H f (open_down en levels) css en out" unfolding od by blast
  show "root_entries (open_down en levels) = root_entries levels" using ne by (simp add: od root_entries_def)
qed

text \<open>An entry is added: the directories left, and itself.\<close>

lemma golevel_add:
  assumes st: "stack_ok ct H f levels chss here out" and t: "tmax_ok tmax" "0 \<le> meta_ofs" "meta_ofs < 256 ^ 8"
    and e: "names_ok (en @ [x])" "ix_basename e = Some x" "fits ct e"
    and room: "H + out_bytes ct out + dir_bytes ct (dirs_left here (en @ [x])) < 256 ^ 8" "length out + length (dirs_left here (en @ [x])) < 256 ^ 4"
  shows "\<exists>lv levels' f' css outs. golevel ct (en @ [x]) (Some e) meta_ofs tmax levels f = Inr (lv, levels', f') \<and>
     stack_ok ct H f' levels' css en (out @ outs) \<and>
     list_all2 (entry_for tmax) (map (\<lambda>d. (d, None)) (dirs_left here (en @ [x])) @ [(en @ [x], Some e)]) outs \<and>
     out_bytes ct outs = dir_bytes ct (dirs_left here (en @ [x])) + (length x + 1 + ENTLEN ct) \<and>
     (root_entries levels = [] \<longrightarrow> here = [] \<or> hd here = hd (en @ [x]) \<longrightarrow>
        (if en = [] then \<exists>e'. root_entries levels' = [e'] \<and> base_of e' = x else root_entries levels' = []))"
proof -
  let ?en = "en @ [x]"
  obtain levels1 f1 css1 c outs1 where r: "close_up ct ?en meta_ofs tmax levels f = Inr (levels1, f1)" "take (length c) ?en = c"
      "length c \<le> length here" "stack_ok ct H f1 levels1 css1 c (out @ outs1)"
      "list_all2 (entry_for tmax) (map (\<lambda>d. (d, None)) (dirs_left here ?en)) outs1" "out_bytes ct outs1 = dir_bytes ct (dirs_left here ?en)"
      "if c = [] \<and> here \<noteq> [] then \<exists>e. root_entries levels1 = root_entries levels @ [e] \<and> base_of e = hd here \<and> take 1 ?en \<noteq> [hd here]
       else root_entries levels1 = root_entries levels"
    using close_up_ok [OF st t room] by (elim exE conjE) (rule that)
  obtain css2 where s2: "stack_ok ct H f1 (open_down ?en levels1) css2 ?en (out @ outs1)" using open_down_ok(1) [OF r(4,2) e(1)] by blast
  have re2: "root_entries (open_down ?en levels1) = root_entries levels1" by (rule open_down_ok(2) [OF r(4,2) e(1)])
  have m: "map lv_ename (open_down ?en levels1) = ?en # up en" using s2 by (simp add: stack_ok_def up_snoc)
  moreover have "up en \<noteq> []" by (simp add: up_def)
  ultimately obtain lv p ps where lv: "open_down ?en levels1 = lv # p # ps" "lv_ename lv = ?en" "map lv_ename (p # ps) = up en"
    by (cases "open_down ?en levels1"; cases "tl (open_down ?en levels1)") auto
  have lb: "length outs1 = length (dirs_left here ?en)" using list_all2_lengthD [OF r(5)] by simp
  note b = stack_bounds [OF s2 [unfolded lv(1)]]
  have fb: "length f1 < 256 ^ 8" "length (lv_list lv) < 256 ^ 4" using b room r(6) lb by (simp_all add: out_bytes_append)
  define e' where "e' = e\<lparr>ix_children_ofs := int (length f1), ix_children_n := int (length (lv_list lv))\<rparr>"
  obtain p' g css where s: "level_write ct lv (p # ps) f1 = Inr ((length f1, length (lv_list lv)), p' # ps, f1 @ g)" "lv_list p' = lv_list p"
      "stack_ok ct H (f1 @ g) (put_entry e (length f1, length (lv_list lv)) p' # ps) css en ((out @ outs1) @ [(concat ?en, e')])"
    using leave_level [OF s2 [unfolded lv(1)] e(2,3) fb, folded e'_def] by (elim exE conjE) (rule that)
  let ?levels = "put_entry e (length f1, length (lv_list lv)) p' # ps"
  have "levels \<noteq> []" using st by (auto simp: stack_ok_def up_def)
  then have g: "golevel ct ?en (Some e) meta_ofs tmax levels f = Inr (lv, ?levels, f1 @ g)"
    unfolding golevel_def r(1) using lv(1,2) s(1) by simp
  have base: "base_of e' = x" by (simp add: e'_def base_of_def e(2))
  have ob: "out_bytes ct (outs1 @ [(concat ?en, e')]) = dir_bytes ct (dirs_left here ?en) + (length x + 1 + ENTLEN ct)"
    using r(6) by (simp add: out_bytes_def ebytes_def base)
  have for_e: "entry_for tmax (?en, Some e) (concat ?en, e')" by (simp add: entry_for_def e'_def)
  have len: "length (p # ps) = Suc (length en)" using arg_cong [OF lv(3), of length] by (simp add: length_up)
  have re: "if en = [] then \<exists>e'. root_entries ?levels = [e'] \<and> base_of e' = x else root_entries ?levels = []"
    if "root_entries levels = []" "here = [] \<or> hd here = hd ?en"
  proof -
    have "\<not> (c = [] \<and> here \<noteq> [])"
    proof
      assume "c = [] \<and> here \<noteq> []"
      then have "take 1 ?en \<noteq> [hd here]" "here \<noteq> []" using r(7) by (auto split: if_splits)
      then show False using that(2) by (cases en) auto
    qed
    then have r0: "root_entries (lv # p # ps) = []" using r(7) re2 that(1) unfolding lv(1) by (auto split: if_splits)
    show ?thesis
    proof (cases "en = []")
      case True
      then have "ps = []" using len by simp
      then show ?thesis using True r0 s(2) base by (simp add: root_entries_def put_entry_def e'_def base_of_def)
    next
      case False
      then have "ps \<noteq> []" using len by auto
      then show ?thesis using False r0 by (simp add: root_entries_def)
    qed
  qed
  have "stack_ok ct H (f1 @ g) ?levels css en (out @ (outs1 @ [(concat ?en, e')]))" using s(3) by simp
  moreover have "list_all2 (entry_for tmax) (map (\<lambda>d. (d, None)) (dirs_left here ?en) @ [(?en, Some e)]) (outs1 @ [(concat ?en, e')])"
    using r(5) for_e by (simp add: list_all2_appendI)
  ultimately show ?thesis unfolding g using ob re by blast
qed

text \<open>The end of the index: all levels are closed, and the root's one entry is written.\<close>

lemma golevel_end:
  assumes st: "stack_ok ct H f levels chss here out" and t: "tmax_ok tmax" "0 \<le> meta_ofs" "meta_ofs < 256 ^ 8"
    and room: "H + out_bytes ct out + dir_bytes ct (dirs_left here []) < 256 ^ 8" "length out + length (dirs_left here []) < 256 ^ 4"
    and phase: "root_entries levels = [] \<and> here \<noteq> [] \<and> hd here = ''/'' \<or> here = [] \<and> (\<exists>e. root_entries levels = [e] \<and> base_of e = ''/'')"
  shows "\<exists>root f' e ch ofs outs. golevel ct [] None meta_ofs tmax levels f = Inr (root, [], f') \<and>
     laid_out ct f' (Tree e ch Empty) ofs \<and> length f' = ofs + 2 + ENTLEN ct \<and> base_of e = ''/'' \<and>
     entries_of [] (Tree e ch Empty) = out @ outs \<and> lv_count root = int (fsize ch) \<and>
     list_all2 (entry_for tmax) (map (\<lambda>d. (d, None)) (dirs_left here [])) outs \<and> length f' = H + out_bytes ct (out @ outs) \<and>
     out_bytes ct outs = dir_bytes ct (dirs_left here [])"
proof -
  obtain levels1 f1 css1 c outs where r: "close_up ct [] meta_ofs tmax levels f = Inr (levels1, f1)" "take (length c) [] = c"
      "length c \<le> length here" "stack_ok ct H f1 levels1 css1 c (out @ outs)"
      "list_all2 (entry_for tmax) (map (\<lambda>d. (d, None)) (dirs_left here [])) outs" "out_bytes ct outs = dir_bytes ct (dirs_left here [])"
      "if c = [] \<and> here \<noteq> [] then \<exists>e. root_entries levels1 = root_entries levels @ [e] \<and> base_of e = hd here \<and> take 1 [] \<noteq> [hd here]
       else root_entries levels1 = root_entries levels"
    using close_up_ok [OF st t room] by (elim exE conjE) (rule that)
  have c: "c = []" using r(2) by simp
  have "map lv_ename levels1 = [[]]" using r(4) by (simp add: stack_ok_def c up_Nil)
  then obtain root where root: "levels1 = [root]" "lv_ename root = []" by auto
  obtain e where e: "lv_list root = [e]" "base_of e = ''/''"
    using r(7) phase by (auto simp: c root(1) root_entries_def)
  obtain chs where chs: "css1 = [chs]" "level_ok ct f1 root chs" using r(4) by (auto simp: stack_ok_def root(1) list_all2_Cons1)
  then obtain ch where ch: "chs = [ch]" "child_ok ct f1 e ch" by (auto simp: level_ok_def e(1) list_all2_Cons1)
  have F: "forest_of (lv_list root) chs = Tree e ch Empty" by (simp add: e(1) ch(1))
  obtain g where g: "entries_write ct (lv_list root) f1 = Inr (f1 @ g)" "length g = fbytes ct (Tree e ch Empty)" "laid_out ct (f1 @ g) (Tree e ch Empty) (length f1)"
    using entries_write_ok [of ct f1 "lv_list root" chs] chs(2) unfolding F level_ok_def by blast
  have w: "level_write ct root [] f1 = Inr ((length f1, 1), [], f1 @ g)" by (simp add: level_write_def g(1)) (simp add: e(1))
  have "levels \<noteq> []" using st by (auto simp: stack_ok_def up_def)
  moreover have "open_down [] levels1 = levels1" by (simp add: open_down_def root)
  ultimately have gl: "golevel ct [] None meta_ofs tmax levels f = Inr (root, [], f1 @ g)"
    unfolding golevel_def r(1) using w by (simp add: root)
  have o: "entries_of [] (Tree e ch Empty) = out @ outs" using r(4) by (simp add: stack_ok_def root chs(1) F)
  have "length f1 + pending_bytes ct levels1 css1 = H + out_bytes ct (out @ outs)" using r(4) by (simp add: stack_ok_def)
  moreover have "pending_bytes ct levels1 css1 = length g" by (simp add: root(1) chs(1) F g(2))
  ultimately have l: "length (f1 @ g) = H + out_bytes ct (out @ outs)" by simp
  have "length (f1 @ g) = length f1 + 2 + ENTLEN ct" by (simp add: g(2) e(2))
  moreover have "lv_count root = int (fsize ch)" using chs(2) by (simp add: level_ok_def ch(1))
  ultimately show ?thesis using gl g(3) e(2) o r(5,6) l by blast
qed

section \<open>A whole index\<close>

fun add_all :: "c_types \<Rightarrow> bytes \<Rightarrow> (bytes list \<times> entry) list \<Rightarrow> index_writer \<Rightarrow> index_writer res" where
  "add_all ct em [] w = Inr w"
| "add_all ct em ((en, e) # adds) w = res_bind (writer_add_entry ct em en e w) (add_all ct em adds)"

text \<open>The entries of the index: those added, and those for the directories left.\<close>

fun fill :: "bytes list \<Rightarrow> (bytes list \<times> entry) list \<Rightarrow> (bytes list \<times> entry option) list" where
  "fill here [] = map (\<lambda>d. (d, None)) (dirs_left here [])"
| "fill here ((en, e) # adds) = map (\<lambda>d. (d, None)) (dirs_left here en) @ (en, Some e) # fill (butlast en) adds"

definition fill_bytes :: "c_types \<Rightarrow> (bytes list \<times> entry option) list \<Rightarrow> nat" where
  "fill_bytes ct ds = dir_bytes ct (map fst ds)"

lemma fill_bytes_simps:
  "fill_bytes ct (map (\<lambda>d. (d, None)) ds) = dir_bytes ct ds"
  "fill_bytes ct (xs @ ys) = fill_bytes ct xs + fill_bytes ct ys"
  "fill_bytes ct (x # xs) = length (last (fst x)) + 1 + ENTLEN ct + fill_bytes ct xs"
  by (simp_all add: fill_bytes_def dir_bytes_def comp_def)

text \<open>The place of the empty metadata is in range, now and after it is stored.\<close>

definition meta_room :: "bytes \<Rightarrow> metastore \<Rightarrow> bool" where
  "meta_room em ms \<longleftrightarrow> em \<noteq> [] \<and>
     (case ms_offsets ms em of
        Some (Suc ofs) \<Rightarrow> Suc ofs < 256 ^ 8
      | _ \<Rightarrow> length (ms_file ms) + (if ms_file ms = [] then 2 else 1) * length em < 256 ^ 8)"

lemma meta_store_ok:
  assumes "meta_room em ms"
  shows "fst (meta_store em ms) < 256 ^ 8" "meta_room em (snd (meta_store em ms))"
proof -
  have "fst (meta_store em ms) < 256 ^ 8 \<and> meta_room em (snd (meta_store em ms))"
  proof (cases "\<exists>ofs. ms_offsets ms em = Some (Suc ofs)")
    case True
    then show ?thesis using assms by (auto simp: meta_room_def meta_store_def)
  next
    case False
    then have m: "meta_store em ms = (length (ms_file ms), \<lparr>ms_offsets = (ms_offsets ms)(em \<mapsto> length (ms_file ms)), ms_file = ms_file ms @ em\<rparr>)"
      "length (ms_file ms) + (if ms_file ms = [] then 2 else 1) * length em < 256 ^ 8" "em \<noteq> []"
      using assms by (auto simp: meta_room_def meta_store_def split: option.splits nat.splits)
    then show ?thesis by (cases "ms_file ms") (auto simp: meta_room_def)
  qed
  then show "fst (meta_store em ms) < 256 ^ 8" "meta_room em (snd (meta_store em ms))" by simp_all
qed

lemma entries_write_prefix: "entries_write ct es f = Inr f' \<Longrightarrow> prefix f f'"
proof (induction es arbitrary: f)
  case (Cons e es)
  then obtain f1 where f1: "entry_write ct e f = Inr f1" "entries_write ct es f1 = Inr f'" by (auto simp: res_simps)
  then have "prefix f f1" by (auto simp: entry_write_def res_simps split: option.splits)
  then show ?case using Cons.IH [OF f1(2)] by (rule prefix_order.trans)
qed simp

lemma level_write_prefix: "level_write ct lv ps f = Inr (c, ps', f') \<Longrightarrow> prefix f f'"
  by (auto simp: level_write_def res_simps dest: entries_write_prefix)

lemma close_up_prefix: "close_up ct en meta_ofs tmax levels f = Inr (levels', f') \<Longrightarrow> prefix f f'"
proof (induction "length levels" arbitrary: levels f rule: less_induct)
  case less
  show ?case
  proof (cases levels)
    case Nil
    then show ?thesis using less.prems by (simp add: close_up.simps)
  next
    case (Cons lv lvs)
    show ?thesis
    proof (cases "take (length (lv_ename lv)) en = lv_ename lv")
      case True
      then show ?thesis using less.prems Cons close_up_here [OF True] by simp
    next
      case False
      obtain children ps f1 where w: "level_write ct lv lvs f = Inr (children, ps, f1)"
        using less.prems False unfolding Cons by (subst (asm) close_up.simps) (auto simp: res_simps)
      then obtain p qs where lvs: "lvs = p # qs" using less.prems False unfolding Cons by (subst (asm) close_up.simps) (cases lvs, auto)
      then have "close_up ct en meta_ofs tmax (put_entry (dir_entry (lv_ename lv) meta_ofs tmax) children (hd ps) # qs) f1 = Inr (levels', f')"
        using less.prems False w unfolding Cons by (subst (asm) close_up.simps) simp
      then have "prefix f1 f'" by (rule less.hyps [rotated]) (simp add: Cons lvs)
      then show ?thesis using level_write_prefix [OF w] by (blast intro: prefix_order.trans)
    qed
  qed
qed

lemma golevel_prefix:
  assumes "golevel ct en ne meta_ofs tmax levels f = Inr (lv, levels', f')"
  shows "prefix f f'"
proof -
  obtain levels1 f1 where a: "close_up ct en meta_ofs tmax levels f = Inr (levels1, f1)"
    using assms unfolding golevel_def by (auto simp: res_simps)
  then obtain c ps where "level_write ct (hd (open_down en levels1)) (tl (open_down en levels1)) f1 = Inr (c, ps, f')"
    using assms unfolding golevel_def by (auto simp: res_simps Let_def)
  then show ?thesis using close_up_prefix [OF a] level_write_prefix by (blast intro: prefix_order.trans)
qed

definition add_ok :: "c_types \<Rightarrow> bytes list \<times> entry \<Rightarrow> bool" where
  "add_ok ct a \<longleftrightarrow> fst a \<noteq> [] \<and> names_ok (fst a) \<and> hd (fst a) = ''/'' \<and> ix_basename (snd a) = Some (last (fst a)) \<and> fits ct (snd a)"

text \<open>The file that results: the tree of entries with its root's record at the end, and the footer.\<close>

definition index_file :: "c_types \<Rightarrow> bytes \<Rightarrow> forest \<Rightarrow> bytes \<Rightarrow> bool" where
  "index_file ct f F foot \<longleftrightarrow> (\<exists>e ch ofs. F = Tree e ch Empty \<and> laid_out ct f F ofs \<and> length f = ofs + 2 + ENTLEN ct \<and> base_of e = ''/'' \<and>
     foot = be_bytes 8 (if ch = Empty then 0 else fsize F))"

lemma flush_ok:
  assumes st: "stack_ok ct H (iw_f w) (iw_levels w) chss here out" and t: "tmax_ok (iw_tmax w)" and m: "meta_room em (iw_metastore w)"
    and room: "H + out_bytes ct out + fill_bytes ct (fill here []) < 256 ^ 8" "length out + length (fill here []) < 256 ^ 4"
    and phase: "root_entries (iw_levels w) = [] \<and> here \<noteq> [] \<and> hd here = ''/'' \<or> here = [] \<and> (\<exists>e. root_entries (iw_levels w) = [e] \<and> base_of e = ''/'')"
  shows "\<exists>w' f' F foot outs. writer_flush ct em w = Inr w' \<and> iw_f w' = f' @ foot \<and> index_file ct f' F foot \<and> prefix (iw_f w) f' \<and>
     entries_of [] F = out @ outs \<and> list_all2 (entry_for (iw_tmax w)) (fill here []) outs \<and> length f' = H + out_bytes ct (out @ outs)"
proof -
  obtain mo ms where ms: "meta_store em (iw_metastore w) = (mo, ms)" by fastforce
  then have mo: "0 \<le> int mo" "int mo < 256 ^ 8" using meta_store_ok(1) [OF m] by simp_all
  have rm: "H + out_bytes ct out + dir_bytes ct (dirs_left here []) < 256 ^ 8" "length out + length (dirs_left here []) < 256 ^ 4"
    using room by (simp_all add: fill_bytes_simps)
  obtain root f' e ch ofs outs where g: "golevel ct [] None (int mo) (iw_tmax w) (iw_levels w) (iw_f w) = Inr (root, [], f')"
      "laid_out ct f' (Tree e ch Empty) ofs" "length f' = ofs + 2 + ENTLEN ct" "base_of e = ''/''"
      "entries_of [] (Tree e ch Empty) = out @ outs" "lv_count root = int (fsize ch)"
      "list_all2 (entry_for (iw_tmax w)) (map (\<lambda>d. (d, None)) (dirs_left here [])) outs" "length f' = H + out_bytes ct (out @ outs)"
    using golevel_end [OF st t mo rm phase] by (elim exE conjE) (rule that)
  have ne: "iw_levels w \<noteq> []" using st by (auto simp: stack_ok_def up_def)
  then have go: "writer_go ct em [] None w = Inr (root, w\<lparr>iw_levels := [], iw_f := f', iw_metastore := ms\<rparr>)"
    unfolding writer_go_def ms by (simp add: g(1))
  have len: "Suc (fsize ch) = length (out @ outs)" using entries_of_count [of "[]" "Tree e ch Empty"] unfolding g(5) by simp
  have "length outs = length (dirs_left here [])" using list_all2_lengthD [OF g(7)] by simp
  then have small: "fsize ch + 1 < 256 ^ 4" using len rm(2) by simp
  have z: "fsize ch = 0 \<longleftrightarrow> ch = Empty" by (cases ch) simp_all
  define foot where "foot = be_bytes 8 (if ch = Empty then 0 else fsize (Tree e ch Empty))"
  let ?count = "if lv_count root \<noteq> 0 then lv_count root + 1 else 0"
  have n: "nat ?count = (if ch = Empty then 0 else fsize (Tree e ch Empty))" "0 \<le> ?count" "?count < 256 ^ 8"
    using small z by (auto simp: g(6))
  have "struct_pack [FU 8] [VI ?count] = Inr foot" unfolding foot_def n(1) [symmetric] using n(2,3) by simp
  then have "writer_flush ct em w = Inr (w\<lparr>iw_levels := [], iw_f := f' @ foot, iw_metastore := ms, iw_count := ?count\<rparr>)"
    unfolding writer_flush_def using ne by (simp add: go Let_def)
  moreover have "index_file ct f' (Tree e ch Empty) foot" unfolding index_file_def foot_def using g(2,3,4) by blast
  moreover have "prefix (iw_f w) f'" by (rule golevel_prefix [OF g(1)])
  ultimately show ?thesis using g(5,7,8) by (intro exI conjI) (assumption | simp)+
qed

lemma fill_add_length: "length (fill here ((en, e) # adds)) = length (dirs_left here en) + 1 + length (fill (butlast en) adds)" by simp

lemma adds_ok:
  assumes "stack_ok ct H (iw_f w) (iw_levels w) chss here out" "tmax_ok (iw_tmax w)" "meta_room em (iw_metastore w)"
    and "sorted_wrt (\<lambda>a b. fst b < fst a) adds" "\<forall>l. iw_lastfile w = Some l \<longrightarrow> (\<forall>a\<in>set adds. fst a < l)" "list_all (add_ok ct) adds"
    and "H + out_bytes ct out + fill_bytes ct (fill here adds) < 256 ^ 8" "length out + length (fill here adds) < 256 ^ 4"
    and "root_entries (iw_levels w) = [] \<and> (here = [] \<or> hd here = ''/'') \<and> (adds \<noteq> [] \<or> here \<noteq> []) \<or>
      adds = [] \<and> here = [] \<and> (\<exists>e. root_entries (iw_levels w) = [e] \<and> base_of e = ''/'')"
  shows "\<exists>w' f' F foot outs. res_bind (add_all ct em adds w) (writer_flush ct em) = Inr w' \<and> iw_f w' = f' @ foot \<and>
     index_file ct f' F foot \<and> prefix (iw_f w) f' \<and> entries_of [] F = out @ outs \<and>
     list_all2 (entry_for (iw_tmax w)) (fill here adds) outs \<and> length f' = H + out_bytes ct (out @ outs)"
  using assms
proof (induction adds arbitrary: w chss here out)
  case Nil
  then show ?case using flush_ok [of ct H w chss here out em] by auto
next
  case (Cons a adds)
  obtain en e where a: "a = (en, e)" by (cases a)
  have ok: "en \<noteq> []" "names_ok en" "hd en = ''/''" "ix_basename e = Some (last en)" "fits ct e"
    using Cons.prems(6) by (simp_all add: a add_ok_def)
  have enx: "en = butlast en @ [last en]" using ok(1) by simp
  obtain mo ms where ms: "meta_store em (iw_metastore w) = (mo, ms)" by fastforce
  then have mo: "0 \<le> int mo" "int mo < 256 ^ 8" "meta_room em ms" using meta_store_ok [OF Cons.prems(3)] by simp_all
  have rm: "H + out_bytes ct out + dir_bytes ct (dirs_left here en) < 256 ^ 8" "length out + length (dirs_left here en) < 256 ^ 4"
    using Cons.prems(7,8) by (simp_all add: a fill_bytes_simps)
  obtain lv levels' f1 css outs1 where g: "golevel ct en (Some e) (int mo) (iw_tmax w) (iw_levels w) (iw_f w) = Inr (lv, levels', f1)"
      "stack_ok ct H f1 levels' css (butlast en) (out @ outs1)"
      "list_all2 (entry_for (iw_tmax w)) (map (\<lambda>d. (d, None)) (dirs_left here en) @ [(en, Some e)]) outs1"
      "out_bytes ct outs1 = dir_bytes ct (dirs_left here en) + (length (last en) + 1 + ENTLEN ct)"
      "root_entries (iw_levels w) = [] \<longrightarrow> here = [] \<or> hd here = hd en \<longrightarrow>
        (if butlast en = [] then \<exists>e'. root_entries levels' = [e'] \<and> base_of e' = last en else root_entries levels' = [])"
    using golevel_add [OF Cons.prems(1,2) mo(1,2), of "butlast en" "last en" e, folded enx, OF ok(2,4,5) rm] by (elim exE conjE) (rule that)
  let ?w = "w\<lparr>iw_lastfile := Some en, iw_levels := levels', iw_f := f1, iw_metastore := ms\<rparr>"
  have ne: "iw_levels w \<noteq> []" using Cons.prems(1) by (auto simp: stack_ok_def up_def)
  then have "writer_go ct em en (Some e) (w\<lparr>iw_lastfile := Some en\<rparr>) = Inr (lv, ?w)"
    unfolding writer_go_def by (simp add: ms g(1))
  moreover have "\<not> (l \<noteq> [] \<and> l \<le> en)" if "iw_lastfile w = Some l" for l
    using Cons.prems(5) that by (auto simp: a)
  ultimately have add: "writer_add_entry ct em en e w = Inr ?w" unfolding writer_add_entry_def by (auto split: option.splits)
  have re: "if butlast en = [] then \<exists>e'. root_entries levels' = [e'] \<and> base_of e' = last en else root_entries levels' = []"
    using g(5) Cons.prems(9) ok(3) by auto
  have hd: "hd en = hd (butlast en)" if "butlast en \<noteq> []" using that by (cases en) (auto split: if_splits)
  have last_root: "adds = []" if "butlast en = []"
  proof (rule ccontr)
    assume "adds \<noteq> []"
    then obtain b bs where b: "adds = b # bs" by (cases adds) auto
    have "fst b < en" "fst b \<noteq> []" "hd (fst b) = ''/''" using Cons.prems(4,6) by (simp_all add: a b add_ok_def)
    moreover have "en = [''/'']" using enx ok(3) that by (metis append_Nil list.sel(1))
    ultimately show False by (cases "fst b") auto
  qed
  have "length outs1 = length (dirs_left here en) + 1" using list_all2_lengthD [OF g(3)] by simp
  then have room: "H + out_bytes ct (out @ outs1) + fill_bytes ct (fill (butlast en) adds) < 256 ^ 8"
    "length (out @ outs1) + length (fill (butlast en) adds) < 256 ^ 4"
    using Cons.prems(7,8) g(4) unfolding a out_bytes_append by (simp_all add: fill_bytes_simps)
  have phase: "root_entries levels' = [] \<and> (butlast en = [] \<or> hd (butlast en) = ''/'') \<and> (adds \<noteq> [] \<or> butlast en \<noteq> []) \<or>
      adds = [] \<and> butlast en = [] \<and> (\<exists>e. root_entries levels' = [e] \<and> base_of e = ''/'')"
  proof (cases "butlast en = []")
    case True
    then have "last en = ''/''" using enx ok(3) by (metis append_Nil list.sel(1))
    then show ?thesis using True re last_root by auto
  next
    case False
    then show ?thesis using re hd ok(3) by auto
  qed
  obtain w' f' F foot outs2 where r: "res_bind (add_all ct em adds ?w) (writer_flush ct em) = Inr w'" "iw_f w' = f' @ foot"
      "index_file ct f' F foot" "prefix (iw_f ?w) f'" "entries_of [] F = (out @ outs1) @ outs2"
      "list_all2 (entry_for (iw_tmax ?w)) (fill (butlast en) adds) outs2" "length f' = H + out_bytes ct ((out @ outs1) @ outs2)"
    using Cons.IH [of ?w css "butlast en" "out @ outs1"] g(2) Cons.prems(2,4,6) mo(3) room phase by (auto simp: a)
  have "prefix (iw_f w) f'" using golevel_prefix [OF g(1)] r(4) by (auto intro: prefix_order.trans)
  moreover have "list_all2 (entry_for (iw_tmax w)) (fill (butlast en) adds) outs2" using r(6) by simp
  then have "list_all2 (entry_for (iw_tmax w)) (fill here (a # adds)) (outs1 @ outs2)"
    using list_all2_appendI [OF g(3)] by (fastforce simp: a)
  ultimately show ?case unfolding a add_all.simps add res_bind_simps
    using r(1,2,3,5,7) by (intro exI [of _ w'] exI [of _ f'] exI [of _ F] exI [of _ foot] exI [of _ "outs1 @ outs2"]) (simp add: a)
qed

section \<open>Reading the file\<close>

lemma entry_sig_text:
  "entry_sig ct = ''!'' @ (if dev_signed ct then ''q'' else ''Q'') @ ''Q'' @ (if nlink_signed ct then ''q'' else ''Q'') @ ''qQqQqQQ'' @
     (if mode_signed ct then ''ii'' else ''II'') @ ''20sHQIQ''"
proof -
  have "show_base 10 20 = ''20''" by code_simp
  then show ?thesis by (simp add: entry_sig_def entry_format_def signed_or_def)
qed

lemma entry_sig_length: "length (entry_sig ct) = 20"
  by (simp add: entry_sig_text)

lemma entry_sig_ascii: "\<not> list_ex (\<lambda>c. (of_char c :: nat) \<ge> 128) (entry_sig ct)"
  by (simp add: entry_sig_text)

lemma index_file_length: "index_file ct f F foot \<Longrightarrow> length foot = FOOTLEN"
  by (auto simp: index_file_def FOOTLEN_def calcsize_def)

lemma reader_new_ok:
  assumes "index_file ct f F foot" "prefix (index_header ct) f" "fsize F < 256 ^ 8"
  shows "reader_new ct (Some (f @ foot)) = Inr \<lparr>ir_m = f @ foot, ir_entries_start = length (index_header ct),
     ir_count = (if fsize F = 1 then 0 else int (fsize F)), ir_writable = True\<rparr>"
proof -
  obtain x where f: "f = index_header ct @ x" using assms(2) by (auto simp: prefix_def)
  have h: "take (length INDEX_SIG) (f @ foot) = INDEX_SIG"
    "drop (length INDEX_SIG) (f @ foot) = char_of (length (entry_sig ct)) # entry_sig ct @ x @ foot"
    by (simp_all add: f index_header_def)
  have ne: "INDEX_SIG \<noteq> INDEX_SIG_V7" by (simp add: INDEX_SIG_def INDEX_SIG_V7_def)
  have s: "take (of_char (char_of (length (entry_sig ct)) :: char)) (entry_sig ct @ x @ foot) = entry_sig ct"
    by (simp add: entry_sig_length)
  obtain e ch where F: "F = Tree e ch Empty" "foot = be_bytes 8 (if ch = Empty then 0 else fsize F)" using assms(1) by (auto simp: index_file_def)
  have z: "ch = Empty \<longleftrightarrow> fsize F = 1" unfolding F(1) by (cases ch) simp_all
  have fl: "length foot = FOOTLEN" by (rule index_file_length [OF assms(1)])
  have "drop (length (f @ foot) - FOOTLEN) (f @ foot) = foot" by (simp add: fl)
  moreover have "struct_unpack [FU 8] foot = Inr [VI (int (if fsize F = 1 then 0 else fsize F))]"
    using assms(3) unfolding F(2) z by (simp add: struct_unpack_def calcsize_def)
  moreover have "header_len ct INDEX_SIG = Inr (length (index_header ct))" by (simp add: header_len_def index_header_def)
  ultimately show ?thesis unfolding reader_new_def option.case h Let_def using ne entry_sig_ascii s by simp
qed

lemma root_wanted: "is_wanted name ''/'' \<longleftrightarrow> slashappend name = [] \<or> slashappend name = ''/''"
  by (cases name rule: rev_cases) (auto simp: is_wanted_def slashappend_def prefix_Cons)

lemma reader_iter_ok:
  assumes "index_file ct f F foot" "ir_m r = f @ foot" "ir_entries_start r \<le> length f - 2 - ENTLEN ct"
  shows "\<exists>hs. reader_iter ct name (\<lambda>_. True) r = (hs, None) \<and>
     heads hs = map (\<lambda>(nm, e). seen_as nm e) (filter (\<lambda>(nm, e). is_wanted name nm) (entries_of [] F))"
proof -
  obtain e ch ofs where F: "F = Tree e ch Empty" "laid_out ct f F ofs" "length f = ofs + 2 + ENTLEN ct" "base_of e = ''/''"
    using assms(1) by (auto simp: index_file_def)
  let ?m = "f @ foot"
  have lo: "laid_out ct ?m (Tree e ch Empty) ofs" using laid_out_append F(1,2) by blast
  obtain p k pre post where a: "ix_entry_ok ct e p ch" "ix_children_ofs e = int k" "?m = pre @ base_of e @ [CHR 0x00] @ p @ post"
    "length pre = ofs" "laid_out ct ?m ch k" "k + fbytes ct ch \<le> ofs"
    using lo by (simp only: laid_out.simps) (elim exE conjE, rule that)
  note lc = laid_out_child [OF a(1,3,4)]
  have fl: "length foot = FOOTLEN" by (rule index_file_length [OF assms(1)])
  let ?ofs = "length ?m - FOOTLEN - ENTLEN ct"
  have ofs: "?ofs = ofs + length (base_of e) + 1" using F(3,4) fl by simp
  have root: "existing_entry ct ''/'' ''/'' ?m ?ofs = Inr (seen_as ''/'' e)"
    unfolding ofs using lc(4) [of "''/''"] unfolding F(4) .
  have k: "k \<le> length ?m" "fdepth ch \<le> length ?m" using a(6) F(3) fdepth_le [OF a(5)] by simp_all
  obtain hs where hs: "children_iter ct ?m name (\<lambda>_. True) (length ?m) (flen ch) k [(seen_as ''/'' e, ?ofs)] = (hs, None)"
      "heads hs = map (\<lambda>(nm, e). seen_as nm e) (seen_entries name ''/'' ch)"
    using children_iter_ok [OF a(5) k(2), of "[(seen_as ''/'' e, ?ofs)]" "''/''" name] k(1) by (auto simp: seen_as_def)
  have nch: "ix_children_n e = int (flen ch)" using a(1) by (simp add: ix_entry_ok_def)
  have ei: "entry_iter ct ?m name (\<lambda>_. True) [(seen_as ''/'' e, ?ofs)] = (hs, None)"
    using hs(1) a(2) nch k(1) lc(5) by (simp add: entry_iter_def check_children_def seen_as_def)
  have big: "ir_entries_start r + ENTLEN ct < length ?m" using assms(3) F(3) by simp
  have ri: "reader_iter ct name (\<lambda>_. True) r = (hs @ (if is_wanted name ''/'' then [[(seen_as ''/'' e, ?ofs)]] else []), None)"
    unfolding reader_iter_def assms(2) Let_def root sum.case ei then_yield_simps root_wanted using big by simp
  have "dirs_ok ch" using laid_out_dirs [OF a(5)] .
  then have "seen_entries name ''/'' ch = filter (\<lambda>(nm, e). is_wanted name nm) (entries_of ''/'' ch)" by (rule seen_entries_filter)
  then show ?thesis unfolding ri using hs(2) by (simp add: F(1,4))
qed

section \<open>Paths\<close>

lemma pathsplit_slash: "CHR ''/'' \<notin> set a \<Longrightarrow> pathsplit (a @ CHR ''/'' # r) = (a @ ''/'') # pathsplit r"
  using split_on_not_Nil [of "CHR ''/''" r] by (simp add: pathsplit_def split_on_append Let_def)

lemma pathsplit_plain: "CHR ''/'' \<notin> set p \<Longrightarrow> pathsplit p = (if p = [] then [] else [p])"
  by (simp add: pathsplit_def split_on_id Let_def)

definition canon :: "bytes list \<Rightarrow> bool" where
  "canon en \<longleftrightarrow> (\<forall>x\<in>set en. x \<noteq> [] \<and> CHR ''/'' \<notin> set (butlast x)) \<and> (\<forall>x\<in>set (butlast en). suffix ''/'' x)"

lemma pathsplit_canon: "canon (pathsplit p) \<and> concat (pathsplit p) = p"
proof (induction p rule: length_induct)
  case (1 p)
  show ?case
  proof (cases "CHR ''/'' \<in> set p")
    case True
    then obtain a r where p: "p = a @ CHR ''/'' # r" "CHR ''/'' \<notin> set a" by (meson split_list_first)
    have "length r < length p" by (simp add: p(1))
    then have "canon (pathsplit r) \<and> concat (pathsplit r) = r" using 1 by blast
    then show ?thesis using p(2) unfolding p(1) pathsplit_slash [OF p(2)] by (auto simp: canon_def butlast_append suffix_def)
  next
    case False
    then show ?thesis by (auto simp: pathsplit_plain canon_def dest: in_set_butlastD)
  qed
qed

lemma canon_Cons: "canon (x # en) \<longleftrightarrow> x \<noteq> [] \<and> CHR ''/'' \<notin> set (butlast x) \<and> (en \<noteq> [] \<longrightarrow> suffix ''/'' x) \<and> canon en"
  by (auto simp: canon_def)

lemma pathsplit_concat: "canon en \<Longrightarrow> pathsplit (concat en) = en"
proof (induction en)
  case Nil
  then show ?case by (simp add: pathsplit_plain)
next
  case (Cons x en)
  then have x: "x \<noteq> []" "CHR ''/'' \<notin> set (butlast x)" "en \<noteq> [] \<longrightarrow> suffix ''/'' x" "canon en" by (simp_all add: canon_Cons)
  show ?case
  proof (cases "suffix ''/'' x")
    case True
    then have "x = butlast x @ ''/''" by (auto simp: suffix_def)
    then have "concat (x # en) = butlast x @ CHR ''/'' # concat en" by (metis append.assoc append_Cons append_Nil concat.simps(2))
    then show ?thesis using pathsplit_slash [OF x(2)] Cons.IH [OF x(4)] \<open>x = butlast x @ ''/''\<close> by metis
  next
    case False
    then have "last x \<noteq> CHR ''/''" using x(1) by (metis append_butlast_last_id suffixI)
    then have "CHR ''/'' \<notin> set x" using x(1,2) by (metis append_butlast_last_id insert_iff list.set(2) rotate1.simps(2) set_rotate1)
    then show ?thesis using False x(1,3) by (simp add: pathsplit_plain)
  qed
qed

lemma canon_Nil: "canon []" by (simp add: canon_def)

lemma canon_take: "canon en \<Longrightarrow> canon (take i en)"
proof (induction en arbitrary: i)
  case (Cons x en)
  then show ?case by (cases i) (auto simp: canon_Cons canon_Nil)
qed simp

section \<open>Writing and reading an index\<close>

fun add_ixentries :: "c_types \<Rightarrow> bytes \<Rightarrow> entry list \<Rightarrow> index_writer \<Rightarrow> index_writer res" where
  "add_ixentries ct em [] w = Inr w"
| "add_ixentries ct em (e # es) w = res_bind (writer_add_ixentry ct em e w) (add_ixentries ct em es)"

definition write_index :: "c_types \<Rightarrow> bytes \<Rightarrow> metastore \<Rightarrow> int option \<Rightarrow> entry list \<Rightarrow> bytes option res" where
  "write_index ct em ms tmax es =
     res_bind (add_ixentries ct em es (index_writer_new ct ms tmax)) (\<lambda>w. index_close ct em False w None)"

definition index_path :: "entry \<Rightarrow> bytes list" where
  "index_path e = pathsplit (the (ix_name e))"

definition index_entry_ok :: "c_types \<Rightarrow> entry \<Rightarrow> bool" where
  "index_entry_ok ct e \<longleftrightarrow> (case ix_name e of
       None \<Rightarrow> False
     | Some nm \<Rightarrow> prefix ''/'' nm \<and> CHR 0x00 \<notin> set nm \<and> ix_basename e = Some (last (pathsplit nm))) \<and> fits ct e"

text \<open>The index's contents: each path with its entry, or none where only the path of a directory is known.\<close>

definition index_contents :: "entry list \<Rightarrow> (bytes list \<times> entry option) list" where
  "index_contents es = fill [] (map (\<lambda>e. (index_path e, childless e)) es)"

definition index_fits :: "c_types \<Rightarrow> entry list \<Rightarrow> bool" where
  "index_fits ct es \<longleftrightarrow> length (index_header ct) + fill_bytes ct (index_contents es) < 256 ^ 8 \<and> length (index_contents es) < 256 ^ 4"

definition stands_for :: "int option \<Rightarrow> bytes list \<times> entry option \<Rightarrow> entry \<Rightarrow> bool" where
  "stands_for tmax d e \<longleftrightarrow> ix_name e = Some (concat (fst d)) \<and>
     (case snd d of
        Some e0 \<Rightarrow> childless e = seen_as (concat (fst d)) (childless e0)
      | None \<Rightarrow> \<exists>meta_ofs. childless e = seen_as (concat (fst d)) (dir_entry (fst d) meta_ofs tmax))"

lemma add_ixentries_all:
  assumes "list_all (index_entry_ok ct) es"
  shows "add_ixentries ct em es w = add_all ct em (map (\<lambda>e. (index_path e, childless e)) es) w"
  using assms
proof (induction es arbitrary: w)
  case (Cons e es)
  have "writer_add_ixentry ct em e = writer_add_entry ct em (index_path e) (childless e)"
    using Cons.prems by (auto simp: fun_eq_iff writer_add_ixentry_def index_entry_ok_def index_path_def split: option.splits)
  then show ?case using Cons by (simp cong: res_bind_cong)
qed simp

lemma names_pathsplit:
  assumes "prefix ''/'' nm" "CHR 0x00 \<notin> set nm"
  shows "pathsplit nm \<noteq> []" "names_ok (pathsplit nm)" "hd (pathsplit nm) = ''/''"
proof -
  obtain r where r: "nm = [] @ CHR ''/'' # r" using assms(1) by (auto simp: prefix_def)
  have p: "pathsplit nm = ''/'' # pathsplit r" unfolding r by (subst pathsplit_slash) simp_all
  then show "pathsplit nm \<noteq> []" "hd (pathsplit nm) = ''/''" by simp_all
  have c: "canon (pathsplit nm)" "concat (pathsplit nm) = nm" using pathsplit_canon by blast+
  have "CHR 0x00 \<notin> set x" if "x \<in> set (pathsplit nm)" for x
  proof -
    have "set x \<subseteq> set (concat (pathsplit nm))" using that by auto
    then show ?thesis using assms(2) unfolding c(2) by blast
  qed
  then show "names_ok (pathsplit nm)" using c(1) by (auto simp: names_ok_def canon_def base_ok_def)
qed

lemma list_all2_filter:
  assumes "list_all2 R xs ys" "\<And>x y. R x y \<Longrightarrow> P x \<longleftrightarrow> Q y"
  shows "list_all2 R (filter P xs) (filter Q ys)"
  using assms by (induction rule: list_all2_induct) auto

lemma entry_for_stands:
  assumes "entry_for tmax d x"
  shows "stands_for tmax d (seen_as (fst x) (snd x))"
proof -
  have "childless (seen_as nm e) = seen_as nm (childless e)" for nm e by (simp add: seen_as_def)
  then show ?thesis using assms by (auto simp: entry_for_def stands_for_def split: option.splits) (simp_all add: seen_as_def)
qed

lemma write_index_file:
  assumes "es \<noteq> []" "sorted_wrt (\<lambda>a b. index_path b < index_path a) es" "list_all (index_entry_ok ct) es"
    and "tmax_ok tmax" "meta_room em ms" "index_fits ct es"
  shows "\<exists>f F foot outs. write_index ct em ms tmax es = Inr (Some (f @ foot)) \<and> index_file ct f F foot \<and> prefix (index_header ct) f \<and>
     entries_of [] F = outs \<and> list_all2 (entry_for tmax) (index_contents es) outs \<and> length f = length (index_header ct) + out_bytes ct outs"
proof -
  let ?adds = "map (\<lambda>e. (index_path e, childless e)) es" and ?w = "index_writer_new ct ms tmax"
  have ok: "list_all (add_ok ct) ?adds"
    using assms(3) names_pathsplit by (auto simp: list_all_iff add_ok_def index_entry_ok_def index_path_def fits_def split: option.splits)
  have st: "stack_ok ct (length (index_header ct)) (iw_f ?w) (iw_levels ?w) [[]] [] []"
    by (simp add: index_writer_new_def stack_ok_def new_level_def up_Nil names_ok_def level_ok_def out_bytes_def)
  have t: "tmax_ok (iw_tmax ?w)" "meta_room em (iw_metastore ?w)" using assms(4,5) by (simp_all add: index_writer_new_def)
  have s: "sorted_wrt (\<lambda>a b. fst b < fst a) ?adds" using assms(2) by (simp add: sorted_wrt_map)
  have l: "\<forall>l. iw_lastfile ?w = Some l \<longrightarrow> (\<forall>a\<in>set ?adds. fst a < l)" by (simp add: index_writer_new_def)
  have room: "length (index_header ct) + out_bytes ct [] + fill_bytes ct (fill [] ?adds) < 256 ^ 8" "length [] + length (fill [] ?adds) < 256 ^ 4"
    using assms(6) by (simp_all add: index_fits_def index_contents_def out_bytes_def)
  have phase: "root_entries (iw_levels ?w) = [] \<and> ([] = [] \<or> hd [] = ''/'') \<and> (?adds \<noteq> [] \<or> [] \<noteq> []) \<or>
      ?adds = [] \<and> [] = [] \<and> (\<exists>e. root_entries (iw_levels ?w) = [e] \<and> base_of e = ''/'')"
    using assms(1) by (simp add: index_writer_new_def root_entries_def new_level_def)
  obtain w' f F foot outs where r: "res_bind (add_all ct em ?adds ?w) (writer_flush ct em) = Inr w'" "iw_f w' = f @ foot"
      "index_file ct f F foot" "prefix (iw_f ?w) f" "entries_of [] F = [] @ outs" "list_all2 (entry_for (iw_tmax ?w)) (fill [] ?adds) outs"
      "length f = length (index_header ct) + out_bytes ct ([] @ outs)"
    using adds_ok [OF st t s l ok room phase] by (elim exE conjE) (rule that)
  have "write_index ct em ms tmax es = Inr (Some (f @ foot))"
    using r(1,2) unfolding write_index_def add_ixentries_all [OF assms(3)] index_close_def by (auto simp: res_simps)
  moreover have "list_all2 (entry_for tmax) (index_contents es) outs" using r(6) by (simp add: index_contents_def index_writer_new_def)
  moreover have "prefix (index_header ct) f" using r(4) by (simp add: index_writer_new_def)
  moreover have "entries_of [] F = outs" "length f = length (index_header ct) + out_bytes ct outs" using r(5,7) by simp_all
  ultimately show ?thesis using r(3) by blast
qed

text \<open>What a reader of the index has: a count, and at each name the entries that are there or below.\<close>

definition reads_contents :: "c_types \<Rightarrow> int option \<Rightarrow> (bytes list \<times> entry option) list \<Rightarrow> index_reader \<Rightarrow> bool" where
  "reads_contents ct tmax ds r \<longleftrightarrow>
     ir_count r = (if length ds = 1 then 0 else int (length ds)) \<and>
     (\<forall>name. \<exists>hs. reader_iter ct name (\<lambda>_. True) r = (hs, None) \<and>
        list_all2 (stands_for tmax) (filter (\<lambda>d. is_wanted name (concat (fst d))) ds) (heads hs))"

lemma index_contents_read:
  assumes "es \<noteq> []" "sorted_wrt (\<lambda>a b. index_path b < index_path a) es" "list_all (index_entry_ok ct) es"
    and "tmax_ok tmax" "meta_room em ms" "index_fits ct es"
  shows "\<exists>file r. write_index ct em ms tmax es = Inr (Some file) \<and> reader_new ct (Some file) = Inr r \<and> reads_contents ct tmax (index_contents es) r"
proof -
  obtain f F foot outs where w: "write_index ct em ms tmax es = Inr (Some (f @ foot))" "index_file ct f F foot" "prefix (index_header ct) f"
      "entries_of [] F = outs" "list_all2 (entry_for tmax) (index_contents es) outs"
      "length f = length (index_header ct) + out_bytes ct outs"
    using write_index_file [OF assms] by (elim exE conjE) (rule that)
  have n: "fsize F = length (index_contents es)" using entries_of_count [of "[]" F] list_all2_lengthD [OF w(5)] w(4) by simp
  define r where "r = \<lparr>ir_m = f @ foot, ir_entries_start = length (index_header ct), ir_count = (if fsize F = 1 then 0 else int (fsize F)), ir_writable = True\<rparr>"
  have "fsize F < 256 ^ 8" using assms(6) unfolding n index_fits_def by simp
  then have new: "reader_new ct (Some (f @ foot)) = Inr r" unfolding r_def by (rule reader_new_ok [OF w(2,3)])
  obtain e ch ofs where F: "F = Tree e ch Empty" "laid_out ct f F ofs" "length f = ofs + 2 + ENTLEN ct" using w(2) by (auto simp: index_file_def)
  have "out_bytes ct outs = out_bytes ct (entries_of ''/'' ch) + (2 + ENTLEN ct)"
    using w(2,4) unfolding F(1) by (auto simp: index_file_def out_bytes_def ebytes_def)
  then have s: "ir_entries_start r \<le> length f - 2 - ENTLEN ct" using w(6) by (simp add: r_def)
  have "\<exists>hs. reader_iter ct name (\<lambda>_. True) r = (hs, None) \<and>
      list_all2 (stands_for tmax) (filter (\<lambda>d. is_wanted name (concat (fst d))) (index_contents es)) (heads hs)" for name
  proof -
    obtain hs where hs: "reader_iter ct name (\<lambda>_. True) r = (hs, None)"
        "heads hs = map (\<lambda>(nm, e). seen_as nm e) (filter (\<lambda>(nm, e). is_wanted name nm) outs)"
      using reader_iter_ok [OF w(2) _ s, of name] unfolding w(4) by (auto simp: r_def)
    have "list_all2 (entry_for tmax) (filter (\<lambda>d. is_wanted name (concat (fst d))) (index_contents es)) (filter (\<lambda>(nm, e). is_wanted name nm) outs)"
      by (rule list_all2_filter [OF w(5)]) (auto simp: entry_for_def)
    then have "list_all2 (stands_for tmax) (filter (\<lambda>d. is_wanted name (concat (fst d))) (index_contents es)) (heads hs)"
      unfolding hs(2) list_all2_map2 by (rule list_all2_mono) (auto dest: entry_for_stands)
    then show ?thesis using hs(1) by blast
  qed
  then have "reads_contents ct tmax (index_contents es) r" unfolding reads_contents_def n [symmetric] by (simp add: r_def)
  then show ?thesis using w(1) new by blast
qed

section \<open>Finding\<close>

lemma prefix_less: "prefix a b \<Longrightarrow> a \<noteq> b \<Longrightarrow> (a :: bytes list) < b"
proof (induction a arbitrary: b)
  case Nil
  then show ?case by (cases b) auto
next
  case (Cons x a)
  then show ?case by (cases b) auto
qed

lemma less_from_prefix: "(a :: bytes list) < b \<Longrightarrow> prefix d b \<Longrightarrow> \<not> prefix d a \<Longrightarrow> a < d"
proof (induction d arbitrary: a b)
  case (Cons x d)
  from Cons.prems(2) obtain b' where b: "b = x # b'" "prefix d b'" by (auto simp: prefix_def)
  then show ?case using Cons by (cases a) auto
qed simp

lemma prefix_butlast_less: "prefix d (butlast l) \<Longrightarrow> (l :: bytes list) \<noteq> [] \<Longrightarrow> prefix d l \<and> d < l"
proof -
  assume a: "prefix d (butlast l)" "l \<noteq> []"
  then have "length d < length l" using prefix_length_le [OF a(1)] by (simp add: less_eq_Suc_le [symmetric] less_Suc_eq_le [symmetric])
  moreover have "prefix d l" using a(1) by (blast intro: prefix_order.trans prefixeq_butlast)
  ultimately show ?thesis using prefix_less [of d l] by auto
qed

lemma dirs_left_mem: "d \<in> set (dirs_left here en) \<Longrightarrow> prefix d here \<and> \<not> prefix d en \<and> d \<noteq> []"
proof (induction here en rule: dirs_left.induct)
  case (1 here en)
  show ?case
  proof (cases "take (length here) en = here")
    case True
    then show ?thesis using "1.prems" by (simp add: dirs_left_simps)
  next
    case False
    then consider "d = here" | "d \<in> set (dirs_left (butlast here) en)" using "1.prems" by (auto simp: dirs_left_simps)
    then show ?thesis
    proof cases
      case 1
      then show ?thesis using False by (auto simp: prefix_def)
    next
      case 2
      then show ?thesis using "1.IH" [OF False 2] by (metis prefix_order.trans prefixeq_butlast)
    qed
  qed
qed

lemma dirs_left_sorted: "sorted_wrt (\<lambda>a b. b < a) (dirs_left here en)"
proof (induction here en rule: dirs_left.induct)
  case (1 here en)
  show ?case
  proof (cases "take (length here) en = here")
    case False
    then have ne: "here \<noteq> []" by auto
    have "d < here" if "d \<in> set (dirs_left (butlast here) en)" for d
      using dirs_left_mem [OF that] prefix_butlast_less ne by blast
    then show ?thesis using 1 False by (simp add: dirs_left_simps)
  qed (simp add: dirs_left_simps)
qed

lemma fill_sorted:
  assumes "sorted_wrt (\<lambda>a b. fst b < fst a) adds" "\<forall>a\<in>set adds. fst a < en0 \<and> fst a \<noteq> []" "en0 \<noteq> []"
  shows "sorted_wrt (\<lambda>a b. b < a) (map fst (fill (butlast en0) adds)) \<and> (\<forall>d\<in>set (map fst (fill (butlast en0) adds)). d < en0)"
  using assms
proof (induction adds arbitrary: en0)
  case Nil
  have "d < en0" if "d \<in> set (dirs_left (butlast en0) [])" for d
    using dirs_left_mem [OF that] prefix_butlast_less Nil(3) by blast
  then show ?case using dirs_left_sorted by (simp add: comp_def)
next
  case (Cons a adds)
  obtain en e where a: "a = (en, e)" by (cases a)
  have en: "en < en0" "en \<noteq> []" using Cons.prems(2) by (simp_all add: a)
  have ih: "sorted_wrt (\<lambda>a b. b < a) (map fst (fill (butlast en) adds))" "\<forall>d\<in>set (map fst (fill (butlast en) adds)). d < en"
    using Cons.IH [of en] Cons.prems(1,2) en(2) by (auto simp: a)
  have d: "en < d \<and> d < en0" if "d \<in> set (dirs_left (butlast en0) en)" for d
  proof -
    have p: "prefix d (butlast en0)" "\<not> prefix d en" using dirs_left_mem [OF that] by simp_all
    then show ?thesis using prefix_butlast_less [OF p(1) Cons.prems(3)] less_from_prefix [OF en(1) _ p(2)] by blast
  qed
  then have "sorted_wrt (\<lambda>a b. b < a) (dirs_left (butlast en0) en @ en # map fst (fill (butlast en) adds))"
    unfolding sorted_wrt_append using dirs_left_sorted ih by (auto intro: less_trans)
  then show ?case using d ih(2) en(1) by (auto simp: a comp_def)
qed

lemma contents_sorted:
  assumes "sorted_wrt (\<lambda>a b. index_path b < index_path a) es" "list_all (index_entry_ok ct) es"
  shows "sorted_wrt (\<lambda>a b. b < a) (map fst (index_contents es))"
proof (cases es)
  case Nil
  then show ?thesis by (simp add: index_contents_def dirs_left_simps)
next
  case (Cons e es')
  have "\<forall>e\<in>set es. index_path e \<noteq> []" using assms(2) names_pathsplit(1) by (auto simp: list_all_iff index_entry_ok_def index_path_def split: option.splits)
  then have "sorted_wrt (\<lambda>a b. b < a) (map fst (fill (butlast (index_path e)) (map (\<lambda>e. (index_path e, childless e)) es'))) \<and>
      (\<forall>d\<in>set (map fst (fill (butlast (index_path e)) (map (\<lambda>e. (index_path e, childless e)) es'))). d < index_path e)"
    using assms(1) Cons by (intro fill_sorted) (auto simp: sorted_wrt_map)
  then show ?thesis by (simp add: Cons index_contents_def dirs_left_simps)
qed

lemma fill_canon: "canon here \<Longrightarrow> \<forall>a\<in>set adds. canon (fst a) \<Longrightarrow> d \<in> set (fill here adds) \<Longrightarrow> canon (fst d)"
proof (induction adds arbitrary: here)
  case Nil
  then show ?case using dirs_left_mem by (auto simp: prefix_def) (metis append_eq_conv_conj canon_take)
next
  case (Cons a adds)
  have "canon x" if "x \<in> set (dirs_left here (fst a))" for x
    using dirs_left_mem [OF that] Cons.prems(1) by (auto simp: prefix_def) (metis append_eq_conv_conj canon_take)
  moreover have "canon (butlast (fst a))" using Cons.prems(2) canon_take by (auto simp: butlast_conv_take)
  ultimately show ?case using Cons by (cases a) auto
qed

lemma fill_added: "a \<in> set adds \<Longrightarrow> (fst a, Some (snd a)) \<in> set (fill here adds)"
  by (induction adds arbitrary: here) auto

lemma desc_distinct: "sorted_wrt (\<lambda>a b. b < a) (xs :: bytes list list) \<Longrightarrow> distinct xs"
  by (induction xs) auto

lemma contents_names_distinct:
  assumes "sorted_wrt (\<lambda>a b. index_path b < index_path a) es" "list_all (index_entry_ok ct) es"
  shows "distinct (map (\<lambda>d. concat (fst d)) (index_contents es))"
proof -
  have c: "\<forall>d\<in>set (index_contents es). pathsplit (concat (fst d)) = fst d"
  proof
    fix d
    assume "d \<in> set (index_contents es)"
    then have "canon (fst d)" unfolding index_contents_def by (rule fill_canon [rotated 2]) (auto simp: canon_Nil index_path_def pathsplit_canon)
    then show "pathsplit (concat (fst d)) = fst d" by (rule pathsplit_concat)
  qed
  have "distinct (map fst (index_contents es))"
    using contents_sorted [OF assms] by (rule desc_distinct)
  moreover have "map fst (index_contents es) = map pathsplit (map (\<lambda>d. concat (fst d)) (index_contents es))" using c by auto
  ultimately show ?thesis by (metis distinct_map)
qed

lemma filter_the_one: "distinct (map f xs) \<Longrightarrow> x \<in> set xs \<Longrightarrow> filter (\<lambda>y. f y = f x) xs = [x]"
proof (induction xs)
  case (Cons y ys)
  show ?case
  proof (cases "y = x")
    case True
    then have "filter (\<lambda>y. f y = f x) ys = []" using Cons.prems(1) by (auto simp: filter_empty_conv) (metis imageI)
    then show ?thesis using True by simp
  next
    case False
    then have "f y \<noteq> f x" using Cons.prems by auto
    then show ?thesis using Cons False by simp
  qed
qed simp

lemma find_contents:
  assumes "reads_contents ct tmax ds r"
  shows "\<exists>hs. reader_find ct name r = (case hs of [] \<Rightarrow> Inr None | h # _ \<Rightarrow> Inr (Some h)) \<and>
     list_all2 (stands_for tmax) (filter (\<lambda>d. concat (fst d) = name) ds) (heads hs)"
proof -
  obtain hs where hs: "reader_iter ct name (\<lambda>_. True) r = (hs, None)"
      "list_all2 (stands_for tmax) (filter (\<lambda>d. is_wanted name (concat (fst d))) ds) (heads hs)"
    using assms unfolding reads_contents_def by blast
  let ?hs = "filter (\<lambda>h. ix_name (fst (hd h)) = Some name) hs"
  have "list_all2 (\<lambda>d h. stands_for tmax d (fst (hd h))) (filter (\<lambda>d. is_wanted name (concat (fst d))) ds) hs" using hs(2) by (simp add: list_all2_map2)
  then have "list_all2 (\<lambda>d h. stands_for tmax d (fst (hd h))) (filter (\<lambda>d. concat (fst d) = name) (filter (\<lambda>d. is_wanted name (concat (fst d))) ds)) ?hs"
    by (rule list_all2_filter) (auto simp: stands_for_def)
  moreover have "filter (\<lambda>d. concat (fst d) = name) (filter (\<lambda>d. is_wanted name (concat (fst d))) ds) = filter (\<lambda>d. concat (fst d) = name) ds"
    by (auto simp: is_wanted_def intro: filter_cong)
  moreover have "reader_find ct name r = (case ?hs of [] \<Rightarrow> Inr None | h # _ \<Rightarrow> Inr (Some h))"
    unfolding reader_find_def hs(1) by (simp add: Let_def split: list.splits)
  ultimately show ?thesis by (intro exI [of _ ?hs]) (simp add: list_all2_map2)
qed

text \<open>C4: The index is what was added to it: entries are added in reverse order of their paths; the file is written
  and opens, a reader's iteration below any name gives the entries there, innermost first, as they were
  added, and an entry for every directory left that was not added; the contents are in strictly reverse
  order of their paths, and the count is that of the entries, except that an index of the root alone counts none.\<close>

theorem index_roundtrip:
  assumes "es \<noteq> []" "sorted_wrt (\<lambda>a b. index_path b < index_path a) es" "list_all (index_entry_ok ct) es"
    and "tmax_ok tmax" "meta_room em ms" "index_fits ct es"
  shows "sorted_wrt (\<lambda>a b. b < a) (map fst (index_contents es)) \<and>
     (\<exists>file r. write_index ct em ms tmax es = Inr (Some file) \<and> reader_new ct (Some file) = Inr r \<and>
        reads_contents ct tmax (index_contents es) r)"
  using index_contents_read [OF assms] contents_sorted [OF assms(2,3)] by blast

text \<open>C5: Finding in the index: each entry added is found under its name, with what was recorded for it, and a name
  that is neither an entry's nor a directory's on the way to one is not found.\<close>

theorem index_find_correct:
  assumes "es \<noteq> []" "sorted_wrt (\<lambda>a b. index_path b < index_path a) es" "list_all (index_entry_ok ct) es"
    and "tmax_ok tmax" "meta_room em ms" "index_fits ct es"
  shows "\<exists>file r. write_index ct em ms tmax es = Inr (Some file) \<and> reader_new ct (Some file) = Inr r \<and>
     (\<forall>e\<in>set es. \<exists>h. reader_find ct (the (ix_name e)) r = Inr (Some h) \<and> stands_for tmax (index_path e, Some (childless e)) (fst (hd h))) \<and>
     (\<forall>name. name \<notin> (\<lambda>d. concat (fst d)) ` set (index_contents es) \<longrightarrow> reader_find ct name r = Inr None)"
proof -
  obtain f r where r: "write_index ct em ms tmax es = Inr (Some f)" "reader_new ct (Some f) = Inr r" "reads_contents ct tmax (index_contents es) r"
    using index_contents_read [OF assms] by blast
  have "\<exists>h. reader_find ct (the (ix_name e)) r = Inr (Some h) \<and> stands_for tmax (index_path e, Some (childless e)) (fst (hd h))" if "e \<in> set es" for e
  proof -
    let ?d = "(index_path e, Some (childless e))"
    have "?d \<in> set (index_contents es)"
      using fill_added [of "(index_path e, childless e)" "map (\<lambda>e. (index_path e, childless e)) es" "[]"] that by (auto simp: index_contents_def)
    then have "filter (\<lambda>d. concat (fst d) = concat (fst ?d)) (index_contents es) = [?d]"
      by (rule filter_the_one [OF contents_names_distinct [OF assms(2,3)]])
    moreover have "concat (fst ?d) = the (ix_name e)" using pathsplit_canon by (simp add: index_path_def)
    ultimately have f: "filter (\<lambda>d. concat (fst d) = the (ix_name e)) (index_contents es) = [?d]" by simp
    obtain hs where hs: "reader_find ct (the (ix_name e)) r = (case hs of [] \<Rightarrow> Inr None | h # _ \<Rightarrow> Inr (Some h))"
        "list_all2 (stands_for tmax) [?d] (heads hs)" using find_contents [OF r(3), of "the (ix_name e)"] unfolding f by blast
    then obtain h where "hs = [h]" "stands_for tmax ?d (fst (hd h))" by (auto simp: list_all2_Cons1)
    then show ?thesis using hs(1) by simp
  qed
  moreover have "reader_find ct name r = Inr None" if "name \<notin> (\<lambda>d. concat (fst d)) ` set (index_contents es)" for name
  proof -
    have f: "filter (\<lambda>d. concat (fst d) = name) (index_contents es) = []" using that by (auto simp: filter_empty_conv)
    show ?thesis using find_contents [OF r(3), of name] unfolding f by auto
  qed
  ultimately show ?thesis using r(1,2) by blast
qed

section \<open>A small index\<close>

definition ct_w :: c_types where "ct_w = \<lparr>dev_signed = False, nlink_signed = True, mode_signed = False\<rparr>"

definition entry_w :: "bytes \<Rightarrow> bytes \<Rightarrow> entry" where
  "entry_w bname nm = \<lparr>ix_basename = Some bname, ix_name = Some nm, ix_tmax = None, ix_dev = 1, ix_ino = 2, ix_nlink = 1, ix_ctime = 5,
     ix_mtime = -7, ix_atime = 9, ix_size = 10, ix_mode = 0x81A4, ix_gitmode = 0x81A4, ix_sha = replicate 20 CHR ''h'', ix_flags = 0xC000,
     ix_children_ofs = 0, ix_children_n = 0, ix_meta_ofs = 12\<rparr>"

definition es_w :: "entry list" where "es_w = [entry_w ''x'' ''/b/x'', entry_w ''a'' ''/a'']"

definition ms_w :: metastore where "ms_w = \<lparr>ms_offsets = Map.empty, ms_file = []\<rparr>"

lemma fits_w: "fits ct_w (entry_w bname nm)"
proof -
  have "list_all2 (\<lambda>f v. \<not> isl (pack_field f v)) (entry_format ct_w)
      [VI 1, VI 2, VI 1, VI 0, VI 5, VI (-1), VI 999999993, VI 0, VI 9, VI 10, VI 0x81A4, VI 0x81A4, VB (replicate 20 CHR ''h''), VI 0xC000, VI 0, VI 0, VI 12]"
    by (simp add: entry_format_def signed_or_def ct_w_def)
  then obtain b where b: "struct_pack (entry_format ct_w)
      [VI 1, VI 2, VI 1, VI 0, VI 5, VI (-1), VI 999999993, VI 0, VI 9, VI 10, VI 0x81A4, VI 0x81A4, VB (replicate 20 CHR ''h''), VI 0xC000, VI 0, VI 0, VI 12] = Inr b"
    unfolding struct_pack_total by blast
  have "nsecs_to_timespec 5 = (0, 5)" "nsecs_to_timespec (-7) = (-1, 999999993)" "nsecs_to_timespec 9 = (0, 9)" by (simp_all add: nsecs_to_timespec_def)
  then have "packed ct_w (childless (entry_w bname nm)) = Inr b" using b by (simp add: packed_def entry_w_def)
  then show ?thesis by (simp add: fits_def entry_w_def)
qed

lemma paths_w: "pathsplit ''/b/x'' = [''/'', ''b/'', ''x'']" "pathsplit ''/a'' = [''/'', ''a'']"
  by code_simp+

lemma hyps_w: "es_w \<noteq> []" "sorted_wrt (\<lambda>a b. index_path b < index_path a) es_w" "list_all (index_entry_ok ct_w) es_w"
  "tmax_ok None" "meta_room ''m'' ms_w" "index_fits ct_w es_w"
proof -
  show "es_w \<noteq> []" by (simp add: es_w_def)
  have p: "index_path (entry_w ''x'' ''/b/x'') = [''/'', ''b/'', ''x'']" "index_path (entry_w ''a'' ''/a'') = [''/'', ''a'']"
    by (simp_all add: index_path_def entry_w_def paths_w)
  show "sorted_wrt (\<lambda>a b. index_path b < index_path a) es_w" by (simp add: es_w_def p less_char_def)
  have ok: "prefix ''/'' nm \<Longrightarrow> CHR 0x00 \<notin> set nm \<Longrightarrow> bname = last (pathsplit nm) \<Longrightarrow> index_entry_ok ct_w (entry_w bname nm)" for bname nm
    using fits_w by (simp add: index_entry_ok_def) (simp add: entry_w_def)
  have "index_entry_ok ct_w (entry_w ''x'' ''/b/x'')" by (rule ok) (simp_all add: paths_w)
  moreover have "index_entry_ok ct_w (entry_w ''a'' ''/a'')" by (rule ok) (simp_all add: paths_w)
  ultimately show "list_all (index_entry_ok ct_w) es_w" by (simp add: es_w_def)
  show "tmax_ok None" by (simp add: tmax_ok_def)
  show "meta_room ''m'' ms_w" by (simp add: meta_room_def ms_w_def)
  have "dirs_left [''/'', ''b/''] [''/'', ''a''] = [[''/'', ''b/'']]"
    by (subst dirs_left_simps(2), simp) (simp add: dirs_left_simps(1))
  moreover have "dirs_left [''/''] [] = [[''/'']]" by (subst dirs_left_simps(2), simp) (simp add: dirs_left_simps(1))
  ultimately have m: "map fst (index_contents es_w) = [[''/'', ''b/'', ''x''], [''/'', ''b/''], [''/'', ''a''], [''/'']]"
    by (simp add: index_contents_def es_w_def p dirs_left_simps(1))
  have "length (index_contents es_w) = 4" using arg_cong [OF m, of length] by simp
  moreover have "length (index_header ct_w) = 29" by (simp add: index_header_def entry_sig_length INDEX_SIG_def)
  ultimately show "index_fits ct_w es_w"
    using m by (simp add: index_fits_def fill_bytes_def dir_bytes_def ENTLEN_def calcsize_def entry_format_def signed_or_def ct_w_def)
qed

theorem index_roundtrip_witness:
  "sorted_wrt (\<lambda>a b. b < a) (map fst (index_contents es_w)) \<and>
     (\<exists>file r. write_index ct_w ''m'' ms_w None es_w = Inr (Some file) \<and> reader_new ct_w (Some file) = Inr r \<and>
        reads_contents ct_w None (index_contents es_w) r)"
  by (rule index_roundtrip [OF hyps_w])

theorem index_find_correct_witness:
  "\<exists>file r. write_index ct_w ''m'' ms_w None es_w = Inr (Some file) \<and> reader_new ct_w (Some file) = Inr r \<and>
     (\<forall>e\<in>set es_w. \<exists>h. reader_find ct_w (the (ix_name e)) r = Inr (Some h) \<and> stands_for None (index_path e, Some (childless e)) (fst (hd h))) \<and>
     (\<forall>name. name \<notin> (\<lambda>d. concat (fst d)) ` set (index_contents es_w) \<longrightarrow> reader_find ct_w name r = Inr None)"
  by (rule index_find_correct [OF hyps_w])

end
