(* ===== verification/Bup_Protocol.thy ===== *)
theory Bup_Protocol
  imports Vint Conn Cat_Pipe
begin

text \<open>
  The protocol between client and server (\<open>lib/bup/protocol.py\<close>): items of the virtual file system and their
  errors on the wire, and the server.  Encoded metadata and the repository the server works on are
  parameters.  A handler is a function of the session: what is left of the input, the output so far, the
  repository's state and the server's own; an exception ends the session.
\<close>

section \<open>Items\<close>

datatype 'm vfs_meta = Meta 'm | Mode int

datatype 'm item =
    Item bytes "'m vfs_meta"
  | Chunky bytes "'m vfs_meta"
  | RevList bytes "'m vfs_meta"
  | Root "'m vfs_meta"
  | Tags "'m vfs_meta"
  | Commit bytes bytes "'m vfs_meta"
  | FakeLink bytes "'m vfs_meta"

fun meta_of :: "'m item \<Rightarrow> 'm vfs_meta" where
  "meta_of (Item oid m) = m"
| "meta_of (Chunky oid m) = m"
| "meta_of (RevList oid m) = m"
| "meta_of (Root m) = m"
| "meta_of (Tags m) = m"
| "meta_of (Commit oid coid m) = m"
| "meta_of (FakeLink target m) = m"

fun kind_name :: "'m item \<Rightarrow> bytes" where
  "kind_name (Item oid m) = ''Item''"
| "kind_name (Chunky oid m) = ''Chunky''"
| "kind_name (RevList oid m) = ''RevList''"
| "kind_name (Root m) = ''Root''"
| "kind_name (Tags m) = ''Tags''"
| "kind_name (Commit oid coid m) = ''Commit''"
| "kind_name (FakeLink target m) = ''FakeLink''"

fun oids_ok :: "'m item \<Rightarrow> bool" where
  "oids_ok (Item oid m) = (length oid = 20)"
| "oids_ok (Chunky oid m) = (length oid = 20)"
| "oids_ok (RevList oid m) = (length oid = 20)"
| "oids_ok (Commit oid coid m) = (length oid = 20 \<and> length coid = 20)"
| "oids_ok _ = True"

text \<open>The byte strings an item is sent with.\<close>

fun item_fields :: "'m item \<Rightarrow> bytes list" where
  "item_fields (Item oid m) = [oid]"
| "item_fields (Chunky oid m) = [oid]"
| "item_fields (RevList oid m) = [oid]"
| "item_fields (Root m) = []"
| "item_fields (Tags m) = []"
| "item_fields (Commit oid coid m) = [oid, coid]"
| "item_fields (FakeLink target m) = [target]"

definition send_all :: "bytes \<Rightarrow> string \<Rightarrow> vval list \<Rightarrow> bytes res" where
  "send_all port types args = (case send port types args of (p, Inl e) \<Rightarrow> Inl e | (p, Inr _) \<Rightarrow> Inr p)"

definition write_vfs_item :: "('m \<Rightarrow> bytes) \<Rightarrow> bytes \<Rightarrow> 'm item \<Rightarrow> bytes res" where
  "write_vfs_item write_meta port item =
     res_bind (py_assert (oids_ok item)) (\<lambda>_.
     let types = ''sV'' @ map (\<lambda>_. CHR ''s'') (item_fields item); fields = map VBytes (item_fields item)
     in case meta_of item of
          Meta m \<Rightarrow> res_bind (send_all port types (VBytes (kind_name item) # VInt 1 # fields)) (\<lambda>port'. Inr (port' @ write_meta m))
        | Mode k \<Rightarrow> send_all port (types @ ''V'') (VBytes (kind_name item) # VInt 0 # fields @ [VInt k]))"

definition read_oid :: "bytes \<Rightarrow> (bytes \<times> bytes) res" where
  "read_oid port = res_bind (read_bvec port) (\<lambda>(bv, s). case bv of None \<Rightarrow> Inl EOFError | Some b \<Rightarrow> Inr (b, s))"

definition read_m :: "(bytes \<Rightarrow> ('m option \<times> bytes) res) \<Rightarrow> int \<Rightarrow> bytes \<Rightarrow> ('m vfs_meta \<times> bytes) res" where
  "read_m read_meta has_meta port =
     (if has_meta \<noteq> 0 then
        res_bind (read_meta port) (\<lambda>(m, s). case m of None \<Rightarrow> Inl EOFError | Some m \<Rightarrow> Inr (Meta m, s))
      else
        res_bind (read_vuint port) (\<lambda>(k, s). case k of None \<Rightarrow> Inl EOFError | Some k \<Rightarrow> Inr (Mode k, s)))"

definition read_oid_m :: "(bytes \<Rightarrow> ('m option \<times> bytes) res) \<Rightarrow> int \<Rightarrow> (bytes \<Rightarrow> 'm vfs_meta \<Rightarrow> 'm item) \<Rightarrow> bytes \<Rightarrow> ('m item \<times> bytes) res" where
  "read_oid_m read_meta has_meta mk port =
     res_bind (read_oid port) (\<lambda>(oid, s). res_bind (read_m read_meta has_meta s) (\<lambda>(m, s'). Inr (mk oid m, s')))"

definition read_vfs_item :: "(bytes \<Rightarrow> ('m option \<times> bytes) res) \<Rightarrow> bytes \<Rightarrow> ('m item \<times> bytes) res" where
  "read_vfs_item read_meta port =
     res_bind (recv ''sV'' port) (\<lambda>(vs, s).
     case vs of
       [VBytes kind, VInt has_meta] \<Rightarrow>
         if kind = ''Item'' then read_oid_m read_meta has_meta Item s
         else if kind = ''Chunky'' then read_oid_m read_meta has_meta Chunky s
         else if kind = ''RevList'' then read_oid_m read_meta has_meta RevList s
         else if kind = ''Root'' then res_bind (read_m read_meta has_meta s) (\<lambda>(m, s'). Inr (Root m, s'))
         else if kind = ''Tags'' then res_bind (read_m read_meta has_meta s) (\<lambda>(m, s'). Inr (Tags m, s'))
         else if kind = ''Commit'' then
           res_bind (recv ''ss'' s) (\<lambda>(vs', s').
           case vs' of
             [VBytes oid, VBytes coid] \<Rightarrow> res_bind (read_m read_meta has_meta s') (\<lambda>(m, s''). Inr (Commit oid coid m, s''))
           | _ \<Rightarrow> Inl ValueError)
         else if kind = ''FakeLink'' then read_oid_m read_meta has_meta FakeLink s
         else Inl AssertionError
     | _ \<Rightarrow> Inl ValueError)"

section \<open>Resolutions and errors\<close>

type_synonym 'm resolution = "(bytes \<times> 'm item option) list"

fun write_steps :: "('m \<Rightarrow> bytes) \<Rightarrow> bytes \<Rightarrow> 'm resolution \<Rightarrow> bytes res" where
  "write_steps write_meta port [] = Inr port"
| "write_steps write_meta port ((name, item) # r) =
     res_bind (write_bvec port name) (\<lambda>port1.
     res_bind (case item of None \<Rightarrow> Inr (port1 @ [CHR 0x00]) | Some i \<Rightarrow> write_vfs_item write_meta (port1 @ [CHR 0x01]) i) (\<lambda>port2.
     write_steps write_meta port2 r))"

definition write_resolution :: "('m \<Rightarrow> bytes) \<Rightarrow> bytes \<Rightarrow> 'm resolution \<Rightarrow> bytes res" where
  "write_resolution write_meta port resolution =
     res_bind (write_vuint port (int (length resolution))) (\<lambda>port'. write_steps write_meta port' resolution)"

text \<open>At the end of the stream \<open>ord\<close> of the missing byte raises \<open>TypeError\<close>.\<close>

fun read_steps :: "(bytes \<Rightarrow> ('m option \<times> bytes) res) \<Rightarrow> nat \<Rightarrow> bytes \<Rightarrow> ('m resolution \<times> bytes) res" where
  "read_steps read_meta 0 port = Inr ([], port)"
| "read_steps read_meta (Suc n) port =
     res_bind (read_bvec port) (\<lambda>(name, s).
     case name of
       None \<Rightarrow> Inl EOFError
     | Some name \<Rightarrow>
         (case s of
            [] \<Rightarrow> Inl TypeError
          | c # s' \<Rightarrow>
              if c = CHR 0x00 then res_bind (read_steps read_meta n s') (\<lambda>(r, s''). Inr ((name, None) # r, s''))
              else if c = CHR 0x01 then
                res_bind (read_vfs_item read_meta s') (\<lambda>(item, s1).
                res_bind (read_steps read_meta n s1) (\<lambda>(r, s''). Inr ((name, Some item) # r, s'')))
              else Inl AssertionError))"

definition read_resolution :: "(bytes \<Rightarrow> ('m option \<times> bytes) res) \<Rightarrow> bytes \<Rightarrow> ('m resolution \<times> bytes) res" where
  "read_resolution read_meta port =
     res_bind (read_vuint port) (\<lambda>(n, s). case n of None \<Rightarrow> Inl EOFError | Some n \<Rightarrow> read_steps read_meta (nat n) s)"

text \<open>An error of the file system; the message is its UTF-8 encoding.\<close>

record 'm io_error =
  io_errno :: "int option"
  io_strerror :: "bytes option"
  io_terminus :: "'m resolution option"

definition write_ioerror :: "('m \<Rightarrow> bytes) \<Rightarrow> bytes \<Rightarrow> 'm io_error \<Rightarrow> bytes res" where
  "write_ioerror write_meta port ex =
     res_bind (write_vuint port (of_bool (io_errno ex \<noteq> None) OR (if io_strerror ex \<noteq> None then 2 else 0) OR (if io_terminus ex \<noteq> None then 4 else 0))) (\<lambda>p1.
     res_bind (case io_errno ex of None \<Rightarrow> Inr p1 | Some n \<Rightarrow> write_vint p1 n) (\<lambda>p2.
     res_bind (case io_strerror ex of None \<Rightarrow> Inr p2 | Some m \<Rightarrow> write_bvec p2 m) (\<lambda>p3.
     case io_terminus ex of None \<Rightarrow> Inr p3 | Some t \<Rightarrow> write_resolution write_meta p3 t)))"

text \<open>The check after the terminus is read tests the message.\<close>

definition read_ioerror :: "(bytes \<Rightarrow> ('m option \<times> bytes) res) \<Rightarrow> bytes \<Rightarrow> ('m io_error \<times> bytes) res" where
  "read_ioerror read_meta port =
     res_bind (read_vuint port) (\<lambda>(flags, s).
     case flags of
       None \<Rightarrow> Inl EOFError
     | Some flags \<Rightarrow>
         res_bind (if flags AND 1 \<noteq> 0 then res_bind (read_vint s) (\<lambda>(no, s'). case no of None \<Rightarrow> Inl EOFError | Some n \<Rightarrow> Inr (Some n, s'))
                   else Inr (None, s)) (\<lambda>(no, s1).
         res_bind (if flags AND 2 \<noteq> 0 then res_bind (read_bvec s1) (\<lambda>(m, s'). case m of None \<Rightarrow> Inl (Exc ''AttributeError'') | Some b \<Rightarrow> Inr (Some b, s'))
                   else Inr (None, s1)) (\<lambda>(msg, s2).
         res_bind (if flags AND 4 \<noteq> 0 then
                     res_bind (read_resolution read_meta s2) (\<lambda>(t, s'). if msg = None then Inl EOFError else Inr (Some t, s'))
                   else Inr (None, s2)) (\<lambda>(term, s3).
         Inr (\<lparr>io_errno = no, io_strerror = msg, io_terminus = term\<rparr>, s3)))))"

section \<open>Sessions\<close>

record 'g session =
  sv_in :: bytes
  sv_out :: bytes
  sv_world :: 'g
  sv_repo_open :: bool
  sv_suspended :: bool
  sv_dedup :: bool

type_synonym ('g, 'a) act = "'g session \<Rightarrow> 'a res \<times> 'g session"

definition done_with :: "'a \<Rightarrow> ('g, 'a) act" where "done_with x s = (Inr x, s)"

definition raise_err :: "py_error \<Rightarrow> ('g, 'a) act" where "raise_err e s = (Inl e, s)"

definition andthen :: "('g, 'a) act \<Rightarrow> ('a \<Rightarrow> ('g, 'b) act) \<Rightarrow> ('g, 'b) act" where
  "andthen m f s = (case m s of (Inl e, s') \<Rightarrow> (Inl e, s') | (Inr x, s') \<Rightarrow> f x s')"

definition of_res :: "'a res \<Rightarrow> ('g, 'a) act" where "of_res r s = (r, s)"

definition conn_write :: "bytes \<Rightarrow> ('g, unit) act" where
  "conn_write b s = (Inr (), s\<lparr>sv_out := sv_out s @ b\<rparr>)"

definition conn_ok :: "('g, unit) act" where "conn_ok = conn_write write_ok"
definition conn_error :: "bytes \<Rightarrow> ('g, unit) act" where "conn_error msg = conn_write (write_error msg)"

text \<open>Reading: the file object gives fewer bytes only at the end of the stream, and all of them for a negative size.\<close>

definition conn_read :: "int \<Rightarrow> ('g, bytes) act" where
  "conn_read n s =
     (let k = (if n < 0 then length (sv_in s) else nat n) in (Inr (take k (sv_in s)), s\<lparr>sv_in := drop k (sv_in s)\<rparr>))"

definition conn_readline :: "('g, bytes) act" where
  "conn_readline s = (case readline (sv_in s) of (l, r) \<Rightarrow> (Inr l, s\<lparr>sv_in := r\<rparr>))"

definition conn_lines :: "('g, bytes list) act" where
  "conn_lines s =
     (case lines_until_sentinel (sv_in s) [CHR 0x0a] (Exc ''Hit EOF while reading line'') of
        (ls, Inr r) \<Rightarrow> (Inr (map butlast ls), s\<lparr>sv_in := r\<rparr>)
      | (ls, Inl e) \<Rightarrow> (Inl e, s))"

text \<open>A reader of the wire, and an operation on the repository.\<close>

definition conn_recv :: "(bytes \<Rightarrow> ('a \<times> bytes) res) \<Rightarrow> ('g, 'a) act" where
  "conn_recv rd s = (case rd (sv_in s) of Inl e \<Rightarrow> (Inl e, s) | Inr (x, r) \<Rightarrow> (Inr x, s\<lparr>sv_in := r\<rparr>))"

definition conn_send :: "(bytes \<Rightarrow> bytes res) \<Rightarrow> ('g, unit) act" where
  "conn_send wr s = (case wr (sv_out s) of Inl e \<Rightarrow> (Inl e, s) | Inr out \<Rightarrow> (Inr (), s\<lparr>sv_out := out\<rparr>))"

definition on_world :: "('g \<Rightarrow> 'a res \<times> 'g) \<Rightarrow> ('g, 'a) act" where
  "on_world f s = (case f (sv_world s) of (r, g) \<Rightarrow> (r, s\<lparr>sv_world := g\<rparr>))"

text \<open>Writing what a generator yields, and then its exception.\<close>

fun write_each :: "('a \<Rightarrow> bytes) \<Rightarrow> 'a list \<Rightarrow> ('g, unit) act" where
  "write_each show [] = done_with ()"
| "write_each show (x # xs) = andthen (conn_write (show x)) (\<lambda>_. write_each show xs)"

definition raise_end :: "py_error option \<Rightarrow> ('g, unit) act" where
  "raise_end e = (case e of None \<Rightarrow> done_with () | Some e \<Rightarrow> raise_err e)"

section \<open>The repository\<close>

text \<open>What the server asks of its repository; \<open>'g\<close> is the repository's state.  The empty path is none.\<close>

record ('g, 'm) backend =
  be_create :: "bytes \<Rightarrow> 'g \<Rightarrow> unit res \<times> 'g"
  be_open :: "bytes \<Rightarrow> 'g \<Rightarrow> unit res \<times> 'g"
  be_close :: "'g \<Rightarrow> 'g"
  be_config :: "bytes \<Rightarrow> bytes option \<Rightarrow> 'g \<Rightarrow> config_value option res"
  be_list_indexes :: "'g \<Rightarrow> bytes list"
  be_index :: "bytes \<Rightarrow> 'g \<Rightarrow> bytes res"
  be_read_ref :: "bytes \<Rightarrow> 'g \<Rightarrow> bytes option res"
  be_update_ref :: "bytes \<Rightarrow> bytes \<Rightarrow> bytes \<Rightarrow> 'g \<Rightarrow> unit res \<times> 'g"
  be_join :: "bytes \<Rightarrow> 'g \<Rightarrow> bytes yields"
  be_cat :: "bytes \<Rightarrow> 'g \<Rightarrow> (bytes \<times> bytes \<times> int \<times> bytes list) option res"
  be_refs :: "bytes list \<Rightarrow> bool \<Rightarrow> bool \<Rightarrow> 'g \<Rightarrow> (bytes \<times> bytes) yields"
  be_rev_list_raw :: "bytes list \<Rightarrow> bytes option \<Rightarrow> 'g \<Rightarrow> bytes yields"
  be_resolve :: "bytes \<Rightarrow> 'm resolution option \<Rightarrow> bool \<Rightarrow> bool \<Rightarrow> 'g \<Rightarrow> ('m io_error + 'm resolution) res"
  be_exists :: "bytes \<Rightarrow> 'g \<Rightarrow> bytes option res \<times> 'g"
  be_ensure_packwriter :: "'g \<Rightarrow> unit res \<times> 'g"
  be_write :: "bytes \<Rightarrow> bytes \<Rightarrow> 'g \<Rightarrow> nat res \<times> 'g"
  be_finish :: "'g \<Rightarrow> bytes option res \<times> 'g"
  be_abort :: "'g \<Rightarrow> unit res \<times> 'g"

text \<open>The server's options: the commands enabled, and the functions that vet some of them.\<close>

record 'g server_opts =
  so_commands :: "bytes list"
  vet_init_dir :: "bytes \<Rightarrow> 'g \<Rightarrow> unit res"
  vet_set_dir :: "bytes \<Rightarrow> 'g \<Rightarrow> unit res"
  vet_update_ref :: "bytes \<Rightarrow> bytes \<Rightarrow> bytes \<Rightarrow> 'g \<Rightarrow> unit res"

definition all_commands :: "bytes list" where
  "all_commands = [''cat'', ''cat-batch'', ''config-get'', ''help'', ''init-dir'', ''join'', ''list-indexes'', ''quit'', ''read-ref'',
     ''receive-objects-v2'', ''refs'', ''resolve'', ''rev-list'', ''send-index'', ''set-dir'', ''update-ref'']"

definition server_commands :: "bytes list option \<Rightarrow> bytes list res" where
  "server_commands commands =
     (case commands of
        None \<Rightarrow> Inr all_commands
      | Some cs \<Rightarrow>
          if set cs \<subseteq> set all_commands then
            Inr (remdups ([''help'', ''quit'', ''init-dir'', ''set-dir'', ''list-indexes'', ''send-index''] @ cs))
          else Inl AssertionError)"

definition valid_config_opts :: "bytes list" where
  "valid_config_opts = [''bup.repo.id'', ''bup.split.trees'', ''bup.split.files'', ''pack.packsizelimit'', ''core.compression'', ''pack.compression'']"

section \<open>Commands\<close>

definition sv_help :: "'g server_opts \<Rightarrow> ('g, unit) act" where
  "sv_help so =
     andthen (conn_write (''Commands:'' @ CHR 0x0a # ''    '' @ join (CHR 0x0a # ''    '') (sort (so_commands so)) @ [CHR 0x0a])) (\<lambda>_. conn_ok)"

definition set_session :: "('g session \<Rightarrow> 'g session) \<Rightarrow> ('g, unit) act" where "set_session f s = (Inr (), f s)"

definition init_session :: "('g, 'm) backend \<Rightarrow> bytes \<Rightarrow> ('g, unit) act" where
  "init_session be repo_dir s =
     (if sv_repo_open s then
        (if repo_dir \<noteq> [] then (Inr (), s\<lparr>sv_world := be_close be (sv_world s), sv_repo_open := False, sv_suspended := False\<rparr>)
         else (Inr (), s))
      else
        andthen (on_world (be_open be repo_dir)) (\<lambda>_.
        andthen (set_session (\<lambda>s. s\<lparr>sv_repo_open := True\<rparr>)) (\<lambda>_ s.
        andthen (of_res (be_config be ''bup.server.deduplicate-writes'' (Some ''bool'') (sv_world s))) (\<lambda>dw.
        set_session (\<lambda>s. s\<lparr>sv_dedup := (case dw of Some (ConfBool b) \<Rightarrow> b | _ \<Rightarrow> True)\<rparr>)) s)) s)"

definition sv_init_dir :: "('g, 'm) backend \<Rightarrow> 'g server_opts \<Rightarrow> bytes \<Rightarrow> ('g, unit) act" where
  "sv_init_dir be so path s =
     andthen (of_res (vet_init_dir so path (sv_world s))) (\<lambda>_.
     andthen (on_world (be_create be path)) (\<lambda>_.
     andthen (init_session be path) (\<lambda>_. conn_ok))) s"

definition sv_set_dir :: "('g, 'm) backend \<Rightarrow> 'g server_opts \<Rightarrow> bytes \<Rightarrow> ('g, unit) act" where
  "sv_set_dir be so path s =
     andthen (of_res (vet_set_dir so path (sv_world s))) (\<lambda>_.
     andthen (init_session be path) (\<lambda>_. conn_ok)) s"

definition sv_list_indexes :: "('g, 'm) backend \<Rightarrow> ('g, unit) act" where
  "sv_list_indexes be =
     andthen (init_session be []) (\<lambda>_ s.
     let sfx = (if sv_dedup s then [] else '' load'')
     in andthen (write_each (\<lambda>f. f @ sfx @ [CHR 0x0a]) (filter (suffix ''.idx'') (be_list_indexes be (sv_world s)))) (\<lambda>_. conn_ok) s)"

definition sv_send_index :: "('g, 'm) backend \<Rightarrow> bytes \<Rightarrow> ('g, unit) act" where
  "sv_send_index be name =
     andthen (init_session be []) (\<lambda>_.
     andthen (of_res (py_assert (CHR ''/'' \<notin> set name))) (\<lambda>_.
     andthen (of_res (py_assert (suffix ''.idx'' name))) (\<lambda>_ s.
     andthen (of_res (be_index be name (sv_world s))) (\<lambda>idx.
     andthen (of_res (if length idx < 256 ^ 4 then Inr () else Inl StructError)) (\<lambda>_.
     andthen (conn_write (be_bytes 4 (length idx))) (\<lambda>_.
     andthen (conn_write idx) (\<lambda>_. conn_ok)))) s)))"

definition sv_read_ref :: "('g, 'm) backend \<Rightarrow> bytes \<Rightarrow> ('g, unit) act" where
  "sv_read_ref be refname =
     andthen (init_session be []) (\<lambda>_ s.
     andthen (of_res (be_read_ref be refname (sv_world s))) (\<lambda>r.
     andthen (conn_write (hexlify (case r of None \<Rightarrow> [] | Some b \<Rightarrow> b) @ [CHR 0x0a])) (\<lambda>_. conn_ok)) s)"

definition sv_update_ref :: "('g, 'm) backend \<Rightarrow> 'g server_opts \<Rightarrow> bytes \<Rightarrow> ('g, unit) act" where
  "sv_update_ref be so refname =
     andthen conn_readline (\<lambda>l. andthen (of_res (unhexlify (strip l))) (\<lambda>newval.
     andthen conn_readline (\<lambda>l. andthen (of_res (unhexlify (strip l))) (\<lambda>oldval s.
     andthen (of_res (vet_update_ref so refname newval oldval (sv_world s))) (\<lambda>_.
     andthen (init_session be []) (\<lambda>_.
     andthen (on_world (be_update_ref be refname newval oldval)) (\<lambda>_. conn_ok))) s))))"

text \<open>The exception's text is a parameter of the error reply.\<close>

definition sv_join :: "('g, 'm) backend \<Rightarrow> (py_error \<Rightarrow> bytes) \<Rightarrow> bytes \<Rightarrow> ('g, unit) act" where
  "sv_join be str_of ident =
     andthen (init_session be []) (\<lambda>_ s.
     let g = be_join be ident (sv_world s)
     in andthen (of_res (py_assert True)) (\<lambda>_.
        andthen (write_each (\<lambda>blob. be_bytes 4 (length blob) @ blob) (fst g)) (\<lambda>_.
        case snd g of
          Some KeyError \<Rightarrow> andthen (conn_write (be_bytes 4 0)) (\<lambda>_. conn_error (str_of KeyError))
        | Some e \<Rightarrow> raise_err e
        | None \<Rightarrow> andthen (conn_write (be_bytes 4 0)) (\<lambda>_. conn_ok))) s)"

fun cat_each :: "('g, 'm) backend \<Rightarrow> bytes list \<Rightarrow> ('g, unit) act" where
  "cat_each be [] = done_with ()"
| "cat_each be (ref # refs) =
     (\<lambda>s. andthen (of_res (be_cat be ref (sv_world s))) (\<lambda>r.
       case r of
         None \<Rightarrow> andthen (conn_write (''missing'' @ [CHR 0x0a])) (\<lambda>_. cat_each be refs)
       | Some (oidx, kind, sz, it) \<Rightarrow>
           andthen (conn_write (oidx @ '' '' @ kind @ '' '' @ show_int sz @ [CHR 0x0a])) (\<lambda>_.
           andthen (write_each (\<lambda>b. b) it) (\<lambda>_. cat_each be refs))) s)"

definition sv_cat_batch :: "('g, 'm) backend \<Rightarrow> ('g, unit) act" where
  "sv_cat_batch be =
     andthen (init_session be []) (\<lambda>_. andthen conn_lines (\<lambda>refs. andthen (cat_each be refs) (\<lambda>_. conn_ok)))"

text \<open>\<open>receive-objects-v2\<close>: objects until a length of zero, or of all ones to suspend.  Each turn reads input.\<close>

definition check_equal :: "('g, 'm) backend \<Rightarrow> int \<Rightarrow> int \<Rightarrow> ('g, unit) act" where
  "check_equal be want have' =
     (if want \<noteq> have' then andthen (on_world (be_abort be)) (\<lambda>_. raise_err (Exc ''object read'')) else done_with ())"

definition receive_object :: "('g, 'm) backend \<Rightarrow> int \<Rightarrow> bytes list \<Rightarrow> ('g, bytes list) act" where
  "receive_object be n0 suggested =
     andthen (conn_read 20) (\<lambda>shar.
     andthen (conn_read 4) (\<lambda>crcb.
     andthen (of_res (if length crcb = 4 then Inr (be_val crcb) else Inl StructError)) (\<lambda>crcr.
     let n = n0 - (20 + 4)
     in andthen (conn_read n) (\<lambda>buf.
        andthen (check_equal be n (int (length buf))) (\<lambda>_ s.
        andthen (if sv_dedup s then on_world (be_exists be shar) else done_with None) (\<lambda>result.
        case result of
          Some oldpack \<Rightarrow>
            andthen (of_res (py_assert (suffix ''.idx'' oldpack))) (\<lambda>_.
            let name = basename oldpack
            in if name \<in> set suggested then done_with suggested
               else andthen (conn_write (''index '' @ name @ [CHR 0x0a])) (\<lambda>_. done_with (name # suggested)))
        | None \<Rightarrow>
            andthen (on_world (be_write be buf shar)) (\<lambda>crc.
            andthen (check_equal be (int crcr) (int crc)) (\<lambda>_. done_with suggested))) s)))))"

fun receive_loop :: "('g, 'm) backend \<Rightarrow> nat \<Rightarrow> bytes list \<Rightarrow> ('g, unit) act" where
  "receive_loop be 0 suggested = raise_err UndefinedBehaviour"
| "receive_loop be (Suc fuel) suggested =
     andthen (conn_read 4) (\<lambda>ns.
     if ns = [] then andthen (on_world (be_abort be)) (\<lambda>_. raise_err (Exc ''object read: expected length header, got EOF''))
     else if length ns \<noteq> 4 then raise_err StructError
     else
       let n = be_val ns
       in if n = 0 then
            andthen (on_world (be_finish be)) (\<lambda>fullpath.
            andthen (case fullpath of
                       Some p \<Rightarrow> if p = [] then done_with () else conn_write (basename p @ ''.idx'' @ [CHR 0x0a])
                     | None \<Rightarrow> done_with ()) (\<lambda>_. conn_ok))
          else if n = 0xffffffff then andthen (set_session (\<lambda>s. s\<lparr>sv_suspended := True\<rparr>)) (\<lambda>_. conn_ok)
          else andthen (receive_object be (int n) suggested) (\<lambda>suggested'. receive_loop be fuel suggested'))"

definition sv_receive_objects :: "('g, 'm) backend \<Rightarrow> ('g, unit) act" where
  "sv_receive_objects be =
     andthen (init_session be []) (\<lambda>_.
     andthen (set_session (\<lambda>s. s\<lparr>sv_suspended := False\<rparr>)) (\<lambda>_.
     andthen (on_world (be_ensure_packwriter be)) (\<lambda>_ s. receive_loop be (length (sv_in s) + 1) [] s)))"

text \<open>\<open>split()\<close>: the words between white space.\<close>

definition split_words :: "bytes \<Rightarrow> bytes list" where
  "split_words s = filter (\<lambda>w. w \<noteq> []) (split_on CHR '' '' (map (\<lambda>c. if c \<in> set whitespace then CHR '' '' else c) s))"

definition sv_refs :: "('g, 'm) backend \<Rightarrow> bytes \<Rightarrow> ('g, unit) act" where
  "sv_refs be args =
     (case split_words args of
        [lheads, ltags] \<Rightarrow>
          andthen (of_res (py_assert (lheads \<in> {''0'', ''1''}))) (\<lambda>_.
          andthen (of_res (py_assert (ltags \<in> {''0'', ''1''}))) (\<lambda>_.
          andthen (init_session be []) (\<lambda>_.
          andthen conn_lines (\<lambda>patterns s.
          let g = be_refs be patterns (lheads = ''1'') (ltags = ''1'') (sv_world s);
              named = yield_map (\<lambda>(name, oid). if CHR 0x0a \<in> set name then Inl AssertionError else Inr (hexlify oid @ '' '' @ name @ [CHR 0x0a])) (fst g)
          in andthen (write_each (\<lambda>b. b) (fst named)) (\<lambda>_.
             andthen (raise_end (if snd named = None then snd g else snd named)) (\<lambda>_.
             andthen (conn_write [CHR 0x0a]) (\<lambda>_. conn_ok))) s))))
      | _ \<Rightarrow> raise_err ValueError)"

definition sv_rev_list :: "('g, 'm) backend \<Rightarrow> (py_error \<Rightarrow> bytes) \<Rightarrow> ('g, unit) act" where
  "sv_rev_list be str_of =
     andthen (init_session be []) (\<lambda>_.
     andthen conn_readline (\<lambda>count.
     if count = [] then raise_err (Exc ''Unexpected EOF while reading rev-list count'')
     else andthen (of_res (py_assert (count = [CHR 0x0a]))) (\<lambda>_.
     andthen conn_readline (\<lambda>fmt.
     if fmt = [] then raise_err (Exc ''Unexpected EOF while reading rev-list format'')
     else andthen conn_lines (\<lambda>refs s.
       let g = be_rev_list_raw be refs (if fmt = [CHR 0x0a] then None else Some (butlast fmt)) (sv_world s)
       in andthen (write_each (\<lambda>b. b) (fst g)) (\<lambda>_.
          case snd g of
            Some GitError \<Rightarrow> andthen (conn_error (str_of GitError)) (\<lambda>_. raise_err GitError)
          | Some e \<Rightarrow> raise_err e
          | None \<Rightarrow> andthen (conn_write [CHR 0x0a]) (\<lambda>_. conn_ok)) s)))))"

definition sv_resolve :: "('g, 'm) backend \<Rightarrow> ('m \<Rightarrow> bytes) \<Rightarrow> (bytes \<Rightarrow> ('m option \<times> bytes) res) \<Rightarrow> bytes \<Rightarrow> ('g, unit) act" where
  "sv_resolve be write_meta read_meta args =
     andthen (init_session be []) (\<lambda>_.
     case split_words args of
       [arg] \<Rightarrow>
         andthen (of_res (py_int 10 arg)) (\<lambda>flags.
         andthen (if flags AND 4 \<noteq> 0 then andthen (conn_recv (read_resolution read_meta)) (\<lambda>r. done_with (Some r)) else done_with None) (\<lambda>parent.
         andthen (conn_recv read_bvec) (\<lambda>path.
         case path of
           None \<Rightarrow> raise_err EOFError
         | Some path \<Rightarrow>
             if path = [] then raise_err (Exc ''Empty resolve path'')
             else (\<lambda>s. andthen (of_res (be_resolve be path parent (flags AND 1 \<noteq> 0) (flags AND 2 \<noteq> 0) (sv_world s))) (\<lambda>r.
                    andthen (case r of
                               Inl ex \<Rightarrow> andthen (conn_write [CHR 0x00]) (\<lambda>_. conn_send (\<lambda>out. write_ioerror write_meta out ex))
                             | Inr res \<Rightarrow> andthen (conn_write [CHR 0x01]) (\<lambda>_. conn_send (\<lambda>out. write_resolution write_meta out res)))
                      (\<lambda>_. conn_ok)) s))))
     | _ \<Rightarrow> raise_err ValueError)"

definition write_config :: "config_value option \<Rightarrow> bytes \<Rightarrow> bytes res" where
  "write_config v out =
     (case v of
        None \<Rightarrow> write_vuint out 0
      | Some (ConfBool b) \<Rightarrow> write_vuint out (if b then 1 else 2)
      | Some (ConfInt n) \<Rightarrow> send_all out ''Vv'' [VInt 3, VInt n]
      | Some (ConfBytes b) \<Rightarrow> send_all out ''Vs'' [VInt 4, VBytes b])"

definition sv_config_get :: "('g, 'm) backend \<Rightarrow> bytes \<Rightarrow> ('g, unit) act" where
  "sv_config_get be args =
     andthen (init_session be []) (\<lambda>_.
     andthen (of_res (py_assert (args = []))) (\<lambda>_.
     andthen (conn_recv (recv ''ss'')) (\<lambda>vs.
     case vs of
       [VBytes key, VBytes opttype] \<Rightarrow>
         andthen (if key \<in> set valid_config_opts then
                    (\<lambda>s. andthen (of_res (be_config be key (if opttype = [] then None else Some opttype) (sv_world s)))
                          (\<lambda>v. conn_send (write_config v)) s)
                  else conn_send (\<lambda>out. write_vuint out 5)) (\<lambda>_. conn_ok)
     | _ \<Rightarrow> raise_err ValueError)))"

section \<open>The server\<close>

record ('g, 'm) server =
  srv_backend :: "('g, 'm) backend"
  srv_opts :: "'g server_opts"
  srv_write_meta :: "'m \<Rightarrow> bytes"
  srv_read_meta :: "bytes \<Rightarrow> ('m option \<times> bytes) res"
  srv_str :: "py_error \<Rightarrow> bytes"

definition run_command :: "('g, 'm) server \<Rightarrow> bytes \<Rightarrow> bytes \<Rightarrow> ('g, unit) act" where
  "run_command sv cmd arg =
     (let be = srv_backend sv; so = srv_opts sv
      in if cmd = ''help'' then sv_help so
         else if cmd = ''init-dir'' then sv_init_dir be so arg
         else if cmd = ''set-dir'' then sv_set_dir be so arg
         else if cmd = ''list-indexes'' then sv_list_indexes be
         else if cmd = ''send-index'' then sv_send_index be arg
         else if cmd = ''receive-objects-v2'' then sv_receive_objects be
         else if cmd = ''read-ref'' then sv_read_ref be arg
         else if cmd = ''update-ref'' then sv_update_ref be so arg
         else if cmd = ''join'' \<or> cmd = ''cat'' then sv_join be (srv_str sv) arg
         else if cmd = ''cat-batch'' then sv_cat_batch be
         else if cmd = ''refs'' then sv_refs be arg
         else if cmd = ''rev-list'' then sv_rev_list be (srv_str sv)
         else if cmd = ''resolve'' then sv_resolve be (srv_write_meta sv) (srv_read_meta sv) arg
         else if cmd = ''config-get'' then sv_config_get be arg
         else raise_err (Exc ''AttributeError''))"

text \<open>One line of the loop: whether the server goes on.\<close>

definition handle_line :: "('g, 'm) server \<Rightarrow> bytes \<Rightarrow> ('g, bool) act" where
  "handle_line sv line0 =
     (let line = strip line0
      in if line = [] then done_with True
         else
           let cmd = takeWhile (\<lambda>c. c \<noteq> CHR '' '') line; arg = drop 1 (dropWhile (\<lambda>c. c \<noteq> CHR '' '') line)
           in if cmd \<notin> set (so_commands (srv_opts sv)) then raise_err (Exc ''unknown server command'')
              else if cmd = ''quit'' then done_with False
              else andthen (run_command sv cmd arg) (\<lambda>_. done_with True))"

text \<open>Each turn takes a line from the input.\<close>

fun serve :: "('g, 'm) server \<Rightarrow> nat \<Rightarrow> ('g, unit) act" where
  "serve sv 0 = done_with ()"
| "serve sv (Suc fuel) =
     andthen conn_readline (\<lambda>line.
     if line = [] then done_with ()
     else andthen (handle_line sv (butlast line)) (\<lambda>more. if more then serve sv fuel else done_with ()))"

definition handle :: "('g, 'm) server \<Rightarrow> ('g, unit) act" where
  "handle sv s = serve sv (length (sv_in s) + 1) s"

text \<open>Leaving the server: a suspended pack is finished, and the repository is closed, whatever happens.\<close>

definition server_exit :: "('g, 'm) backend \<Rightarrow> 'g session \<Rightarrow> unit res \<times> 'g session" where
  "server_exit be s =
     (case (if sv_suspended s then andthen (on_world (be_finish be)) (\<lambda>_. done_with ()) s else (Inr (), s)) of
        (r, s') \<Rightarrow> (r, if sv_repo_open s' then s'\<lparr>sv_world := be_close be (sv_world s')\<rparr> else s'))"

section \<open>What is written is read\<close>

lemma write_item_read:
  assumes "write_item port ty v = Inr p"
  shows "\<exists>e. p = port @ e \<and> (\<forall>rest. read_item ty (e @ rest) = Inr (Some v, rest))"
proof (cases v)
  case (VInt x)
  consider "ty = CHR ''V''" | "ty = CHR ''v''" using assms VInt by (auto simp: write_item_def split: if_splits)
  then show ?thesis
  proof cases
    case 1
    then obtain b where "encode_vuint x = Inr b" "p = port @ b" using assms VInt by (auto simp: write_item_def write_vuint_def res_simps)
    then show ?thesis using read_item_encoded(1) 1 VInt by blast
  next
    case 2
    then obtain b where "encode_vint x = Inr b" "p = port @ b" using assms VInt by (auto simp: write_item_def write_vint_def res_simps)
    then show ?thesis using read_item_encoded(2) 2 VInt by blast
  qed
next
  case (VBytes x)
  then have t: "ty = CHR ''s''" using assms by (auto simp: write_item_def split: if_splits)
  then obtain b where b: "encode_vuint (int (length x)) = Inr b" "p = port @ b @ x"
    using assms VBytes by (auto simp: write_item_def write_bvec_def write_vuint_def res_simps)
  have "read_item ty ((b @ x) @ rest) = Inr (Some v, rest)" for rest
    using read_bvec_encode [OF refl read_vuint_encode_vuint [OF b(1)]] t by (simp add: read_item_def VBytes)
  then show ?thesis using b(2) by blast
qed

lemma send_all_recv:
  assumes "send_all port types args = Inr p"
  shows "\<exists>t. p = port @ t \<and> (\<forall>rest. recv types (t @ rest) = Inr (args, rest))"
proof -
  have l: "length types = length args" using assms by (auto simp: send_all_def send_def split: if_splits)
  have "send_loop port (zip types args) = (p, Inr ())" using assms by (auto simp: send_all_def send_def split: if_splits prod.splits sum.splits)
  with l show ?thesis
  proof (induction types args arbitrary: port rule: list_induct2)
    case (Cons ty types v args)
    obtain p1 where p1: "write_item port ty v = Inr p1" "send_loop p1 (zip types args) = (p, Inr ())" using Cons.prems by (auto split: sum.splits)
    obtain e where e: "p1 = port @ e" "\<forall>rest. read_item ty (e @ rest) = Inr (Some v, rest)" using write_item_read [OF p1(1)] by blast
    obtain t where t: "p = p1 @ t" "\<forall>rest. recv types (t @ rest) = Inr (args, rest)" using Cons.IH [OF p1(2)] by blast
    have "recv (ty # types) ((e @ t) @ rest) = Inr (v # args, rest)" for rest using e(2) t(2) by simp
    then show ?case using e(1) t(1) by (intro exI [of _ "e @ t"]) simp
  qed simp
qed

lemma recv_append:
  "recv (xs @ ys) port = res_bind (recv xs port) (\<lambda>(vs, s). res_bind (recv ys s) (\<lambda>(ws, s'). Inr (vs @ ws, s')))"
proof (induction xs arbitrary: port)
  case Nil
  show ?case by (cases "recv ys port") auto
next
  case (Cons x xs)
  show ?case
  proof (cases "read_item x port")
    case (Inr r)
    obtain v s where r: "r = (v, s)" by (cases r)
    show ?thesis
    proof (cases v)
      case (Some w)
      show ?thesis using Inr r Some Cons.IH by (cases "recv xs s") (auto simp: res_bind_def split: sum.splits)
    qed (use Inr r in simp)
  qed simp
qed

definition meta_codec :: "('m \<Rightarrow> bytes) \<Rightarrow> (bytes \<Rightarrow> ('m option \<times> bytes) res) \<Rightarrow> bool" where
  "meta_codec write_meta read_meta \<longleftrightarrow> (\<forall>m rest. read_meta (write_meta m @ rest) = Inr (Some m, rest))"

text \<open>The reader of an item, by the fields the format says.\<close>

lemma read_oid_recv: "recv ''s'' port = Inr ([VBytes oid], s) \<Longrightarrow> read_oid port = Inr (oid, s)"
  by (auto simp: read_oid_def read_item_def res_simps split: option.splits)

lemma read_m_recv: "recv ''V'' port = Inr ([VInt k], s) \<Longrightarrow> read_m rm 0 port = Inr (Mode k, s)"
  by (auto simp: read_m_def read_item_def res_simps split: option.splits)

lemma read_vfs_item_fields:
  assumes "recv ''sV'' port = Inr ([VBytes (kind_name item), VInt h], s)"
    and "recv (map (\<lambda>_. CHR ''s'') (item_fields item)) s = Inr (map VBytes (item_fields item), s')" "read_m rm h s' = Inr (meta_of item, r)"
  shows "read_vfs_item rm port = Inr (item, r)"
proof (cases item)
  case (Commit oid coid m)
  then show ?thesis unfolding read_vfs_item_def assms(1) using assms(2,3) by (simp del: recv.simps)
next
  case (Root m)
  then show ?thesis unfolding read_vfs_item_def assms(1) using assms(2,3) by simp
next
  case (Tags m)
  then show ?thesis unfolding read_vfs_item_def assms(1) using assms(2,3) by simp
next
  case (Item oid m)
  then have "read_oid s = Inr (oid, s')" using assms(2) by (intro read_oid_recv) simp
  then show ?thesis unfolding read_vfs_item_def assms(1) using assms(3) Item by (simp add: read_oid_m_def)
next
  case (Chunky oid m)
  then have "read_oid s = Inr (oid, s')" using assms(2) by (intro read_oid_recv) simp
  then show ?thesis unfolding read_vfs_item_def assms(1) using assms(3) Chunky by (simp add: read_oid_m_def)
next
  case (RevList oid m)
  then have "read_oid s = Inr (oid, s')" using assms(2) by (intro read_oid_recv) simp
  then show ?thesis unfolding read_vfs_item_def assms(1) using assms(3) RevList by (simp add: read_oid_m_def)
next
  case (FakeLink target m)
  then have "read_oid s = Inr (target, s')" using assms(2) by (intro read_oid_recv) simp
  then show ?thesis unfolding read_vfs_item_def assms(1) using assms(3) FakeLink by (simp add: read_oid_m_def)
qed

lemma vfs_item_roundtrip:
  assumes codec: "meta_codec wm rm" and w: "write_vfs_item wm port item = Inr p"
  shows "\<exists>t. p = port @ t \<and> (\<forall>rest. read_vfs_item rm (t @ rest) = Inr (item, rest))"
proof -
  let ?fs = "map (\<lambda>_. CHR ''s'') (item_fields item)" and ?vs = "map VBytes (item_fields item)"
  show ?thesis
  proof (cases "meta_of item")
    case (Meta m)
    obtain p1 where p1: "send_all port (''sV'' @ ?fs) (VBytes (kind_name item) # VInt 1 # ?vs) = Inr p1" "p = p1 @ wm m"
      using w Meta by (auto simp: write_vfs_item_def res_simps Let_def)
    obtain t where t: "p1 = port @ t" "\<forall>rest. recv (''sV'' @ ?fs) (t @ rest) = Inr (VBytes (kind_name item) # VInt 1 # ?vs, rest)"
      using send_all_recv [OF p1(1)] by blast
    have "read_vfs_item rm ((t @ wm m) @ rest) = Inr (item, rest)" for rest
    proof -
      have "recv (''sV'' @ ?fs) (t @ (wm m @ rest)) = Inr (VBytes (kind_name item) # VInt 1 # ?vs, wm m @ rest)" using t(2) by blast
      then obtain vs s ws where vs: "recv ''sV'' (t @ wm m @ rest) = Inr (vs, s)" "recv ?fs s = Inr (ws, wm m @ rest)"
          "vs @ ws = VBytes (kind_name item) # VInt 1 # ?vs"
        unfolding recv_append by (auto simp: res_simps simp del: recv.simps)
      have "length vs = 2" using vs(1) by (auto simp: res_simps split: option.splits)
      then have "vs = [VBytes (kind_name item), VInt 1]" "ws = ?vs" using vs(3) by (cases vs; cases "tl vs"; simp)+
      moreover have "read_m rm 1 (wm m @ rest) = Inr (meta_of item, rest)" using codec by (simp add: read_m_def meta_codec_def Meta)
      ultimately show ?thesis using read_vfs_item_fields [of "t @ wm m @ rest" item 1 s "wm m @ rest" rm rest] vs(1,2) by simp
    qed
    then show ?thesis using p1(2) t(1) by (intro exI [of _ "t @ wm m"]) simp
  next
    case (Mode k)
    have "send_all port (''sV'' @ ?fs @ ''V'') (VBytes (kind_name item) # VInt 0 # ?vs @ [VInt k]) = Inr p"
      using w Mode by (auto simp: write_vfs_item_def res_simps Let_def)
    from send_all_recv [OF this]
    obtain t where t: "p = port @ t" "\<forall>rest. recv (''sV'' @ ?fs @ ''V'') (t @ rest) = Inr (VBytes (kind_name item) # VInt 0 # ?vs @ [VInt k], rest)" by blast
    have "read_vfs_item rm (t @ rest) = Inr (item, rest)" for rest
    proof -
      have "recv (''sV'' @ ?fs @ ''V'') (t @ rest) = Inr (VBytes (kind_name item) # VInt 0 # ?vs @ [VInt k], rest)" using t(2) by blast
      then obtain vs s ws s' xs where vs: "recv ''sV'' (t @ rest) = Inr (vs, s)" "recv ?fs s = Inr (ws, s')" "recv ''V'' s' = Inr (xs, rest)"
          "vs @ ws @ xs = VBytes (kind_name item) # VInt 0 # ?vs @ [VInt k]"
        unfolding recv_append by (auto simp: res_simps simp del: recv.simps)
      have "length vs = 2" "length xs = 1" using vs(1,3) by (auto simp: res_simps split: option.splits)
      then have "vs = [VBytes (kind_name item), VInt 0]" "ws @ xs = ?vs @ [VInt k]" using vs(4) by (cases vs; cases "tl vs"; simp)+
      moreover from this have "ws = ?vs" "xs = [VInt k]" using \<open>length xs = 1\<close> by (cases xs; simp)+
      moreover from this have "read_m rm 0 s' = Inr (meta_of item, rest)" using vs(3) by (simp add: Mode read_m_recv del: recv.simps)
      ultimately show ?thesis using read_vfs_item_fields [of "t @ rest" item 0 s s' rm rest] vs(1,2) by simp
    qed
    then show ?thesis using t(1) by blast
  qed
qed

lemma write_bvec_read:
  assumes "write_bvec port x = Inr p"
  shows "\<exists>t. p = port @ t \<and> (\<forall>rest. read_bvec (t @ rest) = Inr (Some x, rest))"
proof -
  obtain b where b: "encode_vuint (int (length x)) = Inr b" "p = port @ b @ x" using assms by (auto simp: write_bvec_def write_vuint_def res_simps)
  have "read_bvec ((b @ x) @ rest) = Inr (Some x, rest)" for rest
    using read_bvec_encode [OF refl read_vuint_encode_vuint [OF b(1)]] by simp
  then show ?thesis using b(2) by blast
qed

lemma write_vuint_read:
  assumes "write_vuint port x = Inr p"
  shows "\<exists>t. p = port @ t \<and> (\<forall>rest. read_vuint (t @ rest) = Inr (Some x, rest))"
  using assms read_vuint_encode_vuint by (auto simp: write_vuint_def res_simps)

lemma write_vint_read:
  assumes "write_vint port x = Inr p"
  shows "\<exists>t. p = port @ t \<and> (\<forall>rest. read_vint (t @ rest) = Inr (Some x, rest))"
  using assms read_vint_encode_vint by (auto simp: write_vint_def res_simps)

lemma steps_roundtrip:
  assumes codec: "meta_codec wm rm" and "write_steps wm port r = Inr p"
  shows "\<exists>t. p = port @ t \<and> (\<forall>rest. read_steps rm (length r) (t @ rest) = Inr (r, rest))"
  using assms(2)
proof (induction r arbitrary: port)
  case (Cons x r)
  obtain name item where x: "x = (name, item)" by (cases x)
  obtain p1 p2 where w: "write_bvec port name = Inr p1" "write_steps wm p2 r = Inr p"
      "(case item of None \<Rightarrow> Inr (p1 @ [CHR 0x00]) | Some i \<Rightarrow> write_vfs_item wm (p1 @ [CHR 0x01]) i) = Inr p2"
    using Cons.prems by (auto simp: x res_simps)
  obtain t1 where t1: "p1 = port @ t1" "\<forall>rest. read_bvec (t1 @ rest) = Inr (Some name, rest)" using write_bvec_read [OF w(1)] by blast
  obtain t3 where t3: "p = p2 @ t3" "\<forall>rest. read_steps rm (length r) (t3 @ rest) = Inr (r, rest)" using Cons.IH [OF w(2)] by blast
  show ?case
  proof (cases item)
    case None
    then have "p2 = p1 @ [CHR 0x00]" using w(3) by simp
    moreover have "read_steps rm (length (x # r)) ((t1 @ CHR 0x00 # t3) @ rest) = Inr (x # r, rest)" for rest
      using t1(2) t3(2) by (simp add: x None)
    ultimately show ?thesis using t1(1) t3(1) by (intro exI [of _ "t1 @ CHR 0x00 # t3"]) simp
  next
    case (Some i)
    then have "write_vfs_item wm (p1 @ [CHR 0x01]) i = Inr p2" using w(3) by simp
    then obtain t2 where t2: "p2 = (p1 @ [CHR 0x01]) @ t2" "\<forall>rest. read_vfs_item rm (t2 @ rest) = Inr (i, rest)"
      using vfs_item_roundtrip [OF codec] by blast
    have "read_steps rm (length (x # r)) ((t1 @ CHR 0x01 # t2 @ t3) @ rest) = Inr (x # r, rest)" for rest
      using t1(2) t2(2) t3(2) by (simp add: x Some)
    then show ?thesis using t1(1) t2(1) t3(1) by (intro exI [of _ "t1 @ CHR 0x01 # t2 @ t3"]) simp
  qed
qed simp

lemma resolution_read:
  assumes "meta_codec wm rm" "write_resolution wm port r = Inr p"
  shows "\<exists>t. p = port @ t \<and> (\<forall>rest. read_resolution rm (t @ rest) = Inr (r, rest))"
proof -
  obtain p1 where w: "write_vuint port (int (length r)) = Inr p1" "write_steps wm p1 r = Inr p" using assms(2) by (auto simp: write_resolution_def res_simps)
  obtain t1 where t1: "p1 = port @ t1" "\<forall>rest. read_vuint (t1 @ rest) = Inr (Some (int (length r)), rest)" using write_vuint_read [OF w(1)] by blast
  obtain t2 where t2: "p = p1 @ t2" "\<forall>rest. read_steps rm (length r) (t2 @ rest) = Inr (r, rest)" using steps_roundtrip [OF assms(1) w(2)] by blast
  have "read_resolution rm ((t1 @ t2) @ rest) = Inr (r, rest)" for rest using t1(2) t2(2) by (simp add: read_resolution_def)
  then show ?thesis using t1(1) t2(1) by (intro exI [of _ "t1 @ t2"]) simp
qed

lemma ioerror_flags:
  fixes a b c :: bool
  defines "F \<equiv> of_bool a OR (if b then 2 else 0) OR (if c then 4 else (0 :: int))"
  shows "F AND 1 \<noteq> 0 \<longleftrightarrow> a" "F AND 2 \<noteq> 0 \<longleftrightarrow> b" "F AND 4 \<noteq> 0 \<longleftrightarrow> c"
  by (cases a; cases b; cases c; simp add: F_def)+

lemma ioerror_read:
  assumes codec: "meta_codec wm rm" and w: "write_ioerror wm port ex = Inr u"
  shows "\<exists>t. u = port @ t \<and> (\<forall>rest. read_ioerror rm (t @ rest) =
    (if io_terminus ex \<noteq> None \<and> io_strerror ex = None then Inl EOFError else Inr (ex, rest)))"
proof -
  define F where "F = of_bool (io_errno ex \<noteq> None) OR (if io_strerror ex \<noteq> None then 2 else 0) OR (if io_terminus ex \<noteq> None then 4 else (0 :: int))"
  note fl = ioerror_flags [of "io_errno ex \<noteq> None" "io_strerror ex \<noteq> None" "io_terminus ex \<noteq> None", folded F_def]
  obtain p1 p2 p3 where p: "write_vuint port F = Inr p1" "(case io_errno ex of None \<Rightarrow> Inr p1 | Some n \<Rightarrow> write_vint p1 n) = Inr p2"
      "(case io_strerror ex of None \<Rightarrow> Inr p2 | Some m \<Rightarrow> write_bvec p2 m) = Inr p3"
      "(case io_terminus ex of None \<Rightarrow> Inr p3 | Some t \<Rightarrow> write_resolution wm p3 t) = Inr u"
    using w unfolding write_ioerror_def F_def by (auto simp: res_simps)
  obtain t1 where t1: "p1 = port @ t1" "\<And>rest. read_vuint (t1 @ rest) = Inr (Some F, rest)" using write_vuint_read [OF p(1)] by auto
  obtain t2 where t2: "p2 = p1 @ t2" "\<And>rest. (if F AND 1 \<noteq> 0 then res_bind (read_vint (t2 @ rest)) (\<lambda>(no, s'). case no of None \<Rightarrow> Inl EOFError | Some n \<Rightarrow> Inr (Some n, s'))
      else Inr (None, t2 @ rest)) = Inr (io_errno ex, rest)"
  proof (cases "io_errno ex")
    case (Some n)
    then show ?thesis using write_vint_read [of p1 n p2] p(2) that fl(1) by fastforce
  qed (use p(2) that [of "[]"] fl(1) in simp)
  obtain t3 where t3: "p3 = p2 @ t3" "\<And>rest. (if F AND 2 \<noteq> 0 then res_bind (read_bvec (t3 @ rest)) (\<lambda>(m, s'). case m of None \<Rightarrow> Inl (Exc ''AttributeError'') | Some b \<Rightarrow> Inr (Some b, s'))
      else Inr (None, t3 @ rest)) = Inr (io_strerror ex, rest)"
  proof (cases "io_strerror ex")
    case (Some m)
    then show ?thesis using write_bvec_read [of p2 m p3] p(3) that fl(2) by fastforce
  qed (use p(3) that [of "[]"] fl(2) in simp)
  obtain t4 where t4: "u = p3 @ t4" "\<And>rest msg. (if F AND 4 \<noteq> 0 then res_bind (read_resolution rm (t4 @ rest)) (\<lambda>(t, s'). if msg = None then Inl EOFError else Inr (Some t, s'))
      else Inr (None, t4 @ rest)) = (if io_terminus ex \<noteq> None \<and> msg = (None :: bytes option) then Inl EOFError else Inr (io_terminus ex, rest))"
  proof (cases "io_terminus ex")
    case (Some t)
    then obtain t4 where "u = p3 @ t4" "\<forall>rest. read_resolution rm (t4 @ rest) = Inr (t, rest)" using resolution_read [OF codec, of p3 t u] p(4) by auto
    then show ?thesis using that [of t4] Some fl(3) by auto
  qed (use p(4) that [of "[]"] fl(3) in simp)
  have "read_ioerror rm ((t1 @ t2 @ t3 @ t4) @ rest) = res_bind (if io_terminus ex \<noteq> None \<and> io_strerror ex = None then Inl EOFError else Inr (io_terminus ex, rest))
      (\<lambda>(term, s3). Inr (\<lparr>io_errno = io_errno ex, io_strerror = io_strerror ex, io_terminus = term\<rparr>, s3))" for rest
    unfolding read_ioerror_def append_assoc by (simp only: t1(2) res_bind_simps prod.case option.case t2(2) t3(2) t4(2))
  then show ?thesis using t1(1) t2(1) t3(1) t4(1) by (intro exI [of _ "t1 @ t2 @ t3 @ t4"]) simp
qed

text \<open>C36: What a path resolves to passes through the protocol: a resolution that is written, with any metadata
  encoding that is self-delimiting, is read back, and so is an error; but an error that has a terminus and no
  message is refused by the reader, which tests the wrong variable.\<close>

theorem resolution_error_roundtrip:
  assumes "meta_codec wm rm" "write_resolution wm [] r = Inr t" "write_ioerror wm [] ex = Inr u"
  shows "read_resolution rm (t @ rest) = Inr (r, rest) \<and>
    read_ioerror rm (u @ rest) = (if io_terminus ex \<noteq> None \<and> io_strerror ex = None then Inl EOFError else Inr (ex, rest))"
  using resolution_read [OF assms(1,2)] ioerror_read [OF assms(1,3)] by auto

text \<open>A codec for one-byte metadata.\<close>

definition wm_w :: "char \<Rightarrow> bytes" where "wm_w c = [c]"
definition rm_w :: "bytes \<Rightarrow> (char option \<times> bytes) res" where
  "rm_w s = (case s of [] \<Rightarrow> Inr (None, []) | c # r \<Rightarrow> Inr (Some c, r))"

theorem resolution_error_roundtrip_witness:
  "\<exists>t u. read_resolution rm_w (t @ ''x'') = Inr ([([], Some (Root (Meta CHR ''m''))), (''a'', None)], ''x'') \<and>
    read_ioerror rm_w (u @ ''x'') = Inr (\<lparr>io_errno = Some 2, io_strerror = Some ''no such'', io_terminus = Some [([], Some (Root (Mode 16384)))]\<rparr>, ''x'')"
proof -
  let ?r = "[([], Some (Root (Meta CHR ''m''))), (''a'', None)]"
  let ?ex = "\<lparr>io_errno = Some 2, io_strerror = Some ''no such'', io_terminus = Some [([], Some (Root (Mode 16384)))]\<rparr>"
  have "meta_codec wm_w rm_w" by (simp add: meta_codec_def wm_w_def rm_w_def)
  moreover obtain t where "write_resolution wm_w [] ?r = Inr t"
    by (simp add: write_resolution_def write_vuint_def encode_vuint_cases write_bvec_def write_vfs_item_def send_all_def send_def write_item_def)
  moreover have v: "vint_encode 2 = Inr [CHR 0x02]" by code_simp
  moreover obtain u where "write_ioerror wm_w [] ?ex = Inr u"
    using v by (simp add: write_ioerror_def write_resolution_def write_vuint_def write_vint_def encode_vint_cases encode_vuint_cases write_bvec_def write_vfs_item_def send_all_def send_def write_item_def)
  ultimately show ?thesis using resolution_error_roundtrip [of wm_w rm_w ?r t ?ex u "''x''"] by auto
qed

section \<open>Choosing a repository twice\<close>

text \<open>A second \<open>set-dir\<close> closes the repository and opens none: the next command opens the default
  repository instead of the one asked for.\<close>

theorem second_set_dir_opens_default:
  assumes "sv_repo_open s" "path \<noteq> []" "vet_set_dir so path (sv_world s) = Inr ()" "be_open be [] (be_close be (sv_world s)) = (Inr (), g)"
    and "be_config be ''bup.server.deduplicate-writes'' (Some ''bool'') g = Inr None"
  shows "\<exists>s'. sv_set_dir be so path s = (Inr (), s') \<and> sv_world s' = be_close be (sv_world s) \<and> \<not> sv_repo_open s' \<and>
    sv_world (snd (sv_read_ref be refname s')) = g"
  using assms
  by (simp add: sv_set_dir_def andthen_def of_res_def init_session_def conn_ok_def conn_write_def sv_read_ref_def on_world_def set_session_def
      split: sum.splits)

text \<open>A backend that knows only which repository is open.\<close>

definition be_w :: "(bytes, char) backend" where
  "be_w = \<lparr>be_create = \<lambda>p g. (Inr (), g), be_open = \<lambda>p g. (Inr (), if p = [] then ''default'' else p), be_close = \<lambda>g. ''none'',
     be_config = \<lambda>k t g. Inr None, be_list_indexes = \<lambda>g. [], be_index = \<lambda>n g. Inl KeyError, be_read_ref = \<lambda>n g. Inr None,
     be_update_ref = \<lambda>n a b g. (Inr (), g), be_join = \<lambda>i g. ([], None), be_cat = \<lambda>r g. Inr None, be_refs = \<lambda>p h t g. ([], None),
     be_rev_list_raw = \<lambda>r f g. ([], None), be_resolve = \<lambda>p r m f g. Inr (Inr []), be_exists = \<lambda>i g. (Inr None, g),
     be_ensure_packwriter = \<lambda>g. (Inr (), g), be_write = \<lambda>b i g. (Inr 0, g), be_finish = \<lambda>g. (Inr None, g), be_abort = \<lambda>g. (Inr (), g)\<rparr>"

definition so_w :: "bytes server_opts" where
  "so_w = \<lparr>so_commands = all_commands, vet_init_dir = \<lambda>p g. Inr (), vet_set_dir = \<lambda>p g. Inr (), vet_update_ref = \<lambda>n a b g. Inr ()\<rparr>"

theorem second_set_dir_opens_default_witness:
  "\<exists>s'. sv_set_dir be_w so_w ''/b'' \<lparr>sv_in = [], sv_out = [], sv_world = ''/a'', sv_repo_open = True, sv_suspended = False, sv_dedup = True\<rparr> = (Inr (), s') \<and>
    sv_world s' = ''none'' \<and> \<not> sv_repo_open s' \<and> sv_world (snd (sv_read_ref be_w ''refs/heads/x'' s')) = ''default''"
  using second_set_dir_opens_default [of "\<lparr>sv_in = [], sv_out = [], sv_world = ''/a'', sv_repo_open = True, sv_suspended = False, sv_dedup = True\<rparr>"
      "''/b''" so_w be_w "''default''" "''refs/heads/x''"] by (simp add: be_w_def so_w_def)

end
