(* ===== verification/Bup_Client.thy ===== *)
theory Bup_Client
  imports Bup_Protocol
begin

text \<open>
  The client's calls (\<open>lib/bup/client.py\<close>), and a call over the protocol as a whole: what the client sends, the
  server's answer, and what the client makes of it.  The body of a call reads from the answer; a generator is
  run to its end.
\<close>

section \<open>Calls\<close>

record client =
  cl_commands :: "bytes list"
  cl_busy :: "bytes option"

type_synonym 'a body = "bytes \<Rightarrow> 'a res \<times> bytes"

definition ClientError :: py_error where "ClientError = Exc ''ClientError''"

definition require_command :: "client \<Rightarrow> bytes \<Rightarrow> unit res" where
  "require_command c name = (if name \<in> set (cl_commands c) then Inr () else Inl ClientError)"

definition check_busy :: "client \<Rightarrow> unit res" where
  "check_busy c = (if cl_busy c \<noteq> None then Inl ClientError else Inr ())"

definition ensure_busy :: "client \<Rightarrow> unit res" where
  "ensure_busy c = (if cl_busy c = None then Inl ClientError else Inr ())"

definition supports :: "client \<Rightarrow> bytes \<Rightarrow> bool" where "supports c command \<longleftrightarrow> command \<in> set (cl_commands c)"

text \<open>Entering a call: the client is busy, and the command's line is sent.\<close>

definition call_enter :: "client \<Rightarrow> bytes \<Rightarrow> bytes \<Rightarrow> (client \<times> bytes) res" where
  "call_enter c name args =
     res_bind (require_command c name) (\<lambda>_.
     res_bind (check_busy c) (\<lambda>_.
     Inr (c\<lparr>cl_busy := Some name\<rparr>, name @ (if args \<noteq> [] then '' '' @ args else []) @ [CHR 0x0a])))"

text \<open>Leaving it, after the body: an error reply becomes an exception, unless the body raised one.\<close>

definition call_exit :: "(bytes \<Rightarrow> bytes option res) \<Rightarrow> (bytes \<times> py_error) list \<Rightarrow> client \<Rightarrow> 'a res \<times> bytes \<Rightarrow> 'a res \<times> client" where
  "call_exit check exceptions c br =
     (case br of (body, r) \<Rightarrow>
        (case check r of
           Inl e \<Rightarrow> (Inl e, c)
         | Inr ok_ex \<Rightarrow>
             (case (ok_ex, body) of
                (Some msg, Inr _) \<Rightarrow>
                  Inl (case find (\<lambda>(name, e). prefix (name @ '':'') msg) exceptions of Some (name, e) \<Rightarrow> e | None \<Rightarrow> Exc ''NotOk'')
              | _ \<Rightarrow> body, c\<lparr>cl_busy := None\<rparr>)))"

text \<open>
  A call over the wire: the server is given the request, until it waits for more, and its output is the reply.
  It returns the result, the client and the session, and whether the server is still alive.
\<close>

definition remote_call ::
  "('g, 'm) server \<Rightarrow> (bytes \<Rightarrow> bytes option res) \<Rightarrow> (bytes \<times> py_error) list \<Rightarrow> bytes \<Rightarrow> bytes \<Rightarrow> bytes res \<Rightarrow> 'a body \<Rightarrow>
   client \<Rightarrow> 'g session \<Rightarrow> ('a res \<times> client) \<times> 'g session \<times> bool" where
  "remote_call sv check exceptions name args request body c s =
     (case call_enter c name args of
        Inl e \<Rightarrow> ((Inl e, c), s, True)
      | Inr (c', line) \<Rightarrow>
          (case request of
             Inl e \<Rightarrow> ((Inl e, c'), s, True)
           | Inr req \<Rightarrow>
               (case handle sv (s\<lparr>sv_in := line @ req, sv_out := []\<rparr>) of (r, s') \<Rightarrow>
                  (call_exit check exceptions c' (body (sv_out s')), s', \<not> isl r))))"

abbreviation typical_call :: "('g, 'm) server \<Rightarrow> (bytes \<times> py_error) list \<Rightarrow> bytes \<Rightarrow> bytes \<Rightarrow> bytes res \<Rightarrow> 'a body \<Rightarrow>
   client \<Rightarrow> 'g session \<Rightarrow> ('a res \<times> client) \<times> 'g session \<times> bool" where
  "typical_call sv exs \<equiv> remote_call sv check_ok exs"

abbreviation line_based_call :: "('g, 'm) server \<Rightarrow> bytes \<Rightarrow> bytes \<Rightarrow> bytes res \<Rightarrow> 'a body \<Rightarrow>
   client \<Rightarrow> 'g session \<Rightarrow> ('a res \<times> client) \<times> 'g session \<times> bool" where
  "line_based_call sv \<equiv> remote_call sv drain_and_check_ok []"

text \<open>Bodies.\<close>

definition b_bind :: "'a body \<Rightarrow> ('a \<Rightarrow> 'b body) \<Rightarrow> 'b body" where
  "b_bind m f r = (case m r of (Inl e, r') \<Rightarrow> (Inl e, r') | (Inr x, r') \<Rightarrow> f x r')"

definition b_res :: "'a res \<Rightarrow> 'a body" where "b_res x r = (x, r)"

definition b_readline :: "bytes body" where "b_readline r = (case readline r of (l, r') \<Rightarrow> (Inr l, r'))"

definition b_read :: "nat \<Rightarrow> bytes body" where "b_read n r = (Inr (take n r), drop n r)"

definition b_recv :: "(bytes \<Rightarrow> ('a \<times> bytes) res) \<Rightarrow> 'a body" where
  "b_recv rd r = (case rd r of Inl e \<Rightarrow> (Inl e, r) | Inr (x, r') \<Rightarrow> (Inr x, r'))"

text \<open>\<open>lines()\<close>: the lines up to a blank one, each handled as it comes.\<close>

fun b_lines :: "(bytes \<Rightarrow> 'a res) \<Rightarrow> nat \<Rightarrow> 'a list body" where
  "b_lines f 0 r = (Inl UndefinedBehaviour, r)"
| "b_lines f (Suc fuel) r =
     (case readline r of (line, r') \<Rightarrow>
        if \<not> (line \<noteq> [] \<and> suffix [CHR 0x0a] line) then (Inl ClientError, r')
        else if line = [CHR 0x0a] then (Inr [], r')
        else (case f (butlast line) of
                Inl e \<Rightarrow> (Inl e, r')
              | Inr x \<Rightarrow> (case b_lines f fuel r' of (Inl e, r'') \<Rightarrow> (Inl e, r'') | (Inr xs, r'') \<Rightarrow> (Inr (x # xs), r''))))"

definition call_lines :: "(bytes \<Rightarrow> 'a res) \<Rightarrow> 'a list body" where
  "call_lines f r = b_lines f (length r + 1) r"

section \<open>References\<close>

definition client_read_ref :: "('g, 'm) server \<Rightarrow> bytes \<Rightarrow> client \<Rightarrow> 'g session \<Rightarrow> (bytes option res \<times> client) \<times> 'g session \<times> bool" where
  "client_read_ref sv refname =
     typical_call sv [] ''read-ref'' refname (Inr [])
       (b_bind b_readline (\<lambda>l.
          let r = strip l
          in if r = [] then b_res (Inr None)
             else b_bind (b_res (py_assert (length r = 40))) (\<lambda>_. b_bind (b_res (unhexlify r)) (\<lambda>oid. b_res (Inr (Some oid))))))"

definition client_update_ref :: "('g, 'm) server \<Rightarrow> bytes \<Rightarrow> bytes \<Rightarrow> bytes option \<Rightarrow> client \<Rightarrow> 'g session \<Rightarrow> (unit res \<times> client) \<times> 'g session \<times> bool" where
  "client_update_ref sv refname newval oldval =
     typical_call sv [] ''update-ref'' refname
       (Inr (hexlify newval @ CHR 0x0a # (case oldval of None \<Rightarrow> [] | Some b \<Rightarrow> hexlify b) @ [CHR 0x0a])) (b_res (Inr ()))"

text \<open>The arguments of \<open>refs\<close> end in a newline of their own.\<close>

definition client_refs :: "('g, 'm) server \<Rightarrow> bytes list \<Rightarrow> bool \<Rightarrow> bool \<Rightarrow> client \<Rightarrow> 'g session \<Rightarrow> ((bytes \<times> bytes) list res \<times> client) \<times> 'g session \<times> bool" where
  "client_refs sv patterns limit_to_heads limit_to_tags =
     line_based_call sv ''refs'' (show_int (if limit_to_heads then 1 else 0) @ '' '' @ show_int (if limit_to_tags then 1 else 0) @ [CHR 0x0a])
       (res_bind (py_assert (\<forall>p\<in>set patterns. CHR 0x0a \<notin> set p)) (\<lambda>_. Inr (concat (map (\<lambda>p. p @ [CHR 0x0a]) patterns) @ [CHR 0x0a])))
       (call_lines (\<lambda>line.
          case split_on CHR '' '' line of
            [oidx, name] \<Rightarrow> if length oidx \<noteq> 40 then Inl ClientError else if name = [] then Inl ClientError
                            else res_bind (unhexlify oidx) (\<lambda>oid. Inr (name, oid))
          | _ \<Rightarrow> Inl ValueError))"

section \<open>Objects\<close>

fun read_blobs :: "nat \<Rightarrow> bytes list body" where
  "read_blobs 0 r = (Inl UndefinedBehaviour, r)"
| "read_blobs (Suc fuel) r =
     (let szb = take 4 r; r1 = drop 4 r
      in if length szb \<noteq> 4 then (Inl StructError, r1)
         else if be_val szb = 0 then (Inr [], r1)
         else b_bind (read_blobs fuel) (\<lambda>bs. b_res (Inr (take (be_val szb) r1 # bs))) (drop (be_val szb) r1))"

definition client_join :: "('g, 'm) server \<Rightarrow> bytes \<Rightarrow> client \<Rightarrow> 'g session \<Rightarrow> (bytes list res \<times> client) \<times> 'g session \<times> bool" where
  "client_join sv ident =
     typical_call sv [(''KeyError'', KeyError)] ''cat'' (map (\<lambda>c. if c = CHR 0x0a \<or> c = CHR 0x0d then CHR ''_'' else c) ident) (Inr [])
       (\<lambda>r. read_blobs (length r + 1) r)"

fun read_cats :: "bytes list \<Rightarrow> (bytes \<times> bytes \<times> int \<times> bytes list) option list body" where
  "read_cats [] r = (Inr [], r)"
| "read_cats (ref # refs) r =
     b_bind b_readline (\<lambda>info.
     if info = ''missing'' @ [CHR 0x0a] then b_bind (read_cats refs) (\<lambda>xs. b_res (Inr (None # xs)))
     else if \<not> (info \<noteq> [] \<and> suffix [CHR 0x0a] info) then b_res (Inl ClientError)
     else
       (case split_on CHR '' '' info of
          [oidx, oid_t, szb] \<Rightarrow>
            b_bind (b_res (py_int 10 szb)) (\<lambda>sz r1.
            case chunkyreader r1 (Some sz) of
              (bs, Inl e) \<Rightarrow> (Inl e, r1)
            | (bs, Inr r2) \<Rightarrow> b_bind (read_cats refs) (\<lambda>xs. b_res (Inr (Some (oidx, oid_t, sz, bs) # xs))) r2)
        | _ \<Rightarrow> b_res (Inl ValueError))) r"

definition client_cat_batch ::
  "('g, 'm) server \<Rightarrow> bytes list \<Rightarrow> client \<Rightarrow> 'g session \<Rightarrow> ((bytes \<times> bytes \<times> int \<times> bytes list) option list res \<times> client) \<times> 'g session \<times> bool" where
  "client_cat_batch sv refs =
     typical_call sv [] ''cat-batch'' []
       (res_bind (py_assert (\<forall>r\<in>set refs. r \<noteq> [] \<and> CHR 0x0a \<notin> set r)) (\<lambda>_. Inr (concat (map (\<lambda>r. r @ [CHR 0x0a]) refs) @ [CHR 0x0a])))
       (read_cats refs)"

text \<open>\<open>rev-list\<close> without a format: the commits' lines.\<close>

definition client_rev_list :: "('g, 'm) server \<Rightarrow> bytes list \<Rightarrow> client \<Rightarrow> 'g session \<Rightarrow> (bytes list res \<times> client) \<times> 'g session \<times> bool" where
  "client_rev_list sv refs c s =
     (if \<forall>r\<in>set refs. r \<noteq> [] \<and> CHR 0x0a \<notin> set r then
        line_based_call sv ''rev-list'' []
          (Inr (CHR 0x0a # CHR 0x0a # concat (map (\<lambda>r. r @ [CHR 0x0a]) refs) @ [CHR 0x0a]))
          (call_lines (\<lambda>line. let l = strip line in res_bind (py_assert (length l = 40)) (\<lambda>_. Inr l))) c s
      else ((Inl AssertionError, c), s, True))"

section \<open>Paths and options\<close>

definition client_resolve ::
  "('g, 'm) server \<Rightarrow> bytes \<Rightarrow> 'm resolution \<Rightarrow> bool \<Rightarrow> bool \<Rightarrow> client \<Rightarrow> 'g session \<Rightarrow> (('m io_error + 'm resolution) res \<times> client) \<times> 'g session \<times> bool" where
  "client_resolve sv path parent want_meta follow =
     typical_call sv [] ''resolve'' (show_int ((if want_meta then 1 else 0) OR (if follow then 2 else 0) OR (if parent \<noteq> [] then 4 else 0)))
       (res_bind (if parent \<noteq> [] then write_resolution (srv_write_meta sv) [] parent else Inr []) (\<lambda>out. write_bvec out path))
       (b_bind (b_read 1) (\<lambda>b.
          if b = [] then b_res (Inl TypeError)
          else if b = [CHR 0x01] then b_bind (b_recv (read_resolution (srv_read_meta sv))) (\<lambda>res. b_res (Inr (Inr res)))
          else if b = [CHR 0x00] then b_bind (b_recv (read_ioerror (srv_read_meta sv))) (\<lambda>ex. b_res (Inr (Inl ex)))
          else b_res (Inl AssertionError)))"

definition read_config :: "config_value option body" where
  "read_config =
     b_bind (b_recv read_vuint) (\<lambda>kind.
     case kind of
       None \<Rightarrow> b_res (Inl EOFError)
     | Some k \<Rightarrow>
         if k = 0 then b_res (Inr None)
         else if k = 1 then b_res (Inr (Some (ConfBool True)))
         else if k = 2 then b_res (Inr (Some (ConfBool False)))
         else if k = 3 then b_bind (b_recv read_vint) (\<lambda>v. case v of None \<Rightarrow> b_res (Inl EOFError) | Some n \<Rightarrow> b_res (Inr (Some (ConfInt n))))
         else if k = 4 then b_bind (b_recv read_bvec) (\<lambda>v. case v of None \<Rightarrow> b_res (Inl EOFError) | Some b \<Rightarrow> b_res (Inr (Some (ConfBytes b))))
         else if k = 5 then b_res (Inl (Exc ''PermissionError''))
         else b_res (Inl TypeError))"

definition lower :: "bytes \<Rightarrow> bytes" where
  "lower s = map (\<lambda>c. let n = of_char c :: nat in if 65 \<le> n \<and> n \<le> 90 then char_of (n + 32) else c) s"

definition client_config_get ::
  "('g, 'm) server \<Rightarrow> bytes \<Rightarrow> bytes option \<Rightarrow> client \<Rightarrow> 'g session \<Rightarrow> (config_value option res \<times> client) \<times> 'g session \<times> bool" where
  "client_config_get sv name opttype c s =
     (if opttype \<in> {Some ''int'', Some ''bool'', None} then
        typical_call sv [] ''config-get'' []
          (send_all [] ''ss'' [VBytes (lower name), VBytes (case opttype of None \<Rightarrow> [] | Some t \<Rightarrow> t)]) read_config c s
      else ((Inl AssertionError, c), s, True))"

section \<open>Indexes\<close>

definition client_list_indexes :: "('g, 'm) server \<Rightarrow> client \<Rightarrow> 'g session \<Rightarrow> ((bytes \<times> bool) list res \<times> client) \<times> 'g session \<times> bool" where
  "client_list_indexes sv =
     line_based_call sv ''list-indexes'' [] (Inr [])
       (call_lines (\<lambda>line.
          res_bind (py_assert (CHR ''/'' \<notin> set line)) (\<lambda>_.
          let parts = split_on CHR '' '' line in Inr (hd parts, length parts = 2 \<and> parts ! 1 = ''load''))))"

definition client_send_index :: "('g, 'm) server \<Rightarrow> bytes \<Rightarrow> client \<Rightarrow> 'g session \<Rightarrow> (bytes res \<times> client) \<times> 'g session \<times> bool" where
  "client_send_index sv name =
     typical_call sv [] ''send-index'' name (Inr [])
       (b_bind (b_read 4) (\<lambda>nb.
          if length nb \<noteq> 4 then b_res (Inl StructError)
          else b_bind (b_res (py_assert (be_val nb \<noteq> 0))) (\<lambda>_ r.
            case chunkyreader r (Some (int (be_val nb))) of (bs, Inl e) \<Rightarrow> (Inl e, r) | (bs, Inr r') \<Rightarrow> (Inr (concat bs), r'))))"

text \<open>The cache of indexes is the names in its directory with their contents.\<close>

type_synonym cache = "(bytes \<times> bytes) list"

definition sync_index :: "('g, 'm) server \<Rightarrow> bytes \<Rightarrow> cache \<Rightarrow> client \<Rightarrow> 'g session \<Rightarrow> (cache res \<times> client) \<times> 'g session \<times> bool" where
  "sync_index sv name cache c s =
     (if map_of cache name \<noteq> None then ((Inl ClientError, c), s, True)
      else case client_send_index sv name c s of
        ((Inl e, c'), s', ok) \<Rightarrow> ((Inl e, c'), s', ok)
      | ((Inr idx, c'), s', ok) \<Rightarrow> ((Inr (AList.update name idx cache), c'), s', ok))"

fun sync_all :: "('g, 'm) server \<Rightarrow> bytes list \<Rightarrow> cache \<Rightarrow> client \<Rightarrow> 'g session \<Rightarrow> (cache res \<times> client) \<times> 'g session \<times> bool" where
  "sync_all sv [] cache c s = ((Inr cache, c), s, True)"
| "sync_all sv (idx # needed) cache c s =
     (case sync_index sv idx cache c s of
        ((Inl e, c'), s', ok) \<Rightarrow> ((Inl e, c'), s', ok)
      | ((Inr cache', c'), s', ok) \<Rightarrow> sync_all sv needed cache' c' s')"

text \<open>The indexes the server does not have are removed; those it asks to load are fetched.\<close>

definition sync_indexes :: "('g, 'm) server \<Rightarrow> cache \<Rightarrow> client \<Rightarrow> 'g session \<Rightarrow> (cache res \<times> client) \<times> 'g session \<times> bool" where
  "sync_indexes sv cache c s =
     (case client_list_indexes sv c s of
        ((Inl e, c'), s', ok) \<Rightarrow> ((Inl e, c'), s', ok)
      | ((Inr idxs, c'), s', ok) \<Rightarrow>
          let needed = remdups (map fst (filter snd idxs));
              kept = filter (\<lambda>(f, x). \<not> (suffix ''.idx'' f \<and> f \<notin> fst ` set idxs)) cache
          in sync_all sv needed kept c' s')"

definition available_commands :: "('g, 'm) server \<Rightarrow> client \<Rightarrow> 'g session \<Rightarrow> (bytes list res \<times> client) \<times> 'g session \<times> bool" where
  "available_commands sv c s =
     line_based_call sv ''help'' [] (Inr [])
       (b_bind b_readline (\<lambda>header.
          if header \<noteq> ''Commands:'' @ [CHR 0x0a] then b_res (Inl ClientError)
          else call_lines (\<lambda>line.
            if \<not> prefix ''    '' line then Inl ClientError
            else let cmd = strip line in if cmd = [] then Inl ClientError else Inr cmd)))
       (c\<lparr>cl_commands := [''help'']\<rparr>) s"

section \<open>Sending objects\<close>

text \<open>One object as it is sent; \<open>crc\<close> is \<open>zlib.crc32\<close>.\<close>

definition object_message :: "(bytes \<Rightarrow> nat) \<Rightarrow> bytes \<times> bytes \<Rightarrow> bytes" where
  "object_message crc x = (case x of (sha, data) \<Rightarrow> be_bytes 4 (length data + 20 + 4) @ sha @ be_bytes 4 (crc data) @ data)"

definition finish_message :: bytes where "finish_message = be_bytes 4 0"
definition suspend_message :: bytes where "suspend_message = be_bytes 4 0xffffffff"

text \<open>What the server says when it suggests indexes or ends a pack: their names.\<close>

fun suggested_names :: "bytes list \<Rightarrow> bytes list res" where
  "suggested_names [] = Inr []"
| "suggested_names (line # ls) =
     (if line = [] then Inr []
      else if prefix ''index '' line then res_bind (suggested_names ls) (\<lambda>r. Inr (drop 6 line # r))
      else res_bind (py_assert (suffix ''.idx'' line)) (\<lambda>_. res_bind (suggested_names ls) (\<lambda>r. Inr (line # r))))"

section \<open>The cache's name\<close>

definition word_or_at :: "char \<Rightarrow> bool" where
  "word_or_at c \<longleftrightarrow> word_char c \<or> c = CHR ''@''"

definition legacy_cache_id_for_host_path :: "bytes option \<Rightarrow> bytes option \<Rightarrow> bytes" where
  "legacy_cache_id_for_host_path host path =
     map (\<lambda>c. if word_or_at c then c else CHR ''_'')
       ((case host of None \<Rightarrow> ''None'' | Some h \<Rightarrow> h) @ '':'' @ (case path of None \<Rightarrow> ''None'' | Some p \<Rightarrow> p))"

definition parse_non_url :: "bytes \<Rightarrow> bytes option \<times> bytes option" where
  "parse_non_url remote =
     (let h = takeWhile (\<lambda>c. c \<noteq> CHR '':'') remote; r = dropWhile (\<lambda>c. c \<noteq> CHR '':'') remote
      in if r = [] then (None, Some remote)
         else if h = [] \<or> h = ''-'' then (None, Some (drop 1 r))
         else (Some h, Some (drop 1 r)))"
section \<open>A call and its answer\<close>

text \<open>A line that the server takes as it is.\<close>

definition plain_line :: "bytes \<Rightarrow> bytes \<Rightarrow> bool" where
  "plain_line name args \<longleftrightarrow>
     name \<noteq> [] \<and> CHR '' '' \<notin> set name \<and> name \<noteq> ''quit'' \<and>
     (let line = name @ (if args \<noteq> [] then '' '' @ args else []) in CHR 0x0a \<notin> set line \<and> strip line = line)"

text \<open>The server runs \<open>name args\<close> on the request and reads all of it, ending in \<open>s'\<close>.\<close>

definition runs :: "('g, 'm) server \<Rightarrow> bytes \<Rightarrow> bytes \<Rightarrow> bytes \<Rightarrow> 'g session \<Rightarrow> 'g session \<Rightarrow> bool" where
  "runs sv name args req s s' \<longleftrightarrow>
     name \<in> set (so_commands (srv_opts sv)) \<and> plain_line name args \<and>
     run_command sv name args (s\<lparr>sv_in := req, sv_out := []\<rparr>) = (Inr (), s') \<and> sv_in s' = []"

lemma handle_then:
  assumes "CHR 0x0a \<notin> set line" "handle_line sv line (s\<lparr>sv_in := req, sv_out := []\<rparr>) = (Inr True, t)"
    and "\<And>k. serve sv (Suc k) t = r"
  shows "handle sv (s\<lparr>sv_in := (line @ [CHR 0x0a]) @ req, sv_out := []\<rparr>) = r"
proof -
  have rd: "readline (line @ CHR 0x0a # req) = (line @ [CHR 0x0a], req)" using readline_line [OF assms(1)] .
  have c: "s\<lparr>sv_out := [], sv_in := req\<rparr> = s\<lparr>sv_in := req, sv_out := []\<rparr>" by simp
  show ?thesis
    using rd assms(2) [folded c] assms(3) by (simp add: handle_def andthen_def conn_readline_def done_with_def del: serve.simps add: serve.simps(2) [of sv "Suc _"])
qed

lemma handle_one:
  assumes "CHR 0x0a \<notin> set line" "handle_line sv line (s\<lparr>sv_in := req, sv_out := []\<rparr>) = (Inr True, s')" "sv_in s' = []"
  shows "handle sv (s\<lparr>sv_in := (line @ [CHR 0x0a]) @ req, sv_out := []\<rparr>) = (Inr (), s')"
proof (rule handle_then [OF assms(1,2)])
  show "serve sv (Suc k) s' = (Inr (), s')" for k
    using assms(3) by (simp add: andthen_def conn_readline_def done_with_def)
qed

lemma handle_runs:
  assumes "runs sv name args req s s'"
  shows "handle sv (s\<lparr>sv_in := (name @ (if args \<noteq> [] then '' '' @ args else []) @ [CHR 0x0a]) @ req, sv_out := []\<rparr>) = (Inr (), s')"
proof -
  define line where "line = name @ (if args \<noteq> [] then '' '' @ args else [])"
  have p: "name \<noteq> []" "CHR '' '' \<notin> set name" "name \<noteq> ''quit''" "CHR 0x0a \<notin> set line" "strip line = line"
    and r: "name \<in> set (so_commands (srv_opts sv))" "run_command sv name args (s\<lparr>sv_in := req, sv_out := []\<rparr>) = (Inr (), s')" "sv_in s' = []"
    using assms by (auto simp: runs_def plain_line_def Let_def line_def simp del: append_is_Nil_conv)
  have cmd: "takeWhile (\<lambda>c. c \<noteq> CHR '' '') line = name" "drop 1 (dropWhile (\<lambda>c. c \<noteq> CHR '' '') line) = args"
    using p(2) by (auto simp: line_def takeWhile_append dropWhile_append)
  have ne: "line \<noteq> []" using p(1) by (simp add: line_def)
  have h: "handle_line sv line = andthen (run_command sv name args) (\<lambda>_. done_with True)"
    unfolding handle_line_def Let_def p(5) cmd using r(1) p(3) ne by (simp only: if_False not_not simp_thms)
  then have "handle_line sv line (s\<lparr>sv_in := req, sv_out := []\<rparr>) = (Inr True, s')" using r(2) by (simp add: andthen_def done_with_def)
  from handle_one [OF p(4) this r(3)] show ?thesis by (simp add: line_def)
qed

lemma check_ok_write_ok: "check_ok write_ok = Inr None" by code_simp
lemma drain_write_ok: "drain_and_check_ok write_ok = Inr None" by code_simp

lemma check_line: "check_ok (write_ok) = Inr None" "drain_and_check_ok write_ok = Inr None"
  by (fact check_ok_write_ok drain_write_ok)+

definition ready :: "client \<Rightarrow> bytes \<Rightarrow> bool" where
  "ready c name \<longleftrightarrow> name \<in> set (cl_commands c) \<and> cl_busy c = None"

lemma remote_call_ok:
  assumes "ready c name" "runs sv name args req s s'" "body (sv_out s') = (x, write_ok)" "check write_ok = Inr None"
  shows "remote_call sv check exs name args (Inr req) body c s = ((x, c), s', True)"
proof -
  have "call_enter c name args = Inr (c\<lparr>cl_busy := Some name\<rparr>, name @ (if args \<noteq> [] then '' '' @ args else []) @ [CHR 0x0a])"
    using assms(1) by (simp add: call_enter_def require_command_def check_busy_def ready_def)
  moreover have "call_exit check exs (c\<lparr>cl_busy := Some name\<rparr>) (x, write_ok) = (x, c)"
    using assms(1,4) by (cases x) (simp_all add: call_exit_def ready_def)
  ultimately show ?thesis
    unfolding remote_call_def using handle_runs [OF assms(2)] assms(3) by simp
qed

lemma typical_ok:
  assumes "ready c name" "runs sv name args req s s'" "body (sv_out s') = (x, write_ok)"
  shows "typical_call sv exs name args (Inr req) body c s = ((x, c), s', True)"
  using assms check_line(1) by (rule remote_call_ok)

lemma remote_call_not_ok:
  assumes "ready c name" "runs sv name args req s s'" "body (sv_out s') = (Inr x, reply)" "check reply = Inr (Some msg)"
  shows "remote_call sv check exs name args (Inr req) body c s =
    ((Inl (case find (\<lambda>(name, e). prefix (name @ '':'') msg) exs of Some (name, e) \<Rightarrow> e | None \<Rightarrow> Exc ''NotOk''), c), s', True)"
proof -
  have "call_enter c name args = Inr (c\<lparr>cl_busy := Some name\<rparr>, name @ (if args \<noteq> [] then '' '' @ args else []) @ [CHR 0x0a])"
    using assms(1) by (simp add: call_enter_def require_command_def check_busy_def ready_def)
  then show ?thesis
    unfolding remote_call_def using handle_runs [OF assms(2)] assms(1,3,4) by (simp add: call_exit_def ready_def)
qed

section \<open>References over the wire\<close>

lemma hex_not_white: "is_hex ch \<Longrightarrow> ch \<notin> set whitespace"
  by (auto simp: is_hex_def whitespace_def)

lemma strip_hex_line:
  assumes "list_all is_hex h"
  shows "strip (h @ [CHR 0x0a]) = h"
proof (cases "h = []")
  case True
  then show ?thesis by (simp only: append_Nil) code_simp
next
  case False
  then have "is_hex (hd h)" "is_hex (last h)" using assms by (auto simp: list_all_iff)
  then show ?thesis by (intro strip_line [OF False] hex_not_white)
qed

lemma hex_no_newline: "list_all is_hex h \<Longrightarrow> CHR 0x0a \<notin> set h"
  using hex_not_white by (auto simp: list_all_iff whitespace_def)

lemma hexlify_Nil: "hexlify [] = []" by (simp add: hexlify_def)

text \<open>Reading a reference over the wire gives what the repository gives; the client is free again, and the
  server's repository is untouched.\<close>

theorem remote_read_ref:
  assumes "ready c ''read-ref''" "''read-ref'' \<in> set (so_commands (srv_opts sv))" "plain_line ''read-ref'' refname" "sv_repo_open s"
    and "be_read_ref (srv_backend sv) refname (sv_world s) = Inr r" "case r of None \<Rightarrow> True | Some oid \<Rightarrow> length oid = 20"
  shows "\<exists>s'. client_read_ref sv refname c s = ((Inr r, c), s', True) \<and> sv_world s' = sv_world s"
proof -
  define h where "h = hexlify (case r of None \<Rightarrow> [] | Some b \<Rightarrow> b)"
  have hex: "list_all is_hex h" by (simp only: h_def hexlify_hex)
  let ?s' = "s\<lparr>sv_in := [], sv_out := h @ CHR 0x0a # write_ok\<rparr>"
  have "runs sv ''read-ref'' refname [] s ?s'"
    using assms(2-5)
    by (simp add: runs_def run_command_def Let_def sv_read_ref_def init_session_def andthen_def of_res_def conn_write_def conn_ok_def h_def)
  moreover have l: "readline (h @ CHR 0x0a # write_ok) = (h @ [CHR 0x0a], write_ok)"
    by (rule readline_line [OF hex_no_newline [OF hex]])
  moreover have "(if h = [] then b_res (Inr None) else b_bind (b_res (py_assert (length h = 40))) (\<lambda>_. b_bind (b_res (unhexlify h)) (\<lambda>oid. b_res (Inr (Some oid))))) write_ok = (Inr r, write_ok)"
  proof (cases r)
    case (Some oid)
    then have n: "length h = 40" "h = hexlify oid" using assms(6) by (simp_all add: h_def)
    then have "h \<noteq> []" by (metis list.size(3) zero_neq_numeral)
    with n show ?thesis by (simp add: Some b_res_def b_bind_def unhexlify_hexlify py_assert_def)
  qed (simp add: h_def hexlify_Nil b_res_def)
  ultimately have "client_read_ref sv refname c s = ((Inr r, c), ?s', True)"
    unfolding client_read_ref_def
    by (intro typical_ok [OF assms(1)]) (simp_all add: b_bind_def [of b_readline] b_readline_def strip_hex_line [OF hex] Let_def split del: if_split cong del: if_weak_cong)
  then show ?thesis by auto
qed

section \<open>Options over the wire\<close>

lemma res_bind_Inr: "res_bind (Inr x) f = f x" by simp

lemma conn_recv_ok: "rd (sv_in s) = Inr (x, r) \<Longrightarrow> conn_recv rd s = (Inr x, s\<lparr>sv_in := r\<rparr>)"
  by (simp add: conn_recv_def)

lemma andthen_ok: "m s = (Inr x, s') \<Longrightarrow> andthen m f s = f x s'"
  by (simp add: andthen_def)

lemma init_open: "sv_repo_open s \<Longrightarrow> init_session be [] s = (Inr (), s)"
  by (simp add: init_session_def)

text \<open>What is sent decodes: the two strings of a request, and the answer.\<close>

lemma write_config_read:
  assumes "write_config v [] = Inr out"
  shows "read_config (out @ rest) = (Inr v, rest)"
proof (cases v)
  case None
  then have "\<exists>t. out = [] @ t \<and> (\<forall>rest. read_vuint (t @ rest) = Inr (Some 0, rest))"
    using assms by (intro write_vuint_read) (simp add: write_config_def)
  then show ?thesis by (auto simp: None read_config_def b_bind_def b_recv_def b_res_def)
next
  case (Some w)
  show ?thesis
  proof (cases w)
    case (ConfBool b)
    have "write_vuint [] (if b then 1 else 2) = Inr out" using assms Some ConfBool by (simp add: write_config_def)
    from write_vuint_read [OF this] show ?thesis by (auto simp: Some ConfBool read_config_def b_bind_def b_recv_def b_res_def)
  next
    case (ConfInt n)
    have "send_all [] ''Vv'' [VInt 3, VInt n] = Inr out" using assms Some ConfInt by (simp add: write_config_def)
    from send_all_recv [OF this] have "recv ''Vv'' (out @ rest) = Inr ([VInt 3, VInt n], rest)" by auto
    then obtain p where "read_vuint (out @ rest) = Inr (Some 3, p)" "read_vint p = Inr (Some n, rest)"
      by (auto simp: read_item_def res_simps split: option.splits)
    then show ?thesis by (simp add: Some ConfInt read_config_def b_bind_def b_recv_def b_res_def)
  next
    case (ConfBytes b)
    have "send_all [] ''Vs'' [VInt 4, VBytes b] = Inr out" using assms Some ConfBytes by (simp add: write_config_def)
    from send_all_recv [OF this] have "recv ''Vs'' (out @ rest) = Inr ([VInt 4, VBytes b], rest)" by auto
    then obtain p where "read_vuint (out @ rest) = Inr (Some 4, p)" "read_bvec p = Inr (Some b, rest)"
      by (auto simp: read_item_def res_simps split: option.splits)
    then show ?thesis by (simp add: Some ConfBytes read_config_def b_bind_def b_recv_def b_res_def)
  qed
qed

lemma send_strings:
  assumes "length a < 2 ^ 56" "length b < 2 ^ 56"
  shows "\<exists>req. send_all [] ''ss'' [VBytes a, VBytes b] = Inr req \<and> recv ''ss'' req = Inr ([VBytes a, VBytes b], [])"
proof -
  obtain req where r: "send_all [] ''ss'' [VBytes a, VBytes b] = Inr req"
    using assms by (auto simp: send_all_def send_def write_item_def write_bvec_def write_vuint_def encode_vuint_cases)
  from send_all_recv [OF this] have "\<forall>rest. recv ''ss'' (req @ rest) = Inr ([VBytes a, VBytes b], rest)" by (simp only: append_Nil) blast
  from this [THEN spec, of "[]"] show ?thesis using r by (simp only: append_Nil2) blast
qed

lemma length_lower: "length (lower x) = length x" by (simp add: lower_def)

text \<open>The type as it is sent.\<close>

definition opttype_bytes :: "bytes option \<Rightarrow> bytes" where "opttype_bytes t = (case t of None \<Rightarrow> [] | Some t \<Rightarrow> t)"

text \<open>Asking for an option over the wire gives what the repository's configuration gives, for the names the
  server allows, and \<open>PermissionError\<close> for every other name; either way the client is free again.\<close>

theorem remote_config_get:
  assumes "ready c ''config-get''" "''config-get'' \<in> set (so_commands (srv_opts sv))" "sv_repo_open s" "length name < 2 ^ 56"
    and "opttype \<in> {Some ''int'', Some ''bool'', None}"
    and "be_config (srv_backend sv) (lower name) opttype (sv_world s) = Inr v" "write_config v [] = Inr out"
  shows "\<exists>s'. client_config_get sv name opttype c s =
      ((if lower name \<in> set valid_config_opts then Inr v else Inl (Exc ''PermissionError''), c), s', True) \<and> sv_world s' = sv_world s"
proof -
  have "length (opttype_bytes opttype) < 2 ^ 56" using assms(5) by (auto simp: opttype_bytes_def)
  then obtain req where req: "send_all [] ''ss'' [VBytes (lower name), VBytes (opttype_bytes opttype)] = Inr req"
      "recv ''ss'' req = Inr ([VBytes (lower name), VBytes (opttype_bytes opttype)], [])"
    using send_strings [of "lower name" "opttype_bytes opttype"] assms(4) by (auto simp: length_lower)
  have same: "(if opttype_bytes opttype = [] then None else Some (opttype_bytes opttype)) = opttype" using assms(5) by (auto simp: opttype_bytes_def)
  obtain out5 where five: "write_vuint [] 5 = Inr out5" "\<And>rest. read_vuint (out5 @ rest) = Inr (Some 5, rest)"
    using write_vuint_read [of "[]" 5] by (auto simp: write_vuint_def encode_vuint_cases)
  define a where "a = (if lower name \<in> set valid_config_opts then out else out5)"
  have "runs sv ''config-get'' [] req s (s\<lparr>sv_in := [], sv_out := a @ write_ok\<rparr>)"
    using assms(2,3,6) req(2) five(1) assms(7) same
    by (auto simp: runs_def plain_line_def strip_id run_command_def Let_def sv_config_get_def init_open andthen_def of_res_def py_assert_def conn_recv_def
        conn_send_def conn_ok_def conn_write_def a_def whitespace_def simp del: recv.simps)
  moreover have "read_config (a @ write_ok) = (if lower name \<in> set valid_config_opts then Inr v else Inl (Exc ''PermissionError''), write_ok)"
    using write_config_read [OF assms(7)] five(2) by (simp add: a_def read_config_def b_bind_def b_recv_def b_res_def)
  ultimately show ?thesis
    unfolding client_config_get_def using assms(5) req(1) typical_ok [OF assms(1), of sv "[]" req s _ read_config]
    by (auto simp: opttype_bytes_def simp del: insert_iff)
qed
section \<open>Paths over the wire\<close>

lemma split_words_digit:
  assumes "0 \<le> n" "n < 8"
  shows "split_words (show_int n) = [show_int n] \<and> py_int 10 (show_int n) = Inr n \<and> plain_line ''resolve'' (show_int n) \<and> show_int n \<noteq> []"
proof -
  have "\<forall>n\<in>set [0, 1, 2, 3, 4, 5, 6, 7 :: int]. split_words (show_int n) = [show_int n] \<and> py_int 10 (show_int n) = Inr n \<and> plain_line ''resolve'' (show_int n) \<and> show_int n \<noteq> []"
    by code_simp
  moreover have "n \<in> set [0, 1, 2, 3, 4, 5, 6, 7 :: int]" using assms by auto
  ultimately show ?thesis by blast
qed

lemma resolve_flags:
  fixes a b c :: bool
  defines "F \<equiv> (if a then 1 else 0) OR (if b then 2 else 0) OR (if c then 4 else (0 :: int))"
  shows "F AND 1 \<noteq> 0 \<longleftrightarrow> a" "F AND 2 \<noteq> 0 \<longleftrightarrow> b" "F AND 4 \<noteq> 0 \<longleftrightarrow> c" "0 \<le> F" "F < 8"
  by (cases a; cases b; cases c; simp add: F_def)+

text \<open>C10: Resolving a path over the wire gives what the repository's resolution gives, an error of the file
  system included (one with a terminus must have a message): flags, parent, path and answer all arrive.\<close>

theorem remote_resolve:
  assumes "ready c ''resolve''" "''resolve'' \<in> set (so_commands (srv_opts sv))" "sv_repo_open s" "path \<noteq> []"
    and "meta_codec (srv_write_meta sv) (srv_read_meta sv)"
    and "(if parent \<noteq> [] then write_resolution (srv_write_meta sv) [] parent else Inr []) = Inr p" "write_bvec p path = Inr req"
    and "be_resolve (srv_backend sv) path (if parent = [] then None else Some parent) want_meta follow (sv_world s) = Inr r"
    and "(case r of Inl ex \<Rightarrow> write_ioerror (srv_write_meta sv) [CHR 0x00] ex | Inr res \<Rightarrow> write_resolution (srv_write_meta sv) [CHR 0x01] res) = Inr out"
    and "case r of Inl ex \<Rightarrow> io_terminus ex = None \<or> io_strerror ex \<noteq> None | Inr res \<Rightarrow> True"
  shows "\<exists>s'. client_resolve sv path parent want_meta follow c s = ((Inr r, c), s', True) \<and> sv_world s' = sv_world s"
proof -
  define F :: int where "F = (if want_meta then 1 else 0) OR (if follow then 2 else 0) OR (if parent \<noteq> [] then 4 else 0)"
  note fl = resolve_flags [of want_meta follow "parent \<noteq> []", folded F_def]
  from split_words_digit [OF fl(4,5)] have F: "split_words (show_int F) = [show_int F]" "py_int 10 (show_int F) = Inr F"
      "plain_line ''resolve'' (show_int F)" "show_int F \<noteq> []" by blast+
  obtain t where t: "req = p @ t" "\<And>rest. read_bvec (t @ rest) = Inr (Some path, rest)" using write_bvec_read [OF assms(7)] by blast
  have bv: "read_bvec t = Inr (Some path, [])" using t(2) [of "[]"] by simp
  have parent: "parent = [] \<Longrightarrow> req = t" "parent \<noteq> [] \<Longrightarrow> read_resolution (srv_read_meta sv) req = Inr (parent, t)"
    using assms(6) t(1) resolution_read [OF assms(5), of "[]" parent p] by auto
  have answer: "andthen (case r of
               Inl ex \<Rightarrow> andthen (conn_write [CHR 0x00]) (\<lambda>_. conn_send (\<lambda>out. write_ioerror (srv_write_meta sv) out ex))
             | Inr res \<Rightarrow> andthen (conn_write [CHR 0x01]) (\<lambda>_. conn_send (\<lambda>out. write_resolution (srv_write_meta sv) out res)))
           (\<lambda>_. conn_ok) (s\<lparr>sv_out := [], sv_in := []\<rparr>) = (Inr (), s\<lparr>sv_in := [], sv_out := out @ write_ok\<rparr>)"
    using assms(9) by (cases r) (simp_all add: andthen_def conn_write_def conn_send_def conn_ok_def)
  have "runs sv ''resolve'' (show_int F) req s (s\<lparr>sv_in := [], sv_out := out @ write_ok\<rparr>)"
    using assms(2,3,4,8) F(3)
    by (cases "parent = []") (simp_all add: runs_def run_command_def Let_def sv_resolve_def andthen_ok [OF init_open] F(1,2) parent fl
        done_with_def andthen_def [of "of_res _"] of_res_def andthen_def [of "conn_recv _"] andthen_def [of "done_with _"] andthen_def [of "andthen (conn_recv _) _"] conn_recv_def bv answer)
  moreover have "(b_bind (b_read 1) (\<lambda>b.
          if b = [] then b_res (Inl TypeError)
          else if b = [CHR 0x01] then b_bind (b_recv (read_resolution (srv_read_meta sv))) (\<lambda>res. b_res (Inr (Inr res)))
          else if b = [CHR 0x00] then b_bind (b_recv (read_ioerror (srv_read_meta sv))) (\<lambda>ex. b_res (Inr (Inl ex)))
          else b_res (Inl AssertionError))) (out @ write_ok) = (Inr r, write_ok)"
  proof (cases r)
    case (Inl ex)
    then obtain u where "out = CHR 0x00 # u" "\<And>rest. read_ioerror (srv_read_meta sv) (u @ rest) = Inr (ex, rest)"
      using ioerror_read [OF assms(5), of "[CHR 0x00]" ex out] assms(9,10) by auto
    then show ?thesis by (simp add: Inl b_bind_def b_read_def b_recv_def b_res_def)
  next
    case (Inr res)
    then obtain u where "out = CHR 0x01 # u" "\<And>rest. read_resolution (srv_read_meta sv) (u @ rest) = Inr (res, rest)"
      using resolution_read [OF assms(5), of "[CHR 0x01]" res out] assms(9) by auto
    then show ?thesis by (simp add: Inr b_bind_def b_read_def b_recv_def b_res_def)
  qed
  ultimately have "client_resolve sv path parent want_meta follow c s = ((Inr r, c), s\<lparr>sv_in := [], sv_out := out @ write_ok\<rparr>, True)"
    unfolding client_resolve_def F_def [symmetric] assms(6) res_bind_simps assms(7)
    by (intro typical_ok [OF assms(1)]) simp_all
  then show ?thesis by simp
qed

section \<open>Objects over the wire\<close>

definition wire_lines :: "bytes list \<Rightarrow> bytes" where "wire_lines ls = concat (map (\<lambda>l. l @ [CHR 0x0a]) ls) @ [CHR 0x0a]"

lemma wire_lines_read:
  assumes "list_all (\<lambda>l. l \<noteq> [] \<and> CHR 0x0a \<notin> set l) ls"
  shows "lines_until_sentinel (wire_lines ls @ rest) [CHR 0x0a] ex = (map (\<lambda>l. l @ [CHR 0x0a]) ls, Inr rest)"
  using assms
proof (induction ls)
  case Nil
  show ?case by (subst lines_until_sentinel.simps) (simp add: wire_lines_def)
next
  case (Cons l ls)
  have "readline (wire_lines (l # ls) @ rest) = (l @ [CHR 0x0a], wire_lines ls @ rest)"
    using readline_line [of l "wire_lines ls @ rest"] Cons.prems by (simp add: wire_lines_def)
  then show ?case using Cons by (subst lines_until_sentinel.simps) simp
qed

lemma conn_lines_ok:
  assumes "list_all (\<lambda>l. l \<noteq> [] \<and> CHR 0x0a \<notin> set l) ls" "sv_in s = wire_lines ls @ rest"
  shows "conn_lines s = (Inr ls, s\<lparr>sv_in := rest\<rparr>)"
  using assms(2) by (simp add: conn_lines_def comp_def wire_lines_read [OF assms(1)])

lemma write_each_output: "write_each show xs s = (Inr (), s\<lparr>sv_out := sv_out s @ concat (map show xs)\<rparr>)"
  by (induction xs arbitrary: s) (simp_all add: done_with_def andthen_def conn_write_def)

text \<open>An object's answer that the wire can carry, and the answers that are the same but for how the data is cut.\<close>

type_synonym cat_answer = "(bytes \<times> bytes \<times> int \<times> bytes list) option"

definition answer_ok :: "cat_answer \<Rightarrow> bool" where
  "answer_ok r = (case r of None \<Rightarrow> True | Some (oidx, kind, sz, bs) \<Rightarrow>
     CHR '' '' \<notin> set (oidx @ kind) \<and> CHR 0x0a \<notin> set (oidx @ kind) \<and> sz = int (length (concat bs)))"

definition same_answer :: "cat_answer \<Rightarrow> cat_answer \<Rightarrow> bool" where
  "same_answer = rel_option (\<lambda>(oidx, kind, sz, bs) (oidx', kind', sz', bs'). oidx = oidx' \<and> kind = kind' \<and> sz = sz' \<and> concat bs = concat bs')"

definition answer_bytes :: "cat_answer \<Rightarrow> bytes" where
  "answer_bytes r = (case r of None \<Rightarrow> ''missing'' @ [CHR 0x0a]
     | Some (oidx, kind, sz, bs) \<Rightarrow> (oidx @ '' '' @ kind @ '' '' @ show_int sz @ [CHR 0x0a]) @ concat bs)"

lemma cat_each_output:
  assumes "list_all2 (\<lambda>ref r. be_cat be ref g = Inr r) refs rs" "sv_world s = g"
  shows "cat_each be refs s = (Inr (), s\<lparr>sv_out := sv_out s @ concat (map answer_bytes rs)\<rparr>)"
  using assms
proof (induction refs rs arbitrary: s rule: list_all2_induct)
  case Nil
  show ?case by (simp add: done_with_def)
next
  case (Cons ref refs r rs)
  let ?s = "s\<lparr>sv_out := sv_out s @ answer_bytes r\<rparr>"
  have "cat_each be (ref # refs) s = cat_each be refs ?s"
    using Cons.hyps(1) Cons.prems by (cases r) (auto simp: andthen_def of_res_def conn_write_def write_each_output answer_bytes_def)
  also have "\<dots> = (Inr (), ?s\<lparr>sv_out := sv_out ?s @ concat (map answer_bytes rs)\<rparr>)"
    using Cons.IH [of ?s] Cons.prems by simp
  finally show ?case by simp
qed
lemma read_cats_answers:
  assumes "list_all answer_ok rs" "length refs = length rs"
  shows "\<exists>rs'. read_cats refs (concat (map answer_bytes rs) @ rest) = (Inr rs', rest) \<and> list_all2 same_answer rs rs'"
  using assms
proof (induction rs arbitrary: refs)
  case Nil
  then show ?case by simp
next
  case (Cons r rs)
  obtain ref refs' where refs: "refs = ref # refs'" "length refs' = length rs" using Cons.prems(2) by (cases refs) auto
  obtain rs' where IH: "read_cats refs' (concat (map answer_bytes rs) @ rest) = (Inr rs', rest)" "list_all2 same_answer rs rs'"
    using Cons.IH [of refs'] Cons.prems(1) refs(2) by auto
  let ?rest = "concat (map answer_bytes rs) @ rest"
  show ?case
  proof (cases r)
    case None
    have "readline (answer_bytes r @ ?rest) = (''missing'' @ [CHR 0x0a], ?rest)"
      using readline_line [of "''missing''" ?rest] by (simp add: answer_bytes_def None)
    then have "read_cats refs (answer_bytes r @ ?rest) = (Inr (None # rs'), rest)"
      using IH(1) by (simp add: refs(1) b_bind_def b_readline_def b_res_def)
    then show ?thesis using IH(2) None by (intro exI [of _ "None # rs'"]) (simp add: same_answer_def)
  next
    case (Some a)
    obtain oidx kind sz bs where a: "r = Some (oidx, kind, sz, bs)" using Some by (cases a) auto
    have ok: "CHR '' '' \<notin> set oidx" "CHR '' '' \<notin> set kind" "CHR 0x0a \<notin> set oidx" "CHR 0x0a \<notin> set kind" "sz = int (length (concat bs))"
      using Cons.prems(1) by (auto simp: a answer_ok_def)
    let ?n = "show_base 10 (length (concat bs))" let ?info = "oidx @ '' '' @ kind @ '' '' @ ?n"
    have n: "CHR '' '' \<notin> set ?n" "CHR 0x0a \<notin> set ?n" using show_base_chars_not(1,2) by blast+
    have si: "show_int sz = ?n" by (simp add: ok(5) show_int_base_def)
    have "CHR 0x0a \<notin> set ?info" using ok n(2) by auto
    from readline_line [OF this, of "concat bs @ ?rest"]
    have l: "readline (answer_bytes r @ ?rest) = (?info @ [CHR 0x0a], concat bs @ ?rest)" by (simp add: answer_bytes_def a si)
    have s: "split_on CHR '' '' (?info @ [CHR 0x0a]) = [oidx, kind, ?n @ [CHR 0x0a]]"
      using ok(1,2) n(1) split_on_id [of "CHR '' ''" "?n @ [CHR 0x0a]"] by (simp add: split_on_append)
    have m: "?info @ [CHR 0x0a] \<noteq> ''missing'' @ [CHR 0x0a]"
    proof
      assume "?info @ [CHR 0x0a] = ''missing'' @ [CHR 0x0a]"
      then have "split_on CHR '' '' (?info @ [CHR 0x0a]) = [''missing'' @ [CHR 0x0a]]" by simp
      then show False using s by simp
    qed
    have sx: "\<not> \<not> (?info @ [CHR 0x0a] \<noteq> [] \<and> suffix [CHR 0x0a] (?info @ [CHR 0x0a]))" unfolding suffix_def by blast
    obtain bs' where ch: "chunkyreader (concat bs @ ?rest) (Some sz) = (bs', Inr ?rest)" "concat bs' = concat bs"
      using chunkyreader_exact [of "concat bs" ?rest] ok(5) by auto
    have "read_cats refs (answer_bytes r @ ?rest) = (Inr (Some (oidx, kind, sz, bs') # rs'), rest)"
      unfolding refs(1) read_cats.simps b_bind_def [of b_readline] b_readline_def l prod.case sum.case if_not_P [OF m] if_not_P [OF sx] s list.case
      using IH(1) ch(1) py_int_line [of "length (concat bs)"] ok(5) by (simp add: b_bind_def b_res_def)
    then show ?thesis using IH(2) ch(2) by (intro exI [of _ "Some (oidx, kind, sz, bs') # rs'"]) (simp add: same_answer_def a)
  qed
qed

text \<open>C11: Asking for objects over the wire gives, for each reference in turn, what the repository gives: its id, kind,
  size and data (however the data is cut), or that it is missing.\<close>

theorem remote_cat_batch:
  assumes "ready c ''cat-batch''" "''cat-batch'' \<in> set (so_commands (srv_opts sv))" "sv_repo_open s"
    and "list_all (\<lambda>r. r \<noteq> [] \<and> CHR 0x0a \<notin> set r) refs"
    and "list_all2 (\<lambda>ref r. be_cat (srv_backend sv) ref (sv_world s) = Inr r) refs rs" "list_all answer_ok rs"
  shows "\<exists>rs' s'. client_cat_batch sv refs c s = ((Inr rs', c), s', True) \<and> list_all2 same_answer rs rs' \<and> sv_world s' = sv_world s"
proof -
  let ?s' = "s\<lparr>sv_in := [], sv_out := concat (map answer_bytes rs) @ write_ok\<rparr>"
  have "runs sv ''cat-batch'' [] (wire_lines refs) s ?s'"
    using assms(2,3) cat_each_output [OF assms(5), of "s\<lparr>sv_out := [], sv_in := []\<rparr>"]
    by (simp add: runs_def plain_line_def strip_id whitespace_def run_command_def Let_def sv_cat_batch_def andthen_ok [OF init_open]
        andthen_ok [OF conn_lines_ok [OF assms(4), of _ "[]"]] andthen_def [of "cat_each _ _"] conn_ok_def conn_write_def)
  moreover obtain rs' where rs': "read_cats refs (concat (map answer_bytes rs) @ write_ok) = (Inr rs', write_ok)" "list_all2 same_answer rs rs'"
    using read_cats_answers [OF assms(6), of refs write_ok] list_all2_lengthD [OF assms(5)] by blast
  moreover have "\<forall>r\<in>set refs. r \<noteq> [] \<and> CHR 0x0a \<notin> set r" using assms(4) by (simp only: list_all_iff)
  ultimately have "client_cat_batch sv refs c s = ((Inr rs', c), ?s', True)"
    unfolding client_cat_batch_def using typical_ok [OF assms(1), of sv "[]" "wire_lines refs" s ?s' "read_cats refs" "Inr rs'"]
    by (simp add: py_assert_def wire_lines_def)
  then show ?thesis using rs'(2) by (intro exI [of _ rs'] exI [of _ ?s']) simp
qed

lemma read_blobs_written:
  assumes "list_all (\<lambda>b. b \<noteq> [] \<and> length b < 256 ^ 4) bs" "length bs < fuel"
  shows "read_blobs fuel (concat (map (\<lambda>b. be_bytes 4 (length b) @ b) bs) @ be_bytes 4 0 @ rest) = (Inr bs, rest)"
  using assms
proof (induction bs arbitrary: fuel)
  case Nil
  then obtain k where "fuel = Suc k" by (cases fuel) auto
  then show ?case by (simp add: be_val_be_bytes del: be_bytes.simps)
next
  case (Cons b bs)
  obtain k where k: "fuel = Suc k" "length bs < k" using Cons.prems(2) by (cases fuel) auto
  have v: "be_val (be_bytes 4 (length b)) = length b" "length b \<noteq> 0" using Cons.prems(1) by (simp_all add: be_val_be_bytes)
  show ?case using Cons.IH [OF _ k(2)] Cons.prems(1) v by (simp add: k(1) b_bind_def b_res_def Let_def del: be_bytes.simps)
qed

lemma check_ok_error: "check_ok (write_error m) = Inr (Some (squash_space False m))"
proof -
  have n: "CHR 0x0a \<notin> set (''error '' @ squash_space False m)" using squash_no_newline by simp
  have "linereader (write_error m) = [] # (''error '' @ squash_space False m) # linereader []"
    using linereader_line [OF n, of "[]"] linereader_line [of "[]" "(''error '' @ squash_space False m) @ [CHR 0x0a]"] by (simp add: write_error_def)
  then show ?thesis by (simp add: check_ok_def)
qed

text \<open>Joining an object's data over the wire gives the repository's pieces; an object that is missing raises
  \<open>NotOk\<close> and not the \<open>KeyError\<close> that is intended, since the server's message is the exception's text alone.\<close>

theorem remote_join:
  assumes "ready c ''cat''" "''cat'' \<in> set (so_commands (srv_opts sv))" "sv_repo_open s" "plain_line ''cat'' ident" "CHR 0x0d \<notin> set ident"
    and "be_join (srv_backend sv) ident (sv_world s) = (bs, e)" "list_all (\<lambda>b. b \<noteq> [] \<and> length b < 256 ^ 4) bs" "e = None \<or> e = Some KeyError"
    and "\<not> prefix ''KeyError:'' (squash_space False (srv_str sv KeyError))"
  shows "\<exists>s'. client_join sv ident c s = ((if e = None then Inr bs else Inl (Exc ''NotOk''), c), s', True) \<and> sv_world s' = sv_world s"
proof -
  define reply where "reply = (if e = None then write_ok else write_error (srv_str sv KeyError))"
  let ?out = "concat (map (\<lambda>b. be_bytes 4 (length b) @ b) bs) @ be_bytes 4 0 @ reply" and ?b = "\<lambda>r. read_blobs (length r + 1) r"
  let ?s' = "s\<lparr>sv_in := [], sv_out := ?out\<rparr>"
  have id: "map (\<lambda>c. if c = CHR 0x0a \<or> c = CHR 0x0d then CHR ''_'' else c) ident = ident"
    using assms(4,5) by (intro map_idI) (auto simp: plain_line_def Let_def split: if_splits)
  have runs: "runs sv ''cat'' ident [] s ?s'"
    using assms(2-4,6,8)
    by (auto simp: runs_def run_command_def Let_def sv_join_def init_open andthen_def of_res_def py_assert_def write_each_output
        conn_write_def conn_ok_def conn_error_def reply_def simp del: be_bytes.simps)
  have l: "length bs < length ?out + 1"
  proof -
    have "length bs \<le> length (concat (map (\<lambda>b. be_bytes 4 (length b) @ b) bs))" by (induction bs) auto
    then show ?thesis by simp
  qed
  have body: "?b ?out = (Inr bs, reply)" by (rule read_blobs_written [OF assms(7) l])
  show ?thesis
  proof (cases "e = None")
    case True
    then have "client_join sv ident c s = ((Inr bs, c), ?s', True)"
      unfolding client_join_def id using body by (intro typical_ok [OF assms(1) runs]) (simp add: reply_def)
    then show ?thesis using True by (intro exI [of _ ?s']) simp
  next
    case False
    then have r: "reply = write_error (srv_str sv KeyError)" unfolding reply_def by (rule if_not_P)
    then have "client_join sv ident c s = ((Inl (Exc ''NotOk''), c), ?s', True)"
      unfolding client_join_def id using assms(9) body
      by (subst remote_call_not_ok [where body = ?b and x = bs and reply = reply, OF assms(1) runs]) (simp_all add: check_ok_error del: read_blobs.simps)
    then show ?thesis using False by (intro exI [of _ ?s']) simp
  qed
qed

section \<open>Listing references\<close>

definition ref_answer_ok :: "bytes \<times> bytes \<Rightarrow> bool" where
  "ref_answer_ok x = (case x of (name, oid) \<Rightarrow> length oid = 20 \<and> name \<noteq> [] \<and> CHR '' '' \<notin> set name \<and> CHR 0x0a \<notin> set name)"

definition ref_answer :: "bytes \<times> bytes \<Rightarrow> bytes" where "ref_answer x = (case x of (name, oid) \<Rightarrow> hexlify oid @ '' '' @ name)"

definition flag_word :: "bool \<Rightarrow> bytes" where "flag_word b = (if b then ''1'' else ''0'')"

lemma flag_words: "show_int (if b then 1 else 0) = flag_word b" "flag_word b \<in> {''0'', ''1''}" "flag_word b = ''1'' \<longleftrightarrow> b"
proof -
  have "show_int 1 = ''1''" "show_int 0 = ''0''" by code_simp+
  then show "show_int (if b then 1 else 0) = flag_word b" by (simp add: flag_word_def)
qed (simp_all add: flag_word_def)

lemma split_flag_words: "split_words (flag_word a @ '' '' @ flag_word b) = [flag_word a, flag_word b]"
proof -
  have *: "split_words ''0 0'' = [''0'', ''0'']" "split_words ''0 1'' = [''0'', ''1'']" "split_words ''1 0'' = [''1'', ''0'']" "split_words ''1 1'' = [''1'', ''1'']"
    by code_simp+
  show ?thesis using * by (cases a; cases b) (simp_all only: flag_word_def if_True if_False append.simps)
qed

lemma yield_refs:
  assumes "list_all ref_answer_ok rs"
  shows "yield_map (\<lambda>(name, oid). if CHR 0x0a \<in> set name then Inl AssertionError else Inr (hexlify oid @ '' '' @ name @ [CHR 0x0a])) rs =
    (map (\<lambda>x. ref_answer x @ [CHR 0x0a]) rs, None)"
  using assms by (induction rs) (auto simp: ref_answer_ok_def ref_answer_def)

lemma sv_refs_output:
  assumes "sv_repo_open s" "sv_in s = wire_lines patterns @ rest" "list_all (\<lambda>l. l \<noteq> [] \<and> CHR 0x0a \<notin> set l) patterns"
    and "be_refs be patterns a b (sv_world s) = (rs, None)" "list_all ref_answer_ok rs"
  shows "sv_refs be (flag_word a @ '' '' @ flag_word b) s =
    (Inr (), s\<lparr>sv_in := rest, sv_out := sv_out s @ wire_lines (map ref_answer rs) @ write_ok\<rparr>)"
  unfolding sv_refs_def split_flag_words list.case
  using assms(1,4) flag_words(2)
  by (simp add: flag_words(3) init_open andthen_def [of "of_res _"] of_res_def py_assert_def andthen_ok [OF init_open]
      andthen_def [of conn_lines] conn_lines_ok [OF assms(3,2)] yield_refs [OF assms(5)] andthen_def write_each_output raise_end_def done_with_def conn_write_def conn_ok_def
      wire_lines_def comp_def)

lemma b_lines_read:
  assumes "list_all2 (\<lambda>l x. l \<noteq> [] \<and> CHR 0x0a \<notin> set l \<and> f l = Inr x) ls xs" "length ls < fuel"
  shows "b_lines f fuel (wire_lines ls @ rest) = (Inr xs, rest)"
  using assms
proof (induction ls xs arbitrary: fuel rule: list_all2_induct)
  case Nil
  then show ?case by (cases fuel) (simp_all add: wire_lines_def)
next
  case (Cons l ls x xs)
  obtain k where k: "fuel = Suc k" "length ls < k" using Cons.prems by (cases fuel) auto
  have l: "readline (wire_lines (l # ls) @ rest) = (l @ [CHR 0x0a], wire_lines ls @ rest)"
    using readline_line [of l "wire_lines ls @ rest"] Cons.hyps(1) by (simp add: wire_lines_def)
  show ?case using Cons.hyps(1) Cons.IH [OF k(2)] l by (simp add: k(1))
qed

lemma call_lines_read:
  assumes "list_all2 (\<lambda>l x. l \<noteq> [] \<and> CHR 0x0a \<notin> set l \<and> f l = Inr x) ls xs"
  shows "call_lines f (wire_lines ls @ rest) = (Inr xs, rest)"
proof -
  have "length ls \<le> length (concat (map (\<lambda>l. l @ [CHR 0x0a]) ls))" by (induction ls) auto
  then show ?thesis unfolding call_lines_def by (intro b_lines_read [OF assms]) (simp add: wire_lines_def)
qed

lemma ref_answer_parsed:
  assumes "list_all ref_answer_ok rs"
  shows "list_all2 (\<lambda>l x. l \<noteq> [] \<and> CHR 0x0a \<notin> set l \<and>
      (case split_on CHR '' '' l of
         [oidx, name] \<Rightarrow> if length oidx \<noteq> 40 then Inl ClientError else if name = [] then Inl ClientError
                         else res_bind (unhexlify oidx) (\<lambda>oid. Inr (name, oid))
       | _ \<Rightarrow> Inl ValueError) = Inr x) (map ref_answer rs) rs"
  using assms
proof (induction rs)
  case (Cons x rs)
  obtain name oid where x: "x = (name, oid)" by (cases x)
  have n: "length oid = 20" "name \<noteq> []" "CHR '' '' \<notin> set name" "CHR 0x0a \<notin> set name" using Cons.prems by (auto simp: x ref_answer_ok_def)
  have h: "CHR '' '' \<notin> set (hexlify oid)" "CHR 0x0a \<notin> set (hexlify oid)"
    using hexlify_hex [of oid] hex_not_white by (auto simp: list_all_iff whitespace_def)
  have "split_on CHR '' '' (ref_answer x) = [hexlify oid, name]"
    using h(1) n(3) by (simp add: ref_answer_def x split_on_append split_on_id)
  then show ?case using Cons n h(2) by (simp add: x unhexlify_hexlify ref_answer_def)
qed simp

text \<open>\<open>Client.refs\<close> sends its patterns after a line too many: the server takes the empty line for the end of the
  patterns and answers with every reference, and then dies on the first pattern, which it takes for a command.\<close>

theorem client_refs_ignores_patterns:
  assumes "ready c ''refs''" "''refs'' \<in> set (so_commands (srv_opts sv))" "sv_repo_open s"
    and "list_all (\<lambda>p. CHR 0x0a \<notin> set p) (pattern # patterns)" "strip pattern \<noteq> []"
    and "takeWhile (\<lambda>c. c \<noteq> CHR '' '') (strip pattern) \<notin> set (so_commands (srv_opts sv))"
    and "be_refs (srv_backend sv) [] heads_only tags_only (sv_world s) = (rs, None)" "list_all ref_answer_ok rs"
  shows "\<exists>s'. client_refs sv (pattern # patterns) heads_only tags_only c s = ((Inr rs, c), s', False)"
proof -
  let ?args = "flag_word heads_only @ '' '' @ flag_word tags_only"
  let ?pats = "concat (map (\<lambda>p. p @ [CHR 0x0a]) patterns) @ [CHR 0x0a]"
  let ?out = "wire_lines (map ref_answer rs) @ write_ok"
  let ?line = "''refs '' @ ?args"
  have line: "CHR 0x0a \<notin> set ?line" "strip ?line = ?line" "takeWhile (\<lambda>c. c \<noteq> CHR '' '') ?line = ''refs''"
      "drop 1 (dropWhile (\<lambda>c. c \<noteq> CHR '' '') ?line) = ?args"
    by (cases heads_only; cases tags_only; simp add: flag_word_def strip_id whitespace_def)+
  have l: "handle_line sv ?line = andthen (run_command sv ''refs'' ?args) (\<lambda>_. done_with True)"
    unfolding handle_line_def Let_def line using assms(2) by simp
  have refs: "sv_refs (srv_backend sv) ?args (s\<lparr>sv_in := [CHR 0x0a] @ pattern @ CHR 0x0a # ?pats, sv_out := []\<rparr>) =
      (Inr (), s\<lparr>sv_in := pattern @ CHR 0x0a # ?pats, sv_out := ?out\<rparr>)"
    using assms(3,7,8) by (subst sv_refs_output [where patterns = "[]" and rest = "pattern @ CHR 0x0a # ?pats"]) (simp_all add: wire_lines_def)
  have h: "handle_line sv ?line (s\<lparr>sv_in := [CHR 0x0a] @ pattern @ CHR 0x0a # ?pats, sv_out := []\<rparr>) =
      (Inr True, s\<lparr>sv_in := pattern @ CHR 0x0a # ?pats, sv_out := ?out\<rparr>)"
    using refs unfolding l by (simp add: andthen_def run_command_def Let_def done_with_def)
  define t where "t = s\<lparr>sv_in := pattern @ CHR 0x0a # ?pats, sv_out := ?out\<rparr>"
  have die: "serve sv (Suc k) t = (Inl (Exc ''unknown server command''), t\<lparr>sv_in := ?pats\<rparr>)" for k
    using readline_line [of pattern ?pats] assms(4,5,6)
    by (simp add: t_def andthen_def conn_readline_def handle_line_def Let_def raise_err_def)
  have "handle sv (s\<lparr>sv_in := (?line @ [CHR 0x0a]) @ [CHR 0x0a] @ pattern @ CHR 0x0a # ?pats, sv_out := []\<rparr>) =
      (Inl (Exc ''unknown server command''), t\<lparr>sv_in := ?pats\<rparr>)"
    by (rule handle_then [OF line(1) h [folded t_def] die])
  moreover have "call_lines (\<lambda>line.
          case split_on CHR '' '' line of
            [oidx, name] \<Rightarrow> if length oidx \<noteq> 40 then Inl ClientError else if name = [] then Inl ClientError
                            else res_bind (unhexlify oidx) (\<lambda>oid. Inr (name, oid))
          | _ \<Rightarrow> Inl ValueError) ?out = (Inr rs, write_ok)"
    by (rule call_lines_read [OF ref_answer_parsed [OF assms(8)]])
  moreover have "call_enter c ''refs'' (?args @ [CHR 0x0a]) = Inr (c\<lparr>cl_busy := Some ''refs''\<rparr>, ?line @ [CHR 0x0a, CHR 0x0a])"
    using assms(1) by (simp add: call_enter_def require_command_def check_busy_def ready_def)
  ultimately show ?thesis
    using assms(1,4) unfolding client_refs_def remote_call_def flag_words(1)
    by (simp add: py_assert_def list_all_iff t_def call_exit_def check_line(2) ready_def)
qed

section \<open>A small server\<close>

definition be_c :: "(bytes, char) backend" where
  "be_c = be_w\<lparr>be_read_ref := \<lambda>n g. Inr (Some (replicate 20 CHR ''a'')), be_config := \<lambda>k t g. Inr (Some (ConfInt 3)),
     be_resolve := \<lambda>p r m f g. Inr (Inl \<lparr>io_errno = Some 2, io_strerror = Some ''none'', io_terminus = None\<rparr>),
     be_cat := \<lambda>r g. Inr (if r = ''x'' then Some (replicate 40 CHR ''0'', ''blob'', 3, [''ab'', ''c'']) else None),
     be_join := \<lambda>i g. if i = ''x'' then ([''ab'', ''c''], None) else ([], Some KeyError),
     be_refs := \<lambda>p h t g. ([(''refs/heads/a'', replicate 20 CHR ''a'')], None)\<rparr>"

definition srv_c :: "(bytes, char) server" where
  "srv_c = \<lparr>srv_backend = be_c, srv_opts = so_w, srv_write_meta = wm_w, srv_read_meta = rm_w, srv_str = \<lambda>e. ''missing''\<rparr>"

definition cl_c :: client where "cl_c = \<lparr>cl_commands = all_commands, cl_busy = None\<rparr>"

definition ss_c :: "bytes session" where
  "ss_c = \<lparr>sv_in = [], sv_out = [], sv_world = ''/a'', sv_repo_open = True, sv_suspended = False, sv_dedup = True\<rparr>"

lemma srv_c_simps:
  "srv_backend srv_c = be_c" "srv_opts srv_c = so_w" "srv_write_meta srv_c = wm_w" "srv_read_meta srv_c = rm_w" "srv_str srv_c e = ''missing''"
  "sv_repo_open ss_c" "sv_world ss_c = ''/a''" "so_commands so_w = all_commands"
  by (simp_all add: srv_c_def ss_c_def so_w_def)

lemma ready_c:
  assumes "name \<in> set all_commands"
  shows "ready cl_c name" "name \<in> set (so_commands (srv_opts srv_c))"
  using assms by (simp_all add: ready_def cl_c_def srv_c_simps)

theorem remote_read_ref_witness:
  "\<exists>s'. client_read_ref srv_c ''refs/heads/a'' cl_c ss_c = ((Inr (Some (replicate 20 CHR ''a'')), cl_c), s', True) \<and> sv_world s' = ''/a''"
proof -
  have n: "''read-ref'' \<in> set all_commands" and p: "plain_line ''read-ref'' ''refs/heads/a''" by code_simp+
  show ?thesis
    using remote_read_ref [OF ready_c [OF n] p, of ss_c "Some (replicate 20 CHR ''a'')"] by (simp add: srv_c_simps be_c_def)
qed

theorem remote_config_get_witness:
  "\<exists>s'. client_config_get srv_c ''pack.packSizeLimit'' (Some ''int'') cl_c ss_c = ((Inr (Some (ConfInt 3)), cl_c), s', True)"
proof -
  have n: "''config-get'' \<in> set all_commands" and v: "lower ''pack.packSizeLimit'' \<in> set valid_config_opts" by code_simp+
  have i: "vint_encode 3 = Inr [CHR 0x03]" by code_simp
  obtain out where out: "write_config (Some (ConfInt 3)) [] = Inr out"
    using i by (simp add: write_config_def send_all_def send_def write_item_def write_vuint_def write_vint_def encode_vuint_cases encode_vint_cases)
  have "be_config (srv_backend srv_c) (lower ''pack.packSizeLimit'') (Some ''int'') (sv_world ss_c) = Inr (Some (ConfInt 3))"
    by (simp add: srv_c_simps be_c_def)
  from remote_config_get [OF ready_c [OF n] srv_c_simps(6) _ _ this out] v show ?thesis by auto
qed

theorem remote_resolve_witness:
  "\<exists>s'. client_resolve srv_c ''/x'' [([], Some (Root (Meta CHR ''m'')))] True False cl_c ss_c =
    ((Inr (Inl \<lparr>io_errno = Some 2, io_strerror = Some ''none'', io_terminus = None\<rparr>), cl_c), s', True) \<and> sv_world s' = ''/a''"
proof -
  let ?parent = "[([], Some (Root (Meta CHR ''m'')))]" and ?ex = "\<lparr>io_errno = Some 2, io_strerror = Some ''none'', io_terminus = None\<rparr>"
  have n: "''resolve'' \<in> set all_commands" by code_simp
  have codec: "meta_codec (srv_write_meta srv_c) (srv_read_meta srv_c)" by (simp add: meta_codec_def wm_w_def rm_w_def srv_c_simps)
  obtain p where p: "(if ?parent \<noteq> [] then write_resolution (srv_write_meta srv_c) [] ?parent else Inr []) = Inr p"
    by (simp add: write_resolution_def write_vuint_def encode_vuint_cases write_bvec_def write_vfs_item_def send_all_def send_def write_item_def)
  obtain req where req: "write_bvec p ''/x'' = Inr req" by (simp add: write_bvec_def write_vuint_def encode_vuint_cases)
  have v: "vint_encode 2 = Inr [CHR 0x02]" by code_simp
  obtain out where out: "(case Inl ?ex of Inl ex \<Rightarrow> write_ioerror (srv_write_meta srv_c) [CHR 0x00] ex
      | Inr res \<Rightarrow> write_resolution (srv_write_meta srv_c) [CHR 0x01] res) = Inr out"
    using v by (simp add: write_ioerror_def write_vuint_def write_vint_def encode_vint_cases encode_vuint_cases write_bvec_def)
  have r: "be_resolve (srv_backend srv_c) ''/x'' (if ?parent = [] then None else Some ?parent) True False (sv_world ss_c) = Inr (Inl ?ex)"
    by (simp add: srv_c_simps be_c_def)
  show ?thesis
    using remote_resolve [of cl_c srv_c ss_c "''/x''" ?parent p req True False "Inl ?ex" out] ready_c [OF n] codec p req r out
    by (simp add: srv_c_simps)
qed

theorem remote_cat_batch_witness:
  "\<exists>rs' s'. client_cat_batch srv_c [''x'', ''y''] cl_c ss_c = ((Inr rs', cl_c), s', True) \<and>
    list_all2 same_answer [Some (replicate 40 CHR ''0'', ''blob'', 3, [''ab'', ''c'']), None] rs'"
proof -
  let ?rs = "[Some (replicate 40 CHR ''0'', ''blob'', 3, [''ab'', ''c'']), None] :: cat_answer list"
  have n: "''cat-batch'' \<in> set all_commands" and l: "list_all (\<lambda>r. r \<noteq> [] \<and> CHR 0x0a \<notin> set r) [''x'', ''y'']" by code_simp+
  have c: "list_all2 (\<lambda>ref r. be_cat (srv_backend srv_c) ref (sv_world ss_c) = Inr r) [''x'', ''y''] ?rs" by (simp add: srv_c_simps be_c_def)
  have a: "list_all answer_ok ?rs" by (simp add: answer_ok_def)
  from remote_cat_batch [OF ready_c [OF n] srv_c_simps(6) l c a] show ?thesis by blast
qed

theorem remote_join_witness:
  "\<exists>s'. client_join srv_c ''y'' cl_c ss_c = ((Inl (Exc ''NotOk''), cl_c), s', True) \<and> sv_world s' = ''/a''"
proof -
  have n: "''cat'' \<in> set all_commands" and p: "plain_line ''cat'' ''y''" "CHR 0x0d \<notin> set ''y''"
    and x: "\<not> prefix ''KeyError:'' (squash_space False ''missing'')" by code_simp+
  have b: "be_join (srv_backend srv_c) ''y'' (sv_world ss_c) = ([], Some KeyError)" by (simp add: srv_c_simps be_c_def)
  show ?thesis using remote_join [OF ready_c [OF n] srv_c_simps(6) p b] x by (simp add: srv_c_simps)
qed

theorem client_refs_ignores_patterns_witness:
  "\<exists>s'. client_refs srv_c [''refs/heads/b''] True False cl_c ss_c = ((Inr [(''refs/heads/a'', replicate 20 CHR ''a'')], cl_c), s', False)"
proof -
  have n: "''refs'' \<in> set all_commands" and p: "list_all (\<lambda>p. CHR 0x0a \<notin> set p) [''refs/heads/b'']" "strip ''refs/heads/b'' \<noteq> []"
    "takeWhile (\<lambda>c. c \<noteq> CHR '' '') (strip ''refs/heads/b'') \<notin> set (so_commands (srv_opts srv_c))"
    unfolding srv_c_simps by code_simp+
  have b: "be_refs (srv_backend srv_c) [] True False (sv_world ss_c) = ([(''refs/heads/a'', replicate 20 CHR ''a'')], None)"
    by (simp add: srv_c_simps be_c_def)
  have r: "list_all ref_answer_ok [(''refs/heads/a'', replicate 20 CHR ''a'')]" by (simp add: ref_answer_ok_def)
  from client_refs_ignores_patterns [OF ready_c [OF n] srv_c_simps(6) p b r] show ?thesis .
qed

end
