(* ===== verification/Meta_Paths.thy ===== *)
theory Meta_Paths
  imports Py_Path
begin

text \<open>
  The paths of a metadata archive (\<open>lib/bup/metadata.py\<close>): how a path is cleaned when it is archived and when
  it is extracted, and why what comes out stays below the current directory.
\<close>

section \<open>Searching\<close>

text \<open>\<open>find\<close> and \<open>rfind\<close> of a byte string.\<close>

fun find_sub :: "bytes \<Rightarrow> bytes \<Rightarrow> nat option" where
  "find_sub pat s =
     (if prefix pat s then Some 0 else case s of [] \<Rightarrow> None | c # r \<Rightarrow> map_option Suc (find_sub pat r))"

fun rfind_sub :: "bytes \<Rightarrow> bytes \<Rightarrow> nat option" where
  "rfind_sub pat s =
     (case (case s of [] \<Rightarrow> None | c # r \<Rightarrow> map_option Suc (rfind_sub pat r)) of
        Some n \<Rightarrow> Some n
      | None \<Rightarrow> if prefix pat s then Some 0 else None)"

declare find_sub.simps [simp del] rfind_sub.simps [simp del]

lemma find_sub_Some: "find_sub pat s = Some n \<Longrightarrow> s = take n s @ pat @ drop (n + length pat) s"
proof (induction s arbitrary: n)
  case Nil
  then show ?case by (auto simp: find_sub.simps split: if_splits)
next
  case (Cons c s)
  show ?case
  proof (cases "prefix pat (c # s)")
    case True
    then show ?thesis using Cons.prems by (auto simp: find_sub.simps [of pat "c # s"] prefix_def)
  next
    case False
    then obtain k where "find_sub pat s = Some k" "n = Suc k" using Cons.prems by (auto simp: find_sub.simps [of pat "c # s"])
    then show ?thesis using Cons.IH by simp
  qed
qed

lemma find_sub_None: "find_sub pat s = None \<longleftrightarrow> \<not> sublist pat s"
proof (induction s)
  case Nil
  then show ?case by (auto simp: find_sub.simps)
next
  case (Cons c s)
  then show ?case by (auto simp: find_sub.simps [of pat "c # s"] sublist_Cons_right)
qed

lemma rfind_sub_None: "rfind_sub pat s = None \<longleftrightarrow> \<not> sublist pat s"
proof (induction s)
  case Nil
  then show ?case by (auto simp: rfind_sub.simps)
next
  case (Cons c s)
  then show ?case by (auto simp: rfind_sub.simps [of pat "c # s"] sublist_Cons_right split: option.splits)
qed

lemma rfind_sub_Some:
  "rfind_sub pat s = Some n \<Longrightarrow> s = take n s @ pat @ drop (n + length pat) s \<and> (n < length s \<longrightarrow> \<not> sublist pat (drop (Suc n) s))"
proof (induction s arbitrary: n)
  case Nil
  then show ?case by (auto simp: rfind_sub.simps split: if_splits)
next
  case (Cons c s)
  show ?case
  proof (cases "rfind_sub pat s")
    case None
    then have "n = 0" "prefix pat (c # s)" using Cons.prems by (auto simp: rfind_sub.simps [of pat "c # s"] split: if_splits)
    then show ?thesis using None by (auto simp: rfind_sub_None prefix_def)
  next
    case (Some k)
    then have "n = Suc k" using Cons.prems by (simp add: rfind_sub.simps [of pat "c # s"])
    then show ?thesis using Cons.IH [OF Some] by auto
  qed
qed

section \<open>Cleaning\<close>


text \<open>The loops that replace \<open>/./\<close> and \<open>//\<close> by one slash.\<close>

function squeeze :: "bytes \<Rightarrow> bytes \<Rightarrow> bytes" where
  "squeeze pat s =
     (case find_sub pat s of
        None \<Rightarrow> s
      | Some pos \<Rightarrow> if length pat < 2 then s else squeeze pat (take pos s @ ''/'' @ drop (pos + length pat) s))"
  by pat_completeness auto
termination
proof (relation "measure (\<lambda>(pat, s). length s)")
  fix pat s pos assume f: "find_sub pat s = Some pos" and l: "\<not> length pat < 2"
  define a b where "a = take pos s" and "b = drop (pos + length pat) s"
  have "s = a @ pat @ b" using find_sub_Some [OF f] by (simp only: a_def b_def)
  then have "length (a @ ''/'' @ b) < length s" using l by simp
  then show "((pat, take pos s @ ''/'' @ drop (pos + length pat) s), pat, s) \<in> measure (\<lambda>(pat, s). length s)"
    by (simp only: a_def b_def in_measure prod.case)
qed simp

declare squeeze.simps [simp del]

definition clean_up_path_for_archive :: "bytes \<Rightarrow> bytes" where
  "clean_up_path_for_archive p =
     (let r1 = (case rfind_sub ''/../'' p of None \<Rightarrow> p | Some pos \<Rightarrow> drop (pos + 4) p);
          r2 = (if prefix ''../'' r1 then drop 3 r1 else r1);
          r3 = squeeze ''/./'' r2;
          r4 = lstrip_chars ''/'' r3;
          r5 = squeeze ''//'' r4;
          r6 = (if prefix ''./'' r5 then drop 2 r5 else r5);
          r7 = (if suffix ''/.'' r6 then take (length r6 - 2) r6 else r6)
      in if r7 = [] \<or> suffix ''/..'' r7 then ''.'' else r7)"

definition risky_path :: "bytes \<Rightarrow> bool" where
  "risky_path p \<longleftrightarrow> prefix ''/'' p \<or> find_sub ''/../'' p \<noteq> None \<or> prefix ''../'' p \<or> suffix ''/..'' p"

definition clean_up_extract_path :: "bytes \<Rightarrow> bytes option" where
  "clean_up_extract_path p =
     (let result = lstrip_chars ''/'' p
      in if result = [] then Some ''.'' else if risky_path result then None else Some result)"

section \<open>Where a cleaned path lies\<close>

text \<open>No way up: no slash in front, and \<open>..\<close> neither inside nor in front of the rest.\<close>

definition no_up :: "bytes \<Rightarrow> bool" where
  "no_up s \<longleftrightarrow> \<not> sublist ''/../'' s \<and> \<not> prefix ''../'' s"

lemma squeeze_induct_step:
  assumes "find_sub pat s = Some pos"
  obtains a b where "s = a @ pat @ b" "take pos s @ ''/'' @ drop (pos + length pat) s = a @ ''/'' @ b"
  using find_sub_Some [OF assms] by blast

lemma sublist_around_slash:
  assumes "sublist ''/../'' (a @ ''/'' @ b)"
  shows "sublist ''/../'' (a @ ''/'') \<or> sublist ''/../'' (''/'' @ b)"
proof -
  obtain x y where e: "a @ ''/'' @ b = x @ ''/../'' @ y" using assms unfolding sublist_def by blast
  consider us where "a = x @ us" "us @ ''/'' @ b = ''/../'' @ y" | us where "a @ us = x" "''/'' @ b = us @ ''/../'' @ y"
    using e unfolding append_eq_append_conv2 by blast
  then show ?thesis
  proof cases
    case 1
    consider "us = []" | "us = ''/''" | "us = ''/.''" | "us = ''/..''" | zs where "us = ''/../'' @ zs"
      using 1(2) by (auto simp: Cons_eq_append_conv append_eq_Cons_conv)
    then show ?thesis
    proof cases
      case 1
      then have "''/'' @ b = [] @ ''/../'' @ y" using \<open>us @ ''/'' @ b = ''/../'' @ y\<close> by simp
      then show ?thesis unfolding sublist_def by blast
    next
      case 4
      then have "a @ ''/'' = x @ ''/../''" using \<open>a = x @ us\<close> by simp
      then show ?thesis by (metis append_Nil2 sublist_appendI)
    next
      case (5 zs)
      then have "a @ ''/'' = x @ ''/../'' @ (zs @ ''/'')" using \<open>a = x @ us\<close> by simp
      then show ?thesis unfolding sublist_def by blast
    qed (use \<open>us @ ''/'' @ b = ''/../'' @ y\<close> in simp_all)
  next
    case 2
    then show ?thesis unfolding sublist_def by blast
  qed
qed

lemma up_prefix_around_slash: "prefix ''../'' (a @ ''/'' @ b) \<Longrightarrow> prefix ''../'' (a @ ''/'')"
  by (cases a; cases "tl a"; cases "tl (tl a)") auto

lemma no_up_joined:
  assumes "no_up (a @ ''/'' @ m)" "suffix (''/'' @ b) (a @ ''/'' @ m)"
  shows "no_up (a @ ''/'' @ b)"
  unfolding no_up_def
proof
  have l: "sublist (a @ ''/'') (a @ ''/'' @ m)" by (metis append.assoc prefixI prefix_imp_sublist)
  have r: "sublist (''/'' @ b) (a @ ''/'' @ m)" using assms(2) by (rule suffix_imp_sublist)
  show "\<not> sublist ''/../'' (a @ ''/'' @ b)"
    using sublist_around_slash [of a b] sublist_order.order.trans [OF _ l] sublist_order.order.trans [OF _ r] assms(1) unfolding no_up_def by blast
  have "prefix (a @ ''/'') (a @ ''/'' @ m)" by simp
  then show "\<not> prefix ''../'' (a @ ''/'' @ b)"
    using up_prefix_around_slash prefix_order.trans assms(1) unfolding no_up_def by blast
qed

definition is_dots :: "bytes \<Rightarrow> bool" where "is_dots pat \<longleftrightarrow> pat = ''/./'' \<or> pat = ''//''"

lemma squeeze_keeps:
  assumes "is_dots pat" "no_up s"
  shows "no_up (squeeze pat s) \<and> \<not> sublist pat (squeeze pat s) \<and> (\<not> prefix ''/'' s \<longrightarrow> \<not> prefix ''/'' (squeeze pat s))"
  using assms
proof (induction pat s rule: squeeze.induct)
  case (1 pat s)
  show ?case
  proof (cases "find_sub pat s")
    case None
    have "squeeze pat s = s" unfolding squeeze.simps [of pat s] None by simp
    moreover have "\<not> sublist pat s" using None find_sub_None by blast
    ultimately show ?thesis using "1.prems"(2) by simp
  next
    case (Some pos)
    have big: "\<not> length pat < 2" using "1.prems"(1) by (auto simp: is_dots_def)
    obtain a b where ab: "s = a @ pat @ b" "take pos s @ ''/'' @ drop (pos + length pat) s = a @ ''/'' @ b"
      by (rule squeeze_induct_step [OF Some])
    obtain q where q: "pat = ''/'' @ q @ ''/''" using "1.prems"(1) unfolding is_dots_def by (metis append_Cons append_Nil)
    have "suffix (''/'' @ b) (a @ ''/'' @ q @ ''/'' @ b)" unfolding suffix_def by (metis append.assoc)
    then have n: "no_up (a @ ''/'' @ b)" using no_up_joined [of a "q @ ''/'' @ b" b] "1.prems"(2) by (simp add: ab(1) q)
    have p: "\<not> prefix ''/'' s \<Longrightarrow> \<not> prefix ''/'' (a @ ''/'' @ b)" by (cases a) (auto simp: ab(1) q)
    have e: "squeeze pat s = squeeze pat (a @ ''/'' @ b)" unfolding squeeze.simps [of pat s] using Some big ab(2) by simp
    show ?thesis using "1.IH" [OF Some big] n p "1.prems"(1) unfolding e ab(2) by blast
  qed
qed

lemma no_up_drop:
  assumes "\<not> sublist ''/../'' (x @ s)" "x = [] \<or> last x = slash \<or> \<not> prefix ''../'' s" "x = [] \<Longrightarrow> \<not> prefix ''../'' s"
  shows "no_up s"
  unfolding no_up_def
proof
  have "sublist s (x @ s)" by (intro suffix_imp_sublist) (simp add: suffix_def)
  then show "\<not> sublist ''/../'' s" using assms(1) sublist_order.order.trans by blast
  show "\<not> prefix ''../'' s"
  proof
    assume p: "prefix ''../'' s"
    then have "x \<noteq> []" "last x = slash" using assms(2,3) by auto
    then have y: "x = butlast x @ ''/''" using append_butlast_last_id [of x] by simp
    obtain z where "s = ''../'' @ z" using p by (auto simp: prefix_def)
    then have "x @ s = butlast x @ ''/../'' @ z" by (subst y) simp
    then show False using assms(1) unfolding sublist_def by blast
  qed
qed
definition stays_below :: "bytes \<Rightarrow> bool" where
  "stays_below r \<longleftrightarrow> \<not> prefix ''/'' r \<and> (''..'' \<in> set (split_on slash r) \<longrightarrow> r = ''..'')"

lemma up_part:
  assumes "''..'' \<in> set (split_on slash r)"
  shows "r = ''..'' \<or> sublist ''/../'' r \<or> prefix ''../'' r \<or> suffix ''/..'' r"
proof -
  obtain xs ys where s: "split_on slash r = xs @ ''..'' # ys" using assms by (auto simp: in_set_conv_decomp)
  have j: "r = join ''/'' (xs @ ''..'' # ys)" using join_split_on [of slash r] by (simp add: s)
  have pre: "xs \<noteq> [] \<Longrightarrow> join ''/'' (xs @ zs) = join ''/'' xs @ ''/'' @ join ''/'' zs" if "zs \<noteq> []" for xs zs
    using that
  proof (induction xs)
    case (Cons a xs)
    then show ?case by (cases xs; cases zs) simp_all
  qed simp
  consider "xs = []" "ys = []" | "xs = []" "ys \<noteq> []" | "xs \<noteq> []" "ys = []" | "xs \<noteq> []" "ys \<noteq> []" by blast
  then show ?thesis
  proof cases
    case 2
    then have "r = ''../'' @ join ''/'' ys" using j by (auto simp: neq_Nil_conv)
    then show ?thesis by simp
  next
    case 3
    then have "r = join ''/'' xs @ ''/..''" using j pre [of "[''..'']" xs] by simp
    then show ?thesis unfolding suffix_def by blast
  next
    case 4
    then have "r = join ''/'' xs @ ''/../'' @ join ''/'' ys" using j pre [of "''..'' # ys" xs] by (auto simp: neq_Nil_conv)
    then show ?thesis unfolding sublist_def by blast
  qed (use j in simp)
qed

lemma not_risky_below:
  assumes "\<not> risky_path r"
  shows "stays_below r"
  using assms up_part [of r] find_sub_None [of "''/../''" r] unfolding risky_path_def stays_below_def by blast

lemma lstrip_slashes: "\<exists>x. s = x @ lstrip_chars ''/'' s \<and> (x = [] \<or> last x = slash) \<and> \<not> prefix ''/'' (lstrip_chars ''/'' s)"
proof (induction s)
  case Nil
  show ?case by (simp add: lstrip_chars_def)
next
  case (Cons c s)
  show ?case
  proof (cases "c = slash")
    case True
    obtain x where "s = x @ lstrip_chars ''/'' s" "x = [] \<or> last x = slash" "\<not> prefix ''/'' (lstrip_chars ''/'' s)" using Cons.IH by blast
    moreover have "lstrip_chars ''/'' (c # s) = lstrip_chars ''/'' s" by (simp add: lstrip_chars_def True)
    ultimately show ?thesis using True by (intro exI [of _ "c # x"]) auto
  next
    case False
    then have "lstrip_chars ''/'' (c # s) = c # s" by (simp add: lstrip_chars_def)
    then show ?thesis using False by (intro exI [of _ "[]"]) simp
  qed
qed

lemma len4: "length ''/../'' = 4" by simp

lemma archive_r2:
  fixes p :: bytes
  defines "r1 \<equiv> (case rfind_sub ''/../'' p of None \<Rightarrow> p | Some pos \<Rightarrow> drop (pos + 4) p)"
  shows "no_up (if prefix ''../'' r1 then drop 3 r1 else r1)"
proof -
  have n: "\<not> sublist ''/../'' r1"
  proof (cases "rfind_sub ''/../'' p")
    case None
    then have "r1 = p" by (simp add: r1_def)
    then show ?thesis using None rfind_sub_None by blast
  next
    case (Some pos)
    have r: "p = take pos p @ ''/../'' @ drop (pos + 4) p" "pos < length p \<longrightarrow> \<not> sublist ''/../'' (drop (Suc pos) p)"
      using rfind_sub_Some [OF Some, unfolded len4] by blast+
    have "pos < length p" using arg_cong [OF r(1), of length] by simp
    then have n: "\<not> sublist ''/../'' (drop (Suc pos) p)" using r(2) by blast
    have d: "r1 = drop 3 (drop (Suc pos) p)" using Some by (simp add: r1_def add.commute)
    have "sublist r1 (drop (Suc pos) p)" unfolding d by (intro suffix_imp_sublist suffix_drop)
    then show ?thesis using n sublist_order.order.trans by blast
  qed
  show ?thesis
  proof (cases "prefix ''../'' r1")
    case True
    then have e: "r1 = ''../'' @ drop 3 r1" by (auto simp: prefix_def)
    have "\<not> sublist ''/../'' (''../'' @ drop 3 r1)" using n e by metis
    from no_up_drop [OF this] show ?thesis using True by simp
  next
    case False
    then show ?thesis using n by (simp add: no_up_def)
  qed
qed


lemma suffix_no_up:
  assumes "no_up (x @ s)" "x = [] \<or> last x = slash"
  shows "no_up s"
  using assms by (intro no_up_drop [of x]) (auto simp: no_up_def)

lemma prefix_no_up: "no_up (s @ x) \<Longrightarrow> no_up s"
  unfolding no_up_def using sublist_order.order.trans [OF _ sublist_appendI [of s "[]" x]] prefix_order.trans [OF _ prefixI [OF refl]] by auto

lemma archive_r7:
  assumes "no_up r5" "\<not> sublist ''//'' r5" "\<not> prefix ''/'' r5"
  defines "r6 \<equiv> (if prefix ''./'' r5 then drop 2 r5 else r5)"
  defines "r7 \<equiv> (if suffix ''/.'' r6 then take (length r6 - 2) r6 else r6)"
  shows "no_up r7 \<and> \<not> prefix ''/'' r7"
proof -
  have r6: "no_up r6" "\<not> prefix ''/'' r6"
  proof -
    show "no_up r6"
    proof (cases "prefix ''./'' r5")
      case True
      then have "r5 = ''./'' @ r6" by (auto simp: r6_def prefix_def)
      then show ?thesis using suffix_no_up [of "''./''" r6] assms(1) by simp
    qed (use assms(1) in \<open>simp add: r6_def\<close>)
    show "\<not> prefix ''/'' r6"
    proof
      assume p: "prefix ''/'' r6"
      then have "prefix ''./'' r5" using assms(3) by (auto simp: r6_def split: if_splits)
      then obtain z where "r5 = ''.'' @ ''//'' @ z" using p by (auto simp: r6_def prefix_def)
      then show False using assms(2) unfolding sublist_def by blast
    qed
  qed
  have "r6 = r7 @ (if suffix ''/.'' r6 then ''/.'' else [])" by (auto simp: r7_def suffix_def)
  then have e: "\<exists>x. r6 = r7 @ x" by blast
  then show ?thesis using prefix_no_up r6 prefix_order.trans [of "''/''" r7 r6] by (auto simp: prefix_def)
qed

lemma clean_up_not_risky: "\<not> risky_path (clean_up_path_for_archive p)"
proof -
  define r2 where "r2 = (let r1 = (case rfind_sub ''/../'' p of None \<Rightarrow> p | Some pos \<Rightarrow> drop (pos + 4) p) in if prefix ''../'' r1 then drop 3 r1 else r1)"
  define r3 where "r3 = squeeze ''/./'' r2"
  define r4 where "r4 = lstrip_chars ''/'' r3"
  define r5 where "r5 = squeeze ''//'' r4"
  define r6 where "r6 = (if prefix ''./'' r5 then drop 2 r5 else r5)"
  define r7 where "r7 = (if suffix ''/.'' r6 then take (length r6 - 2) r6 else r6)"
  have c: "clean_up_path_for_archive p = (if r7 = [] \<or> suffix ''/..'' r7 then ''.'' else r7)"
    unfolding clean_up_path_for_archive_def r7_def r6_def r5_def r4_def r3_def r2_def Let_def ..
  have "no_up r2" unfolding r2_def Let_def by (rule archive_r2)
  then have "no_up r3" unfolding r3_def using squeeze_keeps [of "''/./''" r2] by (simp add: is_dots_def)
  moreover obtain x where x: "r3 = x @ r4" "x = [] \<or> last x = slash" "\<not> prefix ''/'' r4" unfolding r4_def using lstrip_slashes [of r3] by blast
  ultimately have "no_up r4" using suffix_no_up [of x r4] by simp
  then have r5: "no_up r5" "\<not> sublist ''//'' r5" "\<not> prefix ''/'' r5"
    unfolding r5_def using squeeze_keeps [of "''//''" r4] x(3) by (simp_all add: is_dots_def)
  have r7: "no_up r7" "\<not> prefix ''/'' r7" unfolding r7_def r6_def using archive_r7 [OF r5] by blast+
  have dot: "\<not> risky_path ''.''" by code_simp
  show ?thesis
  proof (cases "r7 = [] \<or> suffix ''/..'' r7")
    case True
    then have "clean_up_path_for_archive p = ''.''" unfolding c by (rule if_P)
    then show ?thesis using dot by simp
  next
    case False
    then have "clean_up_path_for_archive p = r7" unfolding c by (rule if_not_P)
    then show ?thesis using r7 False find_sub_None [of "''/../''" r7] by (simp add: risky_path_def no_up_def)
  qed
qed

text \<open>Whatever path is archived, and whatever path of an archive is extracted, the path that is used is relative
  and has no part that goes up, with one exception: \<open>..\<close> itself passes both, since every test looks for a slash
  beside the dots.  So the archive of the path \<open>/..\<close> holds \<open>..\<close>, and is extracted into the parent directory.\<close>

theorem cleaned_paths_stay_below:
  "stays_below (clean_up_path_for_archive p) \<and> (case clean_up_extract_path p of None \<Rightarrow> True | Some r \<Rightarrow> stays_below r) \<and>
   clean_up_path_for_archive ''/..'' = ''..'' \<and> clean_up_extract_path ''..'' = Some ''..''"
proof -
  have "\<not> risky_path ''.''" by code_simp
  then have "case clean_up_extract_path p of None \<Rightarrow> True | Some r \<Rightarrow> stays_below r"
    using not_risky_below by (simp add: clean_up_extract_path_def Let_def)
  moreover have "clean_up_path_for_archive ''/..'' = ''..''" "clean_up_extract_path ''..'' = Some ''..''" by code_simp+
  ultimately show ?thesis using not_risky_below [OF clean_up_not_risky [of p]] by blast
qed

end
