(* ===== verification/Metadata.thy ===== *)
theory Metadata
  imports Meta_Paths Stat_Links Msg_Enc Bup_Protocol
begin

text \<open>
  The metadata of a file (\<open>lib/bup/metadata.py\<close>): the record, its encoding as a sequence of tagged binary records,
  comparison, and what is extracted from an archive.  The passwd and group databases, readers of symbolic
  links, ACLs and attributes and the file system are parameters.  Freezing an instance is left out.
\<close>

section \<open>The record\<close>

record metadata =
  md_mode :: "int option"
  md_uid :: "int option"
  md_gid :: "int option"
  md_user :: "bytes option"
  md_group :: "bytes option"
  md_rdev :: "int option"
  md_atime :: "int option"
  md_mtime :: "int option"
  md_ctime :: "int option"
  md_path :: "bytes option"
  md_size :: "int option"
  md_symlink_target :: "bytes option"
  md_hardlink_target :: "bytes option"
  md_linux_attr :: "int option"
  md_linux_xattr :: "(bytes \<times> bytes) list option"
  md_posix1e_acl :: "bytes list option"

definition empty_metadata :: metadata where
  "empty_metadata = \<lparr>md_mode = None, md_uid = None, md_gid = None, md_user = None, md_group = None, md_rdev = None,
     md_atime = None, md_mtime = None, md_ctime = None, md_path = None, md_size = None, md_symlink_target = None,
     md_hardlink_target = None, md_linux_attr = None, md_linux_xattr = None, md_posix1e_acl = None\<rparr>"

text \<open>What \<open>stat\<close> gives of a file.\<close>

record file_stat =
  st_mode :: int
  st_uid :: int
  st_gid :: int
  st_size :: int
  st_rdev :: int
  st_atime_ns :: int
  st_mtime_ns :: int
  st_ctime_ns :: int

definition add_common :: "(int \<Rightarrow> bytes option) \<Rightarrow> (int \<Rightarrow> bytes option) \<Rightarrow> file_stat \<Rightarrow> metadata \<Rightarrow> metadata res" where
  "add_common pw_name gr_name st md =
     res_bind (py_assert (0 \<le> st_uid st)) (\<lambda>_.
     res_bind (py_assert (0 \<le> st_gid st)) (\<lambda>_.
     Inr (md\<lparr>md_size := Some (st_size st), md_uid := Some (st_uid st), md_gid := Some (st_gid st),
       md_atime := Some (st_atime_ns st), md_mtime := Some (st_mtime_ns st), md_ctime := Some (st_ctime_ns st),
       md_user := Some (case pw_name (st_uid st) of None \<Rightarrow> [] | Some n \<Rightarrow> n),
       md_group := Some (case gr_name (st_gid st) of None \<Rightarrow> [] | Some n \<Rightarrow> n),
       md_mode := Some (st_mode st),
       md_rdev := Some (if S_ISCHR (st_mode st) \<or> S_ISBLK (st_mode st) then st_rdev st else 0)\<rparr>)))"

text \<open>What is read beside \<open>stat\<close>: the link's target, the ACL, the attributes (0 and absence are the same), the
  extended attributes; each may be missing.\<close>

record file_extras =
  fx_readlink :: "bytes option"
  fx_acl :: "bytes list option"
  fx_attr :: "int option"
  fx_xattr :: "(bytes \<times> bytes) list option"

definition from_path :: "(int \<Rightarrow> bytes option) \<Rightarrow> (int \<Rightarrow> bytes option) \<Rightarrow> file_stat \<Rightarrow> file_extras \<Rightarrow> bytes option \<Rightarrow> bool \<Rightarrow>
  bytes option \<Rightarrow> bool \<Rightarrow> metadata res" where
  "from_path pw_name gr_name st fx archive_path save_symlinks hardlink_target normalized =
     res_bind (add_common pw_name gr_name st (empty_metadata\<lparr>md_path := archive_path\<rparr>)) (\<lambda>m1.
     let m2 = (if save_symlinks \<and> S_ISLNK (st_mode st) then
                 (case fx_readlink fx of None \<Rightarrow> m1 | Some t \<Rightarrow> m1\<lparr>md_symlink_target := Some t, md_size := Some (int (length t))\<rparr>)
               else m1);
         m3 = m2\<lparr>md_hardlink_target := hardlink_target\<rparr>;
         m4 = (if \<not> S_ISLNK (st_mode st) then m3\<lparr>md_posix1e_acl := fx_acl fx\<rparr> else m3);
         m5 = (if S_ISREG (st_mode st) \<or> S_ISDIR (st_mode st) then
                 (case fx_attr fx of None \<Rightarrow> m4 | Some a \<Rightarrow> if a \<noteq> 0 then m4\<lparr>md_linux_attr := Some a\<rparr> else m4)
               else m4);
         m6 = (case fx_xattr fx of None \<Rightarrow> m5 | Some x \<Rightarrow> m5\<lparr>md_linux_xattr := Some x\<rparr>)
     in Inr (if normalized \<and> \<not> (S_ISREG (st_mode st) \<or> S_ISLNK (st_mode st)) then m6\<lparr>md_size := None\<rparr> else m6))"

section \<open>Encoding\<close>

definition need :: "'a option \<Rightarrow> 'a res" where
  "need x = (case x of None \<Rightarrow> Inl TypeError | Some y \<Rightarrow> Inr y)"

definition common_format :: string where "common_format = ''vvsvsvvVvVvVv''"

text \<open>The values of the common record, in the order of the format.\<close>

definition encode_common :: "metadata \<Rightarrow> bytes option res" where
  "encode_common md =
     (if md_mode md = None \<or> md_mode md = Some 0 then Inr None
      else
        res_bind (need (md_atime md)) (\<lambda>at. res_bind (need (md_mtime md)) (\<lambda>mt. res_bind (need (md_ctime md)) (\<lambda>ct.
        res_bind (need (md_uid md)) (\<lambda>uid. res_bind (need (md_user md)) (\<lambda>user.
        res_bind (need (md_gid md)) (\<lambda>gid. res_bind (need (md_group md)) (\<lambda>grp. res_bind (need (md_rdev md)) (\<lambda>rdev.
        let atime = nsecs_to_timespec at; mtime = nsecs_to_timespec mt; ctime = nsecs_to_timespec ct
        in res_bind (pack common_format
             [VInt (the (md_mode md)), VInt uid, VBytes user, VInt gid, VBytes grp, VInt rdev,
              VInt (fst atime), VInt (snd atime), VInt (fst mtime), VInt (snd mtime), VInt (fst ctime), VInt (snd ctime),
              VInt (case md_size md of None \<Rightarrow> - 1 | Some s \<Rightarrow> s)]) (\<lambda>b. Inr (Some b)))))))))))"

definition encode_path :: "metadata \<Rightarrow> bytes option res" where
  "encode_path md =
     (case md_path md of None \<Rightarrow> Inr None
      | Some p \<Rightarrow> if p = [] then Inr None else res_bind (pack ''s'' [VBytes p]) (\<lambda>b. Inr (Some b)))"

definition encode_posix1e_acl :: "metadata \<Rightarrow> bytes option res" where
  "encode_posix1e_acl md =
     (case md_posix1e_acl md of
        None \<Rightarrow> Inr None
      | Some acls \<Rightarrow>
          (case acls of
             [] \<Rightarrow> Inr None
           | [a] \<Rightarrow> Inl IndexError
           | [a, b] \<Rightarrow> res_bind (pack ''ssss'' [VBytes a, VBytes b, VBytes [], VBytes []]) (\<lambda>x. Inr (Some x))
           | [a, b, c] \<Rightarrow> Inl IndexError
           | a # b # c # d # _ \<Rightarrow> res_bind (pack ''ssss'' [VBytes a, VBytes b, VBytes c, VBytes d]) (\<lambda>x. Inr (Some x))))"

definition encode_linux_attr :: "metadata \<Rightarrow> bytes option res" where
  "encode_linux_attr md =
     (case md_linux_attr md of None \<Rightarrow> Inr None
      | Some a \<Rightarrow> if a = 0 then Inr None else res_bind (pack ''V'' [VInt a]) (\<lambda>b. Inr (Some b)))"

definition encode_linux_xattr :: "metadata \<Rightarrow> bytes option res" where
  "encode_linux_xattr md =
     (case md_linux_xattr md of None \<Rightarrow> Inr None
      | Some xs \<Rightarrow>
          if xs = [] then Inr None
          else
            res_bind (pack ''V'' [VInt (int (length xs))]) (\<lambda>n.
            res_bind (res_map (\<lambda>(name, value). pack ''ss'' [VBytes name, VBytes value]) xs) (\<lambda>ps.
            Inr (Some (n @ concat ps)))))"

text \<open>The tags.\<close>

definition tag_end :: int where "tag_end = 0"
definition tag_path :: int where "tag_path = 1"
definition tag_common_v1 :: int where "tag_common_v1 = 2"
definition tag_symlink_target :: int where "tag_symlink_target = 3"
definition tag_posix1e_acl_v1 :: int where "tag_posix1e_acl_v1 = 4"
definition tag_linux_attr :: int where "tag_linux_attr = 6"
definition tag_linux_xattr :: int where "tag_linux_xattr = 7"
definition tag_hardlink_target :: int where "tag_hardlink_target = 8"
definition tag_common_v2 :: int where "tag_common_v2 = 9"
definition tag_common_v3 :: int where "tag_common_v3 = 10"
definition tag_posix1e_acl_v2 :: int where "tag_posix1e_acl_v2 = 11"

lemmas tag_defs = tag_end_def tag_path_def tag_common_v1_def tag_symlink_target_def tag_posix1e_acl_v1_def tag_linux_attr_def
  tag_linux_xattr_def tag_hardlink_target_def tag_common_v2_def tag_common_v3_def tag_posix1e_acl_v2_def

text \<open>The records of an instance; a record without data is not written.\<close>

definition md_records :: "bool \<Rightarrow> metadata \<Rightarrow> (int \<times> bytes option) list res" where
  "md_records include_path md =
     res_bind (if include_path then res_bind (encode_path md) (\<lambda>p. Inr [(tag_path, p)]) else Inr []) (\<lambda>r1.
     res_bind (encode_common md) (\<lambda>common.
     res_bind (encode_posix1e_acl md) (\<lambda>acl.
     res_bind (encode_linux_attr md) (\<lambda>attr.
     res_bind (encode_linux_xattr md) (\<lambda>xattr.
     Inr (r1 @ [(tag_common_v3, common), (tag_symlink_target, md_symlink_target md), (tag_hardlink_target, md_hardlink_target md),
       (tag_posix1e_acl_v2, acl), (tag_linux_attr, attr), (tag_linux_xattr, xattr)]))))))"

fun encode_records :: "(int \<times> bytes option) list \<Rightarrow> bytes res" where
  "encode_records [] = encode_vuint tag_end"
| "encode_records ((tag, data) # rs) =
     (case data of
        None \<Rightarrow> encode_records rs
      | Some d \<Rightarrow>
          if d = [] then encode_records rs
          else res_bind (encode_vuint tag) (\<lambda>t. res_bind (encode_bvec d) (\<lambda>b. res_bind (encode_records rs) (\<lambda>r. Inr (t @ b @ r)))))"

definition md_encode :: "bool \<Rightarrow> metadata \<Rightarrow> bytes res" where
  "md_encode include_path md = res_bind (md_records include_path md) encode_records"

section \<open>Reading\<close>

definition load_times :: "int \<Rightarrow> int \<Rightarrow> int \<Rightarrow> int \<Rightarrow> int \<Rightarrow> int \<Rightarrow> metadata \<Rightarrow> metadata" where
  "load_times a an mt mtn c cn md =
     md\<lparr>md_atime := Some (timespec_to_nsecs (a, an)), md_mtime := Some (timespec_to_nsecs (mt, mtn)), md_ctime := Some (timespec_to_nsecs (c, cn))\<rparr>"

definition load_common :: "int \<Rightarrow> bytes \<Rightarrow> metadata \<Rightarrow> metadata res" where
  "load_common version data md =
     (if version = 3 then
        res_bind (unpack common_format data) (\<lambda>vs.
        case vs of
          [VInt mode, VInt uid, VBytes user, VInt gid, VBytes grp, VInt rdev, VInt a, VInt an, VInt mt, VInt mtn, VInt c, VInt cn, VInt sz] \<Rightarrow>
            (let md' = md\<lparr>md_mode := Some mode, md_uid := Some uid, md_user := Some user, md_gid := Some gid, md_group := Some grp, md_rdev := Some rdev\<rparr>
             in Inr (load_times a an mt mtn c cn (if 0 \<le> sz then md'\<lparr>md_size := Some sz\<rparr> else md')))
        | _ \<Rightarrow> Inl ValueError)
      else if version = 2 \<or> version = 1 then
        res_bind (unpack (if version = 2 then ''vvsvsvvVvVvV'' else ''VVsVsVvVvVvV'') data) (\<lambda>vs.
        case vs of
          [VInt mode, VInt uid, VBytes user, VInt gid, VBytes grp, VInt rdev, VInt a, VInt an, VInt mt, VInt mtn, VInt c, VInt cn] \<Rightarrow>
            Inr (load_times a an mt mtn c cn
              (md\<lparr>md_mode := Some mode, md_uid := Some uid, md_user := Some user, md_gid := Some gid, md_group := Some grp, md_rdev := Some rdev\<rparr>))
        | _ \<Rightarrow> Inl ValueError)
      else Inl (Exc ''unexpected common_rec version''))"

definition load_path :: "bytes \<Rightarrow> metadata \<Rightarrow> metadata res" where
  "load_path data md =
     res_bind (unpack ''s'' data) (\<lambda>vs. case vs of [VBytes p] \<Rightarrow> Inr (md\<lparr>md_path := Some p\<rparr>) | _ \<Rightarrow> Inl ValueError)"

definition load_symlink_target :: "bytes \<Rightarrow> metadata \<Rightarrow> metadata res" where
  "load_symlink_target target md =
     (let md' = md\<lparr>md_symlink_target := Some target\<rparr>
      in case md_size md of
           None \<Rightarrow> Inr (md'\<lparr>md_size := Some (int (length target))\<rparr>)
         | Some s \<Rightarrow> res_bind (py_assert (s = int (length target))) (\<lambda>_. Inr md'))"

text \<open>A comma in an ACL of the first version gives no list: \<open>tuple(None)\<close> raises.\<close>

definition correct_posix1e_v1_delimiters :: "bytes list \<Rightarrow> bytes list option" where
  "correct_posix1e_v1_delimiters acls =
     (if \<exists>acl\<in>set acls. CHR '','' \<in> set acl then None
      else Some (map (map (\<lambda>c. if c = CHR 0x0a then CHR '','' else c)) acls))"

definition load_posix1e_acl :: "int \<Rightarrow> bytes \<Rightarrow> metadata \<Rightarrow> metadata res" where
  "load_posix1e_acl version data md =
     res_bind (unpack ''ssss'' data) (\<lambda>vs.
     case vs of
       [VBytes a, VBytes b, VBytes c, VBytes d] \<Rightarrow>
         (let acl_rep = (if c = [] then [a, b] else [a, b, c, d])
          in if version = 1 then
               (case correct_posix1e_v1_delimiters acl_rep of None \<Rightarrow> Inl TypeError | Some acls \<Rightarrow> Inr (md\<lparr>md_posix1e_acl := Some acls\<rparr>))
             else Inr (md\<lparr>md_posix1e_acl := Some acl_rep\<rparr>))
     | _ \<Rightarrow> Inl ValueError)"

definition load_linux_attr :: "bytes \<Rightarrow> metadata \<Rightarrow> metadata res" where
  "load_linux_attr data md =
     res_bind (unpack ''V'' data) (\<lambda>vs. case vs of [VInt a] \<Rightarrow> Inr (md\<lparr>md_linux_attr := Some a\<rparr>) | _ \<Rightarrow> Inl ValueError)"

fun read_xattrs :: "nat \<Rightarrow> bytes \<Rightarrow> (bytes \<times> bytes) list res" where
  "read_xattrs 0 s = Inr []"
| "read_xattrs (Suc n) s =
     res_bind (read_bvec s) (\<lambda>(key, s1).
     case key of
       None \<Rightarrow> Inl EOFError
     | Some key \<Rightarrow>
         res_bind (read_bvec s1) (\<lambda>(val, s2).
         case val of
           None \<Rightarrow> Inl EOFError
         | Some val \<Rightarrow> res_bind (read_xattrs n s2) (\<lambda>r. Inr ((key, val) # r))))"

definition load_linux_xattr :: "bytes \<Rightarrow> metadata \<Rightarrow> metadata res" where
  "load_linux_xattr data md =
     res_bind (read_vuint data) (\<lambda>(n, s).
     case n of
       None \<Rightarrow> Inl EOFError
     | Some n \<Rightarrow> res_bind (read_xattrs (nat n) s) (\<lambda>xs. Inr (md\<lparr>md_linux_xattr := Some xs\<rparr>)))"

text \<open>One record by its tag; an unknown one is skipped.\<close>

definition known_tags :: "int list" where
  "known_tags = [tag_path, tag_common_v3, tag_common_v2, tag_symlink_target, tag_hardlink_target, tag_posix1e_acl_v2, tag_posix1e_acl_v1,
     tag_linux_attr, tag_linux_xattr, tag_common_v1]"

definition load_data :: "int \<Rightarrow> bytes \<Rightarrow> metadata \<Rightarrow> metadata res" where
  "load_data tag data md =
     (if tag = tag_path then load_path data md
      else if tag = tag_common_v3 then load_common 3 data md
      else if tag = tag_common_v2 then load_common 2 data md
      else if tag = tag_symlink_target then load_symlink_target data md
      else if tag = tag_hardlink_target then Inr (md\<lparr>md_hardlink_target := Some data\<rparr>)
      else if tag = tag_posix1e_acl_v2 then load_posix1e_acl 2 data md
      else if tag = tag_posix1e_acl_v1 then load_posix1e_acl 1 data md
      else if tag = tag_linux_attr then load_linux_attr data md
      else if tag = tag_linux_xattr then load_linux_xattr data md
      else load_common 1 data md)"

definition load_record :: "int \<Rightarrow> metadata \<Rightarrow> bytes \<Rightarrow> (metadata \<times> bytes) res" where
  "load_record tag md s =
     (if tag \<in> set known_tags then
        res_bind (read_bvec s) (\<lambda>(data, s').
        case data of None \<Rightarrow> Inl EOFError | Some d \<Rightarrow> res_bind (load_data tag d md) (\<lambda>md'. Inr (md', s')))
      else res_bind (skip_bvec s) (\<lambda>s'. Inr (md, s')))"

text \<open>Every turn takes at least a byte from the input.\<close>

fun read_records :: "nat \<Rightarrow> int \<Rightarrow> metadata \<Rightarrow> bytes \<Rightarrow> (metadata \<times> bytes) res" where
  "read_records 0 tag md s = Inl UndefinedBehaviour"
| "read_records (Suc fuel) tag md s =
     (if tag = tag_end then Inr (md, s)
      else
        res_bind (load_record tag md s) (\<lambda>(md', s1).
        res_bind (read_vuint s1) (\<lambda>(t, s2).
        case t of None \<Rightarrow> Inl EOFError | Some t \<Rightarrow> read_records fuel t md' s2)))"

definition md_read :: "bytes \<Rightarrow> (metadata option \<times> bytes) res" where
  "md_read s =
     res_bind (read_vuint s) (\<lambda>(tag, s1).
     case tag of
       None \<Rightarrow> Inr (None, s1)
     | Some tag \<Rightarrow>
         if tag = tag_end then Inr (Some empty_metadata, s1)
         else res_bind (read_records (length s + 1) tag empty_metadata s1) (\<lambda>(md, s2). Inr (Some md, s2)))"

section \<open>Comparing\<close>

text \<open>\<open>__eq__\<close> leaves out the extended attributes.\<close>

definition md_eq :: "metadata \<Rightarrow> metadata \<Rightarrow> bool" where
  "md_eq a b \<longleftrightarrow> md_mode a = md_mode b \<and> md_mtime a = md_mtime b \<and> md_ctime a = md_ctime b \<and> md_atime a = md_atime b \<and>
     md_rdev a = md_rdev b \<and> md_path a = md_path b \<and> md_uid a = md_uid b \<and> md_gid a = md_gid b \<and> md_size a = md_size b \<and>
     md_user a = md_user b \<and> md_group a = md_group b \<and> md_symlink_target a = md_symlink_target b \<and>
     md_hardlink_target a = md_hardlink_target b \<and> md_linux_attr a = md_linux_attr b \<and> md_posix1e_acl a = md_posix1e_acl b"

definition same_common :: "metadata \<Rightarrow> metadata \<Rightarrow> bool" where
  "same_common a b \<longleftrightarrow> md_uid a = md_uid b \<and> md_gid a = md_gid b \<and> md_rdev a = md_rdev b \<and> md_mtime a = md_mtime b \<and>
     md_ctime a = md_ctime b \<and> md_user a = md_user b \<and> md_group a = md_group b \<and> md_size a = md_size b"

definition same_file :: "metadata \<Rightarrow> metadata \<Rightarrow> bool" where
  "same_file a b \<longleftrightarrow> same_common a b \<and> md_hardlink_target a = md_hardlink_target b \<and> md_posix1e_acl a = md_posix1e_acl b \<and>
     md_linux_attr a = md_linux_attr b \<and> md_linux_xattr a = md_linux_xattr b"

section \<open>Restoring\<close>

definition recognized_file_type :: "int \<Rightarrow> bool" where
  "recognized_file_type mode \<longleftrightarrow> S_ISREG mode \<or> S_ISDIR mode \<or> S_ISCHR mode \<or> S_ISBLK mode \<or> S_ISFIFO mode \<or> S_ISSOCK mode \<or> S_ISLNK mode"

text \<open>Which owner and group \<open>_apply_common_rec\<close> sets; \<open>-1\<close> leaves them.  \<open>pw_uid\<close> and \<open>gr_gid\<close> look names up,
  \<open>gr_name\<close> a group's id.\<close>

record owner_env =
  oe_superuser :: bool
  oe_groups :: "int list"
  oe_pw_uid :: "bytes \<Rightarrow> int option"
  oe_gr_gid :: "bytes \<Rightarrow> int option"
  oe_gr_name :: "int \<Rightarrow> bytes option"

definition nonempty :: "bytes option \<Rightarrow> bool" where "nonempty x \<longleftrightarrow> x \<noteq> None \<and> x \<noteq> Some []"

definition owner_to_set :: "owner_env \<Rightarrow> bool \<Rightarrow> metadata \<Rightarrow> int \<times> int" where
  "owner_to_set env numeric_ids md =
     (if oe_superuser env then
        (let uid = (case md_uid md of None \<Rightarrow> - 1 | Some u \<Rightarrow> u); gid = (case md_gid md of None \<Rightarrow> - 1 | Some g \<Rightarrow> g)
         in if numeric_ids then (uid, gid)
            else ((if md_uid md \<noteq> Some 0 \<and> nonempty (md_user md) then (case oe_pw_uid env (the (md_user md)) of None \<Rightarrow> uid | Some u \<Rightarrow> u) else uid),
                  (if md_gid md \<noteq> Some 0 \<and> nonempty (md_group md) then (case oe_gr_gid env (the (md_group md)) of None \<Rightarrow> gid | Some g \<Rightarrow> g) else gid)))
      else
        (let gid = (case md_gid md of None \<Rightarrow> - 1 | Some g \<Rightarrow> if g \<in> set (oe_groups env) then g else - 1);
             names = List.map_filter (oe_gr_name env) (oe_groups env)
         in (- 1,
             if \<not> numeric_ids \<and> md_gid md \<noteq> Some 0 \<and> md_group md \<in> Some ` set names
             then (case oe_gr_gid env (the (md_group md)) of None \<Rightarrow> gid | Some g \<Rightarrow> g) else gid)))"

text \<open>The extended attributes to set and to remove, by those the file has.\<close>

definition xattr_changes :: "(bytes \<times> bytes) list \<Rightarrow> (bytes \<times> bytes) list \<Rightarrow> (bytes \<times> bytes) list \<times> bytes list" where
  "xattr_changes existing wanted =
     (filter (\<lambda>(k, v). map_of existing k \<noteq> Some v) wanted, filter (\<lambda>k. k \<notin> fst ` set wanted) (map fst existing))"

section \<open>Archives\<close>

text \<open>The instances of an archive, \<open>None\<close> where there is an empty one, and the exception that ends them.\<close>

function archive_items :: "bytes \<Rightarrow> metadata option yields" where
  "archive_items s =
     (case md_read s of
        Inl e \<Rightarrow> ([], Some e)
      | Inr (None, r) \<Rightarrow> ([], None)
      | Inr (Some md, r) \<Rightarrow>
          if length r < length s then (let rest = archive_items r in ((if md = empty_metadata then None else Some md) # fst rest, snd rest))
          else ([], Some UndefinedBehaviour))"
  by pat_completeness auto
termination by (relation "measure length") auto

declare archive_items.simps [simp del]

text \<open>What extracting does to the file system, in order; \<open>isdir\<close> is \<open>os.path.isdir\<close> after the path is set up.\<close>

datatype fs_action = Mkdirp bytes | Create bytes metadata | ApplyTo bytes metadata | NoteRisky bytes

definition set_up_path :: "metadata \<Rightarrow> bytes \<Rightarrow> fs_action list res" where
  "set_up_path md path =
     res_bind (need (md_mode md)) (\<lambda>mode.
     Inr (if S_ISDIR mode then [Mkdirp path]
          else (if dirname path \<noteq> [] then [Mkdirp (dirname path)] else []) @ [Create path md]))"

definition archived_path :: "metadata \<Rightarrow> bytes res" where
  "archived_path md = (case md_path md of None \<Rightarrow> Inl (Exc ''AttributeError'') | Some p \<Rightarrow> Inr p)"

fun start_extract :: "metadata option list \<Rightarrow> fs_action list res" where
  "start_extract [] = Inr []"
| "start_extract (None # mds) = Inr []"
| "start_extract (Some md # mds) =
     res_bind (archived_path md) (\<lambda>p.
     case clean_up_extract_path p of
       None \<Rightarrow> res_bind (start_extract mds) (\<lambda>r. Inr (NoteRisky p # r))
     | Some xpath \<Rightarrow>
         res_bind (set_up_path (md\<lparr>md_path := Some xpath\<rparr>) xpath) (\<lambda>a. res_bind (start_extract mds) (\<lambda>r. Inr (a @ r))))"

text \<open>The pass over the instances: the actions, and the directories for the end; \<open>finish_extract\<close> asks for the type
  of the path of the archive, not of the cleaned one.\<close>

fun finish_pass :: "(bytes \<Rightarrow> bool) \<Rightarrow> metadata option list \<Rightarrow> (fs_action list \<times> (bytes \<times> metadata) list) res" where
  "finish_pass isdir [] = Inr ([], [])"
| "finish_pass isdir (None # mds) = Inr ([], [])"
| "finish_pass isdir (Some md # mds) =
     res_bind (archived_path md) (\<lambda>p.
     res_bind (finish_pass isdir mds) (\<lambda>(acts, ds).
     case clean_up_extract_path p of
       None \<Rightarrow> Inr (NoteRisky p # acts, ds)
     | Some xpath \<Rightarrow> if isdir p then Inr (acts, (p, md) # ds) else Inr (ApplyTo xpath md # acts, ds)))"

definition longest_first :: "(bytes \<times> 'a) list \<Rightarrow> (bytes \<times> 'a) list" where
  "longest_first ds = rev (sort_key (\<lambda>(p, x). length p) (rev ds))"

definition finish_extract :: "(bytes \<Rightarrow> bool) \<Rightarrow> metadata option list \<Rightarrow> fs_action list res" where
  "finish_extract isdir mds =
     res_bind (finish_pass isdir mds) (\<lambda>(acts, ds).
     res_bind (res_map (\<lambda>(p, md). case clean_up_extract_path p of None \<Rightarrow> Inl TypeError | Some xpath \<Rightarrow> Inr (ApplyTo xpath md)) (longest_first ds))
       (\<lambda>r. Inr (acts @ r)))"

fun extract_pass :: "(bytes \<Rightarrow> bool) \<Rightarrow> metadata option list \<Rightarrow> (fs_action list \<times> (bytes \<times> metadata) list) res" where
  "extract_pass isdir [] = Inr ([], [])"
| "extract_pass isdir (None # mds) = Inr ([], [])"
| "extract_pass isdir (Some md # mds) =
     res_bind (archived_path md) (\<lambda>p.
     case clean_up_extract_path p of
       None \<Rightarrow> res_bind (extract_pass isdir mds) (\<lambda>(acts, ds). Inr (NoteRisky p # acts, ds))
     | Some xpath \<Rightarrow>
         (let md' = md\<lparr>md_path := Some xpath\<rparr>
          in res_bind (set_up_path md' xpath) (\<lambda>a.
             res_bind (extract_pass isdir mds) (\<lambda>(acts, ds).
             if isdir xpath then Inr (a @ acts, (xpath, md') # ds) else Inr (a @ ApplyTo xpath md' # acts, ds)))))"

definition extract_archive :: "(bytes \<Rightarrow> bool) \<Rightarrow> metadata option list \<Rightarrow> fs_action list res" where
  "extract_archive isdir mds =
     res_bind (extract_pass isdir mds) (\<lambda>(acts, ds). Inr (acts @ map (\<lambda>(p, md). ApplyTo p md) (longest_first ds)))"

section \<open>Listing\<close>

definition ljust :: "nat \<Rightarrow> bytes \<Rightarrow> bytes" where "ljust n s = s @ replicate (n - length s) CHR '' ''"
definition rjust :: "nat \<Rightarrow> bytes \<Rightarrow> bytes" where "rjust n s = replicate (n - length s) CHR '' '' @ s"

text \<open>The line of a listing; \<open>strftime\<close> gives a local time, \<open>human\<close> formats a size.\<close>

definition summary_bytes :: "(int \<Rightarrow> bytes) \<Rightarrow> (int \<Rightarrow> bytes) \<Rightarrow> metadata option \<Rightarrow> bool \<Rightarrow> bytes option \<Rightarrow> bool \<Rightarrow> bytes res" where
  "summary_bytes strftime human meta numeric_ids classification human_readable =
     (case meta of
        None \<Rightarrow>
          Inr (ljust 10 (replicate 10 CHR ''?'') @ '' '' @ ljust 11 ''?/?'' @ '' '' @ rjust 11 ''?'' @ '' '' @ rjust 16 ''????-??-?? ??:??'' @ '' '' @
            (if nonempty classification then ''?'' else []))
      | Some md \<Rightarrow>
          res_bind (need (md_mode md)) (\<lambda>mode.
          let user = (if nonempty (md_user md) \<and> \<not> numeric_ids then the (md_user md) else case md_uid md of None \<Rightarrow> ''?'' | Some u \<Rightarrow> show_int u);
              grp = (if nonempty (md_group md) \<and> \<not> numeric_ids then the (md_group md) else case md_gid md of None \<Rightarrow> ''?'' | Some g \<Rightarrow> show_int g);
              mtime = (case local_time_str strftime (md_mtime md) of None \<Rightarrow> ''????-??-?? ??:??'' | Some t \<Rightarrow> t);
              cls = (if nonempty classification then classification_str mode (classification = Some ''all'') else []);
              name = (case md_path md of None \<Rightarrow> [] | Some p \<Rightarrow> p) @ cls @
                (if nonempty (md_symlink_target md) then '' -> '' @ the (md_symlink_target md) else [])
          in res_bind (if S_ISCHR mode \<or> S_ISBLK mode then res_bind (need (md_rdev md)) (\<lambda>d. Inr (show_int d))
                       else case md_size md of None \<Rightarrow> Inr ''-'' | Some s \<Rightarrow> Inr (if human_readable then human s else show_int s)) (\<lambda>size_or_dev.
             Inr (ljust 10 (mode_str mode) @ '' '' @ ljust 11 (user @ ''/'' @ grp) @ '' '' @ rjust 11 size_or_dev @ '' '' @ rjust 16 mtime @ '' '' @ name))))"

definition only_if :: "bool \<Rightarrow> bytes list res \<Rightarrow> bytes list res" where "only_if b x = (if b then x else Inr [])"

definition labelled :: "bytes \<Rightarrow> ('a \<Rightarrow> bytes) \<Rightarrow> 'a option \<Rightarrow> bytes list res" where
  "labelled label show x = res_bind (need x) (\<lambda>y. Inr [label @ '': '' @ show y])"

text \<open>The default ACL of a directory is taken from the third place.\<close>

definition acl_lines :: "int \<Rightarrow> bytes list \<Rightarrow> bytes list res" where
  "acl_lines mode acl =
     (case acl of
        [] \<Rightarrow> Inl IndexError
      | a # _ \<Rightarrow>
          if S_ISDIR mode then
            (if 2 < length acl then Inr [''posix1e-acl: '' @ a @ [CHR 0x0a], ''posix1e-acl-default: '' @ acl ! 2 @ [CHR 0x0a]] else Inl IndexError)
          else Inr [''posix1e-acl: '' @ a @ [CHR 0x0a]])"

definition xattr_lines :: "(bytes \<times> bytes) list \<Rightarrow> bytes list" where
  "xattr_lines xs = map (\<lambda>(name, value). ''linux-xattr: '' @ enc_sh name @ '' -> '' @ enc_sh value) (sort_key fst xs)"

definition detailed_bytes :: "metadata option \<Rightarrow> (bytes \<Rightarrow> bool) \<Rightarrow> bytes res" where
  "detailed_bytes meta wanted =
     (case meta of
        None \<Rightarrow> Inr ''empty''
      | Some md \<Rightarrow>
          res_bind (res_map (\<lambda>x. x)
               [only_if (wanted ''path'') (Inr [''path: '' @ (case md_path md of None \<Rightarrow> [] | Some p \<Rightarrow> p)]),
                only_if (wanted ''mode'') (labelled ''mode'' (\<lambda>m. show_int_base 8 m @ '' ('' @ mode_str m @ '')'') (md_mode md)),
                only_if (wanted ''link-target'') (res_bind (need (md_mode md)) (\<lambda>mode. only_if (S_ISLNK mode) (labelled ''link-target'' (\<lambda>t. t) (md_symlink_target md)))),
                only_if (wanted ''rdev'') (Inr [''rdev: '' @ show_int (case md_rdev md of None \<Rightarrow> 0 | Some d \<Rightarrow> d)]),
                only_if (wanted ''size'' \<and> md_size md \<noteq> None) (labelled ''size'' show_int (md_size md)),
                only_if (wanted ''uid'') (labelled ''uid'' show_int (md_uid md)),
                only_if (wanted ''gid'') (labelled ''gid'' show_int (md_gid md)),
                only_if (wanted ''user'') (labelled ''user'' (\<lambda>t. t) (md_user md)),
                only_if (wanted ''group'') (labelled ''group'' (\<lambda>t. t) (md_group md)),
                only_if (wanted ''atime'') (labelled ''atime'' fstime_to_sec_bytes (md_atime md)),
                only_if (wanted ''mtime'') (labelled ''mtime'' fstime_to_sec_bytes (md_mtime md)),
                only_if (wanted ''ctime'') (labelled ''ctime'' fstime_to_sec_bytes (md_ctime md)),
                only_if (wanted ''linux-attr'' \<and> md_linux_attr md \<noteq> None \<and> md_linux_attr md \<noteq> Some 0) (labelled ''linux-attr'' (show_int_base 16) (md_linux_attr md)),
                only_if (wanted ''linux-xattr'' \<and> md_linux_xattr md \<noteq> None) (Inr (xattr_lines (the (md_linux_xattr md)))),
                only_if (wanted ''posix1e-acl'' \<and> md_posix1e_acl md \<noteq> None \<and> md_posix1e_acl md \<noteq> Some []) (res_bind (need (md_mode md)) (\<lambda>mode. acl_lines mode (the (md_posix1e_acl md))))])
             (\<lambda>ls. Inr (join [CHR 0x0a] (concat ls))))"

end
