(* ===== verification/Meta_Laws.thy ===== *)
theory Meta_Laws
  imports Metadata Bup_Client
begin

text \<open>
  What metadata is written and read as: an instance that holds what was saved of a file is read back, so it is
  metadata for the protocol.
\<close>

section \<open>Records\<close>

lemma pack_recv:
  assumes "pack types args = Inr b"
  shows "recv types (b @ rest) = Inr (args, rest)"
proof (cases "bup_limited_vint_pack types args")
  case (Inl e)
  then have len: "length types = length args"
    and "\<exists>ret. res_map (\<lambda>(ty, value). pack_item ty value) (zip types args) = Inr ret \<and> b = concat ret"
    using assms by (auto simp: pack_def res_simps split: py_error.splits)
  then show ?thesis using res_map_pack_item_recv [OF len] by blast
next
  case (Inr b')
  then have "length types = length args" "limited_vint_pack_loop (length args * 20) False [] (zip types args) = Inr b"
    using assms by (auto simp: pack_def bup_limited_vint_pack_def Let_def split: if_splits)
  then show ?thesis using limited_vint_pack_loop_recv [of types args "length args * 20" False "[]" b] by auto
qed

lemma pack_unpack: "pack types args = Inr b \<Longrightarrow> unpack types b = Inr args"
  using pack_recv [of types args b "[]"] by (simp add: unpack_def)

definition load_opt :: "int \<Rightarrow> bytes option \<Rightarrow> metadata \<Rightarrow> metadata res" where
  "load_opt tag data md = (case data of None \<Rightarrow> Inr md | Some d \<Rightarrow> if d = [] then Inr md else load_data tag d md)"

fun load_all :: "(int \<times> bytes option) list \<Rightarrow> metadata \<Rightarrow> metadata res" where
  "load_all [] md = Inr md"
| "load_all ((tag, data) # rs) md = res_bind (load_opt tag data md) (load_all rs)"

lemma tag_byte:
  assumes "t \<in> set (tag_end # known_tags)"
  shows "\<exists>c. encode_vuint t = Inr [c]"
proof -
  have "list_all (\<lambda>t. case encode_vuint t of Inr [c] \<Rightarrow> True | _ \<Rightarrow> False) (tag_end # known_tags)" by code_simp
  then have "case encode_vuint t of Inr [c] \<Rightarrow> True | _ \<Rightarrow> False" using assms unfolding list_all_iff by blast
  then show ?thesis by (cases "encode_vuint t") (auto split: list.splits)
qed

lemma end_not_known: "tag_end \<notin> set known_tags" by code_simp

lemma bvec_read: "encode_bvec d = Inr b \<Longrightarrow> read_bvec (b @ rest) = Inr (Some d, rest)"
  using read_item_encoded(3) [of d b rest] by (auto simp: read_item_def res_simps)

lemma read_encoded:
  assumes "encode_records rs = Inr b" "fst ` set rs \<subseteq> set known_tags" "load_all rs md = Inr md'" "length b \<le> fuel"
  shows "\<exists>t s1. read_vuint (b @ rest) = Inr (Some t, s1) \<and> read_records fuel t md s1 = Inr (md', rest) \<and>
    (t = tag_end \<longleftrightarrow> (\<forall>(t, d)\<in>set rs. d = None \<or> d = Some []))"
  using assms
proof (induction rs arbitrary: b md fuel)
  case Nil
  obtain c where "encode_vuint tag_end = Inr [c]" using tag_byte [of tag_end] by auto
  then have "b = [c]" "read_vuint (b @ rest) = Inr (Some tag_end, rest)" "fuel \<noteq> 0"
    using Nil.prems read_vuint_encode_vuint [of tag_end "[c]" rest] by auto
  then show ?case using Nil.prems(3) by (cases fuel) simp_all
next
  case (Cons x rs)
  obtain tag data where x: "x = (tag, data)" by (cases x)
  obtain md1 where md1: "load_opt tag data md = Inr md1" "load_all rs md1 = Inr md'" using Cons.prems(3) by (auto simp: x res_simps)
  show ?case
  proof (cases "data = None \<or> data = Some []")
    case True
    then have "encode_records rs = Inr b" "md1 = md" using Cons.prems(1) md1(1) by (auto simp: x load_opt_def)
    then show ?thesis using Cons.IH [of b md fuel] Cons.prems(2,4) md1(2) True by (auto simp: x)
  next
    case False
    then obtain d where d: "data = Some d" "d \<noteq> []" by (cases data) auto
    obtain t bd r where e: "encode_vuint tag = Inr t" "encode_bvec d = Inr bd" "encode_records rs = Inr r" "b = t @ bd @ r"
      using Cons.prems(1) d by (auto simp: x res_simps)
    have k: "tag \<in> set known_tags" using Cons.prems(2) by (simp add: x)
    then obtain c where "t = [c]" using tag_byte [of tag] e(1) by auto
    then obtain f where f: "fuel = Suc f" "length r \<le> f" using Cons.prems(4) e(4) by (cases fuel) auto
    have ld: "load_data tag d md = Inr md1" using md1(1) d by (simp add: load_opt_def)
    obtain t' s' where IH: "read_vuint (r @ rest) = Inr (Some t', s')" "read_records f t' md1 s' = Inr (md', rest)"
      using Cons.IH [OF e(3) _ md1(2) f(2)] Cons.prems(2) by auto
    have "read_vuint (b @ rest) = Inr (Some tag, bd @ r @ rest)" using read_vuint_encode_vuint [OF e(1)] e(4) by simp
    moreover have "tag \<noteq> tag_end" using k end_not_known by blast
    moreover have "read_records fuel tag md (bd @ r @ rest) = Inr (md', rest)"
      using k ld IH bvec_read [OF e(2)] \<open>tag \<noteq> tag_end\<close> by (simp add: f(1) load_record_def)
    ultimately show ?thesis using d by (auto simp: x)
  qed
qed

section \<open>Each record\<close>

definition or_else :: "'a option \<Rightarrow> 'a option \<Rightarrow> 'a option" where "or_else a b = (if a = None then b else a)"

lemma or_else_simps [simp]: "or_else (Some x) b = Some x" "or_else None b = b" "or_else a None = a"
  by (simp_all add: or_else_def)

lemma path_loaded:
  assumes "encode_path md = Inr p" "md_path md \<noteq> Some []"
  shows "load_opt tag_path p m = Inr (m\<lparr>md_path := or_else (md_path md) (md_path m)\<rparr>)"
proof (cases "md_path md")
  case None
  then show ?thesis using assms by (simp add: encode_path_def load_opt_def)
next
  case (Some q)
  then obtain b where b: "pack ''s'' [VBytes q] = Inr b" "p = Some b" using assms by (auto simp: encode_path_def res_simps split: if_splits)
  from pack_unpack [OF this(1)] have u: "unpack ''s'' b = Inr [VBytes q]" .
  have "b \<noteq> []" using u by (auto simp: unpack_def read_item_def read_bvec_def read_vuint_def res_simps)
  then show ?thesis using u b(2) Some by (simp add: load_opt_def load_data_def load_path_def)
qed
lemma pack_not_Nil:
  assumes "pack types args = Inr b" "types \<noteq> []"
  shows "b \<noteq> []"
proof
  assume "b = []"
  then have "recv types [] = Inr (args, [])" using pack_recv [OF assms(1), of "[]"] by simp
  moreover obtain t ts where "types = t # ts" using assms(2) by (cases types) auto
  ultimately show False
    by (auto simp: read_item_def read_bvec_def read_vuint_def read_vint_def res_simps split: if_splits)
qed

lemma load_tags:
  "load_data tag_path d md = load_path d md" "load_data tag_common_v3 d md = load_common 3 d md"
  "load_data tag_symlink_target d md = load_symlink_target d md" "load_data tag_hardlink_target d md = Inr (md\<lparr>md_hardlink_target := Some d\<rparr>)"
  "load_data tag_posix1e_acl_v2 d md = load_posix1e_acl 2 d md" "load_data tag_linux_attr d md = load_linux_attr d md"
  "load_data tag_linux_xattr d md = load_linux_xattr d md"
  by (simp_all add: load_data_def tag_defs)

text \<open>The common fields of an instance, taken over by another.\<close>

definition take_common :: "metadata \<Rightarrow> metadata \<Rightarrow> metadata" where
  "take_common md m = m\<lparr>md_mode := md_mode md, md_uid := md_uid md, md_gid := md_gid md, md_user := md_user md, md_group := md_group md,
     md_rdev := md_rdev md, md_atime := md_atime md, md_mtime := md_mtime md, md_ctime := md_ctime md, md_size := or_else (md_size md) (md_size m)\<rparr>"

definition common_saved :: "metadata \<Rightarrow> bool" where
  "common_saved md \<longleftrightarrow> md_mode md \<noteq> None \<and> md_mode md \<noteq> Some 0 \<and> (\<forall>s. md_size md = Some s \<longrightarrow> 0 \<le> s)"

lemma timespec_back: "timespec_to_nsecs (nsecs_to_timespec x) = x"
  by (simp add: timespec_to_nsecs_def nsecs_to_timespec_def)

lemma need_Inr: "need x = Inr y \<longleftrightarrow> x = Some y"
  by (cases x) (auto simp: need_def)

lemma common_loaded:
  assumes "encode_common md = Inr p" "common_saved md"
  shows "load_opt tag_common_v3 p m = Inr (take_common md m) \<and> p \<noteq> None \<and> p \<noteq> Some []"
proof -
  obtain mode where mode: "md_mode md = Some mode" "mode \<noteq> 0" using assms(2) by (cases "md_mode md") (auto simp: common_saved_def)
  let ?sz = "case md_size md of None \<Rightarrow> - 1 | Some s \<Rightarrow> s"
  obtain at mt ct uid user gid grp rdev b where f: "md_atime md = Some at" "md_mtime md = Some mt" "md_ctime md = Some ct"
      "md_uid md = Some uid" "md_user md = Some user" "md_gid md = Some gid" "md_group md = Some grp" "md_rdev md = Some rdev" "p = Some b"
    and b: "pack common_format
             [VInt mode, VInt uid, VBytes user, VInt gid, VBytes grp, VInt rdev,
              VInt (fst (nsecs_to_timespec at)), VInt (snd (nsecs_to_timespec at)), VInt (fst (nsecs_to_timespec mt)), VInt (snd (nsecs_to_timespec mt)),
              VInt (fst (nsecs_to_timespec ct)), VInt (snd (nsecs_to_timespec ct)), VInt ?sz] = Inr b"
    using assms(1) mode by (auto simp: encode_common_def res_simps need_Inr Let_def)
  have n: "b \<noteq> []" using pack_not_Nil [OF b] by (simp add: common_format_def)
  have "load_common 3 b m = Inr (take_common md m)"
    unfolding load_common_def using pack_unpack [OF b] assms(2)
    by (cases "md_size md") (simp_all add: load_times_def timespec_back take_common_def f mode Let_def common_saved_def)
  then show ?thesis using f(9) n by (simp add: load_opt_def load_tags)
qed

lemma symlink_loaded:
  assumes "\<forall>t. md_symlink_target md = Some t \<longrightarrow> t \<noteq> [] \<and> md_size m = Some (int (length t))"
  shows "load_opt tag_symlink_target (md_symlink_target md) m = Inr (m\<lparr>md_symlink_target := or_else (md_symlink_target md) (md_symlink_target m)\<rparr>)"
  using assms by (cases "md_symlink_target md") (auto simp: load_opt_def load_tags load_symlink_target_def Let_def py_assert_def)

lemma hardlink_loaded:
  assumes "md_hardlink_target md \<noteq> Some []"
  shows "load_opt tag_hardlink_target (md_hardlink_target md) m = Inr (m\<lparr>md_hardlink_target := or_else (md_hardlink_target md) (md_hardlink_target m)\<rparr>)"
  using assms by (cases "md_hardlink_target md") (auto simp: load_opt_def load_tags)

definition acl_saved :: "bytes list \<Rightarrow> bool" where
  "acl_saved acl = (case acl of [a, b] \<Rightarrow> True | [a, b, c, d] \<Rightarrow> c \<noteq> [] | _ \<Rightarrow> False)"

lemma acl_saved_cases:
  assumes "acl_saved acl"
  obtains a b where "acl = [a, b]" | a b c d where "acl = [a, b, c, d]" "c \<noteq> []"
  using assms by (auto simp: acl_saved_def split: list.splits)

lemma acl_loaded:
  assumes "encode_posix1e_acl md = Inr p" "\<forall>acl. md_posix1e_acl md = Some acl \<longrightarrow> acl_saved acl"
  shows "load_opt tag_posix1e_acl_v2 p m = Inr (m\<lparr>md_posix1e_acl := or_else (md_posix1e_acl md) (md_posix1e_acl m)\<rparr>)"
proof (cases "md_posix1e_acl md")
  case None
  then show ?thesis using assms(1) by (simp add: encode_posix1e_acl_def load_opt_def)
next
  case (Some acl)
  then have "acl_saved acl" using assms(2) by blast
  then show ?thesis
  proof (cases rule: acl_saved_cases)
    case (1 a b)
    then obtain x where x: "pack ''ssss'' [VBytes a, VBytes b, VBytes [], VBytes []] = Inr x" "p = Some x"
      using assms(1) Some by (auto simp: encode_posix1e_acl_def res_simps)
    then show ?thesis using pack_unpack [OF x(1)] pack_not_Nil [OF x(1)] Some 1 by (simp add: load_opt_def load_tags load_posix1e_acl_def)
  next
    case (2 a b c d)
    then obtain x where x: "pack ''ssss'' [VBytes a, VBytes b, VBytes c, VBytes d] = Inr x" "p = Some x"
      using assms(1) Some by (auto simp: encode_posix1e_acl_def res_simps)
    then show ?thesis using pack_unpack [OF x(1)] pack_not_Nil [OF x(1)] Some 2 by (simp add: load_opt_def load_tags load_posix1e_acl_def)
  qed
qed

lemma attr_loaded:
  assumes "encode_linux_attr md = Inr p" "md_linux_attr md \<noteq> Some 0"
  shows "load_opt tag_linux_attr p m = Inr (m\<lparr>md_linux_attr := or_else (md_linux_attr md) (md_linux_attr m)\<rparr>)"
proof (cases "md_linux_attr md")
  case None
  then show ?thesis using assms(1) by (simp add: encode_linux_attr_def load_opt_def)
next
  case (Some a)
  then obtain b where b: "pack ''V'' [VInt a] = Inr b" "p = Some b" using assms by (auto simp: encode_linux_attr_def res_simps split: if_splits)
  then show ?thesis using pack_unpack [OF b(1)] pack_not_Nil [OF b(1)] Some by (simp add: load_opt_def load_tags load_linux_attr_def)
qed

lemma xattrs_read:
  assumes "res_map (\<lambda>(name, value). pack ''ss'' [VBytes name, VBytes value]) xs = Inr ps"
  shows "read_xattrs (length xs) (concat ps) = Inr xs"
  using assms
proof (induction xs arbitrary: ps)
  case (Cons x xs)
  obtain k v where x: "x = (k, v)" by (cases x)
  obtain b bs where b: "pack ''ss'' [VBytes k, VBytes v] = Inr b" "res_map (\<lambda>(name, value). pack ''ss'' [VBytes name, VBytes value]) xs = Inr bs" "ps = b # bs"
    using Cons.prems by (auto simp: x res_simps)
  have "recv ''ss'' (b @ concat bs) = Inr ([VBytes k, VBytes v], concat bs)" using pack_recv [OF b(1)] .
  then obtain s where "read_bvec (b @ concat bs) = Inr (Some k, s)" "read_bvec s = Inr (Some v, concat bs)"
    by (auto simp: read_item_def res_simps split: option.splits)
  then show ?case using Cons.IH [OF b(2)] by (simp add: x b(3))
qed simp

lemma xattr_loaded:
  assumes "encode_linux_xattr md = Inr p" "md_linux_xattr md \<noteq> Some []"
  shows "load_opt tag_linux_xattr p m = Inr (m\<lparr>md_linux_xattr := or_else (md_linux_xattr md) (md_linux_xattr m)\<rparr>)"
proof (cases "md_linux_xattr md")
  case None
  then show ?thesis using assms(1) by (simp add: encode_linux_xattr_def load_opt_def)
next
  case (Some xs)
  then obtain n ps where n: "pack ''V'' [VInt (int (length xs))] = Inr n" "p = Some (n @ concat ps)"
      "res_map (\<lambda>(name, value). pack ''ss'' [VBytes name, VBytes value]) xs = Inr ps"
    using assms by (auto simp: encode_linux_xattr_def res_simps split: if_splits)
  have "read_vuint (n @ concat ps) = Inr (Some (int (length xs)), concat ps)"
    using pack_recv [OF n(1), of "concat ps"] by (auto simp: read_item_def res_simps split: option.splits)
  moreover have "n \<noteq> []" using pack_not_Nil [OF n(1)] by simp
  ultimately show ?thesis using xattrs_read [OF n(3)] n(2) Some by (simp add: load_opt_def load_tags load_linux_xattr_def)
qed

section \<open>An instance\<close>

text \<open>An empty field is not written; an ACL whose default part is empty is written as one without it.\<close>

definition drop_empty :: "'a list option \<Rightarrow> 'a list option" where "drop_empty x = (if x = Some [] then None else x)"

definition normal_acl :: "bytes list option \<Rightarrow> bytes list option" where
  "normal_acl acl =
     (case acl of
        Some [a, b] \<Rightarrow> Some [a, b]
      | Some (a # b # c # d # _) \<Rightarrow> Some (if c = [] then [a, b] else [a, b, c, d])
      | _ \<Rightarrow> None)"

definition md_normal :: "metadata \<Rightarrow> metadata" where
  "md_normal md = md\<lparr>md_path := drop_empty (md_path md), md_symlink_target := drop_empty (md_symlink_target md),
     md_hardlink_target := drop_empty (md_hardlink_target md), md_linux_attr := (if md_linux_attr md = Some 0 then None else md_linux_attr md),
     md_linux_xattr := drop_empty (md_linux_xattr md), md_posix1e_acl := normal_acl (md_posix1e_acl md)\<rparr>"

text \<open>What was saved of a file: it has a mode, and the size of a link is that of its target.\<close>

definition md_saved :: "metadata \<Rightarrow> bool" where
  "md_saved md \<longleftrightarrow> common_saved md \<and>
     (case md_symlink_target md of None \<Rightarrow> True | Some t \<Rightarrow> t = [] \<or> md_size md = Some (int (length t)))"

lemma md_normal_simps [simp]:
  "md_mode (md_normal md) = md_mode md" "md_uid (md_normal md) = md_uid md" "md_gid (md_normal md) = md_gid md"
  "md_user (md_normal md) = md_user md" "md_group (md_normal md) = md_group md" "md_rdev (md_normal md) = md_rdev md"
  "md_atime (md_normal md) = md_atime md" "md_mtime (md_normal md) = md_mtime md" "md_ctime (md_normal md) = md_ctime md"
  "md_size (md_normal md) = md_size md" "md_path (md_normal md) = drop_empty (md_path md)"
  "md_symlink_target (md_normal md) = drop_empty (md_symlink_target md)" "md_hardlink_target (md_normal md) = drop_empty (md_hardlink_target md)"
  "md_linux_attr (md_normal md) = (if md_linux_attr md = Some 0 then None else md_linux_attr md)"
  "md_linux_xattr (md_normal md) = drop_empty (md_linux_xattr md)" "md_posix1e_acl (md_normal md) = normal_acl (md_posix1e_acl md)"
  by (simp_all add: md_normal_def)

lemma drop_empty_not [simp]: "drop_empty x \<noteq> Some []"
  by (simp add: drop_empty_def)

lemma acl_normal_loaded:
  assumes "encode_posix1e_acl md = Inr p"
  shows "load_opt tag_posix1e_acl_v2 p m = Inr (m\<lparr>md_posix1e_acl := or_else (normal_acl (md_posix1e_acl md)) (md_posix1e_acl m)\<rparr>)"
proof (cases "md_posix1e_acl md = None \<or> md_posix1e_acl md = Some []")
  case True
  then show ?thesis using assms by (auto simp: encode_posix1e_acl_def load_opt_def normal_acl_def)
next
  case False
  then obtain acl where acl: "md_posix1e_acl md = Some acl" "acl \<noteq> []" by (cases "md_posix1e_acl md") auto
  consider a b where "acl = [a, b]" | a b c d r where "acl = a # b # c # d # r"
    using assms acl by (auto simp: encode_posix1e_acl_def split: list.splits)
  then obtain a b c d where x: "pack ''ssss'' [VBytes a, VBytes b, VBytes c, VBytes d] = Inr (the p)" "p \<noteq> None"
      "normal_acl (Some acl) = Some (if c = [] then [a, b] else [a, b, c, d])"
  proof cases
    case (1 a b)
    then show ?thesis using assms acl(1) that [of a b "[]" "[]"] by (auto simp: encode_posix1e_acl_def res_simps normal_acl_def)
  next
    case (2 a b c d r)
    then show ?thesis using assms acl(1) that [of a b c d] by (auto simp: encode_posix1e_acl_def res_simps normal_acl_def)
  qed
  then obtain y where "p = Some y" by blast
  then show ?thesis
    using pack_unpack [OF x(1)] pack_not_Nil [OF x(1)] x(3) acl(1) by (simp add: load_opt_def load_tags load_posix1e_acl_def Let_def)
qed

lemma load_opt_drop: "load_opt tag (drop_empty x) m = load_opt tag x m"
  by (auto simp: load_opt_def drop_empty_def split: option.splits)

lemma records_loaded:
  assumes "md_saved md" "md_records include_path md = Inr rs"
  shows "load_all rs empty_metadata = Inr (if include_path then md_normal md else (md_normal md)\<lparr>md_path := None\<rparr>)"
    and "fst ` set rs \<subseteq> set known_tags" and "\<not> (\<forall>(t, d)\<in>set rs. d = None \<or> d = Some [])"
proof -
  let ?n = "md_normal md"
  obtain r1 common acl attr xattr where e: "(if include_path then res_bind (encode_path md) (\<lambda>p. Inr [(tag_path, p)]) else Inr []) = Inr r1"
      "encode_common md = Inr common" "encode_posix1e_acl md = Inr acl" "encode_linux_attr md = Inr attr" "encode_linux_xattr md = Inr xattr"
      "rs = r1 @ [(tag_common_v3, common), (tag_symlink_target, md_symlink_target md), (tag_hardlink_target, md_hardlink_target md),
       (tag_posix1e_acl_v2, acl), (tag_linux_attr, attr), (tag_linux_xattr, xattr)]"
    using assms(2) by (auto simp: md_records_def res_simps)
  have cs: "common_saved md" using assms(1) by (simp add: md_saved_def)
  have en: "encode_linux_attr ?n = Inr attr" "encode_linux_xattr ?n = Inr xattr"
    using e(4,5) by (auto simp: encode_linux_attr_def encode_linux_xattr_def drop_empty_def split: option.splits)
  define m1 where "m1 = empty_metadata\<lparr>md_path := (if include_path then md_path ?n else None)\<rparr>"
  have r1: "load_all (r1 @ r) empty_metadata = load_all r m1" "fst ` set r1 \<subseteq> set known_tags" for r
  proof -
    have "load_all (r1 @ r) empty_metadata = load_all r m1 \<and> fst ` set r1 \<subseteq> set known_tags"
    proof (cases include_path)
      case True
      then obtain p where p: "encode_path md = Inr p" "r1 = [(tag_path, p)]" using e(1) by (auto simp: res_simps)
      have "encode_path ?n = Inr p" using p(1) by (auto simp: encode_path_def drop_empty_def split: option.splits)
      then have "load_opt tag_path p empty_metadata = Inr m1" using path_loaded [of ?n p empty_metadata] True by (simp add: m1_def empty_metadata_def)
      then show ?thesis using p(2) by (simp add: known_tags_def)
    qed (use e(1) in \<open>simp add: m1_def empty_metadata_def\<close>)
    then show "load_all (r1 @ r) empty_metadata = load_all r m1" "fst ` set r1 \<subseteq> set known_tags" by blast+
  qed
  note c = common_loaded [OF e(2) cs]
  have sl: "\<forall>t. md_symlink_target ?n = Some t \<longrightarrow> t \<noteq> [] \<and> md_size (take_common md m1) = Some (int (length t))"
    using assms(1) by (auto simp: md_saved_def take_common_def drop_empty_def split: if_splits)
  show "fst ` set rs \<subseteq> set known_tags" using r1(2) by (auto simp: e(6) known_tags_def)
  show "\<not> (\<forall>(t, d)\<in>set rs. d = None \<or> d = Some [])" using c by (auto simp: e(6))
  have fin: "(take_common md m1)\<lparr>md_symlink_target := md_symlink_target ?n, md_hardlink_target := md_hardlink_target ?n,
      md_posix1e_acl := md_posix1e_acl ?n, md_linux_attr := md_linux_attr ?n, md_linux_xattr := md_linux_xattr ?n\<rparr> =
      (if include_path then ?n else ?n\<lparr>md_path := None\<rparr>)"
    by (simp add: take_common_def m1_def empty_metadata_def md_normal_def)
  show "load_all rs empty_metadata = Inr (if include_path then ?n else ?n\<lparr>md_path := None\<rparr>)"
    unfolding e(6) r1(1) fin [symmetric]
    using c symlink_loaded [OF sl] hardlink_loaded [of ?n] acl_normal_loaded [OF e(3)] attr_loaded [OF en(1)] xattr_loaded [OF en(2)]
    by (simp add: load_opt_drop) (simp add: take_common_def m1_def empty_metadata_def)
qed

text \<open>C37: What is saved of a file is read back from the archive, and from between other data: every field as it was,
  except that an empty one is absent, and so is the default ACL if it is empty; without the path if it is not
  included.\<close>

theorem metadata_roundtrip:
  assumes "md_saved md" "md_encode include_path md = Inr b"
  shows "md_read (b @ rest) = Inr (Some (if include_path then md_normal md else (md_normal md)\<lparr>md_path := None\<rparr>), rest)"
proof -
  obtain rs where rs: "md_records include_path md = Inr rs" "encode_records rs = Inr b" using assms(2) by (auto simp: md_encode_def res_simps)
  note l = records_loaded [OF assms(1) rs(1)]
  have "length b \<le> length (b @ rest) + 1" by simp
  from read_encoded [OF rs(2) l(2,1) this, of rest] obtain t s1 where "read_vuint (b @ rest) = Inr (Some t, s1)" "t \<noteq> tag_end"
    "read_records (length (b @ rest) + 1) t empty_metadata s1 = Inr (if include_path then md_normal md else (md_normal md)\<lparr>md_path := None\<rparr>, rest)"
    using l(3) by blast
  then show ?thesis by (simp add: md_read_def)
qed

definition md_w :: metadata where
  "md_w = \<lparr>md_mode = Some 0x41ed, md_uid = Some 0, md_gid = Some 100, md_user = Some ''root'', md_group = Some ''users'', md_rdev = Some 0,
     md_atime = Some (-1), md_mtime = Some 1000000007, md_ctime = Some 0, md_path = Some ''d/'', md_size = None, md_symlink_target = None,
     md_hardlink_target = Some [], md_linux_attr = Some 32, md_linux_xattr = Some [(''user.a'', ''1'')], md_posix1e_acl = Some [''u'', ''v'', [], []]\<rparr>"

text \<open>Packing succeeds where the loop does; records whose data is not huge can be written.\<close>

definition packs_small :: "string \<Rightarrow> vval list \<Rightarrow> bool" where
  "packs_small types args \<longleftrightarrow> length types = length args \<and> length args < 1000 \<and>
     (case limited_vint_pack_loop (length args * 20) False [] (zip types args) of Inl _ \<Rightarrow> False | Inr b \<Rightarrow> length b < 1000)"

lemma packs_small_ok: "packs_small types args \<Longrightarrow> \<exists>b. pack types args = Inr b \<and> length b < 1000"
  by (auto simp: packs_small_def pack_def bup_limited_vint_pack_def Let_def split: sum.splits)

lemma records_written:
  assumes "fst ` set rs \<subseteq> set known_tags" "\<forall>(t, d)\<in>set rs. case d of None \<Rightarrow> True | Some d \<Rightarrow> length d < 2 ^ 56"
  shows "\<exists>b. encode_records rs = Inr b"
  using assms
proof (induction rs)
  case Nil
  then show ?case using tag_byte [of tag_end] by auto
next
  case (Cons x rs)
  obtain t d where x: "x = (t, d)" by (cases x)
  obtain r where r: "encode_records rs = Inr r" using Cons by auto
  have "t \<in> set (tag_end # known_tags)" using Cons.prems(1) by (simp add: x)
  from tag_byte [OF this] obtain c where c: "encode_vuint t = Inr [c]" by blast
  have "\<exists>b. encode_bvec d' = Inr b" if "length d' < 2 ^ 56" for d'
  proof -
    have "\<not> 2 ^ 63 - 1 < int (length d')" using that by simp
    then show ?thesis using that vuint_encode_loop_length [of "int (length d')" 7]
      by (simp add: encode_bvec_def bup_vuint_encode_def vuint_encode_def in_buffer_def c_vint_buflen_def fits_longlong_def)
  qed
  note bvec = this
  show ?case
  proof (cases d)
    case (Some a)
    then obtain b where "encode_bvec a = Inr b" using bvec [of a] Cons.prems(2) by (auto simp: x)
    then show ?thesis using r c by (simp add: x Some)
  qed (use r in \<open>simp add: x\<close>)
qed

theorem metadata_roundtrip_witness:
  "\<exists>b. md_read (b @ ''more'') = Inr (Some (md_w\<lparr>md_hardlink_target := None, md_posix1e_acl := Some [''u'', ''v'']\<rparr>), ''more'')"
proof -
  have s: "md_saved md_w" by (simp add: md_saved_def common_saved_def md_w_def)
  have n: "md_normal md_w = md_w\<lparr>md_hardlink_target := None, md_posix1e_acl := Some [''u'', ''v'']\<rparr>"
    by (simp add: md_normal_def md_w_def drop_empty_def normal_acl_def)
  have "packs_small common_format [VInt 0x41ed, VInt 0, VBytes ''root'', VInt 100, VBytes ''users'', VInt 0, VInt (-1), VInt 999999999, VInt 1, VInt 7, VInt 0, VInt 0, VInt (-1)]"
    by code_simp
  then obtain c where c: "encode_common md_w = Inr (Some c)" "length c < 1000"
    using packs_small_ok by (fastforce simp: encode_common_def md_w_def need_def nsecs_to_timespec_def)
  have "packs_small ''s'' [VBytes ''d/'']" by code_simp
  then obtain p where p: "encode_path md_w = Inr (Some p)" "length p < 1000" using packs_small_ok by (fastforce simp: encode_path_def md_w_def)
  have "packs_small ''ssss'' [VBytes ''u'', VBytes ''v'', VBytes [], VBytes []]" by code_simp
  then obtain a where a: "encode_posix1e_acl md_w = Inr (Some a)" "length a < 1000" using packs_small_ok by (fastforce simp: encode_posix1e_acl_def md_w_def)
  have "packs_small ''V'' [VInt 32]" by code_simp
  then obtain l where l: "encode_linux_attr md_w = Inr (Some l)" "length l < 1000" using packs_small_ok by (fastforce simp: encode_linux_attr_def md_w_def)
  have x1: "packs_small ''V'' [VInt 1]" and x2: "packs_small ''ss'' [VBytes ''user.a'', VBytes ''1'']" by code_simp+
  obtain x where x: "encode_linux_xattr md_w = Inr (Some x)" "length x < 2000"
    using packs_small_ok [OF x1] packs_small_ok [OF x2] by (fastforce simp: encode_linux_xattr_def md_w_def)
  have o: "md_symlink_target md_w = None" "md_hardlink_target md_w = Some []" by (simp_all add: md_w_def)
  obtain rs where rs: "md_records True md_w = Inr rs" "rs = [(tag_path, Some p), (tag_common_v3, Some c), (tag_symlink_target, None), (tag_hardlink_target, Some []),
      (tag_posix1e_acl_v2, Some a), (tag_linux_attr, Some l), (tag_linux_xattr, Some x)]"
    using p(1) c(1) a(1) l(1) x(1) o by (simp add: md_records_def)
  have "fst ` set rs \<subseteq> set known_tags" by (simp add: rs(2) known_tags_def)
  moreover have "\<forall>(t, d)\<in>set rs. case d of None \<Rightarrow> True | Some d \<Rightarrow> length d < 2 ^ 56" using p(2) c(2) a(2) l(2) x(2) by (simp add: rs(2))
  ultimately obtain b where "encode_records rs = Inr b" using records_written [of rs] by blast
  then have "md_encode True md_w = Inr b" using rs(1) by (simp add: md_encode_def)
  from metadata_roundtrip [OF s this, of "''more''"] show ?thesis by (auto simp: n)
qed

section \<open>Metadata on the wire\<close>

text \<open>Metadata that the protocol can carry: what the encoder takes, in the form in which it is read.\<close>

typedef wire_meta = "{md. md = empty_metadata \<or> md_saved md \<and> md_path md = None \<and> md_normal md = md \<and> \<not> isl (md_encode False md)}"
  by blast

definition wire_write :: "wire_meta \<Rightarrow> bytes" where
  "wire_write m = (case md_encode False (Rep_wire_meta m) of Inr b \<Rightarrow> b | Inl _ \<Rightarrow> [])"

definition wire_read :: "bytes \<Rightarrow> (wire_meta option \<times> bytes) res" where
  "wire_read s = res_bind (md_read s) (\<lambda>(m, r). Inr (map_option Abs_wire_meta m, r))"

lemma empty_written: "md_encode include_path empty_metadata = Inr [CHR 0x00] \<and> md_read (CHR 0x00 # rest) = Inr (Some empty_metadata, rest)"
proof -
  have e: "md_encode True empty_metadata = Inr [CHR 0x00]" "md_encode False empty_metadata = Inr [CHR 0x00]" "encode_vuint 0 = Inr [CHR 0x00]"
    by code_simp+
  then show ?thesis using read_vuint_encode_vuint [OF e(3), of rest] by (cases include_path) (simp_all add: md_read_def tag_end_def)
qed

lemma wire_codec: "meta_codec wire_write wire_read"
  unfolding meta_codec_def
proof (intro allI)
  fix m rest
  let ?md = "Rep_wire_meta m"
  have "?md = empty_metadata \<or> md_saved ?md \<and> md_path ?md = None \<and> md_normal ?md = ?md \<and> \<not> isl (md_encode False ?md)"
    using Rep_wire_meta [of m] by simp
  then have "md_read (wire_write m @ rest) = Inr (Some ?md, rest)"
  proof
    assume "?md = empty_metadata"
    then show ?thesis using empty_written by (simp add: wire_write_def)
  next
    assume a: "md_saved ?md \<and> md_path ?md = None \<and> md_normal ?md = ?md \<and> \<not> isl (md_encode False ?md)"
    then obtain b where b: "md_encode False ?md = Inr b" by (cases "md_encode False ?md") simp_all
    have "?md\<lparr>md_path := None\<rparr> = ?md" using a by (cases ?md) simp
    moreover obtain rs where rs: "md_records False ?md = Inr rs" "encode_records rs = Inr b" using b by (auto simp: md_encode_def res_simps)
    note l = records_loaded [OF conjunct1 [OF a] rs(1)]
    have "length b \<le> length (b @ rest) + 1" by simp
    from read_encoded [OF rs(2) l(2,1) this, of rest] l(3)
    have "md_read (b @ rest) = Inr (Some ((md_normal ?md)\<lparr>md_path := None\<rparr>), rest)" by (auto simp: md_read_def)
    ultimately show ?thesis using a b by (simp add: wire_write_def)
  qed
  then show "wire_read (wire_write m @ rest) = Inr (Some m, rest)" by (simp add: wire_read_def Rep_wire_meta_inverse)
qed

text \<open>What the protocol needs of the encoding of metadata, and what follows for items, resolutions and errors.\<close>

locale wire_metadata =
  fixes write_meta :: "'m \<Rightarrow> bytes" and read_meta :: "bytes \<Rightarrow> ('m option \<times> bytes) res"
  assumes codec: "meta_codec write_meta read_meta"
begin

lemma item_back: "write_vfs_item write_meta port item = Inr p \<Longrightarrow> \<exists>t. p = port @ t \<and> (\<forall>rest. read_vfs_item read_meta (t @ rest) = Inr (item, rest))"
  by (rule vfs_item_roundtrip [OF codec])

lemma resolution_back: "write_resolution write_meta port r = Inr p \<Longrightarrow> \<exists>t. p = port @ t \<and> (\<forall>rest. read_resolution read_meta (t @ rest) = Inr (r, rest))"
  by (rule resolution_read [OF codec])

lemma resolution_same:
  assumes "write_resolution write_meta [] r = Inr t" "write_resolution write_meta [] r' = Inr t"
  shows "r = r'"
  using resolution_back [OF assms(1)] resolution_back [OF assms(2)] by fastforce

end

interpretation file_meta: wire_metadata wire_write wire_read
  by unfold_locales (rule wire_codec)

text \<open>Two different resolutions are never written as the same bytes, with the metadata that is saved of files.\<close>

theorem resolution_bytes_injective:
  assumes "write_resolution wire_write [] r = Inr t" "write_resolution wire_write [] r' = Inr t"
  shows "r = r' \<and> read_resolution wire_read (t @ rest) = Inr (r, rest)"
  using file_meta.resolution_same [OF assms] file_meta.resolution_back [OF assms(1)] by auto

theorem resolution_bytes_injective_witness:
  "\<exists>t. write_resolution wire_write [] [(''a'', Some (Root (Meta (Abs_wire_meta empty_metadata))))] = Inr t \<and>
    read_resolution wire_read (t @ ''x'') = Inr ([(''a'', Some (Root (Meta (Abs_wire_meta empty_metadata))))], ''x'')"
proof -
  obtain t where t: "write_resolution wire_write [] [(''a'', Some (Root (Meta (Abs_wire_meta empty_metadata))))] = Inr t"
    by (simp add: write_resolution_def write_vuint_def encode_vuint_cases write_bvec_def write_vfs_item_def send_all_def send_def write_item_def)
  from resolution_bytes_injective [OF t t, of "''x''"] t show ?thesis by blast
qed

section \<open>Extracting\<close>

definition action_below :: "fs_action \<Rightarrow> bool" where
  "action_below a = (case a of Mkdirp p \<Rightarrow> stays_below p | Create p m \<Rightarrow> stays_below p | ApplyTo p m \<Rightarrow> stays_below p | NoteRisky p \<Rightarrow> True)"

lemma action_below_simps:
  "action_below (Mkdirp p) = stays_below p" "action_below (Create p m) = stays_below p" "action_below (ApplyTo p m) = stays_below p"
  "action_below (NoteRisky p)"
  by (simp_all add: action_below_def)

lemma extract_path_not_risky: "clean_up_extract_path p = Some x \<Longrightarrow> \<not> risky_path x"
proof -
  have "\<not> risky_path ''.''" by code_simp
  then show "clean_up_extract_path p = Some x \<Longrightarrow> \<not> risky_path x" by (auto simp: clean_up_extract_path_def Let_def split: if_splits)
qed

lemma rstrip_slashes: "\<exists>k. h = rstrip_chars [slash] h @ replicate k slash"
proof (induction h rule: rev_induct)
  case Nil
  show ?case by (simp add: rstrip_chars_def)
next
  case (snoc c h)
  show ?case
  proof (cases "c = slash")
    case True
    obtain k where "h = rstrip_chars [slash] h @ replicate k slash" using snoc.IH by blast
    then have "h @ [slash] = rstrip_chars [slash] h @ replicate k slash @ [slash]" by (metis append.assoc)
    also have "replicate k slash @ [slash] = replicate (Suc k) slash" by (simp add: replicate_append_same)
    also have "rstrip_chars [slash] h = rstrip_chars [slash] (h @ [c])" by (simp add: rstrip_chars_def True)
    finally show ?thesis unfolding True by blast
  qed (intro exI [of _ 0], simp add: rstrip_chars_def)
qed

lemma path_head_last: "path_head p \<noteq> [] \<Longrightarrow> \<exists>g. path_head p = g @ [slash]"
proof -
  assume "path_head p \<noteq> []"
  then obtain c g where g: "dropWhile (\<lambda>c. c \<noteq> slash) (rev p) = c # g" by (cases "dropWhile (\<lambda>c. c \<noteq> slash) (rev p)") (auto simp: path_head_def)
  then have "c = slash" by (simp add: dropWhile_eq_Cons_conv)
  then show ?thesis by (simp add: path_head_def g)
qed

lemma dirname_split: "dirname p = [] \<or> prefix ''/'' (dirname p) \<or> (\<exists>y. p = dirname p @ ''/'' @ y)"
proof -
  define h where "h = path_head p"
  have p: "p = h @ basename p" by (simp add: h_def path_head_basename)
  show ?thesis
  proof (cases "h \<noteq> [] \<and> h \<noteq> replicate (length h) slash")
    case False
    then have d: "dirname p = h" unfolding dirname_def h_def Let_def by (rule if_not_P)
    consider "h = []" | "h = replicate (length h) slash" "h \<noteq> []" using False by blast
    then show ?thesis
    proof cases
      case 2
      then have "hd h = slash" by (metis hd_replicate length_0_conv)
      then show ?thesis using 2(2) d by (cases h) auto
    qed (simp add: d)
  next
    case True
    then have d: "dirname p = rstrip_chars [slash] h" unfolding dirname_def h_def Let_def by (rule if_P)
    obtain g where g: "h = g @ [slash]" using path_head_last [of p] True by (auto simp: h_def)
    obtain k where k: "g = rstrip_chars [slash] g @ replicate k slash" using rstrip_slashes by blast
    have r: "rstrip_chars [slash] h = rstrip_chars [slash] g" by (simp add: g rstrip_chars_def)
    have "h = rstrip_chars [slash] g @ replicate k slash @ [slash]" using k g by (metis append.assoc)
    also have "replicate k slash @ [slash] = ''/'' @ replicate k slash" by (simp add: replicate_append_same)
    finally have "h = dirname p @ ''/'' @ replicate k slash" unfolding d r .
    then show ?thesis using p by (metis append.assoc)
  qed
qed
lemma dirname_below:
  assumes "\<not> risky_path p"
  shows "stays_below (dirname p)"
proof -
  have up: "\<not> prefix ''/'' p" "\<not> sublist ''/../'' p" "\<not> prefix ''../'' p" using assms find_sub_None [of "''/../''" p] by (simp_all add: risky_path_def)
  have pd: "prefix (dirname p) p \<or> dirname p = [] \<or> prefix ''/'' (dirname p)" using dirname_split [of p] by (auto simp: prefix_def)
  have "prefix (path_head p) p" using path_head_basename [of p] by (metis prefixI)
  moreover have "prefix (dirname p) (path_head p)"
    using rstrip_slashes [of "path_head p"] by (auto simp: dirname_def Let_def prefix_def)
  ultimately have pre: "prefix (dirname p) p" using prefix_order.trans by blast
  then have n: "\<not> prefix ''/'' (dirname p)" using up(1) prefix_order.trans by blast
  consider "dirname p = []" | y where "p = dirname p @ ''/'' @ y" using dirname_split [of p] n by blast
  then show ?thesis
  proof cases
    case 1
    then show ?thesis by (simp add: stays_below_def)
  next
    case (2 y)
    have "\<not> sublist ''/../'' (dirname p)" using up(2) pre prefix_imp_sublist sublist_order.order.trans by blast
    moreover have "\<not> prefix ''../'' (dirname p)" using up(3) pre prefix_order.trans by blast
    moreover have "\<not> suffix ''/..'' (dirname p)"
    proof
      assume "suffix ''/..'' (dirname p)"
      then obtain z where "dirname p = z @ ''/..''" by (auto simp: suffix_def)
      then have "p = z @ ''/../'' @ y" using 2 by simp
      then show False using up(2) unfolding sublist_def by blast
    qed
    ultimately have "\<not> risky_path (dirname p)" using n find_sub_None [of "''/../''" "dirname p"] by (simp add: risky_path_def)
    then show ?thesis by (rule not_risky_below)
  qed
qed

lemma set_up_below:
  assumes "\<not> risky_path p" "set_up_path md p = Inr acts"
  shows "list_all action_below acts"
  using assms not_risky_below [OF assms(1)] dirname_below [OF assms(1)]
  by (auto simp: set_up_path_def res_simps action_below_simps split: if_splits)

lemma start_extract_below: "start_extract mds = Inr acts \<Longrightarrow> list_all action_below acts"
proof (induction mds arbitrary: acts rule: start_extract.induct)
  case (3 md mds)
  obtain p where p: "archived_path md = Inr p" using "3.prems" by (auto simp: res_simps)
  show ?case
  proof (cases "clean_up_extract_path p")
    case None
    then show ?thesis using 3 p by (auto simp: res_simps action_below_simps)
  next
    case (Some x)
    then show ?thesis using 3 p set_up_below [OF extract_path_not_risky [OF Some]] by (auto simp: res_simps)
  qed
qed simp_all

lemma extract_pass_below:
  "extract_pass isdir mds = Inr (acts, ds) \<Longrightarrow> list_all action_below acts \<and> (\<forall>x\<in>set ds. stays_below (fst x))"
proof (induction isdir mds arbitrary: acts ds rule: extract_pass.induct)
  case (3 isdir md mds)
  obtain p where p: "archived_path md = Inr p" using "3.prems" by (auto simp: res_simps)
  show ?case
  proof (cases "clean_up_extract_path p")
    case None
    then show ?thesis using 3 p by (auto simp: res_simps action_below_simps)
  next
    case (Some x)
    let ?md = "md\<lparr>md_path := Some x\<rparr>"
    obtain a acts' ds' where a: "set_up_path ?md x = Inr a" "extract_pass isdir mds = Inr (acts', ds')"
      using "3.prems" p Some by (auto simp: res_simps Let_def)
    note IH = "3.IH"(2) [OF p Some refl a(1) a(2)]
    show ?thesis
      using "3.prems" p Some a IH set_up_below [OF extract_path_not_risky [OF Some] a(1)] not_risky_below [OF extract_path_not_risky [OF Some]]
      by (auto simp: Let_def action_below_simps split: if_splits)
  qed
qed simp_all

lemma finish_pass_below: "finish_pass isdir mds = Inr (acts, ds) \<Longrightarrow> list_all action_below acts"
proof (induction isdir mds arbitrary: acts ds rule: finish_pass.induct)
  case (3 isdir md mds)
  obtain p where p: "archived_path md = Inr p" using "3.prems" by (auto simp: res_simps)
  obtain acts' ds' where a: "finish_pass isdir mds = Inr (acts', ds')" using "3.prems" p by (auto simp: res_simps)
  then have IH: "list_all action_below acts'" using 3 p by blast
  show ?case
  proof (cases "clean_up_extract_path p")
    case None
    then show ?thesis using "3.prems" p a IH by (auto simp: action_below_simps)
  next
    case (Some x)
    then show ?thesis using "3.prems" p a IH not_risky_below [OF extract_path_not_risky [OF Some]] by (auto simp: action_below_simps split: if_splits)
  qed
qed simp_all

lemma set_longest_first [simp]: "set (longest_first ds) = set ds"
  by (simp add: longest_first_def)

lemma apply_dirs_below:
  assumes "res_map (\<lambda>(p, md). case clean_up_extract_path p of None \<Rightarrow> Inl TypeError | Some xpath \<Rightarrow> Inr (ApplyTo xpath md)) ds = Inr acts"
  shows "list_all action_below acts"
  using assms
proof (induction ds arbitrary: acts)
  case (Cons d ds)
  obtain p md where d: "d = (p, md)" by (cases d)
  then show ?case using Cons not_risky_below extract_path_not_risky by (auto simp: res_simps action_below_simps split: option.splits)
qed simp

text \<open>C38: Whatever an archive holds, extracting it in one pass or in two creates, makes and changes only paths that
  are relative and do not go up, but for \<open>..\<close> itself.\<close>

theorem extraction_stays_below:
  "case_sum (\<lambda>_. True) (list_all action_below) (start_extract mds) \<and>
   case_sum (\<lambda>_. True) (list_all action_below) (finish_extract isdir mds) \<and>
   case_sum (\<lambda>_. True) (list_all action_below) (extract_archive isdir mds)"
proof (intro conjI)
  show "case_sum (\<lambda>_. True) (list_all action_below) (start_extract mds)"
    using start_extract_below [of mds] by (cases "start_extract mds") auto
  show "case_sum (\<lambda>_. True) (list_all action_below) (finish_extract isdir mds)"
    using finish_pass_below [of isdir mds] apply_dirs_below by (auto simp: finish_extract_def res_simps split: sum.split)
  show "case_sum (\<lambda>_. True) (list_all action_below) (extract_archive isdir mds)"
    using extract_pass_below [of isdir mds] by (fastforce simp: extract_archive_def res_simps action_below_simps list_all_iff split: sum.split)
qed

section \<open>Comparing and listing\<close>

text \<open>Two instances that differ only in their extended attributes are equal to \<open>==\<close>, though they are not the
  same file.\<close>

theorem equal_despite_xattrs:
  "md_eq md (md\<lparr>md_linux_xattr := xs\<rparr>) \<and> (same_file md (md\<lparr>md_linux_xattr := xs\<rparr>) \<longleftrightarrow> md_linux_xattr md = xs)"
  by (simp add: md_eq_def same_file_def same_common_def)

text \<open>A directory with an ACL and no default ACL, as it is read from an archive, cannot be listed in detail.\<close>

theorem directory_acl_not_listed:
  assumes "md_mode md = Some mode" "S_ISDIR mode" "md_posix1e_acl md = Some [a, b]"
  shows "detailed_bytes (Some md) (\<lambda>f. f = ''posix1e-acl'') = Inl IndexError"
  using assms by (simp add: detailed_bytes_def only_if_def acl_lines_def need_def)

theorem directory_acl_not_listed_witness:
  "detailed_bytes (Some (md_w\<lparr>md_posix1e_acl := Some [''u'', ''v'']\<rparr>)) (\<lambda>f. f = ''posix1e-acl'') = Inl IndexError"
proof -
  have "S_ISDIR 0x41ed" by code_simp
  then show ?thesis using directory_acl_not_listed [where mode = "0x41ed" and a = "''u''" and b = "''v''" and md = "md_w\<lparr>md_posix1e_acl := Some [''u'', ''v'']\<rparr>"] by (simp add: md_w_def)
qed

end
