(* ===== verification/Vfs_File.thy ===== *)
theory Vfs_File
  imports Git_Commit Hash_Split Streams
begin

text \<open>
  Reading files through the virtual file system: the chunk trees, \<open>_ChunkReader\<close> and
  \<open>_FileReader\<close> of \<open>lib/bup/vfs.py\<close>.  The repository is the function \<open>repo.cat\<close>: from a ref to
  the id, type, size and the pieces of the data, or nothing.  A store could hold a tree that
  contains itself, so what walks trees takes fuel and answers \<open>None\<close> when it runs out; the theorems say
  that the depth of the file is enough.
\<close>

section \<open>Objects\<close>

type_synonym cat_fn = "bytes \<Rightarrow> (bytes \<times> bytes \<times> int \<times> bytes list) option res"

text \<open>An answer with an empty id counts as none.\<close>

definition get_ref :: "cat_fn \<Rightarrow> bytes \<Rightarrow> (bytes \<times> bytes \<times> int \<times> bytes list) option res" where
  "get_ref cat ref =
     res_bind (cat ref) (\<lambda>r. Inr (case r of None \<Rightarrow> None
       | Some (oidx, x) \<Rightarrow> if oidx = [] then None else Some (oidx, x)))"

definition get_oidx :: "cat_fn \<Rightarrow> bytes \<Rightarrow> bool \<Rightarrow> (bytes \<times> bytes \<times> int \<times> bytes list) option res" where
  "get_oidx cat oidx throw_missing =
     res_bind (py_assert (length oidx = 40)) (\<lambda>_.
     res_bind (get_ref cat oidx) (\<lambda>r.
     if r = None \<and> throw_missing then res_bind (unhexlify oidx) (\<lambda>_. Inl (Exc ''MissingObject'')) else Inr r))"

text \<open>The type and the joined data, as most callers take them.\<close>

definition object_at :: "cat_fn \<Rightarrow> bytes \<Rightarrow> (bytes \<times> bytes) res" where
  "object_at cat oidx =
     res_bind (get_oidx cat oidx True) (\<lambda>r.
     case r of None \<Rightarrow> Inl (Exc ''MissingObject'') | Some (_, obj_t, _, it) \<Rightarrow> Inr (obj_t, concat it))"

text \<open>Results that may also run out of fuel.\<close>

definition fuel_bind :: "'a res option \<Rightarrow> ('a \<Rightarrow> 'b res option) \<Rightarrow> 'b res option" where
  "fuel_bind m f = (case m of None \<Rightarrow> None | Some (Inl e) \<Rightarrow> Some (Inl e) | Some (Inr x) \<Rightarrow> f x)"

lemma fuel_bind_simps [simp]:
  "fuel_bind None f = None" "fuel_bind (Some (Inl e)) f = Some (Inl e)" "fuel_bind (Some (Inr x)) f = f x"
  by (simp_all add: fuel_bind_def)

section \<open>Sizes\<close>

fun file_size_loop :: "cat_fn \<Rightarrow> nat \<Rightarrow> int \<Rightarrow> bytes \<times> bytes \<Rightarrow> int res option" where
  "file_size_loop cat 0 ofs (obj_t, data) = None"
| "file_size_loop cat (Suc fuel) ofs (obj_t, data) =
     (if obj_t = ''tree'' then
        fuel_bind (Some (last_tree_entry data)) (\<lambda>(mode, name, last_oid).
        fuel_bind (Some (py_int 16 name)) (\<lambda>n.
        fuel_bind (Some (object_at cat (hexlify last_oid))) (file_size_loop cat fuel (ofs + n))))
      else Some (Inr (ofs + int (length data))))"

definition normal_or_chunked_file_size :: "cat_fn \<Rightarrow> nat \<Rightarrow> oid \<Rightarrow> int res option" where
  "normal_or_chunked_file_size cat fuel oid =
     fuel_bind (Some (object_at cat (hexlify oid))) (file_size_loop cat fuel 0)"

section \<open>Chunks\<close>

text \<open>\<open>entries[i - 1:]\<close> is the last entry when the first one already lies past the offset.\<close>

fun skip_loop :: "tree_ent list \<Rightarrow> int \<Rightarrow> nat \<Rightarrow> tree_ent list \<Rightarrow> tree_ent list res" where
  "skip_loop entries offset i [] = Inr (py_slice entries (-1) (int (length entries)))"
| "skip_loop entries offset i (entry # rest) =
     res_bind (py_int 16 (fst (snd entry))) (\<lambda>ent_ofs.
     if offset < ent_ofs then Inr (py_slice entries (int i - 1) (int (length entries)))
     else if ent_ofs = offset then Inr (drop i entries)
     else skip_loop entries offset (Suc i) rest)"

definition skip_chunks_before_offset :: "bytes \<Rightarrow> int \<Rightarrow> tree_ent list res" where
  "skip_chunks_before_offset tree_data offset =
     res_bind (tree_entries tree_data) (\<lambda>entries. skip_loop entries offset 0 entries)"

text \<open>
  A generator's run: what it yields and how it ends, \<open>None\<close> when the fuel runs out.
\<close>

type_synonym 'a gen = "'a list \<times> unit res option"

definition gen_then :: "'a gen \<Rightarrow> 'a gen \<Rightarrow> 'a gen" where
  "gen_then g h = (if snd g = Some (Inr ()) then (fst g @ fst h, snd h) else g)"

definition gen_of :: "'b res \<Rightarrow> ('b \<Rightarrow> 'a gen) \<Rightarrow> 'a gen" where
  "gen_of r f = (case r of Inl e \<Rightarrow> ([], Some (Inl e)) | Inr x \<Rightarrow> f x)"

fun gen_each :: "('b \<Rightarrow> 'a gen) \<Rightarrow> 'b list \<Rightarrow> 'a gen" where
  "gen_each f [] = ([], Some (Inr ()))"
| "gen_each f (x # xs) = gen_then (f x) (gen_each f xs)"

fun tree_chunks :: "cat_fn \<Rightarrow> nat \<Rightarrow> bytes \<Rightarrow> int \<Rightarrow> bytes gen" where
  "tree_chunks cat 0 tree_data startofs = ([], None)"
| "tree_chunks cat (Suc fuel) tree_data startofs =
     gen_of (py_assert (0 \<le> startofs)) (\<lambda>_.
     gen_of (skip_chunks_before_offset tree_data startofs)
       (gen_each (\<lambda>(mode, name, oid).
          gen_of (py_int 16 name) (\<lambda>ofs.
          let skipmore = max 0 (startofs - ofs)
          in gen_of (object_at cat (hexlify oid)) (\<lambda>(obj_t, data).
             if S_ISDIR mode
             then gen_of (py_assert (obj_t = ''tree'')) (\<lambda>_. tree_chunks cat fuel data skipmore)
             else gen_of (py_assert (obj_t = ''blob'')) (\<lambda>_. ([drop (nat skipmore) data], Some (Inr ()))))))))"

section \<open>The chunk reader\<close>

text \<open>
  \<open>cr_blob\<close> is the pair \<open>blob\<close>, \<open>blobofs\<close>: the code sets and clears them together.  \<open>cr_it\<close> is
  what the generator still has to give.
\<close>

record chunk_reader =
  cr_it :: "bytes gen option"
  cr_blob :: "(bytes \<times> int) option"
  cr_ofs :: int

definition chunk_reader_init :: "cat_fn \<Rightarrow> nat \<Rightarrow> oid \<Rightarrow> int \<Rightarrow> chunk_reader res" where
  "chunk_reader_init cat fuel oid startofs =
     res_bind (object_at cat (hexlify oid)) (\<lambda>(obj_t, data).
     Inr (if obj_t = ''tree'' then \<lparr>cr_it = Some (tree_chunks cat fuel data startofs), cr_blob = None, cr_ofs = startofs\<rparr>
          else \<lparr>cr_it = None, cr_blob = Some (data, startofs), cr_ofs = startofs\<rparr>))"

definition no_blob :: "(bytes \<times> int) option \<Rightarrow> bool" where
  "no_blob cr = (case cr of None \<Rightarrow> True | Some (b, _) \<Rightarrow> b = [])"

text \<open>The next blob of the generator, when the one at hand is used up.\<close>

definition fetch :: "bytes gen option \<Rightarrow> (bytes \<times> int) option \<Rightarrow> (bytes gen option \<times> (bytes \<times> int) option) res option" where
  "fetch it blob =
     (case it of
        None \<Rightarrow> Some (Inr (None, blob))
      | Some (bs, fin) \<Rightarrow>
          if \<not> no_blob blob then Some (Inr (it, blob))
          else (case bs of
                  b # bs' \<Rightarrow> Some (Inr (Some (bs', fin), Some (b, 0)))
                | [] \<Rightarrow> (case fin of None \<Rightarrow> None | Some (Inl e) \<Rightarrow> Some (Inl e)
                         | Some (Inr _) \<Rightarrow> Some (Inr (None, None)))))"

text \<open>One part of the blob at hand: what is appended to \<open>out_parts\<close>, and what is left of the blob.\<close>

definition take_part :: "int \<Rightarrow> int \<Rightarrow> (bytes \<times> int) option \<Rightarrow> bytes list \<times> (bytes \<times> int) option" where
  "take_part sz out_len blob =
     (case blob of
        None \<Rightarrow> ([], None)
      | Some (b, blobofs) \<Rightarrow>
          if b = [] then ([], blob)
          else (let want = (if sz \<noteq> -1 then sz - out_len else int (length b) - blobofs)
                in if blobofs = 0 \<and> int (length b) \<le> want then ([b], None)
                   else ([py_slice b blobofs (blobofs + want)],
                         if int (length b) \<le> blobofs + want then None else Some (b, blobofs + want))))"

text \<open>How much there is still to read: chunks to fetch, then bytes of the blob at hand.\<close>

definition blob_left :: "(bytes \<times> int) option \<Rightarrow> nat" where
  "blob_left blob = (case blob of None \<Rightarrow> 0 | Some (b, o') \<Rightarrow> if b = [] then 0 else Suc (nat (int (length b) - o')))"

definition it_left :: "bytes gen option \<Rightarrow> nat" where
  "it_left it = (case it of None \<Rightarrow> 0 | Some (bs, _) \<Rightarrow> Suc (length bs))"

lemma fetch_progress:
  "fetch it blob = Some (Inr (Some g, blob1)) \<Longrightarrow>
    it_left (Some g) < it_left it \<or> it = Some g \<and> blob1 = blob \<and> \<not> no_blob blob"
  by (auto simp: fetch_def it_left_def split: option.splits prod.splits if_splits list.splits sum.splits)

lemma take_part_progress:
  assumes "\<not> no_blob blob" "sz = -1 \<or> out_len < sz" "take_part sz out_len blob = (p, blob2)"
  shows "blob_left blob2 < blob_left blob"
proof -
  obtain b k where b: "blob = Some (b, k)" "b \<noteq> []"
    using assms(1) by (auto simp: no_blob_def split: option.splits)
  show ?thesis
    using assms(2,3) b by (auto simp: take_part_def blob_left_def Let_def split: if_splits)
qed

function reader_loop ::
  "int \<Rightarrow> bytes gen option \<Rightarrow> (bytes \<times> int) option \<Rightarrow> bytes list \<Rightarrow> int \<Rightarrow>
   (bytes list \<times> bytes gen option \<times> (bytes \<times> int) option) res option" where
  "reader_loop sz it blob out_parts out_len =
     (if sz = -1 \<or> out_len < sz then
        (case fetch it blob of
           None \<Rightarrow> None
         | Some (Inl e) \<Rightarrow> Some (Inl e)
         | Some (Inr (it1, blob1)) \<Rightarrow>
             (case take_part sz out_len blob1 of
                (part, blob2) \<Rightarrow>
                  (case it1 of
                     None \<Rightarrow> Some (Inr (out_parts @ part, None, blob2))
                   | Some g \<Rightarrow> reader_loop sz (Some g) blob2 (out_parts @ part) (out_len + int (length (concat part))))))
      else Some (Inr (out_parts, it, blob)))"
  by pat_completeness auto
termination
proof (relation "measures [\<lambda>(sz, it, blob, p, n). it_left it, \<lambda>(sz, it, blob, p, n). blob_left blob]", goal_cases)
  case 1
  then show ?case by simp
next
  case (2 sz it blob out_parts out_len r p it1 blob1 part blob2 g)
  then have f: "fetch it blob = Some (Inr (Some g, blob1))" and t: "take_part sz out_len blob1 = (part, blob2)"
    and c: "sz = -1 \<or> out_len < sz" by simp_all
  from fetch_progress [OF f] show ?case
  proof (elim disjE conjE)
    assume "it_left (Some g) < it_left it" then show ?thesis by simp
  next
    assume a: "it = Some g" "blob1 = blob" "\<not> no_blob blob"
    then show ?thesis using take_part_progress [OF _ c, of blob part blob2] t by simp
  qed
qed

declare reader_loop.simps [simp del]

definition chunk_next :: "int \<Rightarrow> chunk_reader \<Rightarrow> (bytes \<times> chunk_reader) res option" where
  "chunk_next sz cr =
     fuel_bind (Some (py_assert (-1 \<le> sz))) (\<lambda>_.
     fuel_bind (reader_loop sz (cr_it cr) (cr_blob cr) [] 0) (\<lambda>(out_parts, it, blob).
     Some (Inr (concat out_parts,
       \<lparr>cr_it = it, cr_blob = blob, cr_ofs = cr_ofs cr + int (length (concat out_parts))\<rparr>))))"

section \<open>The file reader\<close>

record file_reader =
  fr_closed :: bool
  fr_oid :: oid
  fr_ofs :: int
  fr_reader :: "chunk_reader option"
  fr_size :: "int option"

definition file_reader_init :: "oid \<Rightarrow> file_reader res" where
  "file_reader_init oid =
     res_bind (py_assert (length oid = 20)) (\<lambda>_.
     Inr \<lparr>fr_closed = False, fr_oid = oid, fr_ofs = 0, fr_reader = None, fr_size = None\<rparr>)"

definition require_size :: "cat_fn \<Rightarrow> nat \<Rightarrow> file_reader \<Rightarrow> (int \<times> file_reader) res option" where
  "require_size cat fuel fr =
     (case fr_size fr of
        Some n \<Rightarrow> Some (Inr (n, fr))
      | None \<Rightarrow> fuel_bind (normal_or_chunked_file_size cat fuel (fr_oid fr)) (\<lambda>n. Some (Inr (n, fr\<lparr>fr_size := Some n\<rparr>))))"

text \<open>
  Operations answer a result and leave a reader behind, also when they raise.  The size is only
  asked for when the offset is not negative.
\<close>

definition seek :: "cat_fn \<Rightarrow> nat \<Rightarrow> int \<Rightarrow> file_reader \<Rightarrow> (unit res \<times> file_reader) option" where
  "seek cat fuel ofs fr =
     (if ofs = fr_ofs fr then Some (Inr (), fr)
      else if ofs < 0 then Some (Inl IOError, fr)
      else case require_size cat fuel fr of
             None \<Rightarrow> None
           | Some (Inl e) \<Rightarrow> Some (Inl e, fr)
           | Some (Inr (n, fr1)) \<Rightarrow> Some (if n < ofs then (Inl IOError, fr1) else (Inr (), fr1\<lparr>fr_ofs := ofs\<rparr>)))"

definition tell :: "file_reader \<Rightarrow> int" where "tell fr = fr_ofs fr"

definition reader_at :: "cat_fn \<Rightarrow> nat \<Rightarrow> file_reader \<Rightarrow> chunk_reader res" where
  "reader_at cat fuel fr =
     (case fr_reader fr of
        Some cr \<Rightarrow> if cr_ofs cr = fr_ofs fr then Inr cr else chunk_reader_init cat fuel (fr_oid fr) (fr_ofs fr)
      | None \<Rightarrow> chunk_reader_init cat fuel (fr_oid fr) (fr_ofs fr))"

definition read_on :: "cat_fn \<Rightarrow> nat \<Rightarrow> int \<Rightarrow> file_reader \<Rightarrow> (bytes res \<times> file_reader) option" where
  "read_on cat fuel cnt fr =
     (case reader_at cat fuel fr of
        Inl e \<Rightarrow> Some (Inl e, fr)
      | Inr cr \<Rightarrow>
          (case chunk_next cnt cr of
             None \<Rightarrow> None
           | Some (Inl e) \<Rightarrow> Some (Inl e, fr\<lparr>fr_reader := None\<rparr>)
           | Some (Inr (buf, cr')) \<Rightarrow>
               Some (Inr buf, if buf = [] then fr\<lparr>fr_reader := Some cr', fr_size := Some (fr_ofs fr)\<rparr>
                              else fr\<lparr>fr_reader := Some cr', fr_ofs := fr_ofs fr + int (length buf)\<rparr>)))"

definition read_file :: "cat_fn \<Rightarrow> nat \<Rightarrow> int \<Rightarrow> file_reader \<Rightarrow> (bytes res \<times> file_reader) option" where
  "read_file cat fuel cnt fr =
     (case fr_size fr of
        None \<Rightarrow> read_on cat fuel cnt fr
      | Some n \<Rightarrow> if fr_ofs fr = n then Some (Inr [], fr)
                  else if fr_ofs fr < n then read_on cat fuel cnt fr
                  else Some (Inl AssertionError, fr))"

definition close_reader :: "file_reader \<Rightarrow> file_reader" where
  "close_reader fr = fr\<lparr>fr_closed := True\<rparr>"

section \<open>Files in a repository\<close>

text \<open>
  A file in the repository: a blob, or a tree of at most \<open>n\<close> levels, encoded as git does, whose
  entries are named by the offsets of their pieces.
\<close>

inductive stored_file :: "cat_fn \<Rightarrow> nat \<Rightarrow> int \<Rightarrow> oid \<Rightarrow> bytes \<Rightarrow> bool" for cat where
  stored_blob: "\<not> S_ISDIR mode \<Longrightarrow> object_at cat (hexlify oid) = Inr (''blob'', c) \<Longrightarrow> stored_file cat n mode oid c"
| stored_tree: "S_ISDIR mode \<Longrightarrow> object_at cat (hexlify oid) = Inr (''tree'', concat (map ent_bytes es)) \<Longrightarrow>
    \<forall>e\<in>set es. valid_ent e \<Longrightarrow> pieces_ok es cs \<Longrightarrow>
    list_all2 (\<lambda>e c. stored_file cat n (fst e) (snd (snd e)) c) es cs \<Longrightarrow>
    stored_file cat (Suc n) mode oid (concat cs)"

text \<open>Runs that end well, by what they yield joined together.\<close>

definition yields_all :: "bytes gen \<Rightarrow> bytes \<Rightarrow> bool" where
  "yields_all g c \<longleftrightarrow> snd g = Some (Inr ()) \<and> concat (fst g) = c"

lemma yields_all_then: "yields_all g c \<Longrightarrow> yields_all h d \<Longrightarrow> yields_all (gen_then g h) (c @ d)"
  by (simp add: yields_all_def gen_then_def)

lemma yields_all_each:
  "list_all2 (\<lambda>x c. yields_all (f x) c) xs cs \<Longrightarrow> yields_all (gen_each f xs) (concat cs)"
proof (induction rule: list_all2_induct)
  case Nil
  show ?case by (simp add: yields_all_def)
next
  case (Cons x xs c cs)
  then show ?case by (simp add: yields_all_then)
qed

lemma tree_entries_ents:
  "\<forall>e\<in>set es. valid_ent e \<Longrightarrow> tree_entries (concat (map ent_bytes es)) = Inr es"
  using tree_iter_loop_ents [of es "[]"] by (simp add: tree_entries_def tree_entries_loop_iter)

lemma names_offset_int: "names_offset e n \<Longrightarrow> py_int 16 (fst (snd e)) = Inr (int n)"
  by (simp add: names_offset_def)

text \<open>
  What \<open>_skip_chunks_before_offset\<close> keeps: the entries from the last one that starts at or before the
  offset, \<open>m\<close> being where the first entry starts.
\<close>

definition kept_from ::
  "tree_ent list \<Rightarrow> bytes list \<Rightarrow> nat \<Rightarrow> int \<Rightarrow> tree_ent list res \<Rightarrow> bool" where
  "kept_from es cs m offset out \<longleftrightarrow>
     (\<exists>pre e post precs c postcs. es = pre @ e # post \<and> cs = precs @ c # postcs \<and> length pre = length precs \<and>
        int (m + length (concat precs)) \<le> offset \<and>
        (postcs = [] \<or> offset < int (m + length (concat precs) + length c)) \<and> out = Inr (e # post))"

lemma kept_fromI:
  assumes "out = Inr (e # post)" "es = pre @ e # post" "cs = precs @ c # postcs" "length pre = length precs"
    "int (m + length (concat precs)) \<le> offset" "postcs = [] \<or> offset < int (m + length (concat precs) + length c)"
  shows "kept_from es cs m offset out"
  unfolding kept_from_def
  by (rule exI [of _ pre], rule exI [of _ e], rule exI [of _ post], rule exI [of _ precs], rule exI [of _ c],
      rule exI [of _ postcs]) (use assms in simp)

lemma kept_from_Cons:
  assumes "kept_from es cs (m + length c) offset out"
  shows "kept_from (e # es) (c # cs) m offset out"
proof -
  obtain pre e' post precs c' postcs where k: "es = pre @ e' # post" "cs = precs @ c' # postcs"
    "length pre = length precs" "int (m + length c + length (concat precs)) \<le> offset"
    "postcs = [] \<or> offset < int (m + length c + length (concat precs) + length c')" "out = Inr (e' # post)"
    using assms unfolding kept_from_def by blast
  show ?thesis
    by (rule kept_fromI [of _ e' post _ "e # pre" _ "c # precs" c' postcs]) (use k in \<open>auto simp: algebra_simps\<close>)
qed

lemma skip_loop_from:
  assumes "list_all2 names_offset rest (offsets (m + length pc) rcs)" "[] \<notin> set rcs"
    and "entries = pre @ p # rest" "i = Suc (length pre)" "int m < offset"
  shows "kept_from (p # rest) (pc # rcs) m offset (skip_loop entries offset i rest)"
  using assms
proof (induction rest arbitrary: m pc rcs pre p i)
  case Nil
  then have "rcs = []" by (cases rcs) auto
  moreover have "skip_loop entries offset i [] = Inr [p]"
    using Nil.prems by (simp add: py_slice_def py_index_def slice_def)
  ultimately show ?case
    using Nil.prems by (intro kept_fromI [of _ p "[]" _ "[]" _ "[]" pc "[]"]) simp_all
next
  case (Cons r rest)
  obtain rc rcs' where rcs: "rcs = rc # rcs'" using Cons.prems(1) by (cases rcs) auto
  let ?n = "m + length pc"
  have r: "py_int 16 (fst (snd r)) = Inr (int ?n)" and rest: "list_all2 names_offset rest (offsets (?n + length rc) rcs')"
    using Cons.prems(1) names_offset_int [of r ?n] by (simp_all add: rcs)
  consider "offset < int ?n" | "offset = int ?n" | "int ?n < offset" by linarith
  then show ?case
  proof cases
    case 1
    then have "skip_loop entries offset i (r # rest) = Inr (p # r # rest)"
      using Cons.prems(3,4) r by (simp add: py_slice_nonneg slice_def)
    then show ?thesis
      using 1 Cons.prems(5) by (intro kept_fromI [of _ p "r # rest" _ "[]" _ "[]" pc rcs]) simp_all
  next
    case 2
    then have "skip_loop entries offset i (r # rest) = Inr (r # rest)"
      using Cons.prems(3,4) r by simp
    then show ?thesis
      using 2 Cons.prems(2) rcs by (intro kept_fromI [of _ r rest _ "[p]" _ "[pc]" rc rcs']) auto
  next
    case 3
    then have "skip_loop entries offset i (r # rest) = skip_loop entries offset (Suc i) rest"
      using r by simp
    moreover have "kept_from (r # rest) (rc # rcs') ?n offset (skip_loop entries offset (Suc i) rest)"
      using Cons.prems(2,3,4) rcs 3 by (intro Cons.IH [OF rest, of "pre @ [p]" r "Suc i"]) auto
    ultimately show ?thesis using kept_from_Cons rcs by simp
  qed
qed

lemma skip_loop_ok:
  assumes "pieces_ok es cs" "0 \<le> offset"
  shows "kept_from es cs 0 offset (skip_loop es offset 0 es)"
proof -
  obtain e rest where es: "es = e # rest" using assms(1) by (cases es) (auto simp: pieces_ok_def)
  obtain c rcs where cs: "cs = c # rcs" using assms(1) by (cases cs) (auto simp: pieces_ok_def es)
  have e: "py_int 16 (fst (snd e)) = Inr 0" and rest: "list_all2 names_offset rest (offsets (0 + length c) rcs)"
    and ne: "c \<noteq> []" "[] \<notin> set rcs"
    using assms(1) names_offset_int [of e 0] by (auto simp: pieces_ok_def es cs)
  show ?thesis
  proof (cases "offset = 0")
    case True
    then show ?thesis
      using ne e by (intro kept_fromI [of _ e rest _ "[]" _ "[]" c rcs]) (simp_all add: es cs)
  next
    case False
    then have "skip_loop es offset 0 es = skip_loop es offset (Suc 0) rest" using assms(2) e by (simp add: es)
    then show ?thesis
      using skip_loop_from [OF rest ne(2), of es "[]" e "Suc 0" offset] False assms(2) es cs by simp
  qed
qed

text \<open>The generator over a tree gives the data from the offset on.\<close>

definition chunk_gen :: "cat_fn \<Rightarrow> nat \<Rightarrow> int \<Rightarrow> tree_ent \<Rightarrow> bytes gen" where
  "chunk_gen cat fuel startofs e =
     (case e of (mode, name, oid) \<Rightarrow>
          gen_of (py_int 16 name) (\<lambda>ofs.
          let skipmore = max 0 (startofs - ofs)
          in gen_of (object_at cat (hexlify oid)) (\<lambda>(obj_t, data).
             if S_ISDIR mode
             then gen_of (py_assert (obj_t = ''tree'')) (\<lambda>_. tree_chunks cat fuel data skipmore)
             else gen_of (py_assert (obj_t = ''blob'')) (\<lambda>_. ([drop (nat skipmore) data], Some (Inr ()))))))"

lemma tree_chunks_Suc:
  "tree_chunks cat (Suc fuel) tree_data startofs =
     gen_of (py_assert (0 \<le> startofs)) (\<lambda>_.
     gen_of (skip_chunks_before_offset tree_data startofs) (gen_each (chunk_gen cat fuel startofs)))"
  unfolding tree_chunks.simps chunk_gen_def [abs_def] ..

lemma gen_of_Inr [simp]: "gen_of (Inr x) f = f x" "gen_of (Inl e) f = ([], Some (Inl e))"
  by (simp_all add: gen_of_def)

text \<open>An object as the reader meets it: a blob, or a tree whose run from any offset gives the rest.\<close>

definition opens_as :: "cat_fn \<Rightarrow> nat \<Rightarrow> int \<Rightarrow> oid \<Rightarrow> bytes \<Rightarrow> bool" where
  "opens_as cat n mode oid c \<longleftrightarrow>
     (if S_ISDIR mode then \<exists>data. object_at cat (hexlify oid) = Inr (''tree'', data) \<and>
        (\<forall>fuel ofs. n \<le> fuel \<longrightarrow> 0 \<le> ofs \<longrightarrow> yields_all (tree_chunks cat fuel data ofs) (drop (nat ofs) c))
      else object_at cat (hexlify oid) = Inr (''blob'', c))"

lemma chunk_gen_yields:
  assumes "opens_as cat n (fst e) (snd (snd e)) c" "py_int 16 (fst (snd e)) = Inr k" "n \<le> fuel"
  shows "yields_all (chunk_gen cat fuel startofs e) (drop (nat (startofs - k)) c)"
  using assms
  by (cases e) (auto simp: chunk_gen_def opens_as_def yields_all_def Let_def max_def split: if_splits)

lemma later_chunks_yield:
  assumes "list_all2 (\<lambda>e c. opens_as cat n (fst e) (snd (snd e)) c) es cs" "list_all2 names_offset es (offsets s cs)"
    and "startofs \<le> int s" "n \<le> fuel"
  shows "yields_all (gen_each (chunk_gen cat fuel startofs) es) (concat cs)"
proof -
  have "list_all2 (\<lambda>e c. yields_all (chunk_gen cat fuel startofs e) c) es cs"
    using assms
  proof (induction es cs arbitrary: s rule: list_all2_induct)
    case Nil
    then show ?case by simp
  next
    case (Cons e es c cs)
    have "yields_all (chunk_gen cat fuel startofs e) (drop (nat (startofs - int s)) c)"
      using Cons.prems by (intro chunk_gen_yields [OF Cons.hyps(1) names_offset_int]) auto
    then show ?case using Cons.prems Cons.IH [of "s + length c"] by simp
  qed
  then show ?thesis by (rule yields_all_each)
qed

lemma offsets_append: "offsets s (xs @ ys) = offsets s xs @ offsets (s + length (concat xs)) ys"
  by (induction xs arbitrary: s) (auto simp: algebra_simps)

lemma length_offsets [simp]: "length (offsets s xs) = length xs"
  by (induction xs arbitrary: s) auto

lemma tree_chunks_yield:
  assumes "\<forall>e\<in>set es. valid_ent e" "pieces_ok es cs"
    and "list_all2 (\<lambda>e c. opens_as cat n (fst e) (snd (snd e)) c) es cs" "n \<le> fuel" "0 \<le> ofs"
  shows "yields_all (tree_chunks cat (Suc fuel) (concat (map ent_bytes es)) ofs) (drop (nat ofs) (concat cs))"
proof -
  obtain pre e post precs c postcs where k: "es = pre @ e # post" "cs = precs @ c # postcs"
    "length pre = length precs" "int (length (concat precs)) \<le> ofs"
    "postcs = [] \<or> ofs < int (length (concat precs) + length c)" "skip_loop es ofs 0 es = Inr (e # post)"
    using skip_loop_ok [OF assms(2,5)] unfolding kept_from_def by auto
  let ?s = "length (concat precs)"
  have o: "list_all2 names_offset (e # post) (offsets ?s (c # postcs))"
    using assms(2) k(1-3) by (simp add: pieces_ok_def offsets_append list_all2_append del: offsets.simps)
  have p: "list_all2 (\<lambda>e c. opens_as cat n (fst e) (snd (snd e)) c) (e # post) (c # postcs)"
    using assms(3) k(1-3) by (simp add: list_all2_append)
  have "yields_all (chunk_gen cat fuel ofs e) (drop (nat (ofs - int ?s)) c)"
    using o p assms(4) by (intro chunk_gen_yields [OF _ names_offset_int]) auto
  moreover have "yields_all (gen_each (chunk_gen cat fuel ofs) post) (concat postcs)"
  proof (cases "postcs = []")
    case True
    then show ?thesis using p by (simp add: yields_all_def)
  next
    case False
    then show ?thesis using o p assms(4) k(5) by (intro later_chunks_yield [of cat n post postcs "?s + length c"]) auto
  qed
  ultimately have "yields_all (gen_each (chunk_gen cat fuel ofs) (e # post)) (drop (nat (ofs - int ?s)) c @ concat postcs)"
    by (simp add: yields_all_then)
  moreover have "drop (nat ofs) (concat cs) = drop (nat (ofs - int ?s)) c @ concat postcs"
    using k(2,4,5) by (auto simp: nat_diff_distrib)
  ultimately show ?thesis
    using assms(1,5) k(6)
    by (simp add: tree_chunks_Suc skip_chunks_before_offset_def tree_entries_ents del: tree_chunks.simps gen_each.simps)
qed

lemma opens_as_more: "opens_as cat n mode oid c \<Longrightarrow> n \<le> m \<Longrightarrow> opens_as cat m mode oid c"
  by (auto simp: opens_as_def)

lemma stored_file_opens: "stored_file cat n mode oid c \<Longrightarrow> opens_as cat n mode oid c"
proof (induction rule: stored_file.induct)
  case (stored_blob mode oid c n)
  then show ?case by (simp add: opens_as_def)
next
  case (stored_tree mode oid es cs n)
  have k: "list_all2 (\<lambda>e c. opens_as cat n (fst e) (snd (snd e)) c) es cs"
    using stored_tree.IH by (rule list_all2_mono) simp
  have "yields_all (tree_chunks cat fuel (concat (map ent_bytes es)) ofs) (drop (nat ofs) (concat cs))"
    if "Suc n \<le> fuel" "0 \<le> ofs" for fuel ofs
    using that tree_chunks_yield [OF stored_tree.hyps(3,4) k, of "fuel - 1" ofs] by (cases fuel) auto
  then show ?case using stored_tree.hyps by (auto simp: opens_as_def)
qed

text \<open>The size is found by going down the last entries only.\<close>

lemma last_offset:
  assumes "list_all2 names_offset es (offsets s cs)" "es \<noteq> []"
  shows "py_int 16 (fst (snd (last es))) = Inr (int (s + length (concat (butlast cs))))"
proof -
  obtain es' e where es: "es = es' @ [e]" using assms(2) by (cases es rule: rev_cases) auto
  obtain cs' c where cs: "cs = cs' @ [c]" using assms by (cases cs rule: rev_cases) auto
  have "length es' = length cs'" using list_all2_lengthD [OF assms(1)] es cs by simp
  then have "names_offset e (s + length (concat cs'))"
    using assms(1) by (simp add: es cs offsets_append list_all2_append)
  then show ?thesis using names_offset_int [of e "s + length (concat cs')"] es cs by simp
qed

lemma stored_file_size:
  "stored_file cat n mode oid c \<Longrightarrow> n < fuel \<Longrightarrow>
    \<exists>x. object_at cat (hexlify oid) = Inr x \<and> file_size_loop cat fuel ofs x = Some (Inr (ofs + int (length c)))"
proof (induction arbitrary: fuel ofs rule: stored_file.induct)
  case (stored_blob mode oid c n)
  then show ?case by (cases fuel) auto
next
  case (stored_tree mode oid es cs n)
  obtain f where f: "fuel = Suc f" "n < f" using stored_tree.prems by (cases fuel) auto
  have ne: "es \<noteq> []" "cs \<noteq> []" and o: "list_all2 names_offset es (offsets 0 cs)"
    using stored_tree.hyps(4) by (auto simp: pieces_ok_def)
  obtain es' m nm i where es: "es = es' @ [(m, nm, i)]" using ne(1) by (cases es rule: rev_cases) auto
  obtain cs' c where cs: "cs = cs' @ [c]" using ne(2) by (cases cs rule: rev_cases) auto
  have len: "length es' = length cs'" using list_all2_lengthD [OF o] es cs by simp
  have "\<forall>fuel ofs. n < fuel \<longrightarrow> (\<exists>x. object_at cat (hexlify i) = Inr x \<and>
      file_size_loop cat fuel ofs x = Some (Inr (ofs + int (length c))))"
    using stored_tree.IH len by (simp add: es cs list_all2_append)
  then obtain x where x: "object_at cat (hexlify i) = Inr x"
    "file_size_loop cat f (ofs + int (length (concat cs'))) x =
      Some (Inr (ofs + int (length (concat cs')) + int (length c)))"
    using f(2) by blast
  show ?case
    using stored_tree.hyps(2) last_tree_entry_ents [OF ne(1) stored_tree.hyps(3)] last_offset [OF o ne(1)] x
    by (simp add: f(1) es cs algebra_simps)
qed

section \<open>The reader reads a flat file\<close>

text \<open>What a chunk reader has left.\<close>

definition rest_of :: "bytes gen option \<Rightarrow> (bytes \<times> int) option \<Rightarrow> bytes" where
  "rest_of it blob = (case blob of None \<Rightarrow> [] | Some (b, k) \<Rightarrow> drop (nat k) b) @ (case it of None \<Rightarrow> [] | Some g \<Rightarrow> concat (fst g))"

definition reading :: "bytes gen option \<Rightarrow> (bytes \<times> int) option \<Rightarrow> bool" where
  "reading it blob \<longleftrightarrow> (\<forall>g. it = Some g \<longrightarrow> snd g = Some (Inr ())) \<and> (\<forall>b k. blob = Some (b, k) \<longrightarrow> 0 \<le> k)"

lemma fetch_reading:
  assumes "reading it blob"
  shows "\<exists>it1 blob1. fetch it blob = Some (Inr (it1, blob1)) \<and> reading it1 blob1 \<and> rest_of it1 blob1 = rest_of it blob"
proof (cases it)
  case None
  then show ?thesis using assms by (simp add: fetch_def)
next
  case (Some g)
  obtain bs fin where "g = (bs, fin)" by (cases g)
  then have it: "it = Some (bs, Some (Inr ()))" using assms Some by (auto simp: reading_def)
  show ?thesis
  proof (cases "no_blob blob")
    case False
    then show ?thesis using assms by (simp add: fetch_def it)
  next
    case True
    then have r: "rest_of it blob = concat bs"
      by (auto simp: rest_of_def it no_blob_def split: option.splits)
    show ?thesis
    proof (cases bs)
      case Nil
      then have "fetch it blob = Some (Inr (None, None))" using True by (simp add: fetch_def it)
      moreover have "reading None None" "rest_of None None = rest_of it blob"
        by (simp_all only: r) (simp_all add: reading_def rest_of_def Nil)
      ultimately show ?thesis by blast
    next
      case (Cons b bs')
      then have "fetch it blob = Some (Inr (Some (bs', Some (Inr ())), Some (b, 0)))" using True by (simp add: fetch_def it)
      moreover have "reading (Some (bs', Some (Inr ()))) (Some (b, 0))" by (simp add: reading_def)
      moreover have "rest_of (Some (bs', Some (Inr ()))) (Some (b, 0)) = rest_of it blob"
        by (simp only: r) (simp add: rest_of_def Cons)
      ultimately show ?thesis by blast
    qed
  qed
qed

text \<open>How many bytes a request still wants.\<close>

definition wanted :: "int \<Rightarrow> int \<Rightarrow> bytes \<Rightarrow> nat" where
  "wanted sz out_len s = (if sz = -1 then length s else nat (sz - out_len))"

lemma take_part_reading:
  assumes "reading it blob" "sz = -1 \<or> out_len < sz" "take_part sz out_len blob = (part, blob')"
    and s: "s = rest_of None blob" and w: "w = wanted sz out_len s"
  shows "reading it blob' \<and> concat part = take w s \<and> rest_of None blob' = drop w s"
proof (cases blob)
  case None
  then show ?thesis using assms by (simp add: take_part_def rest_of_def)
next
  case (Some bk)
  obtain b k where b: "blob = Some (b, k)" using Some by (cases bk) auto
  have k: "0 \<le> k" using assms(1) b by (simp add: reading_def)
  have it: "\<forall>g. it = Some g \<longrightarrow> snd g = Some (Inr ())" using assms(1) by (simp add: reading_def)
  let ?want = "if sz \<noteq> -1 then sz - out_len else int (length b) - k"
  have s': "s = drop (nat k) b" by (simp add: s b rest_of_def)
  consider "b = []" | "b \<noteq> []" "k = 0 \<and> int (length b) \<le> ?want" | "b \<noteq> []" "\<not> (k = 0 \<and> int (length b) \<le> ?want)" by blast
  then show ?thesis
  proof cases
    case 1
    then show ?thesis using assms(3) b k it by (auto simp: take_part_def s' rest_of_def reading_def)
  next
    case 2
    then have "part = [b]" "blob' = None"
      using assms(3) b by (auto simp: take_part_def Let_def split: if_splits)
    moreover have "length b \<le> w" using 2 by (auto simp: w wanted_def s' split: if_splits)
    ultimately show ?thesis using 2 it by (simp add: s' rest_of_def reading_def)
  next
    case 3
    then have part: "part = [py_slice b k (k + ?want)]"
      and blob': "blob' = (if int (length b) \<le> k + ?want then None else Some (b, k + ?want))"
      using assms(3) b by (auto simp: take_part_def Let_def split: if_splits)
    show ?thesis
    proof (cases "sz = -1")
      case True
      then have "w = length s" by (simp add: w wanted_def)
      then show ?thesis
        using True k it unfolding part blob' by (simp add: py_slice_nonneg slice_def s' rest_of_def reading_def)
    next
      case False
      then have pos: "out_len < sz" and w': "w = nat (sz - out_len)" using assms(2) by (simp_all add: w wanted_def)
      have "py_slice b k (k + (sz - out_len)) = take w s"
        using k pos by (simp add: py_slice_nonneg slice_def s' w' nat_diff_distrib nat_add_distrib)
      moreover have "drop w s = drop (nat (k + (sz - out_len))) b"
        using k pos by (simp add: s' w' nat_add_distrib [symmetric] add.commute)
      ultimately show ?thesis
        using False k pos it unfolding part blob' by (auto simp: rest_of_def reading_def)
    qed
  qed
qed

lemma rest_of_split: "rest_of it blob = rest_of None blob @ rest_of it None"
  by (simp add: rest_of_def)

lemma wanted_split:
  assumes "sz = -1 \<or> out_len < sz" "r = s @ t" "w = wanted sz out_len s" "r2 = drop w s @ t"
    and w2: "w2 = wanted sz (out_len + int (length (take w s))) r2"
  shows "take w s @ take w2 r2 = take (wanted sz out_len r) r \<and> drop w2 r2 = drop (wanted sz out_len r) r"
proof (cases "sz = -1")
  case True
  then show ?thesis using assms by (simp add: wanted_def)
next
  case False
  then have w: "w = nat (sz - out_len)" and wr: "wanted sz out_len r = w" using assms(3) by (simp_all add: wanted_def)
  show ?thesis
  proof (cases "w \<le> length s")
    case True
    then have "w2 = 0" using False w by (simp add: w2 wanted_def)
    then show ?thesis using True assms(2,4) unfolding wr by simp
  next
    case l: False
    then have "w2 = w - length s" using False w by (simp add: w2 wanted_def nat_diff_distrib)
    then show ?thesis using l assms(2,4) unfolding wr by simp
  qed
qed

lemma reader_loop_reading:
  assumes "reading it blob" "r = rest_of it blob" "w = wanted sz out_len r"
  shows "\<exists>out' it' blob'. reader_loop sz it blob out_parts out_len = Some (Inr (out_parts @ out', it', blob')) \<and>
    reading it' blob' \<and> concat out' = take w r \<and> rest_of it' blob' = drop w r"
  using assms
proof (induction sz it blob out_parts out_len arbitrary: r w rule: reader_loop.induct)
  case (1 sz it blob out_parts out_len)
  show ?case
  proof (cases "sz = -1 \<or> out_len < sz")
    case False
    then have "w = 0" using "1.prems"(3) by (simp add: wanted_def)
    then show ?thesis using False "1.prems" by (simp add: reader_loop.simps)
  next
    case True
    obtain it1 blob1 where f: "fetch it blob = Some (Inr (it1, blob1))" "reading it1 blob1" "rest_of it1 blob1 = r"
      using fetch_reading [OF "1.prems"(1)] "1.prems"(2) by auto
    obtain part blob2 where t: "take_part sz out_len blob1 = (part, blob2)" by (cases "take_part sz out_len blob1")
    define s where "s = rest_of None blob1"
    define w1 where "w1 = wanted sz out_len s"
    have p: "reading it1 blob2" "concat part = take w1 s" "rest_of None blob2 = drop w1 s"
      using take_part_reading [OF f(2) True t s_def w1_def] by blast+
    have r: "r = s @ rest_of it1 None" using rest_of_split [of it1 blob1] f(3) s_def by simp
    show ?thesis
    proof (cases it1)
      case None
      then have "r = s" using r by (simp add: rest_of_def)
      then have "concat part = take w r" "rest_of None blob2 = drop w r"
        using p "1.prems"(3) w1_def by simp_all
      then show ?thesis using p(1) True f(1) t None by (simp add: reader_loop.simps)
    next
      case (Some g)
      define r2 where "r2 = rest_of (Some g) blob2"
      have r2: "r2 = drop w1 s @ rest_of it1 None"
        using rest_of_split [of "Some g" blob2] p(3) Some by (simp add: r2_def)
      define w2 where "w2 = wanted sz (out_len + int (length (concat part))) r2"
      obtain out' it' blob' where ih: "reader_loop sz (Some g) blob2 (out_parts @ part) (out_len + int (length (concat part))) =
          Some (Inr ((out_parts @ part) @ out', it', blob'))"
        "reading it' blob'" "concat out' = take w2 r2" "rest_of it' blob' = drop w2 r2"
        using "1.IH" [OF True f(1) refl refl t [symmetric] Some _ r2_def w2_def] p(1) Some by auto
      have "concat (part @ out') = take w r \<and> rest_of it' blob' = drop w r"
        using wanted_split [OF True r w1_def r2, of w2] p(2) ih(3,4) "1.prems"(3) w2_def by simp
      moreover have "reader_loop sz it blob out_parts out_len = Some (Inr (out_parts @ (part @ out'), it', blob'))"
        using True f(1) t Some ih(1) by (simp add: reader_loop.simps [of sz it])
      ultimately show ?thesis using ih(2) by blast
    qed
  qed
qed

text \<open>
  The abstract file: its bytes and a position.  \<open>Read n\<close> with \<open>-1\<close> takes all; a position outside
  the file is refused.
\<close>

datatype file_op = Seek int | Read int | Tell
datatype file_answer = Got "bytes res" | Done "unit res" | At int

fun flat_step :: "bytes \<Rightarrow> file_op \<Rightarrow> nat \<Rightarrow> file_answer \<times> nat" where
  "flat_step c (Seek ofs) pos =
     (if 0 \<le> ofs \<and> ofs \<le> int (length c) then (Done (Inr ()), nat ofs) else (Done (Inl IOError), pos))"
| "flat_step c (Read n) pos =
     (let buf = (if n = -1 then drop pos c else take (nat n) (drop pos c)) in (Got (Inr buf), pos + length buf))"
| "flat_step c Tell pos = (At (int pos), pos)"

fun run_flat :: "bytes \<Rightarrow> nat \<Rightarrow> file_op list \<Rightarrow> file_answer list" where
  "run_flat c pos [] = []"
| "run_flat c pos (op # ops) = (case flat_step c op pos of (a, pos') \<Rightarrow> a # run_flat c pos' ops)"

fun reader_step :: "cat_fn \<Rightarrow> nat \<Rightarrow> file_op \<Rightarrow> file_reader \<Rightarrow> (file_answer \<times> file_reader) option" where
  "reader_step cat fuel (Seek ofs) fr = map_option (apfst Done) (seek cat fuel ofs fr)"
| "reader_step cat fuel (Read n) fr = map_option (apfst Got) (read_file cat fuel n fr)"
| "reader_step cat fuel Tell fr = Some (At (tell fr), fr)"

fun run_reader :: "cat_fn \<Rightarrow> nat \<Rightarrow> file_reader \<Rightarrow> file_op list \<Rightarrow> file_answer list option" where
  "run_reader cat fuel fr [] = Some []"
| "run_reader cat fuel fr (op # ops) =
     (case reader_step cat fuel op fr of
        None \<Rightarrow> None
      | Some (a, fr') \<Rightarrow> map_option (Cons a) (run_reader cat fuel fr' ops))"

text \<open>The refinement relation.\<close>

definition chunks_follow :: "bytes \<Rightarrow> chunk_reader \<Rightarrow> bool" where
  "chunks_follow c cr \<longleftrightarrow> reading (cr_it cr) (cr_blob cr) \<and> rest_of (cr_it cr) (cr_blob cr) = drop (nat (cr_ofs cr)) c"

definition reads_as :: "oid \<Rightarrow> bytes \<Rightarrow> file_reader \<Rightarrow> nat \<Rightarrow> bool" where
  "reads_as oid c fr pos \<longleftrightarrow> fr_oid fr = oid \<and> fr_ofs fr = int pos \<and> pos \<le> length c \<and>
     fr_size fr \<in> {None, Some (int (length c))} \<and> (\<forall>cr. fr_reader fr = Some cr \<longrightarrow> chunks_follow c cr)"

lemma chunk_reader_init_follows:
  assumes "stored_file cat n mode oid c" "n \<le> fuel"
  shows "\<exists>cr. chunk_reader_init cat fuel oid (int pos) = Inr cr \<and> chunks_follow c cr \<and> cr_ofs cr = int pos"
proof (cases "S_ISDIR mode")
  case True
  then obtain data where d: "object_at cat (hexlify oid) = Inr (''tree'', data)"
    and "\<forall>fuel ofs. n \<le> fuel \<longrightarrow> 0 \<le> ofs \<longrightarrow> yields_all (tree_chunks cat fuel data ofs) (drop (nat ofs) c)"
    using stored_file_opens [OF assms(1)] unfolding opens_as_def by auto
  then have "yields_all (tree_chunks cat fuel data (int pos)) (drop pos c)"
    using assms(2) by (metis nat_int of_nat_0_le_iff)
  then show ?thesis
    by (intro exI [of _ "\<lparr>cr_it = Some (tree_chunks cat fuel data (int pos)), cr_blob = None, cr_ofs = int pos\<rparr>"])
      (simp add: d chunk_reader_init_def chunks_follow_def reading_def rest_of_def yields_all_def)
next
  case False
  then have "object_at cat (hexlify oid) = Inr (''blob'', c)"
    using stored_file_opens [OF assms(1)] by (simp add: opens_as_def)
  then show ?thesis by (simp add: chunk_reader_init_def chunks_follow_def reading_def rest_of_def)
qed

lemma chunk_next_follows:
  assumes "chunks_follow c cr" "cr_ofs cr = int pos" "-1 \<le> sz"
  shows "\<exists>cr'. chunk_next sz cr = Some (Inr (if sz = -1 then drop pos c else take (nat sz) (drop pos c), cr')) \<and>
    chunks_follow c cr' \<and> cr_ofs cr' = cr_ofs cr + int (length (if sz = -1 then drop pos c else take (nat sz) (drop pos c)))"
proof -
  let ?r = "drop pos c" and ?w = "wanted sz 0 (drop pos c)"
  let ?buf = "if sz = -1 then drop pos c else take (nat sz) (drop pos c)"
  obtain out' it' blob' where l: "reader_loop sz (cr_it cr) (cr_blob cr) [] 0 = Some (Inr (out', it', blob'))"
    "reading it' blob'" "concat out' = take ?w ?r" "rest_of it' blob' = drop ?w ?r"
    using reader_loop_reading [of "cr_it cr" "cr_blob cr" ?r ?w sz 0 "[]"] assms by (auto simp: chunks_follow_def)
  have buf: "take ?w ?r = ?buf" by (simp add: wanted_def)
  have "drop ?w ?r = drop (pos + length ?buf) c" by (auto simp: wanted_def min_def add.commute)
  then have "drop ?w ?r = drop (nat (int pos + int (length ?buf))) c" by (simp add: nat_add_distrib)
  then show ?thesis
    using l assms buf by (simp add: chunk_next_def chunks_follow_def)
qed

lemma seek_refines:
  assumes "stored_file cat n mode oid c" "n < fuel" "reads_as oid c fr pos"
  shows "\<exists>fr'. reader_step cat fuel (Seek ofs) fr = Some (fst (flat_step c (Seek ofs) pos), fr') \<and>
    reads_as oid c fr' (snd (flat_step c (Seek ofs) pos))"
proof -
  obtain x where "object_at cat (hexlify oid) = Inr x" "file_size_loop cat fuel 0 x = Some (Inr (int (length c)))"
    using stored_file_size [OF assms(1,2), of 0] by auto
  then have sz: "normal_or_chunked_file_size cat fuel oid = Some (Inr (int (length c)))"
    by (simp add: normal_or_chunked_file_size_def)
  have R: "fr_oid fr = oid" "fr_ofs fr = int pos" "pos \<le> length c" "fr_size fr \<in> {None, Some (int (length c))}"
    using assms(3) by (simp_all add: reads_as_def)
  obtain fr1 where fr1: "require_size cat fuel fr = Some (Inr (int (length c), fr1))" "reads_as oid c fr1 pos"
    using R(1,4) sz assms(3) by (auto simp: require_size_def reads_as_def)
  consider "ofs = int pos" | "ofs \<noteq> int pos" "ofs < 0" | "ofs \<noteq> int pos" "0 \<le> ofs" by linarith
  then show ?thesis
  proof cases
    case 3
    have "reads_as oid c (fr1\<lparr>fr_ofs := ofs\<rparr>) (nat ofs)" if "ofs \<le> int (length c)"
      using fr1(2) that 3 by (auto simp: reads_as_def)
    then show ?thesis
      using 3 R(2) fr1 by (auto simp: seek_def)
  qed (use R assms(3) in \<open>auto simp: seek_def\<close>)
qed

lemma reader_at_follows:
  assumes "stored_file cat n mode oid c" "n < fuel" "reads_as oid c fr pos"
  shows "\<exists>cr. reader_at cat fuel fr = Inr cr \<and> chunks_follow c cr \<and> cr_ofs cr = int pos"
proof -
  obtain cr where cr: "chunk_reader_init cat fuel oid (int pos) = Inr cr" "chunks_follow c cr" "cr_ofs cr = int pos"
    using chunk_reader_init_follows [OF assms(1)] assms(2) by (meson less_imp_le)
  have R: "fr_oid fr = oid" "fr_ofs fr = int pos" "\<forall>cr. fr_reader fr = Some cr \<longrightarrow> chunks_follow c cr"
    using assms(3) by (simp_all add: reads_as_def)
  show ?thesis
  proof (cases "\<exists>cr0. fr_reader fr = Some cr0 \<and> cr_ofs cr0 = int pos")
    case True
    then show ?thesis using R by (auto simp: reader_at_def)
  next
    case False
    then have "reader_at cat fuel fr = Inr cr" using R cr(1) by (auto simp: reader_at_def split: option.splits)
    then show ?thesis using cr by blast
  qed
qed

lemma read_refines:
  assumes "stored_file cat n mode oid c" "n < fuel" "reads_as oid c fr pos" "-1 \<le> sz" "sz \<noteq> 0"
  shows "\<exists>fr'. reader_step cat fuel (Read sz) fr = Some (fst (flat_step c (Read sz) pos), fr') \<and>
    reads_as oid c fr' (snd (flat_step c (Read sz) pos))"
proof -
  let ?buf = "if sz = -1 then drop pos c else take (nat sz) (drop pos c)"
  have R: "fr_oid fr = oid" "fr_ofs fr = int pos" "pos \<le> length c" "fr_size fr \<in> {None, Some (int (length c))}"
    "\<And>cr. fr_reader fr = Some cr \<Longrightarrow> chunks_follow c cr"
    using assms(3) by (simp_all add: reads_as_def)
  have flat: "flat_step c (Read sz) pos = (Got (Inr ?buf), pos + length ?buf)" by (simp add: Let_def)
  have empty: "?buf = [] \<longleftrightarrow> pos = length c" using R(3) assms(4,5) by auto
  show ?thesis
  proof (cases "fr_size fr = Some (int pos)")
    case True
    then have "pos = length c" using R(4) by auto
    then show ?thesis
      using True R(2) assms(3) unfolding flat by (simp add: read_file_def)
  next
    case False
    then have "read_file cat fuel sz fr = read_on cat fuel sz fr"
      using R by (auto simp: read_file_def)
    moreover obtain cr where "reader_at cat fuel fr = Inr cr" "chunks_follow c cr" "cr_ofs cr = int pos"
      using reader_at_follows [OF assms(1-3)] by blast
    moreover obtain cr' where "chunk_next sz cr = Some (Inr (?buf, cr'))" "chunks_follow c cr'"
      using chunk_next_follows [OF calculation(3,4) assms(4)] by blast
    moreover have "pos + length ?buf \<le> length c" using R(3) by auto
    ultimately show ?thesis
      using R(1,2,4) empty unfolding flat by (auto simp: read_on_def reads_as_def simp del: drop_eq_Nil)
  qed
qed

definition op_ok :: "file_op \<Rightarrow> bool" where
  "op_ok op = (case op of Read n \<Rightarrow> -1 \<le> n \<and> n \<noteq> 0 | _ \<Rightarrow> True)"

lemma reader_step_refines:
  assumes "stored_file cat n mode oid c" "n < fuel" "reads_as oid c fr pos" "op_ok op"
  shows "\<exists>fr'. reader_step cat fuel op fr = Some (fst (flat_step c op pos), fr') \<and>
    reads_as oid c fr' (snd (flat_step c op pos))"
proof (cases op)
  case (Seek ofs)
  then show ?thesis using seek_refines [OF assms(1-3)] by simp
next
  case (Read sz)
  then show ?thesis using read_refines [OF assms(1-3)] assms(4) by (simp add: op_ok_def)
next
  case Tell
  then show ?thesis using assms(3) by (simp add: tell_def reads_as_def)
qed

lemma run_reader_flat:
  assumes "stored_file cat n mode oid c" "n < fuel" "reads_as oid c fr pos" "list_all op_ok ops"
  shows "run_reader cat fuel fr ops = Some (run_flat c pos ops)"
  using assms(3,4)
proof (induction ops arbitrary: fr pos)
  case Nil
  then show ?case by simp
next
  case (Cons op ops)
  obtain fr' where "reader_step cat fuel op fr = Some (fst (flat_step c op pos), fr')"
    "reads_as oid c fr' (snd (flat_step c op pos))"
    using reader_step_refines [OF assms(1,2) Cons.prems(1)] Cons.prems(2) by auto
  then show ?case
    using Cons.IH [of fr' "snd (flat_step c op pos)"] Cons.prems(2) by (simp split: prod.splits)
qed

section \<open>Joining\<close>

text \<open>\<open>join\<close>: the data of all blobs that can be reached from an object.\<close>

fun join_object :: "cat_fn \<Rightarrow> nat \<Rightarrow> bytes \<times> bytes list \<Rightarrow> bytes gen" where
  "join_object cat 0 (typ, it) = ([], None)"
| "join_object cat (Suc fuel) (typ, it) =
     (let join_oidx = (\<lambda>oidx.
            gen_of (get_oidx cat oidx True) (\<lambda>r.
            case r of None \<Rightarrow> ([], Some (Inl (Exc ''MissingObject''))) | Some (_, t, _, it') \<Rightarrow> join_object cat fuel (t, it')))
      in if typ = ''blob'' then (it, Some (Inr ()))
         else if typ = ''tree'' then
           (case tree_iter (concat it) of
              (ents, fin) \<Rightarrow>
                gen_then (gen_each (\<lambda>(mode, name, oid). join_oidx (hexlify oid)) ents)
                  ([], Some (case fin of None \<Rightarrow> Inr () | Some e \<Rightarrow> Inl e)))
         else if typ = ''commit'' then
           (let treeline = hd (split_on CHR 0x0a (concat it))
            in gen_of (py_assert (prefix ''tree '' treeline)) (\<lambda>_. join_oidx (drop 5 treeline)))
         else ([], Some (Inl GitError)))"

definition vfs_join :: "cat_fn \<Rightarrow> nat \<Rightarrow> bytes \<Rightarrow> bytes gen" where
  "vfs_join cat fuel ref =
     gen_of (get_ref cat ref) (\<lambda>got.
     case got of None \<Rightarrow> ([], Some (Inl GitError)) | Some (_, typ, _, it) \<Rightarrow> join_object cat fuel (typ, it))"

lemma object_at_get:
  assumes "object_at cat oidx = Inr (t, d)"
  shows "\<exists>o' n it. get_oidx cat oidx True = Inr (Some (o', t, n, it)) \<and> get_ref cat oidx = Inr (Some (o', t, n, it)) \<and> concat it = d"
proof -
  obtain r where r: "get_oidx cat oidx True = Inr r"
    "(case r of None \<Rightarrow> Inl (Exc ''MissingObject'') | Some (_, obj_t, _, it) \<Rightarrow> Inr (obj_t, concat it)) = Inr (t, d)"
    using assms by (auto simp: object_at_def res_simps)
  then obtain o' n it where s: "r = Some (o', t, n, it)" "concat it = d" by (cases r) auto
  then have "get_ref cat oidx = Inr (Some (o', t, n, it))"
    using r(1) by (auto simp: get_oidx_def res_simps split: if_splits)
  then show ?thesis using r(1) s by blast
qed

text \<open>On a stored file it is the file's bytes.\<close>

lemma join_object_stored:
  "stored_file cat n mode oid c \<Longrightarrow> n < fuel \<Longrightarrow>
    \<exists>o' t k it. get_oidx cat (hexlify oid) True = Inr (Some (o', t, k, it)) \<and>
      get_ref cat (hexlify oid) = Inr (Some (o', t, k, it)) \<and> yields_all (join_object cat fuel (t, it)) c"
proof (induction arbitrary: fuel rule: stored_file.induct)
  case (stored_blob mode oid c n)
  obtain o' k it where it: "get_oidx cat (hexlify oid) True = Inr (Some (o', ''blob'', k, it))"
    "get_ref cat (hexlify oid) = Inr (Some (o', ''blob'', k, it))" "concat it = c"
    using object_at_get [OF stored_blob.hyps(2)] by blast
  obtain f where "fuel = Suc f" using stored_blob.prems by (cases fuel) auto
  then have "yields_all (join_object cat fuel (''blob'', it)) c" using it(3) by (simp add: yields_all_def)
  then show ?case using it by blast
next
  case (stored_tree mode oid es cs n)
  obtain f where f: "fuel = Suc f" "n < f" using stored_tree.prems by (cases fuel) auto
  obtain o' k it where it: "get_oidx cat (hexlify oid) True = Inr (Some (o', ''tree'', k, it))"
    "get_ref cat (hexlify oid) = Inr (Some (o', ''tree'', k, it))" "concat it = concat (map ent_bytes es)"
    using object_at_get [OF stored_tree.hyps(2)] by blast
  define g where "g = (\<lambda>(mode :: int, name :: bytes, oid). gen_of (get_oidx cat (hexlify oid) True) (\<lambda>r.
      case r of None \<Rightarrow> ([], Some (Inl (Exc ''MissingObject''))) | Some (_, t, _, it') \<Rightarrow> join_object cat f (t, it')))"
  have "list_all2 (\<lambda>e c. yields_all (g e) c) es cs"
    using stored_tree.IH
  proof (rule list_all2_mono)
    fix e :: tree_ent and c
    assume "stored_file cat n (fst e) (snd (snd e)) c \<and> (\<forall>fuel>n. \<exists>o' t k it. get_oidx cat (hexlify (snd (snd e))) True = Inr (Some (o', t, k, it)) \<and>
      get_ref cat (hexlify (snd (snd e))) = Inr (Some (o', t, k, it)) \<and> yields_all (join_object cat fuel (t, it)) c)"
    then obtain o' t k it where "get_oidx cat (hexlify (snd (snd e))) True = Inr (Some (o', t, k, it))"
      "yields_all (join_object cat f (t, it)) c" using f(2) by blast
    then show "yields_all (g e) c" by (cases e) (simp add: g_def)
  qed
  then have "yields_all (gen_each g es) (concat cs)" by (rule yields_all_each)
  moreover have "tree_iter (concat (map ent_bytes es)) = (es, None)"
    using tree_iter_loop_ents [OF stored_tree.hyps(3), of "[]"] by (simp add: tree_iter_def)
  moreover have "gen_each (\<lambda>(mode, name, oid). gen_of (get_oidx cat (hexlify oid) True) (\<lambda>r.
      case r of None \<Rightarrow> ([], Some (Inl (Exc ''MissingObject''))) | Some (_, t, _, it') \<Rightarrow> join_object cat f (t, it'))) es = gen_each g es"
    by (simp only: g_def)
  ultimately have "yields_all (join_object cat fuel (''tree'', it)) (concat cs)"
    using it(3) unfolding f(1) by (simp add: Let_def yields_all_def gen_then_def)
  then show ?case using it by blast
qed

section \<open>Split, store, read\<close>

text \<open>A repository has an object when it answers for its id with the object's type and git encoding.\<close>

definition repo_has :: "cat_fn \<Rightarrow> oid \<Rightarrow> oid obj \<Rightarrow> bool" where
  "repo_has cat i ob \<longleftrightarrow> length i = 20 \<and>
     (case ob of Blob b \<Rightarrow> object_at cat (hexlify i) = Inr (''blob'', b)
      | TreeObj es \<Rightarrow> (\<exists>d. tree_encode es = Inr d \<and> object_at cat (hexlify i) = Inr (''tree'', d)))"

lemma stored_file_more: "stored_file cat n mode oid c \<Longrightarrow> n \<le> m \<Longrightarrow> stored_file cat m mode oid c"
proof (induction arbitrary: m rule: stored_file.induct)
  case (stored_blob mode oid c n)
  then show ?case by (intro stored_file.stored_blob)
next
  case (stored_tree mode oid es cs n)
  obtain m' where m: "m = Suc m'" "n \<le> m'" using stored_tree.prems by (cases m) auto
  have "list_all2 (\<lambda>e c. stored_file cat m' (fst e) (snd (snd e)) c) es cs"
    using stored_tree.IH m(2) by (auto elim: list_all2_mono)
  then show ?case unfolding m(1) by (rule stored_file.stored_tree [OF stored_tree.hyps(1-4)])
qed

lemma common_depth:
  "list_all2 (\<lambda>e c. \<exists>n. stored_file cat n (fst e) (snd (snd e)) c) es cs \<Longrightarrow>
    \<exists>n. list_all2 (\<lambda>e c. stored_file cat n (fst e) (snd (snd e)) c) es cs"
proof (induction rule: list_all2_induct)
  case Nil
  then show ?case by simp
next
  case (Cons e es c cs)
  then obtain n m where n: "stored_file cat n (fst e) (snd (snd e)) c"
    and m: "list_all2 (\<lambda>e c. stored_file cat m (fst e) (snd (snd e)) c) es cs" by blast
  have "list_all2 (\<lambda>e c. stored_file cat (max n m) (fst e) (snd (snd e)) c) es cs"
    by (rule list_all2_mono [OF m]) (rule stored_file_more, assumption, simp)
  then show ?case using stored_file_more [OF n, of "max n m"] by (intro exI [of _ "max n m"]) simp
qed

lemma content_id_length: "content (repo_has cat) mode i c \<Longrightarrow> length i = 20"
  by (induction rule: content.induct) (auto simp: repo_has_def)

lemma content_stored: "content (repo_has cat) mode i c \<Longrightarrow> \<exists>n. stored_file cat n mode i c"
proof (induction rule: content.induct)
  case (content_blob mode i b)
  then show ?case by (intro exI [of _ 0] stored_blob) (auto simp: repo_has_def)
next
  case (content_tree mode i es cs)
  let ?es = "sort_key shalist_item_sort_key es"
  have k: "list_all2 (\<lambda>e c. \<exists>n. stored_file cat n (fst e) (snd (snd e)) c) ?es cs"
    using content_tree.IH by (rule list_all2_mono) simp
  then obtain n where n: "list_all2 (\<lambda>e c. stored_file cat n (fst e) (snd (snd e)) c) ?es cs"
    using common_depth by blast
  have "valid_ent e" if e: "e \<in> set ?es" for e
  proof -
    obtain j where j: "j < length ?es" "e = ?es ! j" using e by (metis in_set_conv_nth)
    have "content (repo_has cat) (fst e) (snd (snd e)) (cs ! j)"
      using list_all2_nthD [OF content_tree.IH j(1)] j(2) by simp
    moreover have "names_offset e (offsets 0 cs ! j)"
      using content_tree.hyps(3) j by (auto simp: pieces_ok_def dest: list_all2_nthD)
    ultimately show ?thesis
      using content_id_length [of cat "fst e"] by (cases e) (auto simp: names_offset_def valid_ent_def mode_defs)
  qed
  then have v: "\<forall>e\<in>set ?es. valid_ent e" by blast
  then have "\<forall>e\<in>set es. valid_ent e" by simp
  then have "object_at cat (hexlify i) = Inr (''tree'', concat (map ent_bytes ?es))"
    using content_tree.hyps(2) tree_encode_valid [of es] by (auto simp: repo_has_def)
  then show ?case
    using stored_tree [OF content_tree.hyps(1) _ v content_tree.hyps(3) n] by blast
qed

text \<open>A repository with a file of two chunks, for the witnesses.\<close>

definition oid_of :: "char \<Rightarrow> oid" where "oid_of c = replicate 20 c"

definition chunks_w :: "tree_ent list" where
  "chunks_w = [(GIT_MODE_FILE, ''0'', oid_of CHR ''a''), (GIT_MODE_FILE, ''2'', oid_of CHR ''c'')]"

lemma oid_of_simps [simp]: "length (oid_of c) = 20" "oid_of c = oid_of d \<longleftrightarrow> c = d"
  by (simp_all add: oid_of_def)

text \<open>The repository that has the objects of a list.\<close>

definition objects_cat :: "(oid \<times> bytes \<times> bytes) list \<Rightarrow> cat_fn" where
  "objects_cat objs ref =
     Inr (case unhexlify ref of Inl _ \<Rightarrow> None
          | Inr i \<Rightarrow> map_option (\<lambda>(t, d). (ref, t, int (length d), [d])) (map_of objs i))"

lemma object_at_objects_cat:
  "length i = 20 \<Longrightarrow> map_of objs i = Some (t, d) \<Longrightarrow> object_at (objects_cat objs) (hexlify i) = Inr (t, d)"
  using length_hexlify [of i]
  by (auto simp: object_at_def get_oidx_def get_ref_def objects_cat_def unhexlify_hexlify simp del: length_hexlify)

definition cat_w :: cat_fn where
  "cat_w = objects_cat [(oid_of CHR ''a'', ''blob'', ''ab''), (oid_of CHR ''c'', ''blob'', ''c''),
     (oid_of CHR ''T'', ''tree'', concat (map ent_bytes chunks_w))]"

lemma cat_w_objects:
  "object_at cat_w (hexlify (oid_of CHR ''a'')) = Inr (''blob'', ''ab'')"
  "object_at cat_w (hexlify (oid_of CHR ''c'')) = Inr (''blob'', ''c'')"
  "object_at cat_w (hexlify (oid_of CHR ''T'')) = Inr (''tree'', concat (map ent_bytes chunks_w))"
  unfolding cat_w_def by (rule object_at_objects_cat; simp)+

lemma chunks_w_facts:
  "\<forall>e\<in>set chunks_w. valid_ent e" "tree_encode chunks_w = Inr (concat (map ent_bytes chunks_w))"
  "pieces_ok chunks_w [''ab'', ''c'']"
proof -
  show v: "\<forall>e\<in>set chunks_w. valid_ent e" by (simp add: chunks_w_def valid_ent_def mode_defs)
  have "sort_key shalist_item_sort_key chunks_w = chunks_w"
    by (simp add: chunks_w_def shalist_item_sort_key_def mode_defs)
  then show "tree_encode chunks_w = Inr (concat (map ent_bytes chunks_w))"
    using tree_encode_valid [OF v] by simp
  have "py_int 16 ''0'' = Inr 0" "py_int 16 ''2'' = Inr 2" by code_simp+
  then show "pieces_ok chunks_w [''ab'', ''c'']"
    by (simp add: pieces_ok_def chunks_w_def names_offset_def)
qed

lemma stored_file_w: "stored_file cat_w 1 GIT_MODE_TREE (oid_of CHR ''T'') ''abc''"
proof -
  have "stored_file cat_w 0 GIT_MODE_FILE (oid_of CHR ''a'') ''ab''" "stored_file cat_w 0 GIT_MODE_FILE (oid_of CHR ''c'') ''c''"
    using cat_w_objects by (auto intro!: stored_blob)
  then have "list_all2 (\<lambda>e c. stored_file cat_w 0 (fst e) (snd (snd e)) c) chunks_w [''ab'', ''c'']"
    by (simp add: chunks_w_def)
  from stored_tree [OF _ cat_w_objects(3) chunks_w_facts(1,3) this, of GIT_MODE_TREE] show ?thesis by simp
qed

definition blob_id_w :: "bytes \<Rightarrow> oid" where "blob_id_w b = oid_of (hd b)"

lemma split_w:
  "split_to_blob_or_tree blob_id_w (\<lambda>es. oid_of CHR ''T'') 0 [(''ab'', 1), (''c'', 0)] =
     ((GIT_MODE_TREE, oid_of CHR ''T''), [Blob ''ab'', Blob ''c'', TreeObj chunks_w], 3)"
  by code_simp

lemma holds_w: "holds (repo_has cat_w) blob_id_w (\<lambda>es. oid_of CHR ''T'') [Blob ''ab'', Blob ''c'', TreeObj chunks_w]"
  using cat_w_objects chunks_w_facts(2) by (simp add: repo_has_def blob_id_w_def)

definition ops_w :: "file_op list" where "ops_w = [Read 2, Seek 1, Read (-1), Seek 4, Tell]"

lemma ops_w_run: "list_all op_ok ops_w"
  "run_flat ''abc'' 0 ops_w = [Got (Inr ''ab''), Done (Inr ()), Got (Inr ''bc''), Done (Inl IOError), At 3]"
  by code_simp+

section \<open>Properties\<close>



text \<open>C3: what the splitter stores, the file system reads back: once the repository has the objects
  \<open>split_to_blob_or_tree\<close> made of a stream of blobs, a reader opened on the id it returned behaves as
  a flat file of the blobs' bytes, whatever the levels at which the splitter cut.\<close>

theorem split_file_reads_back:
  assumes "split_to_blob_or_tree blob_id tree_id tot sp = ((mode, oid), w, tot')"
    and "holds (repo_has cat) blob_id tree_id w" "list_all (\<lambda>(b, l). b \<noteq> []) sp" "list_all op_ok ops"
  shows "\<exists>n. \<forall>fuel>n. \<exists>fr. file_reader_init oid = Inr fr \<and>
    run_reader cat fuel fr ops = Some (run_flat (concat (map fst sp)) 0 ops)"
proof -
  have c: "content (repo_has cat) mode oid (concat (map fst sp))"
    using split_content [OF assms(1,2)] assms(3) by (simp add: list_all_iff)
  then obtain n where n: "stored_file cat n mode oid (concat (map fst sp))" using content_stored by blast
  obtain fr where fr: "file_reader_init oid = Inr fr" "reads_as oid (concat (map fst sp)) fr 0"
    using content_id_length [OF c] by (auto simp: file_reader_init_def reads_as_def)
  have "\<forall>fuel>n. run_reader cat fuel fr ops = Some (run_flat (concat (map fst sp)) 0 ops)"
    using run_reader_flat [OF n _ fr(2) assms(4)] by blast
  then show ?thesis using fr(1) by blast
qed

theorem split_file_reads_back_witness:
  "\<exists>fuel fr. file_reader_init (oid_of CHR ''T'') = Inr fr \<and> run_reader cat_w fuel fr ops_w =
     Some [Got (Inr ''ab''), Done (Inr ()), Got (Inr ''bc''), Done (Inl IOError), At 3]"
proof -
  obtain n where n: "\<forall>fuel>n. \<exists>fr. file_reader_init (oid_of CHR ''T'') = Inr fr \<and>
      run_reader cat_w fuel fr ops_w = Some (run_flat ''abc'' 0 ops_w)"
    using split_file_reads_back [OF split_w holds_w _ ops_w_run(1)] by auto
  show ?thesis using n [rule_format, of "Suc n"] by (auto simp: ops_w_run(2))
qed

text \<open>joining a stored file yields exactly its bytes, as the reader does.\<close>

theorem join_gives_file:
  assumes "stored_file cat n mode oid c" "n < fuel"
  shows "snd (vfs_join cat fuel (hexlify oid)) = Some (Inr ()) \<and> concat (fst (vfs_join cat fuel (hexlify oid))) = c"
  using join_object_stored [OF assms] by (auto simp: vfs_join_def yields_all_def)

theorem join_gives_file_witness:
  "concat (fst (vfs_join cat_w 2 (hexlify (oid_of CHR ''T'')))) = ''abc''"
  using join_gives_file [OF stored_file_w, of 2] by simp

text \<open>reading zero bytes marks the end of the file at the current offset: on any file, a reader that
  was once asked for nothing finds nothing, where a flat file would go on with all of its bytes.\<close>

theorem read_zero_ends_file:
  assumes "stored_file cat n mode oid c" "length oid = 20" "n < fuel"
  shows "\<exists>fr. file_reader_init oid = Inr fr \<and> run_reader cat fuel fr [Read 0, Read (-1)] = Some [Got (Inr []), Got (Inr [])] \<and>
    run_flat c 0 [Read 0, Read (-1)] = [Got (Inr []), Got (Inr c)]"
proof -
  obtain fr where fr: "file_reader_init oid = Inr fr" "reads_as oid c fr 0" "fr_size fr = None"
    using assms(2) by (auto simp: file_reader_init_def reads_as_def)
  obtain cr where cr: "reader_at cat fuel fr = Inr cr" "chunks_follow c cr" "cr_ofs cr = int 0"
    using reader_at_follows [OF assms(1,3) fr(2)] by blast
  obtain cr' where "chunk_next 0 cr = Some (Inr ([], cr'))"
    using chunk_next_follows [OF cr(2,3), of 0] by auto
  then have "read_file cat fuel 0 fr = Some (Inr [], fr\<lparr>fr_reader := Some cr', fr_size := Some (fr_ofs fr)\<rparr>)"
    using cr(1) fr(3) by (simp add: read_file_def read_on_def)
  then show ?thesis using fr(1) by (simp add: read_file_def)
qed

theorem read_zero_ends_file_witness:
  "\<exists>fr. file_reader_init (oid_of CHR ''T'') = Inr fr \<and> run_reader cat_w 2 fr [Read 0, Read (-1)] = Some [Got (Inr []), Got (Inr [])]"
  using read_zero_ends_file [OF stored_file_w, of 2] by (auto simp: oid_of_def)



end
