(* ===== verification/Vfs_Tree.thy ===== *)
theory Vfs_Tree
  imports Vfs_File Metadata Bup_Protocol
begin

text \<open>
  Listing directories through the virtual file system: modes, metadata and the items of trees, flat or
  split, of \<open>lib/bup/vfs.py\<close>.  An item carries a \<open>Metadata\<close> or a mode.  A generator's run is what it
  yields and how it ends.  A \<open>.bupm\<close> file is read whole when it is opened, and consumed from there.
\<close>

section \<open>Modes\<close>

definition S_IXUSR :: int where "S_IXUSR = 0x40"
definition reg_perms :: int where "reg_perms = 0x1A4" \<comment> \<open>\<open>0o644\<close>\<close>
definition exec_perms :: int where "exec_perms = 0x1ED" \<comment> \<open>\<open>0o755\<close>\<close>
definition private_mode :: "int \<Rightarrow> int" where "private_mode mode = mode AND NOT 0x3F" \<comment> \<open>\<open>S_IRWXO | S_IRWXG\<close>\<close>
definition default_file_mode :: int where "default_file_mode = 0x8000 OR reg_perms"
definition default_exec_mode :: int where "default_exec_mode = 0x8000 OR exec_perms"
definition default_dir_mode :: int where "default_dir_mode = 0x4000 OR exec_perms"
definition default_symlink_mode :: int where "default_symlink_mode = 0xA000 OR exec_perms"

lemmas default_mode_defs = S_IXUSR_def reg_perms_def exec_perms_def private_mode_def default_file_mode_def
  default_exec_mode_def default_dir_mode_def default_symlink_mode_def

definition default_mode_for_gitinfo :: "int \<Rightarrow> bup_kind \<Rightarrow> int res" where
  "default_mode_for_gitinfo gitmode kind =
     (if S_ISREG gitmode then Inr (if gitmode AND S_IXUSR \<noteq> 0 then default_exec_mode else default_file_mode)
      else if S_ISDIR gitmode then Inr (if kind = BUP_CHUNKED then default_file_mode else default_dir_mode)
      else if S_ISLNK gitmode then Inr default_symlink_mode
      else Inl (Exc ''unexpected git mode''))"

text \<open>\<open>LostMetadata\<close>: an instance with nothing but a private mode.\<close>

definition lost_metadata :: "int \<Rightarrow> metadata" where
  "lost_metadata mode = empty_metadata\<lparr>md_mode := Some mode\<rparr>"

definition lost_metadata_for_gitinfo :: "int \<Rightarrow> bup_kind \<Rightarrow> metadata res" where
  "lost_metadata_for_gitinfo mode kind =
     (if S_ISREG mode then Inr (lost_metadata (private_mode (if mode AND S_IXUSR \<noteq> 0 then default_exec_mode else default_file_mode)))
      else if S_ISDIR mode then
        Inr (lost_metadata (private_mode (if kind = BUP_CHUNKED then default_file_mode else default_dir_mode)))
      else if S_ISLNK mode then Inr (lost_metadata (private_mode default_symlink_mode))
      else Inl AssertionError)"

type_synonym vitem = "metadata item"

definition item_mode :: "vitem \<Rightarrow> int option" where
  "item_mode item = (case meta_of item of Meta md \<Rightarrow> md_mode md | Mode m \<Rightarrow> Some m)"

text \<open>\<open>S_ISDIR\<close>, \<open>S_ISREG\<close> or \<open>S_ISLNK\<close> of an item: of \<open>None\<close> it is a \<open>TypeError\<close>.\<close>

definition mode_is :: "(int \<Rightarrow> bool) \<Rightarrow> vitem \<Rightarrow> bool res" where
  "mode_is p item = (case item_mode item of None \<Rightarrow> Inl TypeError | Some m \<Rightarrow> Inr (p m))"

fun set_meta :: "metadata vfs_meta \<Rightarrow> vitem \<Rightarrow> vitem" where
  "set_meta m (Item oid _) = Item oid m"
| "set_meta m (Chunky oid _) = Chunky oid m"
| "set_meta m (RevList oid _) = RevList oid m"
| "set_meta m (Root _) = Root m"
| "set_meta m (Tags _) = Tags m"
| "set_meta m (Commit oid coid _) = Commit oid coid m"
| "set_meta m (FakeLink target _) = FakeLink target m"

definition has_metadata :: "vitem \<Rightarrow> bool" where
  "has_metadata item = (case meta_of item of Meta _ \<Rightarrow> True | Mode _ \<Rightarrow> False)"

section \<open>Metadata streams\<close>

text \<open>\<open>Metadata.read\<close> tells the end of the stream, an entry without information and an instance apart.\<close>

datatype meta_read = Eof | NoInfo | Entry metadata

definition read_meta :: "bytes \<Rightarrow> (meta_read \<times> bytes) res" where
  "read_meta s =
     res_bind (read_vuint s) (\<lambda>(tag, s1).
     case tag of
       None \<Rightarrow> Inr (Eof, s1)
     | Some tag \<Rightarrow>
         if tag = tag_end then Inr (NoInfo, s1)
         else res_bind (read_records (length s + 1) tag empty_metadata s1) (\<lambda>(md, s2). Inr (Entry md, s2)))"

definition read_dir_meta :: "bytes \<Rightarrow> (metadata vfs_meta \<times> bytes) res" where
  "read_dir_meta bupm =
     res_bind (read_meta bupm) (\<lambda>(m, rest).
     case m of
       Eof \<Rightarrow> Inl EOFError
     | NoInfo \<Rightarrow> Inr (Mode default_dir_mode, rest)
     | Entry md \<Rightarrow> res_bind (py_assert (md_mode md \<noteq> None)) (\<lambda>_. Inr (Meta md, rest)))"

text \<open>All the bytes of a file, through the reader.\<close>

definition file_bytes :: "cat_fn \<Rightarrow> nat \<Rightarrow> oid \<Rightarrow> bytes res option" where
  "file_bytes cat fuel oid =
     fuel_bind (Some (file_reader_init oid)) (\<lambda>fr. map_option fst (read_file cat fuel (-1) fr))"

definition treeish_tree_data :: "cat_fn \<Rightarrow> oid \<Rightarrow> bytes res" where
  "treeish_tree_data cat oid =
     res_bind (py_assert (length oid = 20)) (\<lambda>_.
     res_bind (object_at cat (hexlify oid)) (\<lambda>(item_t, data).
     if item_t = ''commit'' then
       res_bind (parse_commit data) (\<lambda>commit.
       res_bind (object_at cat (ci_tree commit)) (\<lambda>(item_t, data).
       res_bind (py_assert (item_t = ''tree'')) (\<lambda>_. Inr data)))
     else if item_t \<noteq> ''tree'' then Inl (Exc ''is not a tree or commit'')
     else Inr data))"

fun find_bupm_oid :: "tree_ent list \<Rightarrow> oid option" where
  "find_bupm_oid [] = None"
| "find_bupm_oid ((mode, mangled_name, sub_oid) # entries) =
     (if mangled_name = ''.bupm'' then Some sub_oid
      else if ''.bupm'' < mangled_name then None
      else find_bupm_oid entries)"

definition tree_data_and_bupm :: "cat_fn \<Rightarrow> oid \<Rightarrow> (bytes \<times> oid option) res" where
  "tree_data_and_bupm cat oid =
     res_bind (treeish_tree_data cat oid) (\<lambda>data.
     res_bind (tree_entries data) (\<lambda>entries. Inr (data, find_bupm_oid entries)))"

definition find_treeish_oid_metadata :: "cat_fn \<Rightarrow> nat \<Rightarrow> oid \<Rightarrow> metadata vfs_meta option res option" where
  "find_treeish_oid_metadata cat fuel oid =
     fuel_bind (Some (treeish_tree_data cat oid)) (\<lambda>data.
     fuel_bind (Some (find_tree_entry ''.bupm'' data)) (\<lambda>ent.
     case ent of
       None \<Rightarrow> Some (Inr None)
     | Some (_, _, bupm_oid) \<Rightarrow>
         fuel_bind (file_bytes cat fuel bupm_oid) (\<lambda>bupm.
         Some (res_bind (read_dir_meta bupm) (\<lambda>(m, _). Inr (Some m))))))"

section \<open>Links and sizes\<close>

definition readlink_blob :: "cat_fn \<Rightarrow> oid \<Rightarrow> bytes res" where
  "readlink_blob cat oid =
     res_bind (get_ref cat (hexlify oid)) (\<lambda>r.
     case r of
       None \<Rightarrow> Inl (Exc ''MissingObject'')
     | Some (_, kind, _, it) \<Rightarrow> res_bind (py_assert (kind = ''blob'')) (\<lambda>_. Inr (concat it)))"

text \<open>The attribute \<open>oid\<close>, which not every item has.\<close>

definition item_oid :: "vitem \<Rightarrow> oid res" where
  "item_oid item =
     (case item of Item oid _ \<Rightarrow> Inr oid | Chunky oid _ \<Rightarrow> Inr oid | RevList oid _ \<Rightarrow> Inr oid | Commit oid _ _ \<Rightarrow> Inr oid
      | _ \<Rightarrow> Inl (Exc ''AttributeError''))"

definition readlink :: "cat_fn \<Rightarrow> vitem \<Rightarrow> bytes res" where
  "readlink cat item =
     res_bind (mode_is S_ISLNK item) (\<lambda>b.
     res_bind (py_assert b) (\<lambda>_.
     case item of
       FakeLink target _ \<Rightarrow> Inr target
     | _ \<Rightarrow>
         (case meta_of item of
            Meta md \<Rightarrow>
              (case md_symlink_target md of
                 Some t \<Rightarrow> if t \<noteq> [] then Inr t else res_bind (item_oid item) (readlink_blob cat)
               | None \<Rightarrow> res_bind (item_oid item) (readlink_blob cat))
          | Mode _ \<Rightarrow> res_bind (item_oid item) (readlink_blob cat))))"

definition compute_item_size :: "cat_fn \<Rightarrow> nat \<Rightarrow> vitem \<Rightarrow> int option res option" where
  "compute_item_size cat fuel item =
     fuel_bind (Some (mode_is S_ISREG item)) (\<lambda>reg.
     fuel_bind (Some (mode_is S_ISLNK item)) (\<lambda>lnk.
     fuel_bind (Some (mode_is S_ISDIR item)) (\<lambda>dir.
     if reg then
       fuel_bind (Some (item_oid item)) (\<lambda>oid.
       fuel_bind (normal_or_chunked_file_size cat fuel oid) (\<lambda>n. Some (Inr (Some n))))
     else if lnk then
       (case item of
          FakeLink target _ \<Rightarrow> Some (Inr (Some (int (length target))))
        | _ \<Rightarrow> Some (res_bind (item_oid item) (\<lambda>oid. res_bind (readlink_blob cat oid) (\<lambda>t. Inr (Some (int (length t)))))))
     else if dir then Some (Inr None)
     else Some (Inr (Some 0)))))"

definition item_size :: "cat_fn \<Rightarrow> nat \<Rightarrow> vitem \<Rightarrow> int option res option" where
  "item_size cat fuel item =
     (case meta_of item of
        Meta md \<Rightarrow> (case md_size md of Some n \<Rightarrow> Some (Inr (Some n)) | None \<Rightarrow> compute_item_size cat fuel item)
      | Mode _ \<Rightarrow> compute_item_size cat fuel item)"

section \<open>The items of one tree\<close>

text \<open>Name, mangled name, kind, git mode and id of an entry.\<close>

type_synonym tree_row = "bytes \<times> bytes \<times> bup_kind \<times> int \<times> oid"

definition row_of :: "tree_ent \<Rightarrow> tree_row res" where
  "row_of ent = (case ent of (gitmode, mangled_name, oid) \<Rightarrow>
     res_bind (demangle_name mangled_name gitmode) (\<lambda>(name, kind). Inr (name, mangled_name, kind, gitmode, oid)))"

definition ordered_tree_entries :: "tree_ent list \<Rightarrow> bool \<Rightarrow> tree_row list res" where
  "ordered_tree_entries entries bupm =
     res_bind (res_map row_of entries) (\<lambda>tree_ents. Inr (if bupm then sort_key fst tree_ents else tree_ents))"

text \<open>The metadata entries after the directory's own, lost ones as \<open>None\<close>.\<close>

fun read_metas :: "nat \<Rightarrow> bytes \<Rightarrow> metadata option list res" where
  "read_metas 0 s = Inl UndefinedBehaviour"
| "read_metas (Suc fuel) s =
     res_bind (read_meta s) (\<lambda>(m, rest).
     case m of
       Eof \<Rightarrow> Inr []
     | NoInfo \<Rightarrow> res_bind (read_metas fuel rest) (\<lambda>ms. Inr (None # ms))
     | Entry md \<Rightarrow> res_bind (read_metas fuel rest) (\<lambda>ms. Inr (Some md # ms)))"

definition has_meta_ent :: "tree_row \<Rightarrow> bool" where
  "has_meta_ent row = (case row of (name, mangled_name, kind, gitmode, oid) \<Rightarrow> kind = BUP_CHUNKED \<or> \<not> S_ISDIR gitmode)"

definition is_bupm :: "tree_row \<Rightarrow> bool" where
  "is_bupm row = (fst (snd row) = ''.bupm'')"

text \<open>The entries in the order in which they are taken: the code reverses them and pops.\<close>

definition validated_meta_ents :: "tree_row list \<Rightarrow> bytes option \<Rightarrow> bool \<Rightarrow> metadata option list option res" where
  "validated_meta_ents tree_ents bupm repair =
     (case bupm of
        None \<Rightarrow> Inr None
      | Some s \<Rightarrow>
          res_bind (read_metas (length s + 1) s) (\<lambda>meta_entries.
          let exp_meta_n = length (filter (\<lambda>ent. \<not> is_bupm ent \<and> has_meta_ent ent) tree_ents)
          in if exp_meta_n \<noteq> length meta_entries then (if \<not> repair then Inl (SysExit 2) else Inr None)
             else Inr (Some meta_entries)))"

definition read_nondir_meta ::
  "bool \<Rightarrow> int \<Rightarrow> bup_kind \<Rightarrow> int \<Rightarrow> metadata option list option \<Rightarrow> (metadata vfs_meta \<times> metadata option list option) res" where
  "read_nondir_meta bupm gitmode kind default_mode meta_ents =
     (case meta_ents of
        Some [] \<Rightarrow> Inl IndexError
      | Some (m # ms) \<Rightarrow> Inr (case m of None \<Rightarrow> Mode (private_mode default_mode) | Some md \<Rightarrow> Meta md, Some ms)
      | None \<Rightarrow>
          if bupm then res_bind (lost_metadata_for_gitinfo gitmode kind) (\<lambda>md. Inr (Meta md, None))
          else Inr (Mode default_mode, None))"

definition vfs_tree_item ::
  "bool \<Rightarrow> tree_row \<Rightarrow> metadata option list option \<Rightarrow> (vitem \<times> metadata option list option) res" where
  "vfs_tree_item bupm row meta_ents =
     (case row of (name, mangled_name, kind, gitmode, ent_oid) \<Rightarrow>
        if kind = BUP_CHUNKED then
          res_bind (py_assert (S_ISDIR gitmode)) (\<lambda>_.
          res_bind (default_mode_for_gitinfo gitmode kind) (\<lambda>dm.
          res_bind (read_nondir_meta bupm gitmode kind dm meta_ents) (\<lambda>(meta, ms). Inr (Chunky ent_oid meta, ms))))
        else
          res_bind (default_mode_for_gitinfo gitmode kind) (\<lambda>dm.
          if S_ISDIR gitmode then Inr (Item ent_oid (Mode dm), meta_ents)
          else res_bind (read_nondir_meta bupm gitmode kind dm meta_ents) (\<lambda>(meta, ms). Inr (Item ent_oid meta, ms))))"

type_synonym listing = "(bytes \<times> vitem) gen"

definition one :: "'a \<Rightarrow> 'a gen" where "one x = ([x], Some (Inr ()))"
definition nothing :: "'a gen" where "nothing = ([], Some (Inr ()))"

fun all_items :: "bool \<Rightarrow> metadata option list option \<Rightarrow> tree_row list \<Rightarrow> listing" where
  "all_items bupm meta_ents [] = nothing"
| "all_items bupm meta_ents (row # rows) =
     (if is_bupm row then all_items bupm meta_ents rows
      else gen_of (py_assert (fst row \<noteq> ''.'')) (\<lambda>_.
        gen_of (vfs_tree_item bupm row meta_ents) (\<lambda>(item, ms).
        gen_then (one (fst row, item)) (all_items bupm ms rows))))"

text \<open>The entry of a name not asked for is skipped together with its metadata.\<close>

definition skip_meta :: "tree_row \<Rightarrow> metadata option list option \<Rightarrow> metadata option list option res" where
  "skip_meta row meta_ents =
     (if has_meta_ent row then
        (case meta_ents of None \<Rightarrow> Inr None | Some [] \<Rightarrow> Inl IndexError | Some (_ # ms) \<Rightarrow> Inr (Some ms))
      else Inr meta_ents)"

fun named_items ::
  "bytes list \<Rightarrow> bytes \<Rightarrow> bool \<Rightarrow> nat \<Rightarrow> metadata option list option \<Rightarrow> tree_row list \<Rightarrow> listing" where
  "named_items names last_name bupm remaining meta_ents [] = nothing"
| "named_items names last_name bupm remaining meta_ents (row # rows) =
     (if is_bupm row then named_items names last_name bupm remaining meta_ents rows
      else gen_of (py_assert (fst row \<noteq> ''.'')) (\<lambda>_.
        if fst row \<notin> set names then
          (if last_name < fst row then nothing
           else gen_of (skip_meta row meta_ents) (\<lambda>ms. named_items names last_name bupm remaining ms rows))
        else
          gen_of (vfs_tree_item bupm row meta_ents) (\<lambda>(item, ms).
          gen_then (one (fst row, item))
            (if remaining = 1 then nothing else named_items names last_name bupm (remaining - 1) ms rows))))"

text \<open>\<open>names\<close> is the set of the names asked for, without repetitions; none means all.\<close>

definition tree_items_except_dot ::
  "oid \<Rightarrow> tree_ent list \<Rightarrow> bytes list \<Rightarrow> bytes option \<Rightarrow> bool \<Rightarrow> listing" where
  "tree_items_except_dot oid entries names bupm repair =
     gen_of (ordered_tree_entries entries (bupm \<noteq> None)) (\<lambda>tree_ents.
     gen_of (validated_meta_ents tree_ents bupm repair) (\<lambda>meta_ents.
     gen_of (py_assert (length oid = 20)) (\<lambda>_.
     if names = [] then all_items (bupm \<noteq> None) meta_ents tree_ents
     else if ''.'' \<in> set names \<and> length names = 1 then nothing
     else
       let remaining = (if ''.'' \<in> set names then length names - 1 else length names);
           last_name = (if bupm \<noteq> None then Max (set names) else Max (set names) @ ''/'')
       in named_items names last_name (bupm \<noteq> None) remaining meta_ents tree_ents)))"

section \<open>Split trees\<close>

definition get_tree_object :: "cat_fn \<Rightarrow> oid \<Rightarrow> bytes res" where
  "get_tree_object cat oid =
     res_bind (object_at cat (hexlify oid)) (\<lambda>(kind, data).
     res_bind (py_assert (kind = ''tree'')) (\<lambda>_. Inr data))"

definition fuel_gen :: "'b res option \<Rightarrow> ('b \<Rightarrow> 'a gen) \<Rightarrow> 'a gen" where
  "fuel_gen m f = (case m of None \<Rightarrow> ([], None) | Some r \<Rightarrow> gen_of r f)"

definition leaf_items :: "cat_fn \<Rightarrow> nat \<Rightarrow> oid \<Rightarrow> tree_ent list \<Rightarrow> bytes list \<Rightarrow> bool \<Rightarrow> listing" where
  "leaf_items cat fuel oid entries names want_meta =
     (case (if want_meta then find_bupm_oid entries else None) of
        None \<Rightarrow> tree_items_except_dot oid entries names None False
      | Some bupm_oid \<Rightarrow>
          if bupm_oid = [] then tree_items_except_dot oid entries names None False
          else
            fuel_gen (file_bytes cat fuel bupm_oid) (\<lambda>bupm.
            gen_of (read_meta bupm) (\<lambda>(m, rest).
            gen_of (if m = Eof then Inl EOFError else Inr ()) (\<lambda>_.
            tree_items_except_dot oid entries names (Some rest) False))))"

fun split_subtree_items ::
  "cat_fn \<Rightarrow> nat \<Rightarrow> nat \<Rightarrow> oid \<Rightarrow> tree_ent list \<Rightarrow> bytes list \<Rightarrow> bool \<Rightarrow> bool \<Rightarrow> listing" where
  "split_subtree_items cat fuel 0 oid entries names want_meta root =
     gen_of (py_assert (length oid = 20)) (\<lambda>_. leaf_items cat fuel oid entries names want_meta)"
| "split_subtree_items cat fuel (Suc n) oid entries names want_meta root =
     gen_of (py_assert (length oid = 20)) (\<lambda>_.
     gen_each (\<lambda>(mode, name, sub_oid).
       if root \<and> name = ''.bupm'' then nothing
       else
         gen_of (py_assert (suffix (''.'' @ show_int (int (Suc n)) @ ''.bupd'') name)) (\<lambda>_.
         gen_of (get_tree_object cat sub_oid) (\<lambda>data.
         gen_of (tree_entries data) (\<lambda>sub_entries.
         split_subtree_items cat fuel n sub_oid sub_entries names want_meta False)))) entries)"

text \<open>\<open>.*\.([0-9]+)\.bupd\<close>: what is before the digits holds no line end.\<close>

definition parse_tree_depth :: "bytes \<Rightarrow> nat res" where
  "parse_tree_depth mangled_name =
     (let body = take (length mangled_name - 5) mangled_name;
          digits = rev (takeWhile (\<lambda>c. c \<noteq> CHR ''.'') (rev body));
          before = take (length body - length digits - 1) body
      in if \<not> suffix ''.bupd'' mangled_name \<or> digits = [] \<or> \<not> list_all is_dec digits \<or> CHR ''.'' \<notin> set body
            \<or> CHR 0x0a \<in> set before
         then Inl (Exc ''Could not parse split tree depth'')
         else res_bind (py_int 10 digits) (\<lambda>depth. res_bind (py_assert (0 < depth)) (\<lambda>_. Inr (nat depth))))"

text \<open>
  The look at the first entries: the depth of the tree, and the id of its \<open>.bupm\<close>.
  \<open>known\<close> is \<open>split_or_not_known\<close>.
\<close>

fun scan_head :: "bool \<Rightarrow> tree_ent list \<Rightarrow> nat option \<Rightarrow> oid option \<Rightarrow> bool \<Rightarrow> (nat option \<times> oid option) res" where
  "scan_head dot_requested [] depth bupm_oid known = Inr (depth, bupm_oid)"
| "scan_head dot_requested ((mode, mangled_name, sub_oid) # entries) depth bupm_oid known =
     (if suffix ''.bupd'' mangled_name then
        res_bind (parse_tree_depth mangled_name) (\<lambda>d.
        if \<not> dot_requested then Inr (Some d, bupm_oid)
        else if ''.bupm'' < mangled_name then Inr (Some d, bupm_oid)
        else scan_head dot_requested entries (Some d) bupm_oid True)
      else if mangled_name = ''.bupm'' then
        (if known \<or> depth \<noteq> None then Inr (depth, Some sub_oid)
         else scan_head dot_requested entries depth (Some sub_oid) known)
      else if ''.bupm'' < mangled_name then Inr (depth, bupm_oid)
      else scan_head dot_requested entries depth bupm_oid True)"

definition tree_items ::
  "cat_fn \<Rightarrow> nat \<Rightarrow> oid \<Rightarrow> bytes \<Rightarrow> bytes list \<Rightarrow> bool \<Rightarrow> bool \<Rightarrow> listing" where
  "tree_items cat fuel oid tree_data names0 want_meta repair =
     gen_of (py_assert (length oid = 20)) (\<lambda>_.
     let names = remdups names0; dot_requested = (names = [] \<or> ''.'' \<in> set names) in
     gen_of (tree_entries tree_data) (\<lambda>entries.
     gen_of (scan_head dot_requested entries None None False) (\<lambda>(depth, bupm_oid).
     case (if want_meta \<and> bupm_oid \<noteq> Some [] then bupm_oid else None) of
       Some bupm_oid \<Rightarrow>
         (case depth of
            None \<Rightarrow>
              fuel_gen (file_bytes cat fuel bupm_oid) (\<lambda>bupm.
              if \<not> dot_requested then
                gen_of (read_meta bupm) (\<lambda>(m, rest).
                gen_of (if m = Eof then Inl EOFError else Inr ()) (\<lambda>_.
                tree_items_except_dot oid entries names (Some rest) repair))
              else
                gen_of (read_dir_meta bupm) (\<lambda>(meta, rest).
                gen_then (one (''.'', Item oid meta)) (tree_items_except_dot oid entries names (Some rest) repair)))
          | Some d \<Rightarrow>
              gen_then
                (if dot_requested then
                   fuel_gen (file_bytes cat fuel bupm_oid) (\<lambda>bupm.
                   gen_of (read_dir_meta bupm) (\<lambda>(meta, rest). one (''.'', Item oid meta)))
                 else nothing)
                (split_subtree_items cat fuel d oid entries names True True))
     | None \<Rightarrow>
         gen_then (if dot_requested then one (''.'', Item oid (Mode default_dir_mode)) else nothing)
           (case depth of
              None \<Rightarrow> tree_items_except_dot oid entries names None repair
            | Some d \<Rightarrow> split_subtree_items cat fuel d oid entries names False True))))"

end
