(* ===== verification/Vfs_Tree_Laws.thy ===== *)
theory Vfs_Tree_Laws
  imports Vfs_Tree
begin

text \<open>
  Asking a tree for some names only: the listing stops as soon as it can, and this is the full
  listing restricted to the names when the tree has metadata, or when one name is asked for.
\<close>

section \<open>Early exits\<close>

lemma gen_then_ok: "gen_then g h = (xs, Some (Inr ())) \<longleftrightarrow>
    (\<exists>ys zs. g = (ys, Some (Inr ())) \<and> h = (zs, Some (Inr ())) \<and> xs = ys @ zs)"
  by (cases g; cases h) (auto simp: gen_then_def)

lemma gen_of_ok: "gen_of r f = (xs, Some (Inr ())) \<longleftrightarrow> (\<exists>x. r = Inr x \<and> f x = (xs, Some (Inr ())))"
  by (cases r) auto

lemma skip_meta_tree_item:
  "vfs_tree_item bupm row ms = Inr (item, ms') \<Longrightarrow> skip_meta row ms = Inr ms'"
  by (cases row)
    (auto simp: vfs_tree_item_def skip_meta_def has_meta_ent_def read_nondir_meta_def res_simps split: if_splits option.splits list.splits)

definition wanted_rows :: "bytes list \<Rightarrow> tree_row list \<Rightarrow> tree_row list" where
  "wanted_rows names rows = filter (\<lambda>r. \<not> is_bupm r \<and> fst r \<in> set names) rows"

text \<open>Past a name beyond the last one no name asked for comes.\<close>

fun stops_late :: "bytes list \<Rightarrow> bytes \<Rightarrow> tree_row list \<Rightarrow> bool" where
  "stops_late names last_name [] = True"
| "stops_late names last_name (row # rows) =
     ((\<not> is_bupm row \<and> last_name < fst row \<longrightarrow> wanted_rows names rows = []) \<and> stops_late names last_name rows)"

lemma all_items_names:
  "all_items bupm ms rows = (its, Some (Inr ())) \<Longrightarrow> map fst its = map fst (filter (\<lambda>r. \<not> is_bupm r) rows)"
proof (induction rows arbitrary: ms its)
  case Nil
  then show ?case by (simp add: nothing_def)
next
  case (Cons row rows)
  show ?case
  proof (cases "is_bupm row")
    case True
    then show ?thesis using Cons by simp
  next
    case False
    then obtain item ms' zs where "all_items bupm ms' rows = (zs, Some (Inr ()))" "its = (fst row, item) # zs"
      using Cons.prems by (auto simp: gen_of_ok gen_then_ok one_def)
    then show ?thesis using Cons.IH [of ms' zs] False by simp
  qed
qed

lemma none_wanted:
  assumes "all_items bupm ms rows = (its, Some (Inr ()))" "wanted_rows names rows = []"
  shows "filter (\<lambda>x. fst x \<in> set names) its = []"
proof -
  have "n \<notin> set names" if "n \<in> set (map fst its)" for n
    using that assms(2) by (auto simp: all_items_names [OF assms(1)] wanted_rows_def filter_empty_conv)
  then show ?thesis by (auto simp: filter_empty_conv)
qed

lemma named_items_filter:
  assumes "all_items bupm ms rows = (its, Some (Inr ()))" "stops_late names last_name rows"
    and "length (wanted_rows names rows) \<le> remaining" "0 < remaining"
  shows "named_items names last_name bupm remaining ms rows = (filter (\<lambda>x. fst x \<in> set names) its, Some (Inr ()))"
  using assms
proof (induction rows arbitrary: ms its remaining)
  case Nil
  then show ?case by (simp add: nothing_def)
next
  case (Cons row rows)
  show ?case
  proof (cases "is_bupm row")
    case True
    then show ?thesis using Cons by (simp add: wanted_rows_def)
  next
    case False
    then obtain item ms' zs where t: "fst row \<noteq> ''.''" "vfs_tree_item bupm row ms = Inr (item, ms')"
      "all_items bupm ms' rows = (zs, Some (Inr ()))" "its = (fst row, item) # zs"
      using Cons.prems(1) by (auto simp: gen_of_ok gen_then_ok one_def)
    show ?thesis
    proof (cases "fst row \<in> set names")
      case True
      then have l: "length (wanted_rows names rows) \<le> remaining - 1"
        using False Cons.prems(3) by (simp add: wanted_rows_def)
      show ?thesis
      proof (cases "remaining = 1")
        case True
        then have "filter (\<lambda>x. fst x \<in> set names) zs = []" using none_wanted [OF t(3)] l by simp
        then show ?thesis
          using False t \<open>fst row \<in> set names\<close> True by (simp add: gen_then_def one_def nothing_def)
      next
        case r: False
        then have "named_items names last_name bupm (remaining - 1) ms' rows = (filter (\<lambda>x. fst x \<in> set names) zs, Some (Inr ()))"
          using Cons.IH [OF t(3) _ l] Cons.prems(2,4) by simp
        then show ?thesis
          using False t r True by (simp add: gen_then_def one_def)
      qed
    next
      case n: False
      show ?thesis
      proof (cases "last_name < fst row")
        case True
        then have "filter (\<lambda>x. fst x \<in> set names) zs = []"
          using none_wanted [OF t(3)] Cons.prems(2) False by simp
        then show ?thesis using False n t True by (simp add: nothing_def)
      next
        case l: False
        then have "named_items names last_name bupm remaining ms' rows = (filter (\<lambda>x. fst x \<in> set names) zs, Some (Inr ()))"
          using Cons.IH [OF t(3)] Cons.prems(2,3,4) n by (simp add: wanted_rows_def)
        then show ?thesis using False n t l skip_meta_tree_item [OF t(2)] by simp
      qed
    qed
  qed
qed

section \<open>The order of the entries\<close>

text \<open>The mangled name of an entry is its name, perhaps with one of three suffixes.\<close>

lemma demangled_prefix:
  assumes "demangle_name mangled mode = Inr (name, kind)"
  shows "\<exists>suf\<in>{[], ''.bup'', ''.bupl'', ''.bupm''}. mangled = name @ suf"
  using assms by (auto simp: demangle_name_def suffix_def split: if_splits)

lemma row_key_bounds:
  assumes "row_of ent = Inr row"
  shows "fst row \<le> shalist_item_sort_key ent" "shalist_item_sort_key ent \<le> fst row @ ''/''"
proof -
  obtain gitmode mangled oid where ent: "ent = (gitmode, mangled, oid)" by (cases ent)
  then obtain name kind where d: "demangle_name mangled gitmode = Inr (name, kind)" "row = (name, mangled, kind, gitmode, oid)"
    using assms by (auto simp: row_of_def res_simps)
  obtain suf where s: "suf \<in> {[], ''.bup'', ''.bupl'', ''.bupm''}" "mangled = name @ suf"
    using demangled_prefix [OF d(1)] by blast
  then have k: "shalist_item_sort_key ent = name @ suf @ (if S_ISDIR gitmode then ''/'' else [])"
    by (simp add: ent shalist_item_sort_key_def)
  show "fst row \<le> shalist_item_sort_key ent" using k d(2) prefix_order_le by simp
  have "name @ xs \<le> name @ ys \<longleftrightarrow> xs \<le> ys" for xs ys by (induction name) auto
  moreover have "suf @ (if S_ISDIR gitmode then ''/'' else []) \<le> ''/''" using s(1) by (auto simp: less_char_def)
  ultimately show "shalist_item_sort_key ent \<le> fst row @ ''/''" using k d(2) by simp
qed

text \<open>The last name is far enough: whatever is beyond it is beyond each name asked for, with a slash.\<close>

definition covers_names :: "bytes list \<Rightarrow> bytes \<Rightarrow> bool" where
  "covers_names names last_name \<longleftrightarrow> (\<forall>n\<in>set names. \<forall>m. last_name < m \<longrightarrow> m \<noteq> [] \<longrightarrow> n @ ''/'' < m)"

lemma res_map_source: "res_map f xs = Inr ys \<Longrightarrow> y \<in> set ys \<Longrightarrow> \<exists>x\<in>set xs. f x = Inr y"
  by (induction xs arbitrary: ys) (auto simp: res_simps)

lemma git_order_stops_late:
  assumes "sorted (map shalist_item_sort_key entries)" "res_map row_of entries = Inr rows"
    and "\<And>n m. n \<in> set names \<Longrightarrow> n \<noteq> ''.'' \<Longrightarrow> last_name < m \<Longrightarrow> n @ ''/'' < m"
    and "\<forall>r\<in>set rows. \<not> is_bupm r \<longrightarrow> fst r \<noteq> ''.''"
  shows "stops_late names last_name rows"
  using assms(1,2,4)
proof (induction entries arbitrary: rows)
  case Nil
  then show ?case by simp
next
  case (Cons e es)
  obtain row rs where r: "row_of e = Inr row" "res_map row_of es = Inr rs" "rows = row # rs"
    using Cons.prems(2) by (auto simp: res_simps)
  have "wanted_rows names rs = []" if l: "last_name < fst row"
  proof -
    have "fst r \<notin> set names" if rr: "r \<in> set rs" "\<not> is_bupm r" for r
    proof
      assume n: "fst r \<in> set names"
      obtain e' where e': "e' \<in> set es" "row_of e' = Inr r"
        using res_map_source [OF r(2) rr(1)] by blast
      have "fst r \<noteq> ''.''" using Cons.prems(3) rr r(3) by auto
      have "shalist_item_sort_key e \<le> shalist_item_sort_key e'" using Cons.prems(1) e'(1) by simp
      also have "\<dots> \<le> fst r @ ''/''" using row_key_bounds(2) [OF e'(2)] .
      also have "\<dots> < fst row" using assms(3) [OF n \<open>fst r \<noteq> ''.''\<close> l] .
      also have "\<dots> \<le> shalist_item_sort_key e" using row_key_bounds(1) [OF r(1)] .
      finally show False by simp
    qed
    then show ?thesis by (auto simp: wanted_rows_def filter_empty_conv)
  qed
  then show ?case using Cons.IH [OF _ r(2)] Cons.prems r(3) by simp
qed

lemma sorted_stops_late:
  assumes "sorted (map fst rows)" "names \<noteq> []"
  shows "stops_late names (Max (set names)) rows"
  using assms(1)
proof (induction rows)
  case Nil
  then show ?case by simp
next
  case (Cons row rows)
  have "wanted_rows names rows = []" if "Max (set names) < fst row"
  proof -
    have "fst r \<notin> set names" if "r \<in> set rows" for r
    proof
      assume "fst r \<in> set names"
      then have "fst r \<le> Max (set names)" by simp
      moreover have "fst row \<le> fst r" using Cons.prems that by simp
      ultimately show False using \<open>Max (set names) < fst row\<close> by simp
    qed
    then show ?thesis by (auto simp: wanted_rows_def filter_empty_conv)
  qed
  then show ?case using Cons by simp
qed

section \<open>Listing\<close>

lemma all_items_no_dot:
  "all_items bupm ms rows = (its, Some (Inr ())) \<Longrightarrow> \<forall>r\<in>set rows. \<not> is_bupm r \<longrightarrow> fst r \<noteq> ''.''"
proof (induction rows arbitrary: ms its)
  case Nil
  then show ?case by simp
next
  case (Cons row rows)
  show ?case
  proof (cases "is_bupm row")
    case True
    then show ?thesis using Cons by simp
  next
    case False
    then obtain ms' zs where "fst row \<noteq> ''.''" "all_items bupm ms' rows = (zs, Some (Inr ()))"
      using Cons.prems by (auto simp: gen_of_ok gen_then_ok one_def)
    then show ?thesis using Cons.IH by auto
  qed
qed

text \<open>Names that occur once give at most as many rows as there are names other than the dot.\<close>

lemma wanted_rows_few:
  assumes "distinct (map fst (filter (\<lambda>r. \<not> is_bupm r) rows))" "\<forall>r\<in>set rows. \<not> is_bupm r \<longrightarrow> fst r \<noteq> ''.''"
    and "distinct names"
  shows "length (wanted_rows names rows) \<le> (if ''.'' \<in> set names then length names - 1 else length names)"
proof -
  let ?w = "map fst (wanted_rows names rows)"
  have "wanted_rows names rows = filter (\<lambda>r. fst r \<in> set names) (filter (\<lambda>r. \<not> is_bupm r) rows)"
    by (simp add: wanted_rows_def conj_commute)
  then have d: "distinct ?w" using distinct_map_filter [OF assms(1)] by (simp only:)
  have "set ?w \<subseteq> set names - {''.''}" using assms(2) by (auto simp: wanted_rows_def)
  then have "card (set ?w) \<le> card (set names - {''.''})" by (intro card_mono) auto
  moreover have "card (set ?w) = length (wanted_rows names rows)" using distinct_card [OF d] by simp
  moreover have "card (set names) = length names" using assms(3) by (rule distinct_card)
  ultimately show ?thesis by (simp only: card_Diff_singleton_if)
qed

text \<open>The names asked for when there is no metadata: one, perhaps beside the dot.\<close>

definition one_name :: "bytes list \<Rightarrow> bool" where
  "one_name names \<longleftrightarrow> (\<exists>n. n \<noteq> [] \<and> set names \<subseteq> {''.'', n})"

lemma one_name_beyond:
  assumes "one_name names" "n \<in> set names" "n \<noteq> ''.''" "Max (set names) @ ''/'' < m"
  shows "n @ ''/'' < m"
proof -
  obtain k where k: "k \<noteq> []" "set names \<subseteq> {''.'', k}" using assms(1) by (auto simp: one_name_def)
  then have "n = k" using assms(2,3) by auto
  have "finite (set names)" "set names \<noteq> {}" using assms(2) by auto
  then have "Max (set names) \<in> set names" by (rule Max_in)
  then consider "Max (set names) = n" | "Max (set names) = ''.''" using k(2) \<open>n = k\<close> by auto
  then show ?thesis
  proof cases
    case 1
    then show ?thesis using assms(4) by simp
  next
    case 2
    then have "n \<le> ''.''" using assms(2) by (metis Max_ge List.finite_set)
    then have "n < ''.''" using assms(3) by simp
    then have "n @ ''/'' < ''./''" using k(1) \<open>n = k\<close> by (cases n) (auto simp: less_char_def)
    then show ?thesis using assms(4) 2 by simp
  qed
qed

lemma named_listing_filters_aux:
  assumes "tree_items_except_dot oid entries [] bupm repair = (its, Some (Inr ()))"
    and "distinct names" "names \<noteq> []"
    and "distinct (map fst its)"
    and "bupm = None \<Longrightarrow> sorted (map shalist_item_sort_key entries) \<and> one_name names"
  shows "tree_items_except_dot oid entries names bupm repair = (filter (\<lambda>x. fst x \<in> set names) its, Some (Inr ()))"
proof -
  obtain rows ms where r: "ordered_tree_entries entries (bupm \<noteq> None) = Inr rows"
    "validated_meta_ents rows bupm repair = Inr ms" "length oid = 20" "all_items (bupm \<noteq> None) ms rows = (its, Some (Inr ()))"
    using assms(1) by (auto simp: tree_items_except_dot_def gen_of_ok)
  have dot: "\<forall>r\<in>set rows. \<not> is_bupm r \<longrightarrow> fst r \<noteq> ''.''" using all_items_no_dot [OF r(4)] .
  have few: "length (wanted_rows names rows) \<le> (if ''.'' \<in> set names then length names - 1 else length names)"
    using wanted_rows_few [OF _ dot assms(2)] assms(4) all_items_names [OF r(4)] by simp
  show ?thesis
  proof (cases "''.'' \<in> set names \<and> length names = 1")
    case True
    then have "wanted_rows names rows = []" using few by simp
    then have "filter (\<lambda>x. fst x \<in> set names) its = []" by (rule none_wanted [OF r(4)])
    then show ?thesis using r True assms(3) by (simp add: tree_items_except_dot_def nothing_def)
  next
    case False
    let ?last = "if bupm \<noteq> None then Max (set names) else Max (set names) @ ''/''"
    let ?n = "if ''.'' \<in> set names then length names - 1 else length names"
    have pos: "0 < ?n" using False assms(3) by (cases names) auto
    have "stops_late names ?last rows"
    proof (cases "bupm = None")
      case True
      then show ?thesis
        using git_order_stops_late [of entries rows names "Max (set names) @ ''/''"] one_name_beyond [of names] assms(5) dot r(1)
        by (simp add: ordered_tree_entries_def res_simps)
    next
      case b: False
      then have "sorted (map fst rows)" using r(1) by (auto simp: ordered_tree_entries_def res_simps)
      then show ?thesis using sorted_stops_late assms(3) b by simp
    qed
    then have "named_items names ?last (bupm \<noteq> None) ?n ms rows = (filter (\<lambda>x. fst x \<in> set names) its, Some (Inr ()))"
      by (rule named_items_filter [OF r(4) _ few pos])
    then show ?thesis using r(1,2,3) False assms(3)
      by (simp only: tree_items_except_dot_def Let_def gen_of_Inr py_assert_simps if_False simp_thms)
  qed
qed

section \<open>Properties\<close>


text \<open>A directory without metadata: two files and a directory whose name is a part of theirs.\<close>

definition dots_w :: "tree_ent list" where
  "dots_w = [(GIT_MODE_FILE, ''foo.x'', oid_of CHR ''x''), (GIT_MODE_FILE, ''foo.y'', oid_of CHR ''y''),
     (GIT_MODE_TREE, ''foo'', oid_of CHR ''d'')]"

lemma dots_w_listing:
  "tree_items_except_dot (oid_of CHR ''T'') dots_w [] None False =
     ([(''foo.x'', Item (oid_of CHR ''x'') (Mode default_file_mode)), (''foo.y'', Item (oid_of CHR ''y'') (Mode default_file_mode)),
       (''foo'', Item (oid_of CHR ''d'') (Mode default_dir_mode))], Some (Inr ()))"
  "sorted (map shalist_item_sort_key dots_w)"
  by code_simp+


text \<open>with several names and no metadata the loop stops too early: \<open>foo.y\<close> is past \<open>foo.x/\<close>, so the
  directory \<open>foo\<close>, which git puts after both, is never reached.\<close>

theorem directory_missed_without_metadata:
  "tree_items_except_dot (oid_of CHR ''T'') dots_w [''foo'', ''foo.x''] None False =
     ([(''foo.x'', Item (oid_of CHR ''x'') (Mode default_file_mode))], Some (Inr ()))"
  by code_simp

text \<open>when a part of a split tree sorts before \<open>.bupm\<close> and the dot is not asked for, the scan stops before
  it has seen that there is metadata, which is then not read from the leaves either.\<close>

theorem split_metadata_unseen:
  "scan_head False [(GIT_MODE_TREE, ''-a..1.bupd'', d), (GIT_MODE_FILE, ''.bupm'', m)] None None False = Inr (Some 1, None) \<and>
   scan_head True [(GIT_MODE_TREE, ''-a..1.bupd'', d), (GIT_MODE_FILE, ''.bupm'', m)] None None False = Inr (Some 1, Some m)"
proof -
  have "parse_tree_depth ''-a..1.bupd'' = Inr 1" "suffix ''.bupd'' ''-a..1.bupd''" "\<not> suffix ''.bupd'' ''.bupm''"
    "\<not> ''.bupm'' < (''-a..1.bupd'' :: bytes)" by code_simp+
  then show ?thesis by simp
qed

text \<open>the names of the parts of a split tree are made from file names, which may hold a line end; the
  pattern that finds the depth in them does not, so such a directory cannot be listed.\<close>

theorem line_end_hides_depth:
  "parse_tree_depth (''a'' @ CHR 0x0a # ''b..1.bupd'') = Inl (Exc ''Could not parse split tree depth'') \<and>
   parse_tree_depth ''ab..1.bupd'' = Inr 1"
  by code_simp

end
