(* ===== verification/Vfs_Cache.thy ===== *)
theory Vfs_Cache
  imports Vfs_Tree "HOL-Library.AList"
begin

text \<open>
  The cache of \<open>lib/bup/vfs.py\<close>: a dictionary with its keys in a list, from which a random one makes
  room.  What \<open>randrange\<close> will answer is a part of the state, \<open>vc_rand\<close>.
\<close>

section \<open>The cache\<close>

text \<open>A resolution, a commit, or a branch's names with their items and whether its dot has metadata.\<close>

datatype cache_value =
    Resolved "metadata resolution"
  | Cached_Item vitem
  | Revs "(bytes \<times> vitem) list" bool

record vfs_cache =
  vc_map :: "(bytes \<times> cache_value) list"
  vc_keys :: "bytes list"
  vc_rand :: "nat \<Rightarrow> nat"

definition cache_max_items :: nat where "cache_max_items = 30000"

definition clear_cache :: "vfs_cache \<Rightarrow> vfs_cache" where
  "clear_cache vc = vc\<lparr>vc_map := [], vc_keys := []\<rparr>"

definition is_valid_cache_key :: "bytes \<Rightarrow> bool" where
  "is_valid_cache_key x =
     (let tag = take 4 x
      in (tag \<in> {''itm:'', ''rvl:''} \<and> length x = 24) \<or> tag = ''res:'')"

definition cache_get :: "bytes \<Rightarrow> vfs_cache \<Rightarrow> cache_value option res" where
  "cache_get key vc =
     (if \<not> is_valid_cache_key key then Inl (Exc ''invalid cache key'') else Inr (map_of (vc_map vc) key))"

definition cache_notice :: "bytes \<Rightarrow> cache_value \<Rightarrow> bool \<Rightarrow> vfs_cache \<Rightarrow> vfs_cache res" where
  "cache_notice key value overwrite vc =
     (if \<not> is_valid_cache_key key then Inl (Exc ''invalid cache key'')
      else if map_of (vc_map vc) key \<noteq> None then
        Inr (if overwrite then vc\<lparr>vc_map := AList.update key value (vc_map vc)\<rparr> else vc)
      else if length (vc_map vc) < cache_max_items then
        Inr (vc\<lparr>vc_keys := vc_keys vc @ [key], vc_map := AList.update key value (vc_map vc)\<rparr>)
      else if vc_keys vc = [] then Inl ValueError
      else
        let victim_i = vc_rand vc 0 mod length (vc_keys vc);
            victim = vc_keys vc ! victim_i
        in if map_of (vc_map vc) victim = None then Inl KeyError
           else Inr (vc\<lparr>vc_map := AList.update key value (AList.delete victim (vc_map vc)),
                        vc_keys := (vc_keys vc)[victim_i := key],
                        vc_rand := (\<lambda>k. vc_rand vc (Suc k))\<rparr>))"

section \<open>Commits\<close>

definition has_metadata_if_needed :: "vitem \<Rightarrow> bool \<Rightarrow> bool" where
  "has_metadata_if_needed item need_meta = (\<not> need_meta \<or> has_metadata item)"

text \<open>The dot of a branch stands in for a commit whose own entry is gone.\<close>

definition cache_get_commit_item :: "oid \<Rightarrow> bool \<Rightarrow> vfs_cache \<Rightarrow> vitem option res" where
  "cache_get_commit_item oid need_meta vc =
     res_bind (cache_get (''itm:'' @ oid) vc) (\<lambda>item.
     case item of
       Some (Cached_Item it) \<Rightarrow>
         if has_metadata_if_needed it need_meta then Inr (Some it)
         else
           res_bind (cache_get (''rvl:'' @ oid) vc) (\<lambda>entries.
           case entries of
             Some (Revs es _) \<Rightarrow>
               (case map_of es ''.'' of
                  None \<Rightarrow> Inl KeyError
                | Some it \<Rightarrow> Inr (if has_metadata_if_needed it need_meta then Some it else None))
           | _ \<Rightarrow> Inr None)
     | _ \<Rightarrow>
         res_bind (cache_get (''rvl:'' @ oid) vc) (\<lambda>entries.
         case entries of
           Some (Revs es _) \<Rightarrow>
             (case map_of es ''.'' of
                None \<Rightarrow> Inl KeyError
              | Some it \<Rightarrow> Inr (if has_metadata_if_needed it need_meta then Some it else None))
         | _ \<Rightarrow> Inr None))"

section \<open>The invariant\<close>

text \<open>The list of keys is the set of keys of the dictionary, each once, and there are not too many.\<close>

definition vfs_cache_ok :: "vfs_cache \<Rightarrow> bool" where
  "vfs_cache_ok vc \<longleftrightarrow> distinct (map fst (vc_map vc)) \<and> distinct (vc_keys vc) \<and> set (vc_keys vc) = fst ` set (vc_map vc) \<and>
     length (vc_keys vc) \<le> cache_max_items \<and> (\<forall>k\<in>set (vc_keys vc). is_valid_cache_key k)"

lemma vfs_cache_ok_length: "vfs_cache_ok vc \<Longrightarrow> length (vc_map vc) = length (vc_keys vc)"
  by (metis vfs_cache_ok_def distinct_card length_map set_map)

lemma vfs_cache_ok_empty: "vfs_cache_ok (clear_cache vc)"
  by (simp add: vfs_cache_ok_def clear_cache_def)

lemma update_alist: "distinct (map fst al) \<Longrightarrow> distinct (map fst (AList.update k v al)) \<and>
    fst ` set (AList.update k v al) = insert k (fst ` set al)"
  by (simp add: distinct_update dom_update)

text \<open>
  Noticing a valid key never fails; afterwards the key's value is the new one, or the old one that was
  not to be overwritten.
\<close>

lemma cache_notice_ok_aux:
  assumes "vfs_cache_ok vc" "is_valid_cache_key key"
  shows "\<exists>vc'. cache_notice key value overwrite vc = Inr vc' \<and> vfs_cache_ok vc' \<and>
    cache_get key vc' = Inr (if overwrite then Some value else case map_of (vc_map vc) key of None \<Rightarrow> Some value | old \<Rightarrow> old)"
proof -
  have len: "length (vc_map vc) = length (vc_keys vc)" using vfs_cache_ok_length [OF assms(1)] .
  have ok: "distinct (map fst (vc_map vc))" "distinct (vc_keys vc)" "set (vc_keys vc) = fst ` set (vc_map vc)"
    "length (vc_keys vc) \<le> cache_max_items" "\<forall>k\<in>set (vc_keys vc). is_valid_cache_key k"
    using assms(1) by (simp_all add: vfs_cache_ok_def)
  consider (there) old where "map_of (vc_map vc) key = Some old"
    | (room) "map_of (vc_map vc) key = None" "length (vc_map vc) < cache_max_items"
    | (full) "map_of (vc_map vc) key = None" "\<not> length (vc_map vc) < cache_max_items" by fastforce
  then show ?thesis
  proof cases
    case there
    then have k: "key \<in> fst ` set (vc_map vc)" by (metis map_of_eq_None_iff option.distinct(1))
    have "vfs_cache_ok (vc\<lparr>vc_map := AList.update key value (vc_map vc)\<rparr>)"
      using ok update_alist [OF ok(1)] k by (simp add: vfs_cache_ok_def insert_absorb)
    then show ?thesis
      using there assms by (simp add: cache_notice_def cache_get_def update_conv')
  next
    case room
    then have k: "key \<notin> fst ` set (vc_map vc)" by (simp add: map_of_eq_None_iff)
    have "vfs_cache_ok (vc\<lparr>vc_keys := vc_keys vc @ [key], vc_map := AList.update key value (vc_map vc)\<rparr>)"
      using ok update_alist [OF ok(1)] k room(2) len assms(2) by (auto simp: vfs_cache_ok_def)
    then show ?thesis
      using room assms(2) by (simp add: cache_notice_def cache_get_def update_conv')
  next
    case full
    then have k: "key \<notin> set (vc_keys vc)" using ok(3) by (simp add: map_of_eq_None_iff)
    have ne: "vc_keys vc \<noteq> []" using full(2) len by (auto simp: cache_max_items_def)
    define i where "i = vc_rand vc 0 mod length (vc_keys vc)"
    have i: "i < length (vc_keys vc)" using ne by (simp add: i_def)
    define victim where "victim = vc_keys vc ! i"
    have v: "map_of (vc_map vc) victim \<noteq> None"
      using i ok(3) by (simp add: victim_def map_of_eq_None_iff) (metis imageI image_iff nth_mem)
    define al where "al = AList.delete victim (vc_map vc)"
    have al: "distinct (map fst al)" "fst ` set al = set (vc_keys vc) - {victim}"
      using ok(1,3) by (simp_all add: al_def distinct_delete delete_keys distinct_removeAll flip: set_map)
    have "set ((vc_keys vc)[i := key]) = insert key (set (vc_keys vc) - {victim})"
      using i ok(2) by (simp add: set_update_distinct victim_def)
    moreover have "distinct ((vc_keys vc)[i := key])" using ok(2) k by (simp add: distinct_list_update)
    ultimately have "vfs_cache_ok (vc\<lparr>vc_map := AList.update key value al, vc_keys := (vc_keys vc)[i := key],
        vc_rand := (\<lambda>k. vc_rand vc (Suc k))\<rparr>)"
      using update_alist [OF al(1)] al(2) ok(4,5) assms(2) by (auto simp: vfs_cache_ok_def)
    then show ?thesis
      using full ne v assms(2)
      by (simp add: cache_notice_def cache_get_def update_conv' Let_def flip: i_def victim_def al_def)
  qed
qed

fun notice_all :: "(bytes \<times> cache_value \<times> bool) list \<Rightarrow> vfs_cache \<Rightarrow> vfs_cache res" where
  "notice_all [] vc = Inr vc"
| "notice_all ((key, value, overwrite) # ns) vc = res_bind (cache_notice key value overwrite vc) (notice_all ns)"

section \<open>Properties\<close>

text \<open>C24: the cache keeps its bound and its two halves together: from an empty cache on, noticing any
  values under valid keys never fails, whatever \<open>randrange\<close> picks; there are never more than 30000
  entries, and the list of keys holds exactly the keys of the dictionary, each once.\<close>

theorem cache_stays_bounded:
  assumes "list_all (\<lambda>n. is_valid_cache_key (fst n)) ns"
  shows "\<exists>vc'. notice_all ns (clear_cache vc) = Inr vc' \<and> length (vc_map vc') \<le> 30000 \<and>
    distinct (vc_keys vc') \<and> set (vc_keys vc') = fst ` set (vc_map vc')"
proof -
  have "\<exists>vc'. notice_all ns vc = Inr vc' \<and> vfs_cache_ok vc'" if c: "vfs_cache_ok vc" for vc
    using assms c
  proof (induction ns arbitrary: vc)
    case Nil
    then show ?case by simp
  next
    case (Cons n ns)
    obtain key v ow where n: "n = (key, v, ow)" by (cases n)
    then obtain vc1 where "cache_notice key v ow vc = Inr vc1" "vfs_cache_ok vc1"
      using cache_notice_ok_aux [OF Cons.prems(2)] Cons.prems(1) by fastforce
    then show ?case using Cons.IH [of vc1] Cons.prems(1) n by simp
  qed
  then obtain vc' where vc': "notice_all ns (clear_cache vc) = Inr vc'" "vfs_cache_ok vc'"
    using vfs_cache_ok_empty by blast
  then show ?thesis
    using vfs_cache_ok_length [OF vc'(2)] by (auto simp: vfs_cache_ok_def cache_max_items_def)
qed

theorem cache_stays_bounded_witness:
  "\<exists>vc'. notice_all [(''res:a'', Resolved [], False), (''res:b'', Resolved [], True)]
     (clear_cache \<lparr>vc_map = [], vc_keys = [], vc_rand = (\<lambda>k. k)\<rparr>) = Inr vc' \<and> length (vc_map vc') \<le> 30000"
  using cache_stays_bounded [of "[(''res:a'', Resolved [], False), (''res:b'', Resolved [], True)]"
      "\<lparr>vc_map = [], vc_keys = [], vc_rand = (\<lambda>k. k)\<rparr>"]
  by (auto simp: is_valid_cache_key_def)

text \<open>when the entry of a commit has been evicted but the branch it is the tip of is still cached, the
  commit is answered as the branch: a \<open>RevList\<close>, without the tree or the commit id of a \<open>Commit\<close>.\<close>

theorem evicted_commit_is_a_branch:
  assumes "length oid = 20" "map_of (vc_map vc) (''itm:'' @ oid) = None"
    and "map_of (vc_map vc) (''rvl:'' @ oid) = Some (Revs es has_meta)" "map_of es ''.'' = Some (RevList oid m)"
  shows "cache_get_commit_item oid False vc = Inr (Some (RevList oid m))"
  using assms by (simp add: cache_get_commit_item_def cache_get_def is_valid_cache_key_def has_metadata_if_needed_def)

theorem evicted_commit_is_a_branch_witness:
  "cache_get_commit_item (oid_of CHR ''t'') False
     \<lparr>vc_map = [(''rvl:'' @ oid_of CHR ''t'', Revs [(''.'', RevList (oid_of CHR ''t'') (Mode default_dir_mode))] False)],
      vc_keys = [''rvl:'' @ oid_of CHR ''t''], vc_rand = (\<lambda>k. 0)\<rparr> =
   Inr (Some (RevList (oid_of CHR ''t'') (Mode default_dir_mode)))"
  by (rule evicted_commit_is_a_branch [where es = "[(''.'', RevList (oid_of CHR ''t'') (Mode default_dir_mode))]"
      and has_meta = False]) simp_all

end
