(* ===== verification/Vfs_Resolve.thy ===== *)
theory Vfs_Resolve
  imports Vfs_Cache Prune_Older
begin

text \<open>
  The contents of the virtual directories and the resolution of paths, of \<open>lib/bup/vfs.py\<close>.  An
  operation takes the cache and leaves one; its result is \<open>None\<close> when reading a file ran out of fuel.
  The generators are run to their end, as their callers here do.
\<close>

section \<open>Operations on the cache\<close>

datatype vfs_error = Py py_error | Io "metadata io_error"

type_synonym 'a vact = "vfs_cache \<Rightarrow> (vfs_error + 'a) option \<times> vfs_cache"

definition vret :: "'a \<Rightarrow> 'a vact" where "vret x vc = (Some (Inr x), vc)"
definition vfail :: "vfs_error \<Rightarrow> 'a vact" where "vfail e vc = (Some (Inl e), vc)"

definition vthen :: "'a vact \<Rightarrow> ('a \<Rightarrow> 'b vact) \<Rightarrow> 'b vact" where
  "vthen m f vc =
     (case m vc of
        (None, vc') \<Rightarrow> (None, vc')
      | (Some (Inl e), vc') \<Rightarrow> (Some (Inl e), vc')
      | (Some (Inr x), vc') \<Rightarrow> f x vc')"

definition vlift :: "'a res option \<Rightarrow> 'a vact" where
  "vlift m vc = (case m of None \<Rightarrow> None | Some (Inl e) \<Rightarrow> Some (Inl (Py e)) | Some (Inr x) \<Rightarrow> Some (Inr x), vc)"

abbreviation vpure :: "'a res \<Rightarrow> 'a vact" where "vpure r \<equiv> vlift (Some r)"
abbreviation vassert :: "bool \<Rightarrow> unit vact" where "vassert b \<equiv> vpure (py_assert b)"

text \<open>\<open>tuple(...)\<close> of a generator.\<close>

definition vall :: "'a gen \<Rightarrow> 'a list vact" where
  "vall g = vlift (case snd g of None \<Rightarrow> None | Some (Inl e) \<Rightarrow> Some (Inl e) | Some (Inr _) \<Rightarrow> Some (Inr (fst g)))"

definition vyields :: "'a yields \<Rightarrow> 'a list vact" where
  "vyields y = vpure (case snd y of None \<Rightarrow> Inr (fst y) | Some e \<Rightarrow> Inl e)"

fun vmap :: "('a \<Rightarrow> 'b vact) \<Rightarrow> 'a list \<Rightarrow> 'b list vact" where
  "vmap f [] = vret []"
| "vmap f (x # xs) = vthen (f x) (\<lambda>y. vthen (vmap f xs) (\<lambda>ys. vret (y # ys)))"

definition vnotice :: "bytes \<Rightarrow> cache_value \<Rightarrow> bool \<Rightarrow> unit vact" where
  "vnotice key v ow vc =
     (case cache_notice key v ow vc of Inl e \<Rightarrow> (Some (Inl (Py e)), vc) | Inr vc' \<Rightarrow> (Some (Inr ()), vc'))"

definition vcached :: "(vfs_cache \<Rightarrow> 'a res) \<Rightarrow> 'a vact" where
  "vcached f vc = vpure (f vc) vc"

section \<open>The repository\<close>

text \<open>What the file system asks of a repository.  \<open>vr_local\<close> is \<open>strftime\<close> of the local time of a save.\<close>

record vfs_repo =
  vr_id :: nat
  vr_cat :: cat_fn
  vr_refs :: "bytes list \<Rightarrow> bool \<Rightarrow> bool \<Rightarrow> (bytes \<times> oid) yields"
  vr_rev_list :: "bytes list \<Rightarrow> bytes \<Rightarrow> (bytes \<Rightarrow> ((oid \<times> int) \<times> nat) res) \<Rightarrow> (bytes \<times> oid \<times> int) yields"
  vr_local :: "int \<Rightarrow> bytes"

abbreviation root_item :: vitem where "root_item \<equiv> Root (Mode default_dir_mode)"
abbreviation tags_item :: vitem where "tags_item \<equiv> Tags (Mode default_dir_mode)"

section \<open>Commits and branches\<close>

definition commit_item_from_data :: "oid \<Rightarrow> bytes \<Rightarrow> vitem res" where
  "commit_item_from_data oid data =
     res_bind (parse_commit data) (\<lambda>info.
     res_bind (unhexlify (ci_tree info)) (\<lambda>tree. Inr (Commit tree oid (Mode default_dir_mode))))"

definition commit_tree :: "vitem \<Rightarrow> oid" where
  "commit_tree item = (case item of Commit tree coid m \<Rightarrow> tree | _ \<Rightarrow> [])"

definition commit_item_from_oid :: "vfs_repo \<Rightarrow> nat \<Rightarrow> oid \<Rightarrow> bool \<Rightarrow> bytes option \<Rightarrow> vitem vact" where
  "commit_item_from_oid vr fuel oid require_meta data0 =
     vthen (vcached (cache_get_commit_item oid require_meta)) (\<lambda>commit.
     case commit of
       Some commit \<Rightarrow> vret commit
     | None \<Rightarrow>
         vthen (case data0 of
                  Some d \<Rightarrow> if d \<noteq> [] then vret d else
                    vthen (vpure (object_at (vr_cat vr) (hexlify oid))) (\<lambda>(t, d). vthen (vassert (t = ''commit'')) (\<lambda>_. vret d))
                | None \<Rightarrow>
                    vthen (vpure (object_at (vr_cat vr) (hexlify oid))) (\<lambda>(t, d). vthen (vassert (t = ''commit'')) (\<lambda>_. vret d))) (\<lambda>data.
         vthen (vpure (commit_item_from_data oid data)) (\<lambda>commit.
         vthen (if require_meta
                then vthen (vlift (find_treeish_oid_metadata (vr_cat vr) fuel (commit_tree commit))) (\<lambda>meta.
                     vret (case meta of None \<Rightarrow> commit | Some m \<Rightarrow> set_meta m commit))
                else vret commit) (\<lambda>commit.
         vthen (vnotice (''itm:'' @ oid) (Cached_Item commit) True) (\<lambda>_. vret commit)))))"

definition revlist_item_from_oid :: "vfs_repo \<Rightarrow> nat \<Rightarrow> oid \<Rightarrow> bool \<Rightarrow> bytes option \<Rightarrow> vitem vact" where
  "revlist_item_from_oid vr fuel oid require_meta data =
     vthen (commit_item_from_oid vr fuel oid require_meta data) (\<lambda>commit. vret (RevList oid (meta_of commit)))"

text \<open>No names means all of them.\<close>

definition head_item :: "vfs_repo \<Rightarrow> nat \<Rightarrow> bool \<Rightarrow> bytes \<times> oid \<Rightarrow> (bytes \<times> vitem) vact" where
  "head_item vr fuel want_meta ref =
     (case ref of (name, oid) \<Rightarrow>
        vthen (vassert (prefix ''refs/heads/'' name)) (\<lambda>_.
        vthen (revlist_item_from_oid vr fuel oid want_meta None) (\<lambda>item. vret (drop 11 name, item))))"

definition named_head :: "vfs_repo \<Rightarrow> nat \<Rightarrow> bool \<Rightarrow> bytes \<Rightarrow> (bytes \<times> vitem) list vact" where
  "named_head vr fuel want_meta ref =
     (if ref \<in> {''.'', ''.tag''} then vret []
      else
        vthen (vpure (get_ref (vr_cat vr) (''refs/heads/'' @ ref))) (\<lambda>r.
        case r of
          None \<Rightarrow> vret []
        | Some (oidx, typ, sz, it) \<Rightarrow>
            vthen (vassert (typ = ''commit'')) (\<lambda>_.
            vthen (vpure (unhexlify oidx)) (\<lambda>oid.
            vthen (revlist_item_from_oid vr fuel oid want_meta (Some (concat it))) (\<lambda>item. vret [(ref, item)])))))"

definition root_items :: "vfs_repo \<Rightarrow> nat \<Rightarrow> bytes list \<Rightarrow> bool \<Rightarrow> (bytes \<times> vitem) list vact" where
  "root_items vr fuel names want_meta =
     (if names = [] then
        vthen (vyields (vr_refs vr [] True False)) (\<lambda>refs.
        vthen (vmap (head_item vr fuel want_meta) refs) (\<lambda>items.
        vret ((''.'', root_item) # (''.tag'', tags_item) # items)))
      else
        vthen (vmap (named_head vr fuel want_meta) names) (\<lambda>items.
        vret ((if ''.'' \<in> set names then [(''.'', root_item)] else []) @
              (if ''.tag'' \<in> set names then [(''.tag'', tags_item)] else []) @ concat items)))"

section \<open>The saves of a branch\<close>

text \<open>The line after a commit's: its tree and the author's time.\<close>

definition parse_rev :: "bytes \<Rightarrow> ((oid \<times> int) \<times> nat) res" where
  "parse_rev s =
     (let line = fst (readline s)
      in case split_words line of
           [tree, auth_sec] \<Rightarrow>
             res_bind (unhexlify tree) (\<lambda>t. res_bind (py_int 10 auth_sec) (\<lambda>n. Inr ((t, n), length line)))
         | _ \<Rightarrow> Inl AssertionError)"

definition item_for_rev :: "bytes \<times> oid \<times> int \<Rightarrow> vitem vact" where
  "item_for_rev r =
     (case r of (commit_oidx, tree_oid, utc) \<Rightarrow>
        vthen (vpure (unhexlify commit_oidx)) (\<lambda>coid.
        vthen (vcached (cache_get_commit_item coid False)) (\<lambda>item.
        case item of
          Some item \<Rightarrow> vret item
        | None \<Rightarrow>
            let item = Commit tree_oid coid (Mode default_dir_mode)
            in vthen (vnotice (''itm:'' @ coid) (Cached_Item item) False) (\<lambda>_. vret item))))"

fun enter_revs :: "(bytes \<times> bytes \<times> oid \<times> int) list \<Rightarrow> (bytes \<times> vitem) list \<Rightarrow> (bytes \<times> vitem) list vact" where
  "enter_revs [] entries = vret entries"
| "enter_revs ((name, r) # revs) entries =
     vthen (item_for_rev r) (\<lambda>item.
     vthen (vassert (name \<notin> fst ` set entries)) (\<lambda>_.
     enter_revs revs (entries @ [(name, item)])))"

text \<open>The items of a branch, kept in the order in which they are entered; the tip comes just after the dot.\<close>

definition cache_commit :: "vfs_repo \<Rightarrow> nat \<Rightarrow> oid \<Rightarrow> bool \<Rightarrow> ((bytes \<times> vitem) list \<times> bool) vact" where
  "cache_commit vr fuel oid require_meta =
     vthen (revlist_item_from_oid vr fuel oid require_meta None) (\<lambda>dot.
     vthen (vyields (vr_rev_list vr [hexlify oid] ''%T %at'' parse_rev)) (\<lambda>revs.
     let rev_names = save_names_for_commit_utcs (vr_local vr) (map (snd \<circ> snd) revs) in
     vthen (enter_revs (zip rev_names revs) [(''.'', dot)]) (\<lambda>entries.
     case entries of
       _ # (tip_name, tip_item) # _ \<Rightarrow>
         let es = AList.update ''latest'' (FakeLink tip_name (Mode default_symlink_mode)) entries in
         (case tip_item of
            Commit tree coid m \<Rightarrow>
              vthen (vnotice (''rvl:'' @ coid) (Revs es require_meta) True) (\<lambda>_. vret (es, require_meta))
          | _ \<Rightarrow> vfail (Py (Exc ''AttributeError'')))
     | _ \<Rightarrow> vfail (Py TypeError))))"

text \<open>\<open>^\d\d\d\d-\d\d-\d\d-\d{6}(-\d+)?$\<close>; \<open>$\<close> also matches before a last line end.\<close>

definition digits_at :: "nat list \<Rightarrow> bytes \<Rightarrow> bool" where
  "digits_at is s = list_all (\<lambda>i. i < length s \<and> is_dec (s ! i)) is"

definition dashes_at :: "nat list \<Rightarrow> bytes \<Rightarrow> bool" where
  "dashes_at is s = list_all (\<lambda>i. i < length s \<and> s ! i = CHR ''-'') is"

definition is_save_name :: "bytes \<Rightarrow> bool" where
  "is_save_name name0 =
     (let name = (if suffix [CHR 0x0a] name0 then butlast name0 else name0); rest = drop 17 name
      in digits_at [0, 1, 2, 3, 5, 6, 8, 9, 11, 12, 13, 14, 15, 16] name \<and> dashes_at [4, 7, 10] name \<and>
         (rest = [] \<or> prefix ''-'' rest \<and> drop 1 rest \<noteq> [] \<and> list_all is_dec (drop 1 rest)))"

definition revlist_entries :: "vfs_repo \<Rightarrow> nat \<Rightarrow> oid \<Rightarrow> bool \<Rightarrow> (bytes \<times> vitem) list vact" where
  "revlist_entries vr fuel oid require_meta =
     vthen (vcached (cache_get (''rvl:'' @ oid))) (\<lambda>entries.
     case entries of
       Some (Revs es has_meta) \<Rightarrow>
         if require_meta \<and> \<not> has_meta
         then vthen (cache_commit vr fuel oid require_meta) (\<lambda>(es, _). vret es)
         else vret es
     | _ \<Rightarrow> vthen (cache_commit vr fuel oid require_meta) (\<lambda>(es, _). vret es))"

definition revlist_items :: "vfs_repo \<Rightarrow> nat \<Rightarrow> oid \<Rightarrow> bytes list \<Rightarrow> bool \<Rightarrow> (bytes \<times> vitem) list vact" where
  "revlist_items vr fuel oid names require_meta =
     vthen (vassert (length oid = 20)) (\<lambda>_.
     if names \<noteq> [] \<and> list_all (\<lambda>x. x = ''.'') names then
       vthen (revlist_item_from_oid vr fuel oid require_meta None) (\<lambda>item. vret [(''.'', item)])
     else
       vthen (revlist_entries vr fuel oid require_meta) (\<lambda>entries.
       if names = [] then vret (sort_key fst entries)
       else
         let wanted = remdups (filter (\<lambda>n. is_save_name n \<or> n \<in> {''.'', ''latest''}) names);
             named = (\<lambda>n. case map_of entries n of None \<Rightarrow> [] | Some item \<Rightarrow> [(n, item)])
         in if ''.'' \<in> set wanted \<and> map_of entries ''.'' = None then vfail (Py KeyError)
            else vret ((if ''.'' \<in> set wanted then named ''.'' else []) @
                       concat (map named (filter (\<lambda>n. n \<noteq> ''.'') wanted)))))"

section \<open>Tags\<close>

definition tag_item :: "vfs_repo \<Rightarrow> oid \<Rightarrow> vitem vact" where
  "tag_item vr oid =
     vthen (vassert (length oid = 20)) (\<lambda>_.
     vthen (vcached (cache_get_commit_item oid False)) (\<lambda>cached.
     case cached of
       Some item \<Rightarrow> vret item
     | None \<Rightarrow>
         vthen (vpure (object_at (vr_cat vr) (hexlify oid))) (\<lambda>(typ, data).
         if typ = ''commit'' then vpure (commit_item_from_data oid data)
         else if typ = ''blob'' then vret (Item oid (Mode default_file_mode))
         else if typ = ''tree'' then vret (Item oid (Mode default_dir_mode))
         else vfail (Py (Exc ''unexpected tag type'')))))"

fun named_tags :: "vfs_repo \<Rightarrow> bytes list \<Rightarrow> bytes \<Rightarrow> nat \<Rightarrow> (bytes \<times> oid) list \<Rightarrow> (bytes \<times> vitem) list vact" where
  "named_tags vr names last_name remaining [] = vret []"
| "named_tags vr names last_name remaining ((ref, oid) # refs) =
     vthen (vassert (prefix ''refs/tags/'' ref)) (\<lambda>_.
     let name = drop 10 ref
     in if last_name < name then vret []
        else if name \<notin> set names then named_tags vr names last_name remaining refs
        else
          vthen (tag_item vr oid) (\<lambda>item.
          if remaining = 1 then vret [(name, item)]
          else vthen (named_tags vr names last_name (remaining - 1) refs) (\<lambda>items. vret ((name, item) # items))))"

definition tags_items :: "vfs_repo \<Rightarrow> bytes list \<Rightarrow> (bytes \<times> vitem) list vact" where
  "tags_items vr names0 =
     (if names0 = [] then
        vthen (vyields (vr_refs vr [] False True)) (\<lambda>refs.
        vthen (vmap (\<lambda>(name, oid).
                 vthen (vassert (prefix ''refs/tags/'' name)) (\<lambda>_.
                 vthen (tag_item vr oid) (\<lambda>item. vret (drop 10 name, item)))) refs) (\<lambda>items.
        vret ((''.'', tags_item) # items)))
      else
        let names = remdups names0; last_name = Max (set names);
            dot = (if ''.'' \<in> set names then [(''.'', tags_item)] else []);
            remaining = (if ''.'' \<in> set names then length names - 1 else length names)
        in if ''.'' \<in> set names \<and> length names = 1 then vret dot
           else
             vthen (vyields (vr_refs vr names False True)) (\<lambda>refs.
             vthen (named_tags vr names last_name remaining refs) (\<lambda>items. vret (dot @ items))))"

definition contents :: "vfs_repo \<Rightarrow> nat \<Rightarrow> vitem \<Rightarrow> bytes list \<Rightarrow> bool \<Rightarrow> bool \<Rightarrow> (bytes \<times> vitem) list vact" where
  "contents vr fuel item names want_meta repair =
     vthen (vpure (mode_is S_ISDIR item)) (\<lambda>d.
     vthen (vassert d) (\<lambda>_.
     let tree = (\<lambda>oid.
           vthen (vpure (object_at (vr_cat vr) (hexlify oid))) (\<lambda>(obj_t, data).
           if obj_t \<noteq> ''tree'' then vfail (Py (Exc ''unexpected git''))
           else vall (tree_items (vr_cat vr) fuel oid data names want_meta repair)))
     in case item of
          Item oid _ \<Rightarrow> tree oid
        | Commit oid _ _ \<Rightarrow> tree oid
        | RevList oid _ \<Rightarrow> revlist_items vr fuel oid names want_meta
        | Root _ \<Rightarrow> root_items vr fuel names want_meta
        | Tags _ \<Rightarrow> tags_items vr names
        | _ \<Rightarrow> vfail (Py (Exc ''unexpected VFS item''))))"

section \<open>Paths\<close>

fun one_slash :: "bytes \<Rightarrow> bytes" where
  "one_slash [] = []"
| "one_slash (c # s) = (if c = slash \<and> prefix [slash] s then one_slash s else c # one_slash s)"

definition strip_suffix :: "bytes \<Rightarrow> bytes \<times> bool \<Rightarrow> bytes \<times> bool" where
  "strip_suffix suf pm = (case pm of (path, must) \<Rightarrow>
     if suffix suf path then (take (length path - length suf) path, True) else (path, must))"

text \<open>Whether the path is absolute, whether it must be a directory, and its elements, the last one first.\<close>

definition decompose_path :: "bytes \<Rightarrow> bool \<times> bool \<times> bytes list" where
  "decompose_path path0 =
     (let path = one_slash path0
      in if path = ''/'' then (True, True, [])
         else
           let is_absolute = prefix ''/'' path;
               path1 = (if is_absolute then drop 1 path else path);
               (path2, must) = strip_suffix ''/.'' (strip_suffix ''/'' (path1, False));
               parts = rev (filter (\<lambda>x. x \<noteq> ''.'') (split_on slash path2))
           in (is_absolute, must \<or> parts = [], parts))"

definition render_path :: "(bytes \<times> vitem) list \<Rightarrow> bytes res" where
  "render_path path =
     (if path = [] then Inl IndexError
      else res_bind (mode_is S_ISDIR (snd (last path))) (\<lambda>d.
        Inr (join ''/'' (map fst path) @ (if d then ''/'' else []))))"

section \<open>Resolution\<close>

definition ENOTDIR :: int where "ENOTDIR = 20"
definition ELOOP :: int where "ELOOP = 40"

definition io_err :: "int \<Rightarrow> bytes \<Rightarrow> metadata resolution option \<Rightarrow> vfs_error" where
  "io_err no msg terminus = Io \<lparr>io_errno = Some no, io_strerror = Some msg, io_terminus = terminus\<rparr>"

text \<open>What a round of the loop asks for: the mode of the last item.\<close>

definition last_is_dir :: "metadata resolution \<Rightarrow> bool res" where
  "last_is_dir past = (case snd (last past) of Some item \<Rightarrow> mode_is S_ISDIR item | None \<Rightarrow> Inl (Exc ''AttributeError''))"

text \<open>The item of a name in a directory, if it is there.\<close>

definition lookup_segment :: "vfs_repo \<Rightarrow> nat \<Rightarrow> bool \<Rightarrow> vitem \<Rightarrow> bytes \<Rightarrow> vitem option vact" where
  "lookup_segment vr fuel want_meta parent_item segment =
     vthen (contents vr fuel parent_item (if \<not> want_meta then [segment] else [''.'', segment]) want_meta False) (\<lambda>items.
     if \<not> want_meta then vret (case items of [] \<Rightarrow> None | x # _ \<Rightarrow> Some (snd x))
     else
       vthen (vassert (length items \<in> {1, 2})) (\<lambda>_.
       vthen (vassert (fst (hd items) = ''.'')) (\<lambda>_.
       vret (if length items = 2 then Some (snd (items ! 1)) else None))))"

text \<open>
  A round ends the loop with a resolution, or goes on with the hops so far, the path behind and the
  elements ahead (the next one first).
\<close>

datatype round = Found "metadata resolution" | Go nat "metadata resolution" "bytes list"

definition enter_directory :: "vfs_repo \<Rightarrow> nat \<Rightarrow> bool \<Rightarrow> vitem \<Rightarrow> vitem vact" where
  "enter_directory vr fuel want_meta item =
     (case item of
        Item oid _ \<Rightarrow>
          if want_meta then vthen (vlift (find_treeish_oid_metadata (vr_cat vr) fuel oid)) (\<lambda>m.
            vret (case m of None \<Rightarrow> item | Some meta \<Rightarrow> set_meta meta item))
          else vret item
      | Commit oid _ _ \<Rightarrow>
          if want_meta then vthen (vlift (find_treeish_oid_metadata (vr_cat vr) fuel oid)) (\<lambda>m.
            vret (case m of None \<Rightarrow> item | Some meta \<Rightarrow> set_meta meta item))
          else vret item
      | _ \<Rightarrow> vret item)"

text \<open>Where a link leads: an absolute target replaces all that was still ahead.\<close>

definition after_link :: "nat \<Rightarrow> metadata resolution \<Rightarrow> bytes list \<Rightarrow> bytes \<Rightarrow> round" where
  "after_link hops past future target =
     (case decompose_path target of
        (is_absolute, must, target_future) \<Rightarrow>
          if is_absolute then
            (if target_future = [] then Found [([], Some root_item)]
             else Go (hops + 1) [([], Some root_item)] (rev target_future))
          else Go (hops + 1) past (rev target_future @ future))"

definition follow_link :: "vfs_repo \<Rightarrow> bool \<Rightarrow> nat \<Rightarrow> metadata resolution \<Rightarrow> bytes \<Rightarrow> vitem \<Rightarrow> bytes list \<Rightarrow> round vact" where
  "follow_link vr follow hops past segment item future =
     (if future = [] \<and> \<not> follow then vret (Go hops (past @ [(segment, Some item)]) [])
      else if 100 < hops then vfail (io_err ELOOP ''too many symlinks'' (Some (past @ [(segment, Some item)])))
      else vthen (vpure (readlink (vr_cat vr) item)) (\<lambda>target. vret (after_link hops past future target)))"

definition resolve_segment ::
  "vfs_repo \<Rightarrow> nat \<Rightarrow> bool \<Rightarrow> bool \<Rightarrow> bool \<Rightarrow> nat \<Rightarrow> metadata resolution \<Rightarrow> bytes \<Rightarrow> bytes list \<Rightarrow> round vact" where
  "resolve_segment vr fuel want_meta follow must_be_dir hops past segment future =
     (if segment = ''..'' then
        vthen (vassert (0 < length past)) (\<lambda>_.
        if 1 < length past then
          vthen (vpure (last_is_dir past)) (\<lambda>d. vthen (vassert d) (\<lambda>_. vret (Go hops (butlast past) future)))
        else vret (Go hops past future))
      else
        (case snd (last past) of
           None \<Rightarrow> vfail (Py (Exc ''AttributeError''))
         | Some parent_item \<Rightarrow>
             vthen (lookup_segment vr fuel want_meta parent_item segment) (\<lambda>found.
             case found of
               None \<Rightarrow> vret (Found (past @ [(segment, None)]))
             | Some item \<Rightarrow>
                 vthen (vpure (mode_is S_ISLNK item)) (\<lambda>lnk.
                 vthen (vpure (mode_is S_ISDIR item)) (\<lambda>dir.
                 if lnk then follow_link vr follow hops past segment item future
                 else if \<not> dir then
                   (let past' = past @ [(segment, Some item)]
                    in if future \<noteq> [] then vfail (io_err ENOTDIR ''path ends internally in non-directory'' (Some past'))
                       else if must_be_dir then vfail (io_err ENOTDIR ''path resolves to non-directory'' (Some past'))
                       else vret (Found past'))
                 else
                   vthen (enter_directory vr fuel want_meta item) (\<lambda>item'.
                   vret (Go hops (past @ [(segment, Some item')]) future)))))))"

definition resolve_round ::
  "vfs_repo \<Rightarrow> nat \<Rightarrow> bool \<Rightarrow> bool \<Rightarrow> bool \<Rightarrow> nat \<Rightarrow> metadata resolution \<Rightarrow> bytes list \<Rightarrow> round vact" where
  "resolve_round vr fuel want_meta follow must_be_dir hops past future =
     (case future of
        [] \<Rightarrow>
          if must_be_dir then
            vthen (vpure (last_is_dir past)) (\<lambda>d.
            if \<not> d then vfail (io_err ENOTDIR ''path resolves to non-directory'' (Some past)) else vret (Found past))
          else vret (Found past)
      | segment # future' \<Rightarrow> resolve_segment vr fuel want_meta follow must_be_dir hops past segment future')"

text \<open>Each round either follows one of at most 101 links or uses up an element.\<close>

lemma vthen_Inr: "vthen m f vc = (Some (Inr y), vc2) \<longleftrightarrow> (\<exists>x vc1. m vc = (Some (Inr x), vc1) \<and> f x vc1 = (Some (Inr y), vc2))"
  by (auto simp: vthen_def split: prod.splits option.splits sum.splits)

lemma vret_Inr: "vret x vc = (Some (Inr y), vc2) \<longleftrightarrow> y = x \<and> vc2 = vc"
  by (auto simp: vret_def)

lemma vfail_Inr: "vfail e vc \<noteq> (Some (Inr y), vc2)"
  by (simp add: vfail_def)

lemma vpure_Inr: "vlift m vc = (Some (Inr y), vc2) \<longleftrightarrow> m = Some (Inr y) \<and> vc2 = vc"
  by (auto simp: vlift_def split: option.splits sum.splits)

lemmas v_Inr = vthen_Inr vret_Inr vfail_Inr vpure_Inr

lemma after_link_Go: "after_link hops past future target = Go h p f \<Longrightarrow> h = hops + 1"
  by (cases "decompose_path target") (auto simp: after_link_def split: if_splits)

lemma follow_link_Go:
  assumes "follow_link vr follow hops past segment item future vc = (Some (Inr (Go h p f)), vc')"
  shows "h = hops \<and> f = [] \<or> hops \<le> 100 \<and> h = hops + 1"
  using assms unfolding follow_link_def
  by (auto simp: v_Inr dest: after_link_Go [OF sym] split: if_splits)

lemma resolve_round_Go:
  assumes "resolve_round vr fuel want_meta follow must_be_dir hops past future vc = (Some (Inr (Go h p f)), vc')"
  shows "hops \<le> 100 \<and> h = hops + 1 \<or> h = hops \<and> length f < length future"
proof (cases future)
  case Nil
  then show ?thesis using assms by (auto simp: resolve_round_def v_Inr split: if_splits)
next
  case (Cons segment future')
  have a: "resolve_segment vr fuel want_meta follow must_be_dir hops past segment future' vc = (Some (Inr (Go h p f)), vc')"
    using assms by (simp add: resolve_round_def Cons)
  show ?thesis
  proof (cases "segment = ''..''")
    case True
    then show ?thesis using a by (auto simp: resolve_segment_def Cons v_Inr split: if_splits)
  next
    case False
    show ?thesis
      using a False unfolding resolve_segment_def
      by (auto simp: Cons v_Inr Let_def split: if_splits option.splits dest!: follow_link_Go)
  qed
qed

function resolve_loop ::
  "vfs_repo \<Rightarrow> nat \<Rightarrow> bool \<Rightarrow> bool \<Rightarrow> bool \<Rightarrow> nat \<Rightarrow> metadata resolution \<Rightarrow> bytes list \<Rightarrow> vfs_cache \<Rightarrow>
   (vfs_error + metadata resolution) option \<times> vfs_cache" where
  "resolve_loop vr fuel want_meta follow must_be_dir hops past future vc =
     (case resolve_round vr fuel want_meta follow must_be_dir hops past future vc of
        (None, vc') \<Rightarrow> (None, vc')
      | (Some (Inl e), vc') \<Rightarrow> (Some (Inl e), vc')
      | (Some (Inr (Found r)), vc') \<Rightarrow> (Some (Inr r), vc')
      | (Some (Inr (Go h p f)), vc') \<Rightarrow> resolve_loop vr fuel want_meta follow must_be_dir h p f vc')"
  by pat_completeness auto
termination
proof (relation "measures [\<lambda>(vr, fuel, wm, fo, mu, hops, past, future, vc). 101 - hops,
    \<lambda>(vr, fuel, wm, fo, mu, hops, past, future, vc). length future]", goal_cases)
  case 1
  then show ?case by simp
next
  case (2 vr fuel want_meta follow must_be_dir hops past future vc r vc' x g h p f)
  then have "resolve_round vr fuel want_meta follow must_be_dir hops past future vc = (Some (Inr (Go h p f)), vc')" by simp
  from resolve_round_Go [OF this] show ?case by auto
qed

declare resolve_loop.simps [simp del]

definition resolve_key :: "vfs_repo \<Rightarrow> bool \<Rightarrow> bool \<Rightarrow> metadata resolution \<Rightarrow> bytes \<Rightarrow> bytes" where
  "resolve_key vr want_meta follow parent path =
     ''res:'' @ show_int (of_bool want_meta) @ show_int (of_bool follow) @ show_int (int (vr_id vr)) @ '':'' @
     join ''/'' (map fst parent) @ CHR 0x00 # path"

definition is_item_type :: "vitem option \<Rightarrow> bool" where
  "is_item_type item = (case item of None \<Rightarrow> False | Some (FakeLink _ _) \<Rightarrow> False | Some _ \<Rightarrow> True)"

definition check_parent :: "metadata resolution \<Rightarrow> unit vact" where
  "check_parent parent =
     (if parent = [] then vret ()
      else
        vthen (vassert (list_all (\<lambda>x. is_item_type (snd x)) parent)) (\<lambda>_.
        vthen (vassert (snd (hd parent) = Some root_item)) (\<lambda>_.
        vthen (vpure (last_is_dir parent)) (\<lambda>d.
        if \<not> d then vfail (io_err ENOTDIR ''path resolution parent is not a directory'' None) else vret ()))))"

text \<open>The empty \<open>parent\<close> is none.\<close>

definition resolve_path ::
  "vfs_repo \<Rightarrow> nat \<Rightarrow> bytes \<Rightarrow> metadata resolution \<Rightarrow> bool \<Rightarrow> bool \<Rightarrow> metadata resolution vact" where
  "resolve_path vr fuel path parent want_meta follow0 =
     (let key = resolve_key vr want_meta follow0 parent path;
          root = [([], Some root_item)];
          notice = (\<lambda>r. vthen (vnotice key (Resolved r) False) (\<lambda>_. vret r))
      in
      vthen (vcached (cache_get key)) (\<lambda>resolution.
      case resolution of
        Some (Resolved (x # r)) \<Rightarrow> vret (x # r)
      | _ \<Rightarrow>
          vthen (vassert (path \<noteq> [])) (\<lambda>_.
          vthen (check_parent parent) (\<lambda>_.
          case decompose_path path of
            (is_absolute, must_be_dir, future) \<Rightarrow>
              let start = (if is_absolute \<or> parent = [] then root else parent)
              in if future = [] then notice start
                 else vthen (resolve_loop vr fuel want_meta (follow0 \<or> must_be_dir) must_be_dir 0 start (rev future)) notice))))"

text \<open>On a local repository.\<close>

definition resolve :: "vfs_repo \<Rightarrow> nat \<Rightarrow> bytes \<Rightarrow> metadata resolution \<Rightarrow> bool \<Rightarrow> bool \<Rightarrow> metadata resolution vact" where
  "resolve vr fuel path parent want_meta follow =
     vthen (resolve_path vr fuel path parent want_meta follow) (\<lambda>result.
     case snd (last result) of
       Some leaf_item \<Rightarrow>
         if follow then
           vthen (vpure (mode_is S_ISLNK leaf_item)) (\<lambda>lnk. vthen (vassert (\<not> lnk)) (\<lambda>_. vret result))
         else vret result
     | None \<Rightarrow> vret result)"

definition try_resolve :: "vfs_repo \<Rightarrow> nat \<Rightarrow> bytes \<Rightarrow> metadata resolution \<Rightarrow> bool \<Rightarrow> metadata resolution vact" where
  "try_resolve vr fuel path parent want_meta =
     vthen (resolve vr fuel path parent want_meta False) (\<lambda>res.
     case last res of
       (leaf_name, None) \<Rightarrow> vret res
     | (leaf_name, Some leaf_item) \<Rightarrow>
         vthen (vpure (mode_is S_ISLNK leaf_item)) (\<lambda>lnk.
         if \<not> lnk then vret res
         else
           vthen (resolve vr fuel leaf_name (butlast res) want_meta True) (\<lambda>followed.
           vret (if snd (last followed) \<noteq> None then followed else res))))"

section \<open>Metadata for an item\<close>

definition maybe_public :: "bool \<Rightarrow> vitem \<Rightarrow> int option \<Rightarrow> int option res" where
  "maybe_public public item sz =
     (if public then res_bind (mode_is S_ISDIR item) (\<lambda>d. Inr (if d \<and> sz = None then Some 0 else sz)) else Inr sz)"

definition augment_item_meta :: "cat_fn \<Rightarrow> nat \<Rightarrow> vitem \<Rightarrow> bool \<Rightarrow> bool \<Rightarrow> vitem res option" where
  "augment_item_meta cat fuel item include_size public =
     (case meta_of item of
        Meta md \<Rightarrow>
          if include_size \<and> md_size md = None then
            fuel_bind (compute_item_size cat fuel item) (\<lambda>n.
            fuel_bind (Some (maybe_public public item n)) (\<lambda>sz.
            Some (Inr (set_meta (Meta (md\<lparr>md_size := sz\<rparr>)) item))))
          else Some (Inr item)
      | Mode m \<Rightarrow>
          let meta = empty_metadata\<lparr>md_mode := Some m\<rparr>
          in if S_ISLNK m then
               fuel_bind (Some (case item of FakeLink target _ \<Rightarrow> Inr target | _ \<Rightarrow> res_bind (item_oid item) (readlink_blob cat))) (\<lambda>target.
               Some (Inr (set_meta (Meta (meta\<lparr>md_symlink_target := Some target, md_size := Some (int (length target))\<rparr>)) item)))
             else if include_size then
               fuel_bind (compute_item_size cat fuel item) (\<lambda>n.
               fuel_bind (Some (maybe_public public item n)) (\<lambda>sz.
               Some (Inr (set_meta (Meta (meta\<lparr>md_size := sz\<rparr>)) item))))
             else Some (Inr (set_meta (Meta meta) item)))"

definition fill_in_metadata_if_dir :: "vfs_repo \<Rightarrow> nat \<Rightarrow> vitem \<Rightarrow> vitem vact" where
  "fill_in_metadata_if_dir vr fuel item =
     vthen (vpure (mode_is S_ISDIR item)) (\<lambda>d.
     if d \<and> \<not> has_metadata item then
       vthen (contents vr fuel item [''.''] True False) (\<lambda>items.
       vthen (vassert (length items = 1)) (\<lambda>_.
       vthen (vassert (fst (hd items) = ''.'')) (\<lambda>_. vret (snd (hd items)))))
     else vret item)"

definition ensure_item_has_metadata :: "vfs_repo \<Rightarrow> nat \<Rightarrow> vitem \<Rightarrow> bool \<Rightarrow> bool \<Rightarrow> vitem vact" where
  "ensure_item_has_metadata vr fuel item include_size public =
     vthen (fill_in_metadata_if_dir vr fuel item) (\<lambda>it. vlift (augment_item_meta (vr_cat vr) fuel it include_size public))"

end
