(* ===== verification/Vfs_Laws.thy ===== *)
theory Vfs_Laws
  imports Vfs_Resolve
begin

text \<open>
  What resolution promises, and that the operations below it keep what is known of the cache: they
  only ever notice commits and branches.
\<close>

section \<open>Predicates on the cache\<close>

definition keeps :: "(vfs_cache \<Rightarrow> bool) \<Rightarrow> 'a vact \<Rightarrow> bool" where
  "keeps P m \<longleftrightarrow> (\<forall>vc. P vc \<longrightarrow> P (snd (m vc)))"

named_theorems keeps_intros

lemma keeps_vret [keeps_intros]: "keeps P (vret x)" by (simp add: keeps_def vret_def)
lemma keeps_vfail [keeps_intros]: "keeps P (vfail e)" by (simp add: keeps_def vfail_def)
lemma keeps_vlift [keeps_intros]: "keeps P (vlift m)" by (simp add: keeps_def vlift_def)
lemma keeps_vcached [keeps_intros]: "keeps P (vcached f)" by (simp add: keeps_def vcached_def vlift_def)
lemma keeps_vall [keeps_intros]: "keeps P (vall g)" by (simp add: vall_def keeps_vlift)
lemma keeps_vyields [keeps_intros]: "keeps P (vyields g)" by (simp add: vyields_def keeps_vlift)

lemma keeps_vthen [keeps_intros]: "keeps P m \<Longrightarrow> (\<And>x. keeps P (f x)) \<Longrightarrow> keeps P (vthen m f)"
  by (auto simp: keeps_def vthen_def split: prod.splits option.splits sum.splits)

lemma keeps_vmap [keeps_intros]: "(\<And>x. keeps P (f x)) \<Longrightarrow> keeps P (vmap f xs)"
  by (induction xs) (auto intro!: keeps_intros)

lemma keeps_if [keeps_intros]: "(b \<Longrightarrow> keeps P m) \<Longrightarrow> (\<not> b \<Longrightarrow> keeps P n) \<Longrightarrow> keeps P (if b then m else n)"
  by simp

lemma keeps_let [keeps_intros]: "(\<And>x. keeps P (f x)) \<Longrightarrow> keeps P (Let y f)"
  by (simp add: Let_def)

lemma keeps_case_option [keeps_intros]:
  "keeps P m \<Longrightarrow> (\<And>x. keeps P (f x)) \<Longrightarrow> keeps P (case y of None \<Rightarrow> m | Some x \<Rightarrow> f x)"
  by (cases y) auto

lemma keeps_case_prod [keeps_intros]: "(\<And>x y. keeps P (f x y)) \<Longrightarrow> keeps P (case z of (x, y) \<Rightarrow> f x y)"
  by (cases z) auto

lemma keeps_case_list [keeps_intros]:
  "keeps P m \<Longrightarrow> (\<And>x xs. keeps P (f x xs)) \<Longrightarrow> keeps P (case ys of [] \<Rightarrow> m | x # xs \<Rightarrow> f x xs)"
  by (cases ys) auto

lemma keeps_case_value [keeps_intros]:
  "(\<And>r. keeps P (f r)) \<Longrightarrow> (\<And>i. keeps P (g i)) \<Longrightarrow> (\<And>es b. keeps P (h es b)) \<Longrightarrow>
    keeps P (case v of Resolved r \<Rightarrow> f r | Cached_Item i \<Rightarrow> g i | Revs es b \<Rightarrow> h es b)"
  by (cases v) auto

lemma keeps_case_item [keeps_intros]:
  "(\<And>a b. keeps P (f1 a b)) \<Longrightarrow> (\<And>a b. keeps P (f2 a b)) \<Longrightarrow> (\<And>a b. keeps P (f3 a b)) \<Longrightarrow> (\<And>a. keeps P (f4 a)) \<Longrightarrow>
    (\<And>a. keeps P (f5 a)) \<Longrightarrow> (\<And>a b c. keeps P (f6 a b c)) \<Longrightarrow> (\<And>a b. keeps P (f7 a b)) \<Longrightarrow>
    keeps P (case it of Item a b \<Rightarrow> f1 a b | Chunky a b \<Rightarrow> f2 a b | RevList a b \<Rightarrow> f3 a b | Root a \<Rightarrow> f4 a |
      Tags a \<Rightarrow> f5 a | Commit a b c \<Rightarrow> f6 a b c | FakeLink a b \<Rightarrow> f7 a b)"
  by (cases it) auto

text \<open>A predicate that noticing anything but a resolution keeps.\<close>

locale cache_law =
  fixes P :: "vfs_cache \<Rightarrow> bool"
  assumes notice_keeps: "P vc \<Longrightarrow> cache_notice key v ow vc = Inr vc' \<Longrightarrow> take 4 key \<noteq> ''res:'' \<Longrightarrow>
    (\<And>r. v \<noteq> Resolved r) \<Longrightarrow> P vc'"
begin

lemma keeps_vnotice: "take 4 key \<noteq> ''res:'' \<Longrightarrow> (\<And>r. v \<noteq> Resolved r) \<Longrightarrow> keeps P (vnotice key v ow)"
  by (auto simp: keeps_def vnotice_def split: sum.splits dest: notice_keeps)

lemma keeps_commit_item: "keeps P (commit_item_from_oid vr fuel oid require_meta data)"
  unfolding commit_item_from_oid_def by (intro keeps_intros keeps_vnotice) simp_all

lemma keeps_revlist_item: "keeps P (revlist_item_from_oid vr fuel oid require_meta data)"
  unfolding revlist_item_from_oid_def by (intro keeps_intros keeps_commit_item)

lemma keeps_root_items: "keeps P (root_items vr fuel names want_meta)"
  unfolding root_items_def head_item_def named_head_def by (intro keeps_intros keeps_revlist_item)

lemma keeps_item_for_rev: "keeps P (item_for_rev r)"
  unfolding item_for_rev_def by (intro keeps_intros keeps_vnotice) simp_all

lemma keeps_enter_revs: "keeps P (enter_revs revs entries)"
proof (induction revs arbitrary: entries)
  case Nil
  then show ?case by (simp add: keeps_vret)
next
  case (Cons nr revs)
  obtain n r where "nr = (n, r)" by (cases nr)
  then show ?case using Cons by (auto intro!: keeps_intros keeps_item_for_rev)
qed

lemma keeps_cache_commit: "keeps P (cache_commit vr fuel oid require_meta)"
  unfolding cache_commit_def by (intro keeps_intros keeps_revlist_item keeps_enter_revs keeps_vnotice) simp_all

lemma keeps_revlist_items: "keeps P (revlist_items vr fuel oid names require_meta)"
  unfolding revlist_items_def revlist_entries_def
  by (intro keeps_intros keeps_revlist_item keeps_cache_commit)

lemma keeps_tag_item: "keeps P (tag_item vr oid)"
  unfolding tag_item_def by (intro keeps_intros)

lemma keeps_named_tags: "keeps P (named_tags vr names last_name remaining refs)"
proof (induction refs arbitrary: remaining)
  case Nil
  then show ?case by (simp add: keeps_vret)
next
  case (Cons ro refs)
  obtain r o' where "ro = (r, o')" by (cases ro)
  then show ?case using Cons by (auto simp: Let_def intro!: keeps_intros keeps_tag_item)
qed

lemma keeps_contents: "keeps P (contents vr fuel item names want_meta repair)"
  unfolding contents_def tags_items_def Let_def
  by (intro keeps_intros keeps_revlist_items keeps_root_items keeps_tag_item keeps_named_tags)

lemma keeps_round: "keeps P (resolve_round vr fuel want_meta follow must_be_dir hops past future)"
  unfolding resolve_round_def resolve_segment_def lookup_segment_def follow_link_def enter_directory_def
  by (intro keeps_intros keeps_contents)

lemma keeps_loop: "P vc \<Longrightarrow> P (snd (resolve_loop vr fuel want_meta follow must_be_dir hops past future vc))"
proof (induction vr fuel want_meta follow must_be_dir hops past future vc rule: resolve_loop.induct)
  case (1 vr fuel want_meta follow must_be_dir hops past future vc)
  obtain out vc' where out: "resolve_round vr fuel want_meta follow must_be_dir hops past future vc = (out, vc')"
    by (cases "resolve_round vr fuel want_meta follow must_be_dir hops past future vc")
  have "P vc'" using keeps_round 1(2) out by (metis keeps_def snd_conv)
  then show ?case
    using 1(1) [OF out [symmetric]] out
    by (subst resolve_loop.simps) (auto split: option.splits sum.splits round.splits)
qed

end

section \<open>The shape of a resolution\<close>

text \<open>It starts at the root and goes through directories.\<close>

definition is_dir_item :: "vitem option \<Rightarrow> bool" where
  "is_dir_item it = (case it of None \<Rightarrow> False | Some item \<Rightarrow> mode_is S_ISDIR item = Inr True)"

definition well_rooted :: "metadata resolution \<Rightarrow> bool" where
  "well_rooted r \<longleftrightarrow> r \<noteq> [] \<and> snd (hd r) = Some root_item \<and> list_all (\<lambda>x. is_dir_item (snd x)) (butlast r)"

lemma well_rooted_append: "well_rooted r \<Longrightarrow> is_dir_item (snd (last r)) \<Longrightarrow> well_rooted (r @ [x])"
  by (cases r rule: rev_cases) (auto simp: well_rooted_def hd_append butlast_append)

lemma well_rooted_up: "well_rooted r \<Longrightarrow> 1 < length r \<Longrightarrow> well_rooted (butlast r)"
  by (cases r rule: rev_cases)
    (auto simp: well_rooted_def hd_append list_all_iff split: if_splits dest: in_set_butlastD)

lemma well_rooted_root: "well_rooted [([], Some root_item)]"
  by (simp add: well_rooted_def)

lemma contents_of_dir:
  "contents vr fuel item names want_meta repair vc = (Some (Inr items), vc') \<Longrightarrow> mode_is S_ISDIR item = Inr True"
  by (auto simp: contents_def v_Inr)

lemma lookup_in_dir:
  "lookup_segment vr fuel want_meta item segment vc = (Some (Inr found), vc') \<Longrightarrow> mode_is S_ISDIR item = Inr True"
  by (auto simp: lookup_segment_def v_Inr dest: contents_of_dir)

fun round_ok :: "round \<Rightarrow> bool" where
  "round_ok (Found r) = well_rooted r"
| "round_ok (Go h p f) = well_rooted p"

lemma after_link_ok: "well_rooted past \<Longrightarrow> round_ok (after_link hops past future target)"
  by (cases "decompose_path target") (simp add: after_link_def well_rooted_root)

lemma follow_link_ok:
  assumes "follow_link vr follow hops past segment item future vc = (Some (Inr r), vc')"
    and "well_rooted past" "is_dir_item (snd (last past))"
  shows "round_ok r"
proof (cases "future = [] \<and> \<not> follow")
  case True
  then show ?thesis using assms well_rooted_append by (auto simp: follow_link_def v_Inr)
next
  case f: False
  then show ?thesis
    using assms after_link_ok by (cases "100 < hops") (auto simp: follow_link_def v_Inr simp del: round_ok.simps)
qed

lemma resolve_segment_ok:
  assumes "resolve_segment vr fuel want_meta follow must_be_dir hops past segment future vc = (Some (Inr r), vc')"
    and "well_rooted past"
  shows "round_ok r"
proof (cases "segment = ''..''")
  case True
  then show ?thesis
    using assms well_rooted_up by (auto simp: resolve_segment_def v_Inr split: if_splits)
next
  case False
  obtain parent where p: "snd (last past) = Some parent"
    using assms(1) False by (cases "snd (last past)") (auto simp: resolve_segment_def v_Inr)
  obtain found vc1 where f: "lookup_segment vr fuel want_meta parent segment vc = (Some (Inr found), vc1)"
    using assms(1) False p by (auto simp: resolve_segment_def v_Inr)
  have dir: "is_dir_item (snd (last past))" using lookup_in_dir [OF f] p by (simp add: is_dir_item_def)
  have app: "well_rooted (past @ [x])" for x using well_rooted_append [OF assms(2) dir] .
  show ?thesis
  proof (cases found)
    case None
    then show ?thesis using assms(1) False p f app by (auto simp: resolve_segment_def v_Inr vthen_def vret_def)
  next
    case (Some item)
    obtain lnk isdir where m: "mode_is S_ISLNK item = Inr lnk" "mode_is S_ISDIR item = Inr isdir"
      using assms(1) False p f Some by (auto simp: resolve_segment_def v_Inr)
    show ?thesis
    proof (cases lnk)
      case True
      then have "follow_link vr follow hops past segment item future vc1 = (Some (Inr r), vc')"
        using assms(1) False p f Some m by (auto simp: resolve_segment_def v_Inr)
      then show ?thesis using follow_link_ok assms(2) dir by blast
    next
      case l: False
      then show ?thesis
        using assms(1) False p f Some m app
        by (auto simp: resolve_segment_def v_Inr Let_def split: if_splits)
    qed
  qed
qed

lemma resolve_round_ok:
  assumes "resolve_round vr fuel want_meta follow must_be_dir hops past future vc = (Some (Inr r), vc')"
    and "well_rooted past"
  shows "round_ok r"
proof (cases future)
  case Nil
  then show ?thesis using assms by (auto simp: resolve_round_def v_Inr split: if_splits)
next
  case (Cons segment future')
  then show ?thesis using assms resolve_segment_ok by (simp add: resolve_round_def)
qed

lemma resolve_loop_ok:
  "resolve_loop vr fuel want_meta follow must_be_dir hops past future vc = (Some (Inr r), vc') \<Longrightarrow>
    well_rooted past \<Longrightarrow> well_rooted r"
proof (induction vr fuel want_meta follow must_be_dir hops past future vc rule: resolve_loop.induct)
  case (1 vr fuel want_meta follow must_be_dir hops past future vc)
  obtain out vc1 where out: "resolve_round vr fuel want_meta follow must_be_dir hops past future vc = (out, vc1)"
    by (cases "resolve_round vr fuel want_meta follow must_be_dir hops past future vc")
  then obtain q where q: "out = Some (Inr q)"
    using 1(2) by (subst (asm) resolve_loop.simps) (auto split: option.splits sum.splits)
  have ok: "round_ok q" using resolve_round_ok out q 1(3) by blast
  show ?case
  proof (cases q)
    case (Found r')
    then show ?thesis using 1(2) out q ok by (subst (asm) resolve_loop.simps) simp
  next
    case (Go h p f)
    then have "resolve_loop vr fuel want_meta follow must_be_dir h p f vc1 = (Some (Inr r), vc')"
      using 1(2) out q by (subst (asm) resolve_loop.simps) simp
    then show ?thesis using 1(1) [OF out [symmetric] q refl Go] ok Go by simp
  qed
qed

section \<open>The cache of resolutions\<close>

lemma cache_notice_lookup:
  assumes "cache_notice key v ow vc = Inr vc'"
  shows "map_of (vc_map vc') k = map_of (vc_map vc) k \<or> map_of (vc_map vc') k = None \<or>
    k = key \<and> map_of (vc_map vc') k = Some v"
proof -
  have "map_of (AList.update key v (AList.delete w (vc_map vc))) k =
      (if k = key then Some v else if k = w then None else map_of (vc_map vc) k)" for w
    by (simp add: update_conv' delete_conv')
  moreover have "map_of (AList.update key v (vc_map vc)) k = (if k = key then Some v else map_of (vc_map vc) k)"
    by (simp add: update_conv')
  ultimately show ?thesis
    using assms by (auto simp: cache_notice_def Let_def split: if_splits)
qed

text \<open>Resolutions are kept under their own keys, and they are well rooted.\<close>

definition cached_ok :: "bytes \<Rightarrow> cache_value \<Rightarrow> bool" where
  "cached_ok k v = (case v of Resolved r \<Rightarrow> well_rooted r | _ \<Rightarrow> take 4 k \<noteq> ''res:'')"

definition resolutions_ok :: "vfs_cache \<Rightarrow> bool" where
  "resolutions_ok vc \<longleftrightarrow> (\<forall>k v. map_of (vc_map vc) k = Some v \<longrightarrow> cached_ok k v)"

lemma notice_entry_ok:
  assumes "resolutions_ok vc" "cache_notice key v ow vc = Inr vc'" "cached_ok key v"
  shows "resolutions_ok vc'"
  unfolding resolutions_ok_def
proof (intro allI impI)
  fix k u
  assume "map_of (vc_map vc') k = Some u"
  then consider "map_of (vc_map vc) k = Some u" | "k = key" "u = v"
    using cache_notice_lookup [OF assms(2), of k] by auto
  then show "cached_ok k u" using assms(1,3) by cases (simp_all add: resolutions_ok_def)
qed

definition absent :: "bytes \<Rightarrow> vfs_cache \<Rightarrow> bool" where
  "absent k vc \<longleftrightarrow> take 4 k = ''res:'' \<and> map_of (vc_map vc) k = None"

interpretation bounded: cache_law vfs_cache_ok
proof
  fix vc key v ow vc'
  assume a: "vfs_cache_ok vc" "cache_notice key v ow vc = Inr vc'"
  then have "is_valid_cache_key key" by (auto simp: cache_notice_def split: if_splits)
  then obtain vc1 where "cache_notice key v ow vc = Inr vc1" "vfs_cache_ok vc1"
    using cache_notice_ok_aux [OF a(1)] by blast
  then show "vfs_cache_ok vc'" using a(2) by simp
qed

interpretation resolutions: cache_law resolutions_ok
proof
  fix vc key v ow vc'
  assume a: "resolutions_ok vc" "cache_notice key v ow vc = Inr vc'" "take 4 key \<noteq> ''res:''" "\<And>r. v \<noteq> Resolved r"
  have "cached_ok key v" using a(3,4) by (cases v) (auto simp: cached_ok_def)
  then show "resolutions_ok vc'" by (rule notice_entry_ok [OF a(1,2)])
qed

interpretation absent_key: cache_law "absent k" for k
proof
  fix vc key v ow vc'
  assume "absent k vc" "cache_notice key v ow vc = Inr vc'" "take 4 key \<noteq> ''res:''"
  then show "absent k vc'" using cache_notice_lookup [of key v ow vc vc' k] by (auto simp: absent_def)
qed

lemma resolve_key_tag: "take 4 (resolve_key vr want_meta follow parent path) = ''res:''"
  by (simp add: resolve_key_def)

lemma check_parent_same: "check_parent parent vc = (r, vc') \<Longrightarrow> vc' = vc"
  by (auto simp: check_parent_def vthen_def vlift_def vret_def vfail_def split: if_splits sum.splits option.splits prod.splits)

text \<open>A resolution is either answered from the cache, or computed from a good start and noticed.\<close>

lemma resolve_path_cases:
  assumes "resolve_path vr fuel path parent want_meta follow vc = (Some (Inr r), vc')"
    and "resolutions_ok vc" "parent = [] \<or> well_rooted parent"
  obtains (cached) "cache_get (resolve_key vr want_meta follow parent path) vc = Inr (Some (Resolved r))" "vc' = vc" "well_rooted r"
  | (computed) vc1 where "absent (resolve_key vr want_meta follow parent path) vc1" "resolutions_ok vc1" "well_rooted r"
      "vfs_cache_ok vc \<Longrightarrow> vfs_cache_ok vc1"
      "cache_notice (resolve_key vr want_meta follow parent path) (Resolved r) False vc1 = Inr vc'"
proof -
  define key where "key = resolve_key vr want_meta follow parent path"
  have tag: "take 4 key = ''res:''" by (simp add: key_def resolve_key_tag)
  then have get: "cache_get key vc = Inr (map_of (vc_map vc) key)"
    by (simp add: cache_get_def is_valid_cache_key_def)
  show thesis
  proof (cases "map_of (vc_map vc) key")
    case (Some v)
    then obtain q where q: "v = Resolved q" "well_rooted q"
      using assms(2) tag Some by (cases v) (fastforce simp: resolutions_ok_def cached_ok_def)+
    then obtain x q' where "q = x # q'" by (cases q) (auto simp: well_rooted_def)
    then have "r = q" "vc' = vc"
      using assms(1) get Some q(1)
      by (auto simp: resolve_path_def Let_def v_Inr vcached_def simp flip: key_def)
    then show thesis using cached get Some q by (simp add: key_def)
  next
    case None
    then have start: "absent key vc" using tag by (simp add: absent_def)
    have rest: "vthen (vassert (path \<noteq> [])) (\<lambda>_. vthen (check_parent parent) (\<lambda>_.
        case decompose_path path of (is_absolute, must_be_dir, future) \<Rightarrow>
          let start = (if is_absolute \<or> parent = [] then [([], Some root_item)] else parent)
          in if future = [] then vthen (vnotice key (Resolved start) False) (\<lambda>_. vret start)
             else vthen (resolve_loop vr fuel want_meta (follow \<or> must_be_dir) must_be_dir 0 start (rev future))
               (\<lambda>r. vthen (vnotice key (Resolved r) False) (\<lambda>_. vret r)))) vc = (Some (Inr r), vc')"
      using assms(1) get None by (simp add: resolve_path_def Let_def vthen_def [of "vcached f" for f] vcached_def vlift_def flip: key_def)
    obtain is_absolute must_be_dir future where d: "decompose_path path = (is_absolute, must_be_dir, future)"
      by (cases "decompose_path path")
    then have run: "(let start = (if is_absolute \<or> parent = [] then [([], Some root_item)] else parent)
          in if future = [] then vthen (vnotice key (Resolved start) False) (\<lambda>_. vret start)
             else vthen (resolve_loop vr fuel want_meta (follow \<or> must_be_dir) must_be_dir 0 start (rev future))
               (\<lambda>r. vthen (vnotice key (Resolved r) False) (\<lambda>_. vret r))) vc = (Some (Inr r), vc')"
      using rest check_parent_same unfolding vthen_Inr vpure_Inr by fastforce
    define begin_at where "begin_at = (if is_absolute \<or> parent = [] then [([], Some root_item)] else parent)"
    have good: "well_rooted begin_at" using assms(3) well_rooted_root by (auto simp: begin_at_def)
    obtain vc1 where vc1: "absent key vc1" "resolutions_ok vc1" "vfs_cache_ok vc \<Longrightarrow> vfs_cache_ok vc1" "well_rooted r"
      "vthen (vnotice key (Resolved r) False) (\<lambda>_. vret r) vc1 = (Some (Inr r), vc')"
    proof (cases "future = []")
      case True
      then have n: "vthen (vnotice key (Resolved begin_at) False) (\<lambda>_. vret begin_at) vc = (Some (Inr r), vc')"
        using run by (simp add: Let_def begin_at_def)
      then have "r = begin_at" by (auto simp: v_Inr)
      then show thesis using that [of vc] start assms(2) good n by simp
    next
      case False
      then obtain r1 vc1 where l: "resolve_loop vr fuel want_meta (follow \<or> must_be_dir) must_be_dir 0 begin_at (rev future) vc = (Some (Inr r1), vc1)"
        and n: "vthen (vnotice key (Resolved r1) False) (\<lambda>_. vret r1) vc1 = (Some (Inr r), vc')"
        using run by (auto simp: Let_def begin_at_def vthen_Inr)
      have "r1 = r" using n by (auto simp: v_Inr)
      then show thesis
        using that [of vc1] n resolve_loop_ok [OF l good] absent_key.keeps_loop [OF start]
          resolutions.keeps_loop [OF assms(2)] bounded.keeps_loop l
        by (metis snd_conv)
    qed
    then have "cache_notice key (Resolved r) False vc1 = Inr vc'"
      by (auto simp: v_Inr vnotice_def split: sum.splits)
    then show thesis using computed vc1 by (simp add: key_def)
  qed
qed

lemma resolve_result:
  assumes "resolve vr fuel path parent want_meta follow vc = (Some (Inr r), vc')"
  shows "resolve_path vr fuel path parent want_meta follow vc = (Some (Inr r), vc') \<and>
    (case snd (last r) of Some item \<Rightarrow> follow \<longrightarrow> mode_is S_ISLNK item = Inr False | None \<Rightarrow> True)"
proof -
  obtain q vc1 where q: "resolve_path vr fuel path parent want_meta follow vc = (Some (Inr q), vc1)"
    using assms by (auto simp: resolve_def vthen_Inr)
  then show ?thesis
    using assms by (cases "snd (last q)"; cases follow)
      (auto simp: resolve_def vthen_def [of "resolve_path a b c d e f" for a b c d e f] v_Inr)
qed

text \<open>A repository with a tag, for the witnesses.\<close>

definition repo_w :: vfs_repo where
  "repo_w = \<lparr>vr_id = 7, vr_cat = (\<lambda>ref. Inr (Some (ref, ''blob'', 4, [''data'']))),
     vr_refs = (\<lambda>names heads tgs. ([(''refs/tags/t'', oid_of CHR ''b'')], None)),
     vr_rev_list = (\<lambda>refs fmt p. ([], None)), vr_local = (\<lambda>t. [])\<rparr>"

definition cache_0 :: vfs_cache where
  "cache_0 = \<lparr>vc_map = [], vc_keys = [], vc_rand = (\<lambda>k. k)\<rparr>"

definition tag_path_w :: "metadata resolution" where
  "tag_path_w = [([], Some root_item), (''.tag'', Some tags_item), (''t'', Some (Item (oid_of CHR ''b'') (Mode default_file_mode)))]"

lemma resolve_w: "fst (resolve repo_w 0 ''/.tag/t'' [] False True cache_0) = Some (Inr tag_path_w)"
  by code_simp

text \<open>A directory with a link to itself.\<close>

definition loop_dir_w :: "tree_ent list" where
  "loop_dir_w = [(GIT_MODE_SYMLINK, ''l'', oid_of CHR ''l'')]"

definition loop_repo_w :: vfs_repo where
  "loop_repo_w = repo_w\<lparr>vr_cat := objects_cat [(oid_of CHR ''D'', ''tree'', concat (map ent_bytes loop_dir_w)),
     (oid_of CHR ''l'', ''blob'', ''l'')]\<rparr>"

abbreviation link_w :: vitem where "link_w \<equiv> Item (oid_of CHR ''l'') (Mode default_symlink_mode)"

lemma loop_repo_objects:
  "object_at (vr_cat loop_repo_w) (hexlify (oid_of CHR ''D'')) = Inr (''tree'', concat (map ent_bytes loop_dir_w))"
  "object_at (vr_cat loop_repo_w) (hexlify (oid_of CHR ''l'')) = Inr (''blob'', ''l'')"
  by (simp_all add: loop_repo_w_def object_at_objects_cat)

lemma loop_dir_items:
  "tree_items (vr_cat loop_repo_w) 0 (oid_of CHR ''D'') (concat (map ent_bytes loop_dir_w)) [''l''] False False =
     ([(''l'', link_w)], Some (Inr ()))"
proof -
  have "tree_entries (concat (map ent_bytes loop_dir_w)) = Inr loop_dir_w"
    by (rule tree_entries_ents) (simp add: loop_dir_w_def valid_ent_def mode_defs)
  moreover have "scan_head False loop_dir_w None None False = Inr (None, None)" by code_simp
  moreover have "tree_items_except_dot (oid_of CHR ''D'') loop_dir_w [''l''] None False = ([(''l'', link_w)], Some (Inr ()))"
    by code_simp
  ultimately show ?thesis by (simp add: tree_items_def Let_def gen_then_def nothing_def)
qed

lemma loop_lookup:
  "lookup_segment loop_repo_w 0 False (Item (oid_of CHR ''D'') (Mode default_dir_mode)) ''l'' vc = (Some (Inr (Some link_w)), vc)"
proof -
  have "mode_is S_ISDIR (Item (oid_of CHR ''D'') (Mode default_dir_mode)) = Inr True" by code_simp
  then show ?thesis
    by (simp add: lookup_segment_def contents_def Let_def loop_repo_objects loop_dir_items vall_def vthen_def vlift_def vret_def)
qed

lemma loop_readlink: "readlink (vr_cat loop_repo_w) link_w = Inr ''l''"
proof -
  have "mode_is S_ISLNK link_w = Inr True" by code_simp
  moreover obtain o' k it where "get_ref (vr_cat loop_repo_w) (hexlify (oid_of CHR ''l'')) = Inr (Some (o', ''blob'', k, it))" "concat it = ''l''"
    using object_at_get [OF loop_repo_objects(2)] by blast
  ultimately show ?thesis by (simp add: readlink_def item_oid_def readlink_blob_def)
qed

section \<open>Properties\<close>

text \<open>C14: whatever was resolved before, and whatever the repository holds, a resolution that succeeds
  starts at the root, goes through directories only, and does not end in a symbolic link that was to
  be followed; every resolution in the cache stays one that starts at the root and goes through
  directories.\<close>

theorem resolutions_are_rooted:
  assumes "resolve vr fuel path parent want_meta follow vc = (Some (Inr r), vc')"
    and "resolutions_ok vc" "parent = [] \<or> well_rooted parent"
  shows "well_rooted r \<and> resolutions_ok vc' \<and>
    (case snd (last r) of Some item \<Rightarrow> follow \<longrightarrow> mode_is S_ISLNK item = Inr False | None \<Rightarrow> True)"
proof -
  have p: "resolve_path vr fuel path parent want_meta follow vc = (Some (Inr r), vc')"
    and l: "case snd (last r) of Some item \<Rightarrow> follow \<longrightarrow> mode_is S_ISLNK item = Inr False | None \<Rightarrow> True"
    using resolve_result [OF assms(1)] by blast+
  show ?thesis
  proof (cases rule: resolve_path_cases [OF p assms(2,3)])
    case 1
    then show ?thesis using assms(2) l by simp
  next
    case (2 vc1)
    have "resolutions_ok vc'" by (rule notice_entry_ok [OF 2(2,5)]) (simp add: cached_ok_def 2(3))
    then show ?thesis using 2(3) l by simp
  qed
qed

theorem resolutions_are_rooted_witness: "well_rooted tag_path_w"
  using resolutions_are_rooted [of repo_w 0 "''/.tag/t''" "[]" False True cache_0 tag_path_w] resolve_w
  by (simp add: prod_eq_iff resolutions_ok_def cache_0_def)

text \<open>C40: a path that was resolved once is answered from the cache from then on, without a look at the
  repository: as long as nothing else is noticed, the same question has the same answer, for any
  repository of that identity.\<close>

theorem resolved_paths_are_remembered:
  assumes "resolve_path vr fuel path parent want_meta follow vc = (Some (Inr r), vc')"
    and "vfs_cache_ok vc" "resolutions_ok vc" "parent = [] \<or> well_rooted parent" "vr_id vr' = vr_id vr"
  shows "resolve_path vr' fuel' path parent want_meta follow vc' = (Some (Inr r), vc')"
proof -
  define key where "key = resolve_key vr want_meta follow parent path"
  have key': "resolve_key vr' want_meta follow parent path = key" using assms(5) by (simp add: key_def resolve_key_def)
  have valid: "is_valid_cache_key key" by (simp add: is_valid_cache_key_def key_def resolve_key_tag)
  have "cache_get key vc' = Inr (Some (Resolved r)) \<and> well_rooted r"
  proof (cases rule: resolve_path_cases [OF assms(1,3,4)])
    case 1
    then show ?thesis by (simp add: key_def)
  next
    case (2 vc1)
    have "map_of (vc_map vc1) key = None" using 2(1) by (simp add: absent_def key_def)
    then show ?thesis
      using cache_notice_ok_aux [OF 2(4) [OF assms(2)] valid, of "Resolved r" False] 2(3,5) by (simp add: key_def)
  qed
  then obtain x q where "cache_get key vc' = Inr (Some (Resolved (x # q)))" "r = x # q"
    by (cases r) (auto simp: well_rooted_def)
  then show ?thesis
    by (simp add: resolve_path_def Let_def key' vthen_def vcached_def vlift_def vret_def)
qed

theorem resolved_paths_are_remembered_witness:
  "\<exists>vc. resolve_path repo_w 5 ''/.tag/t'' [] False True vc = (Some (Inr tag_path_w), vc)"
proof -
  have "resolve repo_w 0 ''/.tag/t'' [] False True cache_0 =
      (Some (Inr tag_path_w), snd (resolve repo_w 0 ''/.tag/t'' [] False True cache_0))"
    using resolve_w by (simp add: prod_eq_iff)
  from conjunct1 [OF resolve_result [OF this]] show ?thesis
    using resolved_paths_are_remembered [of repo_w 0 "''/.tag/t''" "[]" False True cache_0 tag_path_w _ repo_w 5]
    by (auto simp: vfs_cache_ok_def resolutions_ok_def cache_0_def)
qed

text \<open>an absolute link in the middle of a path: the elements after it are dropped, so with \<open>a\<close> a link to
  \<open>/x\<close> the path \<open>a/b\<close> is resolved to \<open>/x\<close>.\<close>

theorem absolute_link_drops_rest:
  "after_link hops past [''b''] ''/x'' = Go (hops + 1) [([], Some root_item)] [''x''] \<and>
   after_link hops past [''b''] ''/'' = Found [([], Some root_item)]"
proof -
  have "decompose_path ''/x'' = (True, False, [''x''])" "decompose_path ''/'' = (True, True, [])" by code_simp+
  then show ?thesis by (simp add: after_link_def)
qed

text \<open>C18: links that lead around in a circle are refused: a link that leads back to its own name in the
  same directory, wherever the cache stands, is followed 101 times and then ends the resolution with
  \<open>ELOOP\<close> and the place of the link.\<close>

theorem circular_link_refused:
  assumes "snd (last past) = Some dir" "segment \<noteq> ''..''" "decompose_path target = (False, must, [segment])"
    and "\<And>vc. \<exists>vc'. lookup_segment vr fuel want_meta dir segment vc = (Some (Inr (Some link)), vc')"
    and "item_mode link = Some m" "S_ISLNK m" "readlink (vr_cat vr) link = Inr target" "hops \<le> 101"
  shows "\<exists>vc'. resolve_loop vr fuel want_meta True must_be_dir hops past [segment] vc =
    (Some (Inl (io_err ELOOP ''too many symlinks'' (Some (past @ [(segment, Some link)])))), vc')"
  using assms(8)
proof (induction "101 - hops" arbitrary: hops vc)
  case 0
  then have h: "hops = 101" by simp
  obtain vc' where l: "lookup_segment vr fuel want_meta dir segment vc = (Some (Inr (Some link)), vc')"
    using assms(4) by blast
  have "resolve_round vr fuel want_meta True must_be_dir hops past [segment] vc =
      (Some (Inl (io_err ELOOP ''too many symlinks'' (Some (past @ [(segment, Some link)])))), vc')"
    using assms(1,2,5,6) l h
    by (simp add: resolve_round_def resolve_segment_def follow_link_def mode_is_def vthen_def vlift_def vfail_def)
  then show ?case by (subst resolve_loop.simps) simp
next
  case (Suc n)
  obtain vc1 where l: "lookup_segment vr fuel want_meta dir segment vc = (Some (Inr (Some link)), vc1)"
    using assms(4) by blast
  have not_more: "\<not> 100 < hops" using Suc.hyps(2) by linarith
  have "resolve_round vr fuel want_meta True must_be_dir hops past [segment] vc = (Some (Inr (Go (hops + 1) past [segment])), vc1)"
    using assms(1,2,3,5,6,7) l not_more
    by (simp add: resolve_round_def resolve_segment_def follow_link_def after_link_def mode_is_def vthen_def vlift_def vret_def)
  moreover have "n = 101 - (hops + 1)" "hops + 1 \<le> 101" using Suc.hyps(2) by linarith+
  ultimately show ?case
    using Suc.hyps(1) [of "hops + 1" vc1] by (subst resolve_loop.simps) simp
qed

theorem circular_link_refused_witness:
  "\<exists>vc'. resolve_loop loop_repo_w 0 False True False 0
     [([], Some root_item), (''d'', Some (Item (oid_of CHR ''D'') (Mode default_dir_mode)))] [''l''] cache_0 =
   (Some (Inl (io_err ELOOP ''too many symlinks''
     (Some [([], Some root_item), (''d'', Some (Item (oid_of CHR ''D'') (Mode default_dir_mode))), (''l'', Some link_w)]))), vc')"
proof -
  have "decompose_path ''l'' = (False, False, [''l''])" "item_mode link_w = Some default_symlink_mode" "S_ISLNK default_symlink_mode"
    by code_simp+
  from circular_link_refused [OF _ _ this(1) _ this(2,3) loop_readlink,
      of "[([], Some root_item), (''d'', Some (Item (oid_of CHR ''D'') (Mode default_dir_mode)))]"
        "Item (oid_of CHR ''D'') (Mode default_dir_mode)" 0 False 0 False cache_0]
  show ?thesis using loop_lookup by simp
qed

end
