(* ===== verification/Vfs_Paths.thy ===== *)
theory Vfs_Paths
  imports Vfs_Resolve
begin

text \<open>What \<open>_decompose_path\<close> of \<open>lib/bup/vfs.py\<close> makes of a path, in terms of its parts between slashes.\<close>

lemma split_on_Cons:
  "split_on c (x # xs) = (if x = c then [] # split_on c xs else (x # hd (split_on c xs)) # tl (split_on c xs))"
  by (cases "split_on c xs") auto

lemma split_on_hd_tl: "split_on c s = hd (split_on c s) # tl (split_on c s)"
  by simp

lemma split_on_two: "split_on c (xs @ c # ys) = split_on c xs @ split_on c ys"
  by (induction xs) (auto simp: split_on_Cons simp del: split_on.simps(2))

lemma join_snoc: "xs \<noteq> [] \<Longrightarrow> join [c] (xs @ [l]) = join [c] xs @ c # l"
proof (induction xs)
  case Nil
  then show ?case by simp
next
  case (Cons x xs)
  then show ?case by (cases xs) auto
qed

text \<open>The last part of a path that has more than one comes after a slash.\<close>

lemma last_part:
  assumes "last (split_on c s) = l" "s \<noteq> l"
  shows "suffix (c # l) s"
proof -
  obtain xs where xs: "split_on c s = xs @ [l]"
    using assms(1) by (metis append_butlast_last_id split_on_not_Nil)
  have s: "join [c] (xs @ [l]) = s" using join_split_on [of c s] xs by simp
  have "xs \<noteq> []" using s assms(2) by auto
  then have "s = join [c] xs @ (c # l)" using s join_snoc [of xs c l] by simp
  then show ?thesis by (auto simp: suffix_def)
qed

text \<open>Collapsing the slashes changes nothing but the number of empty parts.\<close>

lemma one_slash_split:
  "hd (split_on slash (one_slash s)) = hd (split_on slash s) \<and>
   filter (\<lambda>x. x \<noteq> []) (tl (split_on slash (one_slash s))) = filter (\<lambda>x. x \<noteq> []) (tl (split_on slash s)) \<and>
   last (split_on slash (one_slash s)) = last (split_on slash s) \<and>
   (tl (split_on slash (one_slash s)) = [] \<longleftrightarrow> tl (split_on slash s) = [])"
proof (induction s)
  case Nil
  then show ?case by simp
next
  case (Cons c s)
  obtain x xs where X: "split_on slash (one_slash s) = x # xs" by (cases "split_on slash (one_slash s)") simp_all
  obtain y ys where Y: "split_on slash s = y # ys" by (cases "split_on slash s") simp_all
  have "x = y \<and> filter (\<lambda>x. x \<noteq> []) xs = filter (\<lambda>x. x \<noteq> []) ys \<and> last (x # xs) = last (y # ys) \<and> (xs = [] \<longleftrightarrow> ys = [])"
    using Cons.IH unfolding X Y list.sel .
  then have IH: "x = y" "filter (\<lambda>x. x \<noteq> []) xs = filter (\<lambda>x. x \<noteq> []) ys" "last (x # xs) = last (y # ys)" "xs = [] \<longleftrightarrow> ys = []"
    by blast+
  consider "c = slash" "prefix [slash] s" | "c = slash" "\<not> prefix [slash] s" | "c \<noteq> slash" by blast
  then show ?case
  proof cases
    case 1
    then obtain s' where "s = slash # s'" by (cases s) auto
    then have "y = []" "ys \<noteq> []" using Y by auto
    then show ?thesis using 1 IH by (simp add: X Y)
  next
    case 2
    then show ?thesis using IH by (simp add: X Y)
  next
    case 3
    then show ?thesis using IH by (auto simp: X Y split: if_splits)
  qed
qed

lemma one_slash_prefix: "prefix [slash] (one_slash s) \<longleftrightarrow> prefix [slash] s"
proof (induction s)
  case Nil
  then show ?case by simp
next
  case (Cons c s)
  then show ?case by auto
qed

lemma one_slash_single: "\<not> sublist [slash, slash] (one_slash s)"
proof (induction s)
  case Nil
  then show ?case by (simp add: sublist_def)
next
  case (Cons c s)
  show ?case
  proof (cases "c = slash \<and> prefix [slash] s")
    case True
    then show ?thesis using Cons by simp
  next
    case False
    have "one_slash s \<noteq> [] \<Longrightarrow> hd (one_slash s) = slash \<Longrightarrow> prefix [slash] s"
      using one_slash_prefix [of s] by (cases "one_slash s") auto
    then show ?thesis using Cons False by (auto simp: sublist_two_Cons)
  qed
qed

lemma one_slash_Nil: "one_slash s = [] \<longleftrightarrow> s = []"
  by (induction s) auto

definition real_parts :: "bytes \<Rightarrow> bytes list" where
  "real_parts s = filter (\<lambda>x. x \<notin> {[], ''.''}) (split_on slash s)"

lemma real_parts_one_slash: "real_parts (one_slash s) = real_parts s"
proof -
  have "filter (\<lambda>x. x \<noteq> []) (split_on slash (one_slash s)) = filter (\<lambda>x. x \<noteq> []) (split_on slash s)"
    by (subst (1 2) split_on_hd_tl) (simp only: filter.simps one_slash_split)
  then have "filter (\<lambda>x. x \<noteq> ''.'') (filter (\<lambda>x. x \<noteq> []) (split_on slash (one_slash s))) =
    filter (\<lambda>x. x \<noteq> ''.'') (filter (\<lambda>x. x \<noteq> []) (split_on slash s))" by simp
  then show ?thesis by (simp add: real_parts_def conj_commute)
qed

text \<open>What holds of the path while its ends are cut off.\<close>

definition tidy :: "bytes \<Rightarrow> bool" where
  "tidy s \<longleftrightarrow> s \<noteq> [] \<and> \<not> prefix [slash] s \<and> \<not> sublist [slash, slash] s"

lemma tidy_cut:
  assumes "tidy (s @ slash # u)"
  shows "tidy s \<and> \<not> suffix [slash] s"
proof -
  have "s \<noteq> []" using assms by (auto simp: tidy_def)
  moreover have "\<not> prefix [slash] s" using assms by (cases s) (auto simp: tidy_def)
  moreover have "\<not> sublist [slash, slash] s"
  proof
    assume "sublist [slash, slash] s"
    then obtain p q where "s = p @ [slash, slash] @ q" by (auto simp: sublist_def)
    then have "s @ slash # u = p @ [slash, slash] @ (q @ slash # u)" by simp
    then show False using assms unfolding tidy_def by (metis sublist_appendI)
  qed
  moreover have "\<not> suffix [slash] s"
  proof
    assume "suffix [slash] s"
    then obtain t where "s = t @ [slash]" by (auto simp: suffix_def)
    then have "s @ slash # u = t @ [slash, slash] @ u" by simp
    then show False using assms unfolding tidy_def by (metis sublist_appendI)
  qed
  ultimately show ?thesis by (simp add: tidy_def)
qed

lemma tidy_parts: "tidy s \<Longrightarrow> \<not> suffix [slash] s \<Longrightarrow> filter (\<lambda>x. x \<noteq> ''.'') (split_on slash s) = real_parts s"
  using empty_part [of slash s] by (auto simp: tidy_def real_parts_def intro!: filter_cong)
lemma strip_end:
  assumes "tidy s" "e = [slash] \<or> e = [slash, CHR ''.''] \<and> \<not> suffix [slash] s"
  obtains (cut) t where "suffix e s" "s = t @ e" "strip_suffix e (s, must) = (t, True)" "tidy t" "\<not> suffix [slash] t"
      "real_parts s = real_parts t"
  | (whole) "\<not> suffix e s" "strip_suffix e (s, must) = (s, must)"
proof (cases "suffix e s")
  case True
  then obtain t where t: "s = t @ e" by (auto simp: suffix_def)
  have e: "e = slash # tl e" using assms(2) by auto
  have "tidy t \<and> \<not> suffix [slash] t" using assms(1) t e tidy_cut [of t "tl e"] by auto
  moreover have "strip_suffix e (s, must) = (t, True)" using True t by (simp add: strip_suffix_def)
  moreover have "real_parts s = real_parts t"
    using assms(2) by (auto simp: t real_parts_def split_on_two)
  ultimately show thesis using cut True t by blast
next
  case False
  then show thesis using whole by (simp add: strip_suffix_def)
qed

section \<open>Properties\<close>

text \<open>C39: a path is taken apart as it reads: it is absolute when it starts with a slash, it must be a
  directory when its last part is empty or a dot, and its elements, last one first, are its parts other
  than those.\<close>

theorem decompose_path_parts:
  assumes "path \<noteq> []"
  shows "decompose_path path =
    (prefix ''/'' path, last (split_on slash path) \<in> {[], ''.''}, rev (filter (\<lambda>x. x \<notin> {[], ''.''}) (split_on slash path)))"
proof -
  define p where "p = one_slash path"
  have p: "p \<noteq> []" "\<not> sublist [slash, slash] p" "prefix ''/'' p = prefix ''/'' path" "real_parts p = real_parts path"
    "last (split_on slash p) = last (split_on slash path)"
    using assms one_slash_single one_slash_prefix real_parts_one_slash one_slash_split one_slash_Nil by (auto simp: p_def)
  show ?thesis
  proof (cases "p = ''/''")
    case True
    then have "real_parts path = []" "last (split_on slash path) = []" "prefix ''/'' path"
      using p(3-5) by (auto simp: real_parts_def)
    then show ?thesis using True by (simp add: decompose_path_def real_parts_def flip: p_def)
  next
    case False
    define q where "q = (if prefix ''/'' p then drop 1 p else p)"
    have q: "tidy q" "real_parts q = real_parts p" "last (split_on slash q) = last (split_on slash p)"
      using p(1,2) False by (auto simp: q_def tidy_def real_parts_def sublist_two_Cons prefix_def neq_Nil_conv)
    obtain r m where r: "strip_suffix ''/'' (q, False) = (r, m)" "tidy r" "\<not> suffix [slash] r" "real_parts r = real_parts q"
      "m \<longleftrightarrow> last (split_on slash q) = []" "\<not> m \<Longrightarrow> r = q"
    proof (cases rule: strip_end [OF q(1), of "[slash]" False])
      case 1
      then show ?case by simp
    next
      case (2 t)
      then show thesis using that [of t True] by (simp add: split_on_two)
    next
      case 3
      moreover from this have "last (split_on slash q) \<noteq> []"
        using last_part [of slash q "[]"] q(1) by (auto simp: tidy_def)
      ultimately show thesis using that [of q False] q(1) by simp
    qed
    obtain t must where t: "strip_suffix ''/.'' (r, m) = (t, must)" "tidy t" "\<not> suffix [slash] t" "real_parts t = real_parts r"
      "must \<longleftrightarrow> m \<or> suffix ''/.'' r"
    proof (cases rule: strip_end [OF r(2), of "''/.''" m])
      case 1
      then show ?case using r(3) by simp
    next
      case (2 t)
      then show thesis using that [of t True] by simp
    next
      case 3
      then show thesis using that [of r m] r by simp
    qed
    have parts: "filter (\<lambda>x. x \<noteq> ''.'') (split_on slash t) = real_parts path"
      using tidy_parts [OF t(2,3)] t(4) r(4) q(2) p(4) by simp
    have "must \<or> real_parts path = [] \<longleftrightarrow> last (split_on slash path) \<in> {[], ''.''}"
    proof (cases m)
      case True
      then show ?thesis using t(5) r(5) q(3) p(5) by simp
    next
      case nm: False
      have l: "last (split_on slash path) = last (split_on slash q)" "last (split_on slash q) \<noteq> []"
        using nm r(5) q(3) p(5) by auto
      have rq: "r = q" "real_parts path = real_parts q" using nm r(6) q(2) p(4) by auto
      have "suffix ''/.'' q \<or> real_parts q = [] \<longleftrightarrow> last (split_on slash q) = ''.''"
      proof
        assume "suffix ''/.'' q \<or> real_parts q = []"
        then show "last (split_on slash q) = ''.''"
        proof
          assume "suffix ''/.'' q"
          then show ?thesis by (auto simp: suffix_def split_on_two)
        next
          assume "real_parts q = []"
          then have "\<forall>x\<in>set (split_on slash q). x \<in> {[], ''.''}" unfolding real_parts_def filter_empty_conv by blast
          then have "last (split_on slash q) \<in> {[], ''.''}" using last_in_set [OF split_on_not_Nil] by (rule bspec)
          then show ?thesis using l(2) by blast
        qed
      next
        assume d: "last (split_on slash q) = ''.''"
        show "suffix ''/.'' q \<or> real_parts q = []"
          using last_part [OF d] by (cases "q = ''.''") (auto simp: real_parts_def)
      qed
      then show ?thesis using nm t(5) rq l by simp
    qed
    moreover have "decompose_path path = (prefix ''/'' p, must \<or> real_parts path = [], rev (real_parts path))"
    proof -
      have "decompose_path path = (case strip_suffix ''/.'' (strip_suffix ''/'' (q, False)) of (path2, must) \<Rightarrow>
          (prefix ''/'' p, must \<or> rev (filter (\<lambda>x. x \<noteq> ''.'') (split_on slash path2)) = [],
           rev (filter (\<lambda>x. x \<noteq> ''.'') (split_on slash path2))))"
        unfolding decompose_path_def p_def [symmetric] Let_def if_not_P [OF False] q_def ..
      then show ?thesis by (simp only: r(1) t(1) case_prod_conv parts rev_is_Nil_conv)
    qed
    ultimately show ?thesis using p(3) by (simp add: real_parts_def)
  qed
qed

theorem decompose_path_parts_witness:
  "decompose_path ''/a//b/./'' = (True, True, [''b'', ''a''])"
proof -
  have s: "split_on slash ''/a//b/./'' = [[], ''a'', [], ''b'', ''.'', []]" by code_simp
  show ?thesis using decompose_path_parts [of "''/a//b/./''"] by (simp add: s)
qed

end
