(* ===== verification/Spec2Isabelle.thy ===== *)
theory Spec2Isabelle
  imports Vint Shquote Git_Format Hash_Split Tree_Stack Midx Midx_Dir Bloom Conn Msg_Enc Git_Commit Pack_List Pack_Store
    Git_Walk Git_Repo Cat_Pipe Helper_Paths Prune_Older Bup_Rm Bup_Url Stat_Links Bup_Index Index_Laws Bup_Protocol Bup_Client Meta_Laws
    Vfs_Tree_Laws Vfs_Laws Vfs_Paths
begin

text \<open>
  A model of bup, the backup program (\<open>src/lib/bup\<close>), with the theorems that make its parts correct.

  \<^bold>\<open>The program.\<close>  bup keeps backups in a git repository.  \<open>save\<close> walks the file system through
  an index of it (\<open>index.py\<close>, \<open>hlinkdb.py\<close>, \<open>xstat.py\<close>), cuts files into chunks with a rolling checksum
  (\<open>hashsplit.py\<close>), builds git trees of chunks and directories with the metadata of their files
  (\<open>tree.py\<close>, \<open>metadata.py\<close>, \<open>vint.py\<close>) and puts the objects into packs (\<open>git.py\<close>, \<open>commit.py\<close>).
  What is already there is found through the packs' indexes, multi-indexes that merge many of them (\<open>midx.py\<close>)
  and bloom filters (\<open>bloom.py\<close>).  A repository may be behind a client and a server (\<open>client.py\<close>,
  \<open>protocol.py\<close>, \<open>url.py\<close>, connections of \<open>helpers.py\<close>).  Reading back goes through a virtual file
  system of branches, saves, directories and files (\<open>vfs.py\<close>), which gets its objects from
  \<open>git cat-file\<close>.  Saves are thinned out and removed by \<open>cmd/prune_older.py\<close> and \<open>rm.py\<close>.

  \<^bold>\<open>Conventions.\<close>  Python's \<open>bytes\<close> are lists of \<open>char\<close>, ordered as Python orders them; its integers
  are \<open>int\<close>, C's are words or integers with the overflow written out.  An operation that may raise
  returns \<open>Inl\<close> of a \<open>py_error\<close> or \<open>Inr\<close> of its result (\<open>res\<close>, \<open>res_bind\<close>, \<open>py_assert\<close>).
  State is passed explicitly, as records; a generator is the list of what it yields and how it ends.
  Code that is not in the repository is a parameter: SHA-1, zlib, what a run of git answers, the file
  system, the time zone, the modules \<open>ipaddress\<close> and \<open>heapq\<close>.  What the theorems need of it are
  hypotheses that state its documented behaviour.  A theorem with hypotheses is followed by a witness
  that applies it to concrete data.  Some theorems state behaviour that its authors may
  not want; their texts say so.

  \<^bold>\<open>Foundations.\<close>
  \<^item> \<open>Bup_Prelude\<close>: bytes, errors, slices, the collections of simplification rules.
  \<^item> \<open>Py_Bytes\<close>, \<open>Py_Struct\<close>, \<open>Py_Path\<close>: the operations of Python's \<open>bytes\<close>, \<open>struct\<close> and
    \<open>os.path\<close> the code uses, with what they promise (splitting and joining, reading numbers back).
  \<^item> \<open>Streams\<close>: \<open>linereader\<close>, \<open>chunkyreader\<close>, \<open>partition\<close> and \<open>merge_iter\<close> of \<open>helpers.py\<close>; merging sorted
    streams gives their sorted union.

  \<^bold>\<open>Formats.\<close>
  \<^item> \<open>Vint\<close>: \<open>vint.py\<close> and the C encoders of \<open>_helpers.c\<close>, with their buffers; everything encoded
    decodes.
  \<^item> \<open>Git_Format\<close>: mangled names, trees and objects in packs (\<open>git.py\<close>); trees and objects read back.
  \<^item> \<open>Git_Commit\<close>: commits and their messages (\<open>commit.py\<close>); a commit reads back.
  \<^item> \<open>Shquote\<close>, \<open>Msg_Enc\<close>, \<open>Bup_Url\<close>: \<open>shquote.py\<close>, \<open>io.py\<close>, \<open>url.py\<close>; quoted text is read
    back by the shell, a URL that is rendered parses to itself.
  \<^item> \<open>Meta_Paths\<close>, \<open>Metadata\<close>, \<open>Meta_Laws\<close>: \<open>metadata.py\<close>, its records, archives and extraction;
    metadata reads back and extraction does not leave the directory, with the one exception that is stated.

  \<^bold>\<open>Storing.\<close>
  \<^item> \<open>Hash_Split\<close>: from the blobs of the splitter to a tree of chunks (\<open>split_to_blob_or_tree\<close> and
    its helpers).  The C splitter is any list of blobs and levels.  \<open>content\<close> says what a stored file holds,
    and the tree holds exactly the bytes of the blobs.
  \<^item> \<open>Tree_Stack\<close>: \<open>tree.py\<close>, abbreviated names, metadata entries, split trees and the stack; a split
    tree unfolds to the entries it was made of.
  \<^item> \<open>Pack_Idx\<close>, \<open>Midx\<close>, \<open>Midx_Merge\<close>, \<open>Midx_Dir\<close>, \<open>Bloom\<close>: index files as bytes, with their
    C writers (\<open>write_idx\<close>, \<open>merge_into\<close>, \<open>bloom_add\<close>); searching finds exactly what was written, and a bloom
    filter never denies an id that was added.
  \<^item> \<open>Pack_List\<close>: \<open>PackIdxList\<close>, which searches all of these through the interface \<open>index\<close>, a locale
    with an interpretation for each kind of file.
  \<^item> \<open>Pack_Store\<close>: \<open>LocalPackStore\<close> and \<open>PackWriter\<close>; every object given to the writer is in a finished
    pack with an index that finds it.
  \<^item> \<open>Stat_Links\<close>, \<open>Bup_Index\<close>, \<open>Index_Laws\<close>: \<open>xstat.py\<close>, \<open>hlinkdb.py\<close>, \<open>index.py\<close>; the index reads
    back what was added, and looking up a name finds its entry.

  \<^bold>\<open>Repositories.\<close>
  \<^item> \<open>Git_Repo\<close>, \<open>Cat_Pipe\<close>, \<open>Git_Walk\<close>: what bup runs git for, the pipe to \<open>git cat-file\<close>, which
    stays in step with the process, and \<open>walk_object\<close>, which yields children first.
  \<^item> \<open>Helper_Paths\<close>, \<open>Prune_Older\<close>, \<open>Bup_Rm\<close>: paths and names, which saves are kept, and removing
    saves and branches.
  \<^item> \<open>Conn\<close>, \<open>Bup_Protocol\<close>, \<open>Bup_Client\<close>: the multiplexer and the connections, the server, and the
    client.  A call is what the client sends, the server's run on it, and what the client makes of the reply;
    the theorems say that a call over the wire gives what the repository gives.

  \<^bold>\<open>The virtual file system\<close>, \<open>vfs.py\<close>.
  \<^item> \<open>Vfs_File\<close>: \<open>_ChunkReader\<close> and \<open>_FileReader\<close>.  The specification is a flat file with an offset
    (\<open>flat_step\<close>); a reader on a stored file refines it, and what the splitter stored reads back.
  \<^item> \<open>Vfs_Tree\<close>, \<open>Vfs_Tree_Laws\<close>: listing directories, flat or split, with their metadata; asking for
    some names is filtering the full listing.
  \<^item> \<open>Vfs_Cache\<close>: the cache with its random eviction, and its bound.
  \<^item> \<open>Vfs_Resolve\<close>, \<open>Vfs_Laws\<close>, \<open>Vfs_Paths\<close>: the root, branches, tags and saves, and the resolution of
    paths with links.  The locale \<open>cache_law\<close> lifts a property that every notice of a commit or branch keeps
    to all operations; it is interpreted for the bound, for the resolutions kept, and for a key that is absent.

  \<^bold>\<open>Loops and fuel.\<close>  Loops that always end are functions with a measure (the reader's loop, the rounds of
    \<open>_resolve_path\<close>, of which at most 101 follow links).  Loops over input take its length, plus one, as fuel and
    each round uses up some of it.  Where the store could hold a tree that contains itself (\<open>walk_object\<close>,
    the chunk trees and trees of \<open>vfs.py\<close>) the result is \<open>None\<close> when the fuel runs out; the theorems name
    a fuel that is enough, such as the depth of the file, and prove that the result is then there.

  \<^bold>\<open>Not modelled.\<close>  The commands beyond those named, option parsing and start up, since they only put the parts
  above together or print; \<open>gc.py\<close>, \<open>get.py\<close> and \<open>rewrite.py\<close>; the fuse, ftp and web front ends; walking and
  restoring of the real file system, of which the calls are the system's; the rolling checksum in C.
  Progress messages, logging, locking, timing and the durability of files are left out everywhere.
\<close>

end
